(* ===== verification/QDocPrelude.thy ===== *)
theory QDocPrelude
  imports
    Complex_Main
    "HOL-Library.Word"
    "HOL-Library.List_Lexorder"
    "HOL-Library.Char_ord"
    "HOL-Library.Sublist"
    "HOL-Library.Multiset"
begin

text \<open>
  The vocabulary shared by every component of the development: byte strings, the byte of
  an unsigned char, and finite maps kept as association lists with strictly increasing
  keys.

  A \<open>QString\<close> and a \<open>QByteArray\<close> are both a \<open>string\<close> here (a list of 8-bit
  characters): a \<open>QString\<close> of the model ranges over the Latin-1 characters, on which
  \<open>toLatin1\<close> and \<open>fromLatin1\<close> are the identity. Both Qt types compare element by element,
  which is the order of List_Lexorder over Char_ord.

  A \<open>QMap\<close>, and a \<open>QHash\<close> as a value, is the strictly sorted association list of its
  entries (\<open>sorted_keys\<close>); the order in which a \<open>QHash\<close> is walked is not that order, it is
  a parameter of the model (theory QtJson).
\<close>

named_theorems smap_simps "laws of the finite maps"
named_theorems key_simps "laws of the database keys"
named_theorems kv_simps "laws of the key-value layer"

type_synonym bytes = string

subsection \<open>Unsigned characters\<close>

definition byte_chr :: "8 word \<Rightarrow> char" where
  "byte_chr w = char_of (unat w)"

definition chr_byte :: "char \<Rightarrow> 8 word" where
  "chr_byte c = of_nat (of_char c)"

lemma chr_byte_chr [simp]: "chr_byte (byte_chr w) = w"
proof -
  have "unat w < 256"
    using unsigned_less [of w] by simp
  then show ?thesis by (simp add: byte_chr_def chr_byte_def)
qed

lemma of_char_lt_256: "(of_char c :: nat) < 256"
  by (metis of_char_mod_256 mod_less_divisor zero_less_numeral)

lemma unat_chr_byte [simp]: "unat (chr_byte c) = of_char c"
  using of_char_lt_256 [of c] by (simp add: chr_byte_def unat_of_nat)

lemma byte_chr_byte [simp]: "byte_chr (chr_byte c) = c"
  by (simp add: byte_chr_def)

lemma byte_chr_inject [simp]: "byte_chr a = byte_chr b \<longleftrightarrow> a = b"
  by (metis chr_byte_chr)

lemma of_char_byte_chr [simp]: "(of_char (byte_chr w) :: nat) = unat w"
  by (metis chr_byte_chr unat_chr_byte)

lemma byte_chr_less [simp]: "byte_chr a < byte_chr b \<longleftrightarrow> a < b"
  by (simp add: less_char_def word_less_nat_alt)

lemma unat_of_nat8: "n < 256 \<Longrightarrow> unat (of_nat n :: 8 word) = n"
  by (simp add: unat_of_nat)

text \<open>The increment of an \<open>int\<close> of 32 bits, which wraps around.\<close>

definition int32_inc :: "int \<Rightarrow> int" where
  "int32_inc i = (if i = 2 ^ 31 - 1 then - (2 ^ 31) else i + 1)"

definition int32 :: "int \<Rightarrow> bool" where
  "int32 i \<longleftrightarrow> - (2 ^ 31) \<le> i \<and> i < 2 ^ 31"

lemma int32_inc_range: "int32 i \<Longrightarrow> int32 (int32_inc i)"
  by (simp add: int32_def int32_inc_def)

text \<open>A plain \<open>char\<close> read as an \<open>int\<close> is signed (the x86 ABI).\<close>

definition signed_char :: "char \<Rightarrow> int" where
  "signed_char c = sint (chr_byte c)"

subsection \<open>Finite maps as strictly sorted association lists\<close>

abbreviation sorted_keys :: "('k::linorder \<times> 'v) list \<Rightarrow> bool" where
  "sorted_keys xs \<equiv> sorted_wrt (<) (map fst xs)"

fun smap_put :: "'k::linorder \<Rightarrow> 'v \<Rightarrow> ('k \<times> 'v) list \<Rightarrow> ('k \<times> 'v) list" where
  "smap_put k v [] = [(k, v)]"
| "smap_put k v ((k', v') # xs) =
     (if k < k' then (k, v) # (k', v') # xs
      else if k = k' then (k, v) # xs
      else (k', v') # smap_put k v xs)"

fun smap_del :: "'k::linorder \<Rightarrow> ('k \<times> 'v) list \<Rightarrow> ('k \<times> 'v) list" where
  "smap_del k [] = []"
| "smap_del k ((k', v') # xs) = (if k = k' then xs else (k', v') # smap_del k xs)"

abbreviation smap_has :: "'k \<Rightarrow> ('k \<times> 'v) list \<Rightarrow> bool" where
  "smap_has k xs \<equiv> map_of xs k \<noteq> None"

lemma set_smap_put: "set (map fst (smap_put k v xs)) = insert k (set (map fst xs))"
  by (induction k v xs rule: smap_put.induct) (simp_all add: insert_commute)

lemma set_smap_put_snd: "snd ` set (smap_put k v xs) \<subseteq> insert v (snd ` set xs)"
  by (induction k v xs rule: smap_put.induct) auto

lemma in_smap_del: "e \<in> set (smap_del k xs) \<Longrightarrow> e \<in> set xs"
  by (induction xs) (auto split: if_splits)

lemma sorted_smap_put [simp, smap_simps]: "sorted_keys xs \<Longrightarrow> sorted_keys (smap_put k v xs)"
proof (induction xs)
  case (Cons e xs)
  obtain k' v' where e: "e = (k', v')" by force
  show ?case
  proof (cases "k < k' \<or> k = k'")
    case True
    with Cons.prems e show ?thesis by (auto dest: order.strict_trans)
  next
    case False
    then have "k' < k" by auto
    with False Cons e show ?thesis
      using set_smap_put [of k v xs] by auto
  qed
qed simp

lemma sorted_smap_del [simp, smap_simps]: "sorted_keys xs \<Longrightarrow> sorted_keys (smap_del k xs)"
proof (induction xs)
  case (Cons e xs)
  then show ?case by (cases e) (auto dest: in_smap_del)
qed simp

lemma map_of_smap_put [simp, smap_simps]: "map_of (smap_put k v xs) = (map_of xs)(k \<mapsto> v)"
  by (induction xs) (auto simp: fun_eq_iff)

lemma map_of_sorted_head: "sorted_keys ((k, v) # xs) \<Longrightarrow> map_of xs k = None"
  by (auto simp: map_of_eq_None_iff)

lemma map_of_smap_del [simp, smap_simps]:
  "sorted_keys xs \<Longrightarrow> map_of (smap_del k xs) = (map_of xs)(k := None)"
proof (induction xs)
  case (Cons e xs)
  obtain k' v' where e: "e = (k', v')" by force
  from Cons.prems have "map_of xs k' = None"
    unfolding e by (rule map_of_sorted_head)
  with Cons e show ?case by (auto simp: fun_eq_iff)
qed simp

lemma sorted_keys_distinct: "sorted_keys xs \<Longrightarrow> distinct (map fst xs)"
  by (metis strict_sorted_iff)

text \<open>A strictly sorted association list is determined by the map it represents.\<close>

lemma sorted_keys_unique:
  "sorted_keys xs \<Longrightarrow> sorted_keys ys \<Longrightarrow> map_of xs = map_of ys \<Longrightarrow> xs = ys"
proof (induction xs arbitrary: ys)
  case Nil
  then show ?case by (cases ys) (auto simp: fun_eq_iff split: if_splits)
next
  case (Cons e xs)
  obtain k v where e: "e = (k, v)" by force
  have "map_of ys k = Some v"
    using Cons.prems(3) e by (metis map_of_Cons_code(2))
  then obtain k' v' ys' where ys: "ys = (k', v') # ys'" by (cases ys) auto
  have "k \<in> set (map fst ys)"
    using \<open>map_of ys k = Some v\<close> by (metis image_eqI fst_conv list.set_map map_of_SomeD)
  then have "k' \<le> k" using Cons.prems(2) ys by auto
  have "map_of ys k' = Some v'" using ys by simp
  then have "map_of (e # xs) k' = Some v'" by (simp only: Cons.prems(3))
  then have "k' \<in> set (map fst (e # xs))"
    by (metis image_eqI fst_conv list.set_map map_of_SomeD)
  then have "k \<le> k'" using Cons.prems(1) e by auto
  with \<open>k' \<le> k\<close> have k: "k' = k" by simp
  with \<open>map_of ys k = Some v\<close> ys have v: "v' = v" by simp
  have "map_of xs = (map_of (e # xs))(k := None)"
    using map_of_sorted_head [of k v xs] Cons.prems(1) e by (auto simp: fun_eq_iff)
  then have "map_of xs = (map_of ys)(k := None)" by (simp only: Cons.prems(3))
  moreover have "map_of ys' = (map_of ys)(k := None)"
    using map_of_sorted_head [of k v ys'] Cons.prems(2) ys k v by (auto simp: fun_eq_iff)
  ultimately have "map_of xs = map_of ys'" by (rule trans [OF _ sym])
  then have "xs = ys'" using Cons.IH Cons.prems ys by simp
  then show ?case using e ys k v by simp
qed

end
