(* ===== verification/QtJson.thy ===== *)
theory QtJson
  imports QDocPrelude
begin

text \<open>
  The Qt values the program computes with.

  A \<open>QJsonValue\<close> is a \<open>json\<close>: its constructors are the values of
  \<open>QJsonValue::Type\<close>. The number of a JSON value is a finite IEEE double, which the
  model keeps as the rational it denotes (the program compares numbers, it never
  computes with them). A \<open>QJsonObject\<close> is the list of its entries in key order,
  as \<open>QJsonObject::keys\<close> delivers them.

  The parts of Qt whose result is not determined by its documentation alone are the fields
  of the record \<open>qt\<close>, an argument of every definition that uses them: the binary JSON
  format, the \<open>QDataStream\<close> formats, the local 8-bit codec, the decimal integer parser,
  and the order in which \<open>QHash::keys\<close> lists the keys. What the program relies on is
  \<open>qt_ok\<close>: reading back what was written gives the value, and \<open>keys\<close> lists
  every key once.

  A \<open>QString\<close> and a \<open>QByteArray\<close> are both lists of 8-bit characters: the strings of the
  model are the Latin-1 ones, on which \<open>toLatin1\<close> and \<open>fromLatin1\<close> are the identity.
\<close>

subsection \<open>JSON values\<close>

datatype json =
    JUndefined
  | JNull
  | JBool bool
  | JNum rat
  | JStr string
  | JArr "json list"
  | JObj "(string \<times> json) list"

type_synonym jobject = "(string \<times> json) list"

fun isObject :: "json \<Rightarrow> bool" where
  "isObject (JObj _) = True"
| "isObject _ = False"

fun isArray :: "json \<Rightarrow> bool" where
  "isArray (JArr _) = True"
| "isArray _ = False"

fun isString :: "json \<Rightarrow> bool" where
  "isString (JStr _) = True"
| "isString _ = False"

fun isDouble :: "json \<Rightarrow> bool" where
  "isDouble (JNum _) = True"
| "isDouble _ = False"

fun isBool :: "json \<Rightarrow> bool" where
  "isBool (JBool _) = True"
| "isBool _ = False"

lemma size_list_entries:
  "size_list (\<lambda>e. size (snd e)) obj \<le> size_list (size_prod (\<lambda>x. 0) size) obj"
  by (induction obj) auto

lemma size_entry: "(k, v) \<in> set obj \<Longrightarrow> size v < size (JObj obj)"
  using size_list_estimation' [of "(k, v)" obj "size v" "size_prod (\<lambda>x. 0) size"] by simp

lemma size_element: "x \<in> set xs \<Longrightarrow> size x < size (JArr xs)"
  using size_list_estimation' [of x xs "size x" size] by simp

text \<open>The conversions return the default value of their type on any other type.\<close>

fun toObject :: "json \<Rightarrow> jobject" where
  "toObject (JObj obj) = obj"
| "toObject _ = []"

fun toArray :: "json \<Rightarrow> json list" where
  "toArray (JArr xs) = xs"
| "toArray _ = []"

fun toString :: "json \<Rightarrow> string" where
  "toString (JStr s) = s"
| "toString _ = []"

fun toBool :: "json \<Rightarrow> bool" where
  "toBool (JBool b) = b"
| "toBool _ = False"

fun toInt :: "json \<Rightarrow> int" where
  "toInt (JNum r) =
     (let (n, d) = quotient_of r
      in if d = 1 \<and> - (2 ^ 31) \<le> n \<and> n < 2 ^ 31 then n else 0)"
| "toInt _ = 0"

definition obj_value :: "jobject \<Rightarrow> string \<Rightarrow> json" where
  "obj_value obj k = (case map_of obj k of None \<Rightarrow> JUndefined | Some v \<Rightarrow> v)"

text \<open>Inserting an undefined value removes the key.\<close>

definition obj_insert :: "string \<Rightarrow> json \<Rightarrow> jobject \<Rightarrow> jobject" where
  "obj_insert k v obj = (if v = JUndefined then smap_del k obj else smap_put k v obj)"

definition arr_at :: "json list \<Rightarrow> int \<Rightarrow> json" where
  "arr_at xs i = (if 0 \<le> i \<and> i < int (length xs) then xs ! nat i else JUndefined)"

text \<open>
  The values a Qt container can hold: no undefined value inside, object keys in strictly
  increasing order.
\<close>

fun wf_json :: "json \<Rightarrow> bool" where
  "wf_json JUndefined = False"
| "wf_json (JArr xs) = (\<forall>x \<in> set xs. wf_json x)"
| "wf_json (JObj obj) = (sorted_keys obj \<and> (\<forall>x \<in> set (map snd obj). wf_json x))"
| "wf_json _ = True"

lemma wf_json_obj_value: "wf_json (JObj obj) \<Longrightarrow> obj_value obj k = JUndefined \<longleftrightarrow> map_of obj k = None"
proof -
  assume wf: "wf_json (JObj obj)"
  show ?thesis
  proof (cases "map_of obj k")
    case (Some v)
    then have "v \<in> set (map snd obj)" by (force dest: map_of_SomeD)
    with wf have "wf_json v" by auto
    with Some show ?thesis by (auto simp: obj_value_def)
  qed (simp add: obj_value_def)
qed

lemma in_smap_put: "e \<in> set (smap_put k v xs) \<Longrightarrow> e = (k, v) \<or> e \<in> set xs"
  by (induction xs) (auto split: if_splits)

lemma wf_obj_insert: "wf_json (JObj obj) \<Longrightarrow> wf_json v \<Longrightarrow> wf_json (JObj (obj_insert k v obj))"
  by (auto simp: obj_insert_def dest!: in_smap_put in_smap_del)

subsection \<open>The services of Qt\<close>

record qt =
  toBinaryData :: "json \<Rightarrow> bytes"
  fromBinaryData :: "bytes \<Rightarrow> json"
  writeBool :: "bool \<Rightarrow> bytes"
  readBool :: "bytes \<Rightarrow> bool"
  writeDouble :: "rat \<Rightarrow> bytes"
  readDouble :: "bytes \<Rightarrow> rat"
  toUtf8 :: "string \<Rightarrow> bytes"
  fromUtf8 :: "bytes \<Rightarrow> string"
  writeStringHash :: "(string \<times> string) list \<Rightarrow> bytes"
  readStringHash :: "bytes \<Rightarrow> (string \<times> string) list"
  writeByteArrayList :: "bytes list \<Rightarrow> bytes"
  readByteArrayList :: "bytes \<Rightarrow> bytes list"
  writeStringList :: "string list \<Rightarrow> bytes"
  readStringList :: "bytes \<Rightarrow> string list"
  toLocal8Bit :: "string \<Rightarrow> bytes"
  toIntDec :: "string \<Rightarrow> int option"
  stringHashKeys :: "string list \<Rightarrow> string list"
  intHashKeys :: "int list \<Rightarrow> int list"

definition qt_ok :: "qt \<Rightarrow> bool" where
  "qt_ok Q \<longleftrightarrow>
     (\<forall>v. wf_json v \<longrightarrow> isArray v \<or> isObject v \<longrightarrow> fromBinaryData Q (toBinaryData Q v) = v) \<and>
     (\<forall>b. readBool Q (writeBool Q b) = b) \<and>
     (\<forall>r. readDouble Q (writeDouble Q r) = r \<and> writeDouble Q r \<noteq> []) \<and>
     (\<forall>s. fromUtf8 Q (toUtf8 Q s) = s) \<and>
     (\<forall>h. sorted_keys h \<longrightarrow> readStringHash Q (writeStringHash Q h) = h) \<and>
     (\<forall>xs. readByteArrayList Q (writeByteArrayList Q xs) = xs) \<and>
     (\<forall>xs. readStringList Q (writeStringList Q xs) = xs) \<and>
     (\<forall>s. (\<forall>c \<in> set s. (of_char c :: nat) < 128) \<longrightarrow> toLocal8Bit Q s = s) \<and>
     (\<forall>xs. mset (stringHashKeys Q xs) = mset xs) \<and>
     (\<forall>xs. mset (intHashKeys Q xs) = mset xs)"

lemma qt_ok_binary:
  "qt_ok Q \<Longrightarrow> wf_json v \<Longrightarrow> isArray v \<or> isObject v \<Longrightarrow> fromBinaryData Q (toBinaryData Q v) = v"
  unfolding qt_ok_def by blast

lemma qt_ok_readers:
  assumes "qt_ok Q"
  shows "readBool Q (writeBool Q b) = b" "readDouble Q (writeDouble Q r) = r" "writeDouble Q r \<noteq> []"
    "fromUtf8 Q (toUtf8 Q s) = s" "readByteArrayList Q (writeByteArrayList Q xs) = xs"
    "readStringList Q (writeStringList Q ys) = ys"
  using assms by (simp_all add: qt_ok_def)

lemma qt_ok_hash: "qt_ok Q \<Longrightarrow> sorted_keys h \<Longrightarrow> readStringHash Q (writeStringHash Q h) = h"
  by (simp add: qt_ok_def)

lemma qt_ok_local8bit:
  "qt_ok Q \<Longrightarrow> \<forall>c \<in> set s. (of_char c :: nat) < 128 \<Longrightarrow> toLocal8Bit Q s = s"
  by (simp add: qt_ok_def)

lemma qt_ok_mset_keys:
  assumes "qt_ok Q"
  shows "mset (stringHashKeys Q xs) = mset xs" "mset (intHashKeys Q ys) = mset ys"
  using assms by (simp_all add: qt_ok_def)

lemma qt_ok_set_keys:
  assumes "qt_ok Q"
  shows "set (stringHashKeys Q xs) = set xs" "set (intHashKeys Q ys) = set ys"
  using qt_ok_mset_keys [OF assms] by (metis set_mset_mset)+

lemma qt_ok_distinct_keys:
  assumes "qt_ok Q"
  shows "distinct (stringHashKeys Q xs) \<longleftrightarrow> distinct xs"
  using qt_ok_mset_keys [OF assms] by (metis mset_eq_imp_distinct_iff)

end
