(* ===== verification/QtDemo.thy ===== *)
theory QtDemo
  imports QtJson
begin

text \<open>
  A concrete instance of the Qt services, with every law of \<open>qt_ok\<close>: counts in unary,
  strings and lists behind their length, a JSON value behind a tag. The witnesses of the
  properties run the model on it.
\<close>

definition enc_nat :: "nat \<Rightarrow> string" where
  "enc_nat n = replicate n (CHR ''1'') @ [CHR ''0'']"

fun dec_nat :: "string \<Rightarrow> nat \<times> string" where
  "dec_nat [] = (0, [])"
| "dec_nat (c # s) = (if c = CHR ''1'' then (let (n, r) = dec_nat s in (Suc n, r)) else (0, s))"

lemma dec_enc_nat [simp]: "dec_nat (enc_nat n @ s) = (n, s)"
  by (induction n) (simp_all add: enc_nat_def)

definition enc_str :: "string \<Rightarrow> string" where
  "enc_str s = enc_nat (length s) @ s"

definition dec_str :: "string \<Rightarrow> string \<times> string" where
  "dec_str s = (let (n, r) = dec_nat s in (take n r, drop n r))"

lemma dec_enc_str [simp]: "dec_str (enc_str x @ s) = (x, s)"
  by (simp add: dec_str_def enc_str_def)

definition enc_rat :: "rat \<Rightarrow> string" where
  "enc_rat r = (let (a, b) = quotient_of r
     in (if a < 0 then ''-'' else ''+'') @ enc_nat (nat \<bar>a\<bar>) @ enc_nat (nat b))"

definition dec_rat :: "string \<Rightarrow> rat \<times> string" where
  "dec_rat s =
     (let (a, s1) = dec_nat (tl s); (b, s2) = dec_nat s1;
          q = of_nat a / of_nat b
      in (if take 1 s = ''-'' then - q else q, s2))"

lemma dec_enc_rat [simp]: "dec_rat (enc_rat r @ s) = (r, s)"
proof -
  obtain a b where q: "quotient_of r = (a, b)" by force
  have r: "r = of_int a / of_int b" using q by (rule quotient_of_div)
  have b: "b > 0" using q by (rule quotient_of_denom_pos)
  show ?thesis
    using b by (simp add: dec_rat_def enc_rat_def q of_nat_nat) (simp add: r)
qed

definition enc_list :: "('a \<Rightarrow> string) \<Rightarrow> 'a list \<Rightarrow> string" where
  "enc_list f xs = enc_nat (length xs) @ concat (map f xs)"

fun dec_items :: "(string \<Rightarrow> 'a \<times> string) \<Rightarrow> nat \<Rightarrow> string \<Rightarrow> 'a list \<times> string" where
  "dec_items d 0 s = ([], s)"
| "dec_items d (Suc n) s =
     (let (x, s1) = d s; (xs, s2) = dec_items d n s1 in (x # xs, s2))"

definition dec_list :: "(string \<Rightarrow> 'a \<times> string) \<Rightarrow> string \<Rightarrow> 'a list \<times> string" where
  "dec_list d s = (let (n, r) = dec_nat s in dec_items d n r)"

lemma dec_items_concat:
  "(\<And>x s. x \<in> set xs \<Longrightarrow> d (f x @ s) = (x, s)) \<Longrightarrow>
   dec_items d (length xs) (concat (map f xs) @ s) = (xs, s)"
  by (induction xs) simp_all

lemma dec_enc_list:
  "(\<And>x s. x \<in> set xs \<Longrightarrow> d (f x @ s) = (x, s)) \<Longrightarrow> dec_list d (enc_list f xs @ s) = (xs, s)"
  by (simp add: dec_list_def enc_list_def dec_items_concat)

definition enc_pair :: "('a \<Rightarrow> string) \<Rightarrow> ('b \<Rightarrow> string) \<Rightarrow> 'a \<times> 'b \<Rightarrow> string" where
  "enc_pair f g p = f (fst p) @ g (snd p)"

definition dec_pair :: "(string \<Rightarrow> 'a \<times> string) \<Rightarrow> (string \<Rightarrow> 'b \<times> string) \<Rightarrow> string \<Rightarrow> ('a \<times> 'b) \<times> string" where
  "dec_pair d e s = (let (x, s1) = d s; (y, s2) = e s1 in ((x, y), s2))"

fun enc_json :: "json \<Rightarrow> string" where
  "enc_json JUndefined = ''u''"
| "enc_json JNull = ''n''"
| "enc_json (JBool b) = (if b then ''t'' else ''f'')"
| "enc_json (JNum r) = ''d'' @ enc_rat r"
| "enc_json (JStr s) = ''s'' @ enc_str s"
| "enc_json (JArr xs) = ''a'' @ enc_nat (length xs) @ concat (map enc_json xs)"
| "enc_json (JObj obj) = ''o'' @ enc_list enc_str (map fst obj) @ concat (map enc_json (map snd obj))"

fun dec_json :: "nat \<Rightarrow> string \<Rightarrow> json \<times> string" where
  "dec_json 0 s = (JUndefined, s)"
| "dec_json (Suc f) [] = (JUndefined, [])"
| "dec_json (Suc f) (c # s) =
     (if c = CHR ''n'' then (JNull, s)
      else if c = CHR ''t'' then (JBool True, s)
      else if c = CHR ''f'' then (JBool False, s)
      else if c = CHR ''d'' then apfst JNum (dec_rat s)
      else if c = CHR ''s'' then apfst JStr (dec_str s)
      else if c = CHR ''a'' then apfst JArr (dec_list (dec_json f) s)
      else if c = CHR ''o'' then
        (let (ks, s1) = dec_list dec_str s; (vs, s2) = dec_items (dec_json f) (length ks) s1
         in (JObj (zip ks vs), s2))
      else (JUndefined, s))"

lemma length_concat_member: "x \<in> set xs \<Longrightarrow> length (f x) \<le> length (concat (map f xs))"
  by (induction xs) auto

lemma dec_enc_json: "length (enc_json v) \<le> f \<Longrightarrow> dec_json f (enc_json v @ s) = (v, s)"
proof (induction f arbitrary: v s)
  case 0
  then show ?case by (cases v) (auto split: if_splits)
next
  case (Suc f)
  show ?case
  proof (cases v)
    case (JArr xs)
    have "dec_json f (enc_json x @ s) = (x, s)" if "x \<in> set xs" for x s
      using Suc.prems JArr length_concat_member [OF that, of enc_json] by (intro Suc.IH) simp
    then show ?thesis
      using dec_enc_list [of xs "dec_json f" enc_json s] by (simp add: JArr enc_list_def)
  next
    case (JObj obj)
    have "dec_json f (enc_json x @ s) = (x, s)" if "x \<in> set (map snd obj)" for x s
      using Suc.prems JObj length_concat_member [OF that, of enc_json] by (intro Suc.IH) simp
    then have "dec_items (dec_json f) (length (map snd obj))
        (concat (map enc_json (map snd obj)) @ s) = (map snd obj, s)"
      by (rule dec_items_concat)
    then show ?thesis
      by (simp add: JObj dec_enc_list zip_map_fst_snd)
  qed simp_all
qed

definition qt_demo :: qt where
  "qt_demo = \<lparr>
     toBinaryData = enc_json,
     fromBinaryData = (\<lambda>s. fst (dec_json (length s) s)),
     writeBool = (\<lambda>b. if b then ''1'' else ''0''),
     readBool = (\<lambda>s. s = ''1''),
     writeDouble = enc_rat,
     readDouble = (\<lambda>s. fst (dec_rat s)),
     toUtf8 = (\<lambda>s. s),
     fromUtf8 = (\<lambda>s. s),
     writeStringHash = enc_list (enc_pair enc_str enc_str),
     readStringHash = (\<lambda>s. fst (dec_list (dec_pair dec_str dec_str) s)),
     writeByteArrayList = enc_list enc_str,
     readByteArrayList = (\<lambda>s. fst (dec_list dec_str s)),
     writeStringList = enc_list enc_str,
     readStringList = (\<lambda>s. fst (dec_list dec_str s)),
     toLocal8Bit = (\<lambda>s. s),
     toIntDec = (\<lambda>s. if s \<noteq> [] \<and> (\<forall>c \<in> set s. c \<in> set ''0123456789'')
        then Some (foldl (\<lambda>n c. 10 * n + (of_char c - 48)) 0 s) else None),
     stringHashKeys = rev,
     intHashKeys = rev\<rparr>"

lemma dec_enc_pair:
  "(\<And>x s. d (f x @ s) = (x, s)) \<Longrightarrow> (\<And>y s. e (g y @ s) = (y, s)) \<Longrightarrow>
   dec_pair d e (enc_pair f g p @ s) = (p, s)"
  by (simp add: dec_pair_def enc_pair_def)

lemma dec_enc_str_list [simp]: "dec_list dec_str (enc_list enc_str xs) = (xs, [])"
  using dec_enc_list [of xs dec_str enc_str "[]"] by simp

lemma dec_enc_str_pairs [simp]:
  "dec_list (dec_pair dec_str dec_str) (enc_list (enc_pair enc_str enc_str) xs) = (xs, [])"
  using dec_enc_list [of xs "dec_pair dec_str dec_str" "enc_pair enc_str enc_str" "[]"]
  by (simp add: dec_enc_pair)

lemma enc_rat_nonempty: "enc_rat r \<noteq> []"
  by (simp add: enc_rat_def split: prod.split)

lemma qt_demo_ok: "qt_ok qt_demo"
  using enc_rat_nonempty dec_enc_json [where s = "[]"] dec_enc_rat [where s = "[]"]
  by (simp add: qt_ok_def qt_demo_def)

end
