(* ===== verification/QDocUtils.thy ===== *)
theory QDocUtils
  imports QtJson QtDemo
begin

text \<open>
  qdocutils.h and qdocutils.cpp: class QDocSerialize (values, index tables, index entries
  and the snapshot list as byte strings) and class QDocUtils (path lookup, intersection of
  link-key lists, ordered comparison).
\<close>

subsection \<open>QDocSerialize\<close>

datatype levelType = typeValue | typeJsonDocument | typeIndexes | typeIndexValue | typeSnapshotsValue

datatype valueType = typeUndefined | typeNull | typeBool | typeDouble | typeString | typeArray | typeObject

fun levelByte :: "levelType \<Rightarrow> char" where
  "levelByte typeValue = CHR 0x00"
| "levelByte typeJsonDocument = CHR 0x01"
| "levelByte typeIndexes = CHR 0x02"
| "levelByte typeIndexValue = CHR 0x03"
| "levelByte typeSnapshotsValue = CHR 0x04"

fun typeByte :: "valueType \<Rightarrow> char" where
  "typeByte typeUndefined = CHR 0x00"
| "typeByte typeNull = CHR 0x01"
| "typeByte typeBool = CHR 0x02"
| "typeByte typeDouble = CHR 0x03"
| "typeByte typeString = CHR 0x04"
| "typeByte typeArray = CHR 0x05"
| "typeByte typeObject = CHR 0x06"

text \<open>
  The branch of a number compares the type byte with \<open>typeDouble\<close> instead of assigning
  it, so the byte stays \<open>typeUndefined\<close>.
\<close>

fun marshal :: "qt \<Rightarrow> json \<Rightarrow> bytes" where
  "marshal Q (JArr xs) =
     [levelByte typeJsonDocument, typeByte typeArray] @ toBinaryData Q (JArr xs)"
| "marshal Q (JObj obj) =
     [levelByte typeJsonDocument, typeByte typeObject] @ toBinaryData Q (JObj obj)"
| "marshal Q (JBool b) = [levelByte typeValue, typeByte typeBool] @ writeBool Q b"
| "marshal Q (JNum r) = [levelByte typeValue, typeByte typeUndefined] @ writeDouble Q r"
| "marshal Q (JStr s) = [levelByte typeValue, typeByte typeString] @ toUtf8 Q s"
| "marshal Q JNull = [levelByte typeValue, typeByte typeNull]"
| "marshal Q JUndefined = [levelByte typeValue, typeByte typeUndefined]"

definition unmarshal :: "qt \<Rightarrow> bytes \<Rightarrow> json" where
  "unmarshal Q bs =
     (case bs of
        b0 # b1 # valueData \<Rightarrow>
          if b0 = levelByte typeJsonDocument then
            let jsonDoc = fromBinaryData Q valueData in
            if b1 = typeByte typeArray then JArr (toArray jsonDoc)
            else if b1 = typeByte typeObject then JObj (toObject jsonDoc)
            else JNull
          else
            if b1 = typeByte typeUndefined then JUndefined
            else if b1 = typeByte typeNull then JNull
            else if b1 = typeByte typeBool then JBool (readBool Q valueData)
            else if b1 = typeByte typeDouble then JNum (readDouble Q valueData)
            else if b1 = typeByte typeString then JStr (fromUtf8 Q valueData)
            else JNull
      | _ \<Rightarrow> JNull)"

definition marshalIndexes :: "qt \<Rightarrow> (string \<times> string) list \<Rightarrow> bytes" where
  "marshalIndexes Q value = [levelByte typeIndexes, CHR 0x00] @ writeStringHash Q value"

definition unmarshalIndexes :: "qt \<Rightarrow> bytes \<Rightarrow> (string \<times> string) list" where
  "unmarshalIndexes Q bs =
     (if length bs < 2 \<or> hd bs \<noteq> levelByte typeIndexes then []
      else readStringHash Q (drop 2 bs))"

definition marshalIndexValue :: "qt \<Rightarrow> bytes list \<Rightarrow> bytes" where
  "marshalIndexValue Q value = [levelByte typeIndexValue, CHR 0x00] @ writeByteArrayList Q value"

definition unmarshalIndexValue :: "qt \<Rightarrow> bytes \<Rightarrow> bytes list" where
  "unmarshalIndexValue Q bs =
     (if length bs < 2 \<or> hd bs \<noteq> levelByte typeIndexValue then []
      else readByteArrayList Q (drop 2 bs))"

definition marshalSnapshotsValue :: "qt \<Rightarrow> string list \<Rightarrow> bytes" where
  "marshalSnapshotsValue Q value = [levelByte typeSnapshotsValue, CHR 0x00] @ writeStringList Q value"

definition unmarshalSnapshotsValue :: "qt \<Rightarrow> bytes \<Rightarrow> string list" where
  "unmarshalSnapshotsValue Q bs =
     (if length bs < 2 \<or> hd bs \<noteq> levelByte typeSnapshotsValue then []
      else readStringList Q (drop 2 bs))"

lemma unmarshal_marshal:
  assumes "qt_ok Q" "wf_json v \<or> v = JUndefined"
  shows "unmarshal Q (marshal Q v) = (if isDouble v then JUndefined else v)"
  using assms qt_ok_binary [OF assms(1), of v]
  by (cases v) (auto simp: unmarshal_def qt_ok_readers)

lemma unmarshal_marshal_object:
  "qt_ok Q \<Longrightarrow> wf_json (JObj obj) \<Longrightarrow> unmarshal Q (marshal Q (JObj obj)) = JObj obj"
  using unmarshal_marshal [of Q "JObj obj"] by simp

lemma marshal_nonempty [simp]: "marshal Q v \<noteq> []"
  by (cases v) simp_all

lemma marshal_num_inject:
  assumes Q: "qt_ok Q" and eq: "marshal Q (JNum r) = marshal Q w"
  shows "w = JNum r"
proof (cases w)
  case (JNum r')
  then have "readDouble Q (writeDouble Q r) = readDouble Q (writeDouble Q r')" using eq by simp
  then show ?thesis using JNum qt_ok_readers(2) [OF Q] by simp
next
  case JUndefined
  then show ?thesis using eq qt_ok_readers(3) [OF Q, of r] by simp
qed (use eq in simp_all)

lemma marshal_inject:
  assumes Q: "qt_ok Q" and v: "wf_json v \<or> v = JUndefined" and w: "wf_json w \<or> w = JUndefined"
    and eq: "marshal Q v = marshal Q w"
  shows "v = w"
proof (cases "isDouble v \<or> isDouble w")
  case False
  then have "unmarshal Q (marshal Q v) = v" "unmarshal Q (marshal Q w) = w"
    by (simp_all only: unmarshal_marshal [OF Q v] unmarshal_marshal [OF Q w]) simp_all
  then show ?thesis by (metis eq)
next
  case True
  then have "(\<exists>r. v = JNum r) \<or> (\<exists>r. w = JNum r)"
    by (auto elim: isDouble.elims(2))
  then show ?thesis
  proof (elim disjE exE)
    fix r assume "v = JNum r"
    then show ?thesis using eq marshal_num_inject [OF Q, of r w] by simp
  next
    fix r assume "w = JNum r"
    then show ?thesis using eq [symmetric] marshal_num_inject [OF Q, of r v] by simp
  qed
qed

lemma unmarshal_indexes [simp]:
  "qt_ok Q \<Longrightarrow> sorted_keys h \<Longrightarrow> unmarshalIndexes Q (marshalIndexes Q h) = h"
  by (simp add: unmarshalIndexes_def marshalIndexes_def qt_ok_hash)

lemma unmarshal_indexValue [simp]:
  "qt_ok Q \<Longrightarrow> unmarshalIndexValue Q (marshalIndexValue Q xs) = xs"
  by (simp add: unmarshalIndexValue_def marshalIndexValue_def qt_ok_readers)

lemma unmarshal_snapshots [simp]:
  "qt_ok Q \<Longrightarrow> unmarshalSnapshotsValue Q (marshalSnapshotsValue Q xs) = xs"
  by (simp add: unmarshalSnapshotsValue_def marshalSnapshotsValue_def qt_ok_readers)

lemma unmarshal_empty [simp]:
  "unmarshalIndexes Q [] = []" "unmarshalIndexValue Q [] = []" "unmarshalSnapshotsValue Q [] = []"
  by (simp_all add: unmarshalIndexes_def unmarshalIndexValue_def unmarshalSnapshotsValue_def)

subsection \<open>QDocUtils::getJsonValueByPath\<close>

text \<open>\<open>path.mid(0, path.indexOf("."))\<close> and \<open>path.mid(path.indexOf(".") + 1)\<close>.\<close>

definition firstKey :: "string \<Rightarrow> string" where
  "firstKey path = takeWhile (\<lambda>c. c \<noteq> CHR ''.'') path"

definition nextPath :: "string \<Rightarrow> string" where
  "nextPath path = (if CHR ''.'' \<in> set path then tl (dropWhile (\<lambda>c. c \<noteq> CHR ''.'') path) else [])"

lemma length_nextPath: "path \<noteq> [] \<Longrightarrow> length (nextPath path) < length path"
proof -
  assume "path \<noteq> []"
  moreover have "length (tl (dropWhile (\<lambda>c. c \<noteq> CHR ''.'') path)) \<le> length path - 1"
    using length_dropWhile_le [of "\<lambda>c. c \<noteq> CHR ''.''" path] by simp
  ultimately show ?thesis by (cases path) (auto simp: nextPath_def)
qed

function getJsonValueByPath :: "qt \<Rightarrow> json \<Rightarrow> string \<Rightarrow> json" where
  "getJsonValueByPath Q jsonValue path =
     (if path = [] then jsonValue
      else case jsonValue of
        JObj obj \<Rightarrow> getJsonValueByPath Q (obj_value obj (firstKey path)) (nextPath path)
      | JArr xs \<Rightarrow>
          (case toIntDec Q (firstKey path) of
             Some index \<Rightarrow> getJsonValueByPath Q (arr_at xs index) (nextPath path)
           | None \<Rightarrow> JUndefined)
      | _ \<Rightarrow> JUndefined)"
  by pat_completeness auto
termination
  by (relation "measure (\<lambda>(Q, v, path). length path)") (auto simp: length_nextPath)

declare getJsonValueByPath.simps [simp del]

lemma getJsonValueByPath_Nil [simp]: "getJsonValueByPath Q v [] = v"
  by (simp add: getJsonValueByPath.simps)

lemma getJsonValueByPath_field:
  assumes "k \<noteq> []" "CHR ''.'' \<notin> set k"
  shows "getJsonValueByPath Q (JObj obj) k = obj_value obj k"
proof -
  have "firstKey k = k" using assms(2) by (auto simp: firstKey_def takeWhile_eq_all_conv)
  then show ?thesis using assms by (simp add: getJsonValueByPath.simps [of Q _ k] nextPath_def)
qed

lemma getJsonValueByPath_undefined: "path \<noteq> [] \<Longrightarrow> getJsonValueByPath Q JUndefined path = JUndefined"
  by (simp add: getJsonValueByPath.simps)

lemma firstKey_append: "firstKey (p @ CHR ''.'' # q) = firstKey p"
  by (induction p) (auto simp: firstKey_def)

lemma nextPath_append:
  "nextPath (p @ CHR ''.'' # q) = (if CHR ''.'' \<in> set p then nextPath p @ CHR ''.'' # q else q)"
proof (induction p)
  case (Cons c p)
  then show ?case
    by (auto simp: nextPath_def dropWhile_append2 dropWhile_append1 tl_append dropWhile_eq_Nil_conv
        split: list.split)
qed (simp add: nextPath_def)

lemma nextPath_last:
  assumes "CHR ''.'' \<in> set p" "last p \<noteq> CHR ''.''"
  shows "nextPath p \<noteq> [] \<and> last (nextPath p) = last p"
  using assms
proof (induction p)
  case (Cons c p)
  then show ?case by (cases "c = CHR ''.''") (auto simp: nextPath_def split: if_splits)
qed simp

lemma getJsonValueByPath_append:
  "p \<noteq> [] \<Longrightarrow> last p \<noteq> CHR ''.'' \<Longrightarrow> q \<noteq> [] \<Longrightarrow>
   getJsonValueByPath Q v (p @ CHR ''.'' # q) = getJsonValueByPath Q (getJsonValueByPath Q v p) q"
proof (induction "length p" arbitrary: v p rule: less_induct)
  case less
  let ?n = "nextPath p"
  have step: "getJsonValueByPath Q w (nextPath (p @ CHR ''.'' # q)) =
      getJsonValueByPath Q (getJsonValueByPath Q w ?n) q" for w
  proof (cases "CHR ''.'' \<in> set p")
    case True
    then show ?thesis
      using less.hyps [of ?n w] nextPath_last [of p] less.prems length_nextPath [of p]
      by (simp add: nextPath_append)
  next
    case False
    then show ?thesis unfolding nextPath_append by (simp add: nextPath_def)
  qed
  show ?case
    using less.prems step
    by (simp add: getJsonValueByPath.simps [of Q v "p @ CHR ''.'' # q"]
        getJsonValueByPath.simps [of Q v p] firstKey_append getJsonValueByPath_undefined
        split: json.split option.split)
qed

subsection \<open>QDocUtils::multiply\<close>

text \<open>
  The loop erases a link key of \<open>a\<close> that is not in \<open>b\<close> and then goes on with the
  iterator of the erased item, which is invalid: from there on the behaviour is undefined,
  \<open>None\<close> in the model.
\<close>

fun multiply :: "bytes list \<Rightarrow> bytes list \<Rightarrow> bytes list option" where
  "multiply [] b = Some []"
| "multiply (x # a) b = (if x \<notin> set b then None else map_option (Cons x) (multiply a b))"

lemma multiply_Some: "multiply a b = (if set a \<subseteq> set b then Some a else None)"
  by (induction a) auto

subsection \<open>QDocUtils::compare\<close>

definition compare_by :: "string \<Rightarrow> 'a::linorder \<Rightarrow> 'a \<Rightarrow> bool" where
  "compare_by oper x y =
     (if oper = ''$gt'' then x > y
      else if oper = ''$gte'' then x \<ge> y
      else if oper = ''$lt'' then x < y
      else if oper = ''$lte'' then x \<le> y
      else False)"

definition compare :: "json \<Rightarrow> json \<Rightarrow> string \<Rightarrow> bool" where
  "compare a b oper =
     (case (a, b) of
        (JNum x, JNum y) \<Rightarrow> compare_by oper x y
      | (JStr x, JStr y) \<Rightarrow> compare_by oper x y
      | _ \<Rightarrow> False)"

definition comparable :: "json \<Rightarrow> json \<Rightarrow> bool" where
  "comparable a b \<longleftrightarrow> (isDouble a \<and> isDouble b) \<or> (isString a \<and> isString b)"

lemma compare_comparable: "compare a b oper \<Longrightarrow> comparable a b"
  by (auto simp: compare_def comparable_def split: json.splits)

lemma compare_gt_trans: "compare a b ''$gt'' \<Longrightarrow> compare b c ''$gt'' \<Longrightarrow> compare a c ''$gt''"
  by (auto simp: compare_def compare_by_def split: json.splits)

lemma compare_lt_trans: "compare a b ''$lt'' \<Longrightarrow> compare b c ''$lt'' \<Longrightarrow> compare a c ''$lt''"
  by (auto simp: compare_def compare_by_def split: json.splits)

lemma compare_lt_gt: "compare a b ''$lt'' = compare b a ''$gt''"
  by (auto simp: compare_def compare_by_def split: json.splits)

lemma compare_irrefl: "\<not> compare a a ''$gt''" "\<not> compare a a ''$lt''"
  by (auto simp: compare_def compare_by_def split: json.splits)

end
