(* ===== verification/QDocKV.thy ===== *)
theory QDocKV
  imports QDocUtils
begin

text \<open>
  The key-value layer: qdockvinterface.h and qdockvinterface.cpp, qdockvmap.h and
  qdockvmap.cpp, qdockvleveldb.h and qdockvleveldb.cpp.

  A pointer to a \<open>QDocKVInterface\<close> is a value of \<open>kv\<close>, one constructor per class. A
  transaction object shares the database of the object it was made from; in the model the
  constructor carries the current content of that database next to the transaction's own
  buffers, and whoever holds several objects on one database passes the content on.
  The call that fails returns its \<open>lastError\<close> with it.

  \<open>leveldb::DB\<close> is its sorted content together with the error status its calls return,
  if it is in an error state. A \<open>QDocKVIterator\<close> is the list of entries not yet passed.
\<close>

type_synonym store = "(bytes \<times> bytes) list"

datatype kvcode = errorIsNotTransaction | errorOperation | errorWriteTransaction

type_synonym kvstatus = "(kvcode \<times> string) option"

subsection \<open>QDocKVMap\<close>

definition kvmap_getValue :: "store \<Rightarrow> bytes \<Rightarrow> string + bytes" where
  "kvmap_getValue db key = (case map_of db key of None \<Rightarrow> Inl ''Not found'' | Some v \<Rightarrow> Inr v)"

definition kvmap_putValue :: "bytes \<Rightarrow> bytes \<Rightarrow> store \<Rightarrow> store" where
  "kvmap_putValue key v db = smap_put key v db"

definition kvmap_deleteValue :: "bytes \<Rightarrow> store \<Rightarrow> store \<times> kvstatus" where
  "kvmap_deleteValue key db =
     (if smap_has key db then (smap_del key db, None)
      else (db, Some (errorOperation, ''Not found'')))"

subsection \<open>QDocKVMapTransaction\<close>

record kvmap_tx =
  cache :: store
  cacheDeleted :: "(bytes \<times> bool) list"

definition kvmap_newTransaction :: kvmap_tx where
  "kvmap_newTransaction = \<lparr>cache = [], cacheDeleted = []\<rparr>"

definition kvmaptx_getValue :: "store \<Rightarrow> kvmap_tx \<Rightarrow> bytes \<Rightarrow> string + bytes" where
  "kvmaptx_getValue db tx key =
     (if map_of (cacheDeleted tx) key = Some True then Inl ''Not found''
      else case map_of (cache tx) key of
        Some v \<Rightarrow> Inr v
      | None \<Rightarrow> kvmap_getValue db key)"

definition kvmaptx_putValue :: "bytes \<Rightarrow> bytes \<Rightarrow> kvmap_tx \<Rightarrow> kvmap_tx" where
  "kvmaptx_putValue key v tx =
     tx\<lparr>cache := smap_put key v (cache tx), cacheDeleted := smap_put key False (cacheDeleted tx)\<rparr>"

definition kvmaptx_deleteValue :: "bytes \<Rightarrow> kvmap_tx \<Rightarrow> kvmap_tx" where
  "kvmaptx_deleteValue key tx = tx\<lparr>cacheDeleted := smap_put key True (cacheDeleted tx)\<rparr>"

text \<open>The first loop of writeTransaction: it stops at a deleted key the database lacks.\<close>

fun kvmaptx_erase :: "(bytes \<times> bool) list \<Rightarrow> bytes list \<Rightarrow> store \<Rightarrow> store \<times> bool" where
  "kvmaptx_erase del [] db = (db, True)"
| "kvmaptx_erase del (key # keys) db =
     (if map_of del key = Some True then
        if smap_has key db then kvmaptx_erase del keys (smap_del key db) else (db, False)
      else kvmaptx_erase del keys db)"

text \<open>The second loop.\<close>

fun kvmaptx_flush :: "store \<Rightarrow> bytes list \<Rightarrow> store \<Rightarrow> store" where
  "kvmaptx_flush c [] db = db"
| "kvmaptx_flush c (key # keys) db =
     kvmaptx_flush c keys (smap_put key (case map_of c key of Some v \<Rightarrow> v | None \<Rightarrow> []) db)"

definition kvmaptx_writeTransaction :: "qt \<Rightarrow> store \<Rightarrow> kvmap_tx \<Rightarrow> store \<times> kvstatus" where
  "kvmaptx_writeTransaction Q db tx =
     (let (db1, ok) = kvmaptx_erase (cacheDeleted tx)
                        (stringHashKeys Q (map fst (cacheDeleted tx))) db
      in if ok then (kvmaptx_flush (cache tx) (stringHashKeys Q (map fst (cache tx))) db1, None)
         else (db1, Some (errorOperation, ''Not found'')))"

subsection \<open>leveldb::DB and leveldb::WriteBatch\<close>

record leveldb =
  ldb_data :: store
  ldb_status :: "string option"

datatype batch_op = BatchPut bytes bytes | BatchDelete bytes

fun batch_apply :: "batch_op \<Rightarrow> store \<Rightarrow> store" where
  "batch_apply (BatchPut k v) db = smap_put k v db"
| "batch_apply (BatchDelete k) db = smap_del k db"

definition leveldb_Get :: "leveldb \<Rightarrow> bytes \<Rightarrow> string + bytes" where
  "leveldb_Get db key =
     (case ldb_status db of
        Some msg \<Rightarrow> Inl msg
      | None \<Rightarrow> (case map_of (ldb_data db) key of None \<Rightarrow> Inl ''NotFound: '' | Some v \<Rightarrow> Inr v))"

definition leveldb_Write :: "batch_op list \<Rightarrow> leveldb \<Rightarrow> leveldb \<times> string option" where
  "leveldb_Write batch db =
     (case ldb_status db of
        Some msg \<Rightarrow> (db, Some msg)
      | None \<Rightarrow> (db\<lparr>ldb_data := fold batch_apply batch (ldb_data db)\<rparr>, None))"

subsection \<open>QDocKVLevelDB\<close>

definition leveldb_status :: "kvcode \<Rightarrow> string option \<Rightarrow> kvstatus" where
  "leveldb_status code st = map_option (\<lambda>msg. (code, msg)) st"

definition kvldb_getValue :: "leveldb \<Rightarrow> bytes \<Rightarrow> string + bytes" where
  "kvldb_getValue db key = leveldb_Get db key"

definition kvldb_putValue :: "bytes \<Rightarrow> bytes \<Rightarrow> leveldb \<Rightarrow> leveldb \<times> kvstatus" where
  "kvldb_putValue key v db =
     apsnd (leveldb_status errorOperation) (leveldb_Write [BatchPut key v] db)"

definition kvldb_deleteValue :: "bytes \<Rightarrow> leveldb \<Rightarrow> leveldb \<times> kvstatus" where
  "kvldb_deleteValue key db =
     apsnd (leveldb_status errorOperation) (leveldb_Write [BatchDelete key] db)"

subsection \<open>QDocKVLevelDBTransaction\<close>

record kvldb_tx = kvmap_tx +
  batch :: "batch_op list"

definition kvldb_newTransaction :: kvldb_tx where
  "kvldb_newTransaction = \<lparr>cache = [], cacheDeleted = [], batch = []\<rparr>"

definition kvldbtx_getValue :: "leveldb \<Rightarrow> kvldb_tx \<Rightarrow> bytes \<Rightarrow> string + bytes" where
  "kvldbtx_getValue db tx key =
     (if map_of (cacheDeleted tx) key = Some True then Inl ''Not found''
      else case map_of (cache tx) key of
        Some v \<Rightarrow> Inr v
      | None \<Rightarrow> leveldb_Get db key)"

definition kvldbtx_putValue :: "bytes \<Rightarrow> bytes \<Rightarrow> kvldb_tx \<Rightarrow> kvldb_tx" where
  "kvldbtx_putValue key v tx =
     tx\<lparr>batch := batch tx @ [BatchPut key v],
        cache := smap_put key v (cache tx),
        cacheDeleted := smap_put key False (cacheDeleted tx)\<rparr>"

definition kvldbtx_deleteValue :: "bytes \<Rightarrow> kvldb_tx \<Rightarrow> kvldb_tx" where
  "kvldbtx_deleteValue key tx =
     tx\<lparr>batch := batch tx @ [BatchDelete key], cacheDeleted := smap_put key True (cacheDeleted tx)\<rparr>"

definition kvldbtx_writeTransaction :: "leveldb \<Rightarrow> kvldb_tx \<Rightarrow> leveldb \<times> kvstatus" where
  "kvldbtx_writeTransaction db tx =
     apsnd (leveldb_status errorWriteTransaction) (leveldb_Write (batch tx) db)"

subsection \<open>QDocKVInterface: the virtual calls\<close>

datatype kv =
    KVMap store
  | KVMapTransaction store kvmap_tx
  | KVLevelDB leveldb
  | KVLevelDBTransaction leveldb kvldb_tx

fun getValue :: "kv \<Rightarrow> bytes \<Rightarrow> string + bytes" where
  "getValue (KVMap db) key = kvmap_getValue db key"
| "getValue (KVMapTransaction db tx) key = kvmaptx_getValue db tx key"
| "getValue (KVLevelDB db) key = kvldb_getValue db key"
| "getValue (KVLevelDBTransaction db tx) key = kvldbtx_getValue db tx key"

fun putValue :: "bytes \<Rightarrow> bytes \<Rightarrow> kv \<Rightarrow> kv \<times> kvstatus" where
  "putValue key v (KVMap db) = (KVMap (kvmap_putValue key v db), None)"
| "putValue key v (KVMapTransaction db tx) = (KVMapTransaction db (kvmaptx_putValue key v tx), None)"
| "putValue key v (KVLevelDB db) = apfst KVLevelDB (kvldb_putValue key v db)"
| "putValue key v (KVLevelDBTransaction db tx) =
     (KVLevelDBTransaction db (kvldbtx_putValue key v tx), None)"

fun deleteValue :: "bytes \<Rightarrow> kv \<Rightarrow> kv \<times> kvstatus" where
  "deleteValue key (KVMap db) = apfst KVMap (kvmap_deleteValue key db)"
| "deleteValue key (KVMapTransaction db tx) = (KVMapTransaction db (kvmaptx_deleteValue key tx), None)"
| "deleteValue key (KVLevelDB db) = apfst KVLevelDB (kvldb_deleteValue key db)"
| "deleteValue key (KVLevelDBTransaction db tx) =
     (KVLevelDBTransaction db (kvldbtx_deleteValue key tx), None)"

fun newTransaction :: "kv \<Rightarrow> kv option" where
  "newTransaction (KVMap db) = Some (KVMapTransaction db kvmap_newTransaction)"
| "newTransaction (KVLevelDB db) = Some (KVLevelDBTransaction db kvldb_newTransaction)"
| "newTransaction _ = None"

fun kv_writeTransaction :: "qt \<Rightarrow> kv \<Rightarrow> kv \<times> kvstatus" where
  "kv_writeTransaction Q (KVMap db) = (KVMap db, Some (errorIsNotTransaction, []))"
| "kv_writeTransaction Q (KVMapTransaction db tx) =
     apfst (\<lambda>db'. KVMapTransaction db' tx) (kvmaptx_writeTransaction Q db tx)"
| "kv_writeTransaction Q (KVLevelDB db) = (KVLevelDB db, Some (errorIsNotTransaction, []))"
| "kv_writeTransaction Q (KVLevelDBTransaction db tx) =
     apfst (\<lambda>db'. KVLevelDBTransaction db' tx) (kvldbtx_writeTransaction db tx)"

text \<open>The database a transaction object points to, and its content.\<close>

fun kv_base :: "kv \<Rightarrow> kv" where
  "kv_base (KVMapTransaction db tx) = KVMap db"
| "kv_base (KVLevelDBTransaction db tx) = KVLevelDB db"
| "kv_base k = k"

fun kv_entries :: "kv \<Rightarrow> store" where
  "kv_entries (KVMap db) = db"
| "kv_entries (KVMapTransaction db tx) = db"
| "kv_entries (KVLevelDB db) = (if ldb_status db = None then ldb_data db else [])"
| "kv_entries (KVLevelDBTransaction db tx) = (if ldb_status db = None then ldb_data db else [])"

subsection \<open>QDocKVIterator\<close>

text \<open>
  \<open>QMap::find\<close> of the map's \<open>seek\<close> finds the key itself or goes to the end;
  \<open>leveldb::Iterator::Seek\<close> goes to the first key at or after it. Neither kind of
  transaction overrides \<open>newIterator\<close>: it iterates over the database, not over the
  transaction's buffers.
\<close>

record kviter =
  ki_exact :: bool
  ki_entries :: store
  ki_rest :: store

fun kv_is_map :: "kv \<Rightarrow> bool" where
  "kv_is_map (KVMap db) = True"
| "kv_is_map (KVMapTransaction db tx) = True"
| "kv_is_map _ = False"

definition kv_newIterator :: "kv \<Rightarrow> kviter" where
  "kv_newIterator k =
     \<lparr>ki_exact = kv_is_map k, ki_entries = kv_entries k,
      ki_rest = (if kv_is_map k then kv_entries k else [])\<rparr>"

definition ki_seekToFirst :: "kviter \<Rightarrow> kviter" where
  "ki_seekToFirst i = i\<lparr>ki_rest := ki_entries i\<rparr>"

definition ki_seek :: "bytes \<Rightarrow> kviter \<Rightarrow> kviter" where
  "ki_seek key i =
     i\<lparr>ki_rest :=
        (if ki_exact i then dropWhile (\<lambda>e. fst e \<noteq> key) (ki_entries i)
         else dropWhile (\<lambda>e. fst e < key) (ki_entries i))\<rparr>"

definition ki_isValid :: "kviter \<Rightarrow> bool" where
  "ki_isValid i \<longleftrightarrow> ki_rest i \<noteq> []"

definition ki_next :: "kviter \<Rightarrow> kviter" where
  "ki_next i = i\<lparr>ki_rest := tl (ki_rest i)\<rparr>"

definition ki_key :: "kviter \<Rightarrow> bytes" where
  "ki_key i = fst (hd (ki_rest i))"

definition ki_value :: "kviter \<Rightarrow> bytes" where
  "ki_value i = snd (hd (ki_rest i))"

subsection \<open>The contract of the interface\<close>

definition kv_read :: "kv \<Rightarrow> bytes \<Rightarrow> bytes option" where
  "kv_read k key = (case getValue k key of Inl _ \<Rightarrow> None | Inr v \<Rightarrow> Some v)"

text \<open>What a sequence of writes does to a map, and to an object that implements the interface.\<close>

fun op_map :: "batch_op \<Rightarrow> (bytes \<rightharpoonup> bytes) \<Rightarrow> (bytes \<rightharpoonup> bytes)" where
  "op_map (BatchPut k v) m = m(k \<mapsto> v)"
| "op_map (BatchDelete k) m = m(k := None)"

definition kv_op :: "batch_op \<Rightarrow> kv \<Rightarrow> kv" where
  "kv_op op k = (case op of BatchPut key v \<Rightarrow> fst (putValue key v k) | BatchDelete key \<Rightarrow> fst (deleteValue key k))"

text \<open>
  The state invariant of the four classes: sorted content, no error status, and for a
  LevelDB transaction a batch that does to any database what the two caches show.
\<close>

definition tx_view :: "('a) kvmap_tx_scheme \<Rightarrow> (bytes \<rightharpoonup> bytes) \<Rightarrow> (bytes \<rightharpoonup> bytes)" where
  "tx_view tx m = (\<lambda>k. if map_of (cacheDeleted tx) k = Some True then None
     else case map_of (cache tx) k of Some v \<Rightarrow> Some v | None \<Rightarrow> m k)"

fun kv_ok :: "kv \<Rightarrow> bool" where
  "kv_ok (KVMap db) = sorted_keys db"
| "kv_ok (KVMapTransaction db tx) =
     (sorted_keys db \<and> sorted_keys (cache tx) \<and> sorted_keys (cacheDeleted tx))"
| "kv_ok (KVLevelDB db) = (sorted_keys (ldb_data db) \<and> ldb_status db = None)"
| "kv_ok (KVLevelDBTransaction db tx) =
     (sorted_keys (ldb_data db) \<and> ldb_status db = None \<and>
      (\<forall>m. fold op_map (batch tx) m = tx_view tx m))"

end
