(* ===== verification/QDocKVContract.thy ===== *)
theory QDocKVContract
  imports QDocKV
begin

text \<open>
  What the rest of the program relies on in the key-value layer, as two interfaces: an
  object that can be read and written (\<open>kv_interface\<close>) and one whose buffered writes can
  be committed (\<open>kv_transaction\<close>). The four classes of QDocKV are interpreted as
  instances; the conditions under which a map transaction commits what it shows are
  \<open>kv_committable\<close>.
\<close>

locale kv_interface =
  fixes rd :: "'s \<Rightarrow> bytes \<Rightarrow> bytes option"
    and wr :: "bytes \<Rightarrow> bytes \<Rightarrow> 's \<Rightarrow> 's"
    and rm :: "bytes \<Rightarrow> 's \<Rightarrow> 's"
    and inv :: "'s \<Rightarrow> bool"
  assumes rd_wr: "inv s \<Longrightarrow> rd (wr k v s) = (rd s)(k \<mapsto> v)"
    and rd_rm: "inv s \<Longrightarrow> rd (rm k s) = (rd s)(k := None)"
    and inv_wr: "inv s \<Longrightarrow> inv (wr k v s)"
    and inv_rm: "inv s \<Longrightarrow> inv (rm k s)"
begin

lemma inv_op: "inv s \<Longrightarrow> inv (case op of BatchPut k v \<Rightarrow> wr k v s | BatchDelete k \<Rightarrow> rm k s)"
  by (cases op) (simp_all add: inv_wr inv_rm)

lemma rd_op:
  "inv s \<Longrightarrow> rd (case op of BatchPut k v \<Rightarrow> wr k v s | BatchDelete k \<Rightarrow> rm k s) = op_map op (rd s)"
  by (cases op) (simp_all add: rd_wr rd_rm)

lemma inv_ops:
  "inv s \<Longrightarrow> inv (fold (\<lambda>op s. case op of BatchPut k v \<Rightarrow> wr k v s | BatchDelete k \<Rightarrow> rm k s) ops s)"
  by (induction ops arbitrary: s) (simp_all add: inv_op)

lemma rd_ops:
  "inv s \<Longrightarrow> rd (fold (\<lambda>op s. case op of BatchPut k v \<Rightarrow> wr k v s | BatchDelete k \<Rightarrow> rm k s) ops s)
     = fold op_map ops (rd s)"
  by (induction ops arbitrary: s) (simp_all add: inv_op rd_op)

end

locale kv_transaction = kv_interface rd wr rm inv
  for rd :: "'s \<Rightarrow> bytes \<Rightarrow> bytes option" and wr rm inv +
  fixes base :: "'s \<Rightarrow> bytes \<Rightarrow> bytes option"
    and commit :: "'s \<Rightarrow> 's \<times> kvstatus"
    and committable :: "'s \<Rightarrow> bool"
  assumes base_wr: "inv s \<Longrightarrow> base (wr k v s) = base s"
    and base_rm: "inv s \<Longrightarrow> base (rm k s) = base s"
    and commit_ok: "inv s \<Longrightarrow> committable s \<Longrightarrow> snd (commit s) = None"
    and commit_base: "inv s \<Longrightarrow> committable s \<Longrightarrow> base (fst (commit s)) = rd s"
begin

lemma base_ops:
  "inv s \<Longrightarrow> base (fold (\<lambda>op s. case op of BatchPut k v \<Rightarrow> wr k v s | BatchDelete k \<Rightarrow> rm k s) ops s) = base s"
proof (induction ops arbitrary: s)
  case (Cons op ops)
  then show ?case by (cases op) (simp_all add: base_wr base_rm inv_wr inv_rm)
qed simp

lemma commit_ops:
  assumes "inv s" "rd s = base s"
    and "committable (fold (\<lambda>op s. case op of BatchPut k v \<Rightarrow> wr k v s | BatchDelete k \<Rightarrow> rm k s) ops s)"
  shows "base (fst (commit (fold (\<lambda>op s. case op of BatchPut k v \<Rightarrow> wr k v s | BatchDelete k \<Rightarrow> rm k s) ops s)))
     = fold op_map ops (base s)"
  using assms by (simp add: commit_base inv_ops rd_ops)

end

subsection \<open>Reading and writing\<close>

lemma kv_read_maptx: "kv_read (KVMapTransaction db tx) = tx_view tx (map_of db)"
  by (auto simp: kv_read_def kvmaptx_getValue_def kvmap_getValue_def tx_view_def fun_eq_iff
      split: option.split)

lemma kv_read_map: "kv_read (KVMap db) = map_of db"
  by (auto simp: kv_read_def kvmap_getValue_def fun_eq_iff split: option.split)

lemma kv_read_ldb: "ldb_status db = None \<Longrightarrow> kv_read (KVLevelDB db) = map_of (ldb_data db)"
  by (auto simp: kv_read_def kvldb_getValue_def leveldb_Get_def fun_eq_iff split: option.split)

lemma kv_read_ldbtx:
  "ldb_status db = None \<Longrightarrow> kv_read (KVLevelDBTransaction db tx) = tx_view tx (map_of (ldb_data db))"
  by (auto simp: kv_read_def kvldbtx_getValue_def leveldb_Get_def tx_view_def fun_eq_iff
      split: option.split)

lemmas kv_read_simps [kv_simps] = kv_read_maptx kv_read_map kv_read_ldb kv_read_ldbtx

lemma tx_view_put [kv_simps]:
  "tx_view (tx\<lparr>cache := smap_put k v (cache tx), cacheDeleted := smap_put k False (cacheDeleted tx)\<rparr>) m
     = (tx_view tx m)(k \<mapsto> v)"
  by (auto simp: tx_view_def fun_eq_iff)

lemma tx_view_del [kv_simps]:
  "tx_view (tx\<lparr>cacheDeleted := smap_put k True (cacheDeleted tx)\<rparr>) m = (tx_view tx m)(k := None)"
  by (auto simp: tx_view_def fun_eq_iff)

lemma tx_view_batch [kv_simps]: "tx_view (tx\<lparr>batch := b\<rparr>) m = tx_view tx m"
  by (auto simp: tx_view_def fun_eq_iff)

lemma tx_view_ldb_put [kv_simps]:
  "tx_view (kvldbtx_putValue k v tx) m = (tx_view tx m)(k \<mapsto> v)"
  by (auto simp: kvldbtx_putValue_def tx_view_def fun_eq_iff)

lemma tx_view_ldb_del [kv_simps]:
  "tx_view (kvldbtx_deleteValue k tx) m = (tx_view tx m)(k := None)"
  by (auto simp: kvldbtx_deleteValue_def tx_view_def fun_eq_iff)

lemma tx_view_new [kv_simps]:
  "tx_view kvmap_newTransaction m = m" "tx_view kvldb_newTransaction m = m"
  by (simp_all add: tx_view_def kvmap_newTransaction_def kvldb_newTransaction_def)

lemma smap_del_absent: "map_of db k = None \<Longrightarrow> (map_of db)(k := None) = map_of db"
  by auto

lemma kv_put_read: "kv_ok s \<Longrightarrow> kv_read (fst (putValue k v s)) = (kv_read s)(k \<mapsto> v)"
  by (cases s) (simp_all add: kv_simps kvmap_putValue_def kvmaptx_putValue_def
      kvldb_putValue_def leveldb_Write_def)

lemma kv_del_read: "kv_ok s \<Longrightarrow> kv_read (fst (deleteValue k s)) = (kv_read s)(k := None)"
  by (cases s) (auto simp add: kv_simps kvmap_deleteValue_def kvmaptx_deleteValue_def
      kvldb_deleteValue_def leveldb_Write_def fun_eq_iff)

lemma kv_put_ok: "kv_ok s \<Longrightarrow> kv_ok (fst (putValue k v s))"
proof (cases s)
  case (KVLevelDBTransaction db tx)
  assume "kv_ok s"
  then show ?thesis using KVLevelDBTransaction
    by (simp add: tx_view_ldb_put) (simp add: kvldbtx_putValue_def)
qed (simp_all add: kvmap_putValue_def kvmaptx_putValue_def kvldb_putValue_def leveldb_Write_def)

lemma kv_del_ok: "kv_ok s \<Longrightarrow> kv_ok (fst (deleteValue k s))"
proof (cases s)
  case (KVLevelDBTransaction db tx)
  assume "kv_ok s"
  then show ?thesis using KVLevelDBTransaction
    by (simp add: tx_view_ldb_del) (simp add: kvldbtx_deleteValue_def)
qed (simp_all add: kvmap_deleteValue_def kvmaptx_deleteValue_def kvldb_deleteValue_def leveldb_Write_def)

interpretation kvi: kv_interface kv_read "\<lambda>k v s. fst (putValue k v s)" "\<lambda>k s. fst (deleteValue k s)" kv_ok
  by unfold_locales (simp_all add: kv_put_read kv_del_read kv_put_ok kv_del_ok)

lemma kv_op_eq: "kv_op op = (\<lambda>s. case op of BatchPut k v \<Rightarrow> fst (putValue k v s) | BatchDelete k \<Rightarrow> fst (deleteValue k s))"
  by (simp add: kv_op_def fun_eq_iff)

lemma kv_read_ops: "kv_ok s \<Longrightarrow> kv_read (fold kv_op ops s) = fold op_map ops (kv_read s)"
  using kvi.rd_ops [of s ops] by (simp add: kv_op_eq [abs_def])

lemma kv_ok_ops: "kv_ok s \<Longrightarrow> kv_ok (fold kv_op ops s)"
  using kvi.inv_ops [of s ops] by (simp add: kv_op_eq [abs_def])

subsection \<open>Committing\<close>

fun kv_committable :: "kv \<Rightarrow> bool" where
  "kv_committable (KVMapTransaction db tx) =
     (\<forall>k. map_of (cacheDeleted tx) k = Some True \<longrightarrow> smap_has k db \<and> \<not> smap_has k (cache tx))"
| "kv_committable (KVLevelDBTransaction db tx) = True"
| "kv_committable _ = False"

lemma kvmaptx_erase_ok:
  assumes "sorted_keys db" "distinct ks"
    and "\<And>k. k \<in> set ks \<Longrightarrow> map_of del k = Some True \<Longrightarrow> smap_has k db"
  shows "snd (kvmaptx_erase del ks db) \<and> sorted_keys (fst (kvmaptx_erase del ks db)) \<and>
    map_of (fst (kvmaptx_erase del ks db)) =
      (\<lambda>k. if k \<in> set ks \<and> map_of del k = Some True then None else map_of db k)"
  using assms
proof (induction ks arbitrary: db)
  case (Cons key ks)
  show ?case
  proof (cases "map_of del key = Some True")
    case True
    have "smap_has k (smap_del key db)" if "k \<in> set ks" "map_of del k = Some True" for k
      using Cons.prems that by auto
    then show ?thesis
      using Cons.IH [of "smap_del key db"] Cons.prems True by (auto simp: fun_eq_iff)
  next
    case False
    then show ?thesis using Cons.IH [of db] Cons.prems by (auto simp: fun_eq_iff)
  qed
qed auto

lemma kvmaptx_flush_map:
  "map_of (kvmaptx_flush c ks db) =
     (\<lambda>k. if k \<in> set ks then Some (case map_of c k of Some v \<Rightarrow> v | None \<Rightarrow> []) else map_of db k)"
  by (induction ks arbitrary: db) (auto simp: fun_eq_iff)

lemma kvmaptx_flush_sorted: "sorted_keys db \<Longrightarrow> sorted_keys (kvmaptx_flush c ks db)"
  by (induction ks arbitrary: db) simp_all

lemma map_of_key_iff: "k \<in> fst ` set xs \<longleftrightarrow> map_of xs k \<noteq> None"
  by (simp add: map_of_eq_None_iff)

lemma kvmaptx_commit:
  assumes Q: "qt_ok Q" and ok: "kv_ok (KVMapTransaction db tx)"
    and c: "kv_committable (KVMapTransaction db tx)"
  shows "snd (kvmaptx_writeTransaction Q db tx) = None \<and>
    sorted_keys (fst (kvmaptx_writeTransaction Q db tx)) \<and>
    map_of (fst (kvmaptx_writeTransaction Q db tx)) = tx_view tx (map_of db)"
proof -
  let ?ks = "stringHashKeys Q (map fst (cacheDeleted tx))"
  let ?cs = "stringHashKeys Q (map fst (cache tx))"
  have sets: "set ?ks = fst ` set (cacheDeleted tx)" "set ?cs = fst ` set (cache tx)"
    by (simp_all add: qt_ok_set_keys [OF Q])
  have "distinct ?ks"
    using ok by (simp add: qt_ok_distinct_keys [OF Q] sorted_keys_distinct)
  then have erase: "snd (kvmaptx_erase (cacheDeleted tx) ?ks db)"
    "sorted_keys (fst (kvmaptx_erase (cacheDeleted tx) ?ks db))"
    "map_of (fst (kvmaptx_erase (cacheDeleted tx) ?ks db)) =
      (\<lambda>k. if k \<in> set ?ks \<and> map_of (cacheDeleted tx) k = Some True then None else map_of db k)"
    using kvmaptx_erase_ok [of db ?ks "cacheDeleted tx"] ok c by auto
  then have "kvmaptx_writeTransaction Q db tx =
      (kvmaptx_flush (cache tx) ?cs (fst (kvmaptx_erase (cacheDeleted tx) ?ks db)), None)"
    by (simp add: kvmaptx_writeTransaction_def case_prod_beta)
  moreover have "map_of (kvmaptx_flush (cache tx) ?cs (fst (kvmaptx_erase (cacheDeleted tx) ?ks db)))
      = tx_view tx (map_of db)"
    using c by (auto simp: kvmaptx_flush_map erase(3) sets map_of_key_iff tx_view_def fun_eq_iff
        split: option.split)
  ultimately show ?thesis using erase(2) by (simp add: kvmaptx_flush_sorted)
qed

lemma fold_batch_apply:
  "sorted_keys db \<Longrightarrow> sorted_keys (fold batch_apply ops db) \<and>
     map_of (fold batch_apply ops db) = fold op_map ops (map_of db)"
proof (induction ops arbitrary: db)
  case (Cons op ops)
  then show ?case by (cases op) (simp_all add: fun_upd_def)
qed simp

lemma kv_commit:
  assumes Q: "qt_ok Q" and ok: "kv_ok s" and c: "kv_committable s"
  shows "snd (kv_writeTransaction Q s) = None \<and>
    kv_ok (kv_base (fst (kv_writeTransaction Q s))) \<and>
    kv_read (kv_base (fst (kv_writeTransaction Q s))) = kv_read s"
proof (cases s)
  case (KVMapTransaction db tx)
  then show ?thesis
    using kvmaptx_commit [OF Q, of db tx] ok c by (simp add: kv_simps)
next
  case (KVLevelDBTransaction db tx)
  then show ?thesis
    using ok fold_batch_apply [of "ldb_data db" "batch tx"]
    by (simp add: kv_simps kvldbtx_writeTransaction_def leveldb_Write_def leveldb_status_def)
qed (use c in simp_all)

lemma kv_base_put: "kv_committable s \<Longrightarrow> kv_base (fst (putValue k v s)) = kv_base s"
  by (cases s) simp_all

lemma kv_base_del: "kv_committable s \<Longrightarrow> kv_base (fst (deleteValue k s)) = kv_base s"
  by (cases s) simp_all

fun kv_is_transaction :: "kv \<Rightarrow> bool" where
  "kv_is_transaction (KVMapTransaction db tx) = True"
| "kv_is_transaction (KVLevelDBTransaction db tx) = True"
| "kv_is_transaction _ = False"

lemma kv_base_tx_put: "kv_is_transaction s \<Longrightarrow> kv_base (fst (putValue k v s)) = kv_base s"
  by (cases s) simp_all

lemma kv_base_tx_del: "kv_is_transaction s \<Longrightarrow> kv_base (fst (deleteValue k s)) = kv_base s"
  by (cases s) simp_all

lemma kv_is_transaction_put [simp]: "kv_is_transaction (fst (putValue k v s)) = kv_is_transaction s"
  by (cases s) (simp_all add: kvldb_putValue_def split: prod.split)

lemma kv_is_transaction_del [simp]: "kv_is_transaction (fst (deleteValue k s)) = kv_is_transaction s"
  by (cases s) (simp_all add: kvldb_deleteValue_def kvmap_deleteValue_def split: prod.split)

lemma kv_tx_status [simp]:
  "kv_is_transaction s \<Longrightarrow> snd (putValue k v s) = None"
  "kv_is_transaction s \<Longrightarrow> snd (deleteValue k s) = None"
  by (cases s; simp)+

interpretation kvt: kv_transaction
  kv_read "\<lambda>k v s. fst (putValue k v s)" "\<lambda>k s. fst (deleteValue k s)"
  "\<lambda>s. qt_ok Q \<and> kv_ok s \<and> kv_is_transaction s"
  "\<lambda>s. kv_read (kv_base s)" "kv_writeTransaction Q" kv_committable
  for Q
  by unfold_locales
    (auto simp: kv_put_read kv_del_read kv_put_ok kv_del_ok kv_base_tx_put kv_base_tx_del
      kv_commit)

lemma kv_commit_ops:
  assumes "qt_ok Q" "kv_ok s" "kv_is_transaction s" "kv_read s = kv_read (kv_base s)"
    and "kv_committable (fold kv_op ops s)"
  shows "kv_read (kv_base (fst (kv_writeTransaction Q (fold kv_op ops s)))) = fold op_map ops (kv_read (kv_base s))"
  using kvt.commit_ops [of Q s ops] assms by (simp add: kv_op_eq [abs_def])

lemma kv_base_ops:
  assumes "qt_ok Q" "kv_ok s" "kv_is_transaction s"
  shows "kv_read (kv_base (fold kv_op ops s)) = kv_read (kv_base s)"
  using kvt.base_ops [of Q s ops] assms by (simp add: kv_op_eq [abs_def])

text \<open>A transaction that only writes can always be committed.\<close>

fun kv_only_puts :: "kv \<Rightarrow> bool" where
  "kv_only_puts (KVMapTransaction db tx) = (True \<notin> ran (map_of (cacheDeleted tx)))"
| "kv_only_puts (KVLevelDBTransaction db tx) = True"
| "kv_only_puts _ = False"

lemma kv_only_puts_put [simp]: "kv_only_puts s \<Longrightarrow> kv_only_puts (fst (putValue k v s))"
  by (cases s) (auto simp: kvmaptx_putValue_def ran_def split: if_splits)

lemma kv_only_puts_committable: "kv_only_puts s \<Longrightarrow> kv_committable s"
  by (cases s) (auto simp: ran_def)

lemma kv_only_puts_transaction: "kv_only_puts s \<Longrightarrow> kv_is_transaction s"
  by (cases s) simp_all

lemma newTransaction_fresh:
  assumes "kv_ok s" "newTransaction s = Some t"
  shows "kv_ok t \<and> kv_read t = kv_read s \<and> kv_only_puts t \<and> kv_base t = s \<and> kv_entries t = kv_entries s"
  using assms by (cases s) (auto simp: kv_simps kvmap_newTransaction_def kvldb_newTransaction_def
      tx_view_def fun_eq_iff ran_def)

subsection \<open>What a map transaction writes\<close>

text \<open>The value a key was last given by the operations, and whether the last one on a key deletes it.\<close>

definition lastPut :: "batch_op list \<Rightarrow> bytes \<Rightarrow> bytes option" where
  "lastPut ops k = fold (\<lambda>op r. case op of BatchPut j v \<Rightarrow> if j = k then Some v else r | BatchDelete j \<Rightarrow> r) ops None"

definition deletedLast :: "batch_op list \<Rightarrow> bytes \<Rightarrow> bool" where
  "deletedLast ops k =
     fold (\<lambda>op r. case op of BatchPut j v \<Rightarrow> j \<noteq> k \<and> r | BatchDelete j \<Rightarrow> j = k \<or> r) ops False"

text \<open>The keys that are deleted at the end and that the database lacks.\<close>

definition absentDeletes :: "batch_op list \<Rightarrow> store \<Rightarrow> bytes list" where
  "absentDeletes ops db =
     filter (\<lambda>k. deletedLast ops k \<and> \<not> smap_has k db) (map (\<lambda>op. case op of BatchPut j v \<Rightarrow> j | BatchDelete j \<Rightarrow> j) ops)"

lemma deletedLast_snoc [simp]:
  "deletedLast (ops @ [BatchPut j v]) k \<longleftrightarrow> j \<noteq> k \<and> deletedLast ops k"
  "deletedLast (ops @ [BatchDelete j]) k \<longleftrightarrow> j = k \<or> deletedLast ops k"
  by (simp_all add: deletedLast_def)

lemma lastPut_snoc [simp]:
  "lastPut (ops @ [BatchPut j v]) k = (if j = k then Some v else lastPut ops k)"
  "lastPut (ops @ [BatchDelete j]) k = lastPut ops k"
  by (simp_all add: lastPut_def)

lemma deletedLast_key:
  "deletedLast ops k \<Longrightarrow> k \<in> set (map (\<lambda>op. case op of BatchPut j v \<Rightarrow> j | BatchDelete j \<Rightarrow> j) ops)"
proof (induction ops rule: rev_induct)
  case (snoc op ops)
  then show ?case by (cases op) auto
qed (simp add: deletedLast_def)

lemma maptx_fold:
  "\<exists>tx. fold kv_op ops (KVMapTransaction db kvmap_newTransaction) = KVMapTransaction db tx \<and>
     sorted_keys (cacheDeleted tx) \<and> sorted_keys (cache tx) \<and>
     (\<forall>k. map_of (cacheDeleted tx) k = Some True \<longleftrightarrow> deletedLast ops k) \<and> (\<forall>k. map_of (cache tx) k = lastPut ops k)"
proof (induction ops rule: rev_induct)
  case Nil
  show ?case by (simp add: kvmap_newTransaction_def deletedLast_def lastPut_def)
next
  case (snoc op ops)
  then obtain tx where tx: "fold kv_op ops (KVMapTransaction db kvmap_newTransaction) = KVMapTransaction db tx"
    "sorted_keys (cacheDeleted tx)" "sorted_keys (cache tx)"
    "\<And>k. map_of (cacheDeleted tx) k = Some True \<longleftrightarrow> deletedLast ops k" "\<And>k. map_of (cache tx) k = lastPut ops k"
    by auto
  have f: "fold kv_op (ops @ [op]) (KVMapTransaction db kvmap_newTransaction) = kv_op op (KVMapTransaction db tx)"
    by (simp add: tx(1))
  show ?case unfolding f
    by (cases op) (auto simp: kv_op_def kvmaptx_putValue_def kvmaptx_deleteValue_def tx)
qed

lemma ldbtx_fold: "\<exists>tx'. fold kv_op ops (KVLevelDBTransaction db tx) = KVLevelDBTransaction db tx'"
proof (induction ops arbitrary: tx)
  case (Cons op ops)
  then show ?case by (cases op) (simp_all add: kv_op_def)
qed simp

lemma kvmaptx_erase_iff:
  "sorted_keys db \<Longrightarrow> distinct ks \<Longrightarrow>
   snd (kvmaptx_erase del ks db) \<longleftrightarrow> (\<forall>k \<in> set ks. map_of del k = Some True \<longrightarrow> smap_has k db)"
proof (induction ks arbitrary: db)
  case (Cons key ks)
  then show ?case by (auto split: if_splits)
qed simp

lemma maptx_write:
  assumes Q: "qt_ok Q" and s: "sorted_keys db"
  shows "snd (kv_writeTransaction Q (fold kv_op ops (KVMapTransaction db kvmap_newTransaction)))
      = (if absentDeletes ops db = [] then None else Some (errorOperation, ''Not found'')) \<and>
    (absentDeletes ops db = [] \<longrightarrow>
      kv_read (kv_base (fst (kv_writeTransaction Q (fold kv_op ops (KVMapTransaction db kvmap_newTransaction)))))
        = (\<lambda>k. case lastPut ops k of Some v \<Rightarrow> Some v | None \<Rightarrow> if deletedLast ops k then None else map_of db k))"
proof -
  obtain tx where f: "fold kv_op ops (KVMapTransaction db kvmap_newTransaction) = KVMapTransaction db tx"
    and srt: "sorted_keys (cacheDeleted tx)" "sorted_keys (cache tx)"
    and del: "\<And>k. map_of (cacheDeleted tx) k = Some True \<longleftrightarrow> deletedLast ops k"
    and put: "\<And>k. map_of (cache tx) k = lastPut ops k" using maptx_fold [of ops db] by blast
  let ?ks = "stringHashKeys Q (map fst (cacheDeleted tx))"
  have ks: "set ?ks = fst ` set (cacheDeleted tx)" by (simp add: qt_ok_set_keys [OF Q])
  have cs: "set (stringHashKeys Q (map fst (cache tx))) = fst ` set (cache tx)" by (simp add: qt_ok_set_keys [OF Q])
  have d: "distinct ?ks" by (simp add: qt_ok_distinct_keys [OF Q] sorted_keys_distinct srt)
  have e: "absentDeletes ops db = [] \<longleftrightarrow> (\<forall>k. deletedLast ops k \<longrightarrow> smap_has k db)"
    unfolding absentDeletes_def filter_empty_conv using deletedLast_key [of ops] by blast
  have k: "deletedLast ops k \<Longrightarrow> k \<in> set ?ks" for k using del [of k] by (simp add: ks map_of_key_iff)
  have "snd (kvmaptx_erase (cacheDeleted tx) ?ks db) \<longleftrightarrow> absentDeletes ops db = []"
    unfolding kvmaptx_erase_iff [OF s d] e del using k by blast
  moreover have "map_of (fst (kvmaptx_erase (cacheDeleted tx) ?ks db)) = (\<lambda>k. if deletedLast ops k then None else map_of db k)"
    if "absentDeletes ops db = []"
    using kvmaptx_erase_ok [OF s d, of "cacheDeleted tx"] that e k by (auto simp: del fun_eq_iff)
  ultimately show ?thesis
    by (auto simp: f kv_simps kvmaptx_writeTransaction_def case_prod_beta kvmaptx_flush_map cs map_of_key_iff put fun_eq_iff
        split: option.split)
qed

lemma ldbtx_write:
  "snd (kv_writeTransaction Q (fold kv_op ops (KVLevelDBTransaction \<lparr>ldb_data = db, ldb_status = None\<rparr> kvldb_newTransaction))) = None"
  using ldbtx_fold [of ops "\<lparr>ldb_data = db, ldb_status = None\<rparr>" kvldb_newTransaction]
  by (auto simp: kvldbtx_writeTransaction_def leveldb_Write_def leveldb_status_def)

end
