(* ===== verification/QDocIterator.thy ===== *)
theory QDocIterator
  imports QDocKVContract
begin

text \<open>
  The document keys and \<open>QDocCollection::iterator\<close> (qdoccollection.h, qdoccollection.cpp):
  every version of a document is an entry of the key-value store, and the iterator presents
  the documents of one snapshot, each as its latest version not after that snapshot.
\<close>

subsection \<open>Keys\<close>

definition constructDocumentStartKey :: "bytes \<Rightarrow> bytes" where
  "constructDocumentStartKey i = ''d:'' @ i @ '':''"

definition constructDocumentLinkKey :: "bytes \<Rightarrow> 8 word \<Rightarrow> bytes" where
  "constructDocumentLinkKey i snapshotId = constructDocumentStartKey i @ [byte_chr snapshotId]"

definition constructDocumentLinkKeyS :: "qt \<Rightarrow> string \<Rightarrow> 8 word \<Rightarrow> bytes" where
  "constructDocumentLinkKeyS Q i snapshotId = constructDocumentLinkKey (toLocal8Bit Q i) snapshotId"

definition constructIndexValueStartKey :: "qt \<Rightarrow> string \<Rightarrow> 8 word \<Rightarrow> bytes" where
  "constructIndexValueStartKey Q indexName snapshotId =
     toLocal8Bit Q (''iv:'' @ indexName @ '':'') @ [byte_chr snapshotId] @ '':''"

definition constructIndexValueKey :: "qt \<Rightarrow> string \<Rightarrow> 8 word \<Rightarrow> bytes \<Rightarrow> bytes" where
  "constructIndexValueKey Q indexName snapshotId valueData =
     constructIndexValueStartKey Q indexName snapshotId @ valueData"

definition constructIndexValueKeyJ :: "qt \<Rightarrow> string \<Rightarrow> 8 word \<Rightarrow> json \<Rightarrow> bytes" where
  "constructIndexValueKeyJ Q indexName snapshotId jsonValue =
     constructIndexValueKey Q indexName snapshotId (marshal Q jsonValue)"

text \<open>\<open>key.mid(0, prefix.size()) == prefix\<close>\<close>

definition hasPrefix :: "bytes \<Rightarrow> bytes \<Rightarrow> bool" where
  "hasPrefix p key \<longleftrightarrow> take (length p) key = p"

definition isDocKey :: "bytes \<Rightarrow> bool" where
  "isDocKey key \<longleftrightarrow> take 2 key = ''d:''"

subsection \<open>The iterator\<close>

record dociter =
  it_kv :: kviter
  it_snapshotId :: "8 word"
  it_beginKey :: bytes
  it_prefix :: bytes

definition it_key :: "dociter \<Rightarrow> bytes" where
  "it_key it = drop 2 (it_prefix it)"

text \<open>
  The loop of \<open>value\<close> from the entries still ahead: the entries left when it stops, the
  data found, and the three reference parameters. \<open>snapshotId\<close> is written at every version
  the loop passes.
\<close>

fun valueLoop :: "bytes \<Rightarrow> 8 word \<Rightarrow> store \<Rightarrow> bytes \<Rightarrow> 8 word \<Rightarrow> bool \<Rightarrow> bool
    \<Rightarrow> store \<times> bytes \<times> 8 word \<times> bool \<times> bool" where
  "valueLoop pfx my [] valueData sid notLater naked = ([], valueData, sid, notLater, naked)"
| "valueLoop pfx my ((key, v) # rest) valueData sid notLater naked =
     (if \<not> hasPrefix pfx key then ((key, v) # rest, valueData, sid, notLater, naked)
      else if length key > length pfx + 1 then
        let sid' = chr_byte (last key) in
        if sid' < my then valueLoop pfx my rest v sid' notLater False
        else if sid' = my then (rest, v, sid', notLater, naked)
        else valueLoop pfx my rest valueData sid' False False
      else valueLoop pfx my rest valueData sid notLater naked)"

definition it_value :: "qt \<Rightarrow> 8 word \<Rightarrow> dociter \<Rightarrow> dociter \<times> json \<times> 8 word \<times> bool \<times> bool" where
  "it_value Q u it =
     (let kvit = ki_seek (it_beginKey it) (it_kv it);
          (rest, valueData, sid, notLater, naked) =
            valueLoop (it_prefix it) (it_snapshotId it) (ki_rest kvit) [] u True True
      in (it\<lparr>it_kv := kvit\<lparr>ki_rest := rest\<rparr>\<rparr>,
          if valueData \<noteq> [] then unmarshal Q valueData else JUndefined, sid, notLater, naked))"

text \<open>
  \<open>isModifiedLater\<close> reads the snapshot byte into an \<open>int\<close> through a plain char, so the byte
  is sign-extended.
\<close>

fun modifiedLoop :: "bytes \<Rightarrow> 8 word \<Rightarrow> store \<Rightarrow> store \<times> bool" where
  "modifiedLoop pfx my [] = ([], True)"
| "modifiedLoop pfx my ((key, v) # rest) =
     (if \<not> hasPrefix pfx key then ((key, v) # rest, True)
      else if length key > length pfx + 1 \<and> signed_char (last key) > int (unat my) then (rest, False)
      else modifiedLoop pfx my rest)"

definition it_isModifiedLater :: "dociter \<Rightarrow> dociter \<times> bool" where
  "it_isModifiedLater it =
     (let kvit = ki_seek (it_beginKey it) (it_kv it);
          (rest, notLater) = modifiedLoop (it_prefix it) (it_snapshotId it) (ki_rest kvit)
      in (it\<lparr>it_kv := kvit\<lparr>ki_rest := rest\<rparr>\<rparr>, \<not> notLater))"

definition it_setupPrefix :: "dociter \<Rightarrow> dociter" where
  "it_setupPrefix it =
     (if ki_isValid (it_kv it) then
        let beginKey = ki_key (it_kv it)
        in it\<lparr>it_beginKey := beginKey,
              it_prefix := (if isDocKey beginKey then take (length beginKey - 1) beginKey else [])\<rparr>
      else it)"

definition it_seekToFirst :: "dociter \<Rightarrow> dociter" where
  "it_seekToFirst it = it_setupPrefix (it\<lparr>it_kv := ki_seekToFirst (it_kv it)\<rparr>)"

definition it_next :: "dociter \<Rightarrow> dociter" where
  "it_next it = it_setupPrefix (it\<lparr>it_kv := (it_kv it)
     \<lparr>ki_rest := dropWhile (\<lambda>e. hasPrefix (it_prefix it) (fst e)) (ki_rest (it_kv it))\<rparr>\<rparr>)"

definition it_seek :: "bytes \<Rightarrow> dociter \<Rightarrow> dociter" where
  "it_seek i it = it_setupPrefix (it\<lparr>it_kv := ki_seek (''d:'' @ i @ '':'') (it_kv it)\<rparr>)"

definition it_isValid :: "dociter \<Rightarrow> bool" where
  "it_isValid it \<longleftrightarrow> ki_isValid (it_kv it) \<and> it_prefix it \<noteq> []"

definition newIterator :: "kv \<Rightarrow> 8 word \<Rightarrow> dociter" where
  "newIterator k snapshotId =
     \<lparr>it_kv = ki_seekToFirst (kv_newIterator k), it_snapshotId = snapshotId, it_beginKey = [], it_prefix = []\<rparr>"

text \<open>
  \<open>getJsonValue\<close> with its reference parameters; \<open>u\<close> is the value \<open>snapshotId\<close> has before
  the call. A caller reads the parameters only after a value was found.
\<close>

definition getJsonValueFull :: "qt \<Rightarrow> kv \<Rightarrow> 8 word \<Rightarrow> bytes \<Rightarrow> 8 word \<Rightarrow> json \<times> 8 word \<times> bool \<times> bool" where
  "getJsonValueFull Q k snapshotId i u =
     (let it = it_seek i (newIterator k snapshotId)
      in if \<not> it_isValid it then (JUndefined, u, True, True) else snd (it_value Q u it))"

definition getJsonValue :: "qt \<Rightarrow> kv \<Rightarrow> 8 word \<Rightarrow> bytes \<Rightarrow> json" where
  "getJsonValue Q k snapshotId i = fst (getJsonValueFull Q k snapshotId i 0)"

subsection \<open>The document a snapshot shows\<close>

text \<open>
  The abstract view of a store: the data of the latest version of a document that is not
  after snapshot \<open>n\<close>, and the document it holds.
\<close>

fun latestVersion :: "(bytes \<rightharpoonup> bytes) \<Rightarrow> bytes \<Rightarrow> nat \<Rightarrow> bytes" where
  "latestVersion m i 0 =
     (case m (constructDocumentLinkKey i 0) of Some v \<Rightarrow> v | None \<Rightarrow> [])"
| "latestVersion m i (Suc n) =
     (case m (constructDocumentLinkKey i (of_nat (Suc n))) of Some v \<Rightarrow> v | None \<Rightarrow> latestVersion m i n)"

definition docAt :: "qt \<Rightarrow> (bytes \<rightharpoonup> bytes) \<Rightarrow> 8 word \<Rightarrow> bytes \<Rightarrow> json" where
  "docAt Q m my i =
     (let d = latestVersion m i (unat my) in if d \<noteq> [] then unmarshal Q d else JUndefined)"

text \<open>
  The layout of the documents \<open>js\<close> (in the order of their start keys): a start key for each
  of them, no document key of any other shape, no id a prefix of another, and no key that
  sorts before the document keys.
\<close>

definition doc_store :: "bytes list \<Rightarrow> (bytes \<rightharpoonup> bytes) \<Rightarrow> bool" where
  "doc_store js m \<longleftrightarrow>
     sorted_wrt (\<lambda>i j. constructDocumentStartKey i < constructDocumentStartKey j) js \<and>
     (\<forall>i \<in> set js. \<forall>j \<in> set js. prefix i j \<longrightarrow> i = j) \<and>
     (\<forall>i \<in> set js. m (constructDocumentStartKey i) \<noteq> None) \<and>
     (\<forall>k. m k \<noteq> None \<longrightarrow> isDocKey k \<longrightarrow>
        (\<exists>i \<in> set js. k = constructDocumentStartKey i \<or> (\<exists>s. k = constructDocumentLinkKey i s))) \<and>
     (\<forall>k. m k \<noteq> None \<longrightarrow> ''d:'' \<le> k)"

end
