(* ===== verification/QDocScan.thy ===== *)
theory QDocScan
  imports QDocIterator
begin

text \<open>
  Why the iterator is right: in a sorted store with the document layout, the entries of one
  document are contiguous, \<open>value\<close> finds the latest version not after the snapshot, and
  \<open>next\<close> reaches the start key of the next document.
\<close>

subsection \<open>Keys with a common prefix\<close>

lemma hasPrefix_iff: "hasPrefix p k \<longleftrightarrow> prefix p k"
  by (auto simp: hasPrefix_def prefix_def) (metis append_take_drop_id)

lemma isDocKey_iff: "isDocKey k \<longleftrightarrow> prefix ''d:'' k"
  by (simp add: isDocKey_def flip: hasPrefix_iff) (simp add: hasPrefix_def numeral_2_eq_2)

lemma prefix_interval:
  fixes a b c :: "'a::linorder list"
  shows "prefix p a \<Longrightarrow> prefix p c \<Longrightarrow> a \<le> b \<Longrightarrow> b \<le> c \<Longrightarrow> prefix p b"
proof (induction p arbitrary: a b c)
  case (Cons x p)
  obtain a' c' where "a = x # a'" "c = x # c'" and p: "prefix p a'" "prefix p c'"
    using Cons.prems(1,2) by (auto simp: prefix_def)
  with Cons.prems(3,4) obtain b' where "b = x # b'" "a' \<le> b'" "b' \<le> c'"
    by (cases b) auto
  with Cons.IH [OF p] show ?case by simp
qed simp

lemma takeWhile_prefix:
  assumes "sorted_keys (e # ys)" "prefix p (fst e)"
  shows "takeWhile (\<lambda>e. prefix p (fst e)) ys = filter (\<lambda>e. prefix p (fst e)) ys"
  using assms
proof (induction ys)
  case (Cons y ys)
  have s: "sorted_keys (e # ys)" "fst e < fst y" "\<forall>z \<in> set ys. fst y < fst z"
    using Cons.prems(1) by auto
  show ?case
  proof (cases "prefix p (fst y)")
    case False
    then have "\<not> prefix p (fst z)" if "z \<in> set ys" for z
      using prefix_interval [OF Cons.prems(2), of "fst z" "fst y"] s that by (auto dest: less_imp_le)
    then show ?thesis using False by simp
  qed (use Cons.IH [OF s(1) Cons.prems(2)] in simp)
qed simp

lemma dropWhile_prefix:
  assumes "sorted_keys (e # ys)" "prefix p (fst e)"
  shows "dropWhile (\<lambda>e. prefix p (fst e)) ys = filter (\<lambda>e. \<not> prefix p (fst e)) ys"
  using assms
proof (induction ys)
  case (Cons y ys)
  have s: "sorted_keys (e # ys)" "fst e < fst y" "\<forall>z \<in> set ys. fst y < fst z"
    using Cons.prems(1) by auto
  show ?case
  proof (cases "prefix p (fst y)")
    case False
    then have "\<not> prefix p (fst z)" if "z \<in> set ys" for z
      using prefix_interval [OF Cons.prems(2), of "fst z" "fst y"] s that by (auto dest: less_imp_le)
    then have "filter (\<lambda>e. \<not> prefix p (fst e)) ys = ys" by (simp add: filter_id_conv)
    then show ?thesis using False by simp
  qed (use Cons.IH [OF s(1) Cons.prems(2)] in simp)
qed simp

subsection \<open>Document keys\<close>

lemma linkKey_eq [simp]:
  "constructDocumentLinkKey i s = constructDocumentLinkKey j t \<longleftrightarrow> i = j \<and> s = t"
  by (auto simp: constructDocumentLinkKey_def constructDocumentStartKey_def)

lemma startKey_eq [simp]: "constructDocumentStartKey i = constructDocumentStartKey j \<longleftrightarrow> i = j"
  by (simp add: constructDocumentStartKey_def)

lemma isDocKey_keys [simp]: "isDocKey (constructDocumentStartKey i)" "isDocKey (constructDocumentLinkKey i s)"
  by (simp_all add: isDocKey_def constructDocumentStartKey_def constructDocumentLinkKey_def)

lemma start_less_link [simp]: "constructDocumentStartKey i < constructDocumentLinkKey i s"
  by (simp add: constructDocumentStartKey_def constructDocumentLinkKey_def) (induction i, simp_all)

lemma link_less_link [simp]:
  "constructDocumentLinkKey i s < constructDocumentLinkKey i t \<longleftrightarrow> s < t"
  by (simp add: constructDocumentStartKey_def constructDocumentLinkKey_def) (induction i, simp_all)

lemma link_le_link [simp]:
  "constructDocumentLinkKey i s \<le> constructDocumentLinkKey i t \<longleftrightarrow> s \<le> t"
  by (simp flip: not_less)

definition docPrefix :: "bytes \<Rightarrow> bytes" where
  "docPrefix i = ''d:'' @ i"

lemma butlast_startKey: "take (length (constructDocumentStartKey i) - 1) (constructDocumentStartKey i) = docPrefix i"
  by (simp add: constructDocumentStartKey_def docPrefix_def)

lemma drop_docPrefix [simp]: "drop 2 (docPrefix i) = i" "docPrefix i \<noteq> []"
  by (simp_all add: docPrefix_def)

lemma prefix_keys [simp]:
  "prefix (docPrefix i) (constructDocumentStartKey i)" "prefix (docPrefix i) (constructDocumentLinkKey i s)"
  by (simp_all add: constructDocumentStartKey_def constructDocumentLinkKey_def docPrefix_def)

lemma prefix_start:
  assumes "prefix (docPrefix i) (constructDocumentStartKey j)"
  shows "prefix i j \<or> prefix j i"
  using assms by (auto simp: constructDocumentStartKey_def docPrefix_def prefix_append)

lemma prefix_link:
  assumes "prefix (docPrefix i) (constructDocumentLinkKey j s)"
  shows "prefix i j \<or> prefix j i"
  using assms by (auto simp: constructDocumentStartKey_def constructDocumentLinkKey_def docPrefix_def prefix_append)

lemma doc_store_prefix:
  assumes ds: "doc_store js m" and i: "i \<in> set js" and k: "m k \<noteq> None" and p: "prefix (docPrefix i) k"
  shows "k = constructDocumentStartKey i \<or> (\<exists>s. k = constructDocumentLinkKey i s)"
proof -
  have "isDocKey k" using p by (auto simp: isDocKey_iff prefix_def docPrefix_def)
  then obtain j where j: "j \<in> set js" and kj: "k = constructDocumentStartKey j \<or> (\<exists>s. k = constructDocumentLinkKey j s)"
    using ds k unfolding doc_store_def by blast
  have "prefix i j \<or> prefix j i" using kj p prefix_start prefix_link by blast
  then have "i = j" using ds i j unfolding doc_store_def by blast
  then show ?thesis using kj by blast
qed

subsection \<open>One document\<close>

text \<open>The group of a document: its versions in ascending order.\<close>

definition isGroup :: "bytes \<Rightarrow> store \<Rightarrow> bool" where
  "isGroup i g \<longleftrightarrow> sorted_keys g \<and> (\<forall>e \<in> set g. \<exists>s. fst e = constructDocumentLinkKey i s)"

lemma latestVersion_none:
  "(\<And>s. unat s \<le> n \<Longrightarrow> m (constructDocumentLinkKey i s) = None) \<Longrightarrow> n < 256 \<Longrightarrow> latestVersion m i n = []"
proof (induction n)
  case (Suc n)
  have "m (constructDocumentLinkKey i (of_nat (Suc n))) = None"
    using Suc.prems by (intro Suc.prems(1)) (simp add: unat_of_nat8 del: of_nat_Suc)
  then show ?case using Suc by simp
qed simp

lemma latestVersion_some:
  assumes "m (constructDocumentLinkKey i s) = Some v" "unat s \<le> n" "n < 256"
    and "\<And>t. s < t \<Longrightarrow> unat t \<le> n \<Longrightarrow> m (constructDocumentLinkKey i t) = None"
  shows "latestVersion m i n = v"
  using assms(2-)
proof (induction n)
  case 0
  then have "s = 0" by (simp add: unat_eq_0)
  then show ?case using assms(1) by simp
next
  case (Suc n)
  have u: "unat (of_nat (Suc n) :: 8 word) = Suc n" using Suc.prems(2) by (simp add: unat_of_nat8 del: of_nat_Suc)
  show ?case
  proof (cases "unat s = Suc n")
    case True
    then have "s = of_nat (Suc n)" using u by (metis word_unat_eq_iff)
    then show ?thesis using assms(1) by simp
  next
    case False
    then have s: "unat s \<le> n" using Suc.prems(1) by simp
    have "m (constructDocumentLinkKey i (of_nat (Suc n))) = None"
      using s u by (intro Suc.prems(3)) (simp_all add: word_less_nat_alt)
    then show ?thesis using Suc.IH s Suc.prems by simp
  qed
qed

lemma last_link [simp]: "last (constructDocumentLinkKey i s) = byte_chr s"
  by (simp add: constructDocumentLinkKey_def)

lemma length_keys [simp]:
  "length (constructDocumentStartKey i) = length i + 3" "length (constructDocumentLinkKey i s) = length i + 4"
  "length (docPrefix i) = length i + 2"
  by (simp_all add: constructDocumentStartKey_def constructDocumentLinkKey_def docPrefix_def)

lemma isGroup_Cons:
  "isGroup i (e # g) \<Longrightarrow> isGroup i g \<and> (\<exists>s. fst e = constructDocumentLinkKey i s) \<and>
     (\<forall>e' \<in> set g. chr_byte (last (fst e)) < chr_byte (last (fst e')))"
proof -
  assume g: "isGroup i (e # g)"
  then obtain s where s: "fst e = constructDocumentLinkKey i s" by (auto simp: isGroup_def)
  have "s < chr_byte (last (fst e'))" if e': "e' \<in> set g" for e'
  proof -
    obtain t where t: "fst e' = constructDocumentLinkKey i t" using g e' by (auto simp: isGroup_def)
    have "fst e < fst e'" using g e' by (auto simp: isGroup_def)
    then show ?thesis by (simp add: s t)
  qed
  with g s show ?thesis by (auto simp: isGroup_def)
qed

lemma valueLoop_stop:
  "\<forall>e \<in> set rest. \<not> prefix p (fst e) \<Longrightarrow> valueLoop p my rest d u nl nk = (rest, d, u, nl, nk)"
  by (cases "(p, my, rest, d, u, nl, nk)" rule: valueLoop.cases) (auto simp: hasPrefix_iff)

definition lastData :: "store \<Rightarrow> 8 word \<Rightarrow> bytes \<Rightarrow> bytes" where
  "lastData g my d =
     (case filter (\<lambda>e. chr_byte (last (fst e)) \<le> my) g of [] \<Rightarrow> d | l \<Rightarrow> snd (last l))"

lemma filter_later_group:
  "isGroup i (e # g) \<Longrightarrow> my \<le> chr_byte (last (fst e)) \<Longrightarrow> filter (\<lambda>e. chr_byte (last (fst e)) \<le> my) g = []"
  using isGroup_Cons [of i e g] by (force simp: filter_empty_conv not_le)

lemma valueLoop_group:
  assumes "isGroup i g" "\<forall>e \<in> set rest. \<not> prefix (docPrefix i) (fst e)"
  shows "(\<exists>g' sid nl' nk'. valueLoop (docPrefix i) my (g @ rest) d u nl nk
            = (g' @ rest, lastData g my d, sid, nl', nk') \<and> set g' \<subseteq> set g)"
  using assms
proof (induction g arbitrary: d u nl nk)
  case Nil
  then show ?case by (simp add: valueLoop_stop lastData_def)
next
  case (Cons e g)
  obtain k v where e: "e = (k, v)" by force
  obtain s where s: "k = constructDocumentLinkKey i s" and g: "isGroup i g"
    using isGroup_Cons [OF Cons.prems(1)] e by auto
  have later: "filter (\<lambda>e. chr_byte (last (fst e)) \<le> my) g = []" if "my \<le> s"
    using filter_later_group [OF Cons.prems(1)] that e s by simp
  have IH: "\<exists>g' sid nl' nk'. valueLoop (docPrefix i) my (g @ rest) d' u' nl0 nk0
      = (g' @ rest, lastData g my d', sid, nl', nk') \<and> set g' \<subseteq> set g" for d' u' nl0 nk0
    by (rule Cons.IH [OF g Cons.prems(2)])
  have p: "hasPrefix (docPrefix i) k" using s by (simp add: hasPrefix_iff)
  consider "s < my" | "s = my" | "my < s" by (rule linorder_cases)
  then show ?case
  proof cases
    case 1
    have "lastData (e # g) my d = lastData g my v"
      using 1 e s by (simp add: lastData_def less_imp_le split: list.split)
    then show ?thesis using IH [of v s nl False] 1 e s p by (auto simp: Let_def)
  next
    case 2
    then show ?thesis using e s p later by (auto simp: Let_def lastData_def)
  next
    case 3
    have "lastData (e # g) my d = lastData g my d"
      using 3 e s by (simp add: lastData_def linorder_not_le [THEN iffD2])
    then show ?thesis using IH [of d s False False] 3 e s p by (auto simp: Let_def)
  qed
qed

text \<open>When \<open>isNaked\<close> is left set, no version before the snapshot was passed.\<close>

lemma valueLoop_not_naked: "snd (snd (snd (snd (valueLoop p my zs d u nl False)))) = False"
proof (induction p my zs d u nl "False" rule: valueLoop.induct)
  case (2 pfx my key v rest valueData sid notLater)
  then show ?case by (auto simp: Let_def)
qed simp

lemma valueLoop_naked:
  assumes "isGroup i g" "snd (snd (snd (snd (valueLoop (docPrefix i) my (g @ rest) d u nl True))))"
  shows "\<forall>e \<in> set g. my \<le> chr_byte (last (fst e))"
proof (cases g)
  case (Cons e g')
  obtain k v where e: "e = (k, v)" by force
  obtain s where s: "k = constructDocumentLinkKey i s"
    using isGroup_Cons [of i e g'] assms(1) Cons e by auto
  have "hasPrefix (docPrefix i) k" using s by (simp add: hasPrefix_iff)
  then have "\<not> s < my" using assms(2) Cons e s valueLoop_not_naked by (auto simp: Let_def)
  then show ?thesis
    using isGroup_Cons [of i e g'] assms(1) Cons e s by (auto dest: less_imp_le order.strict_trans1)
qed simp

lemma lastData_latest:
  assumes g: "isGroup i g"
  shows "lastData g my [] = latestVersion (map_of g) i (unat my)"
proof (cases "filter (\<lambda>e. chr_byte (last (fst e)) \<le> my) g = []")
  case True
  have "map_of g (constructDocumentLinkKey i s) = None" if "unat s \<le> unat my" for s
  proof (rule ccontr)
    assume "map_of g (constructDocumentLinkKey i s) \<noteq> None"
    then obtain v where "(constructDocumentLinkKey i s, v) \<in> set g" by (auto dest: map_of_SomeD)
    then have "(constructDocumentLinkKey i s, v) \<in> set (filter (\<lambda>e. chr_byte (last (fst e)) \<le> my) g)"
      using that by (simp add: word_le_nat_alt)
    then show False by (simp only: True list.set) simp
  qed
  then have "latestVersion (map_of g) i (unat my) = []"
    using unsigned_less [of my] by (intro latestVersion_none) simp_all
  then show ?thesis using True by (simp add: lastData_def)
next
  case False
  let ?L = "filter (\<lambda>e. chr_byte (last (fst e)) \<le> my) g"
  obtain k v where kv: "last ?L = (k, v)" by force
  have "last ?L \<in> set ?L" by (rule last_in_set [OF False])
  then have mem: "(k, v) \<in> set g" "chr_byte (last k) \<le> my" using kv by auto
  obtain s where s: "k = constructDocumentLinkKey i s" using g mem(1) by (auto simp: isGroup_def)
  have sorted: "sorted_keys ?L" using g by (simp add: isGroup_def sorted_wrt_filter sorted_wrt_map)
  have "map_of g (constructDocumentLinkKey i t) = None" if t: "s < t" "unat t \<le> unat my" for t
  proof (rule ccontr)
    assume "map_of g (constructDocumentLinkKey i t) \<noteq> None"
    then obtain w where "(constructDocumentLinkKey i t, w) \<in> set ?L"
      using t by (auto dest!: map_of_SomeD simp: word_le_nat_alt)
    then have "constructDocumentLinkKey i t \<le> fst (last ?L)"
      using sorted by (cases ?L rule: rev_cases) (auto simp: sorted_wrt_append)
    then show False using t kv s by simp
  qed
  moreover have "map_of g (constructDocumentLinkKey i s) = Some v"
    using mem(1) g s by (simp add: isGroup_def sorted_keys_distinct)
  ultimately have "latestVersion (map_of g) i (unat my) = v"
    using mem(2) s unsigned_less [of my] by (intro latestVersion_some) (simp_all add: word_le_nat_alt)
  moreover have "lastData g my [] = snd (last ?L)"
    using False by (cases ?L) (simp_all add: lastData_def)
  ultimately show ?thesis using kv by simp
qed

subsection \<open>The documents one after the other\<close>

lemma doc_store_split:
  assumes s: "sorted_keys ys" and ds: "doc_store (i # js) (map_of ys)"
  obtains v g ys' where "ys = (constructDocumentStartKey i, v) # g @ ys'" "isGroup i g"
    "\<forall>e \<in> set ys'. \<not> prefix (docPrefix i) (fst e)" "sorted_keys ys'"
    "doc_store js (map_of ys')"
    "\<And>s. map_of g (constructDocumentLinkKey i s) = map_of ys (constructDocumentLinkKey i s)"
    "\<And>j s. j \<noteq> i \<Longrightarrow> j \<in> set js \<Longrightarrow>
       map_of ys' (constructDocumentLinkKey j s) = map_of ys (constructDocumentLinkKey j s)"
proof -
  let ?S = "constructDocumentStartKey i"
  let ?p = "\<lambda>e. prefix (docPrefix i) (fst e)"
  obtain v where v: "map_of ys ?S = Some v" using ds by (auto simp: doc_store_def)
  obtain e0 zs where ys: "ys = e0 # zs" using v by (cases ys) auto
  have min: "?S \<le> k" if mk: "map_of ys k \<noteq> None" for k
  proof (cases "isDocKey k")
    case True
    then obtain j where j: "j \<in> set (i # js)" and
      k: "k = constructDocumentStartKey j \<or> (\<exists>s. k = constructDocumentLinkKey j s)"
      using ds mk unfolding doc_store_def by blast
    have "?S \<le> constructDocumentStartKey j"
    proof (cases "j = i")
      case False
      then have "j \<in> set js" using j by simp
      then show ?thesis using ds by (simp add: doc_store_def less_imp_le)
    qed simp
    moreover have "constructDocumentStartKey j \<le> k"
      using k by (elim disjE exE) (simp_all add: less_imp_le)
    ultimately show ?thesis by (rule order_trans)
  next
    case False
    then have "''d:'' \<le> k" using ds mk by (auto simp: doc_store_def)
    show ?thesis
    proof (rule ccontr)
      assume "\<not> ?S \<le> k"
      then have "k \<le> ?S" by simp
      then have "prefix ''d:'' k"
        using \<open>''d:'' \<le> k\<close> prefix_interval [of "''d:''" "''d:''" ?S k] by (simp add: constructDocumentStartKey_def)
      then show False using False by (simp add: isDocKey_iff)
    qed
  qed
  have "e0 = (?S, v)"
  proof -
    have "map_of ys (fst e0) = Some (snd e0)" by (simp add: ys)
    then have "?S \<le> fst e0" using min by simp
    moreover have "(?S, v) \<in> set ys" using v by (rule map_of_SomeD)
    then have "fst e0 \<le> ?S" using s ys by auto
    ultimately have "fst e0 = ?S" by simp
    then show ?thesis using v ys by (cases e0) simp
  qed
  note e0 = this
  let ?g = "filter ?p zs" and ?ys' = "filter (\<lambda>e. \<not> ?p e) zs"
  have pe0: "prefix (docPrefix i) (fst e0)" using e0 by simp
  have s0: "sorted_keys (e0 # zs)" using s ys by simp
  have zs: "zs = ?g @ ?ys'"
    using takeWhile_prefix [OF s0 pe0] dropWhile_prefix [OF s0 pe0] takeWhile_dropWhile_id by metis
  have dist: "distinct (map fst zs)" using s0 sorted_keys_distinct by fastforce
  have mg: "map_of ?g k = (if prefix (docPrefix i) k then map_of zs k else None)" for k
    by (induction zs) auto
  have my: "map_of ?ys' k = (if prefix (docPrefix i) k then None else map_of zs k)" for k
    by (induction zs) auto
  have mz: "map_of zs k = (if k = ?S then None else map_of ys k)" for k
    using s0 map_of_sorted_head [of ?S v zs] by (simp add: ys e0)
  have group: "isGroup i ?g"
  proof -
    have "\<exists>s. k = constructDocumentLinkKey i s" if "(k, w) \<in> set ?g" for k w
    proof -
      have "map_of zs k \<noteq> None" "prefix (docPrefix i) k"
        using that by (auto simp: map_of_eq_None_iff intro!: image_eqI)
      then show ?thesis
        using doc_store_prefix [OF ds, of i k] mz [of k] by (auto split: if_splits)
    qed
    then show ?thesis
      using s0 by (force simp: isGroup_def sorted_wrt_filter sorted_wrt_map)
  qed
  have other: "\<not> prefix (docPrefix i) (constructDocumentStartKey j)"
    "\<not> prefix (docPrefix i) (constructDocumentLinkKey j t)" if "j \<in> set js" for j t
  proof -
    have "j \<noteq> i" using ds that by (auto simp: doc_store_def)
    then have "\<not> (prefix i j \<or> prefix j i)" using ds that by (auto simp: doc_store_def)
    then show "\<not> prefix (docPrefix i) (constructDocumentStartKey j)"
      "\<not> prefix (docPrefix i) (constructDocumentLinkKey j t)"
      using prefix_start prefix_link by blast+
  qed
  have ds': "doc_store js (map_of ?ys')"
    unfolding doc_store_def
  proof (intro conjI allI impI ballI)
    show "sorted_wrt (\<lambda>i j. constructDocumentStartKey i < constructDocumentStartKey j) js"
      using ds by (simp add: doc_store_def)
    show "map_of ?ys' (constructDocumentStartKey j) \<noteq> None" if "j \<in> set js" for j
    proof -
      have "j \<noteq> i" using ds that by (auto simp: doc_store_def)
      then show ?thesis using ds that other [OF that] by (simp add: my mz doc_store_def)
    qed
    show "j = k" if "j \<in> set js" "k \<in> set js" "prefix j k" for j k
      using ds that by (auto simp: doc_store_def)
    show "''d:'' \<le> k" if "map_of ?ys' k \<noteq> None" for k
      using that ds by (auto simp: my mz doc_store_def split: if_splits)
    show "\<exists>j \<in> set js. k = constructDocumentStartKey j \<or> (\<exists>s. k = constructDocumentLinkKey j s)"
      if mk: "map_of ?ys' k \<noteq> None" "isDocKey k" for k
    proof -
      have np: "\<not> prefix (docPrefix i) k" and "map_of ys k \<noteq> None"
        using mk(1) by (auto simp: my mz split: if_splits)
      then obtain j where "j \<in> set (i # js)" "k = constructDocumentStartKey j \<or> (\<exists>s. k = constructDocumentLinkKey j s)"
        using ds mk(2) unfolding doc_store_def by blast
      then show ?thesis using np by auto
    qed
  qed
  show thesis
  proof (rule that [of v ?g ?ys'])
    show "ys = (?S, v) # ?g @ ?ys'" using ys e0 zs by simp
    show "sorted_keys ?ys'" using s0 by (simp add: sorted_wrt_filter sorted_wrt_map)
    show "map_of ?g (constructDocumentLinkKey i s) = map_of ys (constructDocumentLinkKey i s)" for s
      using mg [of "constructDocumentLinkKey i s"] mz [of "constructDocumentLinkKey i s"]
        start_less_link [of i s] by (auto simp del: start_less_link)
    show "map_of ?ys' (constructDocumentLinkKey j s) = map_of ys (constructDocumentLinkKey j s)"
      if "j \<noteq> i" "j \<in> set js" for j s
    proof -
      have "constructDocumentLinkKey j s \<noteq> ?S"
        using other(2) [OF that(2), of s] prefix_keys(1) [of i] by metis
      then show ?thesis by (simp add: my mz other(2) [OF that(2)])
    qed
  qed (use group ds' in auto)
qed

subsection \<open>The iterator at the start of a group\<close>

definition it_at :: "bool \<Rightarrow> store \<Rightarrow> 8 word \<Rightarrow> store \<Rightarrow> dociter \<Rightarrow> bool" where
  "it_at ex xs my ys it \<longleftrightarrow>
     it_kv it = \<lparr>ki_exact = ex, ki_entries = xs, ki_rest = ys\<rparr> \<and> it_snapshotId it = my \<and>
     (\<exists>pre. xs = pre @ ys) \<and>
     (ys \<noteq> [] \<longrightarrow> it_beginKey it = fst (hd ys) \<and>
        it_prefix it = (if isDocKey (fst (hd ys)) then take (length (fst (hd ys)) - 1) (fst (hd ys)) else []))"

lemma it_at_setup:
  "it_kv it = \<lparr>ki_exact = ex, ki_entries = pre @ ys, ki_rest = ys\<rparr> \<Longrightarrow>
   it_at ex (pre @ ys) (it_snapshotId it) ys (it_setupPrefix it)"
  by (auto simp: it_at_def it_setupPrefix_def ki_isValid_def ki_key_def Let_def)

lemma seek_entry:
  assumes "sorted_keys (pre @ (k, v) # zs)"
  shows "dropWhile (\<lambda>e. fst e \<noteq> k) (pre @ (k, v) # zs) = (k, v) # zs"
    and "dropWhile (\<lambda>e. fst e < k) (pre @ (k, v) # zs) = (k, v) # zs"
  using assms by (auto simp: dropWhile_append3 sorted_wrt_append intro!: dropWhile_append3)

lemma latestVersion_cong:
  "(\<And>s. m (constructDocumentLinkKey i s) = m' (constructDocumentLinkKey i s)) \<Longrightarrow>
   latestVersion m i n = latestVersion m' i n"
  by (induction n) (simp_all split: option.split)

lemma docAt_cong:
  "(\<And>s. m (constructDocumentLinkKey i s) = m' (constructDocumentLinkKey i s)) \<Longrightarrow> docAt Q m my i = docAt Q m' my i"
  using latestVersion_cong [of m i m' "unat my"] by (simp add: docAt_def)

lemma it_next_from:
  assumes s: "xs = pre @ (constructDocumentStartKey i, v) # g @ ys'" "isGroup i g"
    and np: "\<forall>e \<in> set ys'. \<not> prefix (docPrefix i) (fst e)"
    and it: "it_kv it = \<lparr>ki_exact = ex, ki_entries = xs, ki_rest = h @ ys'\<rparr>"
      "it_prefix it = docPrefix i" "it_snapshotId it = my"
    and h: "\<forall>e \<in> set h. prefix (docPrefix i) (fst e)"
  shows "it_at ex xs my ys' (it_next it)"
proof -
  have "dropWhile (\<lambda>e. hasPrefix (docPrefix i) (fst e)) (h @ ys') = ys'"
    using np h by (cases ys') (auto simp: hasPrefix_iff dropWhile_append2 dropWhile_append3)
  then have "it_next it = it_setupPrefix (it\<lparr>it_kv := \<lparr>ki_exact = ex, ki_entries = xs, ki_rest = ys'\<rparr>\<rparr>)"
    using it by (simp add: it_next_def)
  then show ?thesis
    using it_at_setup [of "it\<lparr>it_kv := \<lparr>ki_exact = ex, ki_entries = xs, ki_rest = ys'\<rparr>\<rparr>" ex
        "pre @ (constructDocumentStartKey i, v) # g" ys'] it(3) s by simp
qed

lemma group_prefix: "isGroup i g \<Longrightarrow> e \<in> set g \<Longrightarrow> prefix (docPrefix i) (fst e)"
  by (auto simp: isGroup_def)

lemma modifiedLoop_group:
  assumes "isGroup i g" "\<forall>e \<in> set rest. \<not> prefix (docPrefix i) (fst e)"
  shows "\<exists>g' b. modifiedLoop (docPrefix i) my (g @ rest) = (g' @ rest, b) \<and> set g' \<subseteq> set g \<and>
     (b \<longleftrightarrow> (\<forall>s. map_of g (constructDocumentLinkKey i s) \<noteq> None \<longrightarrow> sint s \<le> int (unat my)))"
  using assms
proof (induction g)
  case Nil
  then show ?case by (cases rest) (auto simp: hasPrefix_iff)
next
  case (Cons e g)
  obtain k v where e: "e = (k, v)" by force
  obtain s where s: "k = constructDocumentLinkKey i s" and g: "isGroup i g"
    using isGroup_Cons [OF Cons.prems(1)] e by auto
  have p: "hasPrefix (docPrefix i) k" using s by (simp add: hasPrefix_iff)
  let ?P = "\<lambda>t :: 8 word. sint t \<le> int (unat my)"
  have all: "(\<forall>t. map_of (e # g) (constructDocumentLinkKey i t) \<noteq> None \<longrightarrow> ?P t) \<longleftrightarrow>
      ?P s \<and> (\<forall>t. map_of g (constructDocumentLinkKey i t) \<noteq> None \<longrightarrow> ?P t)"
    by (auto simp: e s)
  show ?case
  proof (cases "?P s")
    case True
    then show ?thesis
      unfolding all using Cons.IH [OF g Cons.prems(2)] p s by (auto simp: e signed_char_def)
  next
    case False
    then show ?thesis unfolding all using p s by (auto simp: e signed_char_def)
  qed
qed

text \<open>
  The step of every loop over the documents: at the start of the group of \<open>i\<close>, \<open>value\<close>
  is the document the snapshot shows, and \<open>next\<close> goes on to the rest of the documents.
\<close>

lemma it_step:
  assumes xs: "sorted_keys xs" and it: "it_at ex xs my ys it" and ds: "doc_store (i # js) (map_of ys)"
  shows "it_isValid it" "it_key it = i"
    and "\<exists>it' sid nl nk ys'. it_value Q u it = (it', docAt Q (map_of ys) my i, sid, nl, nk) \<and>
      it_at ex xs my ys' (it_next it') \<and> sorted_keys ys' \<and> doc_store js (map_of ys') \<and>
      (\<forall>j \<in> set js. docAt Q (map_of ys') my j = docAt Q (map_of ys) my j) \<and>
      (nk \<longrightarrow> (\<forall>s. s < my \<longrightarrow> map_of ys (constructDocumentLinkKey i s) = None))"
    and "\<exists>it' ys'. it_isModifiedLater it = (it', \<not> (\<forall>s. map_of ys (constructDocumentLinkKey i s) \<noteq> None
            \<longrightarrow> sint s \<le> int (unat my))) \<and>
      it_at ex xs my ys' (it_next it') \<and> sorted_keys ys' \<and> doc_store js (map_of ys') \<and>
      (\<forall>j \<in> set js. \<forall>s. map_of ys' (constructDocumentLinkKey j s) = map_of ys (constructDocumentLinkKey j s))"
proof -
  obtain pre where pre: "xs = pre @ ys" using it by (auto simp: it_at_def)
  have "sorted_keys ys" using xs pre by (simp add: sorted_wrt_append)
  then obtain v g ys' where ys: "ys = (constructDocumentStartKey i, v) # g @ ys'" and g: "isGroup i g"
    and np: "\<forall>e \<in> set ys'. \<not> prefix (docPrefix i) (fst e)" and s': "sorted_keys ys'"
    and ds': "doc_store js (map_of ys')"
    and mg: "\<And>s. map_of g (constructDocumentLinkKey i s) = map_of ys (constructDocumentLinkKey i s)"
    and mo: "\<And>j s. j \<noteq> i \<Longrightarrow> j \<in> set js \<Longrightarrow>
       map_of ys' (constructDocumentLinkKey j s) = map_of ys (constructDocumentLinkKey j s)"
    using doc_store_split [OF _ ds] by metis
  have ne: "j \<noteq> i" if "j \<in> set js" for j using ds that by (auto simp: doc_store_def)
  have it': "it_kv it = \<lparr>ki_exact = ex, ki_entries = xs, ki_rest = ys\<rparr>" "it_snapshotId it = my"
    "it_beginKey it = constructDocumentStartKey i" "it_prefix it = docPrefix i"
    using it ys by (auto simp: it_at_def butlast_startKey [simplified])
  then show "it_isValid it" "it_key it = i"
    by (simp_all add: it_isValid_def ki_isValid_def ys it_key_def)
  have seek: "ki_seek (it_beginKey it) (it_kv it) = \<lparr>ki_exact = ex, ki_entries = xs, ki_rest = ys\<rparr>"
    using seek_entry [of pre "constructDocumentStartKey i" v "g @ ys'"] xs
    by (simp add: it' ki_seek_def pre ys)
  have skip: "hasPrefix (docPrefix i) (constructDocumentStartKey i)" by (simp add: hasPrefix_iff)
  show "\<exists>it' sid nl nk ys'. it_value Q u it = (it', docAt Q (map_of ys) my i, sid, nl, nk) \<and>
      it_at ex xs my ys' (it_next it') \<and> sorted_keys ys' \<and> doc_store js (map_of ys') \<and>
      (\<forall>j \<in> set js. docAt Q (map_of ys') my j = docAt Q (map_of ys) my j) \<and>
      (nk \<longrightarrow> (\<forall>s. s < my \<longrightarrow> map_of ys (constructDocumentLinkKey i s) = None))"
  proof -
    obtain g' sid nl nk where vl: "valueLoop (docPrefix i) my (g @ ys') [] u True True
        = (g' @ ys', lastData g my [], sid, nl, nk)" and sub: "set g' \<subseteq> set g"
      using valueLoop_group [OF g np, of my "[]" u True True] by blast
    let ?it' = "it\<lparr>it_kv := \<lparr>ki_exact = ex, ki_entries = xs, ki_rest = g' @ ys'\<rparr>\<rparr>"
    have "valueLoop (docPrefix i) my ys [] u True True = (g' @ ys', lastData g my [], sid, nl, nk)"
      using vl skip by (simp add: ys)
    moreover have "lastData g my [] = latestVersion (map_of ys) i (unat my)"
    proof -
      have "latestVersion (map_of g) i (unat my) = latestVersion (map_of ys) i (unat my)"
        using mg by (rule latestVersion_cong)
      then show ?thesis using lastData_latest [OF g] by simp
    qed
    ultimately have "it_value Q u it = (?it', docAt Q (map_of ys) my i, sid, nl, nk)"
      unfolding it_value_def seek by (simp add: it' docAt_def Let_def)
    moreover have "it_at ex xs my ys' (it_next ?it')"
      by (rule it_next_from [OF _ g np, where pre = pre and h = g'])
        (use pre ys it' sub group_prefix [OF g] in auto)
    moreover have "docAt Q (map_of ys') my j = docAt Q (map_of ys) my j" if "j \<in> set js" for j
      using ne that by (intro docAt_cong mo) auto
    moreover have "map_of ys (constructDocumentLinkKey i s) = None" if "nk" "s < my" for s
    proof (rule ccontr)
      assume "map_of ys (constructDocumentLinkKey i s) \<noteq> None"
      then obtain w where "(constructDocumentLinkKey i s, w) \<in> set g"
        using mg [of s] by (metis map_of_SomeD not_None_eq)
      then show False using valueLoop_naked [OF g, of my ys' "[]" u True] vl that by fastforce
    qed
    ultimately show ?thesis using s' ds' by blast
  qed
  show "\<exists>it' ys'. it_isModifiedLater it = (it', \<not> (\<forall>s. map_of ys (constructDocumentLinkKey i s) \<noteq> None
            \<longrightarrow> sint s \<le> int (unat my))) \<and>
      it_at ex xs my ys' (it_next it') \<and> sorted_keys ys' \<and> doc_store js (map_of ys') \<and>
      (\<forall>j \<in> set js. \<forall>s. map_of ys' (constructDocumentLinkKey j s) = map_of ys (constructDocumentLinkKey j s))"
  proof -
    obtain g' b where ml: "modifiedLoop (docPrefix i) my (g @ ys') = (g' @ ys', b)" and sub: "set g' \<subseteq> set g"
      and b: "b \<longleftrightarrow> (\<forall>s. map_of g (constructDocumentLinkKey i s) \<noteq> None \<longrightarrow> sint s \<le> int (unat my))"
      using modifiedLoop_group [OF g np, of my] by blast
    let ?it' = "it\<lparr>it_kv := \<lparr>ki_exact = ex, ki_entries = xs, ki_rest = g' @ ys'\<rparr>\<rparr>"
    have "modifiedLoop (docPrefix i) my ys = (g' @ ys', b)"
      using ml skip by (simp add: ys)
    then have "it_isModifiedLater it = (?it', \<not> b)"
      unfolding it_isModifiedLater_def seek by (simp add: it' Let_def)
    moreover have "it_at ex xs my ys' (it_next ?it')"
      by (rule it_next_from [OF _ g np, where pre = pre and h = g'])
        (use pre ys it' sub group_prefix [OF g] in auto)
    ultimately show ?thesis using s' ds' b mg mo ne by auto
  qed
qed

lemma it_at_end:
  assumes "it_at ex xs my ys it" "doc_store [] (map_of ys)"
  shows "\<not> it_isValid it"
proof (cases ys)
  case (Cons e zs)
  then have "\<not> isDocKey (fst e)" using assms(2) by (cases e) (auto simp: doc_store_def)
  then show ?thesis using assms(1) Cons by (simp add: it_at_def it_isValid_def)
qed (use assms(1) in \<open>simp add: it_at_def it_isValid_def ki_isValid_def\<close>)

lemma it_at_first:
  "it_at (kv_is_map k) (kv_entries k) my (kv_entries k) (it_seekToFirst (newIterator k my))"
  using it_at_setup [of "(newIterator k my)\<lparr>it_kv := ki_seekToFirst (it_kv (newIterator k my))\<rparr>"
      "kv_is_map k" "[]" "kv_entries k"]
  by (simp add: it_seekToFirst_def newIterator_def kv_newIterator_def ki_seekToFirst_def)

subsection \<open>Looking one document up\<close>

lemma doc_store_suffix:
  assumes "sorted_keys ys" "doc_store js (map_of ys)" "i \<in> set js"
  shows "\<exists>pre v zs js'. ys = pre @ (constructDocumentStartKey i, v) # zs \<and>
    doc_store (i # js') (map_of ((constructDocumentStartKey i, v) # zs)) \<and>
    (\<forall>s. map_of ((constructDocumentStartKey i, v) # zs) (constructDocumentLinkKey i s)
       = map_of ys (constructDocumentLinkKey i s))"
  using assms
proof (induction js arbitrary: ys)
  case (Cons j js)
  from Cons.prems(1,2) obtain v g ys' where ys: "ys = (constructDocumentStartKey j, v) # g @ ys'"
    and s': "sorted_keys ys'" and ds': "doc_store js (map_of ys')"
    and mo: "\<And>k s. k \<noteq> j \<Longrightarrow> k \<in> set js \<Longrightarrow>
       map_of ys' (constructDocumentLinkKey k s) = map_of ys (constructDocumentLinkKey k s)"
    by (rule doc_store_split) metis
  show ?case
  proof (cases "i = j")
    case True
    then show ?thesis
      using Cons.prems(2) ys
      by (intro exI [of _ "[]"] exI [of _ v] exI [of _ "g @ ys'"] exI [of _ js]) simp
  next
    case False
    then have i: "i \<in> set js" using Cons.prems(3) by simp
    obtain pre w zs js' where ys': "ys' = pre @ (constructDocumentStartKey i, w) # zs"
      and ds'': "doc_store (i # js') (map_of ((constructDocumentStartKey i, w) # zs))"
      and m: "\<forall>s. map_of ((constructDocumentStartKey i, w) # zs) (constructDocumentLinkKey i s)
         = map_of ys' (constructDocumentLinkKey i s)"
      using Cons.IH [OF s' ds' i] by blast
    have "ys = ((constructDocumentStartKey j, v) # g @ pre) @ (constructDocumentStartKey i, w) # zs"
      using ys ys' by simp
    moreover have "\<forall>s. map_of ((constructDocumentStartKey i, w) # zs) (constructDocumentLinkKey i s)
        = map_of ys (constructDocumentLinkKey i s)"
      using m mo [OF False i] by metis
    ultimately show ?thesis using ds'' by blast
  qed
qed simp

lemma getJsonValueFull_docAt:
  assumes xs: "sorted_keys (kv_entries k)" and ds: "doc_store js (map_of (kv_entries k))" and i: "i \<in> set js"
  shows "\<exists>sid nl nk. getJsonValueFull Q k my i u = (docAt Q (map_of (kv_entries k)) my i, sid, nl, nk) \<and>
    (nk \<longrightarrow> (\<forall>s. s < my \<longrightarrow> map_of (kv_entries k) (constructDocumentLinkKey i s) = None))"
proof -
  obtain pre v zs js' where xs': "kv_entries k = pre @ (constructDocumentStartKey i, v) # zs"
    and ds': "doc_store (i # js') (map_of ((constructDocumentStartKey i, v) # zs))"
    and m: "\<forall>s. map_of ((constructDocumentStartKey i, v) # zs) (constructDocumentLinkKey i s)
       = map_of (kv_entries k) (constructDocumentLinkKey i s)"
    using doc_store_suffix [OF xs ds i] by blast
  let ?ys = "(constructDocumentStartKey i, v) # zs"
  have key: "''d:'' @ i @ '':'' = constructDocumentStartKey i" by (simp add: constructDocumentStartKey_def)
  have "it_at (kv_is_map k) (kv_entries k) my ?ys (it_seek i (newIterator k my))"
    using it_at_setup [of "(newIterator k my)\<lparr>it_kv := \<lparr>ki_exact = kv_is_map k, ki_entries = pre @ ?ys, ki_rest = ?ys\<rparr>\<rparr>"
        "kv_is_map k" pre ?ys] seek_entry [of pre "constructDocumentStartKey i" v zs] xs
    unfolding it_seek_def key
    by (cases "kv_is_map k") (simp_all add: xs' newIterator_def kv_newIterator_def ki_seekToFirst_def ki_seek_def)
  note step = it_step(1,3) [OF xs this ds']
  obtain it' sid nl nk where
    v: "it_value Q u (it_seek i (newIterator k my)) = (it', docAt Q (map_of ?ys) my i, sid, nl, nk)"
    and nk: "nk \<longrightarrow> (\<forall>s. s < my \<longrightarrow> map_of ?ys (constructDocumentLinkKey i s) = None)"
    using step(2) [of Q u] by blast
  have "docAt Q (map_of ?ys) my i = docAt Q (map_of (kv_entries k)) my i"
    using m by (intro docAt_cong) simp
  then show ?thesis using step(1) v nk m by (simp add: getJsonValueFull_def Let_def)
qed

lemma getJsonValue_docAt:
  "sorted_keys (kv_entries k) \<Longrightarrow> doc_store js (map_of (kv_entries k)) \<Longrightarrow> i \<in> set js \<Longrightarrow>
   getJsonValue Q k my i = docAt Q (map_of (kv_entries k)) my i"
  using getJsonValueFull_docAt [of k js i Q my 0] by (auto simp: getJsonValue_def)

lemma getJsonValue_absent_map:
  assumes "kv_is_map k" "map_of (kv_entries k) (constructDocumentStartKey i) = None"
  shows "getJsonValue Q k my i = JUndefined"
proof -
  have "dropWhile (\<lambda>e. fst e \<noteq> ''d:'' @ i @ '':'') (kv_entries k) = []"
    using assms(2) by (force simp: dropWhile_eq_Nil_conv map_of_eq_None_iff constructDocumentStartKey_def)
  then show ?thesis
    using assms(1)
    by (simp add: getJsonValue_def getJsonValueFull_def it_seek_def newIterator_def kv_newIterator_def
        ki_seekToFirst_def ki_seek_def it_setupPrefix_def it_isValid_def ki_isValid_def Let_def)
qed

end
