(* ===== verification/QDocQuery.thy ===== *)
theory QDocQuery
  imports QDocUtils
begin

text \<open>
  The query language of qdoccollection.cpp: \<open>checkValidR\<close>, which decides whether a
  document satisfies a query, and the semantics of queries it implements.

  \<open>checkValidR\<close> returns its code and the final value of its reference parameter
  \<open>valid\<close>. The local \<open>valid2\<close> of the \<open>$or\<close> and \<open>$and\<close> loops is not initialised in the
  code, and a call on an element that is not an object leaves it so: its value there is
  the parameter \<open>u\<close> of the model.
\<close>

datatype rcode =
    success
  | errorQuery
  | errorInvalidObject
  | errorAlreadyExists
  | errorDatabase
  | errorSnapshotIsExists
  | errorType
  | errorObjectIsReadOnly
  | errorTransaction

text \<open>The constructor \<open>errorTransaction\<close> is \<open>QDocCollectionTransaction::errorWriteTransaction\<close>.\<close>

definition isOperator :: "string \<Rightarrow> bool" where
  "isOperator key = (case key of c # _ \<Rightarrow> c = CHR ''$'' | [] \<Rightarrow> False)"

definition isComparison :: "string \<Rightarrow> bool" where
  "isComparison key \<longleftrightarrow> key = ''$gt'' \<or> key = ''$gte'' \<or> key = ''$lt'' \<or> key = ''$lte''"

definition existsValid :: "bool \<Rightarrow> json \<Rightarrow> bool" where
  "existsValid b docPart = (\<not> (b = (\<not> (docPart \<noteq> JUndefined))))"

definition fieldValid :: "json \<Rightarrow> json \<Rightarrow> bool" where
  "fieldValid queryValue docValue =
     (case docValue of JArr docArray \<Rightarrow> queryValue \<in> set docArray | _ \<Rightarrow> docValue = queryValue)"

function (sequential) checkValidR :: "qt \<Rightarrow> bool \<Rightarrow> json \<Rightarrow> json \<Rightarrow> string \<Rightarrow> bool \<Rightarrow> rcode \<times> bool"
  and checkKeys :: "qt \<Rightarrow> bool \<Rightarrow> jobject \<Rightarrow> json \<Rightarrow> string \<Rightarrow> bool \<Rightarrow> rcode \<times> bool"
  and checkKey :: "qt \<Rightarrow> bool \<Rightarrow> string \<Rightarrow> json \<Rightarrow> json \<Rightarrow> string \<Rightarrow> rcode \<times> bool"
  and checkOr :: "qt \<Rightarrow> bool \<Rightarrow> json list \<Rightarrow> json \<Rightarrow> string \<Rightarrow> bool \<Rightarrow> rcode \<times> bool"
  and checkAnd :: "qt \<Rightarrow> bool \<Rightarrow> json list \<Rightarrow> json \<Rightarrow> string \<Rightarrow> bool \<Rightarrow> rcode \<times> bool"
where
  "checkValidR Q u queryPart docPart curPath valid =
     (case queryPart of
        JObj queryPartObj \<Rightarrow> checkKeys Q u queryPartObj docPart curPath True
      | _ \<Rightarrow> (success, valid))"
| "checkKeys Q u [] docPart curPath valid = (success, valid)"
| "checkKeys Q u ((key, queryValue) # keys) docPart curPath valid =
     (let (r, valid1) = checkKey Q u key queryValue docPart curPath
      in if r \<noteq> success then (r, valid)
         else checkKeys Q u keys docPart curPath (valid \<and> valid1))"
| "checkKey Q u key queryValue docPart curPath =
     (if isOperator key then
        if key = ''$exists'' then
          (case queryValue of
             JBool b \<Rightarrow> (success, existsValid b docPart)
           | _ \<Rightarrow> (errorQuery, True))
        else if isComparison key then (success, compare docPart queryValue key)
        else if key = ''$in'' then
          (case queryValue of
             JArr queryArray \<Rightarrow> (success, docPart \<in> set queryArray)
           | _ \<Rightarrow> (errorQuery, True))
        else if key = ''$or'' then
          (case queryValue of
             JArr queryArray \<Rightarrow> checkOr Q u queryArray docPart curPath False
           | _ \<Rightarrow> (errorQuery, True))
        else if key = ''$and'' then
          (case queryValue of
             JArr queryArray \<Rightarrow> checkAnd Q u queryArray docPart curPath True
           | _ \<Rightarrow> (errorQuery, True))
        else if key = ''$not'' then
          apsnd Not (checkValidR Q u queryValue docPart curPath True)
        else (errorQuery, True)
      else
        let valuePath = (if curPath = [] then key else curPath @ ''.'' @ key);
            docValue = getJsonValueByPath Q docPart key
        in if isObject queryValue then checkValidR Q u queryValue docValue valuePath True
           else (success, fieldValid queryValue docValue))"
| "checkOr Q u [] docPart curPath valid1 = (success, valid1)"
| "checkOr Q u (x # xs) docPart curPath valid1 =
     (if valid1 then (success, valid1)
      else
        let (r, valid2) = checkValidR Q u x docPart curPath u
        in if r \<noteq> success then (r, valid1)
           else checkOr Q u xs docPart curPath (valid1 \<or> valid2))"
| "checkAnd Q u [] docPart curPath valid1 = (success, valid1)"
| "checkAnd Q u (x # xs) docPart curPath valid1 =
     (if \<not> valid1 then (success, valid1)
      else
        let (r, valid2) = checkValidR Q u x docPart curPath u
        in if r \<noteq> success then (r, valid1)
           else checkAnd Q u xs docPart curPath (valid1 \<and> valid2))"
  by pat_completeness auto
termination
  by (relation "measure (case_sum
        (case_sum (\<lambda>(Q, u, q, _). 2 * size q) (\<lambda>(Q, u, obj, _). 2 * size_list (\<lambda>e. size (snd e)) obj))
        (case_sum (\<lambda>(Q, u, k, v, _). 2 * size v + 1)
          (case_sum (\<lambda>(Q, u, xs, _). 2 * size_list size xs) (\<lambda>(Q, u, xs, _). 2 * size_list size xs))))")
    (auto intro: le_less_trans [OF mult_le_mono2 [OF size_list_entries]])

subsection \<open>The meaning of a query\<close>

function (sequential) matches :: "qt \<Rightarrow> json \<Rightarrow> json \<Rightarrow> bool"
  and matchesKey :: "qt \<Rightarrow> string \<Rightarrow> json \<Rightarrow> json \<Rightarrow> bool"
where
  "matches Q (JObj obj) d = (\<forall>(k, v) \<in> set obj. matchesKey Q k v d)"
| "matches Q _ d = True"
| "matchesKey Q k v d =
     (if k = ''$exists'' then v = JBool (d \<noteq> JUndefined)
      else if isComparison k then compare d v k
      else if k = ''$in'' then d \<in> set (toArray v)
      else if k = ''$or'' then (case v of JArr xs \<Rightarrow> (\<exists>x \<in> set xs. matches Q x d) | _ \<Rightarrow> False)
      else if k = ''$and'' then (case v of JArr xs \<Rightarrow> (\<forall>x \<in> set xs. matches Q x d) | _ \<Rightarrow> False)
      else if k = ''$not'' then \<not> matches Q v d
      else if isObject v then matches Q v (getJsonValueByPath Q d k)
      else fieldValid v (getJsonValueByPath Q d k))"

  by pat_completeness auto
termination
  by (relation "measure (case_sum (\<lambda>(Q, q, d). 2 * size q) (\<lambda>(Q, k, v, d). 2 * size v + 1))")
    (auto dest!: size_entry size_element)

text \<open>The queries of the language: the operators with operands of their type.\<close>

function (sequential) wf_query :: "json \<Rightarrow> bool"
  and wf_queryKey :: "string \<Rightarrow> json \<Rightarrow> bool"
where
  "wf_query (JObj obj) = (\<forall>(k, v) \<in> set obj. wf_queryKey k v)"
| "wf_query _ = False"
| "wf_queryKey k v =
     (if isOperator k then
        (if k = ''$exists'' then isBool v
         else if isComparison k then True
         else if k = ''$in'' then isArray v
         else if k = ''$or'' \<or> k = ''$and'' then (case v of JArr xs \<Rightarrow> (\<forall>x \<in> set xs. wf_query x) | _ \<Rightarrow> False)
         else if k = ''$not'' then wf_query v
         else False)
      else (isObject v \<longrightarrow> wf_query v))"
  by pat_completeness auto
termination
  by (relation "measure (case_sum (\<lambda>q. 2 * size q) (\<lambda>(k, v). 2 * size v + 1))")
    (auto dest!: size_entry size_element)

declare checkValidR.simps [simp del] checkKey.simps [simp del] matchesKey.simps [simp del]
  wf_queryKey.simps [simp del]

lemma not_operator:
  "\<not> isOperator k \<Longrightarrow> k \<noteq> ''$exists'' \<and> \<not> isComparison k \<and> k \<noteq> ''$in'' \<and> k \<noteq> ''$or'' \<and> k \<noteq> ''$and'' \<and> k \<noteq> ''$not''"
  by (auto simp: isOperator_def isComparison_def)

lemma checkValidR_object [simp]:
  "checkValidR Q u (JObj obj) d p v = checkKeys Q u obj d p True"
  by (simp add: checkValidR.simps)

lemma checkKey_field:
  assumes "\<not> isOperator k"
  shows "checkKey Q u k w d p =
    (let docValue = getJsonValueByPath Q d k
     in if isObject w then checkValidR Q u w docValue (if p = [] then k else p @ ''.'' @ k) True
        else (success, fieldValid w docValue))"
  using assms by (simp add: checkKey.simps Let_def)

lemma checkKey_matches:
  assumes wf: "wf_queryKey k w"
    and rec: "\<And>q d p v. size q \<le> size w \<Longrightarrow> wf_query q \<Longrightarrow> checkValidR Q u q d p v = (success, matches Q q d)"
    and ors: "\<And>xs b. w = JArr xs \<Longrightarrow> \<forall>x \<in> set xs. wf_query x \<Longrightarrow>
      checkOr Q u xs d p b = (success, b \<or> (\<exists>x \<in> set xs. matches Q x d))"
    and ands: "\<And>xs b. w = JArr xs \<Longrightarrow> \<forall>x \<in> set xs. wf_query x \<Longrightarrow>
      checkAnd Q u xs d p b = (success, b \<and> (\<forall>x \<in> set xs. matches Q x d))"
  shows "checkKey Q u k w d p = (success, matchesKey Q k w d)"
proof (cases "isOperator k")
  case False
  then show ?thesis
    using wf rec [of w] by (simp add: checkKey_field matchesKey.simps not_operator wf_queryKey.simps)
next
  case True
  consider "k = ''$exists''" | "isComparison k" | "k = ''$in''" | "k = ''$or''" | "k = ''$and''" | "k = ''$not''"
    using wf True by (auto simp: wf_queryKey.simps split: if_splits)
  then show ?thesis
    using wf True
  proof cases
    case 1
    then show ?thesis
      using wf True by (cases w) (auto simp: checkKey.simps matchesKey.simps wf_queryKey.simps existsValid_def)
  next
    case 2
    then have "k \<noteq> ''$exists''" by (auto simp: isComparison_def)
    with 2 True show ?thesis by (simp add: checkKey.simps matchesKey.simps)
  next
    case 3
    then show ?thesis
      using wf True
      by (cases w) (auto simp: checkKey.simps matchesKey.simps wf_queryKey.simps isComparison_def)
  next
    case 4
    then show ?thesis
      using wf True ors
      by (cases w) (auto simp: checkKey.simps matchesKey.simps wf_queryKey.simps isComparison_def)
  next
    case 5
    then show ?thesis
      using wf True ands
      by (cases w) (auto simp: checkKey.simps matchesKey.simps wf_queryKey.simps isComparison_def)
  next
    case 6
    then show ?thesis
      using wf True rec [of w]
      by (simp add: checkKey.simps matchesKey.simps wf_queryKey.simps isComparison_def)
  qed
qed

lemma checkKeys_matches:
  assumes "\<And>k w. (k, w) \<in> set obj \<Longrightarrow> checkKey Q u k w d p = (success, matchesKey Q k w d)"
  shows "checkKeys Q u obj d p v = (success, v \<and> (\<forall>(k, w) \<in> set obj. matchesKey Q k w d))"
  using assms by (induction obj arbitrary: v) auto

lemma checkOr_matches:
  assumes "\<And>x v. x \<in> set xs \<Longrightarrow> checkValidR Q u x d p v = (success, matches Q x d)"
  shows "checkOr Q u xs d p b = (success, b \<or> (\<exists>x \<in> set xs. matches Q x d))"
  using assms by (induction xs arbitrary: b) auto

lemma checkAnd_matches:
  assumes "\<And>x v. x \<in> set xs \<Longrightarrow> checkValidR Q u x d p v = (success, matches Q x d)"
  shows "checkAnd Q u xs d p b = (success, b \<and> (\<forall>x \<in> set xs. matches Q x d))"
  using assms by (induction xs arbitrary: b) auto

text \<open>On a well-formed query the evaluator succeeds with the meaning of the query.\<close>

lemma checkValidR_matches:
  "wf_query q \<Longrightarrow> checkValidR Q u q d p v = (success, matches Q q d)"
proof (induction "size q" arbitrary: q d p v rule: less_induct)
  case less
  from less.prems obtain obj where q: "q = JObj obj" by (cases q) auto
  have "checkKey Q u k w d p = (success, matchesKey Q k w d)" if "(k, w) \<in> set obj" for k w
  proof (rule checkKey_matches)
    show "wf_queryKey k w" using less.prems q that by auto
    have w: "size w < size q" using size_entry [OF that] q by simp
    show "checkValidR Q u q' d' p' v' = (success, matches Q q' d')"
      if "size q' \<le> size w" "wf_query q'" for q' d' p' v'
      using that w by (intro less.hyps) simp_all
    have elem: "checkValidR Q u x d p v' = (success, matches Q x d)"
      if "w = JArr xs" "x \<in> set xs" "wf_query x" for xs x v'
      using that w size_element [of x xs] by (intro less.hyps) simp_all
    show "checkOr Q u xs d p b = (success, b \<or> (\<exists>x \<in> set xs. matches Q x d))"
      if "w = JArr xs" "\<forall>x \<in> set xs. wf_query x" for xs b
      using that elem by (intro checkOr_matches) blast
    show "checkAnd Q u xs d p b = (success, b \<and> (\<forall>x \<in> set xs. matches Q x d))"
      if "w = JArr xs" "\<forall>x \<in> set xs. wf_query x" for xs b
      using that elem by (intro checkAnd_matches) blast
  qed
  then show ?case using q by (simp add: checkKeys_matches)
qed

subsection \<open>Rejected queries\<close>

definition bad_key :: "string \<Rightarrow> json \<Rightarrow> bool" where
  "bad_key k v \<longleftrightarrow> isOperator k \<and>
     (k = ''$exists'' \<and> \<not> isBool v \<or>
      k \<in> {''$in'', ''$or'', ''$and''} \<and> \<not> isArray v \<or>
      \<not> isComparison k \<and> k \<notin> {''$exists'', ''$in'', ''$or'', ''$and'', ''$not''})"

lemma checkKey_bad: "bad_key k v \<Longrightarrow> fst (checkKey Q u k v d p) = errorQuery"
  by (cases v) (auto simp: bad_key_def checkKey.simps isComparison_def)

lemma checkKeys_success:
  "fst (checkKeys Q u obj d p b) = success \<Longrightarrow> (k, v) \<in> set obj \<Longrightarrow> fst (checkKey Q u k v d p) = success"
  by (induction obj arbitrary: b) (auto simp: Let_def split: prod.splits if_splits)

lemma checkValidR_bad:
  "(k, v) \<in> set obj \<Longrightarrow> bad_key k v \<Longrightarrow> fst (checkValidR Q u (JObj obj) d p b) \<noteq> success"
  using checkKeys_success [of Q u obj d p True k v] checkKey_bad [of k v Q u d p] by auto

text \<open>The arguments that are not checked.\<close>

lemma exist_bad: "bad_key ''$exist'' v"
  by (simp add: bad_key_def isOperator_def isComparison_def)

lemma comparison_any: "isComparison k \<Longrightarrow> checkValidR Q u (JObj [(k, v)]) d p b = (success, compare d v k)"
  by (auto simp: checkKey.simps isOperator_def isComparison_def)

lemma not_any: "\<not> isObject v \<Longrightarrow> checkValidR Q u (JObj [(''$not'', v)]) d p b = (success, False)"
  by (cases v) (simp_all add: checkKey.simps isOperator_def isComparison_def checkValidR.simps)

text \<open>The only code other than success is errorQuery.\<close>

lemma check_codes:
  "fst (checkValidR Q u q d p b) \<in> {success, errorQuery}"
  "fst (checkKeys Q u obj d p b) \<in> {success, errorQuery}"
  "fst (checkKey Q u k v d p) \<in> {success, errorQuery}"
  "fst (checkOr Q u xs d p b) \<in> {success, errorQuery}"
  "fst (checkAnd Q u xs d p b) \<in> {success, errorQuery}"
proof (induction Q u q d p b and Q u obj d p b and Q u k v d p and Q u xs d p b and Q u xs d p b
    rule: checkValidR_checkKeys_checkKey_checkOr_checkAnd.induct)
  case (1 Q u q d p b)
  then show ?case by (cases q) (simp_all add: checkValidR.simps)
next
  case (4 Q u k v d p)
  then show ?case
    by (subst checkKey.simps) (auto simp: Let_def split: json.splits)
qed (auto simp: Let_def split: prod.splits)

end
