(* ===== verification/QDocOptions.thy ===== *)
theory QDocOptions
  imports QDocQuery
begin

text \<open>
  \<open>QDocCollection::applyOptions\<close> (qdoccollection.cpp): the options \<open>$orderBy\<close>, a bubble
  sort whose sort keys are cached by document id, and \<open>$limit\<close>.

  The reply and the list of ids that is permuted with it are one list of pairs; a call with
  \<open>pIds == NULL\<close> has the unit value in the second component.
\<close>

subsection \<open>The sort\<close>

definition docId :: "json \<Rightarrow> string" where
  "docId doc = toString (obj_value (toObject doc) ''_id'')"

definition cachedValue :: "qt \<Rightarrow> string \<Rightarrow> (string \<times> json) list \<Rightarrow> json \<Rightarrow> json \<times> (string \<times> json) list" where
  "cachedValue Q orderPath valueByPathMap doc =
     (case map_of valueByPathMap (docId doc) of
        Some value \<Rightarrow> (value, valueByPathMap)
      | None \<Rightarrow>
          (let value = getJsonValueByPath Q doc orderPath
           in (value, smap_put (docId doc) value valueByPathMap)))"

text \<open>One run of the inner loop: the list after it, the cache, and \<open>swapped\<close>.\<close>

fun bubblePass :: "qt \<Rightarrow> string \<Rightarrow> string \<Rightarrow> (string \<times> json) list \<Rightarrow> (json \<times> 'a) list
    \<Rightarrow> (json \<times> 'a) list \<times> (string \<times> json) list \<times> bool" where
  "bubblePass Q orderPath oper vm [] = ([], vm, False)"
| "bubblePass Q orderPath oper vm [x] = ([x], vm, False)"
| "bubblePass Q orderPath oper vm (x # y # zs) =
     (let (value, vm1) = cachedValue Q orderPath vm (fst x);
          (value1, vm2) = cachedValue Q orderPath vm1 (fst y)
      in if compare value value1 oper
         then (let (r, vm3, swapped) = bubblePass Q orderPath oper vm2 (x # zs) in (y # r, vm3, True))
         else (let (r, vm3, swapped) = bubblePass Q orderPath oper vm2 (y # zs) in (x # r, vm3, swapped)))"

subsection \<open>The pass on fixed sort keys\<close>

definition before :: "('a \<Rightarrow> json) \<Rightarrow> string \<Rightarrow> 'a \<Rightarrow> 'a \<Rightarrow> bool" where
  "before K oper x y = compare (K x) (K y) oper"

fun purePass :: "('a \<Rightarrow> 'a \<Rightarrow> bool) \<Rightarrow> 'a list \<Rightarrow> 'a list \<times> bool" where
  "purePass gt [] = ([], False)"
| "purePass gt [x] = ([x], False)"
| "purePass gt (x # y # zs) =
     (if gt x y then (y # fst (purePass gt (x # zs)), True)
      else (x # fst (purePass gt (y # zs)), snd (purePass gt (y # zs))))"

fun inversions :: "('a \<Rightarrow> 'a \<Rightarrow> bool) \<Rightarrow> 'a list \<Rightarrow> nat" where
  "inversions gt [] = 0"
| "inversions gt (x # xs) = length (filter (gt x) xs) + inversions gt xs"

lemma mset_purePass [simp]: "mset (fst (purePass gt xs)) = mset xs"
  by (induction gt xs rule: purePass.induct) auto

lemma length_filter_mset: "mset xs = mset ys \<Longrightarrow> length (filter P xs) = length (filter P ys)"
  by (metis mset_filter size_mset)

lemma inversions_purePass:
  assumes asym: "\<And>x y. gt x y \<Longrightarrow> \<not> gt y x"
  shows "inversions gt (fst (purePass gt xs)) + (if snd (purePass gt xs) then 1 else 0) \<le> inversions gt xs"
  using asym
proof (induction gt xs rule: purePass.induct)
  case (3 gt x y zs)
  show ?case
  proof (cases "gt x y")
    case True
    then have "\<not> gt y x" by (rule "3.prems")
    have "length (filter (gt y) (fst (purePass gt (x # zs)))) = length (filter (gt y) (x # zs))"
      by (rule length_filter_mset) simp
    then show ?thesis using "3.IH"(1) [OF True "3.prems"] True \<open>\<not> gt y x\<close>
      by (auto split: if_splits)
  next
    case False
    have "length (filter (gt x) (fst (purePass gt (y # zs)))) = length (filter (gt x) (y # zs))"
      by (rule length_filter_mset) simp
    then show ?thesis using "3.IH"(2) [OF False "3.prems"] False by auto
  qed
qed auto

lemma purePass_unswapped:
  "\<not> snd (purePass gt xs) \<Longrightarrow> fst (purePass gt xs) = xs \<and> successively (\<lambda>x y. \<not> gt x y) xs"
  by (induction gt xs rule: purePass.induct) (auto split: if_splits)

text \<open>
  A pass keeps the order of the entries whose keys it does not compare as inverted: for a
  class of entries with equal keys, the sublist of the class is unchanged.
\<close>

lemma filter_purePass:
  assumes "\<And>x y. P x \<Longrightarrow> P y \<Longrightarrow> \<not> gt x y"
  shows "filter P (fst (purePass gt xs)) = filter P xs"
  using assms
proof (induction gt xs rule: purePass.induct)
  case (3 gt x y zs)
  show ?case
  proof (cases "gt x y")
    case True
    then have "\<not> (P x \<and> P y)" using "3.prems" by blast
    then show ?thesis using "3.IH"(1) [OF True] "3.prems" True by auto
  next
    case False
    then show ?thesis using "3.IH"(2) [OF False] "3.prems" by auto
  qed
qed auto

subsection \<open>The cache does not change the keys\<close>

text \<open>
  \<open>keyOf\<close> is the sort key a document has in the run from a given cache and list: its
  cached value, or the value of the first document of the list with its id.
\<close>

definition keyOf :: "qt \<Rightarrow> string \<Rightarrow> (string \<times> json) list \<Rightarrow> (json \<times> 'a) list \<Rightarrow> string \<Rightarrow> json" where
  "keyOf Q path vm xs i =
     (case map_of vm i of
        Some v \<Rightarrow> v
      | None \<Rightarrow> (case List.find (\<lambda>e. docId (fst e) = i) xs of
                  Some e \<Rightarrow> getJsonValueByPath Q (fst e) path
                | None \<Rightarrow> JUndefined))"

definition ids_of :: "(json \<times> 'a) list \<Rightarrow> string set" where
  "ids_of xs = docId ` fst ` set xs"

definition consistent :: "qt \<Rightarrow> string \<Rightarrow> (string \<Rightarrow> json) \<Rightarrow> (string \<times> json) list \<Rightarrow> (json \<times> 'a) list \<Rightarrow> bool" where
  "consistent Q path K vm xs \<longleftrightarrow> (\<forall>i \<in> ids_of xs. keyOf Q path vm xs i = K i)"

lemma cachedValue_head:
  assumes "consistent Q path K vm (x # xs)"
  shows "fst (cachedValue Q path vm (fst x)) = K (docId (fst x))"
    and "map_of (snd (cachedValue Q path vm (fst x))) = (map_of vm)(docId (fst x) \<mapsto> K (docId (fst x)))"
proof -
  have "keyOf Q path vm (x # xs) (docId (fst x)) = K (docId (fst x))"
    using assms by (simp add: consistent_def ids_of_def)
  then show "fst (cachedValue Q path vm (fst x)) = K (docId (fst x))"
    and "map_of (snd (cachedValue Q path vm (fst x))) = (map_of vm)(docId (fst x) \<mapsto> K (docId (fst x)))"
    by (auto simp: keyOf_def cachedValue_def fun_eq_iff Let_def split: option.splits)
qed

lemma consistent_cached:
  assumes "consistent Q path K vm (x # xs)"
    and "map_of vm' = (map_of vm)(docId (fst x) \<mapsto> K (docId (fst x)))"
  shows "consistent Q path K vm' xs" "consistent Q path K vm' (x # xs)"
  using assms by (auto simp: consistent_def ids_of_def keyOf_def split: option.splits if_splits)

lemma consistent_Cons:
  assumes "consistent Q path K vm xs" "map_of vm (docId (fst x)) = Some (K (docId (fst x)))"
  shows "consistent Q path K vm (x # xs)"
  using assms by (auto simp: consistent_def ids_of_def keyOf_def split: option.splits if_splits)

abbreviation keyGt :: "(string \<Rightarrow> json) \<Rightarrow> string \<Rightarrow> json \<times> 'a \<Rightarrow> json \<times> 'a \<Rightarrow> bool" where
  "keyGt K oper \<equiv> before (\<lambda>e. K (docId (fst e))) oper"

lemma bubblePass_pure:
  fixes xs :: "(json \<times> 'a) list"
  assumes "consistent Q path K vm xs"
  shows "(let (ys, vm', swapped) = bubblePass Q path oper vm xs in
      ys = fst (purePass (keyGt K oper) xs) \<and> swapped = snd (purePass (keyGt K oper) xs) \<and>
      (\<forall>i. map_of vm' i = (if i \<in> ids_of xs \<and> (length xs \<noteq> 1) then Some (K i) else map_of vm i)))"
  using assms
proof (induction Q path oper vm xs rule: bubblePass.induct)
  case (3 Q path oper vm x y zs)
  obtain val vm1 where c1: "cachedValue Q path vm (fst x) = (val, vm1)" by force
  obtain val1 vm2 where c2: "cachedValue Q path vm1 (fst y) = (val1, vm2)" by force
  have v: "val = K (docId (fst x))" and m1: "map_of vm1 = (map_of vm)(docId (fst x) \<mapsto> K (docId (fst x)))"
    using cachedValue_head [OF "3.prems"] c1 by simp_all
  have con1: "consistent Q path K vm1 (y # zs)"
    using consistent_cached [OF "3.prems" m1] by simp
  have v1: "val1 = K (docId (fst y))" and m2: "map_of vm2 = (map_of vm1)(docId (fst y) \<mapsto> K (docId (fst y)))"
    using cachedValue_head [OF con1] c2 by simp_all
  have con2: "consistent Q path K vm2 (y # zs)" "consistent Q path K vm2 zs"
    using consistent_cached [OF con1 m2] by simp_all
  have "map_of vm2 (docId (fst x)) = Some (K (docId (fst x)))" by (simp add: m2 m1)
  then have con3: "consistent Q path K vm2 (x # zs)" by (rule consistent_Cons [OF con2(2)])
  have gt: "compare val val1 oper = keyGt K oper x y"
    by (simp add: before_def v v1)
  show ?case
  proof (cases "keyGt K oper x y")
    case True
    then show ?thesis
      using "3.IH"(1) [OF c1 [symmetric] refl c2 [symmetric] refl] con3
      by (auto simp: c1 c2 gt m1 m2 ids_of_def split: prod.splits)
  next
    case False
    then show ?thesis
      using "3.IH"(2) [OF c1 [symmetric] refl c2 [symmetric] refl] con2
      by (auto simp: c1 c2 gt m1 m2 ids_of_def split: prod.splits)
  qed
qed (auto simp: ids_of_def)

subsection \<open>The loop over the passes\<close>

definition sortOper :: "bool \<Rightarrow> string" where
  "sortOper orderUp = (if orderUp then ''$gt'' else ''$lt'')"

lemma before_asym: "before K (sortOper up) x y \<Longrightarrow> \<not> before K (sortOper up) y x"
  by (auto simp: before_def sortOper_def compare_def compare_by_def split: json.splits)

lemma inversions_cong:
  "(\<And>x y. x \<in> set xs \<Longrightarrow> y \<in> set xs \<Longrightarrow> gt x y = gt' x y) \<Longrightarrow> inversions gt xs = inversions gt' xs"
  by (induction xs) (auto cong: filter_cong)

lemma consistent_keyOf: "consistent Q path (keyOf Q path vm xs) vm xs"
  by (simp add: consistent_def)

lemma purePass_swapped: "snd (purePass gt xs) \<Longrightarrow> length xs \<noteq> 1"
  by (cases "(gt, xs)" rule: purePass.cases) auto

lemma ids_of_mset: "mset xs = mset ys \<Longrightarrow> ids_of xs = ids_of ys"
  by (metis ids_of_def set_mset_mset)

text \<open>A pass that swapped fixes the keys of the rest of the run.\<close>

lemma bubblePass_keyOf:
  assumes "bubblePass Q path oper vm xs = (ys, vm', True)" "i \<in> ids_of xs"
  shows "keyOf Q path vm' ys i = keyOf Q path vm xs i"
proof -
  let ?K = "keyOf Q path vm xs"
  have *: "True = snd (purePass (keyGt ?K oper) xs)"
    "map_of vm' i = (if i \<in> ids_of xs \<and> length xs \<noteq> 1 then Some (?K i) else map_of vm i)"
    using bubblePass_pure [OF consistent_keyOf [of Q path vm xs], of oper] assms(1) by simp_all
  have "length xs \<noteq> 1" using *(1) by (intro purePass_swapped) simp
  then show ?thesis using *(2) assms(2) by (simp add: keyOf_def [of Q path vm'])
qed

lemma bubblePass_result:
  assumes "bubblePass Q path oper vm xs = (ys, vm', swapped)"
  shows "ys = fst (purePass (keyGt (keyOf Q path vm xs) oper) xs)"
    and "swapped = snd (purePass (keyGt (keyOf Q path vm xs) oper) xs)"
  using bubblePass_pure [OF consistent_keyOf [of Q path vm xs], of oper] assms by simp_all

lemma bubblePass_inversions:
  assumes p: "bubblePass Q path (sortOper up) vm xs = (ys, vm', True)"
  shows "inversions (keyGt (keyOf Q path vm' ys) (sortOper up)) ys
       < inversions (keyGt (keyOf Q path vm xs) (sortOper up)) xs"
proof -
  let ?gt = "keyGt (keyOf Q path vm xs) (sortOper up) :: json \<times> 'a \<Rightarrow> json \<times> 'a \<Rightarrow> bool"
  have ys: "ys = fst (purePass ?gt xs)" "snd (purePass ?gt xs)"
    using bubblePass_result [OF p] by simp_all
  then have ids: "ids_of ys = ids_of xs" by (intro ids_of_mset) simp
  have "docId (fst e) \<in> ids_of ys" if "e \<in> set ys" for e
    using that by (simp add: ids_of_def)
  then have "docId (fst e) \<in> ids_of xs" if "e \<in> set ys" for e
    using that ids by simp
  then have "inversions (keyGt (keyOf Q path vm' ys) (sortOper up)) ys = inversions ?gt ys"
    by (intro inversions_cong) (simp add: before_def bubblePass_keyOf [OF p])
  also have "inversions ?gt (fst (purePass ?gt xs)) + (if snd (purePass ?gt xs) then 1 else 0) \<le> inversions ?gt xs"
    by (rule inversions_purePass) (rule before_asym)
  then have "inversions ?gt ys < inversions ?gt xs" using ys by simp
  finally show ?thesis .
qed

function bubbleLoop :: "qt \<Rightarrow> string \<Rightarrow> bool \<Rightarrow> (string \<times> json) list \<Rightarrow> (json \<times> 'a) list \<Rightarrow> (json \<times> 'a) list" where
  "bubbleLoop Q orderPath orderUp valueByPathMap reply =
     (let (reply', valueByPathMap', swapped) =
            bubblePass Q orderPath (sortOper orderUp) valueByPathMap reply
      in if swapped then bubbleLoop Q orderPath orderUp valueByPathMap' reply' else reply')"
  by pat_completeness auto
termination
proof (relation "measure (\<lambda>(Q, path, up, vm, xs). inversions (keyGt (keyOf Q path vm xs) (sortOper up)) xs)",
    goal_cases)
  case (2 Q path up vm xs z ys y vm' swapped)
  then have "bubblePass Q path (sortOper up) vm xs = (ys, vm', True)" by simp
  then show ?case by (auto dest: bubblePass_inversions)
qed simp

declare bubbleLoop.simps [simp del]

lemma bubbleLoop_spec:
  "mset (bubbleLoop Q path up vm xs) = mset xs \<and>
   successively (\<lambda>x y. \<not> keyGt (keyOf Q path vm xs) (sortOper up) x y) (bubbleLoop Q path up vm xs) \<and>
   (\<forall>P. (\<forall>x y. P x \<longrightarrow> P y \<longrightarrow> \<not> keyGt (keyOf Q path vm xs) (sortOper up) x y) \<longrightarrow>
      filter P (bubbleLoop Q path up vm xs) = filter P xs)"
proof (induction Q path up vm xs rule: bubbleLoop.induct)
  case (1 Q path up vm xs)
  let ?gt = "keyGt (keyOf Q path vm xs) (sortOper up) :: json \<times> 'a \<Rightarrow> json \<times> 'a \<Rightarrow> bool"
  obtain ys vm' sw where p: "bubblePass Q path (sortOper up) vm xs = (ys, vm', sw)"
    using prod_cases3 by blast
  have ys: "ys = fst (purePass ?gt xs)" "sw = snd (purePass ?gt xs)"
    using bubblePass_result [OF p] by simp_all
  have eq: "bubbleLoop Q path up vm xs = (if sw then bubbleLoop Q path up vm' ys else ys)"
    by (subst bubbleLoop.simps) (simp add: p)
  have m: "mset ys = mset xs" by (simp add: ys)
  show ?case
  proof (cases sw)
    case False
    then show ?thesis
      using purePass_unswapped [of ?gt xs] ys by (simp add: eq)
  next
    case True
    let ?zs = "bubbleLoop Q path up vm' ys"
    let ?gt' = "keyGt (keyOf Q path vm' ys) (sortOper up) :: json \<times> 'a \<Rightarrow> json \<times> 'a \<Rightarrow> bool"
    have IH: "mset ?zs = mset ys" "successively (\<lambda>x y. \<not> ?gt' x y) ?zs"
      "\<And>P. (\<forall>x y. P x \<longrightarrow> P y \<longrightarrow> \<not> ?gt' x y) \<Longrightarrow> filter P ?zs = filter P ys"
      using "1.IH" [OF p [symmetric] refl refl True] by blast+
    from True p have p': "bubblePass Q path (sortOper up) vm xs = (ys, vm', True)" by simp
    have same: "?gt' x y = ?gt x y" if "x \<in> set xs" "y \<in> set xs" for x y
      using that bubblePass_keyOf [OF p'] by (simp add: before_def ids_of_def)
    have sets: "set ?zs = set xs" "set ys = set xs"
      using IH(1) m by (metis set_mset_mset)+
    have "successively (\<lambda>x y. \<not> ?gt x y) ?zs"
      using IH(2) by (rule successively_mono) (use same sets in auto)
    moreover have "filter P ?zs = filter P xs" if P: "\<forall>x y. P x \<longrightarrow> P y \<longrightarrow> \<not> ?gt x y" for P
    proof -
      let ?P = "\<lambda>x. P x \<and> x \<in> set xs"
      have "filter ?P ?zs = filter ?P ys" using P same by (intro IH(3)) blast
      moreover have "filter ?P l = filter P l" if "set l = set xs" for l :: "(json \<times> 'a) list"
        by (rule filter_cong) (simp_all add: that)
      ultimately have "filter P ?zs = filter P ys" using sets by metis
      also have "\<dots> = filter P xs" unfolding ys(1) by (rule filter_purePass) (use P in blast)
      finally show ?thesis .
    qed
    ultimately show ?thesis using IH(1) m True by (simp add: eq)
  qed
qed

lemma successively_sorted_on:
  "(\<And>x y z. x \<in> set xs \<Longrightarrow> y \<in> set xs \<Longrightarrow> z \<in> set xs \<Longrightarrow> P x y \<Longrightarrow> P y z \<Longrightarrow> P x z) \<Longrightarrow>
   successively P xs \<Longrightarrow> sorted_wrt P xs"
proof (induction xs)
  case (Cons x xs)
  show ?case
  proof (cases xs)
    case tail: (Cons y ys)
    have s: "sorted_wrt P xs"
    proof (rule Cons.IH)
      show "P a c" if "a \<in> set xs" "b \<in> set xs" "c \<in> set xs" "P a b" "P b c" for a b c
        using that by (intro Cons.prems(1) [of a b c]) simp_all
      show "successively P xs" using Cons.prems(2) tail by simp
    qed
    have xy: "P x y" using Cons.prems(2) tail by simp
    have "P x z" if "z \<in> set xs" for z
    proof (cases "z = y")
      case False
      then have "P y z" using s tail that by simp
      with xy show ?thesis using that tail by (intro Cons.prems(1) [of x y z]) simp_all
    qed (use xy in simp)
    with s show ?thesis by simp
  qed simp
qed simp

text \<open>With distinct ids the sort key of a document is its own value at the path.\<close>

lemma keyOf_own:
  assumes "inj_on docId (fst ` set xs)" "e \<in> set xs"
  shows "keyOf Q path [] xs (docId (fst e)) = getJsonValueByPath Q (fst e) path"
proof -
  obtain f where f: "List.find (\<lambda>e'. docId (fst e') = docId (fst e)) xs = Some f"
    using assms(2) find_None_iff [of "\<lambda>e'. docId (fst e') = docId (fst e)" xs] by blast
  then have "docId (fst f) = docId (fst e)" "f \<in> set xs"
    by (auto simp: find_Some_iff)
  then have "fst f = fst e" using assms by (auto simp: inj_on_def)
  then show ?thesis by (simp add: keyOf_def f)
qed

subsection \<open>applyOptions\<close>

definition orderSpec :: "jobject \<Rightarrow> string \<times> bool" where
  "orderSpec options =
     (if smap_has ''$orderBy'' options then
        (case toObject (obj_value options ''$orderBy'') of
           (k, v) # _ \<Rightarrow> if isDouble v then (k, toInt v \<noteq> 0) else ([], True)
         | [] \<Rightarrow> ([], True))
      else ([], True))"

definition applyOptions :: "qt \<Rightarrow> jobject \<Rightarrow> (json \<times> 'a) list \<Rightarrow> (json \<times> 'a) list" where
  "applyOptions Q options reply =
     (let (orderPath, orderUp) = orderSpec options;
          sorted = (if orderPath \<noteq> [] then bubbleLoop Q orderPath orderUp [] reply else reply)
      in if smap_has ''$limit'' options
         then take (nat (toInt (obj_value options ''$limit''))) sorted
         else sorted)"

definition sameKind :: "json set \<Rightarrow> bool" where
  "sameKind V \<longleftrightarrow> (\<forall>a \<in> V. \<forall>b \<in> V. comparable a b)"

definition inOrder :: "bool \<Rightarrow> json \<Rightarrow> json \<Rightarrow> bool" where
  "inOrder up a b \<longleftrightarrow> \<not> compare a b (sortOper up)"

lemma inOrder_trans:
  assumes "sameKind V" "a \<in> V" "b \<in> V" "c \<in> V" "inOrder up a b" "inOrder up b c"
  shows "inOrder up a c"
proof -
  have "comparable a b" "comparable b c" "comparable a c" using assms by (simp_all add: sameKind_def)
  then show ?thesis
    using assms(5,6)
    by (auto simp: comparable_def inOrder_def compare_def compare_by_def sortOper_def
        elim!: isDouble.elims isString.elims split: if_splits)
qed

lemma bubbleLoop_sorted:
  assumes inj: "inj_on docId (fst ` set xs)"
    and kind: "sameKind ((\<lambda>e. getJsonValueByPath Q (fst e) path) ` set xs)"
  shows "sorted_wrt (\<lambda>x y. inOrder up (getJsonValueByPath Q (fst x) path) (getJsonValueByPath Q (fst y) path))
     (bubbleLoop Q path up [] xs)"
proof -
  let ?R = "\<lambda>x y. inOrder up (getJsonValueByPath Q (fst x) path) (getJsonValueByPath Q (fst y) path)"
  let ?ys = "bubbleLoop Q path up [] xs"
  have set: "set ?ys = set xs"
    using bubbleLoop_spec [of Q path up "[]" xs] by (metis set_mset_mset)
  have "successively (\<lambda>x y. \<not> keyGt (keyOf Q path [] xs) (sortOper up) x y) ?ys"
    using bubbleLoop_spec [of Q path up "[]" xs] by blast
  then have "successively ?R ?ys"
    by (rule successively_mono) (simp add: before_def inOrder_def keyOf_own [OF inj] set)
  then show ?thesis
    by (rule successively_sorted_on [rotated])
      (rule inOrder_trans [OF kind], auto simp: set)
qed

lemma bubbleLoop_stable:
  assumes inj: "inj_on docId (fst ` set xs)"
  shows "filter (\<lambda>e. getJsonValueByPath Q (fst e) path = v) (bubbleLoop Q path up [] xs)
       = filter (\<lambda>e. getJsonValueByPath Q (fst e) path = v) xs"
proof -
  let ?P = "\<lambda>e. keyOf Q path [] xs (docId (fst e)) = v"
  have "filter ?P (bubbleLoop Q path up [] xs) = filter ?P xs"
    using bubbleLoop_spec [of Q path up "[]" xs]
    by (auto simp: before_def sortOper_def compare_irrefl)
  moreover have "set (bubbleLoop Q path up [] xs) = set xs"
    using bubbleLoop_spec [of Q path up "[]" xs] by (metis set_mset_mset)
  moreover have "filter ?P zs = filter (\<lambda>e. getJsonValueByPath Q (fst e) path = v) zs"
    if "set zs = set xs" for zs
    by (rule filter_cong) (simp_all add: that keyOf_own [OF inj])
  ultimately show ?thesis by metis
qed

lemma mset_applyOptions:
  "\<not> smap_has ''$limit'' options \<Longrightarrow> mset (applyOptions Q options reply) = mset reply"
  using bubbleLoop_spec [of Q "fst (orderSpec options)" "snd (orderSpec options)" "[]" reply]
  by (simp add: applyOptions_def case_prod_beta Let_def)

lemma set_applyOptions: "set (applyOptions Q options reply) \<subseteq> set reply"
proof -
  have "set (bubbleLoop Q p up [] reply) = set reply" for p up
    using bubbleLoop_spec [of Q p up "[]" reply] by (metis set_mset_mset)
  then show ?thesis
    by (auto simp: applyOptions_def case_prod_beta Let_def dest: in_set_takeD split: if_splits)
qed

lemma applyOptions_Nil [simp]: "applyOptions Q [] reply = reply"
  by (simp add: applyOptions_def orderSpec_def)

lemma length_applyOptions:
  "length (applyOptions Q options reply) =
     (if smap_has ''$limit'' options
      then min (length reply) (nat (toInt (obj_value options ''$limit''))) else length reply)"
proof -
  have "length (bubbleLoop Q p up [] reply) = length reply" for p up
    using bubbleLoop_spec [of Q p up "[]" reply] by (metis size_mset)
  then show ?thesis by (simp add: applyOptions_def case_prod_beta Let_def)
qed

lemma orderSpec_limit: "orderSpec (filter (\<lambda>e. fst e \<noteq> ''$limit'') options) = orderSpec options"
proof -
  have "map_of (filter (\<lambda>e. fst e \<noteq> ''$limit'') options) ''$orderBy'' = map_of options ''$orderBy''"
    by (induction options) auto
  then show ?thesis by (simp add: orderSpec_def obj_value_def)
qed

lemma applyOptions_limit:
  assumes "smap_has ''$limit'' options"
  shows "applyOptions Q options xs =
    take (nat (toInt (obj_value options ''$limit'')))
      (applyOptions Q (filter (\<lambda>e. fst e \<noteq> ''$limit'') options) xs)"
proof -
  have "map_of (filter (\<lambda>e. fst e \<noteq> ''$limit'') options) ''$limit'' = None"
    by (auto simp: map_of_eq_None_iff)
  then show ?thesis using assms by (simp add: applyOptions_def orderSpec_limit case_prod_beta Let_def)
qed

end
