(* ===== verification/QDocConfig.thy ===== *)
theory QDocConfig
  imports QDocPrelude
begin

text \<open>
  qdocdbcommonconfig.h and qdocdbcommonconfig.cpp: the identifier generator QDocIdGen and
  the configuration shared by all collections of a server. The clock and the UUID source
  are the record \<open>env\<close>, read once per operation.
\<close>

record env =
  env_msecs :: nat
  env_uuid :: bytes

text \<open>\<open>QByteArray::number(n, 16)\<close>\<close>

definition hexDigit :: "nat \<Rightarrow> char" where
  "hexDigit d = ''0123456789abcdef'' ! d"

fun hexNumber :: "nat \<Rightarrow> string" where
  "hexNumber n = (if n < 16 then [hexDigit n] else hexNumber (n div 16) @ [hexDigit (n mod 16)])"

declare hexNumber.simps [simp del]

record idgen =
  counter :: "64 word"
  nextNumber :: int

definition getId :: "env \<Rightarrow> idgen \<Rightarrow> bytes \<times> idgen" where
  "getId e g =
     (let g' = g\<lparr>counter := counter g + 1\<rparr>;
          tstamp = (of_nat (env_msecs e div 1000) :: 32 word)
      in (hexNumber (unat tstamp) @ hexNumber (unat (counter g')), g'))"

definition getNextNumber :: "idgen \<Rightarrow> int \<times> idgen" where
  "getNextNumber g = (nextNumber g, g\<lparr>nextNumber := int32_inc (nextNumber g)\<rparr>)"

text \<open>\<open>QUuid::toByteArray\<close> encloses the UUID in braces, which \<open>getUUID\<close> strips.\<close>

definition getUUID :: "env \<Rightarrow> bytes" where
  "getUUID e = take (length (env_uuid e) - 2) (drop 1 (env_uuid e))"

text \<open>The constructor: two calls of \<open>qrand\<close> make the counter.\<close>

definition QDocIdGen :: "int \<Rightarrow> int \<Rightarrow> idgen" where
  "QDocIdGen r1 r2 =
     \<lparr>counter = or (push_bit 32 (of_int r1)) (and (of_int r2) 0xFFFFFFFF), nextNumber = 1\<rparr>"

record config =
  readOnlyKey :: string
  readOnlyKeyValid :: bool
  UUIDPath :: string
  UUIDPathValid :: bool

definition QDocdbCommonConfig :: "string \<Rightarrow> string \<Rightarrow> config" where
  "QDocdbCommonConfig uuidPath roKey =
     \<lparr>readOnlyKey = roKey, readOnlyKeyValid = (roKey \<noteq> []),
      UUIDPath = uuidPath, UUIDPathValid = (uuidPath \<noteq> [])\<rparr>"

subsection \<open>Hexadecimal numbers are distinct\<close>

lemma hexDigit_inject: "a < 16 \<Longrightarrow> b < 16 \<Longrightarrow> hexDigit a = hexDigit b \<Longrightarrow> a = b"
  using nth_eq_iff_index_eq [of "''0123456789abcdef''" a b] by (simp add: hexDigit_def)

lemma hexNumber_inject: "hexNumber a = hexNumber b \<Longrightarrow> a = b"
proof (induction a arbitrary: b rule: hexNumber.induct)
  case (1 a)
  have ne: "hexNumber n \<noteq> []" for n by (subst hexNumber.simps) simp
  show ?case
  proof (cases "a < 16")
    case True
    have "b < 16"
    proof (rule ccontr)
      assume "\<not> b < 16"
      then have "[hexDigit a] = hexNumber (b div 16) @ [hexDigit (b mod 16)]"
        using "1.prems" True by (simp add: hexNumber.simps [of a] hexNumber.simps [of b])
      then show False using ne [of "b div 16"] by (cases "hexNumber (b div 16)") simp_all
    qed
    then show ?thesis using "1.prems" True
      by (simp add: hexNumber.simps [of a] hexNumber.simps [of b] hexDigit_inject)
  next
    case False
    have "\<not> b < 16"
    proof
      assume "b < 16"
      then have "[hexDigit b] = hexNumber (a div 16) @ [hexDigit (a mod 16)]"
        using "1.prems" False by (simp add: hexNumber.simps [of a] hexNumber.simps [of b])
      then show False using ne [of "a div 16"] by (cases "hexNumber (a div 16)") simp_all
    qed
    then have "hexNumber (a div 16) = hexNumber (b div 16) \<and> hexDigit (a mod 16) = hexDigit (b mod 16)"
      using "1.prems" False by (simp add: hexNumber.simps [of a] hexNumber.simps [of b])
    then have "a div 16 = b div 16" "a mod 16 = b mod 16"
      using "1.IH" [OF False] hexDigit_inject [of "a mod 16" "b mod 16"] by auto
    then show ?thesis by (metis div_mult_mod_eq)
  qed
qed

text \<open>
  Ids made within one second of one generator differ: the time prefix is the same and the
  counters differ.
\<close>

lemma getId_same_second:
  assumes "env_msecs e div 1000 = env_msecs e' div 1000" "counter g \<noteq> counter g'"
  shows "fst (getId e g) \<noteq> fst (getId e' g')"
proof
  assume "fst (getId e g) = fst (getId e' g')"
  then have "hexNumber (unat (counter g + 1)) = hexNumber (unat (counter g' + 1))"
    using assms(1) by (simp add: getId_def Let_def)
  then have "unat (counter g + 1) = unat (counter g' + 1)" by (rule hexNumber_inject)
  then have "counter g + 1 = counter g' + 1" by (simp add: word_unat_eq_iff)
  with assms(2) show False by simp
qed

lemma of_nat_64_nonzero: "0 < n \<Longrightarrow> n < 2 ^ 64 \<Longrightarrow> (of_nat n :: 64 word) \<noteq> 0"
  by (simp add: word_unat_eq_iff unat_of_nat)

end
