(* ===== verification/QDocCollection.thy ===== *)
theory QDocCollection
  imports QDocScan QDocQuery QDocOptions QDocConfig
begin

text \<open>
  \<open>QDocCollection\<close> (qdoccollection.h, qdoccollection.cpp): the state of a collection and
  its operations up to the observers. A transaction and a read-only snapshot are objects
  of the same class and use the same operations; what they add is in QDocTransaction and
  QDocSnapshots.

  An operation whose behaviour the code leaves undefined returns \<open>None\<close>: the one source of
  this is \<open>QDocUtils::multiply\<close>. The scans over the iterator take as fuel the number of
  entries of the database plus one, which is shown to be enough. A signal emitted by an
  operation is an element of the list it returns.
\<close>

subsection \<open>State\<close>

record observer =
  ob_id :: int
  ob_query :: jobject
  ob_queryOptions :: jobject
  ob_reply :: "json list"
  ob_triggered :: bool

datatype classType = typeCollection | typeTransaction | typeReadOnlySnapshot

record coll =
  coll_isOpened :: bool
  coll_class :: classType
  coll_baseDir :: string
  coll_snapshotId :: "8 word"
  coll_kv :: kv
  coll_lastError :: string
  coll_observers :: "(int \<times> observer) list"

type_synonym observe_signal = "int \<times> json list"

text \<open>\<open>QHash::operator[]\<close> inserts a value-initialised observer for an absent id.\<close>

definition default_observer :: observer where
  "default_observer =
     \<lparr>ob_id = 0, ob_query = [], ob_queryOptions = [], ob_reply = [], ob_triggered = False\<rparr>"

definition observer_at :: "int \<Rightarrow> (int \<times> observer) list \<Rightarrow> observer" where
  "observer_at i obs = (case map_of obs i of Some ob \<Rightarrow> ob | None \<Rightarrow> default_observer)"

subsection \<open>Reading the database\<close>

definition getIndexes :: "qt \<Rightarrow> coll \<Rightarrow> (string \<times> string) list" where
  "getIndexes Q c =
     unmarshalIndexes Q (case getValue (coll_kv c) ''in:'' of Inl _ \<Rightarrow> [] | Inr indexesData \<Rightarrow> indexesData)"

definition getJsonValueByLinkKey :: "qt \<Rightarrow> coll \<Rightarrow> bytes \<Rightarrow> json" where
  "getJsonValueByLinkKey Q c linkKey =
     (case getValue (coll_kv c) linkKey of Inl _ \<Rightarrow> JUndefined | Inr valueData \<Rightarrow> unmarshal Q valueData)"

definition getIndexValueLinkKeys :: "qt \<Rightarrow> coll \<Rightarrow> string \<Rightarrow> json \<Rightarrow> rcode + bytes list" where
  "getIndexValueLinkKeys Q c indexName jsonValue =
     (case getValue (coll_kv c) (constructIndexValueKeyJ Q indexName (coll_snapshotId c) jsonValue) of
        Inl _ \<Rightarrow> Inl errorDatabase
      | Inr linkKeysData \<Rightarrow> Inr (unmarshalIndexValue Q linkKeysData))"

definition getSnapshotsValue :: "qt \<Rightarrow> coll \<Rightarrow> (rcode + string list) \<times> coll" where
  "getSnapshotsValue Q c =
     (case getValue (coll_kv c) ''s:'' of
        Inl msg \<Rightarrow> (Inl errorDatabase, c\<lparr>coll_lastError := msg\<rparr>)
      | Inr valueData \<Rightarrow> (Inr (unmarshalSnapshotsValue Q valueData), c))"

definition getLastSnapshotId :: "qt \<Rightarrow> coll \<Rightarrow> (rcode + 8 word) \<times> coll" where
  "getLastSnapshotId Q c =
     (case getSnapshotsValue Q c of
        (Inl r, c') \<Rightarrow> (Inl r, c')
      | (Inr snapshots, c') \<Rightarrow>
          if snapshots = [] then (Inl errorDatabase, c'\<lparr>coll_lastError := ''Invalid snapshots structure''\<rparr>)
          else (Inr (of_nat (length snapshots - 1)), c'))"

subsection \<open>Finding documents\<close>

text \<open>
  The first loop of \<open>find\<close>: the link keys of the documents that \<open>_id\<close> and the indexed
  fields of the query name. The second component is \<open>firstFind\<close>.
\<close>

definition idLinkKeys :: "qt \<Rightarrow> coll \<Rightarrow> json \<Rightarrow> bytes list" where
  "idLinkKeys Q c v =
     (if isArray v then
        map (\<lambda>e. constructDocumentLinkKeyS Q (toString e) (coll_snapshotId c)) (filter isString (toArray v))
      else if isString v then [constructDocumentLinkKeyS Q (toString v) (coll_snapshotId c)]
      else [])"

fun findLinks :: "qt \<Rightarrow> coll \<Rightarrow> (string \<times> string) list \<Rightarrow> jobject \<Rightarrow> bool \<Rightarrow> bytes list
    \<Rightarrow> (rcode \<times> bool \<times> bytes list) option" where
  "findLinks Q c indexes [] firstFind linkKeys = Some (success, firstFind, linkKeys)"
| "findLinks Q c indexes ((key, v) # query) firstFind linkKeys =
     (if key = ''_id'' then findLinks Q c indexes query False (linkKeys @ idLinkKeys Q c v)
      else case map_of indexes key of
        None \<Rightarrow> findLinks Q c indexes query firstFind linkKeys
      | Some indexName \<Rightarrow>
          if isArray v \<or> isObject v then findLinks Q c indexes query firstFind linkKeys
          else case getIndexValueLinkKeys Q c indexName v of
            Inl r \<Rightarrow> Some (r, firstFind, linkKeys)
          | Inr indexLinkKeys \<Rightarrow>
              if firstFind then findLinks Q c indexes query False indexLinkKeys
              else case multiply linkKeys indexLinkKeys of
                None \<Rightarrow> None
              | Some lks \<Rightarrow> findLinks Q c indexes query False lks)"

text \<open>The second loop: the documents of the link keys that match. A reply pairs each document with its id.\<close>

fun checkLinks :: "qt \<Rightarrow> bool \<Rightarrow> coll \<Rightarrow> jobject \<Rightarrow> bytes list \<Rightarrow> (json \<times> bytes) list
    \<Rightarrow> rcode \<times> (json \<times> bytes) list" where
  "checkLinks Q u c query [] reply = (success, reply)"
| "checkLinks Q u c query (linkKey # linkKeys) reply =
     (let jsonValue = getJsonValueByLinkKey Q c linkKey
      in if isObject jsonValue then
           case checkValidR Q u (JObj query) jsonValue [] True of
             (success, valid) \<Rightarrow>
               checkLinks Q u c query linkKeys (if valid then reply @ [(jsonValue, linkKey)] else reply)
           | (r, valid) \<Rightarrow> (r, reply)
         else checkLinks Q u c query linkKeys reply)"

text \<open>The full search.\<close>

fun findLoop :: "qt \<Rightarrow> bool \<Rightarrow> jobject \<Rightarrow> nat \<Rightarrow> dociter \<Rightarrow> (json \<times> bytes) list
    \<Rightarrow> (rcode \<times> (json \<times> bytes) list) option" where
  "findLoop Q u query 0 it reply = None"
| "findLoop Q u query (Suc fuel) it reply =
     (if \<not> it_isValid it then Some (success, reply)
      else let (it', jsonValue, _) = it_value Q 0 it
      in if isObject jsonValue then
           case checkValidR Q u (JObj query) jsonValue [] True of
             (success, valid) \<Rightarrow>
               findLoop Q u query fuel (it_next it')
                 (if valid then reply @ [(jsonValue, it_key it')] else reply)
           | (r, valid) \<Rightarrow> Some (r, reply)
         else findLoop Q u query fuel (it_next it') reply)"

definition scanFuel :: "kv \<Rightarrow> nat" where
  "scanFuel k = Suc (length (kv_entries k))"

definition coll_find :: "qt \<Rightarrow> bool \<Rightarrow> coll \<Rightarrow> jobject \<Rightarrow> jobject \<Rightarrow> (rcode \<times> (json \<times> bytes) list) option" where
  "coll_find Q u c query options =
     (case findLinks Q c (getIndexes Q c) query True [] of
        None \<Rightarrow> None
      | Some (success, firstFind, linkKeys) \<Rightarrow>
          if \<not> firstFind then Some (checkLinks Q u c query linkKeys [])
          else (case findLoop Q u query (scanFuel (coll_kv c))
                  (it_seekToFirst (newIterator (coll_kv c) (coll_snapshotId c))) [] of
             None \<Rightarrow> None
           | Some (success, reply) \<Rightarrow> Some (success, applyOptions Q options reply)
           | Some (r, reply) \<Rightarrow> Some (r, reply))
      | Some (r, _) \<Rightarrow> Some (r, []))"

definition coll_findOne :: "qt \<Rightarrow> bool \<Rightarrow> coll \<Rightarrow> jobject \<Rightarrow> jobject \<Rightarrow> jobject \<Rightarrow> (rcode \<times> jobject) option" where
  "coll_findOne Q u c query options pReply =
     map_option (\<lambda>(r, reply). (r, if r = success \<and> reply \<noteq> [] then toObject (fst (hd reply)) else pReply))
       (coll_find Q u c query options)"

definition coll_count :: "qt \<Rightarrow> bool \<Rightarrow> coll \<Rightarrow> jobject \<Rightarrow> jobject \<Rightarrow> nat \<Rightarrow> (rcode \<times> nat) option" where
  "coll_count Q u c query options replyCount =
     map_option (\<lambda>(r, reply). (r, if r = success then length reply else replyCount))
       (coll_find Q u c query options)"

fun modifiedIds :: "nat \<Rightarrow> dociter \<Rightarrow> bytes list \<Rightarrow> bytes list option" where
  "modifiedIds 0 it ids = None"
| "modifiedIds (Suc fuel) it ids =
     (if \<not> it_isValid it then Some ids
      else let (it', later) = it_isModifiedLater it
      in modifiedIds fuel (it_next it') (if later then ids @ [it_key it'] else ids))"

definition getModified :: "coll \<Rightarrow> bytes list option" where
  "getModified c =
     modifiedIds (scanFuel (coll_kv c)) (it_seekToFirst (newIterator (coll_kv c) (coll_snapshotId c))) []"

subsection \<open>Observers\<close>

definition emitObserver :: "int \<Rightarrow> coll \<Rightarrow> coll \<times> observe_signal list" where
  "emitObserver i c =
     (let ob = observer_at i (coll_observers c)
      in (c\<lparr>coll_observers := smap_put i (ob\<lparr>ob_triggered := False\<rparr>) (coll_observers c)\<rparr>,
          if ob_triggered ob then [(i, ob_reply ob)] else []))"

fun emitAll :: "int list \<Rightarrow> coll \<Rightarrow> coll \<times> observe_signal list" where
  "emitAll [] c = (c, [])"
| "emitAll (i # ids) c =
     (let (c', s) = emitObserver i c; (c'', s') = emitAll ids c' in (c'', s @ s'))"

definition emitObservers :: "qt \<Rightarrow> coll \<Rightarrow> coll \<times> observe_signal list" where
  "emitObservers Q c = emitAll (intHashKeys Q (map fst (coll_observers c))) c"

text \<open>\<open>preferedId = -1\<close> asks for a fresh id.\<close>

definition observe :: "qt \<Rightarrow> bool \<Rightarrow> idgen \<Rightarrow> jobject \<Rightarrow> jobject \<Rightarrow> int \<Rightarrow> coll
    \<Rightarrow> (int \<times> idgen \<times> coll \<times> observe_signal list) option" where
  "observe Q u g query queryOptions preferedId c =
     (let (i, g') = (if preferedId = -1 \<or> smap_has preferedId (coll_observers c)
                     then getNextNumber g else (preferedId, g))
      in case coll_find Q u c query queryOptions of
           None \<Rightarrow> None
         | Some (r, reply) \<Rightarrow>
             let ob = \<lparr>ob_id = i, ob_query = query, ob_queryOptions = queryOptions,
                       ob_reply = map fst reply, ob_triggered = True\<rparr>;
                 (c', s) = emitObserver i (c\<lparr>coll_observers := smap_put i ob (coll_observers c)\<rparr>)
             in Some (i, g', c', s))"

definition unobserve :: "int \<Rightarrow> coll \<Rightarrow> coll" where
  "unobserve i c =
     (if smap_has i (coll_observers c) then c\<lparr>coll_observers := smap_del i (coll_observers c)\<rparr> else c)"

text \<open>\<open>reloadObservers\<close> calls \<open>find\<close> without the options of the observer.\<close>

fun reloadLoop :: "qt \<Rightarrow> bool \<Rightarrow> int list \<Rightarrow> coll \<Rightarrow> coll option" where
  "reloadLoop Q u [] c = Some c"
| "reloadLoop Q u (i # ids) c =
     (let ob = observer_at i (coll_observers c)
      in case coll_find Q u c (ob_query ob) [] of
           None \<Rightarrow> None
         | Some (r, reply) \<Rightarrow>
             reloadLoop Q u ids (c\<lparr>coll_observers :=
               smap_put i (ob\<lparr>ob_reply := map fst reply, ob_triggered := True\<rparr>) (coll_observers c)\<rparr>))"

definition reloadObservers :: "qt \<Rightarrow> bool \<Rightarrow> coll \<Rightarrow> (coll \<times> observe_signal list) option" where
  "reloadObservers Q u c =
     map_option (emitObservers Q) (reloadLoop Q u (intHashKeys Q (map fst (coll_observers c))) c)"

subsection \<open>Transactions and snapshots as collections\<close>

text \<open>
  The constructor on an open key-value object, and with it \<open>newTransaction\<close>. The object a
  transaction points to as \<open>parentColl\<close> is a parameter of the operations that use it.
\<close>

definition kv_isValid :: "kv \<Rightarrow> bool" where
  "kv_isValid k = (case k of KVLevelDB db \<Rightarrow> ldb_status db = None
     | KVLevelDBTransaction db tx \<Rightarrow> ldb_status db = None | _ \<Rightarrow> True)"

definition QDocCollection_kv :: "kv \<Rightarrow> string \<Rightarrow> classType \<Rightarrow> coll" where
  "QDocCollection_kv k collectionDir ct =
     \<lparr>coll_isOpened = kv_isValid k, coll_class = ct, coll_baseDir = collectionDir, coll_snapshotId = 0,
      coll_kv = k, coll_lastError = [], coll_observers = []\<rparr>"

definition coll_newTransaction :: "coll \<Rightarrow> coll option" where
  "coll_newTransaction c =
     (if coll_class c = typeCollection then
        case newTransaction (coll_kv c) of
          None \<Rightarrow> None
        | Some t \<Rightarrow> Some ((QDocCollection_kv t (coll_baseDir c) typeTransaction)
            \<lparr>coll_observers := coll_observers c, coll_snapshotId := coll_snapshotId c\<rparr>)
      else None)"

end
