(* ===== verification/QDocFind.thy ===== *)
theory QDocFind
  imports QDocCollection
begin

text \<open>
  What \<open>find\<close> and \<open>getModified\<close> return: the abstract list of the documents a collection
  shows, the scans as filters of it, and the totality of the scans on any database.
\<close>

subsection \<open>Every scan ends\<close>

lemma valueLoop_suffix:
  "\<exists>pre. zs = pre @ fst (valueLoop p my zs d u nl nk)"
proof (induction p my zs d u nl nk rule: valueLoop.induct)
  case (2 pfx my key v rest valueData sid notLater naked)
  then show ?case by (auto simp: Let_def) (metis append_Cons)+
qed simp

lemma modifiedLoop_suffix: "\<exists>pre. zs = pre @ fst (modifiedLoop p my zs)"
proof (induction p my zs rule: modifiedLoop.induct)
  case (2 pfx my key v rest)
  then show ?case by (auto) (metis append_Cons)+
qed simp

lemma valueLoop_first:
  "hasPrefix p k \<Longrightarrow> length k = length p + 1 \<Longrightarrow>
   valueLoop p my ((k, v) # zs) d u nl nk = valueLoop p my zs d u nl nk"
  by simp

text \<open>\<open>scanning xs n it\<close>: the iterator is over \<open>xs\<close> and has at most \<open>n\<close> entries ahead.\<close>

definition scanning :: "bool \<Rightarrow> store \<Rightarrow> 8 word \<Rightarrow> nat \<Rightarrow> dociter \<Rightarrow> bool" where
  "scanning ex xs my n it \<longleftrightarrow> sorted_keys xs \<and> (\<exists>ys. it_at ex xs my ys it \<and> length ys \<le> n)"

lemma scanning_advance:
  assumes it: "it_at ex xs my ((k, v) # ys) it" and d: "isDocKey k"
    and r: "zs = pre @ rest" and ys: "ys = pre' @ zs"
    and it': "it' = it\<lparr>it_kv := \<lparr>ki_exact = ex, ki_entries = xs, ki_rest = rest\<rparr>\<rparr>"
  shows "\<exists>ys'. it_at ex xs my ys' (it_next it') \<and> length ys' \<le> length ys"
proof -
  let ?p = "it_prefix it"
  let ?rest' = "dropWhile (\<lambda>e. hasPrefix ?p (fst e)) rest"
  obtain qs where qs: "xs = qs @ (k, v) # ys" and my: "it_snapshotId it = my"
    using it by (auto simp: it_at_def)
  have "rest = takeWhile (\<lambda>e. hasPrefix ?p (fst e)) rest @ ?rest'" by simp
  then obtain ts where ts: "xs = ts @ ?rest'"
    using qs r ys by (metis append.assoc append_Cons)
  have "it_at ex (ts @ ?rest') my ?rest' (it_next it')"
    using it_at_setup [of "it'\<lparr>it_kv := (it_kv it')\<lparr>ki_rest := ?rest'\<rparr>\<rparr>" ex ts ?rest'] ts my
    by (simp add: it_next_def it')
  moreover have "length ?rest' \<le> length ys"
    using r ys length_dropWhile_le [of "\<lambda>e. hasPrefix ?p (fst e)" rest] by simp
  ultimately show ?thesis using ts by metis
qed

lemma scanning_step:
  assumes s: "scanning ex xs my (Suc n) it" and valid: "it_isValid it"
  shows "scanning ex xs my n (it_next (fst (it_value Q u it)))"
    and "scanning ex xs my n (it_next (fst (it_isModifiedLater it)))"
proof -
  obtain ys where ys: "it_at ex xs my ys it" "length ys \<le> Suc n" and xs: "sorted_keys xs"
    using s by (auto simp: scanning_def)
  then obtain k v zs where zs: "ys = (k, v) # zs"
    using valid by (cases ys) (auto simp: it_at_def it_isValid_def ki_isValid_def)
  have p: "isDocKey k" "it_prefix it = take (length k - 1) k" "it_beginKey it = k"
    and kv: "it_kv it = \<lparr>ki_exact = ex, ki_entries = xs, ki_rest = (k, v) # zs\<rparr>"
    using ys(1) valid zs by (auto simp: it_at_def it_isValid_def split: if_splits)
  obtain pre where pre: "xs = pre @ (k, v) # zs" using ys(1) zs by (auto simp: it_at_def)
  have "k \<noteq> []" using p(1) by (auto simp: isDocKey_def)
  then have k: "hasPrefix (it_prefix it) k" "length k = length (it_prefix it) + 1"
    by (auto simp: p hasPrefix_def)
  have seek: "ki_seek (it_beginKey it) (it_kv it) = \<lparr>ki_exact = ex, ki_entries = xs, ki_rest = (k, v) # zs\<rparr>"
    using seek_entry [of pre k v zs] xs pre kv p(3) by (simp add: ki_seek_def)
  obtain rest dt sid nl nk where vl: "valueLoop (it_prefix it) (it_snapshotId it) zs [] u True True = (rest, dt, sid, nl, nk)"
    by (metis prod_cases5)
  then obtain pz where "zs = pz @ rest" using valueLoop_suffix [of zs "it_prefix it"] by (metis fst_conv)
  moreover have "fst (it_value Q u it) = it\<lparr>it_kv := \<lparr>ki_exact = ex, ki_entries = xs, ki_rest = rest\<rparr>\<rparr>"
    using k vl by (simp add: it_value_def seek Let_def)
  ultimately show "scanning ex xs my n (it_next (fst (it_value Q u it)))"
    using scanning_advance [of ex xs my k v zs it zs pz rest "[]"] ys zs p(1) xs by (auto simp: scanning_def)
  obtain rest' b where ml: "modifiedLoop (it_prefix it) (it_snapshotId it) zs = (rest', b)" by force
  then obtain pz' where "zs = pz' @ rest'" using modifiedLoop_suffix [of zs "it_prefix it"] by (metis fst_conv)
  moreover have "fst (it_isModifiedLater it) = it\<lparr>it_kv := \<lparr>ki_exact = ex, ki_entries = xs, ki_rest = rest'\<rparr>\<rparr>"
    using k ml by (simp add: it_isModifiedLater_def seek Let_def)
  ultimately show "scanning ex xs my n (it_next (fst (it_isModifiedLater it)))"
    using scanning_advance [of ex xs my k v zs it zs pz' rest' "[]"] ys zs p(1) xs by (auto simp: scanning_def)
qed

lemma scanning_zero: "scanning ex xs my 0 it \<Longrightarrow> \<not> it_isValid it"
  by (auto simp: scanning_def it_at_def it_isValid_def ki_isValid_def)

lemma scanning_first:
  "sorted_keys (kv_entries k) \<Longrightarrow>
   scanning (kv_is_map k) (kv_entries k) my (length (kv_entries k)) (it_seekToFirst (newIterator k my))"
  using it_at_first [of k my] by (auto simp: scanning_def)

lemma findLoop_total:
  "scanning ex xs my n it \<Longrightarrow> findLoop Q u query (Suc n) it reply \<noteq> None"
proof (induction n arbitrary: it reply)
  case 0
  then show ?case using scanning_zero by simp
next
  case (Suc n)
  show ?case
  proof (cases "it_isValid it")
    case True
    then show ?thesis
      using Suc.IH [OF scanning_step(1) [OF Suc.prems True, of Q 0]]
      by (auto simp del: findLoop.simps simp: findLoop.simps(2) [of Q u query "Suc n"]
          split: prod.split rcode.split)
  qed simp
qed

lemma modifiedIds_total: "scanning ex xs my n it \<Longrightarrow> modifiedIds (Suc n) it ids \<noteq> None"
proof (induction n arbitrary: it ids)
  case 0
  then show ?case using scanning_zero by simp
next
  case (Suc n)
  show ?case
  proof (cases "it_isValid it")
    case True
    then show ?thesis
      using Suc.IH [OF scanning_step(2) [OF Suc.prems True]]
      by (auto simp del: modifiedIds.simps simp: modifiedIds.simps(2) [of "Suc n"] split: prod.split)
  qed simp
qed

lemma getModified_total:
  "sorted_keys (kv_entries (coll_kv c)) \<Longrightarrow> getModified c \<noteq> None"
  using modifiedIds_total [OF scanning_first] by (simp add: getModified_def scanFuel_def)

subsection \<open>The documents a collection shows\<close>

text \<open>The objects among the documents \<open>js\<close>, each with its id, in the order of their keys.\<close>

definition shownDocs :: "qt \<Rightarrow> (bytes \<rightharpoonup> bytes) \<Rightarrow> 8 word \<Rightarrow> bytes list \<Rightarrow> (json \<times> bytes) list" where
  "shownDocs Q m my js = filter (\<lambda>(d, i). isObject d) (map (\<lambda>i. (docAt Q m my i, i)) js)"

lemma shownDocs_Cons:
  "shownDocs Q m my (i # js) =
     (if isObject (docAt Q m my i) then [(docAt Q m my i, i)] else []) @ shownDocs Q m my js"
  by (simp add: shownDocs_def)

lemma shownDocs_cong:
  "(\<And>i. i \<in> set js \<Longrightarrow> docAt Q m my i = docAt Q m' my i) \<Longrightarrow> shownDocs Q m my js = shownDocs Q m' my js"
  by (induction js) (simp_all add: shownDocs_Cons shownDocs_def)

lemma isValid_it_value: "it_prefix (fst (it_value Q u it)) = it_prefix it"
  by (simp add: it_value_def Let_def split: prod.split)

lemma key_it_value [simp]: "it_key (fst (it_value Q u it)) = it_key it"
  by (simp add: it_key_def isValid_it_value)

lemma key_it_modified [simp]: "it_key (fst (it_isModifiedLater it)) = it_key it"
  by (simp add: it_key_def it_isModifiedLater_def Let_def split: prod.split)

lemma findLoop_shown:
  assumes "sorted_keys xs" "wf_query (JObj query)"
    and "it_at ex xs my ys it" "doc_store js (map_of ys)" "sorted_keys ys" "length js < fuel"
  shows "findLoop Q u query fuel it reply =
    Some (success, reply @ filter (\<lambda>(d, i). matches Q (JObj query) d) (shownDocs Q (map_of ys) my js))"
  using assms(3-)
proof (induction js arbitrary: ys it reply fuel)
  case Nil
  then show ?case using it_at_end by (cases fuel) (auto simp: shownDocs_def)
next
  case (Cons i js)
  obtain f where f: "fuel = Suc f" "length js < f" using Cons.prems(4) by (cases fuel) auto
  note st = it_step [OF assms(1) Cons.prems(1,2)]
  obtain it' sid nl nk ys' where v: "it_value Q 0 it = (it', docAt Q (map_of ys) my i, sid, nl, nk)"
    and it': "it_at ex xs my ys' (it_next it')" "sorted_keys ys'" "doc_store js (map_of ys')"
    and eq: "\<forall>j \<in> set js. docAt Q (map_of ys') my j = docAt Q (map_of ys) my j"
    using st(3) by blast
  have "it_key it' = i" using st(2) v key_it_value [of Q 0 it] by simp
  moreover have "shownDocs Q (map_of ys') my js = shownDocs Q (map_of ys) my js"
    using eq by (intro shownDocs_cong) simp
  moreover have "checkValidR Q u (JObj query) d [] True = (success, matches Q (JObj query) d)" for d
    by (rule checkValidR_matches [OF assms(2)])
  ultimately show ?case
    using f v st(1) Cons.IH [OF it'(1,3,2) f(2)]
    by (simp del: checkValidR_object matches.simps add: shownDocs_Cons)
qed

lemma doc_store_length:
  assumes "doc_store js (map_of ys)"
  shows "length js \<le> length ys"
proof -
  have "sorted_wrt (<) (map constructDocumentStartKey js)"
    using assms by (simp add: doc_store_def sorted_wrt_map)
  then have "distinct (map constructDocumentStartKey js)" by (metis strict_sorted_iff)
  then have "length js = card (set (map constructDocumentStartKey js))"
    using distinct_card by fastforce
  also have "set (map constructDocumentStartKey js) \<subseteq> fst ` set ys"
    using assms by (auto simp: doc_store_def map_of_eq_None_iff)
  then have "card (set (map constructDocumentStartKey js)) \<le> card (fst ` set ys)"
    by (simp add: card_mono)
  also have "\<dots> \<le> length ys" by (metis card_image_le card_length finite_set le_trans)
  finally show ?thesis .
qed

text \<open>A query that neither \<open>_id\<close> nor an index answers is answered by the full search.\<close>

definition fullSearch :: "(string \<times> string) list \<Rightarrow> jobject \<Rightarrow> bool" where
  "fullSearch indexes query \<longleftrightarrow>
     (\<forall>(k, v) \<in> set query. k \<noteq> ''_id'' \<and> (isArray v \<or> isObject v \<or> \<not> smap_has k indexes))"

lemma findLinks_fullSearch:
  "fullSearch indexes query \<Longrightarrow> findLinks Q c indexes query fs lks = Some (success, fs, lks)"
  by (induction query) (auto simp: fullSearch_def split: option.split)

lemma coll_find_fullSearch:
  assumes "fullSearch (getIndexes Q c) query"
  shows "coll_find Q u c query options =
    (case findLoop Q u query (scanFuel (coll_kv c)) (it_seekToFirst (newIterator (coll_kv c) (coll_snapshotId c))) [] of
       None \<Rightarrow> None
     | Some (r, reply) \<Rightarrow> Some (r, if r = success then applyOptions Q options reply else reply))"
  using assms by (simp add: coll_find_def findLinks_fullSearch split: option.split rcode.split prod.split)

lemma find_shown:
  assumes "sorted_keys (kv_entries (coll_kv c))" "doc_store js (map_of (kv_entries (coll_kv c)))"
    and "wf_query (JObj query)" "fullSearch (getIndexes Q c) query"
  shows "coll_find Q u c query options = Some (success, applyOptions Q options
    (filter (\<lambda>(d, i). matches Q (JObj query) d)
      (shownDocs Q (map_of (kv_entries (coll_kv c))) (coll_snapshotId c) js)))"
proof -
  have "length js < scanFuel (coll_kv c)"
    using doc_store_length [OF assms(2)] by (simp add: scanFuel_def)
  then show ?thesis
    using findLoop_shown [OF assms(1,3) it_at_first assms(2,1)] coll_find_fullSearch [OF assms(4)]
    by simp
qed

lemma find_total:
  assumes "sorted_keys (kv_entries (coll_kv c))" "fullSearch (getIndexes Q c) query"
  shows "coll_find Q u c query options \<noteq> None"
  using findLoop_total [OF scanning_first [OF assms(1)]]
  unfolding coll_find_fullSearch [OF assms(2)] scanFuel_def
  by (auto simp del: findLoop.simps split: option.split)

text \<open>\<open>getModified\<close>: the documents that have a version after the snapshot, as a signed byte.\<close>

definition modifiedAfter :: "(bytes \<rightharpoonup> bytes) \<Rightarrow> 8 word \<Rightarrow> bytes \<Rightarrow> bool" where
  "modifiedAfter m my i \<longleftrightarrow>
     (\<exists>s. m (constructDocumentLinkKey i s) \<noteq> None \<and> sint s > int (unat my))"

lemma modifiedIds_shown:
  assumes "sorted_keys xs"
    and "it_at ex xs my ys it" "doc_store js (map_of ys)" "sorted_keys ys" "length js < fuel"
  shows "modifiedIds fuel it ids = Some (ids @ filter (modifiedAfter (map_of ys) my) js)"
  using assms(2-)
proof (induction js arbitrary: ys it ids fuel)
  case Nil
  then show ?case using it_at_end by (cases fuel) auto
next
  case (Cons i js)
  obtain f where f: "fuel = Suc f" "length js < f" using Cons.prems(4) by (cases fuel) auto
  note st = it_step [OF assms(1) Cons.prems(1,2)]
  obtain it' ys' where v: "it_isModifiedLater it = (it', modifiedAfter (map_of ys) my i)"
    and it': "it_at ex xs my ys' (it_next it')" "sorted_keys ys'" "doc_store js (map_of ys')"
    and eq: "\<forall>j \<in> set js. \<forall>s. map_of ys' (constructDocumentLinkKey j s) = map_of ys (constructDocumentLinkKey j s)"
    using st(4) by (auto simp: modifiedAfter_def not_le)
  have "it_key it' = i" using st(2) v key_it_modified [of it] by simp
  moreover have "filter (modifiedAfter (map_of ys') my) js = filter (modifiedAfter (map_of ys) my) js"
    using eq by (intro filter_cong) (simp_all add: modifiedAfter_def)
  ultimately show ?case
    using f v st(1) Cons.IH [OF it'(1,3,2) f(2)] by simp
qed

lemma getModified_shown:
  assumes "sorted_keys (kv_entries (coll_kv c))" "doc_store js (map_of (kv_entries (coll_kv c)))"
  shows "getModified c = Some (filter (modifiedAfter (map_of (kv_entries (coll_kv c))) (coll_snapshotId c)) js)"
proof -
  have "length js < scanFuel (coll_kv c)"
    using doc_store_length [OF assms(2)] by (simp add: scanFuel_def)
  then show ?thesis
    using modifiedIds_shown [OF assms(1) it_at_first assms(2,1)] by (simp add: getModified_def)
qed

subsection \<open>The index path\<close>

text \<open>
  The answer for link keys is the list of their documents that match, in the order of the
  link keys; the options of the query are not applied.
\<close>

lemma checkLinks_matches:
  assumes "wf_query (JObj query)"
  shows "checkLinks Q u c query linkKeys reply =
    (success, reply @ filter (\<lambda>(d, lk). isObject d \<and> matches Q (JObj query) d)
       (map (\<lambda>lk. (getJsonValueByLinkKey Q c lk, lk)) linkKeys))"
  using checkValidR_matches [OF assms, of Q u]
  by (induction linkKeys arbitrary: reply) (simp_all del: checkValidR_object matches.simps add: Let_def)

lemma findLinks_id:
  assumes "\<forall>(k, v) \<in> set query. \<not> smap_has k (getIndexes Q c)"
  shows "findLinks Q c (getIndexes Q c) query fs lks =
    Some (success, fs \<and> \<not> smap_has ''_id'' query,
      lks @ concat (map (\<lambda>(k, v). if k = ''_id'' then idLinkKeys Q c v else []) query))"
  using assms by (induction query arbitrary: fs lks) (auto split: option.split)

end
