(* ===== verification/QDocTransaction.thy ===== *)
theory QDocTransaction
  imports QDocFind
begin

text \<open>
  \<open>QDocCollectionTransaction\<close> (qdoccollection.h, qdoccollection.cpp). A transaction is a
  \<open>coll\<close> whose key-value object is a transaction on that of the collection it was made
  from, with a copy of the collection's observers. Every operation returns its code and
  the transaction after it; the shared identifier generator is threaded through \<open>insert\<close>.
\<close>

subsection \<open>Writing\<close>

text \<open>The common tail of the writing operations: a failed write sets the error and errorDatabase.\<close>

definition db_result :: "kv \<times> kvstatus \<Rightarrow> coll \<Rightarrow> rcode \<times> coll" where
  "db_result res c =
     (case res of
        (k, None) \<Rightarrow> (success, c\<lparr>coll_kv := k\<rparr>)
      | (k, Some (code, msg)) \<Rightarrow> (errorDatabase, c\<lparr>coll_kv := k, coll_lastError := msg\<rparr>))"

definition tx_putValue :: "bytes \<Rightarrow> bytes \<Rightarrow> coll \<Rightarrow> rcode \<times> coll" where
  "tx_putValue key val c = db_result (putValue key val (coll_kv c)) c"

definition tx_deleteValue :: "bytes \<Rightarrow> coll \<Rightarrow> rcode \<times> coll" where
  "tx_deleteValue key c = db_result (deleteValue key (coll_kv c)) c"

definition putIndexes :: "qt \<Rightarrow> (string \<times> string) list \<Rightarrow> coll \<Rightarrow> rcode \<times> coll" where
  "putIndexes Q indexes c = tx_putValue ''in:'' (marshalIndexes Q indexes) c"

definition putJsonValue :: "qt \<Rightarrow> bytes \<Rightarrow> json \<Rightarrow> coll \<Rightarrow> rcode \<times> coll" where
  "putJsonValue Q i jsonValue c =
     (case tx_putValue (constructDocumentStartKey i) [] c of
        (success, c') \<Rightarrow> tx_putValue (constructDocumentLinkKey i (coll_snapshotId c)) (marshal Q jsonValue) c'
      | (r, c') \<Rightarrow> (r, c'))"

definition putSnapshotsValue :: "qt \<Rightarrow> string list \<Rightarrow> coll \<Rightarrow> rcode \<times> coll" where
  "putSnapshotsValue Q snapshots c = tx_putValue ''s:'' (marshalSnapshotsValue Q snapshots) c"

subsection \<open>Indexes\<close>

definition readIndexValue :: "qt \<Rightarrow> coll \<Rightarrow> bytes \<Rightarrow> bytes list" where
  "readIndexValue Q c ivkey =
     unmarshalIndexValue Q (case getValue (coll_kv c) ivkey of Inl _ \<Rightarrow> [] | Inr d \<Rightarrow> d)"

definition addIndexValue :: "qt \<Rightarrow> string \<Rightarrow> json \<Rightarrow> bytes \<Rightarrow> coll \<Rightarrow> rcode \<times> coll" where
  "addIndexValue Q indexName jsonValue i c =
     (let ivkey = constructIndexValueKeyJ Q indexName (coll_snapshotId c) jsonValue;
          linkKeys = readIndexValue Q c ivkey;
          linkKey = constructDocumentLinkKey i (coll_snapshotId c)
      in if linkKey \<in> set linkKeys then (success, c)
         else tx_putValue ivkey (marshalIndexValue Q (linkKeys @ [linkKey])) c)"

fun addIndexValueIds :: "qt \<Rightarrow> string \<Rightarrow> json \<Rightarrow> bytes list \<Rightarrow> coll \<Rightarrow> rcode \<times> coll" where
  "addIndexValueIds Q indexName jsonValue [] c = (success, c)"
| "addIndexValueIds Q indexName jsonValue (i # ids) c =
     (case addIndexValue Q indexName jsonValue i c of
        (success, c') \<Rightarrow> addIndexValueIds Q indexName jsonValue ids c'
      | (r, c') \<Rightarrow> (r, c'))"

definition removeIndexValue :: "qt \<Rightarrow> string \<Rightarrow> json \<Rightarrow> bytes \<Rightarrow> coll \<Rightarrow> rcode \<times> coll" where
  "removeIndexValue Q indexName jsonValue linkKey c =
     (let ivkey = constructIndexValueKeyJ Q indexName (coll_snapshotId c) jsonValue
      in case getValue (coll_kv c) ivkey of
           Inl msg \<Rightarrow> (errorDatabase, c\<lparr>coll_lastError := msg\<rparr>)
         | Inr linkKeysData \<Rightarrow>
             let linkKeys = unmarshalIndexValue Q linkKeysData
             in if linkKey \<notin> set linkKeys then (success, c)
                else let linkKeys' = removeAll linkKey linkKeys
                     in if linkKeys' \<noteq> [] then tx_putValue ivkey (marshalIndexValue Q linkKeys') c
                        else tx_deleteValue ivkey c)"

text \<open>The scan of \<open>createIndex\<close> runs over the committed documents.\<close>

fun createIndexLoop :: "qt \<Rightarrow> string \<Rightarrow> string \<Rightarrow> nat \<Rightarrow> dociter \<Rightarrow> coll \<Rightarrow> (rcode \<times> coll) option" where
  "createIndexLoop Q fieldName indexName 0 it c = None"
| "createIndexLoop Q fieldName indexName (Suc fuel) it c =
     (if \<not> it_isValid it then Some (success, c)
      else let (it', val, _) = it_value Q 0 it
      in if isObject val then
           case addIndexValue Q indexName (getJsonValueByPath Q val fieldName) (it_key it') c of
             (success, c') \<Rightarrow> createIndexLoop Q fieldName indexName fuel (it_next it') c'
           | (r, c') \<Rightarrow> Some (r, c')
         else createIndexLoop Q fieldName indexName fuel (it_next it') c)"

definition createIndex :: "qt \<Rightarrow> string \<Rightarrow> string \<Rightarrow> coll \<Rightarrow> (rcode \<times> coll) option" where
  "createIndex Q fieldName indexName c =
     (let indexes = getIndexes Q c
      in if smap_has fieldName indexes then Some (success, c)
         else case tx_putValue (constructIndexValueKey Q indexName (coll_snapshotId c) []) [] c of
           (success, c1) \<Rightarrow>
             (case createIndexLoop Q fieldName indexName (scanFuel (coll_kv c1))
                     (it_seekToFirst (newIterator (coll_kv c1) (coll_snapshotId c1))) c1 of
                Some (success, c2) \<Rightarrow> Some (putIndexes Q (smap_put fieldName indexName indexes) c2)
              | res \<Rightarrow> res)
         | (r, c1) \<Rightarrow> Some (r, c1))"

text \<open>
  \<open>copyIndexValues\<close> for the entries of the iterator that lie ahead. Writing to the
  transaction does not change what the iterator delivers.
\<close>

fun copyIndexLoop :: "bytes \<Rightarrow> bytes \<Rightarrow> store \<Rightarrow> coll \<Rightarrow> rcode \<times> coll" where
  "copyIndexLoop srcStartKey dstStartKey [] c = (success, c)"
| "copyIndexLoop srcStartKey dstStartKey ((key, val) # rest) c =
     (if hasPrefix srcStartKey key then
        case tx_putValue (dstStartKey @ drop (length srcStartKey) key) val c of
          (success, c') \<Rightarrow> copyIndexLoop srcStartKey dstStartKey rest c'
        | (r, c') \<Rightarrow> (r, c')
      else (success, c))"

fun copyIndexNames :: "qt \<Rightarrow> 8 word \<Rightarrow> 8 word \<Rightarrow> string list \<Rightarrow> coll \<Rightarrow> rcode \<times> coll" where
  "copyIndexNames Q dst src [] c = (success, c)"
| "copyIndexNames Q dst src (indexName # names) c =
     (let srcStartKey = constructIndexValueStartKey Q indexName src;
          dstStartKey = constructIndexValueStartKey Q indexName dst
      in case copyIndexLoop srcStartKey dstStartKey
                (ki_rest (ki_seek srcStartKey (kv_newIterator (coll_kv c)))) c of
           (success, c') \<Rightarrow> copyIndexNames Q dst src names c'
         | (r, c') \<Rightarrow> (r, c'))"

text \<open>The index names in the order of \<open>keys()\<close> of the index hash.\<close>

definition indexFields :: "qt \<Rightarrow> coll \<Rightarrow> (string \<times> string) list" where
  "indexFields Q c =
     (let indexes = getIndexes Q c
      in map (\<lambda>f. (f, case map_of indexes f of Some n \<Rightarrow> n | None \<Rightarrow> [])) (stringHashKeys Q (map fst indexes)))"

definition copyIndexValues :: "qt \<Rightarrow> 8 word \<Rightarrow> 8 word \<Rightarrow> coll \<Rightarrow> rcode \<times> coll" where
  "copyIndexValues Q dstSnapshotId srcSnapshotId c =
     copyIndexNames Q dstSnapshotId srcSnapshotId (map snd (indexFields Q c)) c"

fun addIndexFields :: "qt \<Rightarrow> json \<Rightarrow> bytes \<Rightarrow> (string \<times> string) list \<Rightarrow> coll \<Rightarrow> rcode \<times> coll" where
  "addIndexFields Q doc i [] c = (success, c)"
| "addIndexFields Q doc i ((fieldName, indexName) # fs) c =
     (case addIndexValue Q indexName (getJsonValueByPath Q doc fieldName) i c of
        (success, c') \<Rightarrow> addIndexFields Q doc i fs c'
      | (r, c') \<Rightarrow> (r, c'))"

fun removeIndexElements :: "qt \<Rightarrow> string \<Rightarrow> json list \<Rightarrow> bytes \<Rightarrow> coll \<Rightarrow> rcode \<times> coll" where
  "removeIndexElements Q indexName [] linkKey c = (success, c)"
| "removeIndexElements Q indexName (v # vs) linkKey c =
     (case removeIndexValue Q indexName v linkKey c of
        (success, c') \<Rightarrow> removeIndexElements Q indexName vs linkKey c'
      | (r, c') \<Rightarrow> (errorDatabase, c'))"

fun removeIndexFields :: "qt \<Rightarrow> json \<Rightarrow> bytes \<Rightarrow> (string \<times> string) list \<Rightarrow> coll \<Rightarrow> rcode \<times> coll" where
  "removeIndexFields Q doc linkKey [] c = (success, c)"
| "removeIndexFields Q doc linkKey ((fieldName, indexName) # fs) c =
     (let jsonValue = getJsonValueByPath Q doc fieldName;
          vs = (if isArray jsonValue then toArray jsonValue else [jsonValue])
      in case removeIndexElements Q indexName vs linkKey c of
           (success, c') \<Rightarrow> removeIndexFields Q doc linkKey fs c'
         | (r, c') \<Rightarrow> (errorDatabase, c'))"

subsection \<open>insert\<close>

definition isReadOnlyDoc :: "qt \<Rightarrow> config \<Rightarrow> json \<Rightarrow> bool" where
  "isReadOnlyDoc Q cfg d =
     (let readOnlyValue = getJsonValueByPath Q d (readOnlyKey cfg)
      in readOnlyValue \<noteq> JUndefined \<and> (toBool readOnlyValue \<or> toInt readOnlyValue = 1))"

definition idOf :: "json \<Rightarrow> json" where
  "idOf d = obj_value (toObject d) ''_id''"

fun replaceDoc :: "json \<Rightarrow> json list \<Rightarrow> json list" where
  "replaceDoc doc [] = []"
| "replaceDoc doc (d # reply) = (if idOf doc = idOf d then doc # reply else d # replaceDoc doc reply)"

fun eraseDoc :: "json \<Rightarrow> json list \<Rightarrow> json list option" where
  "eraseDoc doc [] = None"
| "eraseDoc doc (d # reply) =
     (if idOf doc = idOf d then Some reply else map_option ((#) d) (eraseDoc doc reply))"

text \<open>\<open>applyOptions\<close> with no list of ids.\<close>

definition applyOptionsReply :: "qt \<Rightarrow> jobject \<Rightarrow> json list \<Rightarrow> json list" where
  "applyOptionsReply Q options reply = map fst (applyOptions Q options (map (\<lambda>d. (d, ())) reply))"

definition observeInsert :: "qt \<Rightarrow> bool \<Rightarrow> json \<Rightarrow> bool \<Rightarrow> observer \<Rightarrow> observer" where
  "observeInsert Q u doc exists ob =
     (case checkValidR Q u (JObj (ob_query ob)) doc [] False of
        (success, True) \<Rightarrow>
          ob\<lparr>ob_reply := applyOptionsReply Q (ob_queryOptions ob)
               (if \<not> exists then ob_reply ob @ [doc] else replaceDoc doc (ob_reply ob))\<rparr>
      | _ \<Rightarrow> ob)"

definition observeRemove :: "qt \<Rightarrow> bool \<Rightarrow> json \<Rightarrow> observer \<Rightarrow> observer" where
  "observeRemove Q u doc ob =
     (case checkValidR Q u (JObj (ob_query ob)) doc [] False of
        (success, True) \<Rightarrow>
          (case eraseDoc doc (ob_reply ob) of
             Some reply \<Rightarrow> ob\<lparr>ob_reply := applyOptionsReply Q (ob_queryOptions ob) reply\<rparr>
           | None \<Rightarrow> ob)
      | _ \<Rightarrow> ob)"

text \<open>
  The first part of \<open>insert\<close>: the document with its \<open>_id\<close>, and the id. A document without
  \<open>_id\<close> gets a generated one.
\<close>

definition insertId :: "env \<Rightarrow> idgen \<Rightarrow> jobject \<Rightarrow> (jobject \<times> bytes \<times> idgen) option" where
  "insertId e g doc =
     (case map_of doc ''_id'' of
        None \<Rightarrow> let (i, g') = getId e g in Some (obj_insert ''_id'' (JStr i) doc, i, g')
      | Some v \<Rightarrow> if isString v then Some (doc, toString v, g) else None)"

text \<open>The last part: the document is written, indexed, and shown to the observers.\<close>

definition insertDoc :: "qt \<Rightarrow> bool \<Rightarrow> json \<Rightarrow> bytes \<Rightarrow> bool \<Rightarrow> coll \<Rightarrow> rcode \<times> coll" where
  "insertDoc Q u doc i exists c =
     (case putJsonValue Q i doc c of
        (success, c1) \<Rightarrow>
          (case addIndexFields Q doc i (indexFields Q c1) c1 of
             (success, c2) \<Rightarrow>
               (success, c2\<lparr>coll_observers := map (apsnd (observeInsert Q u doc exists)) (coll_observers c2)\<rparr>)
           | (r, c2) \<Rightarrow> (r, c2))
      | (r, c1) \<Rightarrow> (r, c1))"

definition addUUID :: "env \<Rightarrow> config \<Rightarrow> bool \<Rightarrow> jobject \<Rightarrow> jobject" where
  "addUUID e cfg exists doc =
     (if \<not> exists \<and> UUIDPathValid cfg \<and> \<not> smap_has (UUIDPath cfg) doc
      then obj_insert (UUIDPath cfg) (JStr (getUUID e)) doc else doc)"

text \<open>\<open>i0\<close> is the value of the reference parameter \<open>id\<close> before the call.\<close>

definition tx_insert :: "qt \<Rightarrow> bool \<Rightarrow> config \<Rightarrow> env \<Rightarrow> jobject \<Rightarrow> bytes \<Rightarrow> bool \<Rightarrow> bool \<Rightarrow> idgen \<Rightarrow> coll
    \<Rightarrow> rcode \<times> bytes \<times> idgen \<times> coll" where
  "tx_insert Q u cfg e doc0 i0 overwrite ignoreReadOnlyValue g c =
     (case insertId e g doc0 of
        None \<Rightarrow> (errorInvalidObject, i0, g, c\<lparr>coll_lastError := ''_id value is not string''\<rparr>)
      | Some (doc, i, g') \<Rightarrow>
          let docOld = getJsonValue Q (coll_kv c) (coll_snapshotId c) i;
              exists = (docOld \<noteq> JUndefined)
          in if exists \<and> \<not> overwrite then (errorAlreadyExists, i, g', c)
             else if exists \<and> readOnlyKeyValid cfg \<and> \<not> ignoreReadOnlyValue \<and> isReadOnlyDoc Q cfg docOld
             then (errorObjectIsReadOnly, i, g', c)
             else let (r, c') = insertDoc Q u (JObj (addUUID e cfg exists doc)) i exists c
                  in (r, i, g', c'))"

subsection \<open>removeById and remove\<close>

text \<open>\<open>removeById\<close> returns a code of QDocKVInterface as it is in one place: the code with that number.\<close>

fun rcode_of_kv :: "kvcode \<Rightarrow> rcode" where
  "rcode_of_kv errorIsNotTransaction = errorQuery"
| "rcode_of_kv errorOperation = errorInvalidObject"
| "rcode_of_kv errorWriteTransaction = errorTransaction"

definition removeVersion :: "qt \<Rightarrow> bytes \<Rightarrow> 8 word \<Rightarrow> bool \<Rightarrow> coll \<Rightarrow> rcode \<times> coll" where
  "removeVersion Q i snapshotId isNaked c =
     (let linkKey = constructDocumentLinkKey i (coll_snapshotId c)
      in if snapshotId \<noteq> coll_snapshotId c \<or> \<not> isNaked then
           (case putValue linkKey (marshal Q JUndefined) (coll_kv c) of
              (k, None) \<Rightarrow> (success, c\<lparr>coll_kv := k\<rparr>)
            | (k, Some (code, msg)) \<Rightarrow> (rcode_of_kv code, c\<lparr>coll_kv := k\<rparr>))
         else (case tx_deleteValue linkKey c of
              (success, c') \<Rightarrow> tx_deleteValue (constructDocumentStartKey i) c'
            | (r, c') \<Rightarrow> (r, c')))"

text \<open>\<open>u0\<close> is the value of the local \<open>snapshotId\<close> before \<open>getJsonValue\<close>.\<close>

definition removeById :: "qt \<Rightarrow> bool \<Rightarrow> 8 word \<Rightarrow> config \<Rightarrow> bytes \<Rightarrow> bool \<Rightarrow> coll \<Rightarrow> rcode \<times> coll" where
  "removeById Q u u0 cfg i ignoreReadOnlyValue c =
     (let (jsonValue, snapshotId, isNotModifiedLater, isNaked) =
            getJsonValueFull Q (coll_kv c) (coll_snapshotId c) i u0
      in if \<not> isObject jsonValue then (errorDatabase, c\<lparr>coll_lastError := ''value is not object''\<rparr>)
         else if readOnlyKeyValid cfg \<and> \<not> ignoreReadOnlyValue \<and> isReadOnlyDoc Q cfg jsonValue
         then (errorObjectIsReadOnly, c)
         else case removeVersion Q i snapshotId isNaked c of
           (success, c1) \<Rightarrow>
             (case removeIndexFields Q jsonValue (constructDocumentLinkKey i snapshotId) (indexFields Q c1) c1 of
                (success, c2) \<Rightarrow>
                  (success, c2\<lparr>coll_observers := map (apsnd (observeRemove Q u jsonValue)) (coll_observers c2)\<rparr>)
              | (r, c2) \<Rightarrow> (r, c2))
         | (r, c1) \<Rightarrow> (r, c1))"

fun removeIds :: "qt \<Rightarrow> bool \<Rightarrow> 8 word \<Rightarrow> config \<Rightarrow> bytes list \<Rightarrow> coll \<Rightarrow> rcode \<times> coll" where
  "removeIds Q u u0 cfg [] c = (success, c)"
| "removeIds Q u u0 cfg (i # ids) c =
     (case removeById Q u u0 cfg i False c of
        (success, c') \<Rightarrow> removeIds Q u u0 cfg ids c'
      | (r, c') \<Rightarrow> (r, c'))"

definition tx_remove :: "qt \<Rightarrow> bool \<Rightarrow> 8 word \<Rightarrow> config \<Rightarrow> jobject \<Rightarrow> coll \<Rightarrow> (rcode \<times> coll) option" where
  "tx_remove Q u u0 cfg query c =
     (case coll_find Q u c query [] of
        None \<Rightarrow> None
      | Some (success, reply) \<Rightarrow> Some (removeIds Q u u0 cfg (map snd reply) c)
      | Some (r, reply) \<Rightarrow> Some (r, c))"

subsection \<open>set\<close>

fun setLoop :: "qt \<Rightarrow> bool \<Rightarrow> config \<Rightarrow> env \<Rightarrow> jobject \<Rightarrow> json list \<Rightarrow> json list \<Rightarrow> bytes list \<Rightarrow> idgen \<Rightarrow> coll
    \<Rightarrow> rcode \<times> bytes list \<times> idgen \<times> coll" where
  "setLoop Q u cfg e query reply [] ids g c = (success, ids, g, c)"
| "setLoop Q u cfg e query reply (doc # docs) ids g c =
     (if \<not> isObject doc then setLoop Q u cfg e query reply docs ids g c
      else if doc \<in> set reply then
        setLoop Q u cfg e query reply docs (removeAll (docId doc) ids) g c
      else case checkValidR Q u (JObj query) doc [] False of
        (success, True) \<Rightarrow>
          (case tx_insert Q u cfg e (toObject doc) [] True False g c of
             (success, i, g', c') \<Rightarrow> setLoop Q u cfg e query reply docs (removeAll i ids) g' c'
           | (r, i, g', c') \<Rightarrow> (r, ids, g', c'))
      | (success, False) \<Rightarrow> setLoop Q u cfg e query reply docs (removeAll [] ids) g c
      | (r, valid) \<Rightarrow> (r, ids, g, c))"

definition tx_set :: "qt \<Rightarrow> bool \<Rightarrow> 8 word \<Rightarrow> config \<Rightarrow> env \<Rightarrow> jobject \<Rightarrow> json list \<Rightarrow> idgen \<Rightarrow> coll
    \<Rightarrow> (rcode \<times> idgen \<times> coll) option" where
  "tx_set Q u u0 cfg e query docs g c =
     (case coll_find Q u c query [] of
        None \<Rightarrow> None
      | Some (_, reply) \<Rightarrow>
          Some (case setLoop Q u cfg e query (map fst reply) docs (map snd reply) g c of
             (success, ids, g', c') \<Rightarrow> let (r, c'') = removeIds Q u u0 cfg ids c' in (r, g', c'')
           | (r, ids, g', c') \<Rightarrow> (r, g', c')))"

subsection \<open>writeTransaction\<close>

definition commitObserver :: "(int \<times> observer) list \<Rightarrow> int \<Rightarrow> (int \<times> observer) list \<Rightarrow> (int \<times> observer) list" where
  "commitObserver own i base =
     (let ob = observer_at i base; reply = ob_reply (observer_at i own)
      in smap_put i (if ob_reply ob \<noteq> reply then ob\<lparr>ob_reply := reply, ob_triggered := True\<rparr> else ob) base)"

text \<open>
  The transaction writes to the database of its parent collection, updates the parent's
  observers and lets the parent emit. A failed write leaves the parent's database as the
  key-value layer left it.
\<close>

definition tx_writeTransaction :: "qt \<Rightarrow> coll \<Rightarrow> coll \<Rightarrow> rcode \<times> coll \<times> coll \<times> observe_signal list" where
  "tx_writeTransaction Q c parent =
     (case kv_writeTransaction Q (coll_kv c) of
        (k, Some (code, msg)) \<Rightarrow>
          (errorTransaction, c\<lparr>coll_kv := k, coll_lastError := msg\<rparr>, parent\<lparr>coll_kv := kv_base k\<rparr>, [])
      | (k, None) \<Rightarrow>
          let obs = fold (commitObserver (coll_observers c))
                      (intHashKeys Q (map fst (coll_observers c))) (coll_observers parent);
              (parent', signals) = emitObservers Q (parent\<lparr>coll_kv := kv_base k, coll_observers := obs\<rparr>)
          in (success, c\<lparr>coll_kv := k\<rparr>, parent', signals))"

text \<open>
  A transaction points to the database of its parent. The model keeps a copy, which is
  brought up to date before an operation of a transaction that another one may have
  committed past.
\<close>

fun kv_rebase :: "kv \<Rightarrow> kv \<Rightarrow> kv" where
  "kv_rebase (KVMap db) (KVMapTransaction _ tx) = KVMapTransaction db tx"
| "kv_rebase (KVLevelDB db) (KVLevelDBTransaction _ tx) = KVLevelDBTransaction db tx"
| "kv_rebase _ k = k"

definition tx_sync :: "coll \<Rightarrow> coll \<Rightarrow> coll" where
  "tx_sync parent c = c\<lparr>coll_kv := kv_rebase (coll_kv parent) (coll_kv c)\<rparr>"

subsection \<open>Opening a collection\<close>

text \<open>
  The constructor on a directory, with the key-value object it made, and \<open>open\<close>. A new
  database gets the snapshot list with the current version alone.
\<close>

definition QDocCollection_dir :: "qt \<Rightarrow> kv \<Rightarrow> string \<Rightarrow> coll" where
  "QDocCollection_dir Q k collectionDir =
     (let c0 = QDocCollection_kv k collectionDir typeCollection
      in if \<not> coll_isOpened c0 then c0
         else case coll_newTransaction c0 of
           None \<Rightarrow> c0
         | Some t \<Rightarrow>
             (case getLastSnapshotId Q c0 of
                (Inr sid, c1) \<Rightarrow> fst (snd (snd (tx_writeTransaction Q t (c1\<lparr>coll_snapshotId := sid\<rparr>))))
              | (Inl r, c1) \<Rightarrow>
                  let t' = snd (putSnapshotsValue Q [''__CURRENT''] t)
                  in fst (snd (snd (tx_writeTransaction Q t' (c1\<lparr>coll_snapshotId := 0\<rparr>))))))"

definition coll_open :: "qt \<Rightarrow> kv \<Rightarrow> string \<Rightarrow> coll option" where
  "coll_open Q k collectionDir =
     (let c = QDocCollection_dir Q k collectionDir in if coll_isOpened c then Some c else None)"

end
