(* ===== verification/QDocTransactionLaws.thy ===== *)
theory QDocTransactionLaws
  imports QDocTransaction
begin

text \<open>
  What the operations of a transaction write: each is a sequence of writes to the buffered
  key-value object and nothing else, so the laws of the key-value interface give the
  content a commit leaves in the database.
\<close>

subsection \<open>Sequences of writes\<close>

fun op_key :: "batch_op \<Rightarrow> bytes" where
  "op_key (BatchPut k v) = k"
| "op_key (BatchDelete k) = k"

fun is_put :: "batch_op \<Rightarrow> bool" where
  "is_put (BatchPut k v) = True"
| "is_put (BatchDelete k) = False"

definition tx_ops :: "(batch_op \<Rightarrow> bool) \<Rightarrow> coll \<Rightarrow> coll \<Rightarrow> bool" where
  "tx_ops P c c' \<longleftrightarrow> (\<exists>ops. (\<forall>op \<in> set ops. P op) \<and> c' = c\<lparr>coll_kv := fold kv_op ops (coll_kv c)\<rparr>)"

lemma tx_ops_refl [simp]: "tx_ops P c c"
  unfolding tx_ops_def by (rule exI [of _ "[]"]) simp

lemma tx_ops_trans [trans]: "tx_ops P c c' \<Longrightarrow> tx_ops P c' c'' \<Longrightarrow> tx_ops P c c''"
proof -
  assume "tx_ops P c c'" "tx_ops P c' c''"
  then obtain ops ops' where "\<forall>op \<in> set ops. P op" "c' = c\<lparr>coll_kv := fold kv_op ops (coll_kv c)\<rparr>"
    and "\<forall>op \<in> set ops'. P op" "c'' = c'\<lparr>coll_kv := fold kv_op ops' (coll_kv c')\<rparr>"
    unfolding tx_ops_def by blast
  then have "(\<forall>op \<in> set (ops @ ops'). P op) \<and> c'' = c\<lparr>coll_kv := fold kv_op (ops @ ops') (coll_kv c)\<rparr>"
    by auto
  then show ?thesis unfolding tx_ops_def by blast
qed

lemma tx_ops_mono: "tx_ops P c c' \<Longrightarrow> (\<And>op. P op \<Longrightarrow> R op) \<Longrightarrow> tx_ops R c c'"
  unfolding tx_ops_def by blast

lemma tx_ops_one: "P op \<Longrightarrow> tx_ops P c (c\<lparr>coll_kv := kv_op op (coll_kv c)\<rparr>)"
  unfolding tx_ops_def by (rule exI [of _ "[op]"]) simp

lemma kv_is_transaction_ops [simp]: "kv_is_transaction (fold kv_op ops s) = kv_is_transaction s"
  by (induction ops arbitrary: s) (simp_all add: kv_op_def split: batch_op.split)

lemma kv_base_fold: "kv_is_transaction s \<Longrightarrow> kv_base (fold kv_op ops s) = kv_base s"
proof (induction ops arbitrary: s)
  case (Cons op ops)
  then show ?case by (cases op) (simp_all add: kv_op_def kv_base_tx_put kv_base_tx_del)
qed simp

lemma kv_entries_base: "kv_entries (kv_base s) = kv_entries s"
  by (cases s) simp_all

lemma kv_is_map_base: "kv_is_map (kv_base s) = kv_is_map s"
  by (cases s) simp_all

lemma kv_only_puts_fold:
  "kv_only_puts s \<Longrightarrow> (\<forall>op \<in> set ops. is_put op) \<Longrightarrow> kv_only_puts (fold kv_op ops s)"
proof (induction ops arbitrary: s)
  case (Cons op ops)
  then show ?case by (cases op) (simp_all add: kv_op_def)
qed simp

lemma fold_op_map_other: "\<forall>op \<in> set ops. op_key op \<noteq> k \<Longrightarrow> fold op_map ops m k = m k"
proof (induction ops arbitrary: m)
  case (Cons op ops)
  then show ?case by (cases op) auto
qed simp

lemma tx_ops_state:
  assumes "tx_ops P c c'"
  shows "coll_snapshotId c' = coll_snapshotId c" "coll_class c' = coll_class c"
    "coll_observers c' = coll_observers c" "coll_lastError c' = coll_lastError c"
    "kv_is_transaction (coll_kv c') = kv_is_transaction (coll_kv c)"
    "kv_ok (coll_kv c) \<Longrightarrow> kv_ok (coll_kv c')"
  using assms by (auto simp: tx_ops_def kv_ok_ops)

lemma tx_ops_base:
  assumes "tx_ops P c c'" "kv_is_transaction (coll_kv c)"
  shows "kv_base (coll_kv c') = kv_base (coll_kv c)"
  using assms by (auto simp: tx_ops_def kv_base_fold)

lemma tx_ops_entries:
  assumes "tx_ops P c c'" "kv_is_transaction (coll_kv c)"
  shows "kv_entries (coll_kv c') = kv_entries (coll_kv c)" "kv_is_map (coll_kv c') = kv_is_map (coll_kv c)"
  using tx_ops_base [OF assms] by (metis kv_entries_base, metis kv_is_map_base)

lemma tx_ops_read:
  assumes "tx_ops P c c'" "kv_ok (coll_kv c)" "\<And>op. P op \<Longrightarrow> op_key op \<noteq> k"
  shows "kv_read (coll_kv c') k = kv_read (coll_kv c) k"
proof -
  obtain ops where ops: "\<forall>op \<in> set ops. P op" "c' = c\<lparr>coll_kv := fold kv_op ops (coll_kv c)\<rparr>"
    using assms(1) unfolding tx_ops_def by blast
  have "\<forall>op \<in> set ops. op_key op \<noteq> k" using ops(1) assms(3) by blast
  then show ?thesis using ops(2) assms(2) by (simp add: kv_read_ops fold_op_map_other)
qed

lemma tx_ops_puts:
  assumes "tx_ops P c c'" "kv_only_puts (coll_kv c)" "\<And>op. P op \<Longrightarrow> is_put op"
  shows "kv_only_puts (coll_kv c')"
  using assms by (auto simp: tx_ops_def intro!: kv_only_puts_fold)

lemma tx_putValue_tx:
  "kv_is_transaction (coll_kv c) \<Longrightarrow>
   tx_putValue k v c = (success, c\<lparr>coll_kv := kv_op (BatchPut k v) (coll_kv c)\<rparr>)"
  using kv_tx_status(1) [of "coll_kv c" k v]
  by (cases "putValue k v (coll_kv c)") (simp add: tx_putValue_def db_result_def kv_op_def)

lemma tx_deleteValue_tx:
  "kv_is_transaction (coll_kv c) \<Longrightarrow>
   tx_deleteValue k c = (success, c\<lparr>coll_kv := kv_op (BatchDelete k) (coll_kv c)\<rparr>)"
  using kv_tx_status(2) [of "coll_kv c" k]
  by (cases "deleteValue k (coll_kv c)") (simp add: tx_deleteValue_def db_result_def kv_op_def)

subsection \<open>Keys that are not document keys\<close>

text \<open>An index name whose key is in the area of the indexes whatever the local codec.\<close>

definition ascii :: "string \<Rightarrow> bool" where
  "ascii s \<longleftrightarrow> (\<forall>c \<in> set s. (of_char c :: nat) < 128)"

lemma ascii_append [simp]: "ascii (s @ t) \<longleftrightarrow> ascii s \<and> ascii t"
  by (auto simp: ascii_def)

lemma ascii_iv [simp]: "ascii ''iv:''" "ascii '':''"
  by (simp_all add: ascii_def)

lemma local8bit_ascii: "qt_ok Q \<Longrightarrow> ascii s \<Longrightarrow> toLocal8Bit Q s = s"
  by (simp add: ascii_def qt_ok_local8bit)

lemma indexKey_iv:
  assumes "qt_ok Q" "ascii indexName"
  shows "constructIndexValueKey Q indexName s d = ''iv:'' @ indexName @ '':'' @ [byte_chr s] @ '':'' @ d"
  using assms local8bit_ascii [of Q "''iv:'' @ indexName @ '':''"]
  by (simp add: constructIndexValueKey_def constructIndexValueStartKey_def ascii_def)

text \<open>The writes to the index area.\<close>

definition index_op :: "batch_op \<Rightarrow> bool" where
  "index_op op \<longleftrightarrow> take 3 (op_key op) = ''iv:''"

lemma index_op_not_doc: "index_op op \<Longrightarrow> isDocKey k \<Longrightarrow> op_key op \<noteq> k"
  by (auto simp: index_op_def isDocKey_def numeral_3_eq_3 numeral_2_eq_2)
    (cases "op_key op"; auto)

lemma indexKey_area:
  "qt_ok Q \<Longrightarrow> ascii indexName \<Longrightarrow> take 3 (constructIndexValueKeyJ Q indexName s v) = ''iv:''"
  by (simp add: constructIndexValueKeyJ_def indexKey_iv)

lemma addIndexValue_ops:
  assumes "qt_ok Q" "ascii indexName" "kv_is_transaction (coll_kv c)"
  shows "\<exists>c'. addIndexValue Q indexName v i c = (success, c') \<and> tx_ops (\<lambda>op. index_op op \<and> is_put op) c c'"
  using assms indexKey_area [OF assms(1,2)]
  by (auto simp: addIndexValue_def Let_def tx_putValue_tx index_op_def intro!: tx_ops_one)

lemma addIndexFields_ops:
  assumes "qt_ok Q" "\<forall>(f, n) \<in> set fs. ascii n" "kv_is_transaction (coll_kv c)"
  shows "\<exists>c'. addIndexFields Q doc i fs c = (success, c') \<and> tx_ops (\<lambda>op. index_op op \<and> is_put op) c c'"
  using assms(2,3)
proof (induction fs arbitrary: c)
  case (Cons fn fs)
  obtain f n where fn: "fn = (f, n)" by force
  then obtain c1 where c1: "addIndexValue Q n (getJsonValueByPath Q doc f) i c = (success, c1)"
    and o1: "tx_ops (\<lambda>op. index_op op \<and> is_put op) c c1"
    using Cons.prems addIndexValue_ops [OF assms(1), of n c "getJsonValueByPath Q doc f" i] by auto
  obtain c2 where "addIndexFields Q doc i fs c1 = (success, c2)" "tx_ops (\<lambda>op. index_op op \<and> is_put op) c1 c2"
    using Cons.IH [of c1] Cons.prems tx_ops_state(5) [OF o1] by auto
  then show ?case using fn c1 tx_ops_trans [OF o1] by auto
qed simp

lemma removeIndexValue_ops:
  assumes "qt_ok Q" "ascii indexName" "kv_is_transaction (coll_kv c)"
    and "removeIndexValue Q indexName v lk c = (success, c')"
  shows "tx_ops index_op c c'"
  using assms indexKey_area [OF assms(1,2)]
  by (auto simp: removeIndexValue_def Let_def tx_putValue_tx tx_deleteValue_tx index_op_def
      intro!: tx_ops_one split: sum.splits if_splits)

lemma removeIndexElements_ops:
  assumes "qt_ok Q" "ascii indexName" "kv_is_transaction (coll_kv c)"
    and "removeIndexElements Q indexName vs lk c = (success, c')"
  shows "tx_ops index_op c c'"
  using assms(3,4)
proof (induction vs arbitrary: c)
  case (Cons v vs)
  then obtain c1 where c1: "removeIndexValue Q indexName v lk c = (success, c1)"
    "removeIndexElements Q indexName vs lk c1 = (success, c')"
    by (auto split: prod.splits rcode.splits)
  have "tx_ops index_op c c1" by (rule removeIndexValue_ops [OF assms(1,2) Cons.prems(1) c1(1)])
  then show ?case using Cons.IH [of c1] c1(2) Cons.prems(1) tx_ops_state(5) tx_ops_trans by metis
qed simp

lemma removeIndexFields_ops:
  assumes "qt_ok Q" "\<forall>(f, n) \<in> set fs. ascii n" "kv_is_transaction (coll_kv c)"
    and "removeIndexFields Q doc lk fs c = (success, c')"
  shows "tx_ops index_op c c'"
  using assms(2-)
proof (induction fs arbitrary: c)
  case (Cons fn fs)
  obtain f n where fn: "fn = (f, n)" by force
  obtain c1 where c1: "tx_ops index_op c c1" "removeIndexFields Q doc lk fs c1 = (success, c')"
    using Cons.prems(3) fn removeIndexElements_ops [OF assms(1) _ Cons.prems(2)] Cons.prems(1)
    by (fastforce simp: Let_def split: prod.splits rcode.splits)
  then show ?case using Cons.IH [of c1] Cons.prems(1,2) tx_ops_state(5) [OF c1(1)] tx_ops_trans [OF c1(1)]
    by simp
qed simp

subsection \<open>Writing one document\<close>

lemma getIndexes_read:
  "getIndexes Q c = unmarshalIndexes Q (case kv_read (coll_kv c) ''in:'' of None \<Rightarrow> [] | Some d \<Rightarrow> d)"
  by (simp add: getIndexes_def kv_read_def split: sum.split)

definition ascii_indexes :: "qt \<Rightarrow> coll \<Rightarrow> bool" where
  "ascii_indexes Q c \<longleftrightarrow> (\<forall>(f, n) \<in> set (getIndexes Q c). ascii n)"

lemma indexFields_ascii:
  assumes a: "ascii_indexes Q c"
  shows "\<forall>(f, n) \<in> set (indexFields Q c). ascii n"
proof
  have "ascii (case map_of (getIndexes Q c) f of Some n \<Rightarrow> n | None \<Rightarrow> [])" for f
  proof (cases "map_of (getIndexes Q c) f")
    case (Some n)
    then have "(f, n) \<in> set (getIndexes Q c)" by (rule map_of_SomeD)
    then show ?thesis using a Some by (auto simp: ascii_indexes_def)
  qed (simp add: ascii_def)
  then show "\<And>x. x \<in> set (indexFields Q c) \<Longrightarrow> case x of (f, n) \<Rightarrow> ascii n"
    by (auto simp: indexFields_def Let_def)
qed

text \<open>
  The content \<open>m'\<close> is \<open>m\<close> with \<open>d\<close> written as the version \<open>sid\<close> of document \<open>i\<close>; outside
  the documents anything may have changed that does not sort before them.
\<close>

definition doc_written :: "bytes \<Rightarrow> 8 word \<Rightarrow> bytes \<Rightarrow> (bytes \<rightharpoonup> bytes) \<Rightarrow> (bytes \<rightharpoonup> bytes) \<Rightarrow> bool" where
  "doc_written i sid d m m' \<longleftrightarrow>
     m' (constructDocumentLinkKey i sid) = Some d \<and> m' (constructDocumentStartKey i) \<noteq> None \<and>
     (\<forall>k. isDocKey k \<longrightarrow> k \<noteq> constructDocumentStartKey i \<longrightarrow> k \<noteq> constructDocumentLinkKey i sid \<longrightarrow> m' k = m k) \<and>
     (\<forall>k. m' k \<noteq> None \<longrightarrow> m k \<noteq> None \<or> ''d:'' \<le> k)"

lemma iv_after_docs: "take 3 k = ''iv:'' \<Longrightarrow> ''d:'' \<le> k"
  by (cases k) (auto simp: numeral_3_eq_3)

lemma docKey_after: "isDocKey k \<Longrightarrow> ''d:'' \<le> k"
  by (auto simp: isDocKey_iff prefix_def)

lemma doc_written_mono:
  assumes w: "doc_written i sid d m m1"
    and o: "tx_ops index_op c c'" "kv_ok (coll_kv c)" "kv_read (coll_kv c) = m1"
  shows "doc_written i sid d m (kv_read (coll_kv c'))"
proof -
  have doc: "kv_read (coll_kv c') k = m1 k" if "isDocKey k" for k
    using tx_ops_read [OF o(1,2), of k] index_op_not_doc that o(3) by metis
  have new: "m1 k \<noteq> None \<or> take 3 k = ''iv:''" if "kv_read (coll_kv c') k \<noteq> None" for k
    using tx_ops_read [OF o(1,2), of k] that o(3) by (metis index_op_def)
  show ?thesis using w doc new iv_after_docs unfolding doc_written_def by (metis isDocKey_keys)
qed

lemma fold_kv_op_two: "kv_op b (kv_op a s) = fold kv_op [a, b] s" by simp

lemma putJsonValue_tx:
  assumes "kv_is_transaction (coll_kv c)" "kv_ok (coll_kv c)"
  shows "\<exists>c'. putJsonValue Q i v c = (success, c') \<and> tx_ops is_put c c' \<and>
    kv_read (coll_kv c') = (kv_read (coll_kv c))
      (constructDocumentStartKey i \<mapsto> [], constructDocumentLinkKey i (coll_snapshotId c) \<mapsto> marshal Q v)"
proof -
  let ?ops = "[BatchPut (constructDocumentStartKey i) [],
    BatchPut (constructDocumentLinkKey i (coll_snapshotId c)) (marshal Q v)]"
  have t: "kv_is_transaction (kv_op op (coll_kv c))" for op
    using kv_is_transaction_ops [of "[op]" "coll_kv c"] assms(1) by simp
  have "putJsonValue Q i v c = (success, c\<lparr>coll_kv := fold kv_op ?ops (coll_kv c)\<rparr>)"
    using assms t by (simp add: putJsonValue_def tx_putValue_tx)
  moreover have "tx_ops is_put c (c\<lparr>coll_kv := fold kv_op ?ops (coll_kv c)\<rparr>)"
    unfolding tx_ops_def by (rule exI [of _ ?ops]) simp
  ultimately show ?thesis using kv_read_ops [OF assms(2), of ?ops] by simp
qed

lemma insertDoc_tx:
  assumes Q: "qt_ok Q" and t: "kv_only_puts (coll_kv c)" and ok: "kv_ok (coll_kv c)" and a: "ascii_indexes Q c"
  shows "\<exists>k'. insertDoc Q u doc i ex c = (success, c\<lparr>coll_kv := k',
      coll_observers := map (apsnd (observeInsert Q u doc ex)) (coll_observers c)\<rparr>) \<and>
    kv_ok k' \<and> kv_only_puts k' \<and> kv_base k' = kv_base (coll_kv c) \<and>
    doc_written i (coll_snapshotId c) (marshal Q doc) (kv_read (coll_kv c)) (kv_read k')"
proof -
  have tx: "kv_is_transaction (coll_kv c)" by (rule kv_only_puts_transaction [OF t])
  obtain c1 where c1: "putJsonValue Q i doc c = (success, c1)" "tx_ops is_put c c1"
    and r1: "kv_read (coll_kv c1) = (kv_read (coll_kv c))
      (constructDocumentStartKey i \<mapsto> [], constructDocumentLinkKey i (coll_snapshotId c) \<mapsto> marshal Q doc)"
    using putJsonValue_tx [OF tx ok] by blast
  have "getIndexes Q c1 = getIndexes Q c"
    by (simp add: getIndexes_read r1 constructDocumentStartKey_def constructDocumentLinkKey_def)
  then have a1: "ascii_indexes Q c1" using a by (simp add: ascii_indexes_def)
  have tx1: "kv_is_transaction (coll_kv c1)" "kv_ok (coll_kv c1)"
    using tx_ops_state(5,6) [OF c1(2)] tx ok by simp_all
  obtain c2 where c2: "addIndexFields Q doc i (indexFields Q c1) c1 = (success, c2)"
    "tx_ops (\<lambda>op. index_op op \<and> is_put op) c1 c2"
    using addIndexFields_ops [OF Q indexFields_ascii [OF a1] tx1(1)] by blast
  have o12: "tx_ops is_put c1 c2" "tx_ops index_op c1 c2"
    by (rule tx_ops_mono [OF c2(2)], simp)+
  have o2: "tx_ops is_put c c2" by (rule tx_ops_trans [OF c1(2) o12(1)])
  have "doc_written i (coll_snapshotId c) (marshal Q doc) (kv_read (coll_kv c)) (kv_read (coll_kv c1))"
    using docKey_after by (auto simp: r1 doc_written_def)
  then have w: "doc_written i (coll_snapshotId c) (marshal Q doc) (kv_read (coll_kv c)) (kv_read (coll_kv c2))"
    using doc_written_mono o12(2) tx1(2) by blast
  obtain k' where k': "c2 = c\<lparr>coll_kv := k'\<rparr>" using o2 by (auto simp: tx_ops_def)
  have "insertDoc Q u doc i ex c = (success, c\<lparr>coll_kv := k',
      coll_observers := map (apsnd (observeInsert Q u doc ex)) (coll_observers c)\<rparr>)"
    by (simp add: insertDoc_def c1 c2 k')
  moreover have "kv_ok k'" "kv_only_puts k'" "kv_base k' = kv_base (coll_kv c)"
    using tx_ops_state(6) [OF o2 ok] tx_ops_puts [OF o2 t] tx_ops_base [OF o2 tx] k' by simp_all
  ultimately show ?thesis using w k' by auto
qed

subsection \<open>What the write means for the documents\<close>

lemma latestVersion_at: "m (constructDocumentLinkKey i my) = Some v \<Longrightarrow> latestVersion m i (unat my) = v"
  using unsigned_less [of my, where 'a = nat]
  by (intro latestVersion_some [of m i my]) (simp_all add: word_less_nat_alt)

lemma docAt_written:
  assumes "doc_written i sid d m m'" "d \<noteq> []"
  shows "docAt Q m' sid i = unmarshal Q d"
  using assms latestVersion_at [of m' i sid d] by (simp add: doc_written_def docAt_def)

text \<open>
  The start key of an id is a version key of another one when that is the id without a
  final colon and the version is number 58, the colon. Ids of which none is a prefix of
  another do not meet this.
\<close>

lemma linkKey_startKey:
  "constructDocumentLinkKey j s = constructDocumentStartKey i \<longleftrightarrow> i = j @ '':'' \<and> s = 58"
proof -
  have "byte_chr (chr_byte (CHR '':'')) = CHR '':''" by simp
  then have "byte_chr 58 = CHR '':''" by (simp add: chr_byte_def)
  then have "byte_chr s = CHR '':'' \<longleftrightarrow> s = 58" by (metis byte_chr_inject)
  then show ?thesis
    by (auto simp: constructDocumentLinkKey_def constructDocumentStartKey_def)
qed

text \<open>All that both a write and a removal of version \<open>sid\<close> of document \<open>i\<close> leave unchanged.\<close>

definition doc_changed :: "bytes \<Rightarrow> 8 word \<Rightarrow> (bytes \<rightharpoonup> bytes) \<Rightarrow> (bytes \<rightharpoonup> bytes) \<Rightarrow> bool" where
  "doc_changed i sid m m' \<longleftrightarrow>
     (\<forall>k. isDocKey k \<longrightarrow> k \<noteq> constructDocumentStartKey i \<longrightarrow> k \<noteq> constructDocumentLinkKey i sid \<longrightarrow> m' k = m k)"

lemma doc_written_changed: "doc_written i sid d m m' \<Longrightarrow> doc_changed i sid m m'"
  by (simp add: doc_written_def doc_changed_def)

lemma docAt_changed_other:
  assumes "doc_changed i sid m m'" "\<not> prefix j i"
  shows "docAt Q m' my j = docAt Q m my j"
proof (rule docAt_cong)
  have "j \<noteq> i" "i \<noteq> j @ '':''" using assms(2) by auto
  then show "m' (constructDocumentLinkKey j s) = m (constructDocumentLinkKey j s)" for s
    using assms(1) by (simp add: doc_changed_def linkKey_startKey)
qed

text \<open>An earlier snapshot does not see the change.\<close>

lemma latestVersion_upto:
  assumes "\<And>s. unat s \<le> n \<Longrightarrow> m' (constructDocumentLinkKey i s) = m (constructDocumentLinkKey i s)" "n < 256"
  shows "latestVersion m' i n = latestVersion m i n"
  using assms
proof (induction n)
  case (Suc n)
  have "m' (constructDocumentLinkKey i (of_nat (Suc n))) = m (constructDocumentLinkKey i (of_nat (Suc n)))"
    using Suc.prems by (intro Suc.prems(1)) (simp add: unat_of_nat8 del: of_nat_Suc)
  then show ?case using Suc.IH Suc.prems by (auto split: option.split simp del: of_nat_Suc)
qed simp

lemma docAt_changed_earlier:
  assumes "doc_changed i sid m m'" "my < sid"
  shows "docAt Q m' my i = docAt Q m my i"
proof -
  have "m' (constructDocumentLinkKey i s) = m (constructDocumentLinkKey i s)" if "unat s \<le> unat my" for s
  proof -
    have "s \<noteq> sid" using assms(2) that by (auto simp: word_less_nat_alt)
    then show ?thesis using assms(1) by (simp add: doc_changed_def linkKey_startKey)
  qed
  then have "latestVersion m' i (unat my) = latestVersion m i (unat my)"
    using unsigned_less [of my, where 'a = nat] by (intro latestVersion_upto) simp_all
  then show ?thesis by (simp add: docAt_def)
qed

text \<open>The documents of the content after the write.\<close>

lemma sorted_insert_exists:
  fixes f :: "'a \<Rightarrow> 'b::linorder"
  assumes "sorted_wrt (\<lambda>x y. f x < f y) xs" "inj f"
  shows "\<exists>ys. set ys = insert x (set xs) \<and> sorted_wrt (\<lambda>x y. f x < f y) ys"
  using assms(1)
proof (induction xs)
  case (Cons y ys)
  then obtain zs where zs: "set zs = insert x (set ys)" "sorted_wrt (\<lambda>x y. f x < f y) zs" by auto
  consider "f x < f y" | "x = y" | "f y < f x" using assms(2) by (metis injD linorder_neqE)
  then show ?case
  proof cases
    case 1
    then have "sorted_wrt (\<lambda>x y. f x < f y) (x # y # ys)" using Cons.prems by auto
    then show ?thesis by (intro exI [of _ "x # y # ys"]) simp
  next
    case 2
    then show ?thesis using Cons.prems by (intro exI [of _ "y # ys"]) auto
  next
    case 3
    then have "sorted_wrt (\<lambda>x y. f x < f y) (y # zs)" using zs Cons.prems by auto
    then show ?thesis using zs by (intro exI [of _ "y # zs"]) auto
  qed
next
  case Nil
  show ?case by (intro exI [of _ "[x]"]) simp
qed

lemma doc_store_written:
  assumes ds: "doc_store js m" and w: "doc_written i sid d m m'"
    and p: "\<And>j. j \<in> set js \<Longrightarrow> prefix i j \<or> prefix j i \<Longrightarrow> j = i"
  shows "\<exists>js'. set js' = insert i (set js) \<and> doc_store js' m'"
proof -
  obtain js' where js': "set js' = insert i (set js)"
    "sorted_wrt (\<lambda>i j. constructDocumentStartKey i < constructDocumentStartKey j) js'"
    using sorted_insert_exists [of constructDocumentStartKey js i] ds
    by (auto simp: doc_store_def inj_def)
  have "m' (constructDocumentStartKey j) \<noteq> None" if "j \<in> set js" for j
    using that ds w p [of j] linkKey_startKey [of i sid j] unfolding doc_store_def doc_written_def
    by (metis isDocKey_keys(1) prefix_def)
  moreover have "\<exists>j \<in> set js'. k = constructDocumentStartKey j \<or> (\<exists>s. k = constructDocumentLinkKey j s)"
    if "m' k \<noteq> None" "isDocKey k" for k
    using that ds w js'(1) unfolding doc_store_def doc_written_def by (metis insertCI)
  moreover have "''d:'' \<le> k" if "m' k \<noteq> None" for k
    using that ds w unfolding doc_store_def doc_written_def by blast
  moreover have "\<forall>a \<in> set js'. \<forall>b \<in> set js'. prefix a b \<longrightarrow> a = b"
    using js'(1) p ds unfolding doc_store_def by (metis insert_iff)
  moreover have "m' (constructDocumentStartKey i) \<noteq> None" using w by (simp add: doc_written_def)
  ultimately have "doc_store js' m'"
    using js' by (simp add: doc_store_def)
  then show ?thesis using js' by blast
qed

end
