(* ===== verification/QDocCommit.thy ===== *)
theory QDocCommit
  imports QDocTransactionLaws
begin

text \<open>
  Committing a transaction: the content the parent collection has afterwards, and from it
  the documents it shows after an insert or a removal was committed.
\<close>

subsection \<open>The parent after a commit\<close>

lemma emitObserver_state:
  "\<exists>obs. fst (emitObserver i c) = c\<lparr>coll_observers := obs\<rparr>"
  by (simp add: emitObserver_def Let_def) (rule exI, rule refl)

lemma emitAll_state: "\<exists>obs. fst (emitAll ids c) = c\<lparr>coll_observers := obs\<rparr>"
proof (induction ids arbitrary: c)
  case Nil
  show ?case by (rule exI [of _ "coll_observers c"]) simp
next
  case (Cons i ids)
  obtain obs where "fst (emitObserver i c) = c\<lparr>coll_observers := obs\<rparr>" using emitObserver_state by blast
  moreover obtain obs' where "fst (emitAll ids (fst (emitObserver i c))) = fst (emitObserver i c)\<lparr>coll_observers := obs'\<rparr>"
    using Cons.IH by blast
  ultimately show ?case by (auto simp: case_prod_beta)
qed

lemma emitObservers_state: "\<exists>obs. fst (emitObservers Q c) = c\<lparr>coll_observers := obs\<rparr>"
  unfolding emitObservers_def by (rule emitAll_state)

lemma kv_read_entries: "kv_ok k \<Longrightarrow> \<not> kv_is_transaction k \<Longrightarrow> kv_read k = map_of (kv_entries k)"
  by (cases k) (simp_all add: kv_simps)

lemma kv_entries_sorted: "kv_ok k \<Longrightarrow> sorted_keys (kv_entries k)"
  by (cases k) simp_all

lemma kv_base_not_tx [simp]: "\<not> kv_is_transaction (kv_base k)"
  by (cases k) simp_all

lemma kv_committable_tx: "kv_committable s \<Longrightarrow> kv_is_transaction s"
  by (cases s) simp_all

lemma kv_write_is_map: "kv_is_map (fst (kv_writeTransaction Q k)) = kv_is_map k"
  by (cases k) simp_all

text \<open>\<open>committed parent m parent'\<close>: the parent with the content \<open>m\<close>, its observers aside.\<close>

definition committed :: "coll \<Rightarrow> (bytes \<rightharpoonup> bytes) \<Rightarrow> coll \<Rightarrow> bool" where
  "committed parent m parent' \<longleftrightarrow>
     coll_snapshotId parent' = coll_snapshotId parent \<and> coll_class parent' = coll_class parent \<and>
     kv_ok (coll_kv parent') \<and> \<not> kv_is_transaction (coll_kv parent') \<and>
     kv_read (coll_kv parent') = m \<and> map_of (kv_entries (coll_kv parent')) = m"

lemma commit_success:
  assumes Q: "qt_ok Q" and ok: "kv_ok (coll_kv c)" and cm: "kv_committable (coll_kv c)"
  shows "\<exists>c' parent' signals. tx_writeTransaction Q c parent = (success, c', parent', signals) \<and>
    committed parent (kv_read (coll_kv c)) parent'"
proof -
  obtain k where k: "kv_writeTransaction Q (coll_kv c) = (k, None)"
    using kv_commit [OF Q ok cm] by (cases "kv_writeTransaction Q (coll_kv c)") simp
  then have b: "kv_ok (kv_base k)" "kv_read (kv_base k) = kv_read (coll_kv c)"
    using kv_commit [OF Q ok cm] by simp_all
  define obs where "obs = fold (commitObserver (coll_observers c))
    (intHashKeys Q (map fst (coll_observers c))) (coll_observers parent)"
  define p1 where "p1 = parent\<lparr>coll_kv := kv_base k, coll_observers := obs\<rparr>"
  obtain obs' where p2: "fst (emitObservers Q p1) = p1\<lparr>coll_observers := obs'\<rparr>"
    using emitObservers_state by blast
  have "tx_writeTransaction Q c parent =
      (success, c\<lparr>coll_kv := k\<rparr>, fst (emitObservers Q p1), snd (emitObservers Q p1))"
    by (simp add: tx_writeTransaction_def k p1_def obs_def Let_def case_prod_beta)
  moreover have "committed parent (kv_read (coll_kv c)) (fst (emitObservers Q p1))"
    unfolding p2 using b kv_read_entries [OF b(1)] by (simp add: p1_def committed_def)
  ultimately show ?thesis by blast
qed

text \<open>
  A fresh transaction of a collection: nothing buffered, on the collection's database.
\<close>

definition coll_ok :: "coll \<Rightarrow> bool" where
  "coll_ok c \<longleftrightarrow> coll_class c = typeCollection \<and> kv_ok (coll_kv c) \<and> \<not> kv_is_transaction (coll_kv c)"

lemma newTransaction_some: "\<not> kv_is_transaction k \<Longrightarrow> newTransaction k \<noteq> None"
  by (cases k) simp_all

lemma coll_newTransaction_fresh:
  assumes "coll_ok c"
  shows "\<exists>t. coll_newTransaction c = Some t \<and> kv_ok (coll_kv t) \<and> kv_only_puts (coll_kv t) \<and>
    kv_base (coll_kv t) = coll_kv c \<and> kv_read (coll_kv t) = kv_read (coll_kv c) \<and>
    kv_entries (coll_kv t) = kv_entries (coll_kv c) \<and> coll_snapshotId t = coll_snapshotId c \<and>
    coll_observers t = coll_observers c \<and> coll_class t = typeTransaction \<and>
    newTransaction (coll_kv c) = Some (coll_kv t)"
proof -
  obtain k where k: "newTransaction (coll_kv c) = Some k"
    using newTransaction_some assms by (auto simp: coll_ok_def)
  have ok: "kv_ok (coll_kv c)" using assms by (simp add: coll_ok_def)
  show ?thesis
    using newTransaction_fresh [OF ok k] assms k
    by (simp add: coll_newTransaction_def coll_ok_def QDocCollection_kv_def)
qed

lemma committed_ok: "coll_ok c \<Longrightarrow> committed c m c' \<Longrightarrow> coll_ok c'"
  by (simp add: coll_ok_def committed_def)

subsection \<open>Inserting and committing\<close>

text \<open>One insert in a transaction of its own: the result of the insert and the collection after the commit.\<close>

definition insertCommit :: "qt \<Rightarrow> bool \<Rightarrow> config \<Rightarrow> env \<Rightarrow> jobject \<Rightarrow> bool \<Rightarrow> bool \<Rightarrow> idgen \<Rightarrow> coll
    \<Rightarrow> (rcode \<times> bytes \<times> coll) option" where
  "insertCommit Q u cfg e doc overwrite ignoreReadOnlyValue g c =
     (case coll_newTransaction c of
        None \<Rightarrow> None
      | Some t \<Rightarrow>
          (case tx_insert Q u cfg e doc [] overwrite ignoreReadOnlyValue g t of
             (success, i, g', t') \<Rightarrow>
               let (r, _, c', _) = tx_writeTransaction Q t' c in Some (r, i, c')
           | (r, i, g', t') \<Rightarrow> Some (r, i, c)))"

lemma kv_is_map_tx: "kv_is_map (kv_base k) \<longleftrightarrow> kv_is_map k"
  by (cases k) simp_all

lemma getJsonValue_base:
  "kv_entries k = kv_entries k' \<Longrightarrow> kv_is_map k = kv_is_map k' \<Longrightarrow> getJsonValue Q k my i = getJsonValue Q k' my i"
  by (simp add: getJsonValue_def getJsonValueFull_def newIterator_def kv_newIterator_def)

text \<open>
  The laws of \<open>tx_insert\<close>, for a transaction that has only written so far: when it succeeds
  it has written one document.
\<close>

lemma tx_insert_written:
  assumes Q: "qt_ok Q" and t: "kv_only_puts (coll_kv c)" and ok: "kv_ok (coll_kv c)" and a: "ascii_indexes Q c"
    and i: "insertId e g doc0 = Some (doc, i, g')"
    and old: "getJsonValue Q (coll_kv c) (coll_snapshotId c) i = docOld"
    and ow: "docOld = JUndefined \<or> overwrite"
    and ro: "docOld = JUndefined \<or> \<not> readOnlyKeyValid cfg \<or> ir \<or> \<not> isReadOnlyDoc Q cfg docOld"
  shows "\<exists>c'. tx_insert Q u cfg e doc0 i0 overwrite ir g c = (success, i, g', c') \<and>
    kv_ok (coll_kv c') \<and> kv_only_puts (coll_kv c') \<and> kv_base (coll_kv c') = kv_base (coll_kv c) \<and>
    coll_snapshotId c' = coll_snapshotId c \<and>
    doc_written i (coll_snapshotId c) (marshal Q (JObj (addUUID e cfg (docOld \<noteq> JUndefined) doc)))
      (kv_read (coll_kv c)) (kv_read (coll_kv c'))"
proof -
  obtain k' where k': "insertDoc Q u (JObj (addUUID e cfg (docOld \<noteq> JUndefined) doc)) i (docOld \<noteq> JUndefined) c
      = (success, c\<lparr>coll_kv := k', coll_observers := map (apsnd (observeInsert Q u
          (JObj (addUUID e cfg (docOld \<noteq> JUndefined) doc)) (docOld \<noteq> JUndefined))) (coll_observers c)\<rparr>)"
    and p: "kv_ok k'" "kv_only_puts k'" "kv_base k' = kv_base (coll_kv c)"
      "doc_written i (coll_snapshotId c) (marshal Q (JObj (addUUID e cfg (docOld \<noteq> JUndefined) doc)))
        (kv_read (coll_kv c)) (kv_read k')"
    using insertDoc_tx [OF Q t ok a] by blast
  have "tx_insert Q u cfg e doc0 i0 overwrite ir g c = (success, i, g',
      c\<lparr>coll_kv := k', coll_observers := map (apsnd (observeInsert Q u
          (JObj (addUUID e cfg (docOld \<noteq> JUndefined) doc)) (docOld \<noteq> JUndefined))) (coll_observers c)\<rparr>)"
  proof -
    have "\<not> (docOld \<noteq> JUndefined \<and> \<not> overwrite)"
      and "\<not> (docOld \<noteq> JUndefined \<and> readOnlyKeyValid cfg \<and> \<not> ir \<and> isReadOnlyDoc Q cfg docOld)"
      using ow ro by blast+
    then show ?thesis by (simp only: tx_insert_def i old option.case prod.case Let_def if_False k')
  qed
  then show ?thesis using p by simp
qed

lemma tx_insert_exists:
  assumes "insertId e g doc0 = Some (doc, i, g')"
    and "getJsonValue Q (coll_kv c) (coll_snapshotId c) i \<noteq> JUndefined"
  shows "tx_insert Q u cfg e doc0 i0 False ir g c = (errorAlreadyExists, i, g', c)"
  using assms by (simp add: tx_insert_def)

lemma tx_insert_readOnly:
  assumes "insertId e g doc0 = Some (doc, i, g')"
    and "getJsonValue Q (coll_kv c) (coll_snapshotId c) i = docOld" "docOld \<noteq> JUndefined"
    and "readOnlyKeyValid cfg" "isReadOnlyDoc Q cfg docOld"
  shows "tx_insert Q u cfg e doc0 i0 True False g c = (errorObjectIsReadOnly, i, g', c)"
  using assms by (simp add: tx_insert_def)

text \<open>One insert and its commit.\<close>

lemma insertCommit_written:
  assumes Q: "qt_ok Q" and c: "coll_ok c" and a: "ascii_indexes Q c"
    and i: "insertId e g doc0 = Some (doc, i, g')"
    and old: "getJsonValue Q (coll_kv c) (coll_snapshotId c) i = docOld"
    and ow: "docOld = JUndefined \<or> overwrite"
    and ro: "docOld = JUndefined \<or> \<not> readOnlyKeyValid cfg \<or> ir \<or> \<not> isReadOnlyDoc Q cfg docOld"
  shows "\<exists>c' m'. insertCommit Q u cfg e doc0 overwrite ir g c = Some (success, i, c') \<and>
    committed c m' c' \<and>
    doc_written i (coll_snapshotId c) (marshal Q (JObj (addUUID e cfg (docOld \<noteq> JUndefined) doc)))
      (map_of (kv_entries (coll_kv c))) m'"
proof -
  obtain t where t: "coll_newTransaction c = Some t" "kv_ok (coll_kv t)" "kv_only_puts (coll_kv t)"
    "kv_base (coll_kv t) = coll_kv c" "kv_read (coll_kv t) = kv_read (coll_kv c)"
    "kv_entries (coll_kv t) = kv_entries (coll_kv c)" "coll_snapshotId t = coll_snapshotId c"
    using coll_newTransaction_fresh [OF c] by blast
  have at: "ascii_indexes Q t" using a t(5) by (simp add: ascii_indexes_def getIndexes_read)
  have "kv_is_map (coll_kv t) = kv_is_map (coll_kv c)" using t(4) kv_is_map_tx by metis
  then have oldt: "getJsonValue Q (coll_kv t) (coll_snapshotId t) i = docOld"
    using old t(6,7) getJsonValue_base [of "coll_kv t" "coll_kv c"] by simp
  obtain t' where t': "tx_insert Q u cfg e doc0 [] overwrite ir g t = (success, i, g', t')"
    "kv_ok (coll_kv t')" "kv_only_puts (coll_kv t')"
    "doc_written i (coll_snapshotId c) (marshal Q (JObj (addUUID e cfg (docOld \<noteq> JUndefined) doc)))
      (kv_read (coll_kv c)) (kv_read (coll_kv t'))"
    using tx_insert_written [OF Q t(3,2) at i oldt ow ro, of u "[]"] t(5,7) by auto
  obtain t'' c' sg where cm: "tx_writeTransaction Q t' c = (success, t'', c', sg)"
    "committed c (kv_read (coll_kv t')) c'"
    using commit_success [OF Q t'(2) kv_only_puts_committable [OF t'(3)]] by blast
  have "insertCommit Q u cfg e doc0 overwrite ir g c = Some (success, i, c')"
    using t(1) t'(1) cm(1) by (simp add: insertCommit_def)
  moreover have "kv_read (coll_kv c) = map_of (kv_entries (coll_kv c))"
    using c by (intro kv_read_entries) (simp_all add: coll_ok_def)
  ultimately show ?thesis using cm(2) t'(4) by metis
qed

subsection \<open>The documents found after an insert\<close>

lemma set_shownDocs:
  "set (shownDocs Q m my js) = {(docAt Q m my i, i) | i. i \<in> set js \<and> isObject (docAt Q m my i)}"
  by (auto simp: shownDocs_def)

lemma insertId_wf:
  assumes "insertId e g doc0 = Some (doc, i, g')" "wf_json (JObj doc0)"
  shows "wf_json (JObj doc)" "obj_value doc ''_id'' = JStr i"
  using assms wf_obj_insert [of doc0 "JStr (fst (getId e g))" "''_id''"]
  by (auto simp: insertId_def obj_value_def obj_insert_def case_prod_beta split: option.splits if_splits
      elim: isString.elims)

lemma addUUID_wf: "wf_json (JObj doc) \<Longrightarrow> wf_json (JObj (addUUID e cfg ex doc))"
  using wf_obj_insert [of doc "JStr (getUUID e)" "UUIDPath cfg"] by (simp add: addUUID_def)

lemma find_committed:
  assumes c: "coll_ok c" "committed c m' c'" and ds: "doc_store js' m'"
    and q: "wf_query (JObj query)" "fullSearch (getIndexes Q c') query"
  shows "coll_find Q u c' query [] =
    Some (success, filter (\<lambda>(d, j). matches Q (JObj query) d) (shownDocs Q m' (coll_snapshotId c) js'))"
proof -
  have m: "map_of (kv_entries (coll_kv c')) = m'" "coll_snapshotId c' = coll_snapshotId c"
    and s: "sorted_keys (kv_entries (coll_kv c'))"
    using c kv_entries_sorted by (simp_all add: committed_def)
  show ?thesis using find_shown [OF s _ q, of js' u "[]"] ds by (simp add: m)
qed

lemma shownDocs_written:
  assumes w: "doc_written i sid (marshal Q (JObj doc)) m m'" and Q: "qt_ok Q" and wf: "wf_json (JObj doc)"
    and js: "set js' = insert i (set js)" and p: "\<And>j. j \<in> set js \<Longrightarrow> prefix j i \<Longrightarrow> j = i"
  shows "set (shownDocs Q m' sid js') =
    insert (JObj doc, i) {(d, j). (d, j) \<in> set (shownDocs Q m sid js) \<and> j \<noteq> i}"
proof -
  have "docAt Q m' sid i = JObj doc"
    using docAt_written [OF w] unmarshal_marshal_object [OF Q wf] by simp
  moreover have "docAt Q m' sid j = docAt Q m sid j" if "j \<in> set js" "j \<noteq> i" for j
    using that p by (intro docAt_changed_other [OF doc_written_changed [OF w]]) blast
  ultimately show ?thesis unfolding set_shownDocs js by (auto; metis)
qed

subsection \<open>The document is gone\<close>

definition doc_removed :: "bytes \<Rightarrow> 8 word \<Rightarrow> (bytes \<rightharpoonup> bytes) \<Rightarrow> (bytes \<rightharpoonup> bytes) \<Rightarrow> bool" where
  "doc_removed i sid m m' \<longleftrightarrow>
     m' (constructDocumentLinkKey i sid) = None \<and> m' (constructDocumentStartKey i) = None \<and>
     doc_changed i sid m m' \<and> (\<forall>k. m' k \<noteq> None \<longrightarrow> m k \<noteq> None \<or> ''d:'' \<le> k)"

text \<open>
  The version of the current snapshot is replaced by an undefined value when an earlier
  version exists, and is deleted together with the start key when there is none.
\<close>

definition doc_gone :: "qt \<Rightarrow> bytes \<Rightarrow> 8 word \<Rightarrow> (bytes \<rightharpoonup> bytes) \<Rightarrow> (bytes \<rightharpoonup> bytes) \<Rightarrow> bool" where
  "doc_gone Q i sid m m' \<longleftrightarrow>
     doc_written i sid (marshal Q JUndefined) m m' \<or>
     (doc_removed i sid m m' \<and> (\<forall>s. s < sid \<longrightarrow> m (constructDocumentLinkKey i s) = None))"

lemma unmarshal_undefined: "unmarshal Q (marshal Q JUndefined) = JUndefined"
  by (simp add: unmarshal_def)

lemma docAt_gone:
  assumes "doc_gone Q i sid m m'"
  shows "docAt Q m' sid i = JUndefined"
proof -
  consider (written) "doc_written i sid (marshal Q JUndefined) m m'"
    | (removed) "doc_removed i sid m m'" "\<forall>s. s < sid \<longrightarrow> m (constructDocumentLinkKey i s) = None"
    using assms by (auto simp: doc_gone_def)
  then show ?thesis
  proof cases
    case written
    then show ?thesis using docAt_written [of i sid _ m m' Q] unmarshal_undefined by simp
  next
    case removed
    have "m' (constructDocumentLinkKey i s) = None" if "unat s \<le> unat sid" for s
    proof (cases "s = sid")
      case False
      moreover have "s \<le> sid" using that by (simp add: word_le_nat_alt)
      ultimately have "s < sid" by simp
      then show ?thesis
        using removed by (auto simp: doc_removed_def doc_changed_def linkKey_startKey)
    qed (use removed in \<open>simp add: doc_removed_def\<close>)
    then have "latestVersion m' i (unat sid) = []"
      using unsigned_less [of sid, where 'a = nat] by (intro latestVersion_none) simp_all
    then show ?thesis by (simp add: docAt_def)
  qed
qed

lemma doc_gone_changed: "doc_gone Q i sid m m' \<Longrightarrow> doc_changed i sid m m'"
  using doc_written_changed by (auto simp: doc_gone_def doc_removed_def)

lemma doc_removed_mono:
  assumes w: "doc_removed i sid m m1"
    and o: "tx_ops index_op c c'" "kv_ok (coll_kv c)" "kv_read (coll_kv c) = m1"
  shows "doc_removed i sid m (kv_read (coll_kv c'))"
proof -
  have doc: "kv_read (coll_kv c') k = m1 k" if "isDocKey k" for k
    using tx_ops_read [OF o(1,2), of k] index_op_not_doc that o(3) by metis
  have new: "m1 k \<noteq> None \<or> take 3 k = ''iv:''" if "kv_read (coll_kv c') k \<noteq> None" for k
    using tx_ops_read [OF o(1,2), of k] that o(3) by (metis index_op_def)
  show ?thesis using w doc new iv_after_docs unfolding doc_removed_def doc_changed_def by (metis isDocKey_keys)
qed

lemma removeVersion_tx:
  assumes "kv_is_transaction (coll_kv c)" "kv_ok (coll_kv c)"
  shows "\<exists>ops. removeVersion Q i s nk c = (success, c\<lparr>coll_kv := fold kv_op ops (coll_kv c)\<rparr>) \<and>
    ops = (if s \<noteq> coll_snapshotId c \<or> \<not> nk
      then [BatchPut (constructDocumentLinkKey i (coll_snapshotId c)) (marshal Q JUndefined)]
      else [BatchDelete (constructDocumentLinkKey i (coll_snapshotId c)), BatchDelete (constructDocumentStartKey i)])"
proof -
  have t: "kv_is_transaction (kv_op op (coll_kv c))" for op
    using kv_is_transaction_ops [of "[op]" "coll_kv c"] assms(1) by simp
  have put: "putValue k v (coll_kv c) = (kv_op (BatchPut k v) (coll_kv c), None)" for k v
    using kv_tx_status(1) [OF assms(1), of k v]
    by (cases "putValue k v (coll_kv c)") (simp add: kv_op_def)
  show ?thesis
    using assms(1) t by (simp add: removeVersion_def Let_def tx_deleteValue_tx put)
qed

text \<open>A successful \<open>removeById\<close> of a transaction that shows the database it was made on.\<close>

lemma removeById_gone:
  assumes Q: "qt_ok Q" and t: "kv_is_transaction (coll_kv c)" and ok: "kv_ok (coll_kv c)" and a: "ascii_indexes Q c"
    and fresh: "kv_read (coll_kv c) = map_of (kv_entries (coll_kv c))"
    and ds: "doc_store js (map_of (kv_entries (coll_kv c)))" and i: "i \<in> set js"
    and r: "removeById Q u u0 cfg i ir c = (success, c')"
  shows "kv_ok (coll_kv c') \<and> kv_base (coll_kv c') = kv_base (coll_kv c) \<and>
    coll_snapshotId c' = coll_snapshotId c \<and>
    doc_gone Q i (coll_snapshotId c) (kv_read (coll_kv c)) (kv_read (coll_kv c'))"
proof -
  let ?m = "kv_read (coll_kv c)" and ?sid = "coll_snapshotId c"
  obtain s nl nk where g: "getJsonValueFull Q (coll_kv c) ?sid i u0 = (docAt Q ?m ?sid i, s, nl, nk)"
    and nk: "nk \<longrightarrow> (\<forall>s. s < ?sid \<longrightarrow> ?m (constructDocumentLinkKey i s) = None)"
    using getJsonValueFull_docAt [OF kv_entries_sorted [OF ok] ds i, of Q ?sid u0] fresh by auto
  define ops where "ops = (if s \<noteq> ?sid \<or> \<not> nk
      then [BatchPut (constructDocumentLinkKey i ?sid) (marshal Q JUndefined)]
      else [BatchDelete (constructDocumentLinkKey i ?sid), BatchDelete (constructDocumentStartKey i)])"
  define c1 where "c1 = c\<lparr>coll_kv := fold kv_op ops (coll_kv c)\<rparr>"
  have rv: "removeVersion Q i s nk c = (success, c1)"
    using removeVersion_tx [OF t ok, of Q i s nk] by (simp add: c1_def ops_def)
  have r1: "kv_read (coll_kv c1) = fold op_map ops ?m" by (simp add: c1_def kv_read_ops [OF ok])
  have o1: "kv_is_transaction (coll_kv c1)" "kv_ok (coll_kv c1)" "kv_base (coll_kv c1) = kv_base (coll_kv c)"
    using t ok by (simp_all add: c1_def kv_ok_ops kv_base_fold)
  have "getIndexes Q c1 = getIndexes Q c"
    by (simp add: getIndexes_read r1 ops_def constructDocumentStartKey_def constructDocumentLinkKey_def)
  then have a1: "ascii_indexes Q c1" using a by (simp add: ascii_indexes_def)
  obtain c2 where c2: "removeIndexFields Q (docAt Q ?m ?sid i) (constructDocumentLinkKey i s) (indexFields Q c1) c1
      = (success, c2)" and c': "coll_kv c' = coll_kv c2" "coll_snapshotId c' = coll_snapshotId c2"
    using r unfolding removeById_def g
    by (auto simp: rv Let_def split: if_splits prod.splits rcode.splits)
  have o2: "tx_ops index_op c1 c2"
    by (rule removeIndexFields_ops [OF Q indexFields_ascii [OF a1] o1(1) c2])
  have start: "?m (constructDocumentStartKey i) \<noteq> None"
    using ds i fresh by (simp add: doc_store_def)
  have "doc_gone Q i ?sid ?m (kv_read (coll_kv c2))"
  proof (cases "s \<noteq> ?sid \<or> \<not> nk")
    case True
    have "doc_written i ?sid (marshal Q JUndefined) ?m (kv_read (coll_kv c1))"
      using True start docKey_after by (auto simp: r1 ops_def doc_written_def linkKey_startKey [symmetric])
    then show ?thesis using doc_written_mono [OF _ o2 o1(2)] by (auto simp: doc_gone_def)
  next
    case False
    have "doc_removed i ?sid ?m (kv_read (coll_kv c1))"
      using False docKey_after by (auto simp: r1 ops_def doc_removed_def doc_changed_def)
    then show ?thesis using doc_removed_mono [OF _ o2 o1(2)] nk False by (auto simp: doc_gone_def)
  qed
  then show ?thesis
    using c' o1 tx_ops_state(1,6) [OF o2] tx_ops_base [OF o2 o1(1)] by (simp add: c1_def)
qed

subsection \<open>Removing and committing\<close>

definition removeCommit :: "qt \<Rightarrow> bool \<Rightarrow> 8 word \<Rightarrow> config \<Rightarrow> bytes \<Rightarrow> bool \<Rightarrow> coll \<Rightarrow> (rcode \<times> coll) option" where
  "removeCommit Q u u0 cfg i ignoreReadOnlyValue c =
     (case coll_newTransaction c of
        None \<Rightarrow> None
      | Some t \<Rightarrow>
          (case removeById Q u u0 cfg i ignoreReadOnlyValue t of
             (success, t') \<Rightarrow> let (r, _, c', _) = tx_writeTransaction Q t' c in Some (r, c')
           | (r, t') \<Rightarrow> Some (r, c)))"

text \<open>A map transaction can be committed when all it did was to delete keys the map has.\<close>

lemma deletes_committable:
  assumes "kv_committable s" "\<forall>db tx. s = KVMapTransaction db tx \<longrightarrow> cache tx = []"
    and "\<forall>op \<in> set ops. \<not> is_put op \<and> map_of (kv_entries s) (op_key op) \<noteq> None"
  shows "kv_committable (fold kv_op ops s)"
  using assms
proof (induction ops arbitrary: s)
  case (Cons op ops)
  obtain k where op: "op = BatchDelete k" using Cons.prems(3) by (cases op) auto
  show ?case
  proof (cases s)
    case (KVMapTransaction db tx)
    let ?s = "KVMapTransaction db (kvmaptx_deleteValue k tx)"
    have "kv_op op s = ?s" by (simp add: op KVMapTransaction kv_op_def)
    moreover have "kv_committable ?s" "cache (kvmaptx_deleteValue k tx) = []" "kv_entries ?s = kv_entries s"
      using Cons.prems op KVMapTransaction by (auto simp: kvmaptx_deleteValue_def)
    ultimately show ?thesis using Cons.IH [of ?s] Cons.prems(3) by simp
  next
    case (KVLevelDBTransaction db tx)
    then show ?thesis
      using Cons.IH [of "kv_op op s"] Cons.prems by (simp add: op kv_op_def)
  qed (use Cons.prems in simp_all)
qed simp

lemma newTransaction_cache:
  "newTransaction k = Some s \<Longrightarrow> s = KVMapTransaction db tx \<Longrightarrow> cache tx = []"
  by (cases k) (auto simp: kvmap_newTransaction_def)

lemma removeById_noIndexes:
  assumes Q: "qt_ok Q" and t: "kv_is_transaction (coll_kv c)" and ok: "kv_ok (coll_kv c)"
    and ni: "getIndexes Q c = []"
    and g: "getJsonValueFull Q (coll_kv c) (coll_snapshotId c) i u0 = (d, s, nl, nk)" and d: "isObject d"
    and ro: "\<not> readOnlyKeyValid cfg \<or> ir \<or> \<not> isReadOnlyDoc Q cfg d"
  shows "\<exists>c'. removeById Q u u0 cfg i ir c = (success, c') \<and>
    coll_kv c' = fold kv_op (if s \<noteq> coll_snapshotId c \<or> \<not> nk
      then [BatchPut (constructDocumentLinkKey i (coll_snapshotId c)) (marshal Q JUndefined)]
      else [BatchDelete (constructDocumentLinkKey i (coll_snapshotId c)), BatchDelete (constructDocumentStartKey i)])
      (coll_kv c)"
proof -
  obtain ops where rv: "removeVersion Q i s nk c = (success, c\<lparr>coll_kv := fold kv_op ops (coll_kv c)\<rparr>)"
    and ops: "ops = (if s \<noteq> coll_snapshotId c \<or> \<not> nk
      then [BatchPut (constructDocumentLinkKey i (coll_snapshotId c)) (marshal Q JUndefined)]
      else [BatchDelete (constructDocumentLinkKey i (coll_snapshotId c)), BatchDelete (constructDocumentStartKey i)])"
    using removeVersion_tx [OF t ok, of Q i s nk] by blast
  let ?c1 = "c\<lparr>coll_kv := fold kv_op ops (coll_kv c)\<rparr>"
  have "getIndexes Q ?c1 = []"
    using ni by (simp add: getIndexes_read kv_read_ops [OF ok] ops constructDocumentStartKey_def
        constructDocumentLinkKey_def)
  then have "indexFields Q ?c1 = []"
    using qt_ok_set_keys(1) [OF Q, of "[]"] by (simp add: indexFields_def)
  moreover have "\<not> (readOnlyKeyValid cfg \<and> \<not> ir \<and> isReadOnlyDoc Q cfg d)" using ro by blast
  ultimately have "removeById Q u u0 cfg i ir c = (success, ?c1\<lparr>coll_observers :=
      map (apsnd (observeRemove Q u d)) (coll_observers ?c1)\<rparr>)"
    unfolding removeById_def g prod.case Let_def using d by (simp add: rv)
  then show ?thesis by (simp add: ops)
qed

lemma removeCommit_gone:
  assumes Q: "qt_ok Q" and c: "coll_ok c" and ni: "getIndexes Q c = []"
    and ds: "doc_store js (map_of (kv_entries (coll_kv c)))" and i: "i \<in> set js"
    and d: "docAt Q (map_of (kv_entries (coll_kv c))) (coll_snapshotId c) i = d" "isObject d"
    and ro: "\<not> readOnlyKeyValid cfg \<or> ir \<or> \<not> isReadOnlyDoc Q cfg d"
  shows "\<exists>c' m'. removeCommit Q u u0 cfg i ir c = Some (success, c') \<and> committed c m' c' \<and>
    doc_gone Q i (coll_snapshotId c) (map_of (kv_entries (coll_kv c))) m'"
proof -
  let ?m = "map_of (kv_entries (coll_kv c))" and ?sid = "coll_snapshotId c"
  have rd: "kv_read (coll_kv c) = ?m"
    using c by (intro kv_read_entries) (simp_all add: coll_ok_def)
  obtain t where t: "coll_newTransaction c = Some t" "kv_ok (coll_kv t)" "kv_only_puts (coll_kv t)"
    "kv_read (coll_kv t) = ?m" "kv_entries (coll_kv t) = kv_entries (coll_kv c)" "coll_snapshotId t = ?sid"
    "newTransaction (coll_kv c) = Some (coll_kv t)"
    using coll_newTransaction_fresh [OF c] rd by auto
  have tx: "kv_is_transaction (coll_kv t)" by (rule kv_only_puts_transaction [OF t(3)])
  have nit: "getIndexes Q t = []" using ni t(4) rd by (simp add: getIndexes_read)
  obtain s nl nk where g: "getJsonValueFull Q (coll_kv t) ?sid i u0 = (d, s, nl, nk)"
    and nk: "nk \<longrightarrow> (\<forall>s. s < ?sid \<longrightarrow> ?m (constructDocumentLinkKey i s) = None)"
    using getJsonValueFull_docAt [OF kv_entries_sorted [OF t(2)], of js i Q ?sid u0] ds i d(1) t(5) by auto
  define ops where "ops = (if s \<noteq> ?sid \<or> \<not> nk
      then [BatchPut (constructDocumentLinkKey i ?sid) (marshal Q JUndefined)]
      else [BatchDelete (constructDocumentLinkKey i ?sid), BatchDelete (constructDocumentStartKey i)])"
  obtain t' where t': "removeById Q u u0 cfg i ir t = (success, t')" "coll_kv t' = fold kv_op ops (coll_kv t)"
    using removeById_noIndexes [OF Q tx t(2) nit _ d(2) ro, of i u0 s nl nk u] g t(6) by (auto simp: ops_def)
  have "ascii_indexes Q t" using nit by (simp add: ascii_indexes_def)
  then have gone: "kv_ok (coll_kv t')" "doc_gone Q i ?sid ?m (kv_read (coll_kv t'))"
    using removeById_gone [OF Q tx t(2) _ _ _ i t'(1)] ds t(4,5,6) by simp_all
  have "kv_committable (coll_kv t')"
  proof (cases "s \<noteq> ?sid \<or> \<not> nk")
    case True
    then have "kv_only_puts (coll_kv t')" using t'(2) t(3) by (simp add: ops_def kv_op_def)
    then show ?thesis by (rule kv_only_puts_committable)
  next
    case False
    have "?m (constructDocumentLinkKey i ?sid) \<noteq> None"
    proof
      assume "?m (constructDocumentLinkKey i ?sid) = None"
      then have "?m (constructDocumentLinkKey i w) = None" if "unat w \<le> unat ?sid" for w
      proof -
        have "w \<le> ?sid" using that by (simp add: word_le_nat_alt)
        then consider "w = ?sid" | "w < ?sid" by fastforce
        then show ?thesis using that nk False \<open>?m (constructDocumentLinkKey i ?sid) = None\<close> by cases auto
      qed
      then have "latestVersion ?m i (unat ?sid) = []"
        using unsigned_less [of ?sid, where 'a = nat] by (intro latestVersion_none) simp_all
      then show False using d by (auto simp: docAt_def)
    qed
    moreover have "?m (constructDocumentStartKey i) \<noteq> None" using ds i by (simp add: doc_store_def)
    ultimately show ?thesis
      unfolding t'(2) using False t(5) newTransaction_cache [OF t(7)]
      by (intro deletes_committable kv_only_puts_committable t(3)) (auto simp: ops_def)
  qed
  then obtain t'' c' sg where "tx_writeTransaction Q t' c = (success, t'', c', sg)"
    "committed c (kv_read (coll_kv t')) c'"
    using commit_success [OF Q gone(1)] by blast
  then show ?thesis using gone(2) t(1) t'(1) by (auto simp: removeCommit_def)
qed

end
