(* ===== verification/QDocSnapshots.thy ===== *)
theory QDocSnapshots
  imports QDocCommit
begin

text \<open>
  The snapshots of a collection (qdoccollection.cpp): the names are a list under the key
  \<open>s:\<close>, a snapshot's number is its index, and the last name stands for the current state.
  \<open>QDocCollectionSnapshot\<close> is a collection object on the same database at an older number.

  A result \<open>None\<close> is undefined behaviour: an element access on an empty list, a call on the
  null transaction of an object that is not a collection, or a loop that does not end.
\<close>

subsection \<open>Names\<close>

fun indexOf :: "'a \<Rightarrow> 'a list \<Rightarrow> nat option" where
  "indexOf x [] = None"
| "indexOf x (y # ys) = (if x = y then Some 0 else map_option Suc (indexOf x ys))"

definition getSnapshotId :: "qt \<Rightarrow> string \<Rightarrow> coll \<Rightarrow> (rcode + 8 word) \<times> coll" where
  "getSnapshotId Q snapshotName c =
     (case getSnapshotsValue Q c of
        (Inl r, c') \<Rightarrow> (Inl r, c')
      | (Inr snapshots, c') \<Rightarrow>
          (case indexOf snapshotName snapshots of
             Some index \<Rightarrow> (Inr (of_nat index), c')
           | None \<Rightarrow> (Inl errorInvalidObject, c')))"

definition QDocCollectionSnapshot :: "coll \<Rightarrow> 8 word \<Rightarrow> coll" where
  "QDocCollectionSnapshot c snapshotId =
     (QDocCollection_kv (coll_kv c) (coll_baseDir c) typeReadOnlySnapshot)\<lparr>coll_snapshotId := snapshotId\<rparr>"

text \<open>\<open>getSnapshot\<close> ignores the code of \<open>getSnapshotId\<close>; \<open>u0\<close> is the value of its local.\<close>

definition getSnapshot :: "qt \<Rightarrow> 8 word \<Rightarrow> string \<Rightarrow> coll \<Rightarrow> coll option \<times> coll" where
  "getSnapshot Q u0 snapshotName c =
     (if coll_class c \<noteq> typeCollection then (None, c)
      else case getSnapshotId Q snapshotName c of
        (Inr sid, c') \<Rightarrow> (Some (QDocCollectionSnapshot c' sid), c')
      | (Inl r, c') \<Rightarrow> (Some (QDocCollectionSnapshot c' u0), c'))"

definition snapshot_getModified :: "coll \<Rightarrow> bytes list option" where
  "snapshot_getModified c =
     modifiedIds (scanFuel (coll_kv c)) (it_seekToFirst (newIterator (coll_kv c) (coll_snapshotId c))) []"

subsection \<open>newSnapshot\<close>

definition newSnapshotTx :: "qt \<Rightarrow> string \<Rightarrow> string list \<Rightarrow> coll \<Rightarrow> coll \<Rightarrow> rcode \<times> coll" where
  "newSnapshotTx Q snapshotName snapshots c t =
     (case putSnapshotsValue Q (snapshots[length snapshots - 1 := snapshotName] @ [''__CURRENT'']) t of
        (success, t1) \<Rightarrow> copyIndexValues Q (coll_snapshotId c + 1) (coll_snapshotId c) t1
      | (r, t1) \<Rightarrow> (r, t1))"

definition newSnapshot :: "qt \<Rightarrow> string \<Rightarrow> coll \<Rightarrow> (rcode \<times> coll \<times> observe_signal list) option" where
  "newSnapshot Q snapshotName c =
     (if coll_class c \<noteq> typeCollection then Some (errorType, c, [])
      else case getSnapshotId Q snapshotName c of
        (Inr sid, c') \<Rightarrow>
          Some (errorSnapshotIsExists, c'\<lparr>coll_lastError := ''Snapshot is already exists''\<rparr>, [])
      | (Inl r, c') \<Rightarrow>
          (case coll_newTransaction c' of
             None \<Rightarrow> None
           | Some t \<Rightarrow>
               (case getSnapshotsValue Q c' of
                  (Inl r, c1) \<Rightarrow> Some (r, c1, [])
                | (Inr snapshots, c1) \<Rightarrow>
                    if snapshots = [] then None
                    else case newSnapshotTx Q snapshotName snapshots c1 t of
                      (success, t1) \<Rightarrow>
                        (case tx_writeTransaction Q t1 c1 of
                           (success, t2, c2, signals) \<Rightarrow>
                             Some (success, c2\<lparr>coll_snapshotId := coll_snapshotId c2 + 1\<rparr>, signals)
                         | (r, t2, c2, signals) \<Rightarrow> Some (r, c2, signals))
                    | (r, t1) \<Rightarrow> Some (r, c1, []))))"

subsection \<open>revertToSnapshot\<close>

text \<open>The loops write to the transaction's key-value object directly and ignore its codes.\<close>

definition kv_delete :: "bytes \<Rightarrow> coll \<Rightarrow> coll" where
  "kv_delete key c = c\<lparr>coll_kv := fst (deleteValue key (coll_kv c))\<rparr>"

definition kv_put :: "bytes \<Rightarrow> bytes \<Rightarrow> coll \<Rightarrow> coll" where
  "kv_put key val c = c\<lparr>coll_kv := fst (putValue key val (coll_kv c))\<rparr>"

definition isVersionKey :: "bytes \<Rightarrow> bool" where
  "isVersionKey key \<longleftrightarrow> key ! (length key - 2) = CHR '':''"

fun revertLoop :: "8 word list \<Rightarrow> store \<Rightarrow> bytes \<Rightarrow> bool \<Rightarrow> coll \<Rightarrow> coll" where
  "revertLoop sIds [] startKey isSingle t =
     (if isSingle \<and> startKey \<noteq> [] then kv_delete startKey t else t)"
| "revertLoop sIds ((key, v) # rest) startKey isSingle t =
     (if \<not> isDocKey key then (if isSingle \<and> startKey \<noteq> [] then kv_delete startKey t else t)
      else if isVersionKey key then
        (if chr_byte (last key) \<in> set sIds then revertLoop sIds rest startKey isSingle (kv_delete key t)
         else revertLoop sIds rest startKey False t)
      else revertLoop sIds rest key True (if isSingle \<and> startKey \<noteq> [] then kv_delete startKey t else t))"

definition entriesWith :: "kv \<Rightarrow> bytes \<Rightarrow> store" where
  "entriesWith k startKey =
     takeWhile (\<lambda>e. hasPrefix startKey (fst e)) (ki_rest (ki_seek startKey (kv_newIterator k)))"

definition deleteIndexValues :: "qt \<Rightarrow> kv \<Rightarrow> string \<Rightarrow> 8 word \<Rightarrow> coll \<Rightarrow> coll" where
  "deleteIndexValues Q k indexName sId t =
     fold (\<lambda>e. kv_delete (fst e)) (entriesWith k (constructIndexValueStartKey Q indexName sId)) t"

definition revertTx :: "qt \<Rightarrow> string list \<Rightarrow> 8 word list \<Rightarrow> coll \<Rightarrow> coll \<Rightarrow> coll" where
  "revertTx Q snapshots sIds c t =
     (let t1 = snd (putSnapshotsValue Q snapshots t);
          t2 = revertLoop sIds (kv_entries (coll_kv c)) [] False t1
      in fold (\<lambda>(fieldName, indexName). fold (deleteIndexValues Q (coll_kv c) indexName) sIds)
           (indexFields Q c) t2)"

text \<open>The commit with which both \<open>revertToSnapshot\<close> and \<open>removeSnapshot\<close> end.\<close>

definition commitReload :: "qt \<Rightarrow> bool \<Rightarrow> 8 word \<Rightarrow> coll \<Rightarrow> coll \<Rightarrow> (rcode \<times> coll \<times> observe_signal list) option" where
  "commitReload Q u sid t c =
     (case tx_writeTransaction Q t c of
        (success, t', c', signals) \<Rightarrow>
          map_option (\<lambda>(c'', signals'). (success, c'', signals @ signals'))
            (reloadObservers Q u (c'\<lparr>coll_snapshotId := sid\<rparr>))
      | (r, t', c', signals) \<Rightarrow> Some (r, c', signals))"

definition revertToSnapshot :: "qt \<Rightarrow> bool \<Rightarrow> string \<Rightarrow> coll \<Rightarrow> (rcode \<times> coll \<times> observe_signal list) option" where
  "revertToSnapshot Q u snapshotName c =
     (case getSnapshotId Q snapshotName c of
        (Inl r, c1) \<Rightarrow> Some (r, c1, [])
      | (Inr sid, c1) \<Rightarrow>
          (case getSnapshotsValue Q c1 of
             (Inl r, c2) \<Rightarrow> Some (r, c2, [])
           | (Inr snapshots, c2) \<Rightarrow>
               (case coll_newTransaction c2 of
                  None \<Rightarrow> None
                | Some t \<Rightarrow>
                    let sIds = map of_nat (rev [unat sid + 1 ..< length snapshots]);
                        kept = take (unat sid + 1) snapshots
                    in if kept = [] then None
                       else commitReload Q u sid
                              (revertTx Q (kept[length kept - 1 := ''__CURRENT'']) sIds c2 t) c2)))"

subsection \<open>removeSnapshot\<close>

definition setLast :: "bytes \<Rightarrow> 8 word \<Rightarrow> bytes" where
  "setLast key s = butlast key @ [byte_chr s]"

text \<open>What the loop does at the end of a document: the last version moved and the start key.\<close>

definition endDocument :: "bytes \<Rightarrow> bytes \<Rightarrow> bool \<Rightarrow> coll \<Rightarrow> coll" where
  "endDocument lastKey startKey removeStartKey t =
     (let t1 = (if lastKey \<noteq> [] then kv_delete lastKey t else t)
      in if startKey \<noteq> [] \<and> removeStartKey then kv_delete startKey t1 else t1)"

fun removeLoop :: "qt \<Rightarrow> 8 word \<Rightarrow> store \<Rightarrow> bytes \<Rightarrow> bytes \<Rightarrow> bool \<Rightarrow> coll \<Rightarrow> coll" where
  "removeLoop Q sid [] lastKey startKey removeStartKey t = endDocument lastKey startKey removeStartKey t"
| "removeLoop Q sid ((key, v) # rest) lastKey startKey removeStartKey t =
     (if \<not> isDocKey key then endDocument lastKey startKey removeStartKey t
      else if isVersionKey key then
        let sId = chr_byte (last key)
        in if sId > sid then
             let key' = setLast key (sId - 1)
             in if unmarshal Q v \<noteq> JUndefined
                then removeLoop Q sid rest key startKey False (kv_put key' v t)
                else removeLoop Q sid rest key startKey
                       (removeStartKey \<or> unat sId = unat sid + 1) (kv_delete key' t)
           else removeLoop Q sid rest lastKey startKey removeStartKey t
      else removeLoop Q sid rest [] key False (endDocument lastKey startKey removeStartKey t))"

text \<open>\<open>QByteArray::replace\<close>: every occurrence, from the left.\<close>

function replaceAll :: "bytes \<Rightarrow> bytes \<Rightarrow> bytes \<Rightarrow> bytes" where
  "replaceAll old new [] = []"
| "replaceAll old new (x # xs) =
     (if old \<noteq> [] \<and> hasPrefix old (x # xs)
      then new @ replaceAll old new (drop (length old) (x # xs))
      else x # replaceAll old new xs)"
  by pat_completeness auto
termination by (relation "measure (\<lambda>(b, a, xs). length xs)") auto

definition shiftLink :: "8 word \<Rightarrow> bytes \<Rightarrow> bytes" where
  "shiftLink sid linkKey =
     (let dsId = chr_byte (last linkKey) in if dsId > sid then setLast linkKey (dsId - 1) else linkKey)"

definition shiftIndexValues :: "qt \<Rightarrow> kv \<Rightarrow> string \<Rightarrow> 8 word \<Rightarrow> 8 word \<Rightarrow> coll \<Rightarrow> coll" where
  "shiftIndexValues Q k indexName sid sId t =
     (let startKey = constructIndexValueStartKey Q indexName sId;
          startKey1 = constructIndexValueStartKey Q indexName (sId + 1)
      in fold (\<lambda>(key, indexData).
           let indexValue = unmarshalIndexValue Q indexData;
               changed = (\<exists>l \<in> set indexValue. chr_byte (last l) > sid)
           in kv_put (replaceAll startKey1 startKey key)
                (if changed then marshalIndexValue Q (map (shiftLink sid) indexValue) else indexData))
           (entriesWith k startKey1) t)"

definition removeSnapshotTx :: "qt \<Rightarrow> 8 word \<Rightarrow> string list \<Rightarrow> coll \<Rightarrow> coll \<Rightarrow> coll" where
  "removeSnapshotTx Q sid snapshots c t =
     fold (\<lambda>(fieldName, indexName).
         fold (\<lambda>sId t. shiftIndexValues Q (coll_kv c) indexName sid sId
                         (deleteIndexValues Q (coll_kv c) indexName sId t))
           (map of_nat [unat sid ..< length snapshots]))
       (indexFields Q c)
       (removeLoop Q sid (kv_entries (coll_kv c)) [] [] False t)"

text \<open>
  The index loop counts in an \<open>unsigned char\<close> up to the number of snapshots: with 256 of
  them and an index it does not end.
\<close>

definition removeSnapshot :: "qt \<Rightarrow> bool \<Rightarrow> string \<Rightarrow> coll \<Rightarrow> (rcode \<times> coll \<times> observe_signal list) option" where
  "removeSnapshot Q u snapshotName c =
     (case getSnapshotId Q snapshotName c of
        (Inl r, c1) \<Rightarrow> Some (r, c1, [])
      | (Inr sid, c1) \<Rightarrow>
          (case getSnapshotsValue Q c1 of
             (Inl r, c2) \<Rightarrow> Some (r, c2, [])
           | (Inr snapshots, c2) \<Rightarrow>
               (case coll_newTransaction c2 of
                  None \<Rightarrow> None
                | Some t \<Rightarrow>
                    if length snapshots > 255 \<and> getIndexes Q c2 \<noteq> [] then None
                    else let t1 = removeSnapshotTx Q sid snapshots c2 t
                      in case putSnapshotsValue Q (take (unat sid) snapshots @ drop (unat sid + 1) snapshots) t1 of
                        (success, t2) \<Rightarrow> commitReload Q u (coll_snapshotId c2 - 1) t2 c2
                      | (r, t2) \<Rightarrow> Some (r, c2, []))))"

subsection \<open>A new snapshot leaves the documents as they are\<close>

lemma copyIndexLoop_ops:
  assumes "take 3 dst = ''iv:''" "kv_is_transaction (coll_kv c)"
  shows "\<exists>c'. copyIndexLoop src dst es c = (success, c') \<and> tx_ops (\<lambda>op. index_op op \<and> is_put op) c c'"
  using assms(2)
proof (induction es arbitrary: c)
  case (Cons e rest)
  obtain key val where e: "e = (key, val)" by force
  let ?k = "dst @ drop (length src) key"
  let ?c1 = "c\<lparr>coll_kv := kv_op (BatchPut ?k val) (coll_kv c)\<rparr>"
  have "length (take 3 dst) = 3" unfolding assms(1) by simp
  then have "length dst \<ge> 3" by (metis length_take min.cobounded1)
  then have "take 3 ?k = ''iv:''" using assms(1) by simp
  then have o: "tx_ops (\<lambda>op. index_op op \<and> is_put op) c ?c1"
    by (intro tx_ops_one) (simp add: index_op_def)
  show ?case
  proof (cases "hasPrefix src key")
    case True
    have put: "tx_putValue ?k val c = (success, ?c1)" by (rule tx_putValue_tx [OF Cons.prems])
    have "kv_is_transaction (coll_kv ?c1)" using tx_ops_state(5) [OF o] Cons.prems by simp
    then obtain c' where "copyIndexLoop src dst rest ?c1 = (success, c')"
      "tx_ops (\<lambda>op. index_op op \<and> is_put op) ?c1 c'"
      using Cons.IH by blast
    then show ?thesis using True put tx_ops_trans [OF o] e by auto
  qed (simp add: e)
qed simp

lemma copyIndexNames_ops:
  assumes "qt_ok Q" "\<forall>n \<in> set names. ascii n" "kv_is_transaction (coll_kv c)"
  shows "\<exists>c'. copyIndexNames Q dst src names c = (success, c') \<and> tx_ops (\<lambda>op. index_op op \<and> is_put op) c c'"
  using assms(2,3)
proof (induction names arbitrary: c)
  case (Cons n names)
  have "take 3 (constructIndexValueStartKey Q n dst) = ''iv:''"
    using indexKey_iv [OF assms(1), of n dst "[]"] Cons.prems(1) by (simp add: constructIndexValueKey_def)
  then obtain c1 where c1: "copyIndexLoop (constructIndexValueStartKey Q n src) (constructIndexValueStartKey Q n dst)
      (ki_rest (ki_seek (constructIndexValueStartKey Q n src) (kv_newIterator (coll_kv c)))) c = (success, c1)"
    "tx_ops (\<lambda>op. index_op op \<and> is_put op) c c1"
    using copyIndexLoop_ops Cons.prems(2) by blast
  obtain c2 where "copyIndexNames Q dst src names c1 = (success, c2)" "tx_ops (\<lambda>op. index_op op \<and> is_put op) c1 c2"
    using Cons.IH [of c1] Cons.prems tx_ops_state(5) [OF c1(2)] by auto
  then show ?case using c1 tx_ops_trans [OF c1(2)] by (auto simp: Let_def)
qed simp

text \<open>The content of the documents is the same, and no new key sorts before them.\<close>

definition docs_same :: "(bytes \<rightharpoonup> bytes) \<Rightarrow> (bytes \<rightharpoonup> bytes) \<Rightarrow> bool" where
  "docs_same m m' \<longleftrightarrow> (\<forall>k. isDocKey k \<longrightarrow> m' k = m k) \<and> (\<forall>k. m' k \<noteq> None \<longrightarrow> m k \<noteq> None \<or> ''d:'' \<le> k)"

lemma docs_same_docAt: "docs_same m m' \<Longrightarrow> docAt Q m' s i = docAt Q m s i"
  by (rule docAt_cong) (simp add: docs_same_def)

lemma docs_same_store:
  assumes d: "docs_same m m'" and s: "doc_store js m"
  shows "doc_store js m'"
proof -
  have doc: "m' k = m k" if "isDocKey k" for k using d that by (simp add: docs_same_def)
  have ge: "''d:'' \<le> k" if "m' k \<noteq> None" for k
    using d s that unfolding docs_same_def doc_store_def by blast
  have ex: "\<exists>i \<in> set js. k = constructDocumentStartKey i \<or> (\<exists>s. k = constructDocumentLinkKey i s)"
    if "m' k \<noteq> None" "isDocKey k" for k
    using s doc [OF that(2)] that unfolding doc_store_def by metis
  have st: "m' (constructDocumentStartKey i) \<noteq> None" if "i \<in> set js" for i
    using s doc [OF isDocKey_keys(1)] that unfolding doc_store_def by metis
  show ?thesis using s ge ex st unfolding doc_store_def by blast
qed

lemma newSnapshotTx_ok:
  assumes Q: "qt_ok Q" and t: "kv_only_puts (coll_kv t)" and ok: "kv_ok (coll_kv t)" and a: "ascii_indexes Q t"
  shows "\<exists>t1. newSnapshotTx Q name snapshots c t = (success, t1) \<and> kv_ok (coll_kv t1) \<and>
    kv_only_puts (coll_kv t1) \<and> kv_base (coll_kv t1) = kv_base (coll_kv t) \<and>
    docs_same (kv_read (coll_kv t)) (kv_read (coll_kv t1)) \<and>
    kv_read (coll_kv t1) ''in:'' = kv_read (coll_kv t) ''in:'' \<and>
    kv_read (coll_kv t1) ''s:'' =
      Some (marshalSnapshotsValue Q (snapshots[length snapshots - 1 := name] @ [''__CURRENT'']))"
proof -
  let ?d = "marshalSnapshotsValue Q (snapshots[length snapshots - 1 := name] @ [''__CURRENT''])"
  let ?c1 = "t\<lparr>coll_kv := kv_op (BatchPut ''s:'' ?d) (coll_kv t)\<rparr>"
  let ?P = "\<lambda>op. index_op op \<and> is_put op"
  have tx: "kv_is_transaction (coll_kv t)" by (rule kv_only_puts_transaction [OF t])
  have o1: "tx_ops is_put t ?c1" by (rule tx_ops_one) simp
  have r1: "kv_read (coll_kv ?c1) = (kv_read (coll_kv t))(''s:'' \<mapsto> ?d)"
    using kv_read_ops [OF ok, of "[BatchPut ''s:'' ?d]"] by simp
  have ok1: "kv_ok (coll_kv ?c1)" "kv_is_transaction (coll_kv ?c1)"
    using tx_ops_state(5,6) [OF o1] ok tx by simp_all
  have "getIndexes Q ?c1 = getIndexes Q t" by (simp add: getIndexes_read r1 [simplified])
  then have "ascii_indexes Q ?c1" using a by (simp add: ascii_indexes_def)
  then have "\<forall>n \<in> set (map snd (indexFields Q ?c1)). ascii n" using indexFields_ascii by fastforce
  then obtain t1 where t1: "copyIndexValues Q (coll_snapshotId c + 1) (coll_snapshotId c) ?c1 = (success, t1)"
    and o2: "tx_ops ?P ?c1 t1"
    using copyIndexNames_ops [OF Q _ ok1(2)] unfolding copyIndexValues_def by blast
  have o: "tx_ops is_put t t1" by (rule tx_ops_trans [OF o1 tx_ops_mono [OF o2]]) simp
  have r2: "kv_read (coll_kv t1) k = kv_read (coll_kv ?c1) k" if "take 3 k \<noteq> ''iv:''" for k
    using that by (intro tx_ops_read [OF o2 ok1(1)]) (auto simp: index_op_def)
  have "newSnapshotTx Q name snapshots c t = (success, t1)"
    by (simp only: newSnapshotTx_def putSnapshotsValue_def tx_putValue_tx [OF tx] prod.case rcode.case t1)
  moreover have "docs_same (kv_read (coll_kv t)) (kv_read (coll_kv t1))"
    unfolding docs_same_def
  proof (intro conjI allI impI)
    fix k
    assume k: "isDocKey k"
    then have "take 3 k \<noteq> ''iv:''" "k \<noteq> ''s:''"
      by (auto simp: isDocKey_iff prefix_def numeral_3_eq_3)
    then show "kv_read (coll_kv t1) k = kv_read (coll_kv t) k" using r2 [of k] r1 by simp
  next
    fix k
    assume "kv_read (coll_kv t1) k \<noteq> None"
    then show "kv_read (coll_kv t) k \<noteq> None \<or> ''d:'' \<le> k"
      using r2 [of k] r1 iv_after_docs [of k] by (cases "take 3 k = ''iv:''"; cases "k = ''s:''") auto
  qed
  ultimately show ?thesis
    using r2 [of "''s:''"] r2 [of "''in:''"] r1 tx_ops_state(6) [OF o ok] tx_ops_puts [OF o t] tx_ops_base [OF o tx]
    by simp
qed

lemma kv_read_getValue: "kv_read k key = Some v \<Longrightarrow> getValue k key = Inr v"
  by (simp add: kv_read_def split: sum.splits)

lemma newSnapshot_success:
  assumes Q: "qt_ok Q" and c: "coll_ok c" and a: "ascii_indexes Q c"
    and s: "getSnapshotsValue Q c = (Inr snapshots, c)" "snapshots \<noteq> []" "name \<notin> set snapshots"
  shows "\<exists>c' m' signals. newSnapshot Q name c = Some (success, c', signals) \<and> coll_ok c' \<and>
    coll_snapshotId c' = coll_snapshotId c + 1 \<and> map_of (kv_entries (coll_kv c')) = m' \<and>
    docs_same (map_of (kv_entries (coll_kv c))) m' \<and>
    getSnapshotsValue Q c' = (Inr (snapshots[length snapshots - 1 := name] @ [''__CURRENT'']), c') \<and>
    ascii_indexes Q c'"
proof -
  have rd: "kv_read (coll_kv c) = map_of (kv_entries (coll_kv c))"
    using c by (intro kv_read_entries) (simp_all add: coll_ok_def)
  obtain t where t: "coll_newTransaction c = Some t" "kv_ok (coll_kv t)" "kv_only_puts (coll_kv t)"
    "kv_read (coll_kv t) = kv_read (coll_kv c)"
    using coll_newTransaction_fresh [OF c] by blast
  have at: "ascii_indexes Q t" using a t(4) by (simp add: ascii_indexes_def getIndexes_read)
  obtain t1 where t1: "newSnapshotTx Q name snapshots c t = (success, t1)" "kv_ok (coll_kv t1)"
    "kv_only_puts (coll_kv t1)" "docs_same (kv_read (coll_kv t)) (kv_read (coll_kv t1))"
    "kv_read (coll_kv t1) ''in:'' = kv_read (coll_kv t) ''in:''"
    "kv_read (coll_kv t1) ''s:'' =
      Some (marshalSnapshotsValue Q (snapshots[length snapshots - 1 := name] @ [''__CURRENT'']))"
    using newSnapshotTx_ok [OF Q t(3,2) at, of name snapshots c] by blast
  obtain t2 c2 sg where cm: "tx_writeTransaction Q t1 c = (success, t2, c2, sg)"
    "committed c (kv_read (coll_kv t1)) c2"
    using commit_success [OF Q t1(2) kv_only_puts_committable [OF t1(3)]] by blast
  have "indexOf name snapshots = None" using s(3) by (induction snapshots) auto
  then have "newSnapshot Q name c = Some (success, c2\<lparr>coll_snapshotId := coll_snapshotId c2 + 1\<rparr>, sg)"
    using c t(1) t1(1) cm(1) s by (simp add: newSnapshot_def getSnapshotId_def coll_ok_def)
  moreover have "coll_ok (c2\<lparr>coll_snapshotId := coll_snapshotId c2 + 1\<rparr>)"
    using committed_ok [OF c cm(2)] by (simp add: coll_ok_def)
  moreover have "getValue (coll_kv c2) ''s:'' =
      Inr (marshalSnapshotsValue Q (snapshots[length snapshots - 1 := name] @ [''__CURRENT'']))"
    using cm(2) t1(6) by (intro kv_read_getValue) (simp add: committed_def)
  moreover have "ascii_indexes Q (c2\<lparr>coll_snapshotId := coll_snapshotId c2 + 1\<rparr>)"
    using a cm(2) t1(5) t(4) by (simp add: ascii_indexes_def getIndexes_read committed_def)
  ultimately show ?thesis
    using cm(2) t1(4) t(4) rd
    by (simp add: committed_def getSnapshotsValue_def unmarshal_snapshots [OF Q])
qed

end
