(* ===== verification/QDocVersions.thy ===== *)
theory QDocVersions
  imports QDocSnapshots
begin

text \<open>
  The documents of a collection across commits and snapshots: what \<open>find\<close> returns on the
  collection and on the snapshots of it after an insert, a removal or a new snapshot. These
  are the laws a client of QDocCollection relies on; the versions behind them are those of
  QDocIterator.
\<close>

subsection \<open>Ids without a document\<close>

text \<open>A document that is not among those of the layout has no version.\<close>

lemma latestVersion_empty:
  assumes "\<And>s. m (constructDocumentLinkKey i s) = None"
  shows "latestVersion m i n = []"
  by (induction n) (simp_all add: assms del: of_nat_Suc)

lemma doc_store_unknown:
  assumes ds: "doc_store js m" and i: "i \<notin> set js" and p: "\<And>j. j \<in> set js \<Longrightarrow> \<not> prefix i j"
  shows "m (constructDocumentLinkKey i s) = None"
proof (rule ccontr)
  assume "m (constructDocumentLinkKey i s) \<noteq> None"
  then obtain j where j: "j \<in> set js"
    "constructDocumentLinkKey i s = constructDocumentStartKey j \<or>
     (\<exists>s'. constructDocumentLinkKey i s = constructDocumentLinkKey j s')"
    using ds unfolding doc_store_def by (metis isDocKey_keys(2))
  then show False
  proof (elim disjE exE)
    assume "constructDocumentLinkKey i s = constructDocumentStartKey j"
    then show False using p [OF j(1)] by (simp add: linkKey_startKey)
  next
    fix s'
    assume "constructDocumentLinkKey i s = constructDocumentLinkKey j s'"
    then show False using i j(1) by (simp add: constructDocumentLinkKey_def constructDocumentStartKey_def)
  qed
qed

lemma docAt_unknown:
  "doc_store js m \<Longrightarrow> i \<notin> set js \<Longrightarrow> (\<And>j. j \<in> set js \<Longrightarrow> \<not> prefix i j) \<Longrightarrow> docAt Q m my i = JUndefined"
  by (simp add: docAt_def latestVersion_empty doc_store_unknown)

text \<open>The layout of a collection's current documents: no version after the current snapshot.\<close>

definition no_later :: "8 word \<Rightarrow> (bytes \<rightharpoonup> bytes) \<Rightarrow> bool" where
  "no_later sid m \<longleftrightarrow> (\<forall>i s. m (constructDocumentLinkKey i s) \<noteq> None \<longrightarrow> s \<le> sid)"

lemma doc_store_ids_prefix: "doc_store js m \<Longrightarrow> i \<in> set js \<Longrightarrow> j \<in> set js \<Longrightarrow> prefix i j \<Longrightarrow> i = j"
  by (simp add: doc_store_def)

subsection \<open>The documents after a removal\<close>

lemma doc_store_removed:
  assumes ds: "doc_store js m" and r: "doc_removed i sid m m'"
    and e: "\<And>s. s < sid \<Longrightarrow> m (constructDocumentLinkKey i s) = None"
    and l: "no_later sid m" and i: "i \<in> set js"
  shows "doc_store (removeAll i js) m'"
proof -
  have ch: "m' k = m k" if "isDocKey k" "k \<noteq> constructDocumentStartKey i" "k \<noteq> constructDocumentLinkKey i sid" for k
    using r that by (simp add: doc_removed_def doc_changed_def)
  have own: "m' (constructDocumentLinkKey i s) = None" for s
  proof (cases "s = sid")
    case True
    then show ?thesis using r by (simp add: doc_removed_def)
  next
    case False
    have "m (constructDocumentLinkKey i s) = None"
      using e [of s] l False unfolding no_later_def by (metis le_less not_less)
    moreover have "constructDocumentLinkKey i s \<noteq> constructDocumentStartKey i"
      using linkKey_startKey [of i s i] by simp
    moreover have "constructDocumentLinkKey i s \<noteq> constructDocumentLinkKey i sid" using False by simp
    ultimately show ?thesis using ch [OF isDocKey_keys(2), of i s] by metis
  qed
  have start: "m' (constructDocumentStartKey j) \<noteq> None" if "j \<in> set js" "j \<noteq> i" for j
  proof -
    have "constructDocumentStartKey j \<noteq> constructDocumentLinkKey i sid"
      using that ds i linkKey_startKey [of i sid j] unfolding doc_store_def by (metis prefix_def)
    then show ?thesis using that ch [of "constructDocumentStartKey j"] ds
      by (auto simp: doc_store_def constructDocumentStartKey_def isDocKey_def)
  qed
  have keys: "\<exists>j \<in> set (removeAll i js). k = constructDocumentStartKey j \<or> (\<exists>s. k = constructDocumentLinkKey j s)"
    if k: "m' k \<noteq> None" "isDocKey k" for k
  proof -
    have "k \<noteq> constructDocumentStartKey i" "k \<noteq> constructDocumentLinkKey i sid"
      using k r by (auto simp: doc_removed_def)
    then have "m k \<noteq> None" using ch [of k] k by simp
    then obtain j where j: "j \<in> set js" "k = constructDocumentStartKey j \<or> (\<exists>s. k = constructDocumentLinkKey j s)"
      using ds k(2) unfolding doc_store_def by metis
    then have "j \<noteq> i" using own k \<open>k \<noteq> constructDocumentStartKey i\<close> by auto
    then show ?thesis using j by auto
  qed
  have after: "''d:'' \<le> k" if "m' k \<noteq> None" for k
    using that r ds unfolding doc_removed_def doc_store_def by blast
  show ?thesis
    unfolding doc_store_def
  proof (intro conjI)
    show "sorted_wrt (\<lambda>i j. constructDocumentStartKey i < constructDocumentStartKey j) (removeAll i js)"
      using ds by (simp add: doc_store_def removeAll_filter_not_eq sorted_wrt_filter)
    show "\<forall>a \<in> set (removeAll i js). \<forall>b \<in> set (removeAll i js). prefix a b \<longrightarrow> a = b"
      using ds by (simp add: doc_store_def)
  qed (use start keys after in auto)
qed

lemma doc_store_gone:
  assumes ds: "doc_store js m" and g: "doc_gone Q i sid m m'" and l: "no_later sid m" and i: "i \<in> set js"
  shows "\<exists>js'. doc_store js' m' \<and> set js' \<subseteq> set js \<and> set js - {i} \<subseteq> set js'"
proof -
  consider "doc_written i sid (marshal Q JUndefined) m m'"
    | "doc_removed i sid m m'" "\<forall>s. s < sid \<longrightarrow> m (constructDocumentLinkKey i s) = None"
    using g by (auto simp: doc_gone_def)
  then show ?thesis
  proof cases
    case 1
    have "j = i" if "j \<in> set js" "prefix i j \<or> prefix j i" for j
      using that doc_store_ids_prefix [OF ds i that(1)] doc_store_ids_prefix [OF ds that(1) i] by metis
    then obtain js' where js': "set js' = insert i (set js)" "doc_store js' m'"
      using doc_store_written [OF ds 1] by metis
    show ?thesis by (rule exI [of _ js']) (use js' i in auto)
  next
    case 2
    then show ?thesis using doc_store_removed [OF ds 2(1) _ l i] by auto
  qed
qed

lemma in_shownDocs:
  "(d, j) \<in> set (shownDocs Q m my js) \<longleftrightarrow> j \<in> set js \<and> d = docAt Q m my j \<and> isObject d"
  unfolding set_shownDocs by blast

lemma shownDocs_gone:
  assumes ds: "doc_store js m" and g: "doc_gone Q i sid m m'" and i: "i \<in> set js"
    and js': "set js' \<subseteq> set js" "set js - {i} \<subseteq> set js'"
  shows "set (shownDocs Q m' sid js') = {(d, j). (d, j) \<in> set (shownDocs Q m sid js) \<and> j \<noteq> i}"
proof -
  have o: "docAt Q m' sid j = docAt Q m sid j" if "j \<in> set js" "j \<noteq> i" for j
  proof (rule docAt_changed_other [OF doc_gone_changed [OF g]])
    show "\<not> prefix j i" using that doc_store_ids_prefix [OF ds that(1) i] by metis
  qed
  have g: "docAt Q m' sid i = JUndefined" by (rule docAt_gone [OF g])
  have "(d, j) \<in> set (shownDocs Q m' sid js') \<longleftrightarrow> (d, j) \<in> set (shownDocs Q m sid js) \<and> j \<noteq> i" for d j
  proof (cases "j = i \<or> j \<notin> set js")
    case True
    then show ?thesis using g js'(1) by (auto simp: in_shownDocs)
  next
    case False
    then have "j \<in> set js'" using js'(2) by blast
    then show ?thesis using o False by (simp add: in_shownDocs)
  qed
  then show ?thesis by auto
qed

subsection \<open>find after a commit\<close>

abbreviation content :: "coll \<Rightarrow> bytes \<rightharpoonup> bytes" where
  "content c \<equiv> map_of (kv_entries (coll_kv c))"

lemma find_content:
  assumes "coll_ok c" "doc_store js (content c)" "wf_query (JObj query)" "fullSearch (getIndexes Q c) query"
  shows "coll_find Q u c query [] = Some (success,
    filter (\<lambda>(d, j). matches Q (JObj query) d) (shownDocs Q (content c) (coll_snapshotId c) js))"
  using find_shown [OF kv_entries_sorted assms(2-4)] assms(1) by (simp add: coll_ok_def)

text \<open>\<open>finds Q u query c c' g\<close>: \<open>find\<close> succeeds on both, and \<open>g\<close> takes the documents of \<open>c\<close> to those of \<open>c'\<close>.\<close>

definition finds :: "qt \<Rightarrow> bool \<Rightarrow> jobject \<Rightarrow> coll \<Rightarrow> coll \<Rightarrow> ((json \<times> bytes) set \<Rightarrow> (json \<times> bytes) set) \<Rightarrow> bool" where
  "finds Q u query c c' g \<longleftrightarrow> (\<exists>r r'. coll_find Q u c query [] = Some (success, r) \<and>
     coll_find Q u c' query [] = Some (success, r') \<and> set r' = g (set r))"

lemma finds_content:
  assumes "coll_ok c" "doc_store js (content c)" "coll_ok c'" "doc_store js' (content c')"
    and "wf_query (JObj query)" "fullSearch (getIndexes Q c) query" "fullSearch (getIndexes Q c') query"
    and "{e \<in> set (shownDocs Q (content c') (coll_snapshotId c') js'). matches Q (JObj query) (fst e)}
      = g {e \<in> set (shownDocs Q (content c) (coll_snapshotId c) js). matches Q (JObj query) (fst e)}"
  shows "finds Q u query c c' g"
  using find_content [OF assms(1,2,5,6), of u] find_content [OF assms(3,4,5,7), of u] assms(8)
  by (simp add: finds_def case_prod_beta)

text \<open>When the insert is not allowed, \<open>insertCommit\<close> does not succeed.\<close>

lemma insertCommit_rejected:
  assumes c: "coll_ok c" and i: "insertId e g doc0 = Some (doc, i, g')"
    and ic: "insertCommit Q u cfg e doc0 overwrite ir g c = Some (success, i, c')"
    and old: "docOld = getJsonValue Q (coll_kv c) (coll_snapshotId c) i"
  shows "(docOld = JUndefined \<or> overwrite) \<and>
    (docOld = JUndefined \<or> \<not> readOnlyKeyValid cfg \<or> ir \<or> \<not> isReadOnlyDoc Q cfg docOld)"
proof -
  obtain t where t: "coll_newTransaction c = Some t" "kv_entries (coll_kv t) = kv_entries (coll_kv c)"
    "coll_snapshotId t = coll_snapshotId c" "kv_base (coll_kv t) = coll_kv c"
    using coll_newTransaction_fresh [OF c] by blast
  have "kv_is_map (coll_kv t) = kv_is_map (coll_kv c)" using t(4) kv_is_map_tx by metis
  then have o: "getJsonValue Q (coll_kv t) (coll_snapshotId t) i = docOld"
    using old t(2,3) getJsonValue_base [of "coll_kv t" "coll_kv c"] by simp
  show ?thesis
  proof (rule ccontr)
    assume "\<not> ?thesis"
    then have "fst (tx_insert Q u cfg e doc0 [] overwrite ir g t) \<noteq> success"
      using o by (auto simp: tx_insert_def i Let_def)
    then show False using ic t(1) by (auto simp: insertCommit_def split: prod.splits rcode.splits)
  qed
qed

lemma insert_finds:
  assumes Q: "qt_ok Q" and c: "coll_ok c" and a: "ascii_indexes Q c" and ds: "doc_store js (content c)"
    and i: "insertId e g doc0 = Some (doc, i, g')" and wf: "wf_json (JObj doc0)"
    and p: "\<And>j. j \<in> set js \<Longrightarrow> prefix i j \<or> prefix j i \<Longrightarrow> j = i"
    and old: "getJsonValue Q (coll_kv c) (coll_snapshotId c) i = docOld"
    and ow: "docOld = JUndefined \<or> overwrite"
    and ro: "docOld = JUndefined \<or> \<not> readOnlyKeyValid cfg \<or> ir \<or> \<not> isReadOnlyDoc Q cfg docOld"
    and st: "stored = JObj (addUUID e cfg (docOld \<noteq> JUndefined) doc)"
  shows "\<exists>c' js'. insertCommit Q u cfg e doc0 overwrite ir g c = Some (success, i, c') \<and>
    coll_ok c' \<and> coll_snapshotId c' = coll_snapshotId c \<and>
    doc_changed i (coll_snapshotId c) (content c) (content c') \<and>
    set js' = insert i (set js) \<and> doc_store js' (content c') \<and>
    (\<forall>query. wf_query (JObj query) \<longrightarrow> fullSearch (getIndexes Q c) query \<longrightarrow> fullSearch (getIndexes Q c') query \<longrightarrow>
       finds Q u query c c' (\<lambda>r. {e \<in> r. snd e \<noteq> i} \<union>
         (if matches Q (JObj query) stored then {(stored, i)} else {})))"
proof -
  obtain c' m' where c': "insertCommit Q u cfg e doc0 overwrite ir g c = Some (success, i, c')"
    "committed c m' c'" and w: "doc_written i (coll_snapshotId c)
      (marshal Q (JObj (addUUID e cfg (docOld \<noteq> JUndefined) doc))) (content c) m'"
    using insertCommit_written [OF Q c a i old ow ro] by blast
  obtain js' where js': "set js' = insert i (set js)" "doc_store js' m'"
    using doc_store_written [OF ds w p] by blast
  have m: "content c' = m'" "coll_snapshotId c' = coll_snapshotId c" using c'(2) by (simp_all add: committed_def)
  have ok: "coll_ok c'" by (rule committed_ok [OF c c'(2)])
  have wf': "wf_json (JObj (addUUID e cfg (docOld \<noteq> JUndefined) doc))"
    by (rule addUUID_wf [OF insertId_wf(1) [OF i wf]])
  have s: "set (shownDocs Q m' (coll_snapshotId c) js') =
    insert (stored, i) {(d, j). (d, j) \<in> set (shownDocs Q (content c) (coll_snapshotId c) js) \<and> j \<noteq> i}"
    unfolding st using shownDocs_written [OF w Q wf' js'(1)] p by blast
  have F: "finds Q u query c c' (\<lambda>r. {e \<in> r. snd e \<noteq> i} \<union> (if matches Q (JObj query) stored then {(stored, i)} else {}))"
    if "wf_query (JObj query)" "fullSearch (getIndexes Q c) query" "fullSearch (getIndexes Q c') query" for query
    by (rule finds_content [OF c ds ok _ that, of js']) (use js'(2) in \<open>auto simp: m s\<close>)
  show ?thesis
    by (intro exI [of _ c'] exI [of _ js'] conjI allI impI c'(1) ok m(2) js'(1) F)
      (simp_all add: m js'(2) doc_written_changed [OF w])
qed

lemma remove_finds:
  assumes Q: "qt_ok Q" and c: "coll_ok c" and ni: "getIndexes Q c = []" and ds: "doc_store js (content c)"
    and l: "no_later (coll_snapshotId c) (content c)" and i: "i \<in> set js"
    and d: "docAt Q (content c) (coll_snapshotId c) i = d" "isObject d"
    and ro: "\<not> readOnlyKeyValid cfg \<or> ir \<or> \<not> isReadOnlyDoc Q cfg d"
  shows "\<exists>c' js'. removeCommit Q u u0 cfg i ir c = Some (success, c') \<and> coll_ok c' \<and>
    coll_snapshotId c' = coll_snapshotId c \<and> doc_changed i (coll_snapshotId c) (content c) (content c') \<and>
    set js' - {i} = set js - {i} \<and> doc_store js' (content c') \<and>
    (\<forall>query. wf_query (JObj query) \<longrightarrow> fullSearch (getIndexes Q c) query \<longrightarrow> fullSearch (getIndexes Q c') query \<longrightarrow>
       finds Q u query c c' (\<lambda>r. {e \<in> r. snd e \<noteq> i}))"
proof -
  obtain c' m' where c': "removeCommit Q u u0 cfg i ir c = Some (success, c')" "committed c m' c'"
    and g: "doc_gone Q i (coll_snapshotId c) (content c) m'"
    using removeCommit_gone [OF Q c ni ds i d ro] by blast
  obtain js' where js': "doc_store js' m'" "set js' \<subseteq> set js" "set js - {i} \<subseteq> set js'"
    using doc_store_gone [OF ds g l i] by blast
  have m: "content c' = m'" "coll_snapshotId c' = coll_snapshotId c" using c'(2) by (simp_all add: committed_def)
  have ok: "coll_ok c'" by (rule committed_ok [OF c c'(2)])
  have s: "set (shownDocs Q m' (coll_snapshotId c) js') =
    {(d, j). (d, j) \<in> set (shownDocs Q (content c) (coll_snapshotId c) js) \<and> j \<noteq> i}"
    by (rule shownDocs_gone [OF ds g i js'(2,3)])
  have F: "finds Q u query c c' (\<lambda>r. {e \<in> r. snd e \<noteq> i})"
    if "wf_query (JObj query)" "fullSearch (getIndexes Q c) query" "fullSearch (getIndexes Q c') query" for query
    by (rule finds_content [OF c ds ok _ that, of js']) (use js'(1) in \<open>auto simp: m s\<close>)
  show ?thesis
    by (intro exI [of _ c'] exI [of _ js'] conjI allI impI c'(1) ok m(2) F)
      (use m js' doc_gone_changed [OF g] in auto)
qed

subsection \<open>find on snapshots\<close>

lemma snapshot_find:
  assumes "sorted_keys (kv_entries (coll_kv c))" "doc_store js (content c)"
    and "wf_query (JObj query)" "fullSearch (getIndexes Q c) query"
  shows "coll_find Q u (QDocCollectionSnapshot c my) query [] = Some (success,
    filter (\<lambda>(d, j). matches Q (JObj query) d) (shownDocs Q (content c) my js))"
proof -
  have "getIndexes Q (QDocCollectionSnapshot c my) = getIndexes Q c"
    by (simp add: getIndexes_def QDocCollectionSnapshot_def QDocCollection_kv_def)
  then show ?thesis
    using find_shown [of "QDocCollectionSnapshot c my" js query Q u "[]"] assms
    by (simp add: QDocCollectionSnapshot_def QDocCollection_kv_def)
qed

text \<open>A change of version \<open>sid\<close> of one document is not seen in an earlier snapshot.\<close>

lemma shownDocs_isolated:
  assumes ch: "doc_changed i sid m m'" and ds: "doc_store js m" and ds': "doc_store js' m'"
    and js: "set js' - {i} = set js - {i}" and i: "i \<in> set js \<or> i \<in> set js'" and my: "my < sid"
  shows "set (shownDocs Q m' my js') = set (shownDocs Q m my js)"
proof -
  have own: "docAt Q m' my i = docAt Q m my i" by (rule docAt_changed_earlier [OF ch my])
  have np: "\<not> prefix j i \<and> \<not> prefix i j" if j: "j \<in> set js \<or> j \<in> set js'" "j \<noteq> i" for j
  proof -
    have "j \<in> set js" "j \<in> set js'" using j js by blast+
    then show ?thesis
      using i j(2) doc_store_ids_prefix [OF ds, of i j] doc_store_ids_prefix [OF ds, of j i]
        doc_store_ids_prefix [OF ds', of i j] doc_store_ids_prefix [OF ds', of j i] by metis
  qed
  have other: "docAt Q m' my j = docAt Q m my j" if "j \<in> set js \<or> j \<in> set js'" "j \<noteq> i" for j
    using np [OF that] by (intro docAt_changed_other [OF ch]) simp
  have gone: "docAt Q m my i = JUndefined" if "i \<notin> set js"
    using that np by (intro docAt_unknown [OF ds]) metis+
  have gone': "docAt Q m' my i = JUndefined" if "i \<notin> set js'"
    using that np by (intro docAt_unknown [OF ds']) metis+
  have "e \<in> set (shownDocs Q m' my js') \<longleftrightarrow> e \<in> set (shownDocs Q m my js)" for e
  proof (cases "snd e = i")
    case True
    then obtain d where e: "e = (d, i)" by (cases e) simp
    have u: "\<not> isObject JUndefined" by simp
    show ?thesis unfolding e in_shownDocs using own gone gone' u by metis
  next
    case False
    then have "snd e \<in> set js' \<longleftrightarrow> snd e \<in> set js" using js by blast
    then show ?thesis using False other [of "snd e"] by (cases e) (auto simp: in_shownDocs)
  qed
  then show ?thesis by blast
qed

lemma snapshot_isolated:
  assumes c: "coll_ok c" "coll_ok c'" and ch: "doc_changed i (coll_snapshotId c) (content c) (content c')"
    and ds: "doc_store js (content c)" "doc_store js' (content c')"
    and js: "set js' - {i} = set js - {i}" "i \<in> set js \<or> i \<in> set js'" and my: "my < coll_snapshotId c"
    and q: "wf_query (JObj query)" "fullSearch (getIndexes Q c) query" "fullSearch (getIndexes Q c') query"
  shows "finds Q u query (QDocCollectionSnapshot c my) (QDocCollectionSnapshot c' my) (\<lambda>r. r)"
proof -
  have s: "sorted_keys (kv_entries (coll_kv c))" "sorted_keys (kv_entries (coll_kv c'))"
    using c kv_entries_sorted by (simp_all add: coll_ok_def)
  show ?thesis
    using snapshot_find [OF s(1) ds(1) q(1,2), of u my] snapshot_find [OF s(2) ds(2) q(1,3), of u my]
      shownDocs_isolated [OF ch ds js my, of Q]
    by (simp add: finds_def case_prod_beta)
qed

lemma insert_isolated:
  assumes Q: "qt_ok Q" and c: "coll_ok c" and a: "ascii_indexes Q c" and ds: "doc_store js (content c)"
    and i: "insertId e g doc0 = Some (doc, i, g')" and wf: "wf_json (JObj doc0)"
    and p: "\<And>j. j \<in> set js \<Longrightarrow> prefix i j \<or> prefix j i \<Longrightarrow> j = i"
    and ic: "insertCommit Q u cfg e doc0 overwrite ir g c = Some (success, i, c')" and my: "my < coll_snapshotId c"
    and q: "wf_query (JObj query)" "fullSearch (getIndexes Q c) query" "fullSearch (getIndexes Q c') query"
  shows "finds Q u query (QDocCollectionSnapshot c my) (QDocCollectionSnapshot c' my) (\<lambda>r. r)"
proof -
  let ?old = "getJsonValue Q (coll_kv c) (coll_snapshotId c) i"
  have "(?old = JUndefined \<or> overwrite) \<and>
      (?old = JUndefined \<or> \<not> readOnlyKeyValid cfg \<or> ir \<or> \<not> isReadOnlyDoc Q cfg ?old)"
    by (rule insertCommit_rejected [OF c i ic refl])
  then obtain js' where "coll_ok c'" "doc_changed i (coll_snapshotId c) (content c) (content c')"
    "set js' = insert i (set js)" "doc_store js' (content c')"
    using insert_finds [OF Q c a ds i wf p refl _ _ refl, of overwrite cfg ir u] ic by auto
  then show ?thesis using snapshot_isolated [OF c _ _ ds _ _ _ my q] by auto
qed

text \<open>A new snapshot: the collection and the snapshot just made show the documents there were.\<close>

lemma docAt_next:
  assumes l: "no_later sid m" and s: "sid < 255"
  shows "docAt Q m (sid + 1) i = docAt Q m sid i"
proof -
  have u: "unat (sid + 1) = Suc (unat sid)"
    using s by (simp add: unat_word_ariths word_less_nat_alt)
  have "(of_nat (Suc (unat sid)) :: 8 word) = sid + 1" by simp
  moreover have "\<not> sid + 1 \<le> sid"
    using u by (simp add: word_le_nat_alt)
  then have "m (constructDocumentLinkKey i (sid + 1)) = None"
    using l unfolding no_later_def by blast
  ultimately have "latestVersion m i (Suc (unat sid)) = latestVersion m i (unat sid)"
    by (simp del: of_nat_Suc)
  then show ?thesis by (simp add: docAt_def u)
qed

lemma newSnapshot_finds:
  assumes Q: "qt_ok Q" and c: "coll_ok c" and a: "ascii_indexes Q c" and ds: "doc_store js (content c)"
    and l: "no_later (coll_snapshotId c) (content c)" "coll_snapshotId c < 255"
    and s: "getSnapshotsValue Q c = (Inr snapshots, c)" "snapshots \<noteq> []" "name \<notin> set snapshots"
  shows "\<exists>c' signals. newSnapshot Q name c = Some (success, c', signals) \<and> coll_ok c' \<and>
    coll_snapshotId c' = coll_snapshotId c + 1 \<and> doc_store js (content c') \<and>
    no_later (coll_snapshotId c') (content c') \<and>
    getSnapshotsValue Q c' = (Inr (snapshots[length snapshots - 1 := name] @ [''__CURRENT'']), c') \<and>
    (\<forall>query. wf_query (JObj query) \<longrightarrow> fullSearch (getIndexes Q c) query \<longrightarrow> fullSearch (getIndexes Q c') query \<longrightarrow>
       coll_find Q u c' query [] = coll_find Q u c query [] \<and>
       coll_find Q u (QDocCollectionSnapshot c' (coll_snapshotId c)) query [] = coll_find Q u c query [])"
proof -
  obtain c' sg where c': "newSnapshot Q name c = Some (success, c', sg)" "coll_ok c'"
    "coll_snapshotId c' = coll_snapshotId c + 1" "docs_same (content c) (content c')"
    "getSnapshotsValue Q c' = (Inr (snapshots[length snapshots - 1 := name] @ [''__CURRENT'']), c')"
    using newSnapshot_success [OF Q c a s] by blast
  have ds': "doc_store js (content c')" by (rule docs_same_store [OF c'(4) ds])
  have doc: "docAt Q (content c') (coll_snapshotId c) i = docAt Q (content c) (coll_snapshotId c) i"
    "docAt Q (content c') (coll_snapshotId c + 1) i = docAt Q (content c) (coll_snapshotId c) i" for i
    using docs_same_docAt [OF c'(4)] docAt_next [OF l] by simp_all
  have shown: "shownDocs Q (content c') sid js = shownDocs Q (content c) (coll_snapshotId c) js"
    if "sid = coll_snapshotId c \<or> sid = coll_snapshotId c + 1" for sid
    using that doc by (auto simp: shownDocs_def)
  have s': "sorted_keys (kv_entries (coll_kv c'))"
    using c'(2) kv_entries_sorted by (simp add: coll_ok_def)
  have "s \<le> coll_snapshotId c + 1" if "content c' (constructDocumentLinkKey i s) \<noteq> None" for i s
  proof -
    have "s \<le> coll_snapshotId c"
      using that c'(4) l(1) unfolding docs_same_def no_later_def by (metis isDocKey_keys(2))
    also have "\<dots> \<le> coll_snapshotId c + 1"
      using l(2) by (simp add: word_le_nat_alt word_less_nat_alt unat_word_ariths)
    finally show ?thesis .
  qed
  then have "no_later (coll_snapshotId c') (content c')" by (simp add: no_later_def c'(3))
  moreover have "coll_find Q u c' query [] = coll_find Q u c query [] \<and>
      coll_find Q u (QDocCollectionSnapshot c' (coll_snapshotId c)) query [] = coll_find Q u c query []"
    if q: "wf_query (JObj query)" "fullSearch (getIndexes Q c) query" "fullSearch (getIndexes Q c') query" for query
    using find_content [OF c ds q(1,2), of u] find_content [OF c'(2) ds' q(1,3), of u]
      snapshot_find [OF s' ds' q(1,3), of u] shown
    by (simp add: c'(3))
  ultimately show ?thesis using c' ds' by blast
qed

end
