(* ===== verification/QDocDemo.thy ===== *)
theory QDocDemo
  imports QDocVersions QtDemo
begin

text \<open>
  Concrete collections on which the witnesses of the properties run: one document \<open>a\<close> at
  version 0 on either kind of database, and a read-only configuration.
\<close>

definition demo_doc :: jobject where
  "demo_doc = [(''_id'', JStr ''a''), (''ro'', JBool True)]"

definition demo_db :: store where
  "demo_db =
     [(constructDocumentStartKey ''a'', []),
      (constructDocumentLinkKey ''a'' 0, marshal qt_demo (JObj demo_doc)),
      (''s:'', marshalSnapshotsValue qt_demo [''__CURRENT''])]"

definition demo_coll :: coll where
  "demo_coll = QDocCollection_kv (KVMap demo_db) ''/db'' typeCollection"

definition demo_level :: coll where
  "demo_level = QDocCollection_kv (KVLevelDB \<lparr>ldb_data = demo_db, ldb_status = None\<rparr>) ''/db'' typeCollection"

definition demo_cfg :: config where
  "demo_cfg = QDocdbCommonConfig [] ''ro''"

definition demo_env :: env where
  "demo_env = \<lparr>env_msecs = 1000, env_uuid = ''{u}''\<rparr>"

definition demo_gen :: idgen where
  "demo_gen = QDocIdGen 1 2"

lemma demo_sorted: "sorted_keys demo_db"
  by (simp add: demo_db_def constructDocumentStartKey_def constructDocumentLinkKey_def)

lemma demo_entries [simp]:
  "kv_entries (coll_kv demo_coll) = demo_db" "kv_entries (coll_kv demo_level) = demo_db"
  "coll_snapshotId demo_coll = 0" "coll_snapshotId demo_level = 0"
  by (simp_all add: demo_coll_def demo_level_def QDocCollection_kv_def)

lemma demo_coll_ok: "coll_ok demo_coll" "coll_ok demo_level"
  using demo_sorted
  by (simp_all add: coll_ok_def demo_coll_def demo_level_def QDocCollection_kv_def)

lemma demo_doc_store: "doc_store [''a''] (map_of demo_db)"
  by (auto simp: doc_store_def demo_db_def isDocKey_def constructDocumentStartKey_def
      constructDocumentLinkKey_def split: if_splits)

lemma demo_no_later: "no_later sid (map_of demo_db)"
proof -
  have "i @ '':'' \<noteq> ''a''" for i by (cases i) simp_all
  moreover have "constructDocumentLinkKey i s \<noteq> ''s:''" for i s
    by (simp add: constructDocumentLinkKey_def constructDocumentStartKey_def)
  ultimately have "s \<le> sid" if "map_of demo_db (constructDocumentLinkKey i s) \<noteq> None" for i s
    using that by (auto simp: demo_db_def linkKey_startKey split: if_splits)
  then show ?thesis unfolding no_later_def by blast
qed

text \<open>What the demo collections show.\<close>

lemma demo_reads:
  "getValue (coll_kv demo_coll) ''in:'' = Inl ''Not found''"
  "getValue (coll_kv demo_level) ''in:'' = Inl ''NotFound: ''"
  "getValue (coll_kv demo_coll) ''s:'' = Inr (marshalSnapshotsValue qt_demo [''__CURRENT''])"
  by (simp_all add: demo_coll_def demo_level_def QDocCollection_kv_def kvmap_getValue_def kvldb_getValue_def
      leveldb_Get_def demo_db_def constructDocumentStartKey_def constructDocumentLinkKey_def)

lemma demo_indexes [simp]: "getIndexes qt_demo demo_coll = []" "getIndexes qt_demo demo_level = []"
  by (simp_all add: getIndexes_def demo_reads)

lemma demo_ascii: "ascii_indexes qt_demo demo_coll" "ascii_indexes qt_demo demo_level"
  by (simp_all add: ascii_indexes_def)

lemma demo_snapshots: "getSnapshotsValue qt_demo demo_coll = (Inr [''__CURRENT''], demo_coll)"
  by (simp add: getSnapshotsValue_def demo_reads unmarshal_snapshots [OF qt_demo_ok])

lemma demo_wf: "wf_json (JObj demo_doc)"
  by (simp add: demo_doc_def)

lemma demo_docAt: "docAt qt_demo (map_of demo_db) 0 ''a'' = JObj demo_doc"
  using unmarshal_marshal_object [OF qt_demo_ok demo_wf]
  by (simp add: docAt_def demo_db_def linkKey_startKey constructDocumentLinkKey_def constructDocumentStartKey_def)

lemma demo_getJsonValue:
  "getJsonValue qt_demo (coll_kv demo_coll) 0 ''a'' = JObj demo_doc"
  "getJsonValue qt_demo (coll_kv demo_level) 0 ''a'' = JObj demo_doc"
  using getJsonValue_docAt [of "coll_kv demo_coll" "[''a'']" "''a''" qt_demo 0]
    getJsonValue_docAt [of "coll_kv demo_level" "[''a'']" "''a''" qt_demo 0]
  by (simp_all add: demo_sorted demo_doc_store demo_docAt)

lemma demo_insertId:
  "insertId demo_env demo_gen demo_doc = Some (demo_doc, ''a'', demo_gen)"
  "insertId demo_env demo_gen [(''_id'', JStr ''b'')] = Some ([(''_id'', JStr ''b'')], ''b'', demo_gen)"
  by (simp_all add: insertId_def demo_doc_def)

lemma demo_absent: "getJsonValue qt_demo (coll_kv demo_coll) my ''b'' = JUndefined"
  by (rule getJsonValue_absent_map)
    (simp_all add: demo_coll_def QDocCollection_kv_def demo_db_def constructDocumentLinkKey_def
      constructDocumentStartKey_def)

lemma demo_readOnly: "readOnlyKeyValid demo_cfg" "isReadOnlyDoc qt_demo demo_cfg (JObj demo_doc)"
  by (simp_all add: demo_cfg_def QDocdbCommonConfig_def isReadOnlyDoc_def getJsonValueByPath_field
      demo_doc_def obj_value_def)

end
