(* ===== verification/QDocDatabase.thy ===== *)
theory QDocDatabase
  imports QDocSnapshots
begin

text \<open>
  qdocdatabase.h and qdocdatabase.cpp: a database is a directory and the collections opened
  in it so far. A collection object is identified by its index in \<open>collList\<close>, which only
  grows. What the file system and the URL class answer is the record \<open>host\<close>.
\<close>

record host =
  h_mkpath :: "string \<Rightarrow> bool"
  h_canonicalPath :: "string \<Rightarrow> string"
  h_openKV :: "string \<Rightarrow> bool \<Rightarrow> kv"
  h_urlPath :: "string \<Rightarrow> string"
  h_urlQuery :: "string \<Rightarrow> (string \<times> string) list option"

record database =
  db_isOpened :: bool
  db_baseDir :: string
  db_collList :: "coll list"

definition QDocDatabase_new :: database where
  "QDocDatabase_new = \<lparr>db_isOpened = False, db_baseDir = [], db_collList = []\<rparr>"

text \<open>\<open>h_mkpath\<close>: the directory exists or could be made.\<close>

definition db_open :: "host \<Rightarrow> string \<Rightarrow> database \<Rightarrow> bool \<times> database" where
  "db_open H baseDir db =
     (let opened = h_mkpath H baseDir
      in (opened, db\<lparr>db_isOpened := opened, db_baseDir := h_canonicalPath H baseDir\<rparr>))"

fun findColl :: "string \<Rightarrow> coll list \<Rightarrow> nat option" where
  "findColl baseDir [] = None"
| "findColl baseDir (c # cs) =
     (if coll_baseDir c = baseDir then Some 0 else map_option Suc (findColl baseDir cs))"

definition db_collection :: "qt \<Rightarrow> host \<Rightarrow> string \<Rightarrow> bool \<Rightarrow> database \<Rightarrow> nat option \<times> database" where
  "db_collection Q H collName inMemory db =
     (let baseDir = db_baseDir db @ ''/'' @ collName
      in case findColl baseDir (db_collList db) of
           Some i \<Rightarrow> (Some i, db)
         | None \<Rightarrow>
             (case coll_open Q (h_openKV H baseDir inMemory) baseDir of
                None \<Rightarrow> (None, db)
              | Some c \<Rightarrow> (Some (length (db_collList db)), db\<lparr>db_collList := db_collList db @ [c]\<rparr>)))"

subsection \<open>One object per collection\<close>

definition db_ok :: "database \<Rightarrow> bool" where
  "db_ok db \<longleftrightarrow> distinct (map coll_baseDir (db_collList db))"

lemma findColl_some:
  "findColl d cs = Some i \<Longrightarrow> i < length cs \<and> coll_baseDir (cs ! i) = d"
  by (induction cs arbitrary: i) (auto split: if_splits)

lemma findColl_none: "findColl d cs = None \<longleftrightarrow> d \<notin> coll_baseDir ` set cs"
  by (induction cs) auto

lemma emit_baseDir: "coll_baseDir (fst (emitObserver i c)) = coll_baseDir c"
  by (simp add: emitObserver_def Let_def)

lemma write_baseDir:
  "coll_baseDir (fst (snd (snd (tx_writeTransaction Q t c)))) = coll_baseDir c"
proof -
  have "coll_baseDir (fst (emitObservers Q p)) = coll_baseDir p" for p
    using emitObservers_state [of Q p] by auto
  then show ?thesis
    by (simp add: tx_writeTransaction_def Let_def case_prod_beta split: option.split prod.split)
qed

lemma getLastSnapshotId_baseDir: "coll_baseDir (snd (getLastSnapshotId Q c)) = coll_baseDir c"
  by (simp add: getLastSnapshotId_def getSnapshotsValue_def split: sum.split)

lemma QDocCollection_dir_baseDir: "coll_baseDir (QDocCollection_dir Q k d) = d"
proof -
  have "coll_baseDir (QDocCollection_kv k d ct) = d" for k ct by (simp add: QDocCollection_kv_def)
  then show ?thesis
    using getLastSnapshotId_baseDir [of Q "QDocCollection_kv k d typeCollection"]
    by (auto simp: QDocCollection_dir_def Let_def write_baseDir split: option.split sum.split prod.split)
qed

lemma db_collection_ok:
  assumes "db_ok db" "db_collection Q H name mem db = (r, db')"
  shows "db_ok db'" "r = Some i \<Longrightarrow> i < length (db_collList db') \<and>
      coll_baseDir (db_collList db' ! i) = db_baseDir db @ ''/'' @ name"
    "take (length (db_collList db)) (db_collList db') = db_collList db"
proof -
  let ?d = "db_baseDir db @ ''/'' @ name"
  have new: "coll_baseDir c = ?d" if "coll_open Q k ?d = Some c" for k c
    using that QDocCollection_dir_baseDir [of Q k ?d] by (auto simp: coll_open_def Let_def split: if_splits)
  show "db_ok db'" "r = Some i \<Longrightarrow> i < length (db_collList db') \<and> coll_baseDir (db_collList db' ! i) = ?d"
    "take (length (db_collList db)) (db_collList db') = db_collList db"
    using assms new findColl_none [of ?d "db_collList db"]
    by (auto simp: db_collection_def db_ok_def Let_def dest: findColl_some split: option.splits)
qed

lemma db_collection_again:
  assumes "db_collection Q H name mem db = (Some i, db')"
  shows "db_collection Q H name mem' db' = (Some i, db')"
proof -
  let ?d = "db_baseDir db @ ''/'' @ name"
  have new: "coll_baseDir c = ?d" if "coll_open Q k ?d = Some c" for k c
    using that QDocCollection_dir_baseDir [of Q k ?d] by (auto simp: coll_open_def Let_def split: if_splits)
  have app: "findColl ?d (cs @ [c]) = Some (length cs)" if "findColl ?d cs = None" "coll_baseDir c = ?d" for cs c
    using that by (induction cs) (auto split: if_splits)
  show ?thesis using assms new app by (auto simp: db_collection_def Let_def split: option.splits)
qed

end
