(* ===== verification/QDocLink.thy ===== *)
theory QDocLink
  imports QtJson
begin

text \<open>
  qdocdblinkbase.h and qdocdblinkbase.cpp: the messages between client and server and their
  framing on the socket. A message is a \<open>QVariantMap\<close>; on the wire it is the length of its
  serialized form as a little-endian 32-bit integer, followed by that form. The serializer
  is Qt's and a parameter of the model (\<open>wire\<close>).
\<close>

subsection \<open>Values\<close>

datatype qvariant =
    QInvalid
  | QNull
  | QInt int
  | QBool bool
  | QDouble rat
  | QString string
  | QByteArray bytes
  | QVariantList "qvariant list"
  | QVariantMap "(string \<times> qvariant) list"

type_synonym variantmap = "(string \<times> qvariant) list"

fun jsonToVariant :: "json \<Rightarrow> qvariant" where
  "jsonToVariant JUndefined = QInvalid"
| "jsonToVariant JNull = QNull"
| "jsonToVariant (JBool b) = QBool b"
| "jsonToVariant (JNum r) = QDouble r"
| "jsonToVariant (JStr s) = QString s"
| "jsonToVariant (JArr xs) = QVariantList (map jsonToVariant xs)"
| "jsonToVariant (JObj obj) = QVariantMap (map (\<lambda>e. (fst e, jsonToVariant (snd e))) obj)"

fun variantToJson :: "qvariant \<Rightarrow> json" where
  "variantToJson QInvalid = JNull"
| "variantToJson QNull = JNull"
| "variantToJson (QInt i) = JNum (of_int i)"
| "variantToJson (QBool b) = JBool b"
| "variantToJson (QDouble r) = JNum r"
| "variantToJson (QString s) = JStr s"
| "variantToJson (QByteArray b) = JStr b"
| "variantToJson (QVariantList xs) = JArr (map variantToJson xs)"
| "variantToJson (QVariantMap m) = JObj (map (\<lambda>e. (fst e, variantToJson (snd e))) m)"

text \<open>The conversions the program uses, on the types it uses them for.\<close>

fun vInt :: "qvariant \<Rightarrow> int" where
  "vInt (QInt i) = i"
| "vInt (QBool b) = (if b then 1 else 0)"
| "vInt _ = 0"

fun vBool :: "qvariant \<Rightarrow> bool" where
  "vBool (QBool b) = b"
| "vBool (QInt i) = (i \<noteq> 0)"
| "vBool _ = False"

fun vString :: "qvariant \<Rightarrow> string" where
  "vString (QString s) = s"
| "vString (QByteArray b) = b"
| "vString _ = []"

fun vMap :: "qvariant \<Rightarrow> variantmap" where
  "vMap (QVariantMap m) = m"
| "vMap _ = []"

fun vList :: "qvariant \<Rightarrow> qvariant list" where
  "vList (QVariantList xs) = xs"
| "vList _ = []"

definition vIsNull :: "qvariant \<Rightarrow> bool" where
  "vIsNull v \<longleftrightarrow> v = QInvalid \<or> v = QNull"

definition vObject :: "qvariant \<Rightarrow> jobject" where
  "vObject v = toObject (variantToJson (QVariantMap (vMap v)))"

subsection \<open>Messages\<close>

datatype linkType =
    typeFind | typeFindOne | typeFindReply | typeFindOneReply | typeCount | typeCountReply
  | typeCreateIndex | typeNewTransaction | typeNewTransactionReply | typeWriteTransaction
  | typeDiscardTransaction | typeInsert | typeInsertReply | typeRemove | typeRemoveId | typeSet
  | typeNewSnapshot | typeRevertToSnapshot | typeRemoveSnapshot | typeGetSnapshotList
  | typeGetSnapshotListReply | typeObserve | typeObserveReply | typeObserveData | typeUnobserve
  | typeGetModified | typeGetModifiedReply | typeExclusiveLock | typeUnlock | typeUnknown

definition QDOCDB_FUNCMAP :: "(linkType \<times> string) list" where
  "QDOCDB_FUNCMAP =
     [(typeFind, ''find''), (typeFindOne, ''findOne''), (typeFindReply, ''findReply''),
      (typeFindOneReply, ''findOneReply''), (typeCount, ''count''), (typeCountReply, ''countReply''),
      (typeCreateIndex, ''createIndex''), (typeNewTransaction, ''newTransaction''),
      (typeNewTransactionReply, ''newTransactionReply''), (typeWriteTransaction, ''writeTransaction''),
      (typeDiscardTransaction, ''discardTransaction''), (typeInsert, ''insert''),
      (typeInsertReply, ''insertReply''), (typeRemove, ''remove''), (typeRemoveId, ''removeId''),
      (typeSet, ''set''), (typeNewSnapshot, ''newSnapshot''), (typeRevertToSnapshot, ''revertToSnapshot''),
      (typeRemoveSnapshot, ''removeSnapshot''), (typeGetSnapshotList, ''getSnapshotList''),
      (typeGetSnapshotListReply, ''getSnapshotListReply''), (typeObserve, ''observe''),
      (typeObserveReply, ''observeReply''), (typeObserveData, ''observeData''),
      (typeUnobserve, ''unobserve''), (typeGetModified, ''getModified''),
      (typeGetModifiedReply, ''getModifiedReply''), (typeExclusiveLock, ''exclusiveLock''),
      (typeUnlock, ''unlock''), (typeUnknown, ''unknown'')]"

definition funcName :: "linkType \<Rightarrow> string" where
  "funcName ty = (case map_of QDOCDB_FUNCMAP ty of Some s \<Rightarrow> s | None \<Rightarrow> [])"

text \<open>\<open>QMap::key\<close> gives the first key with the value, and the first enumerator when there is none.\<close>

definition funcType :: "string \<Rightarrow> linkType" where
  "funcType s = (case filter (\<lambda>e. snd e = s) QDOCDB_FUNCMAP of e # _ \<Rightarrow> fst e | [] \<Rightarrow> typeFind)"

record linkobj =
  lo_map :: variantmap
  lo_type :: linkType

definition lo_get :: "linkobj \<Rightarrow> string \<Rightarrow> qvariant" where
  "lo_get lo key = (case map_of (lo_map lo) key of Some v \<Rightarrow> v | None \<Rightarrow> QInvalid)"

definition lo_set :: "string \<Rightarrow> qvariant \<Rightarrow> linkobj \<Rightarrow> linkobj" where
  "lo_set key v lo = lo\<lparr>lo_map := smap_put key v (lo_map lo)\<rparr>"

definition assignType :: "linkobj \<Rightarrow> linkobj" where
  "assignType lo = (if lo_map lo = [] then lo else lo\<lparr>lo_type := funcType (vString (lo_get lo ''func''))\<rparr>)"

text \<open>An object made without a map has no type yet; \<open>typeUnknown\<close> stands for it.\<close>

definition QDocdbLinkObject :: "variantmap \<Rightarrow> linkobj" where
  "QDocdbLinkObject m = assignType \<lparr>lo_map = m, lo_type = typeUnknown\<rparr>"

definition newLinkObject :: "int \<Rightarrow> linkType \<Rightarrow> linkobj" where
  "newLinkObject i ty =
     QDocdbLinkObject (smap_put ''func'' (QString (funcName ty)) (smap_put ''id'' (QInt i) []))"

subsection \<open>The wire format\<close>

record wire =
  writeMap :: "variantmap \<Rightarrow> bytes"
  readMap :: "bytes \<Rightarrow> variantmap"

text \<open>What Qt's stream of a map does: a map is read back as it was written, within the size of an int.\<close>

definition wire_ok :: "wire \<Rightarrow> bool" where
  "wire_ok W \<longleftrightarrow> (\<forall>m. readMap W (writeMap W m) = m \<and> writeMap W m \<noteq> [])"

definition le32 :: "int \<Rightarrow> bytes" where
  "le32 n = map (\<lambda>i. char_of (nat ((n div 256 ^ i) mod 256))) [0, 1, 2, 3]"

definition of_le32 :: "bytes \<Rightarrow> int" where
  "of_le32 bs = signed_take_bit 31
     (\<Sum>i \<leftarrow> [0, 1, 2, 3]. int (of_char (bs ! i)) * 256 ^ i)"

definition lo_marshal :: "wire \<Rightarrow> linkobj \<Rightarrow> bytes" where
  "lo_marshal W lo = (let mapData = writeMap W (lo_map lo) in le32 (int (length mapData)) @ mapData)"

definition lo_unmarshal :: "wire \<Rightarrow> bytes \<Rightarrow> linkobj" where
  "lo_unmarshal W bs = QDocdbLinkObject (readMap W (drop 4 bs))"

subsection \<open>readyRead\<close>

record linkrx =
  rx_socket :: bytes
  rx_data :: bytes
  rx_length :: int

definition rx_new :: linkrx where
  "rx_new = \<lparr>rx_socket = [], rx_data = [], rx_length = 0\<rparr>"

text \<open>The header is read when no message is under way and four bytes are there.\<close>

definition rx_header :: "linkrx \<Rightarrow> linkrx option" where
  "rx_header s =
     (if rx_length s = 0 then
        if length (rx_socket s) < 4 then None
        else Some (s\<lparr>rx_data := take 4 (rx_socket s), rx_socket := drop 4 (rx_socket s),
                     rx_length := of_le32 (take 4 (rx_socket s))\<rparr>)
      else Some s)"

text \<open>\<open>read\<close> with a negative size reads nothing.\<close>

definition rx_body :: "linkrx \<Rightarrow> linkrx" where
  "rx_body s =
     (let maxLength = rx_length s - int (length (rx_data s)) + 4
      in s\<lparr>rx_data := rx_data s @ take (nat maxLength) (rx_socket s),
           rx_socket := drop (nat maxLength) (rx_socket s)\<rparr>)"

fun readyRead :: "wire \<Rightarrow> nat \<Rightarrow> linkrx \<Rightarrow> (linkobj list \<times> linkrx) option" where
  "readyRead W 0 s = None"
| "readyRead W (Suc fuel) s =
     (if rx_socket s = [] then Some ([], s)
      else case rx_header s of
        None \<Rightarrow> Some ([], s)
      | Some s1 \<Rightarrow>
          if rx_length s1 = 0 then Some ([], s1)
          else let s2 = rx_body s1
            in if rx_length s2 = int (length (rx_data s2)) - 4 then
                 let lo = lo_unmarshal W (rx_data s2)
                 in map_option (\<lambda>(los, s'). (if lo_map lo = [] then los else lo # los, s'))
                      (readyRead W fuel (s2\<lparr>rx_length := 0, rx_data := []\<rparr>))
               else readyRead W fuel s2)"

text \<open>Bytes arrive on the socket and \<open>readyRead\<close> is called.\<close>

definition rx_arrive :: "wire \<Rightarrow> bytes \<Rightarrow> linkrx \<Rightarrow> (linkobj list \<times> linkrx) option" where
  "rx_arrive W bs s =
     (let s' = s\<lparr>rx_socket := rx_socket s @ bs\<rparr> in readyRead W (Suc (length (rx_socket s'))) s')"

fun rx_arrivals :: "wire \<Rightarrow> bytes list \<Rightarrow> linkrx \<Rightarrow> (linkobj list \<times> linkrx) option" where
  "rx_arrivals W [] s = Some ([], s)"
| "rx_arrivals W (bs # chunks) s =
     (case rx_arrive W bs s of
        None \<Rightarrow> None
      | Some (los, s') \<Rightarrow> map_option (\<lambda>(los', s''). (los @ los', s'')) (rx_arrivals W chunks s'))"

subsection \<open>Documents travel unchanged\<close>

lemma variantToJson_jsonToVariant: "wf_json v \<Longrightarrow> variantToJson (jsonToVariant v) = v"
proof (induction v)
  case (JArr xs)
  then show ?case by (simp add: map_idI)
next
  case (JObj obj)
  have "map (\<lambda>e. (fst e, variantToJson (jsonToVariant (snd e)))) obj = obj"
  proof (rule map_idI)
    fix e
    assume e: "e \<in> set obj"
    then have "wf_json (snd e)" using JObj.prems by auto
    then show "(fst e, variantToJson (jsonToVariant (snd e))) = e"
      using JObj.IH [OF e, of "snd e"] by (cases e) auto
  qed
  then show ?case by (simp add: comp_def)
qed simp_all

lemma funcType_funcName: "funcType (funcName ty) = ty"
  by (cases ty) (simp_all add: funcType_def funcName_def QDOCDB_FUNCMAP_def)

lemma newLinkObject_type: "lo_type (newLinkObject i ty) = ty"
  by (simp add: newLinkObject_def QDocdbLinkObject_def assignType_def lo_get_def funcType_funcName)

subsection \<open>The length header\<close>

lemma length_le32 [simp]: "length (le32 n) = 4"
  by (simp add: le32_def)

lemma int_digits:
  fixes n :: int
  shows "n mod 256 + (n div 256 mod 256) * 256 + (n div 65536 mod 256) * 65536 + (n div 16777216 mod 256) * 16777216
    = n mod 4294967296"
proof -
  have m: "(256::int) * 256 = 65536" "(65536::int) * 256 = 16777216" "(16777216::int) * 256 = 4294967296"
    by simp_all
  have "n mod (256 * 256) = 256 * (n div 256 mod 256) + n mod 256"
    by (rule zmod_zmult2_eq) simp
  moreover have "n mod (65536 * 256) = 65536 * (n div 65536 mod 256) + n mod 65536"
    by (rule zmod_zmult2_eq) simp
  moreover have "n mod (16777216 * 256) = 16777216 * (n div 16777216 mod 256) + n mod 16777216"
    by (rule zmod_zmult2_eq) simp
  ultimately show ?thesis unfolding m by linarith
qed

lemma of_le32_le32:
  assumes "0 \<le> n" "n < 2 ^ 31"
  shows "of_le32 (le32 n) = n"
proof -
  have byte: "int (of_char (char_of (nat (k mod 256)) :: char)) = k mod 256" for k :: int
    by (simp add: of_char_of nat_mod_distrib zmod_int)
  have "(\<Sum>i \<leftarrow> [0, 1, 2, 3]. int (of_char (le32 n ! i)) * 256 ^ i)
      = n mod 256 + (n div 256 mod 256) * 256 + (n div 65536 mod 256) * 65536 + (n div 16777216 mod 256) * 16777216"
    by (simp add: le32_def byte numeral_2_eq_2 numeral_3_eq_3)
  also have "\<dots> = n" using assms unfolding int_digits by simp
  finally show ?thesis
    using assms by (simp add: of_le32_def signed_take_bit_int_eq_self)
qed

subsection \<open>Splitting a stream into messages\<close>

text \<open>The complete messages of a byte stream, without their headers, and the bytes that are left.\<close>

function splitStream :: "bytes \<Rightarrow> bytes list \<times> bytes" where
  "splitStream bs =
     (let n = of_le32 (take 4 bs)
      in if length bs < 4 \<or> n \<le> 0 \<or> length bs < nat n + 4 then ([], bs)
         else let (fs, r) = splitStream (drop (nat n + 4) bs) in (take (nat n) (drop 4 bs) # fs, r))"
  by auto
termination by (relation "measure length") auto

declare splitStream.simps [simp del]

text \<open>Every header of the stream is positive.\<close>

function goodStream :: "bytes \<Rightarrow> bool" where
  "goodStream bs =
     (let n = of_le32 (take 4 bs)
      in if length bs < 4 then True else if n \<le> 0 then False else if length bs < nat n + 4 then True
         else goodStream (drop (nat n + 4) bs))"
  by auto
termination by (relation "measure length") auto

declare goodStream.simps [simp del]

lemma split_append:
  "goodStream (xs @ ys) \<Longrightarrow>
   splitStream (xs @ ys) = (fst (splitStream xs) @ fst (splitStream (snd (splitStream xs) @ ys)),
     snd (splitStream (snd (splitStream xs) @ ys))) \<and> goodStream (snd (splitStream xs) @ ys) \<and> goodStream xs"
proof (induction "length xs" arbitrary: xs rule: less_induct)
  case less
  let ?n = "of_le32 (take 4 xs)"
  show ?case
  proof (cases "length xs < 4 \<or> length xs < nat ?n + 4")
    case True
    have "splitStream xs = ([], xs)" using True by (auto simp: splitStream.simps [of xs] Let_def)
    moreover have "goodStream xs"
    proof (cases "length xs < 4")
      case False
      then have "0 < ?n" using less.prems by (simp add: goodStream.simps [of "xs @ ys"] Let_def split: if_splits)
      then show ?thesis using True False by (simp add: goodStream.simps [of xs] Let_def)
    qed (simp add: goodStream.simps [of xs])
    ultimately show ?thesis using less.prems by simp
  next
    case False
    let ?xs = "drop (nat ?n + 4) xs"
    have d: "drop (nat ?n + 4) (xs @ ys) = ?xs @ ys" "take 4 (xs @ ys) = take 4 xs" using False by simp_all
    have n: "0 < ?n" and g: "goodStream (?xs @ ys)"
      using less.prems False d by (auto simp: goodStream.simps [of "xs @ ys"] Let_def split: if_splits)
    have "length ?xs < length xs" using False unfolding length_drop by linarith
    note IH = less.hyps [OF this g]
    have "splitStream xs = (take (nat ?n) (drop 4 xs) # fst (splitStream ?xs), snd (splitStream ?xs))"
      using False n by (simp add: splitStream.simps [of xs] Let_def case_prod_beta)
    moreover have "splitStream (xs @ ys) =
        (take (nat ?n) (drop 4 xs) # fst (splitStream (?xs @ ys)), snd (splitStream (?xs @ ys)))"
      using False n d by (simp add: splitStream.simps [of "xs @ ys"] Let_def case_prod_beta)
    moreover have "goodStream xs" using IH n by (simp add: goodStream.simps [of xs] Let_def)
    ultimately show ?thesis using IH by simp
  qed
qed

text \<open>The state of the receiver between two calls, and the stream it has still to deliver.\<close>

definition rx_ok :: "linkrx \<Rightarrow> bool" where
  "rx_ok s \<longleftrightarrow>
     (if rx_length s = 0 then rx_data s = []
      else 0 < rx_length s \<and> 4 \<le> length (rx_data s) \<and> of_le32 (take 4 (rx_data s)) = rx_length s \<and>
           int (length (rx_data s)) < rx_length s + 4)"

definition rx_stream :: "linkrx \<Rightarrow> bytes" where
  "rx_stream s = rx_data s @ rx_socket s"

lemma rx_header_ok:
  assumes "rx_ok s" "rx_header s = Some s1" "goodStream (rx_stream s)"
  shows "rx_stream s1 = rx_stream s" "0 < rx_length s1" "4 \<le> length (rx_data s1)"
    "of_le32 (take 4 (rx_data s1)) = rx_length s1" "int (length (rx_data s1)) < rx_length s1 + 4"
    "length (rx_socket s1) \<le> length (rx_socket s)"
    "rx_length s = 0 \<Longrightarrow> length (rx_socket s1) < length (rx_socket s)"
proof -
  have "0 < of_le32 (take 4 (rx_socket s))" if "rx_length s = 0" "\<not> length (rx_socket s) < 4"
    using assms(1,3) that
    by (simp add: goodStream.simps [of "rx_socket s"] rx_stream_def rx_ok_def Let_def split: if_splits)
  then show "rx_stream s1 = rx_stream s" "0 < rx_length s1" "4 \<le> length (rx_data s1)"
    "of_le32 (take 4 (rx_data s1)) = rx_length s1" "int (length (rx_data s1)) < rx_length s1 + 4"
    "length (rx_socket s1) \<le> length (rx_socket s)"
    "rx_length s = 0 \<Longrightarrow> length (rx_socket s1) < length (rx_socket s)"
    using assms(1,2) by (auto simp: rx_header_def rx_ok_def rx_stream_def split: if_splits)
qed

lemma rx_body_ok:
  assumes "4 \<le> length (rx_data s)" "of_le32 (take 4 (rx_data s)) = rx_length s"
    "int (length (rx_data s)) < rx_length s + 4"
  shows "rx_stream (rx_body s) = rx_stream s" "rx_length (rx_body s) = rx_length s"
    "take 4 (rx_data (rx_body s)) = take 4 (rx_data s)"
    "rx_length s = int (length (rx_data (rx_body s))) - 4 \<Longrightarrow>
       length (rx_data (rx_body s)) = nat (rx_length s) + 4"
    "rx_length s \<noteq> int (length (rx_data (rx_body s))) - 4 \<Longrightarrow>
       rx_socket (rx_body s) = [] \<and> int (length (rx_data (rx_body s))) < rx_length s + 4"
    "rx_socket s \<noteq> [] \<Longrightarrow> length (rx_socket (rx_body s)) < length (rx_socket s)"
    "4 \<le> length (rx_data (rx_body s))"
  using assms by (auto simp: rx_body_def rx_stream_def Let_def min_def split: if_splits)

definition deliver :: "wire \<Rightarrow> bytes list \<Rightarrow> linkobj list" where
  "deliver W fs = filter (\<lambda>lo. lo_map lo \<noteq> []) (map (\<lambda>f. QDocdbLinkObject (readMap W f)) fs)"

lemma split_incomplete:
  "length bs < 4 \<or> int (length bs) < of_le32 (take 4 bs) + 4 \<Longrightarrow> splitStream bs = ([], bs)"
  by (auto simp: splitStream.simps [of bs] Let_def)

lemma split_rest: "splitStream (snd (splitStream bs)) = ([], snd (splitStream bs))"
proof (induction bs rule: splitStream.induct)
  case (1 bs)
  show ?case
  proof (cases "length bs < 4 \<or> of_le32 (take 4 bs) \<le> 0 \<or> length bs < nat (of_le32 (take 4 bs)) + 4")
    case True
    then have "splitStream bs = ([], bs)" by (simp add: splitStream.simps [of bs] Let_def)
    then show ?thesis by simp
  next
    case False
    then show ?thesis
      using 1 [OF refl False] by (simp add: splitStream.simps [of bs] Let_def case_prod_beta)
  qed
qed

lemma split_frame:
  assumes "length d = nat n + 4" "of_le32 (take 4 d) = n" "0 < n"
  shows "splitStream (d @ bs) = (drop 4 d # fst (splitStream bs), snd (splitStream bs))"
    "goodStream (d @ bs) = goodStream bs"
  using assms
  by (simp_all add: splitStream.simps [of "d @ bs"] goodStream.simps [of "d @ bs"] Let_def case_prod_beta)

lemma readyRead_split:
  assumes "rx_ok s" "goodStream (rx_stream s)" "length (rx_socket s) < fuel"
  shows "\<exists>s'. readyRead W fuel s = Some (deliver W (fst (splitStream (rx_stream s))), s') \<and>
    rx_ok s' \<and> rx_stream s' = snd (splitStream (rx_stream s))"
  using assms
proof (induction fuel arbitrary: s)
  case (Suc fuel)
  have stop: "splitStream (rx_stream s) = ([], rx_stream s)" if "rx_socket s = [] \<or> rx_header s = None"
    using that Suc.prems(1)
    by (intro split_incomplete) (auto simp: rx_stream_def rx_ok_def rx_header_def split: if_splits)
  show ?case
  proof (cases "rx_socket s = [] \<or> rx_header s = None")
    case True
    then show ?thesis using stop Suc.prems(1) by (auto simp: deliver_def)
  next
    case False
    then obtain s1 where s1: "rx_header s = Some s1" and ne: "rx_socket s \<noteq> []" by auto
    note h = rx_header_ok [OF Suc.prems(1) s1 Suc.prems(2)]
    note b = rx_body_ok [OF h(3,4,5)]
    have dec: "length (rx_socket (rx_body s1)) < length (rx_socket s)"
      using h(6,7) b(6) s1 ne by (cases "rx_socket s1 = []") (auto simp: rx_header_def rx_body_def Let_def split: if_splits)
    show ?thesis
    proof (cases "rx_length s1 = int (length (rx_data (rx_body s1))) - 4")
      case True
      let ?s3 = "(rx_body s1)\<lparr>rx_length := 0, rx_data := []\<rparr>"
      have st: "rx_stream s = rx_data (rx_body s1) @ rx_socket (rx_body s1)"
        using h(1) b(1) by (simp add: rx_stream_def)
      have fr: "of_le32 (take 4 (rx_data (rx_body s1))) = rx_length s1" using b(3) h(4) by simp
      note sp = split_frame [OF b(4) [OF True] fr h(2)]
      have "rx_ok ?s3" "rx_stream ?s3 = rx_socket (rx_body s1)" by (simp_all add: rx_ok_def rx_stream_def)
      moreover have "goodStream (rx_socket (rx_body s1))" using Suc.prems(2) sp(2) st by simp
      ultimately obtain s' where s': "readyRead W fuel ?s3 =
          Some (deliver W (fst (splitStream (rx_socket (rx_body s1)))), s')" "rx_ok s'"
          "rx_stream s' = snd (splitStream (rx_socket (rx_body s1)))"
        using Suc.IH [of ?s3] dec Suc.prems(3) by auto
      have "readyRead W (Suc fuel) s = Some (deliver W (fst (splitStream (rx_stream s))), s')"
        using ne s1 h(2) b(2) True s' by (simp add: st sp Let_def deliver_def lo_unmarshal_def)
      then show ?thesis using s' by (simp add: st sp)
    next
      case False
      have "rx_ok (rx_body s1)" using b(2,3,5,7) h(2,4) False by (simp add: rx_ok_def)
      then obtain s' where s': "readyRead W fuel (rx_body s1) =
          Some (deliver W (fst (splitStream (rx_stream s))), s')" "rx_ok s'"
          "rx_stream s' = snd (splitStream (rx_stream s))"
        using Suc.IH [of "rx_body s1"] dec Suc.prems(2,3) b(1) h(1) by auto
      have "readyRead W (Suc fuel) s = readyRead W fuel (rx_body s1)"
        using ne s1 h(2) b(2) False by (simp add: Let_def)
      then show ?thesis using s' by simp
    qed
  qed
qed simp

subsection \<open>Any chunking of the stream delivers the messages\<close>

lemma rx_arrivals_split:
  assumes "rx_ok s" "goodStream (rx_stream s @ concat chunks)" "splitStream (rx_stream s) = ([], rx_stream s)"
  shows "\<exists>s'. rx_arrivals W chunks s = Some (deliver W (fst (splitStream (rx_stream s @ concat chunks))), s')
    \<and> rx_ok s' \<and> rx_stream s' = snd (splitStream (rx_stream s @ concat chunks))"
  using assms
proof (induction chunks arbitrary: s)
  case Nil
  then show ?case by (simp add: deliver_def)
next
  case (Cons bs chunks)
  let ?s0 = "s\<lparr>rx_socket := rx_socket s @ bs\<rparr>"
  have st0: "rx_stream ?s0 = rx_stream s @ bs" "rx_ok ?s0"
    using Cons.prems(1) by (simp_all add: rx_stream_def rx_ok_def)
  note sp = split_append [of "rx_stream s @ bs" "concat chunks"]
  have g: "goodStream (rx_stream s @ bs)"
    and g2: "goodStream (snd (splitStream (rx_stream s @ bs)) @ concat chunks)"
    using sp Cons.prems(2) by simp_all
  obtain s1 where s1: "rx_arrive W bs s = Some (deliver W (fst (splitStream (rx_stream s @ bs))), s1)" "rx_ok s1"
      "rx_stream s1 = snd (splitStream (rx_stream s @ bs))"
    using readyRead_split [OF st0(2), of "Suc (length (rx_socket ?s0))" W] g st0(1)
    by (auto simp: rx_arrive_def Let_def simp del: readyRead.simps)
  obtain s2 where "rx_arrivals W chunks s1 =
      Some (deliver W (fst (splitStream (rx_stream s1 @ concat chunks))), s2)" "rx_ok s2"
      "rx_stream s2 = snd (splitStream (rx_stream s1 @ concat chunks))"
    using Cons.IH [OF s1(2)] g2 s1(3) split_rest by auto
  then show ?case using s1 sp Cons.prems(2) by (auto simp: deliver_def)
qed

text \<open>The stream a sender writes.\<close>

definition sendable :: "wire \<Rightarrow> linkobj \<Rightarrow> bool" where
  "sendable W lo \<longleftrightarrow> lo_map lo \<noteq> [] \<and> length (writeMap W (lo_map lo)) < 2 ^ 31 \<and> lo = QDocdbLinkObject (lo_map lo)"

lemma split_sent:
  assumes "wire_ok W" "\<forall>lo \<in> set los. sendable W lo"
  shows "splitStream (concat (map (lo_marshal W) los)) = (map (\<lambda>lo. writeMap W (lo_map lo)) los, [])
    \<and> goodStream (concat (map (lo_marshal W) los))"
  using assms(2)
proof (induction los)
  case Nil
  then show ?case by (simp add: splitStream.simps [of "[]"] goodStream.simps [of "[]"])
next
  case (Cons lo los)
  let ?d = "writeMap W (lo_map lo)" and ?rest = "concat (map (lo_marshal W) los)"
  have sz: "int (length ?d) < 2 ^ 31" "0 < int (length ?d)"
    using Cons.prems assms(1) by (auto simp: sendable_def wire_ok_def)
  have m: "lo_marshal W lo = le32 (int (length ?d)) @ ?d" by (simp add: lo_marshal_def Let_def)
  have t: "of_le32 (take 4 (lo_marshal W lo)) = int (length ?d)"
    unfolding m using of_le32_le32 [OF _ sz(1)] by simp
  have l: "length (lo_marshal W lo) = nat (int (length ?d)) + 4" unfolding m by simp
  show ?case
    using split_frame [OF l t sz(2), of ?rest] Cons by (simp add: m)
qed

lemma deliver_sent:
  assumes "wire_ok W" "\<forall>lo \<in> set los. sendable W lo"
  shows "deliver W (map (\<lambda>lo. writeMap W (lo_map lo)) los) = los"
proof -
  have "QDocdbLinkObject (readMap W (writeMap W (lo_map lo))) = lo \<and> lo_map lo \<noteq> []" if "lo \<in> set los" for lo
    using assms that by (simp add: wire_ok_def sendable_def)
  then show ?thesis using assms(2) by (induction los) (simp_all add: deliver_def)
qed

lemma rx_arrivals_sent:
  assumes "wire_ok W" "\<forall>lo \<in> set los. sendable W lo" "concat chunks = concat (map (lo_marshal W) los)"
  shows "rx_arrivals W chunks rx_new = Some (los, rx_new)"
proof -
  have n: "rx_ok rx_new" "rx_stream rx_new = []" by (simp_all add: rx_ok_def rx_stream_def rx_new_def)
  note sp = split_sent [OF assms(1,2)]
  obtain s' where s': "rx_arrivals W chunks rx_new = Some (los, s')" "rx_ok s'" "rx_stream s' = []"
    using rx_arrivals_split [OF n(1), of chunks W] sp assms(3) n(2) deliver_sent [OF assms(1,2)]
    by (auto simp: split_incomplete)
  then have "s' = rx_new" by (cases s') (auto simp: rx_ok_def rx_stream_def rx_new_def split: if_splits)
  then show ?thesis using s' by simp
qed

text \<open>A negative length makes the loop of \<open>readyRead\<close> run for ever as soon as a byte is there.\<close>

lemma readyRead_negative:
  assumes "rx_length s < 0" "rx_socket s \<noteq> []" "rx_length s - int (length (rx_data s)) + 4 \<le> 0"
    "rx_length s \<noteq> int (length (rx_data s)) - 4"
  shows "readyRead W fuel s = None"
proof (induction fuel)
  case (Suc fuel)
  have "rx_body s = s" using assms(3) by (simp add: rx_body_def Let_def)
  then show ?case using Suc assms by (simp add: rx_header_def Let_def)
qed simp

lemma readyRead_hangs:
  assumes "4 < length bs" "of_le32 (take 4 bs) < 0"
  shows "readyRead W fuel (rx_new\<lparr>rx_socket := bs\<rparr>) = None"
proof (cases fuel)
  case (Suc f)
  let ?s1 = "\<lparr>rx_socket = drop 4 bs, rx_data = take 4 bs, rx_length = of_le32 (take 4 bs)\<rparr>"
  have h: "rx_header (rx_new\<lparr>rx_socket := bs\<rparr>) = Some ?s1"
    using assms(1) by (simp add: rx_header_def rx_new_def)
  have b: "rx_body ?s1 = ?s1" using assms by (simp add: rx_body_def Let_def)
  have "readyRead W f ?s1 = None" using assms by (intro readyRead_negative) auto
  then show ?thesis using Suc h b assms by (auto simp: Let_def)
qed simp

end
