(* ===== verification/QDocServer.thy ===== *)
theory QDocServer
  imports QDocDatabase QDocLink
begin

text \<open>
  qdocdbserver.h and qdocdbserver.cpp: the server's state, its dispatch of a message, the
  slots that run later from the event loop, and the end of a connection. A client is a
  number, a collection object is the name of its database and its index there, and a
  transaction is kept with the collection it was made from. A message sent is an element
  of the list an operation returns, with its receiver.

  The result \<open>None\<close> is undefined behaviour of the code below.
\<close>

subsection \<open>State\<close>

type_synonym client = nat
type_synonym collref = "string \<times> nat"
type_synonym sends = "(client \<times> linkobj) list"

datatype event = ObserveQueryChanged int "json list" | OnUnlocked client

record server =
  srv_baseDir :: string
  srv_transactionId :: int
  srv_transactions :: "(int \<times> (collref \<times> coll)) list"
  srv_databases :: "(string \<times> database) list"
  srv_clients :: "client list"
  srv_databaseLocks :: "(string \<times> client) list"
  srv_transactionClient :: "(int \<times> client) list"
  srv_observeClient :: "(int \<times> client) list"
  srv_observeCollection :: "(int \<times> collref) list"
  srv_idGen :: idgen
  srv_connected :: "collref list"
  srv_unlockWait :: "(client \<times> linkobj list) list"
  srv_events :: "event list"

text \<open>
  The last three fields are kept by other objects of the program: \<open>srv_connected\<close> are the
  collections whose signal is connected to the server, \<open>srv_unlockWait\<close> are the queues of
  the links, \<open>srv_events\<close> is the event loop's queue.
\<close>

definition srv_new :: "string \<Rightarrow> idgen \<Rightarrow> server" where
  "srv_new baseDir g =
     \<lparr>srv_baseDir = baseDir, srv_transactionId = 0, srv_transactions = [], srv_databases = [],
      srv_clients = [], srv_databaseLocks = [], srv_transactionClient = [], srv_observeClient = [],
      srv_observeCollection = [], srv_idGen = g, srv_connected = [], srv_unlockWait = [], srv_events = []\<rparr>"

definition srv_coll :: "collref \<Rightarrow> server \<Rightarrow> coll option" where
  "srv_coll ref srv =
     (case map_of (srv_databases srv) (fst ref) of
        None \<Rightarrow> None
      | Some db \<Rightarrow> if snd ref < length (db_collList db) then Some (db_collList db ! snd ref) else None)"

definition srv_putColl :: "collref \<Rightarrow> coll \<Rightarrow> server \<Rightarrow> server" where
  "srv_putColl ref c srv =
     (case map_of (srv_databases srv) (fst ref) of
        None \<Rightarrow> srv
      | Some db \<Rightarrow> srv\<lparr>srv_databases :=
          smap_put (fst ref) (db\<lparr>db_collList := (db_collList db)[snd ref := c]\<rparr>) (srv_databases srv)\<rparr>)"

text \<open>A signal of a collection is queued when the collection is connected.\<close>

definition srv_emit :: "collref \<Rightarrow> observe_signal list \<Rightarrow> server \<Rightarrow> server" where
  "srv_emit ref signals srv =
     (if ref \<in> set (srv_connected srv)
      then srv\<lparr>srv_events := srv_events srv @ map (\<lambda>(i, reply). ObserveQueryChanged i reply) signals\<rparr>
      else srv)"

definition srv_update :: "collref \<Rightarrow> coll \<Rightarrow> observe_signal list \<Rightarrow> server \<Rightarrow> server" where
  "srv_update ref c signals srv = srv_emit ref signals (srv_putColl ref c srv)"

subsection \<open>Transaction numbers\<close>

text \<open>
  One round of the loop, with the local \<open>id\<close>. The increment of an \<open>int\<close> wraps around here;
  the counter never gets there when it starts at 0 (shown below for fewer than \<open>2 ^ 31\<close>
  transactions).
\<close>

fun nextTransactionLoop :: "nat \<Rightarrow> int \<Rightarrow> server \<Rightarrow> (int \<times> server) option" where
  "nextTransactionLoop 0 i srv = None"
| "nextTransactionLoop (Suc fuel) i srv =
     (if i < 0 \<or> smap_has i (srv_transactions srv) then
        let i' = srv_transactionId srv
        in nextTransactionLoop fuel i'
             (srv\<lparr>srv_transactionId := (if i' < 0 then 0 else int32_inc i')\<rparr>)
      else Some (i, srv))"

definition getNextTransactionId :: "server \<Rightarrow> (int \<times> server) option" where
  "getNextTransactionId srv = nextTransactionLoop (length (srv_transactions srv) + 3) (- 1) srv"

subsection \<open>Databases and requests\<close>

definition getDatabase :: "host \<Rightarrow> string \<Rightarrow> server \<Rightarrow> bool \<times> server" where
  "getDatabase H dbName srv =
     (if smap_has dbName (srv_databases srv) then (True, srv)
      else let (ok, db) = db_open H (srv_baseDir srv @ ''/'' @ dbName) QDocDatabase_new
        in if ok then (True, srv\<lparr>srv_databases := smap_put dbName db (srv_databases srv)\<rparr>) else (False, srv))"

definition urlNeeded :: "linkType \<Rightarrow> bool" where
  "urlNeeded ty \<longleftrightarrow> ty \<noteq> typeWriteTransaction \<and> ty \<noteq> typeDiscardTransaction \<and> ty \<noteq> typeUnobserve"

definition queryItemValue :: "(string \<times> string) list \<Rightarrow> string \<Rightarrow> string" where
  "queryItemValue q k = (case map_of q k of Some v \<Rightarrow> v | None \<Rightarrow> [])"

definition dbNameOf :: "host \<Rightarrow> linkobj \<Rightarrow> string" where
  "dbNameOf H lo = drop 1 (h_urlPath H (vString (lo_get lo ''url'')))"

definition collNameOf :: "host \<Rightarrow> linkobj \<Rightarrow> string" where
  "collNameOf H lo =
     (case h_urlQuery H (vString (lo_get lo ''url'')) of Some q \<Rightarrow> queryItemValue q ''collection'' | None \<Rightarrow> [])"

definition inMemoryOf :: "host \<Rightarrow> linkobj \<Rightarrow> bool" where
  "inMemoryOf H lo =
     (case h_urlQuery H (vString (lo_get lo ''url'')) of
        Some q \<Rightarrow> smap_has ''persistent'' q \<and> queryItemValue q ''persistent'' = ''false''
      | None \<Rightarrow> False)"

definition snapshotOf :: "linkobj \<Rightarrow> string" where
  "snapshotOf lo = (let s = vString (lo_get lo ''snapshot'') in if s = [] then ''__CURRENT'' else s)"

text \<open>The collection of a request, opened when needed: an error text or its object.\<close>

definition requestColl :: "qt \<Rightarrow> host \<Rightarrow> linkobj \<Rightarrow> server \<Rightarrow> (string + collref) \<times> server" where
  "requestColl Q H lo srv =
     (let dbName = dbNameOf H lo; collName = collNameOf H lo
      in if collName = [] then (Inl ''Collection name is empty'', srv)
         else case map_of (srv_databases srv) dbName of
           None \<Rightarrow> (Inl [], srv)
         | Some db \<Rightarrow>
             let (r, db') = db_collection Q H collName (inMemoryOf H lo) db;
                 srv' = srv\<lparr>srv_databases := smap_put dbName db' (srv_databases srv)\<rparr>
             in case r of
                  None \<Rightarrow> (Inl (''Can't open collection '' @ collName @ '' in database '' @ dbName), srv')
                | Some i \<Rightarrow> (Inr (dbName, i), srv'))"

text \<open>What a case of the dispatch gives: the error text, the reply object if it made one, the server.\<close>

type_synonym handled = "(string \<times> linkobj option \<times> server) option"

definition fail :: "string \<Rightarrow> server \<Rightarrow> handled" where
  "fail err srv = Some (err, None, srv)"

definition done_ok :: "server \<Rightarrow> handled" where
  "done_ok srv = Some ([], None, srv)"

definition reply1 :: "linkobj \<Rightarrow> linkType \<Rightarrow> string \<Rightarrow> qvariant \<Rightarrow> linkobj" where
  "reply1 lo ty key v = lo_set key v (newLinkObject (vInt (lo_get lo ''id'')) ty)"

subsection \<open>The cases of the dispatch\<close>

text \<open>find, findOne, count, getModified. The error text is that of the collection, not of the snapshot.\<close>

definition readSource :: "qt \<Rightarrow> 8 word \<Rightarrow> linkobj \<Rightarrow> coll \<Rightarrow> coll \<times> coll" where
  "readSource Q u0 lo c =
     (if snapshotOf lo = ''__CURRENT'' then (c, c)
      else case getSnapshot Q u0 (snapshotOf lo) c of (Some s, c') \<Rightarrow> (s, c') | (None, c') \<Rightarrow> (c', c'))"

definition readReply :: "linkobj \<Rightarrow> string \<Rightarrow> server \<Rightarrow> rcode \<Rightarrow> linkType \<Rightarrow> string \<Rightarrow> qvariant \<Rightarrow> handled" where
  "readReply lo err srv r ty key v =
     (if r \<noteq> success then fail err srv else Some ([], Some (reply1 lo ty key v), srv))"

definition readAnswer :: "qt \<Rightarrow> bool \<Rightarrow> linkobj \<Rightarrow> coll \<Rightarrow> string \<Rightarrow> server \<Rightarrow> handled" where
  "readAnswer Q u lo c1 err srv =
     (let query = vObject (lo_get lo ''query''); options = vObject (lo_get lo ''queryOptions'')
      in if lo_type lo = typeFind then
           (case coll_find Q u c1 query options of
              None \<Rightarrow> None
            | Some (r, reply) \<Rightarrow>
                readReply lo err srv r typeFindReply ''reply'' (QVariantList (map (jsonToVariant \<circ> fst) reply)))
         else if lo_type lo = typeFindOne then
           (case coll_findOne Q u c1 query options [] of
              None \<Rightarrow> None
            | Some (r, reply) \<Rightarrow> readReply lo err srv r typeFindOneReply ''reply'' (jsonToVariant (JObj reply)))
         else if lo_type lo = typeCount then
           (case coll_count Q u c1 query options 0 of
              None \<Rightarrow> None
            | Some (r, n) \<Rightarrow> readReply lo err srv r typeCountReply ''count'' (QInt (int n)))
         else
           (case getModified c1 of
              None \<Rightarrow> None
            | Some ids \<Rightarrow>
                readReply lo err srv success typeGetModifiedReply ''documentIds'' (QVariantList (map QByteArray ids))))"

definition handleRead :: "qt \<Rightarrow> bool \<Rightarrow> 8 word \<Rightarrow> linkobj \<Rightarrow> collref \<Rightarrow> coll \<Rightarrow> server \<Rightarrow> handled" where
  "handleRead Q u u0 lo ref c srv =
     (let (c1, c') = readSource Q u0 lo c
      in readAnswer Q u lo c1 (coll_lastError c') (srv_putColl ref c' srv))"

definition handleCreateIndex :: "qt \<Rightarrow> linkobj \<Rightarrow> collref \<Rightarrow> coll \<Rightarrow> server \<Rightarrow> handled" where
  "handleCreateIndex Q lo ref c srv =
     (case coll_newTransaction c of
        None \<Rightarrow> None
      | Some tx \<Rightarrow>
          (case createIndex Q (vString (lo_get lo ''fieldName'')) (vString (lo_get lo ''indexName'')) tx of
             None \<Rightarrow> None
           | Some (success, tx1) \<Rightarrow>
               let (r, tx2, c', signals) = tx_writeTransaction Q tx1 c;
                   srv' = srv_update ref c' signals srv
               in if r \<noteq> success then fail (coll_lastError tx2) srv' else done_ok srv'
           | Some (r, tx1) \<Rightarrow> fail (coll_lastError tx1) srv))"

definition handleNewTransaction :: "linkobj \<Rightarrow> collref \<Rightarrow> coll \<Rightarrow> server \<Rightarrow> handled" where
  "handleNewTransaction lo ref c srv =
     (case coll_newTransaction c of
        None \<Rightarrow> None
      | Some tx \<Rightarrow>
          (case getNextTransactionId srv of
             None \<Rightarrow> None
           | Some (txId, srv') \<Rightarrow>
               Some ([], Some (reply1 lo typeNewTransactionReply ''transactionId'' (QInt txId)),
                 srv'\<lparr>srv_transactions := smap_put txId (ref, tx) (srv_transactions srv')\<rparr>)))"

text \<open>\<open>QString::number\<close>\<close>

fun decNat :: "nat \<Rightarrow> string" where
  "decNat n = (if n < 10 then [''0123456789'' ! n] else decNat (n div 10) @ [''0123456789'' ! (n mod 10)])"

declare decNat.simps [simp del]

definition decInt :: "int \<Rightarrow> string" where
  "decInt i = (if i < 0 then ''-'' @ decNat (nat (- i)) else decNat (nat i))"

definition invalidTransaction :: "int \<Rightarrow> string" where
  "invalidTransaction txId = ''Invalid transaction number '' @ decInt txId"

definition handleWriteTransaction :: "qt \<Rightarrow> linkobj \<Rightarrow> server \<Rightarrow> handled" where
  "handleWriteTransaction Q lo srv =
     (let txId = vInt (lo_get lo ''transactionId'')
      in case map_of (srv_transactions srv) txId of
           None \<Rightarrow> fail (invalidTransaction txId) srv
         | Some (ref, tx) \<Rightarrow>
             (case srv_coll ref srv of
                None \<Rightarrow> None
              | Some parent \<Rightarrow>
                  let (r, tx', parent', signals) = tx_writeTransaction Q (tx_sync parent tx) parent;
                      srv1 = srv_update ref parent' signals srv;
                      srv2 = srv1\<lparr>srv_transactions := smap_del txId (srv_transactions srv1)\<rparr>
                  in if r \<noteq> success then fail (coll_lastError tx') srv2 else done_ok srv2))"

definition handleDiscardTransaction :: "linkobj \<Rightarrow> server \<Rightarrow> handled" where
  "handleDiscardTransaction lo srv =
     (let txId = vInt (lo_get lo ''transactionId'')
      in if \<not> smap_has txId (srv_transactions srv) then fail (invalidTransaction txId) srv
         else done_ok (srv\<lparr>srv_transactions := smap_del txId (srv_transactions srv)\<rparr>))"

text \<open>The operation of an insert, remove, removeId or set request on a transaction.\<close>

definition modifyOp :: "qt \<Rightarrow> bool \<Rightarrow> 8 word \<Rightarrow> config \<Rightarrow> env \<Rightarrow> linkobj \<Rightarrow> idgen \<Rightarrow> coll
    \<Rightarrow> (rcode \<times> linkobj option \<times> idgen \<times> coll) option" where
  "modifyOp Q u u0 cfg e lo g tx =
     (let query = vObject (lo_get lo ''query'');
          ignoreReadOnlyValue = (\<not> vIsNull (lo_get lo ''ignoreReadOnlyValue'') \<and> vBool (lo_get lo ''ignoreReadOnlyValue''))
      in if lo_type lo = typeInsert then
             (let (r, docId, g', tx') = tx_insert Q u cfg e (vObject (lo_get lo ''document'')) []
                    (vBool (lo_get lo ''overwrite'')) ignoreReadOnlyValue g tx
              in Some (r, if r = success then Some (reply1 lo typeInsertReply ''documentId'' (QByteArray docId)) else None,
                       g', tx'))
         else if lo_type lo = typeRemove then map_option (\<lambda>(r, tx'). (r, None, g, tx')) (tx_remove Q u u0 cfg query tx)
         else if lo_type lo = typeRemoveId then
             (let (r, tx') = removeById Q u u0 cfg (vString (lo_get lo ''documentId'')) ignoreReadOnlyValue tx
              in Some (r, None, g, tx'))
         else
             map_option (\<lambda>(r, g', tx'). (r, None, g', tx'))
               (tx_set Q u u0 cfg e query (map variantToJson (vList (lo_get lo ''documents''))) g tx))"

text \<open>
  A request outside a transaction (number -1) runs in one of its own, which is written
  whether or not the operation succeeded.
\<close>

definition handleModify :: "qt \<Rightarrow> bool \<Rightarrow> 8 word \<Rightarrow> config \<Rightarrow> env \<Rightarrow> linkobj \<Rightarrow> collref \<Rightarrow> coll \<Rightarrow> server \<Rightarrow> handled" where
  "handleModify Q u u0 cfg e lo ref c srv =
     (let txId = vInt (lo_get lo ''transactionId'')
      in if txId = - 1 then
           (case coll_newTransaction c of
              None \<Rightarrow> None
            | Some tx \<Rightarrow>
                (case modifyOp Q u u0 cfg e lo (srv_idGen srv) tx of
                   None \<Rightarrow> None
                 | Some (r, reply, g', tx') \<Rightarrow>
                     let (r', tx'', c', signals) = tx_writeTransaction Q tx' c;
                         srv' = srv_update ref c' signals (srv\<lparr>srv_idGen := g'\<rparr>);
                         err = (if r \<noteq> success then coll_lastError tx' else [])
                     in Some (if r' \<noteq> success then coll_lastError tx'' else err, reply, srv')))
         else case map_of (srv_transactions srv) txId of
           None \<Rightarrow> fail (invalidTransaction txId) srv
         | Some (tref, tx) \<Rightarrow>
             (case srv_coll tref srv of
                None \<Rightarrow> None
              | Some parent \<Rightarrow>
                  (case modifyOp Q u u0 cfg e lo (srv_idGen srv) (tx_sync parent tx) of
                     None \<Rightarrow> None
                   | Some (r, reply, g', tx') \<Rightarrow>
                       Some (if r \<noteq> success then coll_lastError tx' else [], reply,
                         srv\<lparr>srv_idGen := g', srv_transactions := smap_put txId (tref, tx') (srv_transactions srv)\<rparr>))))"

definition handleGetSnapshotList :: "qt \<Rightarrow> linkobj \<Rightarrow> collref \<Rightarrow> coll \<Rightarrow> server \<Rightarrow> handled" where
  "handleGetSnapshotList Q lo ref c srv =
     (case getSnapshotsValue Q c of
        (Inl r, c') \<Rightarrow> fail (coll_lastError c') (srv_putColl ref c' srv)
      | (Inr snapshots, c') \<Rightarrow>
          Some ([], Some (reply1 lo typeGetSnapshotListReply ''snapshotList''
              (QVariantList (map QString (removeAll ''__CURRENT'' snapshots)))), srv_putColl ref c' srv))"

definition handleSnapshot :: "qt \<Rightarrow> bool \<Rightarrow> linkobj \<Rightarrow> collref \<Rightarrow> coll \<Rightarrow> server \<Rightarrow> handled" where
  "handleSnapshot Q u lo ref c srv =
     (if snapshotOf lo = ''__CURRENT'' then fail (''Invalid snapshot name: '' @ snapshotOf lo) srv
      else case (if lo_type lo = typeNewSnapshot then newSnapshot Q (snapshotOf lo) c
                 else if lo_type lo = typeRevertToSnapshot then revertToSnapshot Q u (snapshotOf lo) c
                 else removeSnapshot Q u (snapshotOf lo) c) of
             None \<Rightarrow> None
           | Some (r, c', signals) \<Rightarrow>
               let srv' = srv_update ref c' signals srv
               in if r \<noteq> success then fail (coll_lastError c') srv' else done_ok srv')"

definition handleObserve :: "qt \<Rightarrow> bool \<Rightarrow> client \<Rightarrow> linkobj \<Rightarrow> collref \<Rightarrow> coll \<Rightarrow> server \<Rightarrow> handled" where
  "handleObserve Q u cl lo ref c srv =
     (case observe Q u (srv_idGen srv) (vObject (lo_get lo ''query'')) (vObject (lo_get lo ''queryOptions''))
             (vInt (lo_get lo ''preferedId'')) c of
        None \<Rightarrow> None
      | Some (observeId, g', c', signals) \<Rightarrow>
          let srv1 = srv\<lparr>srv_idGen := g', srv_connected := List.insert ref (srv_connected srv)\<rparr>;
              srv2 = srv_update ref c' signals srv1
          in Some ([], Some (reply1 lo typeObserveReply ''observeId'' (QInt observeId)),
               srv2\<lparr>srv_observeClient := smap_put observeId cl (srv_observeClient srv2),
                    srv_observeCollection := smap_put observeId ref (srv_observeCollection srv2)\<rparr>))"

definition srv_unobserve :: "int \<Rightarrow> collref \<Rightarrow> server \<Rightarrow> server" where
  "srv_unobserve observeId ref srv =
     (case srv_coll ref srv of None \<Rightarrow> srv | Some c \<Rightarrow> srv_putColl ref (unobserve observeId c) srv)"

definition handleUnobserve :: "client \<Rightarrow> linkobj \<Rightarrow> server \<Rightarrow> handled" where
  "handleUnobserve cl lo srv =
     (let observeId = vInt (lo_get lo ''observeId'')
      in case map_of (srv_observeCollection srv) observeId of
           None \<Rightarrow> done_ok srv
         | Some ref \<Rightarrow>
             if map_of (srv_observeClient srv) observeId = Some cl then
               let srv' = srv_unobserve observeId ref srv
               in done_ok (srv'\<lparr>srv_observeClient := smap_del observeId (srv_observeClient srv'),
                             srv_observeCollection := smap_del observeId (srv_observeCollection srv')\<rparr>)
             else done_ok srv)"

text \<open>\<open>lockedByOther\<close> is the condition that both the queueing of a request and the two lock cases test.\<close>

definition lockedByOther :: "string \<Rightarrow> client \<Rightarrow> server \<Rightarrow> bool" where
  "lockedByOther dbName cl srv \<longleftrightarrow>
     (case map_of (srv_databaseLocks srv) dbName of None \<Rightarrow> False | Some owner \<Rightarrow> owner \<noteq> cl)"

definition handleExclusiveLock :: "string \<Rightarrow> client \<Rightarrow> server \<Rightarrow> handled" where
  "handleExclusiveLock dbName cl srv =
     (if lockedByOther dbName cl srv then fail (''database '' @ dbName @ '' is already locked'') srv
      else done_ok (srv\<lparr>srv_databaseLocks := smap_put dbName cl (srv_databaseLocks srv)\<rparr>))"

definition handleUnlock :: "string \<Rightarrow> client \<Rightarrow> server \<Rightarrow> handled" where
  "handleUnlock dbName cl srv =
     (if \<not> smap_has dbName (srv_databaseLocks srv) then fail (''database '' @ dbName @ '' is not locked'') srv
      else if lockedByOther dbName cl srv then fail (''You are not owner database '' @ dbName @ '' lock'') srv
      else done_ok (srv\<lparr>srv_databaseLocks := smap_del dbName (srv_databaseLocks srv),
                        srv_events := srv_events srv @ map OnUnlocked (srv_clients srv)\<rparr>))"

subsection \<open>receive\<close>

definition handleColl :: "qt \<Rightarrow> bool \<Rightarrow> 8 word \<Rightarrow> config \<Rightarrow> env \<Rightarrow> client \<Rightarrow> linkobj \<Rightarrow> collref \<Rightarrow> coll \<Rightarrow> server \<Rightarrow> handled" where
  "handleColl Q u u0 cfg e cl lo ref c srv =
     (let ty = lo_type lo
      in if ty \<in> {typeFind, typeFindOne, typeCount, typeGetModified} then handleRead Q u u0 lo ref c srv
         else if ty = typeCreateIndex then handleCreateIndex Q lo ref c srv
         else if ty = typeNewTransaction then handleNewTransaction lo ref c srv
         else if ty \<in> {typeInsert, typeRemove, typeRemoveId, typeSet} then handleModify Q u u0 cfg e lo ref c srv
         else if ty = typeGetSnapshotList then handleGetSnapshotList Q lo ref c srv
         else if ty \<in> {typeNewSnapshot, typeRevertToSnapshot, typeRemoveSnapshot} then handleSnapshot Q u lo ref c srv
         else if ty = typeObserve then handleObserve Q u cl lo ref c srv
         else done_ok srv)"

definition dispatch :: "qt \<Rightarrow> bool \<Rightarrow> 8 word \<Rightarrow> config \<Rightarrow> env \<Rightarrow> host \<Rightarrow> client \<Rightarrow> linkobj \<Rightarrow> server \<Rightarrow> handled" where
  "dispatch Q u u0 cfg e H cl lo srv =
     (let ty = lo_type lo
      in if ty = typeWriteTransaction then handleWriteTransaction Q lo srv
         else if ty = typeDiscardTransaction then handleDiscardTransaction lo srv
         else if ty = typeUnobserve then handleUnobserve cl lo srv
         else if ty = typeExclusiveLock then handleExclusiveLock (dbNameOf H lo) cl srv
         else if ty = typeUnlock then handleUnlock (dbNameOf H lo) cl srv
         else case requestColl Q H lo srv of
           (Inl err, srv') \<Rightarrow> fail err srv'
         | (Inr ref, srv') \<Rightarrow>
             (case srv_coll ref srv' of
                None \<Rightarrow> None
              | Some c \<Rightarrow> handleColl Q u u0 cfg e cl lo ref c srv'))"

definition appendUnlockWait :: "client \<Rightarrow> linkobj \<Rightarrow> server \<Rightarrow> server" where
  "appendUnlockWait cl lo srv =
     srv\<lparr>srv_unlockWait := smap_put cl
       ((case map_of (srv_unlockWait srv) cl of Some q \<Rightarrow> q | None \<Rightarrow> []) @ [lo]) (srv_unlockWait srv)\<rparr>"

definition finalReply :: "linkobj \<Rightarrow> string \<Rightarrow> linkobj option \<Rightarrow> linkobj" where
  "finalReply lo err reply =
     lo_set ''error'' (QString err)
       (case reply of Some r \<Rightarrow> r | None \<Rightarrow> newLinkObject (vInt (lo_get lo ''id'')) typeUnknown)"

definition srv_receive :: "qt \<Rightarrow> bool \<Rightarrow> 8 word \<Rightarrow> config \<Rightarrow> env \<Rightarrow> host \<Rightarrow> client \<Rightarrow> linkobj \<Rightarrow> server
    \<Rightarrow> (sends \<times> server) option" where
  "srv_receive Q u u0 cfg e H cl lo srv =
     (let needed = urlNeeded (lo_type lo);
          dbName = dbNameOf H lo;
          (opened, srv1) = (if needed then getDatabase H dbName srv else (True, srv))
      in if needed \<and> lockedByOther dbName cl srv1 then Some ([], appendUnlockWait cl lo srv1)
         else case (if opened then dispatch Q u u0 cfg e H cl lo srv1
                    else fail (''Can't open database '' @ dbName) srv1) of
           None \<Rightarrow> None
         | Some (err, reply, srv2) \<Rightarrow> Some ([(cl, finalReply lo err reply)], srv2))"

subsection \<open>Queued slots\<close>

definition observeQueryChanged :: "int \<Rightarrow> json list \<Rightarrow> server \<Rightarrow> sends" where
  "observeQueryChanged observeId reply srv =
     (case map_of (srv_observeClient srv) observeId of
        None \<Rightarrow> []
      | Some cl \<Rightarrow>
          [(cl, lo_set ''observeId'' (QInt observeId)
                 (lo_set ''reply'' (QVariantList (map jsonToVariant reply)) (newLinkObject (- 1) typeObserveData)))])"

text \<open>
  \<open>onUnlocked\<close> gives the waiting requests of the link to \<open>receive\<close> again, as many as wait
  when it is called: those that have to wait once more are enqueued behind them.
\<close>

fun receiveAll :: "qt \<Rightarrow> bool \<Rightarrow> 8 word \<Rightarrow> config \<Rightarrow> env \<Rightarrow> host \<Rightarrow> client \<Rightarrow> linkobj list \<Rightarrow> server
    \<Rightarrow> (sends \<times> server) option" where
  "receiveAll Q u u0 cfg e H cl [] srv = Some ([], srv)"
| "receiveAll Q u u0 cfg e H cl (lo # los) srv =
     (case srv_receive Q u u0 cfg e H cl lo srv of
        None \<Rightarrow> None
      | Some (s, srv') \<Rightarrow>
          map_option (\<lambda>(s', srv''). (s @ s', srv'')) (receiveAll Q u u0 cfg e H cl los srv'))"

definition onUnlocked :: "qt \<Rightarrow> bool \<Rightarrow> 8 word \<Rightarrow> config \<Rightarrow> env \<Rightarrow> host \<Rightarrow> client \<Rightarrow> server \<Rightarrow> (sends \<times> server) option" where
  "onUnlocked Q u u0 cfg e H cl srv =
     (case map_of (srv_unlockWait srv) cl of
        None \<Rightarrow> Some ([], srv)
      | Some q \<Rightarrow>
          receiveAll Q u u0 cfg e H cl q (srv\<lparr>srv_unlockWait := smap_del cl (srv_unlockWait srv)\<rparr>))"

definition srv_runEvent :: "qt \<Rightarrow> bool \<Rightarrow> 8 word \<Rightarrow> config \<Rightarrow> env \<Rightarrow> host \<Rightarrow> server \<Rightarrow> (sends \<times> server) option" where
  "srv_runEvent Q u u0 cfg e H srv =
     (case srv_events srv of
        [] \<Rightarrow> Some ([], srv)
      | ev # evs \<Rightarrow>
          let srv' = srv\<lparr>srv_events := evs\<rparr>
          in case ev of
               ObserveQueryChanged i reply \<Rightarrow> Some (observeQueryChanged i reply srv', srv')
             | OnUnlocked cl \<Rightarrow> onUnlocked Q u u0 cfg e H cl srv')"

subsection \<open>Connections\<close>

definition newConnection :: "client \<Rightarrow> server \<Rightarrow> server" where
  "newConnection cl srv = srv\<lparr>srv_clients := srv_clients srv @ [cl]\<rparr>"

text \<open>
  \<open>clientRemoved\<close>. Nothing of the program writes \<open>transactionClient\<close>, so the loop over it
  removes nothing. The link is deleted with its queue of waiting requests.
\<close>

definition clientRemoved :: "client \<Rightarrow> server \<Rightarrow> server" where
  "clientRemoved cl srv =
     (let observed = map fst (filter (\<lambda>e. snd e = cl) (srv_observeClient srv));
          srv1 = fold (\<lambda>i s. case map_of (srv_observeCollection s) i of
                    Some ref \<Rightarrow> srv_unobserve i ref s | None \<Rightarrow> s) observed srv
      in srv1\<lparr>srv_clients := removeAll cl (srv_clients srv1),
              srv_observeClient := filter (\<lambda>e. snd e \<noteq> cl) (srv_observeClient srv1),
              srv_transactionClient := filter (\<lambda>e. snd e \<noteq> cl) (srv_transactionClient srv1),
              srv_databaseLocks := filter (\<lambda>e. snd e \<noteq> cl) (srv_databaseLocks srv1),
              srv_unlockWait := smap_del cl (srv_unlockWait srv1)\<rparr>)"

subsection \<open>The server as a state machine\<close>

datatype input = Connect client | Request client linkobj | RunEvent | Disconnect client

inductive srv_step :: "qt \<Rightarrow> bool \<Rightarrow> 8 word \<Rightarrow> config \<Rightarrow> env \<Rightarrow> host \<Rightarrow> server \<Rightarrow> input \<Rightarrow> sends \<Rightarrow> server \<Rightarrow> bool"
  for Q u u0 cfg e H where
  Connect: "cl \<notin> set (srv_clients srv) \<Longrightarrow>
    srv_step Q u u0 cfg e H srv (Connect cl) [] (newConnection cl srv)"
| Request: "cl \<in> set (srv_clients srv) \<Longrightarrow> srv_receive Q u u0 cfg e H cl lo srv = Some (s, srv') \<Longrightarrow>
    srv_step Q u u0 cfg e H srv (Request cl lo) s srv'"
| RunEvent: "srv_runEvent Q u u0 cfg e H srv = Some (s, srv') \<Longrightarrow>
    srv_step Q u u0 cfg e H srv RunEvent s srv'"
| Disconnect: "cl \<in> set (srv_clients srv) \<Longrightarrow>
    srv_step Q u u0 cfg e H srv (Disconnect cl) [] (clientRemoved cl srv)"

inductive_cases srv_stepE: "srv_step Q u u0 cfg e H srv i s srv'"

inductive srv_reachable :: "qt \<Rightarrow> bool \<Rightarrow> 8 word \<Rightarrow> config \<Rightarrow> env \<Rightarrow> host \<Rightarrow> server \<Rightarrow> server \<Rightarrow> bool"
  for Q u u0 cfg e H srv0 where
  Start: "srv_reachable Q u u0 cfg e H srv0 srv0"
| Step: "srv_reachable Q u u0 cfg e H srv0 srv \<Longrightarrow> srv_step Q u u0 cfg e H srv i s srv' \<Longrightarrow>
    srv_reachable Q u u0 cfg e H srv0 srv'"

end
