(* ===== verification/QDocServerLaws.thy ===== *)
theory QDocServerLaws
  imports QDocServer
begin

text \<open>
  The server's invariants: transaction numbers are fresh, a lock of a database belongs to a
  connected client and only that client's actions end it, and while it lasts no other
  client's request reaches the database.
\<close>

subsection \<open>Transaction numbers\<close>

lemma nextTransactionLoop_fresh:
  "nextTransactionLoop fuel i srv = Some (j, srv') \<Longrightarrow>
     0 \<le> j \<and> \<not> smap_has j (srv_transactions srv') \<and> srv_transactions srv' = srv_transactions srv"
  by (induction fuel i srv rule: nextTransactionLoop.induct) (auto simp: Let_def split: if_splits)

lemma nextTransactionLoop_total:
  assumes "0 \<le> srv_transactionId srv" "srv_transactionId srv + int m < 2 ^ 31"
    and "card ({srv_transactionId srv ..< srv_transactionId srv + int m} \<inter> dom (map_of (srv_transactions srv))) < m"
    and "i < 0 \<or> smap_has i (srv_transactions srv)"
  shows "nextTransactionLoop (Suc (Suc m)) i srv \<noteq> None"
  using assms
proof (induction m arbitrary: i srv)
  case (Suc m)
  let ?c = "srv_transactionId srv" and ?T = "dom (map_of (srv_transactions srv))"
  let ?srv = "srv\<lparr>srv_transactionId := ?c + 1\<rparr>"
  have inc: "int32_inc ?c = ?c + 1" using Suc.prems(2) by (simp add: int32_inc_def)
  have step: "nextTransactionLoop (Suc (Suc (Suc m))) i srv = nextTransactionLoop (Suc (Suc m)) ?c ?srv"
    using Suc.prems(1,4) inc by (simp add: Let_def)
  show ?case
  proof (cases "smap_has ?c (srv_transactions srv)")
    case False
    then show ?thesis unfolding step using Suc.prems(1) by simp
  next
    case True
    have "{?c ..< ?c + int (Suc m)} = insert ?c {?c + 1 ..< ?c + 1 + int m}" by auto
    moreover have "?c \<in> ?T" using True by (simp add: dom_def)
    ultimately have "card (insert ?c ({?c + 1 ..< ?c + 1 + int m} \<inter> ?T)) < Suc m"
      using Suc.prems(3) by (simp add: Int_insert_left)
    then have "card ({?c + 1 ..< ?c + 1 + int m} \<inter> ?T) < m"
      by (simp add: card_insert_if)
    then show ?thesis
      unfolding step using Suc.IH [of ?srv ?c] Suc.prems(1,2) True by simp
  qed
qed simp

lemma getNextTransactionId_total:
  assumes "0 \<le> srv_transactionId srv"
    and "srv_transactionId srv + int (length (srv_transactions srv)) + 1 < 2 ^ 31"
  shows "getNextTransactionId srv \<noteq> None"
proof -
  let ?c = "srv_transactionId srv" and ?n = "length (srv_transactions srv)"
  have "card ({?c ..< ?c + int (Suc ?n)} \<inter> dom (map_of (srv_transactions srv)))
      \<le> card (dom (map_of (srv_transactions srv)))"
    by (simp add: card_mono finite_dom_map_of)
  also have "\<dots> \<le> ?n" by (simp add: dom_map_of_conv_image_fst) (metis card_image_le card_length finite_set le_trans)
  finally have "card ({?c ..< ?c + int (Suc ?n)} \<inter> dom (map_of (srv_transactions srv))) < Suc ?n" by simp
  moreover have "?c + int (Suc ?n) < 2 ^ 31" using assms(2) by simp
  ultimately have "nextTransactionLoop (Suc (Suc (Suc ?n))) (- 1) srv \<noteq> None"
    using nextTransactionLoop_total [of srv "Suc ?n" "- 1"] assms(1) by (simp del: nextTransactionLoop.simps)
  then show ?thesis by (simp add: getNextTransactionId_def numeral_3_eq_3 del: nextTransactionLoop.simps)
qed

subsection \<open>What a request leaves as it is\<close>

definition same_session :: "server \<Rightarrow> server \<Rightarrow> bool" where
  "same_session srv srv' \<longleftrightarrow> srv_databaseLocks srv' = srv_databaseLocks srv \<and>
     srv_clients srv' = srv_clients srv \<and> srv_unlockWait srv' = srv_unlockWait srv"

lemma same_session_refl [simp]: "same_session srv srv"
  by (simp add: same_session_def)

lemma same_session_trans: "same_session a b \<Longrightarrow> same_session b c \<Longrightarrow> same_session a c"
  by (simp add: same_session_def)

lemma same_session_update [simp]:
  "same_session srv (srv_putColl ref c srv')
     = same_session srv srv'"
  "same_session srv (srv_update ref c sg srv') = same_session srv srv'"
  by (simp_all add: same_session_def srv_update_def srv_emit_def srv_putColl_def split: option.split)

lemma same_session_fields [simp]:
  "same_session srv (srv'\<lparr>srv_transactions := ts\<rparr>) = same_session srv srv'"
  "same_session srv (srv'\<lparr>srv_transactionId := i\<rparr>) = same_session srv srv'"
  "same_session srv (srv'\<lparr>srv_databases := dbs\<rparr>) = same_session srv srv'"
  "same_session srv (srv'\<lparr>srv_idGen := g\<rparr>) = same_session srv srv'"
  "same_session srv (srv'\<lparr>srv_connected := cs\<rparr>) = same_session srv srv'"
  "same_session srv (srv'\<lparr>srv_observeClient := oc\<rparr>) = same_session srv srv'"
  "same_session srv (srv'\<lparr>srv_observeCollection := ol\<rparr>) = same_session srv srv'"
  "same_session srv (srv'\<lparr>srv_events := ev\<rparr>) = same_session srv srv'"
  by (simp_all add: same_session_def)

lemma nextTransaction_session: "nextTransactionLoop fuel i srv = Some (j, srv') \<Longrightarrow> same_session srv srv'"
proof (induction fuel i srv rule: nextTransactionLoop.induct)
  case (2 fuel i srv)
  then show ?case by (auto simp: Let_def same_session_def split: if_splits)
qed simp

lemmas handled_defs = fail_def done_ok_def

lemma readReply_srv: "readReply lo err srv r ty key v = Some (err', rep, srv') \<Longrightarrow> srv' = srv"
  by (auto simp: readReply_def fail_def split: if_splits)

lemma readAnswer_srv: "readAnswer Q u lo c1 err srv = Some (err', rep, srv') \<Longrightarrow> srv' = srv"
  by (auto simp: readAnswer_def Let_def split: if_splits option.splits dest: readReply_srv)

lemma handleRead_session: "handleRead Q u u0 lo ref c srv = Some (err, rep, srv') \<Longrightarrow> same_session srv srv'"
  by (auto simp: handleRead_def split: prod.splits dest: readAnswer_srv)

lemma handleCreateIndex_session: "handleCreateIndex Q lo ref c srv = Some (err, rep, srv') \<Longrightarrow> same_session srv srv'"
  by (auto simp: handleCreateIndex_def handled_defs Let_def split: prod.splits option.splits rcode.splits if_splits)

lemma handleNewTransaction_session: "handleNewTransaction lo ref c srv = Some (err, rep, srv') \<Longrightarrow> same_session srv srv'"
  by (auto simp: handleNewTransaction_def getNextTransactionId_def split: prod.splits option.splits
      dest: nextTransaction_session)

lemma handleWriteTransaction_session: "handleWriteTransaction Q lo srv = Some (err, rep, srv') \<Longrightarrow> same_session srv srv'"
  by (auto simp: handleWriteTransaction_def handled_defs Let_def split: prod.splits option.splits if_splits)

lemma handleDiscard_session: "handleDiscardTransaction lo srv = Some (err, rep, srv') \<Longrightarrow> same_session srv srv'"
  by (auto simp: handleDiscardTransaction_def handled_defs Let_def split: if_splits)

lemma handleModify_session: "handleModify Q u u0 cfg e lo ref c srv = Some (err, rep, srv') \<Longrightarrow> same_session srv srv'"
  by (auto simp: handleModify_def handled_defs Let_def split: prod.splits option.splits if_splits)

lemma handleGetSnapshotList_session: "handleGetSnapshotList Q lo ref c srv = Some (err, rep, srv') \<Longrightarrow> same_session srv srv'"
  by (auto simp: handleGetSnapshotList_def handled_defs split: prod.splits sum.splits)

lemma handleSnapshot_session: "handleSnapshot Q u lo ref c srv = Some (err, rep, srv') \<Longrightarrow> same_session srv srv'"
  by (auto simp: handleSnapshot_def handled_defs Let_def split: prod.splits option.splits if_splits)

lemma handleObserve_session: "handleObserve Q u cl lo ref c srv = Some (err, rep, srv') \<Longrightarrow> same_session srv srv'"
  by (auto simp: handleObserve_def Let_def split: prod.splits option.splits)

lemma srv_unobserve_session [simp]: "same_session srv (srv_unobserve i ref srv') = same_session srv srv'"
  by (simp add: srv_unobserve_def split: option.split)

lemma handleUnobserve_session: "handleUnobserve cl lo srv = Some (err, rep, srv') \<Longrightarrow> same_session srv srv'"
  by (auto simp: handleUnobserve_def handled_defs Let_def split: option.splits if_splits)

lemma requestColl_session: "requestColl Q H lo srv = (r, srv') \<Longrightarrow> same_session srv srv'"
  by (auto simp: requestColl_def Let_def split: prod.splits option.splits if_splits)

lemma handleColl_session:
  "handleColl Q u u0 cfg e cl lo ref c srv = Some (err, rep, srv') \<Longrightarrow> same_session srv srv'"
  unfolding handleColl_def Let_def
  by (auto simp: handled_defs split: if_splits dest: handleRead_session handleCreateIndex_session
      handleNewTransaction_session handleModify_session handleGetSnapshotList_session handleSnapshot_session
      handleObserve_session)

lemma getDatabase_session: "getDatabase H d srv = (ok, srv') \<Longrightarrow> same_session srv srv'"
  by (auto simp: getDatabase_def Let_def split: prod.splits if_splits)

text \<open>Every request but a lock and an unlock leaves locks, clients and waiting requests alone.\<close>

lemma dispatch_session:
  assumes "dispatch Q u u0 cfg e H cl lo srv = Some (err, rep, srv')"
    and "lo_type lo \<noteq> typeExclusiveLock" "lo_type lo \<noteq> typeUnlock"
  shows "same_session srv srv'"
  using assms unfolding dispatch_def Let_def
  by (auto simp: handled_defs split: if_splits prod.splits sum.splits option.splits
      dest: handleWriteTransaction_session handleDiscard_session handleUnobserve_session requestColl_session
        handleColl_session intro: same_session_trans)

subsection \<open>Locks\<close>

text \<open>
  What one client's requests may do to the locks: those of the others stay, and a new one
  is its own.
\<close>

definition other_locks :: "client \<Rightarrow> server \<Rightarrow> string \<rightharpoonup> client" where
  "other_locks cl srv =
     (\<lambda>d. if map_of (srv_databaseLocks srv) d = Some cl then None else map_of (srv_databaseLocks srv) d)"

lemma other_locks_iff:
  "own \<noteq> cl \<Longrightarrow> map_of (srv_databaseLocks srv) d = Some own \<longleftrightarrow> other_locks cl srv d = Some own"
  by (simp add: other_locks_def)

lemma other_locks_cong: "srv_databaseLocks a = srv_databaseLocks b \<Longrightarrow> other_locks cl a = other_locks cl b"
  by (simp add: other_locks_def fun_eq_iff)

definition locks_kept :: "client \<Rightarrow> server \<Rightarrow> server \<Rightarrow> bool" where
  "locks_kept cl srv srv' \<longleftrightarrow>
     srv_clients srv' = srv_clients srv \<and>
     (sorted_keys (srv_databaseLocks srv) \<longrightarrow> sorted_keys (srv_databaseLocks srv')) \<and>
     other_locks cl srv' = other_locks cl srv"

lemma locks_kept_trans: "locks_kept cl a b \<Longrightarrow> locks_kept cl b c \<Longrightarrow> locks_kept cl a c"
  by (simp add: locks_kept_def)

lemma locks_kept_refl [simp]: "locks_kept cl a a"
  by (simp add: locks_kept_def)

lemma same_session_locks: "same_session srv srv' \<Longrightarrow> locks_kept cl srv srv'"
  by (auto simp: same_session_def locks_kept_def intro: other_locks_cong)

lemma lock_session:
  assumes "handleExclusiveLock d cl srv = Some (err, rep, srv')"
  shows "locks_kept cl srv srv'" "srv_unlockWait srv' = srv_unlockWait srv"
  using assms
  by (auto simp: handleExclusiveLock_def handled_defs lockedByOther_def locks_kept_def other_locks_def fun_eq_iff
      split: if_splits option.splits)

lemma unlock_session:
  assumes "handleUnlock d cl srv = Some (err, rep, srv')" "sorted_keys (srv_databaseLocks srv)"
  shows "locks_kept cl srv srv'" "srv_unlockWait srv' = srv_unlockWait srv"
  using assms
  by (auto simp: handleUnlock_def handled_defs lockedByOther_def locks_kept_def other_locks_def fun_eq_iff
      split: if_splits option.splits)

lemma dispatch_locks:
  assumes "dispatch Q u u0 cfg e H cl lo srv = Some (err, rep, srv')" "sorted_keys (srv_databaseLocks srv)"
  shows "locks_kept cl srv srv' \<and> srv_unlockWait srv' = srv_unlockWait srv"
proof -
  consider "lo_type lo = typeExclusiveLock" | "lo_type lo = typeUnlock"
    | "lo_type lo \<noteq> typeExclusiveLock" "lo_type lo \<noteq> typeUnlock" by blast
  then show ?thesis
  proof cases
    case 1
    then have "handleExclusiveLock (dbNameOf H lo) cl srv = Some (err, rep, srv')"
      using assms(1) by (simp add: dispatch_def)
    then show ?thesis using lock_session by blast
  next
    case 2
    then have "handleUnlock (dbNameOf H lo) cl srv = Some (err, rep, srv')"
      using assms(1) by (simp add: dispatch_def)
    then show ?thesis using unlock_session assms(2) by blast
  next
    case 3
    then have "same_session srv srv'" using dispatch_session [OF assms(1)] by blast
    then show ?thesis using same_session_locks by (auto simp: same_session_def)
  qed
qed

text \<open>The queue of a client and the rest of the queues after one of its requests.\<close>

definition waits_kept :: "client \<Rightarrow> server \<Rightarrow> server \<Rightarrow> bool" where
  "waits_kept cl srv srv' \<longleftrightarrow>
     dom (map_of (srv_unlockWait srv')) \<subseteq> insert cl (dom (map_of (srv_unlockWait srv))) \<and>
     (sorted_keys (srv_unlockWait srv) \<longrightarrow> sorted_keys (srv_unlockWait srv'))"

lemma waits_kept_trans: "waits_kept cl a b \<Longrightarrow> waits_kept cl b c \<Longrightarrow> waits_kept cl a c"
  unfolding waits_kept_def by blast

lemma receive_locks:
  assumes r: "srv_receive Q u u0 cfg e H cl lo srv = Some (s, srv')" and s: "sorted_keys (srv_databaseLocks srv)"
  shows "locks_kept cl srv srv' \<and> waits_kept cl srv srv'"
proof -
  obtain opened srv1 where g: "(if urlNeeded (lo_type lo) then getDatabase H (dbNameOf H lo) srv else (True, srv)) = (opened, srv1)"
    by force
  have s1: "same_session srv srv1" using g getDatabase_session by (auto split: if_splits)
  show ?thesis
  proof (cases "urlNeeded (lo_type lo) \<and> lockedByOther (dbNameOf H lo) cl srv1")
    case True
    then have "srv' = appendUnlockWait cl lo srv1" using r g by (simp add: srv_receive_def Let_def)
    then show ?thesis using s1 by (auto simp: appendUnlockWait_def same_session_def locks_kept_def other_locks_def fun_eq_iff waits_kept_def)
  next
    case False
    then obtain err rep where "(if opened then dispatch Q u u0 cfg e H cl lo srv1
        else fail (''Can't open database '' @ dbNameOf H lo) srv1) = Some (err, rep, srv')"
      using r g by (auto simp: srv_receive_def Let_def split: option.splits)
    moreover have "sorted_keys (srv_databaseLocks srv1)" using s s1 by (simp add: same_session_def)
    ultimately have "locks_kept cl srv1 srv' \<and> srv_unlockWait srv' = srv_unlockWait srv1"
      using dispatch_locks [of Q u u0 cfg e H cl lo srv1 err rep srv'] by (cases opened) (simp_all add: fail_def)
    then show ?thesis
      using s1 locks_kept_trans [OF same_session_locks [OF s1]] by (auto simp: waits_kept_def same_session_def)
  qed
qed

lemma receiveAll_locks:
  "receiveAll Q u u0 cfg e H cl los srv = Some (s, srv') \<Longrightarrow> sorted_keys (srv_databaseLocks srv) \<Longrightarrow>
   locks_kept cl srv srv' \<and> waits_kept cl srv srv'"
proof (induction los arbitrary: srv s)
  case Nil
  then show ?case by (auto simp: locks_kept_def waits_kept_def)
next
  case (Cons lo los)
  then obtain s1 srv1 s2 where r: "srv_receive Q u u0 cfg e H cl lo srv = Some (s1, srv1)"
    and rs: "receiveAll Q u u0 cfg e H cl los srv1 = Some (s2, srv')"
    by (auto split: option.splits)
  have k: "locks_kept cl srv srv1 \<and> waits_kept cl srv srv1" by (rule receive_locks [OF r Cons.prems(2)])
  then have "sorted_keys (srv_databaseLocks srv1)" using Cons.prems(2) by (simp add: locks_kept_def)
  then show ?case using Cons.IH [OF rs] k locks_kept_trans waits_kept_trans by blast
qed

subsection \<open>The invariant\<close>

definition srv_ok :: "server \<Rightarrow> bool" where
  "srv_ok srv \<longleftrightarrow>
     sorted_keys (srv_databaseLocks srv) \<and> sorted_keys (srv_unlockWait srv) \<and> distinct (srv_clients srv) \<and>
     ran (map_of (srv_databaseLocks srv)) \<subseteq> set (srv_clients srv) \<and>
     dom (map_of (srv_unlockWait srv)) \<subseteq> set (srv_clients srv)"

lemma srv_ok_new: "srv_ok (srv_new d g)"
  by (simp add: srv_ok_def srv_new_def)

lemma kept_ok:
  assumes "srv_ok srv" "locks_kept cl srv srv'" "waits_kept cl srv srv'" "cl \<in> set (srv_clients srv)"
  shows "srv_ok srv'"
proof -
  have "own \<in> set (srv_clients srv)" if "map_of (srv_databaseLocks srv') d = Some own" for d own
  proof (cases "own = cl")
    case False
    then have "map_of (srv_databaseLocks srv) d = Some own"
      using assms(2) that by (simp add: locks_kept_def other_locks_iff)
    then have "own \<in> ran (map_of (srv_databaseLocks srv))" by (rule ranI)
    then show ?thesis using assms(1) unfolding srv_ok_def by blast
  qed (use assms(4) in simp)
  then have "ran (map_of (srv_databaseLocks srv')) \<subseteq> set (srv_clients srv)" by (auto simp: ran_def)
  moreover have "dom (map_of (srv_unlockWait srv')) \<subseteq> set (srv_clients srv)"
    using assms(1,3,4) unfolding srv_ok_def waits_kept_def by blast
  ultimately show ?thesis using assms(1-3) unfolding srv_ok_def locks_kept_def waits_kept_def by metis
qed

lemma runEvent_kept:
  assumes r: "srv_runEvent Q u u0 cfg e H srv = Some (s, srv')" and ok: "srv_ok srv"
  shows "srv_ok srv' \<and>
    (\<exists>cl. locks_kept cl srv srv' \<and> ((\<exists>evs. srv_events srv = OnUnlocked cl # evs) \<or> same_session srv srv'))"
proof (cases "srv_events srv")
  case Nil
  then show ?thesis using r ok same_session_locks by (auto simp: srv_runEvent_def)
next
  case (Cons ev evs)
  show ?thesis
  proof (cases ev)
    case (ObserveQueryChanged i reply)
    then have "srv' = srv\<lparr>srv_events := evs\<rparr>" using r Cons by (simp add: srv_runEvent_def Let_def)
    moreover from this have "same_session srv srv'" by simp
    ultimately show ?thesis using ok same_session_locks by (auto simp: srv_ok_def)
  next
    case (OnUnlocked cl)
    let ?srv = "srv\<lparr>srv_events := evs\<rparr>"
    have o: "onUnlocked Q u u0 cfg e H cl ?srv = Some (s, srv')"
      using r Cons OnUnlocked by (simp add: srv_runEvent_def Let_def)
    show ?thesis
    proof (cases "map_of (srv_unlockWait ?srv) cl")
      case None
      then have "srv' = ?srv" using o by (simp add: onUnlocked_def)
      then have "same_session srv srv'" "srv_ok srv'" using ok by (simp_all add: srv_ok_def)
      then show ?thesis using same_session_locks by blast
    next
      case (Some q)
      let ?srv1 = "?srv\<lparr>srv_unlockWait := smap_del cl (srv_unlockWait ?srv)\<rparr>"
      have ra: "receiveAll Q u u0 cfg e H cl q ?srv1 = Some (s, srv')"
        using o Some by (simp add: onUnlocked_def)
      have k: "locks_kept cl ?srv1 srv' \<and> waits_kept cl ?srv1 srv'"
        using receiveAll_locks [OF ra] ok by (simp add: srv_ok_def)
      have ok1: "srv_ok ?srv1" using ok by (auto simp: srv_ok_def)
      have cl: "cl \<in> set (srv_clients srv)" using Some ok by (auto simp: srv_ok_def)
      have "srv_ok srv'"
        by (rule kept_ok [OF ok1 conjunct1 [OF k] conjunct2 [OF k]]) (simp add: cl)
      moreover have "locks_kept cl srv srv'" using k by (simp add: locks_kept_def other_locks_def fun_eq_iff)
      ultimately show ?thesis using Cons OnUnlocked by blast
    qed
  qed
qed

lemma clientRemoved_fields:
  "srv_clients (clientRemoved cl srv) = removeAll cl (srv_clients srv)"
  "srv_databaseLocks (clientRemoved cl srv) = filter (\<lambda>e. snd e \<noteq> cl) (srv_databaseLocks srv)"
  "srv_unlockWait (clientRemoved cl srv) = smap_del cl (srv_unlockWait srv)"
proof -
  define step where "step = (\<lambda>i s. case map_of (srv_observeCollection s) i of
      Some ref \<Rightarrow> srv_unobserve i ref s | None \<Rightarrow> s)"
  have "same_session srv (fold step is srv)" for "is"
  proof (induction "is" arbitrary: srv)
    case (Cons i "is")
    have "same_session srv (step i srv)" by (simp add: step_def split: option.split)
    then show ?case using Cons same_session_trans by simp
  qed simp
  then show "srv_clients (clientRemoved cl srv) = removeAll cl (srv_clients srv)"
    "srv_databaseLocks (clientRemoved cl srv) = filter (\<lambda>e. snd e \<noteq> cl) (srv_databaseLocks srv)"
    "srv_unlockWait (clientRemoved cl srv) = smap_del cl (srv_unlockWait srv)"
    by (simp_all add: clientRemoved_def Let_def same_session_def flip: step_def)
qed

lemma map_of_filter_snd:
  "sorted_keys xs \<Longrightarrow> map_of (filter (\<lambda>e. snd e \<noteq> v) xs) k = (if map_of xs k = Some v then None else map_of xs k)"
proof (induction xs)
  case (Cons x xs)
  obtain a b where x: "x = (a, b)" by force
  have "map_of xs a = None" using map_of_sorted_head [of a b xs] Cons.prems x by simp
  then show ?case using Cons x by (cases "k = a") simp_all
qed simp

lemma srv_step_ok:
  assumes "srv_step Q u u0 cfg e H srv i s srv'" "srv_ok srv"
  shows "srv_ok srv'"
  using assms(1)
proof (cases rule: srv_step.cases)
  case (Connect cl)
  then show ?thesis using assms(2) by (auto simp: srv_ok_def newConnection_def)
next
  case (Request cl lo)
  have "sorted_keys (srv_databaseLocks srv)" using assms(2) by (simp add: srv_ok_def)
  from receive_locks [OF Request(3) this] show ?thesis using kept_ok [OF assms(2)] Request(2) by blast
next
  case RunEvent
  then show ?thesis using runEvent_kept assms(2) by blast
next
  case (Disconnect cl)
  have ok: "sorted_keys (srv_databaseLocks srv)" "sorted_keys (srv_unlockWait srv)" "distinct (srv_clients srv)"
    "ran (map_of (srv_databaseLocks srv)) \<subseteq> set (srv_clients srv)"
    "dom (map_of (srv_unlockWait srv)) \<subseteq> set (srv_clients srv)"
    using assms(2) by (simp_all add: srv_ok_def)
  have "own \<in> set (srv_clients srv')" if "map_of (srv_databaseLocks srv') d = Some own" for d own
  proof -
    have "map_of (srv_databaseLocks srv) d = Some own" "own \<noteq> cl"
      using that ok(1) by (simp_all add: Disconnect(3) clientRemoved_fields map_of_filter_snd split: if_splits)
    then show ?thesis using ok(4) ranI by (fastforce simp: Disconnect(3) clientRemoved_fields)
  qed
  then have "ran (map_of (srv_databaseLocks srv')) \<subseteq> set (srv_clients srv')" by (auto simp: ran_def)
  moreover have "dom (map_of (srv_unlockWait srv')) \<subseteq> set (srv_clients srv')"
    using ok(2,5) by (auto simp: Disconnect(3) clientRemoved_fields)
  moreover have "sorted_keys (srv_databaseLocks srv')"
    using ok(1) by (simp add: Disconnect(3) clientRemoved_fields sorted_wrt_filter sorted_wrt_map)
  moreover have "sorted_keys (srv_unlockWait srv')" "distinct (srv_clients srv')"
    using ok(2,3) by (simp_all add: Disconnect(3) clientRemoved_fields distinct_removeAll)
  ultimately show ?thesis unfolding srv_ok_def by blast
qed

lemma srv_reachable_ok: "srv_reachable Q u u0 cfg e H (srv_new d g) srv \<Longrightarrow> srv_ok srv"
  by (induction rule: srv_reachable.induct) (auto intro: srv_ok_new srv_step_ok)

subsection \<open>Who can end a lock\<close>

lemma receive_own_lock:
  assumes r: "srv_receive Q u u0 cfg e H cl lo srv = Some (s, srv')" and s: "sorted_keys (srv_databaseLocks srv)"
    and l: "map_of (srv_databaseLocks srv) d = Some cl" and n: "lo_type lo \<noteq> typeUnlock \<or> dbNameOf H lo \<noteq> d"
  shows "map_of (srv_databaseLocks srv') d = Some cl"
proof -
  obtain opened srv1 where g: "(if urlNeeded (lo_type lo) then getDatabase H (dbNameOf H lo) srv else (True, srv)) = (opened, srv1)"
    by force
  have s1: "same_session srv srv1" using g getDatabase_session by (auto split: if_splits)
  show ?thesis
  proof (cases "urlNeeded (lo_type lo) \<and> lockedByOther (dbNameOf H lo) cl srv1")
    case True
    then have "srv' = appendUnlockWait cl lo srv1" using r g by (simp add: srv_receive_def Let_def)
    then show ?thesis using s1 l by (simp add: appendUnlockWait_def same_session_def)
  next
    case False
    then obtain err rep where d: "(if opened then dispatch Q u u0 cfg e H cl lo srv1
        else fail (''Can't open database '' @ dbNameOf H lo) srv1) = Some (err, rep, srv')"
      using r g by (auto simp: srv_receive_def Let_def split: option.splits)
    have l1: "map_of (srv_databaseLocks srv1) d = Some cl" "sorted_keys (srv_databaseLocks srv1)"
      using s1 l s by (simp_all add: same_session_def)
    show ?thesis
    proof (cases opened)
      case False
      then show ?thesis using d l1 by (simp add: fail_def)
    next
      case True
      consider "lo_type lo = typeExclusiveLock" | "lo_type lo = typeUnlock"
        | "lo_type lo \<noteq> typeExclusiveLock" "lo_type lo \<noteq> typeUnlock" by blast
      then show ?thesis
      proof cases
        case 1
        then have "handleExclusiveLock (dbNameOf H lo) cl srv1 = Some (err, rep, srv')"
          using d True by (simp add: dispatch_def)
        then show ?thesis using l1 by (auto simp: handleExclusiveLock_def handled_defs split: if_splits)
      next
        case 2
        then have "handleUnlock (dbNameOf H lo) cl srv1 = Some (err, rep, srv')" "dbNameOf H lo \<noteq> d"
          using d True n by (simp_all add: dispatch_def)
        then show ?thesis using l1 by (auto simp: handleUnlock_def handled_defs split: if_splits)
      next
        case 3
        then have "same_session srv1 srv'" using dispatch_session d True by auto
        then show ?thesis using l1 by (simp add: same_session_def)
      qed
    qed
  qed
qed

text \<open>The events with which a client ends its own lock.\<close>

definition ends_lock :: "host \<Rightarrow> string \<Rightarrow> client \<Rightarrow> server \<Rightarrow> input \<Rightarrow> bool" where
  "ends_lock H d own srv i \<longleftrightarrow>
     (case i of
        Disconnect cl \<Rightarrow> cl = own
      | Request cl lo \<Rightarrow> cl = own \<and> lo_type lo = typeUnlock \<and> dbNameOf H lo = d
      | RunEvent \<Rightarrow> (\<exists>evs. srv_events srv = OnUnlocked own # evs)
      | Connect cl \<Rightarrow> False)"

lemma locks_kept_other:
  "locks_kept cl srv srv' \<Longrightarrow> own \<noteq> cl \<Longrightarrow> map_of (srv_databaseLocks srv) d = Some own \<Longrightarrow>
   map_of (srv_databaseLocks srv') d = Some own"
  by (simp add: locks_kept_def other_locks_iff)

lemma step_lock_kept:
  assumes st: "srv_step Q u u0 cfg e H srv i s srv'" and ok: "srv_ok srv"
    and l: "map_of (srv_databaseLocks srv) d = Some own" and n: "\<not> ends_lock H d own srv i"
  shows "map_of (srv_databaseLocks srv') d = Some own"
  using st
proof (cases rule: srv_step.cases)
  case (Connect cl)
  then show ?thesis using l by (simp add: newConnection_def)
next
  case (Request cl lo)
  have s: "sorted_keys (srv_databaseLocks srv)" using ok by (simp add: srv_ok_def)
  show ?thesis
  proof (cases "own = cl")
    case True
    then have "lo_type lo \<noteq> typeUnlock \<or> dbNameOf H lo \<noteq> d" using n Request(1) by (simp add: ends_lock_def)
    then show ?thesis using receive_own_lock [OF Request(3) s _, of d] l True by blast
  next
    case False
    have "locks_kept cl srv srv'" using receive_locks [OF Request(3) s] by blast
    then show ?thesis using locks_kept_other False l by blast
  qed
next
  case RunEvent
  obtain cl where cl: "locks_kept cl srv srv'" "(\<exists>evs. srv_events srv = OnUnlocked cl # evs) \<or> same_session srv srv'"
    using runEvent_kept [OF RunEvent(2) ok] by blast
  show ?thesis
  proof (cases "own = cl")
    case True
    then have "same_session srv srv'" using cl(2) n RunEvent(1) by (simp add: ends_lock_def)
    then show ?thesis using l by (simp add: same_session_def)
  qed (use locks_kept_other cl(1) l in blast)
next
  case (Disconnect cl)
  have "own \<noteq> cl" using n Disconnect(1) by (simp add: ends_lock_def)
  then show ?thesis
    using l ok by (simp add: Disconnect(3) clientRemoved_fields map_of_filter_snd srv_ok_def)
qed

subsection \<open>A locked database is out of reach\<close>

lemma getDatabase_colls:
  assumes "getDatabase H d srv = (ok, srv1)"
  shows "srv_coll ref srv1 = srv_coll ref srv" "srv_transactions srv1 = srv_transactions srv"
  using assms
  by (auto simp: getDatabase_def db_open_def QDocDatabase_new_def Let_def srv_coll_def split: if_splits option.split)

lemma receive_locked_out:
  assumes l: "map_of (srv_databaseLocks srv) (dbNameOf H lo) = Some own" and n: "own \<noteq> cl"
    and ty: "urlNeeded (lo_type lo)"
  shows "\<exists>srv'. srv_receive Q u u0 cfg e H cl lo srv = Some ([], srv') \<and>
    (\<forall>ref. srv_coll ref srv' = srv_coll ref srv) \<and> srv_transactions srv' = srv_transactions srv \<and>
    srv_databaseLocks srv' = srv_databaseLocks srv \<and>
    map_of (srv_unlockWait srv') cl =
      Some ((case map_of (srv_unlockWait srv) cl of Some q \<Rightarrow> q | None \<Rightarrow> []) @ [lo])"
proof -
  obtain ok srv1 where g: "getDatabase H (dbNameOf H lo) srv = (ok, srv1)" by force
  have s1: "same_session srv srv1" by (rule getDatabase_session [OF g])
  then have "lockedByOther (dbNameOf H lo) cl srv1"
    using l n by (simp add: lockedByOther_def same_session_def)
  then have "srv_receive Q u u0 cfg e H cl lo srv = Some ([], appendUnlockWait cl lo srv1)"
    using g ty by (simp add: srv_receive_def Let_def)
  moreover have "srv_coll ref (appendUnlockWait cl lo srv1) = srv_coll ref srv" for ref
    using getDatabase_colls(1) [OF g] by (simp add: srv_coll_def appendUnlockWait_def)
  ultimately show ?thesis
    using s1 getDatabase_colls(2) [OF g] by (simp add: appendUnlockWait_def same_session_def)
qed

text \<open>A request without a url is dispatched whatever is locked.\<close>

lemma receive_no_url:
  "\<not> urlNeeded (lo_type lo) \<Longrightarrow> srv_receive Q u u0 cfg e H cl lo srv =
     map_option (\<lambda>(err, reply, srv'). ([(cl, finalReply lo err reply)], srv')) (dispatch Q u u0 cfg e H cl lo srv)"
  by (auto simp: srv_receive_def Let_def split: option.split)

subsection \<open>Requests outside a transaction\<close>

text \<open>The insert of a document that exists: no text is set, so the reply carries an empty error.\<close>

lemma handleModify_exists:
  assumes Q: "qt_ok Q" and c: "coll_ok c" and ty: "lo_type lo = typeInsert" and tx: "lo_get lo ''transactionId'' = QInt (- 1)"
    and ow: "\<not> vBool (lo_get lo ''overwrite'')"
    and i: "insertId e (srv_idGen srv) (vObject (lo_get lo ''document'')) = Some (doc, i, g')"
    and old: "getJsonValue Q (coll_kv c) (coll_snapshotId c) i \<noteq> JUndefined"
  shows "\<exists>srv'. handleModify Q u u0 cfg e lo ref c srv = Some ([], None, srv')"
proof -
  obtain k where k: "newTransaction (coll_kv c) = Some k" "kv_ok k" "kv_only_puts k" "kv_base k = coll_kv c"
    "kv_entries k = kv_entries (coll_kv c)"
    using newTransaction_some newTransaction_fresh c by (metis coll_ok_def not_None_eq)
  define t where "t = (QDocCollection_kv k (coll_baseDir c) typeTransaction)
    \<lparr>coll_observers := coll_observers c, coll_snapshotId := coll_snapshotId c\<rparr>"
  have t: "coll_newTransaction c = Some t" using c k(1) by (simp add: coll_newTransaction_def coll_ok_def t_def)
  have tk: "coll_kv t = k" "coll_lastError t = []" "coll_snapshotId t = coll_snapshotId c"
    by (simp_all add: t_def QDocCollection_kv_def)
  have "kv_is_map k = kv_is_map (coll_kv c)" using k(4) kv_is_map_tx by metis
  then have "getJsonValue Q k (coll_snapshotId c) i \<noteq> JUndefined"
    using old k(5) getJsonValue_base by metis
  then have ins: "tx_insert Q u cfg e (vObject (lo_get lo ''document'')) [] False ig (srv_idGen srv) t
      = (errorAlreadyExists, i, g', t)" for ig
    using i tk by (intro tx_insert_exists) simp_all
  have m: "modifyOp Q u u0 cfg e lo (srv_idGen srv) t = Some (errorAlreadyExists, None, g', t)"
    using ins ow ty by (simp add: modifyOp_def Let_def)
  obtain t' c' sg where "tx_writeTransaction Q t c = (success, t', c', sg)"
    using commit_success [OF Q, of t] k(2,3) tk(1) kv_only_puts_committable by metis
  then show ?thesis using t m tx tk(2) by (simp add: handleModify_def Let_def)
qed

end
