(* ===== verification/QDocDemoServer.thy ===== *)
theory QDocDemoServer
  imports QDocDemo QDocServerLaws
begin

text \<open>
  Concrete instances for the witnesses of the properties about messages and the server: a
  wire format with the law of \<open>wire_ok\<close>, a host on which every path opens, and a server
  with one lock.
\<close>

subsection \<open>A wire format\<close>

fun enc_var :: "qvariant \<Rightarrow> string" where
  "enc_var QInvalid = ''u''"
| "enc_var QNull = ''n''"
| "enc_var (QInt i) = ''i'' @ enc_rat (of_int i)"
| "enc_var (QBool b) = (if b then ''t'' else ''f'')"
| "enc_var (QDouble r) = ''d'' @ enc_rat r"
| "enc_var (QString s) = ''s'' @ enc_str s"
| "enc_var (QByteArray s) = ''b'' @ enc_str s"
| "enc_var (QVariantList xs) = ''a'' @ enc_nat (length xs) @ concat (map enc_var xs)"
| "enc_var (QVariantMap m) = ''o'' @ enc_list enc_str (map fst m) @ concat (map enc_var (map snd m))"

fun dec_var :: "nat \<Rightarrow> string \<Rightarrow> qvariant \<times> string" where
  "dec_var 0 s = (QInvalid, s)"
| "dec_var (Suc f) [] = (QInvalid, [])"
| "dec_var (Suc f) (c # s) =
     (if c = CHR ''n'' then (QNull, s)
      else if c = CHR ''i'' then apfst (\<lambda>r. QInt \<lfloor>r\<rfloor>) (dec_rat s)
      else if c = CHR ''t'' then (QBool True, s)
      else if c = CHR ''f'' then (QBool False, s)
      else if c = CHR ''d'' then apfst QDouble (dec_rat s)
      else if c = CHR ''s'' then apfst QString (dec_str s)
      else if c = CHR ''b'' then apfst QByteArray (dec_str s)
      else if c = CHR ''a'' then apfst QVariantList (dec_list (dec_var f) s)
      else if c = CHR ''o'' then
        (let (ks, s1) = dec_list dec_str s; (vs, s2) = dec_items (dec_var f) (length ks) s1
         in (QVariantMap (zip ks vs), s2))
      else (QInvalid, s))"

lemma dec_enc_var: "length (enc_var v) \<le> f \<Longrightarrow> dec_var f (enc_var v @ s) = (v, s)"
proof (induction f arbitrary: v s)
  case 0
  then show ?case by (cases v) (auto split: if_splits)
next
  case (Suc f)
  show ?case
  proof (cases v)
    case (QVariantList xs)
    have "dec_var f (enc_var x @ s) = (x, s)" if "x \<in> set xs" for x s
      using Suc.prems QVariantList length_concat_member [OF that, of enc_var] by (intro Suc.IH) simp
    then show ?thesis
      using dec_enc_list [of xs "dec_var f" enc_var s] by (simp add: QVariantList enc_list_def)
  next
    case (QVariantMap m)
    have "dec_var f (enc_var x @ s) = (x, s)" if "x \<in> set (map snd m)" for x s
      using Suc.prems QVariantMap length_concat_member [OF that, of enc_var] by (intro Suc.IH) simp
    then have "dec_items (dec_var f) (length (map snd m))
        (concat (map enc_var (map snd m)) @ s) = (map snd m, s)"
      by (rule dec_items_concat)
    then show ?thesis
      by (simp add: QVariantMap dec_enc_list zip_map_fst_snd)
  qed simp_all
qed

definition wire_demo :: wire where
  "wire_demo = \<lparr>writeMap = (\<lambda>m. enc_var (QVariantMap m)),
     readMap = (\<lambda>s. vMap (fst (dec_var (length s) s)))\<rparr>"

lemma wire_demo_ok: "wire_ok wire_demo"
  using dec_enc_var [where s = "[]"] by (simp add: wire_ok_def wire_demo_def del: enc_var.simps) simp

subsection \<open>A server\<close>

definition demo_host :: host where
  "demo_host = \<lparr>h_mkpath = (\<lambda>d. True), h_canonicalPath = (\<lambda>d. d), h_openKV = (\<lambda>d mem. KVMap []),
     h_urlPath = (\<lambda>url. ''/db''), h_urlQuery = (\<lambda>url. Some [(''collection'', ''c'')])\<rparr>"

text \<open>Clients 1 and 2 are connected, and client 1 holds the lock of the database.\<close>

definition demo_srv :: server where
  "demo_srv = (srv_new ''/base'' demo_gen)\<lparr>srv_clients := [1, 2], srv_databaseLocks := [(''db'', 1)]\<rparr>"

definition demo_insert :: linkobj where
  "demo_insert = lo_set ''document'' (QVariantMap [(''_id'', QString ''a'')])
     (lo_set ''transactionId'' (QInt (- 1)) (newLinkObject 7 typeInsert))"

lemma demo_srv_ok: "srv_ok demo_srv"
  by (simp add: demo_srv_def srv_ok_def srv_new_def)

lemma demo_db: "dbNameOf demo_host lo = ''db''"
  by (simp add: dbNameOf_def demo_host_def)

lemma demo_insert_type: "lo_type demo_insert = typeInsert"
  by (simp add: demo_insert_def lo_set_def newLinkObject_type)

end
