(* ===== verification/QDocClient.thy ===== *)
theory QDocClient
  imports QDocLink
begin

text \<open>
  qdocdbclient.h and qdocdbclient.cpp: the client object. A request builds a message with a
  new number, sends it and runs a nested event loop until its reply arrives, the
  connection is lost, or ten seconds have passed. What that loop handles is an argument of
  the request, the list of events; a request that another slot starts inside the loop is
  not among them. The messages sent, the calls of subscribers and the slots that wait in the event
  queue are fields of the state.

  The result \<open>None\<close> is a null dereference of the code: a request without a connection.
\<close>

subsection \<open>State\<close>

datatype clcode = clSuccess | clErrorConnection | clError

record observerInfo =
  oi_sub :: nat
  oi_url :: string
  oi_query :: variantmap
  oi_queryOptions :: variantmap

datatype clslot = ObserveDataProcess | DestroyReply int

record dbclient =
  cl_connected :: bool
  cl_nextFId :: int
  cl_activeQueries :: "(int \<times> linkobj) list"
  cl_replies :: "(int \<times> linkobj) list"
  cl_subs :: "(int \<times> nat option) list"
  cl_observerInfo :: "(int \<times> observerInfo) list"
  cl_observeData :: "(int \<times> json list) list"
  cl_observeDataLock :: bool
  cl_lastError :: string
  cl_needConnected :: bool
  cl_nextConnectWaitTimeout :: int
  cl_connectTimer :: "int option"
  cl_sent :: "linkobj list"
  cl_calls :: "(nat option \<times> int \<times> json list) list"
  cl_queued :: "clslot list"

text \<open>The constructor leaves \<open>observeDataLock\<close> as it finds it (\<open>b0\<close>).\<close>

definition QDocdbClient :: "bool \<Rightarrow> dbclient" where
  "QDocdbClient b0 =
     \<lparr>cl_connected = False, cl_nextFId = 1, cl_activeQueries = [], cl_replies = [], cl_subs = [],
      cl_observerInfo = [], cl_observeData = [], cl_observeDataLock = b0, cl_lastError = [],
      cl_needConnected = False, cl_nextConnectWaitTimeout = 1000, cl_connectTimer = None,
      cl_sent = [], cl_calls = [], cl_queued = []\<rparr>"

subsection \<open>What the event loop handles\<close>

text \<open>Each handler also returns the numbers of the requests whose \<open>done\<close> it emits.\<close>

definition cl_receive :: "linkobj \<Rightarrow> dbclient \<Rightarrow> int list \<times> dbclient" where
  "cl_receive lo s =
     (if lo_type lo = typeObserveData then
        let reply = map variantToJson (vList (lo_get lo ''reply''))
        in ([], s\<lparr>cl_observeData := cl_observeData s @ [(vInt (lo_get lo ''observeId''), reply)],
                 cl_queued := cl_queued s @ [ObserveDataProcess]\<rparr>)
      else
        let i = vInt (lo_get lo ''id'')
        in if smap_has i (cl_activeQueries s) then ([i], s\<lparr>cl_replies := smap_put i lo (cl_replies s)\<rparr>)
           else ([], s))"

text \<open>\<open>subs[id]\<close> inserts a null pointer for an unknown number; the call through it does nothing.\<close>

fun observeDataLoop :: "(int \<times> json list) list \<Rightarrow> dbclient \<Rightarrow> dbclient" where
  "observeDataLoop [] s = s\<lparr>cl_observeData := []\<rparr>"
| "observeDataLoop ((i, reply) # ds) s =
     (let sub = (case map_of (cl_subs s) i of Some p \<Rightarrow> p | None \<Rightarrow> None)
      in observeDataLoop ds (s\<lparr>cl_subs := smap_put i sub (cl_subs s), cl_calls := cl_calls s @ [(sub, i, reply)]\<rparr>))"

definition observeDataProcess :: "dbclient \<Rightarrow> dbclient" where
  "observeDataProcess s = (if cl_observeDataLock s then s else observeDataLoop (cl_observeData s) s)"

definition destroyReply :: "int \<Rightarrow> dbclient \<Rightarrow> dbclient" where
  "destroyReply i s = s\<lparr>cl_replies := smap_del i (cl_replies s)\<rparr>"

fun runSlot :: "clslot \<Rightarrow> dbclient \<Rightarrow> dbclient" where
  "runSlot ObserveDataProcess s = observeDataProcess s"
| "runSlot (DestroyReply i) s = destroyReply i s"

definition runQueued :: "dbclient \<Rightarrow> dbclient" where
  "runQueued s = (case cl_queued s of [] \<Rightarrow> s | q # qs \<Rightarrow> runSlot q (s\<lparr>cl_queued := qs\<rparr>))"

definition cancelReply :: "int \<Rightarrow> (int \<times> linkobj) list \<Rightarrow> (int \<times> linkobj) list" where
  "cancelReply i replies =
     smap_put i (lo_set ''error'' (QString ''canceled'')
       (case map_of replies i of Some lo \<Rightarrow> lo | None \<Rightarrow> \<lparr>lo_map = [], lo_type = typeUnknown\<rparr>)) replies"

definition cancelAllActiveQueries :: "dbclient \<Rightarrow> int list \<times> dbclient" where
  "cancelAllActiveQueries s =
     (let ids = map fst (cl_activeQueries s)
      in (ids, s\<lparr>cl_replies := fold cancelReply ids (cl_replies s)\<rparr>))"

text \<open>The slot of the link's signal; the sender is the current link or one that was given up.\<close>

definition cl_clientRemoved :: "bool \<Rightarrow> dbclient \<Rightarrow> int list \<times> dbclient" where
  "cl_clientRemoved current s =
     (let (dones, s1) = (if current \<and> cl_connected s then cancelAllActiveQueries (s\<lparr>cl_connected := False\<rparr>) else ([], s));
          s2 = s1\<lparr>cl_subs := []\<rparr>
      in (dones, if cl_needConnected s2 then s2\<lparr>cl_connectTimer := Some (cl_nextConnectWaitTimeout s2)\<rparr> else s2))"

datatype clevent = EvReceive linkobj | EvClientRemoved bool | EvQueued

fun cl_event :: "clevent \<Rightarrow> dbclient \<Rightarrow> int list \<times> dbclient" where
  "cl_event (EvReceive lo) s = cl_receive lo s"
| "cl_event (EvClientRemoved current) s = cl_clientRemoved current s"
| "cl_event EvQueued s = ([], runQueued s)"

fun cl_events :: "clevent list \<Rightarrow> dbclient \<Rightarrow> int list \<times> dbclient" where
  "cl_events [] s = ([], s)"
| "cl_events (e # es) s =
     (let (d, s1) = cl_event e s; (ds, s2) = cl_events es s1 in (d @ ds, s2))"

subsection \<open>Requests\<close>

text \<open>The number is an \<open>int\<close>, which wraps around.\<close>

definition cl_newLinkObject :: "linkType \<Rightarrow> dbclient \<Rightarrow> int \<times> linkobj \<times> dbclient" where
  "cl_newLinkObject ty s =
     (cl_nextFId s, newLinkObject (cl_nextFId s) ty, s\<lparr>cl_nextFId := int32_inc (cl_nextFId s)\<rparr>)"

definition sendAndWaitReply :: "int \<Rightarrow> linkobj \<Rightarrow> clevent list \<Rightarrow> dbclient \<Rightarrow> (clcode \<times> dbclient) option" where
  "sendAndWaitReply i lo evs s =
     (if \<not> cl_connected s then None
      else
        let s1 = s\<lparr>cl_activeQueries := smap_put i lo (cl_activeQueries s), cl_sent := cl_sent s @ [lo]\<rparr>;
            (dones, s2) = cl_events evs s1;
            s3 = s2\<lparr>cl_activeQueries := smap_del i (cl_activeQueries s2), cl_queued := cl_queued s2 @ [DestroyReply i]\<rparr>
        in if i \<notin> set dones then Some (clErrorConnection, s3\<lparr>cl_lastError := ''Error: Timeout waiting reply''\<rparr>)
           else case map_of (cl_replies s3) i of
             None \<Rightarrow> None
           | Some reply \<Rightarrow>
               let errorString = vString (lo_get reply ''error'')
               in if errorString \<noteq> [] then Some (clError, s3\<lparr>cl_lastError := errorString\<rparr>)
                  else Some (clSuccess, s3))"

definition cl_request :: "linkType \<Rightarrow> (string \<times> qvariant) list \<Rightarrow> clevent list \<Rightarrow> dbclient
    \<Rightarrow> (clcode \<times> int \<times> dbclient) option" where
  "cl_request ty params evs s =
     (let (i, dbQuery, s1) = cl_newLinkObject ty s
      in map_option (\<lambda>(r, s2). (r, i, s2))
           (sendAndWaitReply i (fold (\<lambda>(k, v). lo_set k v) params dbQuery) evs s1))"

definition replyField :: "int \<Rightarrow> string \<Rightarrow> dbclient \<Rightarrow> qvariant" where
  "replyField i key s = (case map_of (cl_replies s) i of Some lo \<Rightarrow> lo_get lo key | None \<Rightarrow> QInvalid)"

text \<open>A request that only reports its code, and one that reads a field of a successful reply.\<close>

definition cl_command :: "linkType \<Rightarrow> (string \<times> qvariant) list \<Rightarrow> clevent list \<Rightarrow> dbclient \<Rightarrow> (clcode \<times> dbclient) option" where
  "cl_command ty params evs s = map_option (\<lambda>(r, i, s'). (r, s')) (cl_request ty params evs s)"

definition cl_query :: "linkType \<Rightarrow> (string \<times> qvariant) list \<Rightarrow> string \<Rightarrow> (qvariant \<Rightarrow> 'a) \<Rightarrow> 'a \<Rightarrow> clevent list \<Rightarrow> dbclient
    \<Rightarrow> (clcode \<times> 'a \<times> dbclient) option" where
  "cl_query ty params key conv reply evs s =
     map_option (\<lambda>(r, i, s'). (r, if r = clSuccess then conv (replyField i key s') else reply, s'))
       (cl_request ty params evs s)"

definition readParams :: "string \<Rightarrow> variantmap \<Rightarrow> variantmap \<Rightarrow> string \<Rightarrow> (string \<times> qvariant) list" where
  "readParams url query queryOptions snapshot =
     [(''url'', QString url), (''snapshot'', QString snapshot), (''query'', QVariantMap query),
      (''queryOptions'', QVariantMap queryOptions)]"

definition cl_find :: "string \<Rightarrow> variantmap \<Rightarrow> qvariant list \<Rightarrow> variantmap \<Rightarrow> string \<Rightarrow> clevent list \<Rightarrow> dbclient
    \<Rightarrow> (clcode \<times> qvariant list \<times> dbclient) option" where
  "cl_find url query reply queryOptions snapshot =
     cl_query typeFind (readParams url query queryOptions snapshot) ''reply'' vList reply"

definition cl_findOne :: "string \<Rightarrow> variantmap \<Rightarrow> variantmap \<Rightarrow> variantmap \<Rightarrow> string \<Rightarrow> clevent list \<Rightarrow> dbclient
    \<Rightarrow> (clcode \<times> variantmap \<times> dbclient) option" where
  "cl_findOne url query reply queryOptions snapshot =
     cl_query typeFindOne (readParams url query queryOptions snapshot) ''reply'' vMap reply"

definition cl_count :: "string \<Rightarrow> variantmap \<Rightarrow> int \<Rightarrow> variantmap \<Rightarrow> string \<Rightarrow> clevent list \<Rightarrow> dbclient
    \<Rightarrow> (clcode \<times> int \<times> dbclient) option" where
  "cl_count url query reply queryOptions snapshot =
     cl_query typeCount (readParams url query queryOptions snapshot) ''count'' vInt reply"

definition cl_createIndex :: "string \<Rightarrow> string \<Rightarrow> string \<Rightarrow> clevent list \<Rightarrow> dbclient \<Rightarrow> (clcode \<times> dbclient) option" where
  "cl_createIndex url fieldName indexName =
     cl_command typeCreateIndex
       [(''url'', QString url), (''fieldName'', QString fieldName), (''indexName'', QString indexName)]"

definition cl_newSnapshot :: "string \<Rightarrow> string \<Rightarrow> clevent list \<Rightarrow> dbclient \<Rightarrow> (clcode \<times> dbclient) option" where
  "cl_newSnapshot url snapshot = cl_command typeNewSnapshot [(''url'', QString url), (''snapshot'', QString snapshot)]"

definition cl_revertToSnapshot :: "string \<Rightarrow> string \<Rightarrow> clevent list \<Rightarrow> dbclient \<Rightarrow> (clcode \<times> dbclient) option" where
  "cl_revertToSnapshot url snapshot =
     cl_command typeRevertToSnapshot [(''url'', QString url), (''snapshot'', QString snapshot)]"

definition cl_removeSnapshot :: "string \<Rightarrow> string \<Rightarrow> clevent list \<Rightarrow> dbclient \<Rightarrow> (clcode \<times> dbclient) option" where
  "cl_removeSnapshot url snapshot =
     cl_command typeRemoveSnapshot [(''url'', QString url), (''snapshot'', QString snapshot)]"

text \<open>These two clear their result before they look at the code.\<close>

definition cl_getSnapshotList :: "string \<Rightarrow> clevent list \<Rightarrow> dbclient \<Rightarrow> (clcode \<times> string list \<times> dbclient) option" where
  "cl_getSnapshotList url =
     cl_query typeGetSnapshotList [(''url'', QString url)] ''snapshotList'' (\<lambda>v. map vString (vList v)) []"

definition cl_getModified :: "string \<Rightarrow> string \<Rightarrow> clevent list \<Rightarrow> dbclient \<Rightarrow> (clcode \<times> qvariant list \<times> dbclient) option" where
  "cl_getModified url snapshot =
     cl_query typeGetModified [(''url'', QString url), (''snapshot'', QString snapshot)] ''documentIds'' vList []"

definition cl_newTransaction :: "string \<Rightarrow> clevent list \<Rightarrow> dbclient \<Rightarrow> (int \<times> dbclient) option" where
  "cl_newTransaction url evs s =
     map_option (\<lambda>(r, i, s'). (i, s'))
       (cl_query typeNewTransaction [(''url'', QString url)] ''transactionId'' vInt (- 1) evs s)"

definition cl_writeTransaction :: "int \<Rightarrow> clevent list \<Rightarrow> dbclient \<Rightarrow> (clcode \<times> dbclient) option" where
  "cl_writeTransaction transactionId = cl_command typeWriteTransaction [(''transactionId'', QInt transactionId)]"

definition cl_discardTransaction :: "int \<Rightarrow> clevent list \<Rightarrow> dbclient \<Rightarrow> (clcode \<times> dbclient) option" where
  "cl_discardTransaction transactionId = cl_command typeDiscardTransaction [(''transactionId'', QInt transactionId)]"

definition cl_insert :: "string \<Rightarrow> variantmap \<Rightarrow> bytes \<Rightarrow> bool \<Rightarrow> bool \<Rightarrow> int \<Rightarrow> clevent list \<Rightarrow> dbclient
    \<Rightarrow> (clcode \<times> bytes \<times> dbclient) option" where
  "cl_insert url doc docId overwrite ignoreReadOnlyValue transactionId =
     cl_query typeInsert
       [(''url'', QString url), (''transactionId'', QInt transactionId), (''document'', QVariantMap doc),
        (''overwrite'', QBool overwrite), (''ignoreReadOnlyValue'', QBool ignoreReadOnlyValue)]
       ''documentId'' vString docId"

definition cl_remove :: "string \<Rightarrow> variantmap \<Rightarrow> int \<Rightarrow> clevent list \<Rightarrow> dbclient \<Rightarrow> (clcode \<times> dbclient) option" where
  "cl_remove url query transactionId =
     cl_command typeRemove
       [(''url'', QString url), (''query'', QVariantMap query), (''transactionId'', QInt transactionId)]"

definition cl_removeId :: "string \<Rightarrow> bytes \<Rightarrow> bool \<Rightarrow> int \<Rightarrow> clevent list \<Rightarrow> dbclient \<Rightarrow> (clcode \<times> dbclient) option" where
  "cl_removeId url docId ignoreReadOnlyValue transactionId =
     cl_command typeRemoveId
       [(''url'', QString url), (''documentId'', QByteArray docId), (''transactionId'', QInt transactionId),
        (''ignoreReadOnlyValue'', QBool ignoreReadOnlyValue)]"

definition cl_set :: "string \<Rightarrow> variantmap \<Rightarrow> qvariant list \<Rightarrow> int \<Rightarrow> clevent list \<Rightarrow> dbclient \<Rightarrow> (clcode \<times> dbclient) option" where
  "cl_set url query docs transactionId =
     cl_command typeSet
       [(''url'', QString url), (''query'', QVariantMap query), (''documents'', QVariantList docs),
        (''transactionId'', QInt transactionId)]"

definition cl_exclusiveLock :: "string \<Rightarrow> clevent list \<Rightarrow> dbclient \<Rightarrow> (clcode \<times> dbclient) option" where
  "cl_exclusiveLock url = cl_command typeExclusiveLock [(''url'', QString url)]"

definition cl_unlock :: "string \<Rightarrow> clevent list \<Rightarrow> dbclient \<Rightarrow> (clcode \<times> dbclient) option" where
  "cl_unlock url = cl_command typeUnlock [(''url'', QString url)]"

subsection \<open>Subscriptions\<close>

text \<open>While \<open>observe\<close> waits, data that arrives is kept back until the subscriber is registered.\<close>

definition cl_observe :: "nat \<Rightarrow> string \<Rightarrow> variantmap \<Rightarrow> variantmap \<Rightarrow> int \<Rightarrow> clevent list \<Rightarrow> dbclient
    \<Rightarrow> (int \<times> dbclient) option" where
  "cl_observe sub url query queryOptions preferedId evs s =
     (case cl_request typeObserve
            [(''url'', QString url), (''query'', QVariantMap query), (''queryOptions'', QVariantMap queryOptions),
             (''preferedId'', QInt preferedId)] evs (s\<lparr>cl_observeDataLock := True\<rparr>) of
        None \<Rightarrow> None
      | Some (r, i, s1) \<Rightarrow>
          if r = clSuccess then
            let observeId = vInt (replyField i ''observeId'' s1);
                info = \<lparr>oi_sub = sub, oi_url = url, oi_query = query, oi_queryOptions = queryOptions\<rparr>;
                infos = (if smap_has observeId (cl_observerInfo s1) then cl_observerInfo s1
                         else smap_put observeId info (cl_observerInfo s1))
            in Some (observeId, s1\<lparr>cl_observerInfo := infos, cl_subs := smap_put observeId (Some sub) (cl_subs s1),
                        cl_observeDataLock := False, cl_queued := cl_queued s1 @ [ObserveDataProcess]\<rparr>)
          else Some (- 1, s1\<lparr>cl_observeDataLock := False\<rparr>))"

definition cl_unobserve :: "int \<Rightarrow> clevent list \<Rightarrow> dbclient \<Rightarrow> (clcode \<times> dbclient) option" where
  "cl_unobserve observeId evs s =
     map_option (\<lambda>(r, s1). (r, if r = clSuccess
         then s1\<lparr>cl_subs := smap_del observeId (cl_subs s1), cl_observerInfo := smap_del observeId (cl_observerInfo s1)\<rparr>
         else s1))
       (cl_command typeUnobserve [(''observeId'', QInt observeId)] evs s)"

fun unobserveAll :: "(int \<times> clevent list) list \<Rightarrow> dbclient \<Rightarrow> dbclient option" where
  "unobserveAll [] s = Some s"
| "unobserveAll ((i, evs) # ids) s =
     (case cl_unobserve i evs s of None \<Rightarrow> None | Some (r, s') \<Rightarrow> unobserveAll ids s')"

text \<open>\<open>evs i\<close> are the events of the wait for number \<open>i\<close>.\<close>

definition subscriberDestroyed :: "nat \<Rightarrow> (int \<Rightarrow> clevent list) \<Rightarrow> dbclient \<Rightarrow> dbclient option" where
  "subscriberDestroyed sub evs s =
     (let observeIds = map fst (filter (\<lambda>e. snd e = Some sub) (cl_subs s))
      in unobserveAll (map (\<lambda>i. (i, evs i)) observeIds)
           (s\<lparr>cl_subs := filter (\<lambda>e. snd e \<noteq> Some sub) (cl_subs s)\<rparr>))"

subsection \<open>Connecting\<close>

text \<open>Whether the socket connects within two seconds is an input.\<close>

definition connectToServer :: "bool \<Rightarrow> dbclient \<Rightarrow> clcode \<times> dbclient" where
  "connectToServer ok s =
     (if ok then (clSuccess, s\<lparr>cl_needConnected := True, cl_connected := True\<rparr>) else (clErrorConnection, s))"

definition disconnectFromServer :: "dbclient \<Rightarrow> dbclient" where
  "disconnectFromServer s = s\<lparr>cl_needConnected := False\<rparr>"

text \<open>The subscriptions are renewed with the numbers they have, in the order of the numbers.\<close>

fun observeAgain :: "(int \<times> observerInfo) list \<Rightarrow> (int \<Rightarrow> clevent list) \<Rightarrow> dbclient \<Rightarrow> dbclient option" where
  "observeAgain [] evs s = Some s"
| "observeAgain ((i, info) # infos) evs s =
     (case cl_observe (oi_sub info) (oi_url info) (oi_query info) (oi_queryOptions info) i (evs i) s of
        None \<Rightarrow> None
      | Some (_, s') \<Rightarrow> observeAgain infos evs s')"

definition onConnectTimer :: "bool \<Rightarrow> (int \<Rightarrow> clevent list) \<Rightarrow> dbclient \<Rightarrow> dbclient option" where
  "onConnectTimer ok evs s =
     (let (r, s1) = connectToServer ok (s\<lparr>cl_connectTimer := None\<rparr>)
      in if r = clSuccess
         then observeAgain (cl_observerInfo s1) evs (s1\<lparr>cl_nextConnectWaitTimeout := 1000\<rparr>)
         else Some (s1\<lparr>cl_connectTimer := Some (cl_nextConnectWaitTimeout s1),
                       cl_nextConnectWaitTimeout := (if cl_nextConnectWaitTimeout s1 < 60000
                         then cl_nextConnectWaitTimeout s1 + 5000 else cl_nextConnectWaitTimeout s1)\<rparr>))"

end
