(* ===== verification/QDocClientLaws.thy ===== *)
theory QDocClientLaws
  imports QDocClient
begin

text \<open>
  The laws of the client: a reply is matched to the request that waits for it whatever else
  arrives; a request ends with the reply's error text, with a timeout, or cancelled by the loss
  of the connection. The numbers of requests wrap around, so a number is used again after
  \<open>2 ^ 32\<close> requests; the laws need that the clean-up of its last use is no longer queued
  (\<open>cl_fresh\<close>), which holds as long as fewer than \<open>2 ^ 32\<close> slots are queued (\<open>numbered_fresh\<close>).
\<close>

subsection \<open>Numbers of requests\<close>

text \<open>Every reply that is kept is waited for, or its deletion is queued.\<close>

definition cl_ok :: "dbclient \<Rightarrow> bool" where
  "cl_ok s \<longleftrightarrow> sorted_keys (cl_activeQueries s) \<and> sorted_keys (cl_replies s) \<and>
     (\<forall>i \<in> dom (map_of (cl_replies s)). DestroyReply i \<in> set (cl_queued s) \<or> smap_has i (cl_activeQueries s))"

definition cl_fresh :: "dbclient \<Rightarrow> bool" where
  "cl_fresh s \<longleftrightarrow> \<not> smap_has (cl_nextFId s) (cl_activeQueries s) \<and> DestroyReply (cl_nextFId s) \<notin> set (cl_queued s)"

lemma cl_ok_new: "cl_ok (QDocdbClient b0)"
  by (simp add: cl_ok_def QDocdbClient_def)

text \<open>The numbers whose deletion is queued, the oldest first; they were given one after the other.\<close>

fun destroys :: "clslot list \<Rightarrow> int list" where
  "destroys [] = []"
| "destroys (ObserveDataProcess # qs) = destroys qs"
| "destroys (DestroyReply i # qs) = i # destroys qs"

lemma destroys_append [simp]: "destroys (xs @ ys) = destroys xs @ destroys ys"
  by (induction xs rule: destroys.induct) simp_all

lemma set_destroys: "i \<in> set (destroys qs) \<longleftrightarrow> DestroyReply i \<in> set qs"
  by (induction qs rule: destroys.induct) auto

lemma length_destroys: "length (destroys qs) \<le> length qs"
  by (induction qs rule: destroys.induct) auto

fun consecutive :: "int list \<Rightarrow> int \<Rightarrow> bool" where
  "consecutive [] n = int32 n"
| "consecutive (i # is) n = (int32 i \<and> consecutive is n \<and> int32_inc i = (case is of [] \<Rightarrow> n | j # _ \<Rightarrow> j))"

definition numbered :: "dbclient \<Rightarrow> bool" where
  "numbered s \<longleftrightarrow> consecutive (destroys (cl_queued s)) (cl_nextFId s)"

lemma consecutive_int32: "consecutive is n \<Longrightarrow> int32 n"
  by (induction "is") simp_all

lemma consecutive_suffix: "consecutive (xs @ ys) n \<Longrightarrow> consecutive ys n"
  by (induction xs) auto

lemma consecutive_next: "consecutive is n \<Longrightarrow> consecutive (is @ [n]) (int32_inc n)"
proof (induction "is")
  case (Cons i "is")
  then show ?case by (cases "is") simp_all
qed (simp add: int32_inc_range)

text \<open>Modulo \<open>2 ^ 32\<close>, the first number is the next one less the length of the run.\<close>

lemma consecutive_first: "consecutive (i # is) n \<Longrightarrow> 2 ^ 32 dvd i + int (length (i # is)) - n"
proof (induction "is" arbitrary: i)
  case Nil
  then show ?case by (auto simp: int32_inc_def split: if_splits)
next
  case (Cons j "is")
  have "i + 1 = j \<or> i + 1 = j + 2 ^ 32" using Cons.prems by (auto simp: int32_inc_def split: if_splits)
  moreover obtain q where "j + int (length (j # is)) - n = 2 ^ 32 * q" using Cons by (auto elim: dvdE)
  ultimately have "i + int (length (i # j # is)) - n = 2 ^ 32 * q \<or>
      i + int (length (i # j # is)) - n = 2 ^ 32 * (q + 1)" by (auto simp: algebra_simps)
  then show ?case by (metis dvd_triv_left)
qed

lemma consecutive_fresh:
  assumes "consecutive is n" "length is < 2 ^ 32" shows "n \<notin> set is"
proof
  assume "n \<in> set is"
  then obtain xs ys where e: "is = xs @ n # ys" by (auto simp: in_set_conv_decomp)
  have "(2 ^ 32 :: int) dvd int (length (n # ys))"
    using consecutive_first [of n ys n] consecutive_suffix [of xs "n # ys" n] assms(1) by (simp add: e)
  then have "(2 ^ 32 :: int) \<le> int (length (n # ys))" by (intro zdvd_imp_le) simp_all
  moreover have "length (n # ys) \<le> length is" by (simp add: e)
  ultimately show False using assms(2) by simp
qed

lemma numbered_fresh:
  assumes "numbered s" "cl_activeQueries s = []" "length (cl_queued s) < 2 ^ 32" shows "cl_fresh s"
proof -
  have "length (destroys (cl_queued s)) < 2 ^ 32" using assms(3) length_destroys le_less_trans by blast
  then show ?thesis using consecutive_fresh assms(1,2) by (auto simp: cl_fresh_def numbered_def set_destroys [symmetric])
qed

lemma observeDataLoop_fields [simp]:
  "cl_activeQueries (observeDataLoop ds s) = cl_activeQueries s"
  "cl_replies (observeDataLoop ds s) = cl_replies s"
  "cl_nextFId (observeDataLoop ds s) = cl_nextFId s"
  "cl_queued (observeDataLoop ds s) = cl_queued s"
  "cl_connected (observeDataLoop ds s) = cl_connected s"
  by (induction ds s rule: observeDataLoop.induct) (simp_all add: Let_def)

lemma sorted_cancelReply [simp]: "sorted_keys rs \<Longrightarrow> sorted_keys (fold cancelReply ids rs)"
  by (induction ids arbitrary: rs) (simp_all add: cancelReply_def)

lemma dom_cancelReply [simp]:
  "dom (map_of (fold cancelReply ids rs)) = set ids \<union> dom (map_of rs)"
  by (induction ids arbitrary: rs) (auto simp: cancelReply_def)

text \<open>What every event keeps.\<close>

definition cl_frame :: "dbclient \<Rightarrow> dbclient \<Rightarrow> bool" where
  "cl_frame s s' \<longleftrightarrow> cl_activeQueries s' = cl_activeQueries s \<and> cl_nextFId s' = cl_nextFId s \<and>
     (\<exists>xs. destroys (cl_queued s) = xs @ destroys (cl_queued s')) \<and> (cl_ok s \<longrightarrow> cl_ok s')"

lemma keys_dom: "fst ` set xs = dom (map_of xs)"
  by (simp add: dom_map_of_conv_image_fst)

lemma cl_frame_refl [simp]: "cl_frame s s"
  by (simp add: cl_frame_def)

lemma cl_frame_trans: "cl_frame a b \<Longrightarrow> cl_frame b c \<Longrightarrow> cl_frame a c"
  unfolding cl_frame_def by (metis append.assoc)

lemma cl_frame_queued: "cl_frame s s' \<Longrightarrow> DestroyReply i \<in> set (cl_queued s') \<Longrightarrow> DestroyReply i \<in> set (cl_queued s)"
  by (auto simp: cl_frame_def set_destroys [symmetric])

lemma cl_frame_numbered: "cl_frame s s' \<Longrightarrow> numbered s \<Longrightarrow> numbered s'"
  by (auto simp: cl_frame_def numbered_def dest: consecutive_suffix)

lemma smap_del_dom: "map_of (smap_del k xs) i \<noteq> None \<Longrightarrow> map_of xs i \<noteq> None"
  by (induction xs) (auto split: if_splits)

lemma runQueued_frame: "cl_frame s (runQueued s)"
proof (cases "cl_queued s")
  case (Cons q qs)
  show ?thesis
  proof (cases q)
    case ObserveDataProcess
    then show ?thesis using Cons
      by (auto simp: cl_frame_def runQueued_def observeDataProcess_def cl_ok_def)
  next
    case (DestroyReply i)
    then show ?thesis using Cons
      by (auto simp: cl_frame_def runQueued_def destroyReply_def cl_ok_def dom_def)
  qed
qed (simp add: runQueued_def)

lemma clientRemoved_frame: "cl_frame s (snd (cl_clientRemoved current s))"
  by (auto simp: cl_frame_def cl_clientRemoved_def cancelAllActiveQueries_def Let_def keys_dom cl_ok_def)

lemma receive_frame: "cl_frame s (snd (cl_receive lo s))"
  by (auto simp: cl_frame_def cl_receive_def Let_def cl_ok_def split: if_splits)

lemma event_frame: "cl_frame s (snd (cl_event e s))"
  by (cases e) (simp_all add: runQueued_frame clientRemoved_frame receive_frame)

lemma events_frame: "cl_frame s (snd (cl_events es s))"
proof (induction es arbitrary: s)
  case (Cons e es)
  show ?case using cl_frame_trans [OF event_frame Cons.IH] by (simp add: case_prod_beta)
qed simp

lemma cl_frame_ok: "cl_frame s s' \<Longrightarrow> cl_ok s \<Longrightarrow> cl_ok s'"
  by (simp add: cl_frame_def)

text \<open>The state in which a request waits.\<close>

definition waiting :: "int \<Rightarrow> dbclient \<Rightarrow> bool" where
  "waiting i s \<longleftrightarrow> cl_ok s \<and> smap_has i (cl_activeQueries s) \<and> DestroyReply i \<notin> set (cl_queued s)"

definition startWait :: "linkobj \<Rightarrow> dbclient \<Rightarrow> dbclient" where
  "startWait lo s = s\<lparr>cl_nextFId := int32_inc (cl_nextFId s),
     cl_activeQueries := smap_put (cl_nextFId s) lo (cl_activeQueries s), cl_sent := cl_sent s @ [lo]\<rparr>"

lemma startWait_ok: "cl_ok s \<Longrightarrow> cl_ok (startWait lo s)"
  by (auto simp: cl_ok_def startWait_def)

lemma startWait_waiting: "cl_ok s \<Longrightarrow> cl_fresh s \<Longrightarrow> waiting (cl_nextFId s) (startWait lo s)"
  using startWait_ok [of s lo] by (simp add: waiting_def cl_fresh_def) (simp add: startWait_def cl_ok_def)

lemma startWait_fresh: "cl_ok s \<Longrightarrow> cl_fresh s \<Longrightarrow> map_of (cl_replies (startWait lo s)) (cl_nextFId s) = None"
  unfolding cl_ok_def cl_fresh_def startWait_def by (cases "map_of (cl_replies s) (cl_nextFId s)") auto

lemma waiting_event: "waiting i s \<Longrightarrow> waiting i (snd (cl_event e s))"
  using event_frame [of s e] cl_frame_ok [of s "snd (cl_event e s)"]
  by (auto simp: waiting_def cl_frame_def set_destroys [symmetric])

lemma waiting_events: "waiting i s \<Longrightarrow> waiting i (snd (cl_events es s))"
proof (induction es arbitrary: s)
  case (Cons e es)
  show ?case using Cons.IH [OF waiting_event [OF Cons.prems]] by (simp add: case_prod_beta)
qed simp

subsection \<open>Events that are no reply\<close>

fun no_reply :: "int \<Rightarrow> clevent \<Rightarrow> bool" where
  "no_reply i (EvReceive lo) = (lo_type lo = typeObserveData \<or> vInt (lo_get lo ''id'') \<noteq> i)"
| "no_reply i (EvClientRemoved current) = (\<not> current)"
| "no_reply i EvQueued = True"

lemma no_reply_event:
  assumes "waiting i s" "no_reply i e"
  shows "i \<notin> set (fst (cl_event e s)) \<and> map_of (cl_replies (snd (cl_event e s))) i = map_of (cl_replies s) i"
proof (cases e)
  case (EvReceive lo)
  then show ?thesis using assms by (auto simp: cl_receive_def Let_def)
next
  case (EvClientRemoved c)
  then show ?thesis using assms by (simp add: cl_clientRemoved_def Let_def)
next
  case EvQueued
  show ?thesis
  proof (cases "cl_queued s")
    case (Cons q qs)
    have "sorted_keys (cl_replies s)" using assms(1) by (simp add: waiting_def cl_ok_def)
    then show ?thesis using EvQueued Cons assms(1)
      by (cases q) (auto simp: runQueued_def observeDataProcess_def destroyReply_def waiting_def)
  qed (simp add: EvQueued runQueued_def)
qed

lemma no_reply_events:
  "waiting i s \<Longrightarrow> \<forall>e \<in> set es. no_reply i e \<Longrightarrow>
   i \<notin> set (fst (cl_events es s)) \<and> map_of (cl_replies (snd (cl_events es s))) i = map_of (cl_replies s) i"
proof (induction es arbitrary: s)
  case (Cons e es)
  show ?case
    using no_reply_event [OF Cons.prems(1), of e] Cons.IH [OF waiting_event [OF Cons.prems(1)], of e] Cons.prems(2)
    by (simp add: case_prod_beta)
qed simp

lemma events_append:
  "cl_events (as @ bs) s =
     (fst (cl_events as s) @ fst (cl_events bs (snd (cl_events as s))), snd (cl_events bs (snd (cl_events as s))))"
  by (induction as arbitrary: s) (simp_all add: case_prod_beta)

subsection \<open>How a request ends\<close>

definition endWait :: "int \<Rightarrow> dbclient \<Rightarrow> dbclient" where
  "endWait i s = s\<lparr>cl_activeQueries := smap_del i (cl_activeQueries s), cl_queued := cl_queued s @ [DestroyReply i]\<rparr>"

lemma endWait_ok: "cl_ok s \<Longrightarrow> cl_ok (endWait i s)"
  by (auto simp: cl_ok_def endWait_def)

lemma waiting_ok: "waiting i s \<Longrightarrow> cl_ok s"
  by (simp add: waiting_def)

definition requestMsg :: "linkType \<Rightarrow> (string \<times> qvariant) list \<Rightarrow> dbclient \<Rightarrow> linkobj" where
  "requestMsg ty params s = fold (\<lambda>(k, v). lo_set k v) params (newLinkObject (cl_nextFId s) ty)"

definition waitResult :: "int \<Rightarrow> int list \<Rightarrow> dbclient \<Rightarrow> (clcode \<times> int \<times> dbclient) option" where
  "waitResult i dones s =
     (if i \<notin> set dones then Some (clErrorConnection, i, s\<lparr>cl_lastError := ''Error: Timeout waiting reply''\<rparr>)
      else case map_of (cl_replies s) i of
        None \<Rightarrow> None
      | Some reply \<Rightarrow>
          if vString (lo_get reply ''error'') \<noteq> []
          then Some (clError, i, s\<lparr>cl_lastError := vString (lo_get reply ''error'')\<rparr>) else Some (clSuccess, i, s))"

lemma request_wait:
  "cl_connected s \<Longrightarrow> cl_request ty params evs s =
     (let (dones, s2) = cl_events evs (startWait (requestMsg ty params s) s)
      in waitResult (cl_nextFId s) dones (endWait (cl_nextFId s) s2))"
  by (simp add: cl_request_def cl_newLinkObject_def sendAndWaitReply_def startWait_def endWait_def requestMsg_def
      waitResult_def Let_def split: option.split prod.split)

text \<open>The reply arrives, among any other messages.\<close>

lemma request_reply:
  assumes ok: "cl_ok s" "cl_fresh s" and c: "cl_connected s" and evs: "evs = pre @ EvReceive reply # post"
    and n: "\<forall>e \<in> set pre \<union> set post. no_reply (cl_nextFId s) e"
    and r: "lo_type reply \<noteq> typeObserveData" "vInt (lo_get reply ''id'') = cl_nextFId s"
  shows "\<exists>s'. cl_request ty params evs s =
      Some (if vString (lo_get reply ''error'') = [] then clSuccess else clError, cl_nextFId s, s') \<and>
    map_of (cl_replies s') (cl_nextFId s) = Some reply \<and> cl_ok s' \<and>
    (vString (lo_get reply ''error'') \<noteq> [] \<longrightarrow> cl_lastError s' = vString (lo_get reply ''error''))"
proof -
  let ?i = "cl_nextFId s"
  let ?lo = "requestMsg ty params s"
  define s1 where "s1 = snd (cl_events pre (startWait ?lo s))"
  define s2 where "s2 = snd (cl_event (EvReceive reply) s1)"
  define s3 where "s3 = snd (cl_events post s2)"
  have w0: "waiting ?i (startWait ?lo s)" by (rule startWait_waiting [OF ok])
  have w1: "waiting ?i s1" unfolding s1_def by (rule waiting_events [OF w0])
  have w2: "waiting ?i s2" unfolding s2_def by (rule waiting_event [OF w1])
  have w3: "waiting ?i s3" unfolding s3_def by (rule waiting_events [OF w2])
  have "cl_event (EvReceive reply) s1 = ([?i], s1\<lparr>cl_replies := smap_put ?i reply (cl_replies s1)\<rparr>)"
    using w1 r by (simp add: cl_receive_def waiting_def Let_def)
  then have d: "fst (cl_event (EvReceive reply) s1) = [?i]" and "map_of (cl_replies s2) ?i = Some reply"
    by (simp_all add: s2_def)
  then have rep: "map_of (cl_replies s3) ?i = Some reply"
    using no_reply_events [OF w2, of post] n by (simp add: s3_def)
  have "cl_events evs (startWait ?lo s) =
      (fst (cl_events pre (startWait ?lo s)) @ ?i # fst (cl_events post s2), s3)"
    using d unfolding evs events_append by (simp add: s1_def s2_def s3_def case_prod_beta)
  then show ?thesis
    using rep endWait_ok [OF waiting_ok [OF w3]] unfolding request_wait [OF c]
    by (simp add: waitResult_def) (simp add: endWait_def cl_ok_def)
qed

text \<open>No reply arrives.\<close>

lemma request_timeout:
  assumes ok: "cl_ok s" "cl_fresh s" and c: "cl_connected s" and n: "\<forall>e \<in> set evs. no_reply (cl_nextFId s) e"
  shows "\<exists>s'. cl_request ty params evs s = Some (clErrorConnection, cl_nextFId s, s') \<and>
    map_of (cl_replies s') (cl_nextFId s) = None \<and> \<not> smap_has (cl_nextFId s) (cl_activeQueries s') \<and> cl_ok s'"
proof -
  let ?i = "cl_nextFId s"
  let ?lo = "requestMsg ty params s"
  have w0: "waiting ?i (startWait ?lo s)" by (rule startWait_waiting [OF ok])
  have w: "waiting ?i (snd (cl_events evs (startWait ?lo s)))" by (rule waiting_events [OF w0])
  note nr = no_reply_events [OF w0 n] startWait_fresh [OF ok, of ?lo]
  have "sorted_keys (cl_activeQueries (snd (cl_events evs (startWait ?lo s))))"
    using w by (simp add: waiting_def cl_ok_def)
  then show ?thesis
    using nr endWait_ok [OF waiting_ok [OF w]] unfolding request_wait [OF c]
    by (simp add: waitResult_def case_prod_beta) (simp add: endWait_def cl_ok_def)
qed

text \<open>The connection is lost before the reply arrives.\<close>

lemma no_reply_connected: "no_reply i e \<Longrightarrow> cl_connected (snd (cl_event e s)) = cl_connected s"
proof (cases e)
  case EvQueued
  then show ?thesis
    by (cases "cl_queued s"; cases "hd (cl_queued s)") (auto simp: runQueued_def observeDataProcess_def destroyReply_def)
qed (auto simp: cl_receive_def cl_clientRemoved_def Let_def)

lemma no_reply_connected_all:
  "\<forall>e \<in> set es. no_reply i e \<Longrightarrow> cl_connected (snd (cl_events es s)) = cl_connected s"
proof (induction es arbitrary: s)
  case (Cons e es)
  show ?case using Cons.IH [of "snd (cl_event e s)"] no_reply_connected [of i e s] Cons.prems
    by (simp add: case_prod_beta)
qed simp

lemma cancelReply_error:
  assumes "i \<in> set ids"
  shows "\<exists>lo. map_of (fold cancelReply ids rs) i = Some lo \<and> lo_get lo ''error'' = QString ''canceled''"
proof -
  have keep: "\<exists>lo. map_of (cancelReply j rs) i = Some lo \<and> lo_get lo ''error'' = QString ''canceled''"
    if "j = i \<or> (\<exists>lo. map_of rs i = Some lo \<and> lo_get lo ''error'' = QString ''canceled'')" for j rs
    using that by (auto simp: cancelReply_def lo_get_def lo_set_def)
  then have "\<exists>lo. map_of rs i = Some lo \<and> lo_get lo ''error'' = QString ''canceled'' \<Longrightarrow>
      \<exists>lo. map_of (fold cancelReply ids rs) i = Some lo \<and> lo_get lo ''error'' = QString ''canceled''" for ids rs
    by (induction ids arbitrary: rs) simp_all
  with keep assms show ?thesis by (induction ids arbitrary: rs) auto
qed

lemma request_canceled:
  assumes ok: "cl_ok s" "cl_fresh s" and c: "cl_connected s" and evs: "evs = pre @ EvClientRemoved True # post"
    and n: "\<forall>e \<in> set pre \<union> set post. no_reply (cl_nextFId s) e"
  shows "\<exists>s'. cl_request ty params evs s = Some (clError, cl_nextFId s, s') \<and>
    cl_lastError s' = ''canceled'' \<and> \<not> cl_connected s' \<and> cl_ok s'"
proof -
  let ?i = "cl_nextFId s" and ?lo = "requestMsg ty params s"
  define s1 where "s1 = snd (cl_events pre (startWait ?lo s))"
  define s2 where "s2 = snd (cl_event (EvClientRemoved True) s1)"
  define s3 where "s3 = snd (cl_events post s2)"
  have w1: "waiting ?i s1" unfolding s1_def by (rule waiting_events [OF startWait_waiting [OF ok]])
  have w2: "waiting ?i s2" unfolding s2_def by (rule waiting_event [OF w1])
  have w3: "waiting ?i s3" unfolding s3_def by (rule waiting_events [OF w2])
  have c1: "cl_connected s1"
    using n c no_reply_connected_all [of pre ?i "startWait ?lo s"] by (simp add: s1_def startWait_def)
  have act: "?i \<in> set (map fst (cl_activeQueries s1))"
    using w1 by (simp add: waiting_def keys_dom domIff)
  have d: "?i \<in> set (fst (cl_event (EvClientRemoved True) s1))" and c2: "\<not> cl_connected s2"
    and r2: "cl_replies s2 = fold cancelReply (map fst (cl_activeQueries s1)) (cl_replies s1)"
    using c1 act by (simp_all add: s2_def cl_clientRemoved_def cancelAllActiveQueries_def Let_def)
  have c3: "\<not> cl_connected s3" using n c2 no_reply_connected_all [of post ?i s2] by (simp add: s3_def)
  obtain lo where lo: "map_of (cl_replies s3) ?i = Some lo" "lo_get lo ''error'' = QString ''canceled''"
    using cancelReply_error [OF act] no_reply_events [OF w2, of post] n r2 by (auto simp: s3_def)
  have "?i \<in> set (fst (cl_events evs (startWait ?lo s))) \<and> snd (cl_events evs (startWait ?lo s)) = s3"
    using d unfolding evs events_append by (simp add: s1_def s2_def s3_def case_prod_beta)
  then show ?thesis
    using lo c3 endWait_ok [OF waiting_ok [OF w3]] unfolding request_wait [OF c]
    by (simp add: waitResult_def case_prod_beta) (simp add: endWait_def cl_ok_def)
qed

subsection \<open>A request on a connection ends\<close>

lemma fold_cancelReply_keeps: "smap_has i rs \<Longrightarrow> smap_has i (fold cancelReply ids rs)"
  by (metis UnCI domIff dom_cancelReply)

lemma event_reply:
  assumes "waiting i s"
  shows "(i \<in> set (fst (cl_event e s)) \<longrightarrow> smap_has i (cl_replies (snd (cl_event e s)))) \<and>
    (smap_has i (cl_replies s) \<longrightarrow> smap_has i (cl_replies (snd (cl_event e s))))"
proof (cases e)
  case (EvReceive lo)
  then show ?thesis by (auto simp: cl_receive_def Let_def)
next
  case (EvClientRemoved c)
  have "i \<in> set (map fst (cl_activeQueries s)) \<Longrightarrow>
      smap_has i (fold cancelReply (map fst (cl_activeQueries s)) (cl_replies s))"
    using cancelReply_error [of i "map fst (cl_activeQueries s)" "cl_replies s"] by auto
  then show ?thesis using EvClientRemoved
    using fold_cancelReply_keeps [of "cl_replies s" i "map fst (cl_activeQueries s)"]
    by (simp add: cl_clientRemoved_def cancelAllActiveQueries_def Let_def)
next
  case EvQueued
  then show ?thesis using no_reply_event [OF assms, of EvQueued] by simp
qed

lemma events_reply:
  assumes "waiting i s"
  shows "(i \<in> set (fst (cl_events es s)) \<longrightarrow> smap_has i (cl_replies (snd (cl_events es s)))) \<and>
    (smap_has i (cl_replies s) \<longrightarrow> smap_has i (cl_replies (snd (cl_events es s))))"
  using assms
proof (induction es arbitrary: s)
  case (Cons e es)
  show ?case using event_reply [OF Cons.prems, of e] Cons.IH [OF waiting_event [OF Cons.prems], of e]
    by (auto simp: case_prod_beta)
qed simp

lemma request_total: "cl_ok s \<Longrightarrow> cl_fresh s \<Longrightarrow> cl_connected s \<Longrightarrow> cl_request ty params evs s \<noteq> None"
  using events_reply [OF startWait_waiting, of s evs "requestMsg ty params s"]
  by (auto simp: request_wait waitResult_def case_prod_beta endWait_def split: option.split)

end
