(* ===== verification/QDocClientStates.thy ===== *)
theory QDocClientStates
  imports QDocClientLaws
begin

text \<open>
  The client as a state machine over its operations, with the invariant of its reachable
  states, and the delivery of observed data to the subscribers.
\<close>

inductive cl_step :: "dbclient \<Rightarrow> dbclient \<Rightarrow> bool" where
  Event: "cl_step s (snd (cl_event e s))"
| Request: "cl_request ty params evs s = Some (r, i, s') \<Longrightarrow> cl_step s s'"
| Observe: "cl_observe sub url query queryOptions preferedId evs s = Some (i, s') \<Longrightarrow> cl_step s s'"
| Unobserve: "cl_unobserve i evs s = Some (r, s') \<Longrightarrow> cl_step s s'"
| Destroyed: "subscriberDestroyed sub evss s = Some s' \<Longrightarrow> cl_step s s'"
| Connect: "cl_step s (snd (connectToServer ok s))"
| Disconnect: "cl_step s (disconnectFromServer s)"
| Timer: "onConnectTimer ok evss s = Some s' \<Longrightarrow> cl_step s s'"

inductive_cases cl_stepE: "cl_step s s'"

inductive cl_reachable :: "dbclient \<Rightarrow> bool" where
  Start: "cl_reachable (QDocdbClient b0)"
| Step: "cl_reachable s \<Longrightarrow> cl_step s s' \<Longrightarrow> cl_reachable s'"

subsection \<open>The invariant\<close>

definition waitTime :: "int \<Rightarrow> bool" where
  "waitTime t \<longleftrightarrow> 1000 \<le> t \<and> t \<le> 61000 \<and> t mod 5000 = 1000"

lemma waitTime_more: "waitTime t \<Longrightarrow> t < 60000 \<Longrightarrow> waitTime (t + 5000)"
proof -
  assume t: "waitTime t" "t < 60000"
  have "t = 5000 * (t div 5000) + 1000" using t(1) mult_div_mod_eq [of 5000 t] by (simp add: waitTime_def)
  moreover from this t(2) have "t div 5000 < 12" by linarith
  ultimately have "t \<le> 56000" by linarith
  with t(1) show ?thesis by (simp add: waitTime_def)
qed

definition cl_settled :: "dbclient \<Rightarrow> bool" where
  "cl_settled s \<longleftrightarrow> sorted_keys (cl_subs s) \<and> sorted_keys (cl_observerInfo s) \<and>
     waitTime (cl_nextConnectWaitTimeout s) \<and> (\<forall>t. cl_connectTimer s = Some t \<longrightarrow> waitTime t)"

definition cl_inv :: "dbclient \<Rightarrow> bool" where
  "cl_inv s \<longleftrightarrow> cl_ok s \<and> cl_activeQueries s = [] \<and> cl_settled s \<and> numbered s"

lemma cl_inv_new: "cl_inv (QDocdbClient b0)"
  by (simp add: cl_inv_def cl_ok_new)
    (simp add: cl_settled_def QDocdbClient_def waitTime_def numbered_def int32_def)

lemma cl_inv_fresh: "cl_inv s \<Longrightarrow> length (cl_queued s) < 2 ^ 32 \<Longrightarrow> cl_fresh s"
  by (simp add: cl_inv_def numbered_fresh)

lemma cl_inv_iff: "cl_inv s \<longleftrightarrow> cl_activeQueries s = [] \<and> sorted_keys (cl_replies s) \<and>
    (\<forall>i \<in> dom (map_of (cl_replies s)). DestroyReply i \<in> set (cl_queued s)) \<and>
    sorted_keys (cl_subs s) \<and> sorted_keys (cl_observerInfo s) \<and> waitTime (cl_nextConnectWaitTimeout s) \<and>
    (\<forall>t. cl_connectTimer s = Some t \<longrightarrow> waitTime t) \<and> consecutive (destroys (cl_queued s)) (cl_nextFId s)"
  by (auto simp: cl_inv_def cl_ok_def cl_settled_def numbered_def)

lemma observeDataLoop_settled: "cl_settled s \<Longrightarrow> cl_settled (observeDataLoop ds s)"
proof (induction ds s rule: observeDataLoop.induct)
  case (1 s)
  then show ?case by (simp add: cl_settled_def)
next
  case (2 i reply ds s)
  let ?sub = "case map_of (cl_subs s) i of Some p \<Rightarrow> p | None \<Rightarrow> None"
  have "cl_settled (s\<lparr>cl_subs := smap_put i ?sub (cl_subs s), cl_calls := cl_calls s @ [(?sub, i, reply)]\<rparr>)"
    using 2(2) by (simp add: cl_settled_def)
  from 2(1) [OF refl this] show ?case by (simp only: observeDataLoop.simps Let_def)
qed

lemma runSlot_settled: "cl_settled s \<Longrightarrow> cl_settled (runSlot q s)"
proof (cases q)
  case ObserveDataProcess
  then show "cl_settled s \<Longrightarrow> ?thesis" by (simp add: observeDataProcess_def observeDataLoop_settled)
next
  case (DestroyReply i)
  then show "cl_settled s \<Longrightarrow> ?thesis" by (simp add: destroyReply_def cl_settled_def)
qed

lemma runQueued_settled: "cl_settled s \<Longrightarrow> cl_settled (runQueued s)"
proof (cases "cl_queued s")
  case (Cons q qs)
  assume "cl_settled s"
  then have "cl_settled (s\<lparr>cl_queued := qs\<rparr>)" by (simp add: cl_settled_def)
  then show ?thesis using Cons by (simp add: runQueued_def runSlot_settled)
qed (simp add: runQueued_def)

lemma event_settled: "cl_settled s \<Longrightarrow> cl_settled (snd (cl_event e s))"
proof (cases e)
  case (EvReceive lo)
  then show "cl_settled s \<Longrightarrow> ?thesis" by (simp add: cl_receive_def Let_def cl_settled_def)
next
  case (EvClientRemoved b)
  then show "cl_settled s \<Longrightarrow> ?thesis"
    by (simp add: cl_clientRemoved_def cancelAllActiveQueries_def Let_def cl_settled_def)
qed (simp add: runQueued_settled)

lemma events_settled: "cl_settled s \<Longrightarrow> cl_settled (snd (cl_events es s))"
proof (induction es arbitrary: s)
  case (Cons e es)
  show ?case using Cons.IH [OF event_settled [OF Cons.prems]] by (simp add: case_prod_beta)
qed simp

lemma request_connected: "cl_request ty params evs s = Some (r, i, s') \<Longrightarrow> cl_connected s"
  by (cases "cl_connected s") (simp_all add: cl_request_def cl_newLinkObject_def sendAndWaitReply_def)

lemma waitResult_state: "waitResult i ds s = Some (r, j, s') \<Longrightarrow> j = i \<and> (\<exists>err. s' = s\<lparr>cl_lastError := err\<rparr>)"
  by (auto simp: waitResult_def split: if_splits option.splits intro: exI [of _ "cl_lastError s"])

lemma request_inv:
  assumes "cl_inv s" "cl_request ty params evs s = Some (r, i, s')"
  shows "cl_inv s' \<and> i = cl_nextFId s \<and> cl_nextFId s' = int32_inc (cl_nextFId s)"
proof -
  let ?i = "cl_nextFId s" and ?lo = "requestMsg ty params s"
  let ?s0 = "startWait ?lo s" and ?s2 = "snd (cl_events evs (startWait (requestMsg ty params s) s))"
  note ok = assms(1) [unfolded cl_inv_def]
  have fe: "cl_frame ?s0 ?s2" by (rule events_frame)
  have w: "cl_ok ?s2" using ok by (intro cl_frame_ok [OF fe] startWait_ok) simp
  have se: "cl_settled ?s2" using ok by (intro events_settled) (simp add: startWait_def cl_settled_def)
  have fr: "cl_activeQueries ?s2 = [(?i, ?lo)]" "cl_nextFId ?s2 = int32_inc ?i"
    using fe ok by (simp_all add: cl_frame_def startWait_def)
  have "consecutive (destroys (cl_queued ?s2)) ?i"
    using fe ok by (auto simp: cl_frame_def startWait_def numbered_def dest: consecutive_suffix)
  then have nu: "numbered (endWait ?i ?s2)" using fr(2) by (simp add: numbered_def endWait_def consecutive_next)
  obtain err where i: "i = ?i" and s': "s' = (endWait ?i ?s2)\<lparr>cl_lastError := err\<rparr>"
    using assms(2) waitResult_state unfolding request_wait [OF request_connected [OF assms(2)]]
    by (fastforce simp: case_prod_beta)
  have e: "cl_ok s'" "numbered s'" using endWait_ok [OF w] nu by (simp_all add: s' cl_ok_def numbered_def)
  show ?thesis using i se fr e by (simp add: cl_inv_def s') (simp add: cl_settled_def endWait_def)
qed

lemma event_inv: "cl_inv s \<Longrightarrow> cl_inv (snd (cl_event e s))"
  using event_frame [of s e] by (simp add: cl_inv_def event_settled cl_frame_ok cl_frame_numbered) (simp add: cl_frame_def)

lemma observe_inv:
  assumes "cl_inv s" "cl_observe sub url query queryOptions preferedId evs s = Some (i, s')"
  shows "cl_inv s'"
proof -
  have lock: "cl_inv (s\<lparr>cl_observeDataLock := True\<rparr>)"
    using assms(1) by (simp add: cl_inv_iff)
  obtain r j s1 where r: "cl_request typeObserve
      [(''url'', QString url), (''query'', QVariantMap query), (''queryOptions'', QVariantMap queryOptions),
       (''preferedId'', QInt preferedId)] evs (s\<lparr>cl_observeDataLock := True\<rparr>) = Some (r, j, s1)"
    using assms(2) by (auto simp: cl_observe_def split: option.splits)
  have "cl_inv s1" using request_inv [OF lock r] by blast
  then show ?thesis using assms(2)
    by (auto simp: cl_observe_def r Let_def cl_inv_iff split: if_splits)
qed

lemma unobserve_inv:
  assumes "cl_inv s" "cl_unobserve i evs s = Some (r, s')"
  shows "cl_inv s'"
proof -
  obtain j s1 where r: "cl_request typeUnobserve [(''observeId'', QInt i)] evs s = Some (r, j, s1)"
    and s': "s' = (if r = clSuccess then s1\<lparr>cl_subs := smap_del i (cl_subs s1),
      cl_observerInfo := smap_del i (cl_observerInfo s1)\<rparr> else s1)"
    using assms(2) by (auto simp: cl_unobserve_def cl_command_def)
  then show ?thesis using request_inv [OF assms(1) r]
    by (auto simp: cl_inv_iff)
qed

lemma unobserveAll_inv: "cl_inv s \<Longrightarrow> unobserveAll ids s = Some s' \<Longrightarrow> cl_inv s'"
  by (induction ids s rule: unobserveAll.induct) (auto split: option.splits dest: unobserve_inv)

lemma sorted_filter_keys: "sorted_keys xs \<Longrightarrow> sorted_keys (filter P xs)"
  by (induction xs) auto

lemma destroyed_inv: "cl_inv s \<Longrightarrow> subscriberDestroyed sub evss s = Some s' \<Longrightarrow> cl_inv s'"
  unfolding subscriberDestroyed_def Let_def
  by (erule unobserveAll_inv [rotated]) (simp add: cl_inv_iff sorted_filter_keys)

lemma observeAgain_inv: "cl_inv s \<Longrightarrow> observeAgain infos evss s = Some s' \<Longrightarrow> cl_inv s'"
  by (induction infos evss s rule: observeAgain.induct) (auto split: option.splits dest: observe_inv)

lemma timer_inv:
  assumes "cl_inv s" "onConnectTimer ok evss s = Some s'" shows "cl_inv s'"
proof (cases ok)
  case True
  have "cl_inv (s\<lparr>cl_connectTimer := None, cl_needConnected := True, cl_connected := True, cl_nextConnectWaitTimeout := 1000\<rparr>)"
    using assms(1) by (simp add: cl_inv_iff waitTime_def)
  then show ?thesis using observeAgain_inv assms(2) True
    by (simp add: onConnectTimer_def connectToServer_def)
next
  case False
  then show ?thesis using assms
    by (auto simp: onConnectTimer_def connectToServer_def cl_inv_iff waitTime_more)
qed

lemma cl_step_inv: "cl_step s s' \<Longrightarrow> cl_inv s \<Longrightarrow> cl_inv s'"
proof (induction rule: cl_step.induct)
  case (Request ty params evs s r i s')
  then show ?case using request_inv by blast
next
  case (Connect s ok)
  then show ?case by (simp add: connectToServer_def cl_inv_iff)
next
  case (Disconnect s)
  then show ?case by (simp add: disconnectFromServer_def cl_inv_iff)
qed (blast intro: event_inv observe_inv unobserve_inv destroyed_inv timer_inv)+

lemma cl_reachable_inv: "cl_reachable s \<Longrightarrow> cl_inv s"
  by (induction rule: cl_reachable.induct) (simp_all add: cl_inv_new cl_step_inv)

subsection \<open>Observed data\<close>

text \<open>The data among the events of a wait, and the subscriber a number has.\<close>

fun dataOf :: "clevent list \<Rightarrow> (int \<times> json list) list" where
  "dataOf [] = []"
| "dataOf (EvReceive lo # es) =
     (if lo_type lo = typeObserveData
      then (vInt (lo_get lo ''observeId''), map variantToJson (vList (lo_get lo ''reply''))) # dataOf es else dataOf es)"
| "dataOf (e # es) = dataOf es"

definition subOf :: "dbclient \<Rightarrow> int \<Rightarrow> nat option" where
  "subOf s i = (case map_of (cl_subs s) i of Some p \<Rightarrow> p | None \<Rightarrow> None)"

lemma observeDataLoop_calls:
  "cl_calls (observeDataLoop ds s) = cl_calls s @ map (\<lambda>(i, reply). (subOf s i, i, reply)) ds \<and>
   cl_observeData (observeDataLoop ds s) = []"
proof (induction ds s rule: observeDataLoop.induct)
  case (2 i reply ds s)
  let ?s = "s\<lparr>cl_subs := smap_put i (subOf s i) (cl_subs s), cl_calls := cl_calls s @ [(subOf s i, i, reply)]\<rparr>"
  have "subOf ?s = subOf s" by (auto simp: subOf_def)
  then show ?case using 2 [OF refl] by (simp add: Let_def subOf_def [symmetric])
qed simp

lemma event_locked:
  "cl_observeDataLock s \<Longrightarrow> cl_observeDataLock (snd (cl_event e s)) \<and> cl_calls (snd (cl_event e s)) = cl_calls s \<and>
   cl_observeData (snd (cl_event e s)) = cl_observeData s @ dataOf [e]"
proof (cases e)
  case EvQueued
  assume "cl_observeDataLock s"
  then show ?thesis using EvQueued
    by (cases "cl_queued s"; cases "hd (cl_queued s)") (auto simp: runQueued_def observeDataProcess_def destroyReply_def)
qed (simp_all add: cl_receive_def cl_clientRemoved_def cancelAllActiveQueries_def Let_def)

lemma dataOf_cons: "dataOf (e # es) = dataOf [e] @ dataOf es"
  by (cases e) simp_all

lemma events_locked:
  "cl_observeDataLock s \<Longrightarrow> cl_observeDataLock (snd (cl_events es s)) \<and> cl_calls (snd (cl_events es s)) = cl_calls s \<and>
   cl_observeData (snd (cl_events es s)) = cl_observeData s @ dataOf es"
proof (induction es arbitrary: s)
  case (Cons e es)
  show ?case using event_locked [OF Cons.prems, of e] Cons.IH [of "snd (cl_event e s)"]
    by (simp add: case_prod_beta dataOf_cons [of e es])
qed simp

lemma request_locked:
  assumes "cl_request ty params evs s = Some (r, i, s')" "cl_observeDataLock s"
  shows "cl_calls s' = cl_calls s \<and> cl_observeData s' = cl_observeData s @ dataOf evs"
proof -
  let ?s2 = "snd (cl_events evs (startWait (requestMsg ty params s) s))"
  obtain err where "s' = (endWait (cl_nextFId s) ?s2)\<lparr>cl_lastError := err\<rparr>"
    using assms(1) waitResult_state unfolding request_wait [OF request_connected [OF assms(1)]]
    by (fastforce simp: case_prod_beta)
  then show ?thesis using events_locked [of "startWait (requestMsg ty params s) s" evs] assms(2)
    by (simp add: endWait_def startWait_def)
qed

lemma observe_data:
  assumes "cl_observe sub url query queryOptions preferedId evs s = Some (i, s')"
  shows "cl_calls s' = cl_calls s \<and> cl_observeData s' = cl_observeData s @ dataOf evs \<and> \<not> cl_observeDataLock s' \<and>
    (i \<noteq> - 1 \<longrightarrow> ObserveDataProcess \<in> set (cl_queued s') \<and> subOf s' i = Some sub)"
proof -
  obtain r j s1 where r: "cl_request typeObserve
      [(''url'', QString url), (''query'', QVariantMap query), (''queryOptions'', QVariantMap queryOptions),
       (''preferedId'', QInt preferedId)] evs (s\<lparr>cl_observeDataLock := True\<rparr>) = Some (r, j, s1)"
    using assms by (auto simp: cl_observe_def split: option.splits)
  show ?thesis using assms request_locked [OF r]
    by (auto simp: cl_observe_def r Let_def subOf_def split: if_splits)
qed

lemma process_data:
  "\<not> cl_observeDataLock s \<Longrightarrow> cl_calls (observeDataProcess s)
     = cl_calls s @ map (\<lambda>(i, reply). (subOf s i, i, reply)) (cl_observeData s) \<and>
   cl_observeData (observeDataProcess s) = []"
  by (simp add: observeDataProcess_def observeDataLoop_calls)

subsection \<open>Who is called\<close>

text \<open>While a client handles events it calls only subscribers it has at the start.\<close>

definition subscribers :: "dbclient \<Rightarrow> nat option set" where
  "subscribers s = insert None (snd ` set (cl_subs s))"

definition calls_to :: "dbclient \<Rightarrow> dbclient \<Rightarrow> bool" where
  "calls_to s s' \<longleftrightarrow> (\<exists>xs. cl_calls s' = cl_calls s @ xs \<and> fst ` set xs \<subseteq> subscribers s)"

definition calls_kept :: "dbclient \<Rightarrow> dbclient \<Rightarrow> bool" where
  "calls_kept s s' \<longleftrightarrow> calls_to s s' \<and> subscribers s' \<subseteq> subscribers s"

lemma calls_kept_refl: "cl_calls s' = cl_calls s \<Longrightarrow> cl_subs s' = cl_subs s \<Longrightarrow> calls_kept s s'"
  by (simp add: calls_kept_def calls_to_def subscribers_def)

lemma calls_kept_trans: "calls_kept a b \<Longrightarrow> calls_kept b c \<Longrightarrow> calls_kept a c"
  unfolding calls_kept_def calls_to_def by (elim conjE exE) (intro conjI, auto simp: image_Un)

lemma calls_to_same: "calls_to a b \<Longrightarrow> cl_calls c = cl_calls b \<Longrightarrow> calls_to a c"
  by (simp add: calls_to_def)

lemma subOf_subscribers: "subOf s i \<in> subscribers s"
  by (auto simp: subOf_def subscribers_def split: option.split dest!: map_of_SomeD intro: rev_image_eqI)

lemma observeDataLoop_calls_kept: "calls_kept s (observeDataLoop ds s)"
proof (induction ds s rule: observeDataLoop.induct)
  case (1 s)
  show ?case by (rule calls_kept_refl) simp_all
next
  case (2 i reply ds s)
  let ?s = "s\<lparr>cl_subs := smap_put i (subOf s i) (cl_subs s), cl_calls := cl_calls s @ [(subOf s i, i, reply)]\<rparr>"
  have "subscribers ?s \<subseteq> insert (subOf s i) (subscribers s)"
    using set_smap_put_snd [of i "subOf s i" "cl_subs s"] by (auto simp: subscribers_def)
  then have "calls_kept s ?s"
    using subOf_subscribers [of s i] by (simp add: calls_kept_def calls_to_def insert_absorb)
  moreover have "observeDataLoop ((i, reply) # ds) s = observeDataLoop ds ?s" by (simp add: subOf_def Let_def)
  ultimately show ?case using 2 [OF refl] calls_kept_trans by (simp add: subOf_def)
qed

lemma event_calls_kept: "calls_kept s (snd (cl_event e s))"
proof (cases e)
  case (EvReceive lo)
  then show ?thesis by (auto simp: cl_receive_def Let_def intro!: calls_kept_refl)
next
  case (EvClientRemoved b)
  then show ?thesis
    by (simp add: cl_clientRemoved_def cancelAllActiveQueries_def Let_def)
      (simp add: calls_kept_def calls_to_def subscribers_def)
next
  case EvQueued
  show ?thesis
  proof (cases "cl_queued s")
    case (Cons q qs)
    have q: "calls_kept s (s\<lparr>cl_queued := qs\<rparr>)" by (rule calls_kept_refl) simp_all
    have "calls_kept (s\<lparr>cl_queued := qs\<rparr>) (runSlot q (s\<lparr>cl_queued := qs\<rparr>))"
      by (cases q) (auto simp: observeDataProcess_def destroyReply_def observeDataLoop_calls_kept intro: calls_kept_refl)
    then show ?thesis using calls_kept_trans [OF q] Cons EvQueued by (simp add: runQueued_def)
  qed (simp add: EvQueued runQueued_def calls_kept_refl)
qed

lemma events_calls_kept: "calls_kept s (snd (cl_events es s))"
proof (induction es arbitrary: s)
  case (Cons e es)
  show ?case using calls_kept_trans [OF event_calls_kept Cons.IH] by (simp add: case_prod_beta)
qed (simp add: calls_kept_refl)

lemma request_calls:
  assumes "cl_request ty params evs s = Some (r, i, s')" shows "calls_to s s'"
proof -
  let ?s0 = "startWait (requestMsg ty params s) s"
  obtain err where s': "s' = (endWait (cl_nextFId s) (snd (cl_events evs ?s0)))\<lparr>cl_lastError := err\<rparr>"
    using assms waitResult_state unfolding request_wait [OF request_connected [OF assms]]
    by (fastforce simp: case_prod_beta)
  have "calls_kept s ?s0" by (rule calls_kept_refl) (simp_all add: startWait_def)
  then have "calls_to s (snd (cl_events evs ?s0))"
    using calls_kept_trans [OF _ events_calls_kept] calls_kept_def by blast
  then show ?thesis by (rule calls_to_same) (simp add: s' endWait_def)
qed

lemma observe_calls: "cl_observe sub url query queryOptions preferedId evs s = Some (i, s') \<Longrightarrow> calls_to s s'"
  using observe_data by (simp add: calls_to_def)

lemma unobserve_calls: "cl_unobserve i evs s = Some (r, s') \<Longrightarrow> calls_to s s'"
  by (auto simp: cl_unobserve_def cl_command_def intro: request_calls calls_to_same)

end
