(* ===== verification/QDocSession.thy ===== *)
theory QDocSession
  imports QDocServerLaws QDocClientStates
begin

text \<open>
  Client and server together: the server's answer to a request carries the number of the
  request, so the call of the client that waits for it ends with the error text the server
  gave.
\<close>

subsection \<open>Answers carry the number of the request\<close>

definition answers :: "linkobj \<Rightarrow> linkobj \<Rightarrow> bool" where
  "answers lo r \<longleftrightarrow> vInt (lo_get r ''id'') = vInt (lo_get lo ''id'') \<and> lo_type r \<noteq> typeObserveData"

lemma lo_get_set [simp]: "lo_get (lo_set k v lo) j = (if j = k then v else lo_get lo j)"
  by (simp add: lo_get_def lo_set_def)

lemma lo_set_type [simp]: "lo_type (lo_set k v lo) = lo_type lo"
  by (simp add: lo_set_def)

lemma newLinkObject_id [simp]: "lo_get (newLinkObject i ty) ''id'' = QInt i"
  by (simp add: newLinkObject_def QDocdbLinkObject_def assignType_def lo_get_def)

lemma reply1_answers: "key \<noteq> ''id'' \<Longrightarrow> ty \<noteq> typeObserveData \<Longrightarrow> answers lo (reply1 lo ty key v)"
  by (simp add: answers_def reply1_def newLinkObject_type)

definition answered :: "linkobj \<Rightarrow> handled \<Rightarrow> bool" where
  "answered lo h \<longleftrightarrow> (\<forall>err r srv'. h = Some (err, Some r, srv') \<longrightarrow> answers lo r)"

named_theorems answered_simps

lemma answered_simple [simp, answered_simps]:
  "answered lo (fail err srv)" "answered lo (done_ok srv)" "answered lo None" "answered lo (Some (err, None, srv))"
  by (simp_all add: answered_def fail_def done_ok_def)

lemma answered_some: "answered lo (Some (err, Some r, srv)) = answers lo r"
  by (simp add: answered_def)

lemma answered_reply1: "key \<noteq> ''id'' \<Longrightarrow> ty \<noteq> typeObserveData \<Longrightarrow> answered lo (Some (err, Some (reply1 lo ty key v), srv))"
  by (simp add: answered_some reply1_answers)

lemma answered_readReply: "key \<noteq> ''id'' \<Longrightarrow> ty \<noteq> typeObserveData \<Longrightarrow> answered lo (readReply lo err srv r ty key v)"
  by (simp add: readReply_def answered_reply1)

lemma answered_read: "answered lo (handleRead Q u u0 lo ref c srv)"
  by (simp add: handleRead_def readAnswer_def Let_def answered_readReply split: prod.split option.split)

lemma answered_createIndex: "answered lo (handleCreateIndex Q lo ref c srv)"
  by (simp add: handleCreateIndex_def Let_def split: prod.split option.split rcode.split)

lemma answered_newTransaction: "answered lo (handleNewTransaction lo ref c srv)"
  by (simp add: handleNewTransaction_def answered_reply1 split: prod.split option.split)

lemma answered_write: "answered lo (handleWriteTransaction Q lo srv)"
  by (simp add: handleWriteTransaction_def Let_def split: prod.split option.split)

lemma answered_discard: "answered lo (handleDiscardTransaction lo srv)"
  by (simp add: handleDiscardTransaction_def Let_def)

lemma modifyOp_answers: "modifyOp Q u u0 cfg e lo g tx = Some (r, Some rep, g', tx') \<Longrightarrow> answers lo rep"
  by (auto simp: modifyOp_def Let_def reply1_answers split: if_splits prod.splits)

lemma answered_op: "modifyOp Q u u0 cfg e lo g tx = Some (r, rep, g', tx') \<Longrightarrow> answered lo (Some (err, rep, srv))"
  by (cases rep) (auto simp: answered_some dest: modifyOp_answers)

lemma answered_modify: "answered lo (handleModify Q u u0 cfg e lo ref c srv)"
  by (simp add: handleModify_def Let_def answered_op split: prod.split option.split)

lemma answered_snapshots: "answered lo (handleGetSnapshotList Q lo ref c srv)"
  by (simp add: handleGetSnapshotList_def answered_reply1 split: prod.split sum.split)

lemma answered_snapshot: "answered lo (handleSnapshot Q u lo ref c srv)"
  by (simp add: handleSnapshot_def Let_def split: prod.split option.split)

lemma answered_observe: "answered lo (handleObserve Q u cl lo ref c srv)"
  by (simp add: handleObserve_def Let_def answered_reply1 split: prod.split option.split)

lemma answered_unobserve: "answered lo (handleUnobserve cl lo srv)"
  by (simp add: handleUnobserve_def Let_def split: option.split)

lemma answered_lock: "answered lo (handleExclusiveLock d cl srv)" "answered lo (handleUnlock d cl srv)"
  by (simp_all add: handleExclusiveLock_def handleUnlock_def)

lemma answered_coll: "answered lo (handleColl Q u u0 cfg e cl lo ref c srv)"
  by (simp add: handleColl_def Let_def answered_read answered_createIndex answered_newTransaction
      answered_modify answered_snapshots answered_snapshot answered_observe)

lemma answered_dispatch: "answered lo (dispatch Q u u0 cfg e H cl lo srv)"
  by (simp add: dispatch_def Let_def answered_write answered_discard answered_unobserve answered_lock
      answered_coll split: prod.split sum.split option.split)

text \<open>So does every message with which \<open>receive\<close> answers, and it goes to the sender.\<close>

lemma receive_answers:
  assumes "srv_receive Q u u0 cfg e H cl lo srv = Some (sends, srv')"
  shows "sends = [] \<or> (\<exists>r. sends = [(cl, r)] \<and> answers lo r)"
proof -
  obtain opened srv1 where g: "(if urlNeeded (lo_type lo) then getDatabase H (dbNameOf H lo) srv else (True, srv)) = (opened, srv1)"
    by force
  show ?thesis
  proof (cases "urlNeeded (lo_type lo) \<and> lockedByOther (dbNameOf H lo) cl srv1")
    case True
    then show ?thesis using assms g by (simp add: srv_receive_def Let_def)
  next
    case False
    let ?h = "if opened then dispatch Q u u0 cfg e H cl lo srv1 else fail (''Can't open database '' @ dbNameOf H lo) srv1"
    have "answered lo ?h" by (simp add: answered_dispatch)
    moreover obtain err rep s2 where "?h = Some (err, rep, s2)" "sends = [(cl, finalReply lo err rep)]"
      using assms g False by (auto simp: srv_receive_def Let_def split: option.splits)
    ultimately show ?thesis
      by (cases rep) (simp_all add: answered_def finalReply_def answers_def newLinkObject_type)
  qed
qed

subsection \<open>The request message\<close>

lemma fold_lo_set:
  "k \<notin> fst ` set params \<Longrightarrow> lo_get (fold (\<lambda>(k, v). lo_set k v) params lo) k = lo_get lo k"
  "lo_type (fold (\<lambda>(k, v). lo_set k v) params lo) = lo_type lo"
  by (induction params arbitrary: lo) auto

lemma requestMsg_fields:
  "''id'' \<notin> fst ` set params \<Longrightarrow> vInt (lo_get (requestMsg ty params s) ''id'') = cl_nextFId s"
  "lo_type (requestMsg ty params s) = ty"
  by (simp_all add: requestMsg_def fold_lo_set newLinkObject_type)

subsection \<open>A call is answered\<close>

lemma call_answered:
  assumes ok: "cl_ok s" "cl_fresh s" "cl_connected s" and p: "''id'' \<notin> fst ` set params"
    and srv: "srv_receive Q u u0 cfg e H cl (requestMsg ty params s) srv = Some ([(cl, reply)], srv')"
    and wire: "wire_ok W" "sendable W reply" "concat chunks = lo_marshal W reply"
    and evs: "rx_arrivals W chunks rx_new = Some (los, rx)" "evs = pre @ map EvReceive los @ post"
    and n: "\<forall>ev \<in> set pre \<union> set post. no_reply (cl_nextFId s) ev"
  shows "\<exists>s'. cl_request ty params evs s =
      Some (if vString (lo_get reply ''error'') = [] then clSuccess else clError, cl_nextFId s, s') \<and>
    map_of (cl_replies s') (cl_nextFId s) = Some reply \<and> cl_ok s' \<and>
    (vString (lo_get reply ''error'') \<noteq> [] \<longrightarrow> cl_lastError s' = vString (lo_get reply ''error''))"
proof -
  have "answers (requestMsg ty params s) reply" using receive_answers [OF srv] by simp
  then have a: "lo_type reply \<noteq> typeObserveData" "vInt (lo_get reply ''id'') = cl_nextFId s"
    using p by (simp_all add: answers_def requestMsg_fields)
  have "los = [reply]" using rx_arrivals_sent [of W "[reply]" chunks] wire evs(1) by simp
  then have "evs = pre @ EvReceive reply # post" using evs(2) by simp
  then show ?thesis by (rule request_reply [OF ok _ n a])
qed

lemma receive_lock:
  assumes srv: "srv_receive Q u u0 cfg e H cl lo srv = Some ([(cl, reply)], srv')"
    and ty: "lo_type lo = typeExclusiveLock"
  shows "vString (lo_get reply ''error'') = [] \<longrightarrow> map_of (srv_databaseLocks srv') (dbNameOf H lo) = Some cl"
  using assms
  by (auto simp: srv_receive_def dispatch_def handleExclusiveLock_def fail_def done_ok_def finalReply_def
      urlNeeded_def Let_def split: if_splits prod.splits option.splits)

end
