(* ===== verification/QDocConnector.thy ===== *)
theory QDocConnector
  imports QDocSession
begin

text \<open>
  qdocdbconnector.h and qdocdbconnector.cpp: the QML item over the client. The items of a
  program share their client objects through two global maps, the client of a server name
  and the number of items that use a client, so the state holds all items and clients. An
  item is a number, and a client object is a number too.

  A call of the client may deliver observed data to items; it does so before the call
  returns. The result \<open>None\<close> is the null dereference of a call of the client without a
  connection, or a use of an object that is gone: the client keeps plain pointers to its
  subscribers, so a delivery to an item that was destroyed is a call through a dangling pointer.
\<close>

subsection \<open>State\<close>

datatype cnresult = cnSuccess | cnError

datatype cnsignal = ValueChanged | ValueOneChanged | ErrChanged | ValidChanged

record connector =
  cn_url :: string
  cn_urlValid :: bool
  cn_initComplete :: bool
  cn_query :: jobject
  cn_queryOptions :: jobject
  cn_value :: "json list"
  cn_observable :: bool
  cn_lastError :: string
  cn_observeId :: int
  cn_dbClient :: "nat option"
  cn_signals :: "cnsignal list"

record world =
  w_dbClients :: "(string \<times> nat) list"
  w_dbClientUses :: "(nat \<times> int) list"
  w_clients :: "(nat \<times> dbclient) list"
  w_items :: "(nat \<times> connector) list"
  w_links :: "(nat \<times> nat) list"
  w_next :: nat

text \<open>
  \<open>w_links\<close> are the connections of an item's \<open>destroyed\<close> signal to the clients it had;
  \<open>w_next\<close> is the number of the next object. Scheme and host of a URL are Qt's.
\<close>

record urlparts =
  url_scheme :: "string \<Rightarrow> string"
  url_host :: "string \<Rightarrow> string"

definition toVariantMap :: "jobject \<Rightarrow> variantmap" where
  "toVariantMap obj = vMap (jsonToVariant (JObj obj))"

subsection \<open>The item alone\<close>

text \<open>The constructor leaves \<open>urlValid\<close> as it finds it.\<close>

definition QDocdbConnector :: "bool \<Rightarrow> connector" where
  "QDocdbConnector b0 =
     \<lparr>cn_url = [], cn_urlValid = b0, cn_initComplete = False, cn_query = [], cn_queryOptions = [], cn_value = [],
      cn_observable = True, cn_lastError = [], cn_observeId = - 1, cn_dbClient = None, cn_signals = []\<rparr>"

definition cn_emit :: "cnsignal list \<Rightarrow> connector \<Rightarrow> connector" where
  "cn_emit sgs cn = cn\<lparr>cn_signals := cn_signals cn @ sgs\<rparr>"

definition setLastError :: "string \<Rightarrow> connector \<Rightarrow> connector" where
  "setLastError err cn = (if cn_lastError cn \<noteq> err then cn_emit [ErrChanged] (cn\<lparr>cn_lastError := err\<rparr>) else cn)"

definition cn_observeQueryChanged :: "json list \<Rightarrow> connector \<Rightarrow> connector" where
  "cn_observeQueryChanged reply cn =
     (if cn_value cn \<noteq> reply then cn_emit [ValueChanged, ValueOneChanged] (cn\<lparr>cn_value := reply\<rparr>) else cn)"

definition valueOne :: "connector \<Rightarrow> jobject" where
  "valueOne cn = (case cn_value cn of [] \<Rightarrow> [] | v # _ \<Rightarrow> toObject v)"

subsection \<open>Calls of the client\<close>

definition updItem :: "nat \<Rightarrow> (connector \<Rightarrow> connector) \<Rightarrow> world \<Rightarrow> world" where
  "updItem n f w =
     (case map_of (w_items w) n of None \<Rightarrow> w | Some cn \<Rightarrow> w\<lparr>w_items := smap_put n (f cn) (w_items w)\<rparr>)"

text \<open>The call through a null pointer does nothing; the one to an item that is gone is \<open>None\<close>.\<close>

fun deliverCalls :: "(nat option \<times> int \<times> json list) list \<Rightarrow> world \<Rightarrow> world option" where
  "deliverCalls [] w = Some w"
| "deliverCalls ((sub, i, reply) # cs) w =
     (case sub of
        None \<Rightarrow> deliverCalls cs w
      | Some n \<Rightarrow>
          (case map_of (w_items w) n of
             None \<Rightarrow> None
           | Some cn \<Rightarrow> deliverCalls cs (updItem n (cn_observeQueryChanged reply) w)))"

definition callClient :: "nat \<Rightarrow> (dbclient \<Rightarrow> ('a \<times> dbclient) option) \<Rightarrow> world \<Rightarrow> ('a \<times> dbclient \<times> world) option" where
  "callClient k f w =
     (case map_of (w_clients w) k of
        None \<Rightarrow> None
      | Some c \<Rightarrow>
          (case f c of
             None \<Rightarrow> None
           | Some (r, c') \<Rightarrow>
               map_option (\<lambda>w'. (r, c', w'))
                 (deliverCalls (drop (length (cl_calls c)) (cl_calls c')) (w\<lparr>w_clients := smap_put k c' (w_clients w)\<rparr>))))"

definition cn_valid :: "world \<Rightarrow> connector \<Rightarrow> bool" where
  "cn_valid w cn \<longleftrightarrow>
     (if \<not> cn_initComplete cn then False
      else case cn_dbClient cn of
        None \<Rightarrow> False
      | Some k \<Rightarrow> (case map_of (w_clients w) k of None \<Rightarrow> False | Some c \<Rightarrow> cl_connected c) \<and> cn_urlValid cn)"

text \<open>
  The shape of every call: an invalid item gives a fixed result, an error of the client is
  kept as the item's error. \<open>bad\<close> is the result for an invalid item.
\<close>

definition cn_call :: "nat \<Rightarrow> 'a \<Rightarrow> (connector \<Rightarrow> dbclient \<Rightarrow> ((clcode \<times> 'a) \<times> dbclient) option) \<Rightarrow> world
    \<Rightarrow> (clcode \<times> 'a \<times> world) option" where
  "cn_call n bad f w =
     (case map_of (w_items w) n of
        None \<Rightarrow> None
      | Some cn \<Rightarrow>
          if \<not> cn_valid w cn then Some (clError, bad, w)
          else case cn_dbClient cn of
            None \<Rightarrow> None
          | Some k \<Rightarrow>
              (case callClient k (f cn) w of
                 None \<Rightarrow> None
               | Some ((r, x), c', w') \<Rightarrow>
                   Some (r, x, if r \<noteq> clSuccess then updItem n (setLastError (QDocClient.cl_lastError c')) w' else w')))"

definition pack :: "(clcode \<times> 'a \<times> dbclient) option \<Rightarrow> ((clcode \<times> 'a) \<times> dbclient) option" where
  "pack = map_option (\<lambda>(r, x, c). ((r, x), c))"

definition cn_read :: "nat \<Rightarrow> 'a \<Rightarrow> (connector \<Rightarrow> dbclient \<Rightarrow> (clcode \<times> 'a \<times> dbclient) option) \<Rightarrow> world \<Rightarrow> ('a \<times> world) option" where
  "cn_read n bad f w = map_option (\<lambda>(r, x, w'). (x, w')) (cn_call n bad (\<lambda>cn c. pack (f cn c)) w)"

definition cn_command :: "nat \<Rightarrow> (connector \<Rightarrow> dbclient \<Rightarrow> (clcode \<times> dbclient) option) \<Rightarrow> world \<Rightarrow> (cnresult \<times> world) option" where
  "cn_command n f w =
     map_option (\<lambda>(r, x, w'). (if r \<noteq> clSuccess then cnError else cnSuccess, w'))
       (cn_call n () (\<lambda>cn c. map_option (\<lambda>(r, c'). ((r, ()), c')) (f cn c)) w)"

definition cn_find :: "nat \<Rightarrow> jobject \<Rightarrow> string \<Rightarrow> clevent list \<Rightarrow> world \<Rightarrow> (qvariant list \<times> world) option" where
  "cn_find n query snapshot evs = cn_read n [] (\<lambda>cn. cl_find (cn_url cn) (toVariantMap query) [] [] snapshot evs)"

definition cn_findOne :: "nat \<Rightarrow> jobject \<Rightarrow> string \<Rightarrow> clevent list \<Rightarrow> world \<Rightarrow> (variantmap \<times> world) option" where
  "cn_findOne n query snapshot evs = cn_read n [] (\<lambda>cn. cl_findOne (cn_url cn) (toVariantMap query) [] [] snapshot evs)"

text \<open>\<open>reply0\<close> is the local variable, which is not initialised.\<close>

definition cn_count :: "nat \<Rightarrow> int \<Rightarrow> jobject \<Rightarrow> string \<Rightarrow> clevent list \<Rightarrow> world \<Rightarrow> (int \<times> world) option" where
  "cn_count n reply0 query snapshot evs =
     cn_read n 0 (\<lambda>cn. cl_count (cn_url cn) (toVariantMap query) reply0 [] snapshot evs)"

text \<open>The number of the transaction is handed over where the client expects \<open>ignoreReadOnlyValue\<close>.\<close>

definition cn_insert :: "nat \<Rightarrow> jobject \<Rightarrow> int \<Rightarrow> clevent list \<Rightarrow> world \<Rightarrow> (string \<times> world) option" where
  "cn_insert n doc transactionId evs w =
     map_option (\<lambda>(r, newId, w'). (if r \<noteq> clSuccess then [] else newId, w'))
       (cn_call n [] (\<lambda>cn c. pack (cl_insert (cn_url cn) (toVariantMap doc) [] False (transactionId \<noteq> 0) (- 1) evs c)) w)"

definition cn_remove :: "nat \<Rightarrow> jobject \<Rightarrow> int \<Rightarrow> clevent list \<Rightarrow> world \<Rightarrow> (cnresult \<times> world) option" where
  "cn_remove n query transactionId evs =
     cn_command n (\<lambda>cn. cl_remove (cn_url cn) (toVariantMap query) transactionId evs)"

definition cn_removeId :: "nat \<Rightarrow> string \<Rightarrow> int \<Rightarrow> clevent list \<Rightarrow> world \<Rightarrow> (cnresult \<times> world) option" where
  "cn_removeId n idString transactionId evs =
     cn_command n (\<lambda>cn. cl_removeId (cn_url cn) idString False transactionId evs)"

text \<open>The number -1 of an error is also what an invalid item gives; the client's error is not looked at.\<close>

definition cn_newTransaction :: "nat \<Rightarrow> clevent list \<Rightarrow> world \<Rightarrow> (int \<times> world) option" where
  "cn_newTransaction n evs w =
     map_option (\<lambda>(r, x, w'). (x, w'))
       (cn_call n (- 1) (\<lambda>cn c. map_option (\<lambda>(i, c'). ((clSuccess, i), c')) (cl_newTransaction (cn_url cn) evs c)) w)"

definition cn_writeTransaction :: "nat \<Rightarrow> int \<Rightarrow> clevent list \<Rightarrow> world \<Rightarrow> (cnresult \<times> world) option" where
  "cn_writeTransaction n transactionId evs = cn_command n (\<lambda>cn. cl_writeTransaction transactionId evs)"

definition cn_discardTransaction :: "nat \<Rightarrow> int \<Rightarrow> clevent list \<Rightarrow> world \<Rightarrow> (cnresult \<times> world) option" where
  "cn_discardTransaction n transactionId evs = cn_command n (\<lambda>cn. cl_discardTransaction transactionId evs)"

definition removeQueryResults :: "nat \<Rightarrow> clevent list \<Rightarrow> world \<Rightarrow> (cnresult \<times> world) option" where
  "removeQueryResults n evs = cn_command n (\<lambda>cn. cl_set (cn_url cn) (toVariantMap (cn_query cn)) [] (- 1) evs)"

definition setValue :: "nat \<Rightarrow> json list \<Rightarrow> clevent list \<Rightarrow> world \<Rightarrow> world option" where
  "setValue n value evs w =
     map_option snd
       (cn_command n (\<lambda>cn. cl_set (cn_url cn) (toVariantMap (cn_query cn)) (map jsonToVariant value) (- 1) evs) w)"

definition setValueOne :: "nat \<Rightarrow> jobject \<Rightarrow> clevent list \<Rightarrow> world \<Rightarrow> world option" where
  "setValueOne n value evs w =
     (case map_of (w_items w) n of
        None \<Rightarrow> None
      | Some cn \<Rightarrow> setValue n (case cn_value cn of [] \<Rightarrow> [JObj value] | _ # vs \<Rightarrow> JObj value # vs) evs w)"

definition cn_createIndex :: "nat \<Rightarrow> string \<Rightarrow> string \<Rightarrow> clevent list \<Rightarrow> world \<Rightarrow> (cnresult \<times> world) option" where
  "cn_createIndex n field indexName evs = cn_command n (\<lambda>cn. cl_createIndex (cn_url cn) field indexName evs)"

definition cn_newSnapshot :: "nat \<Rightarrow> string \<Rightarrow> clevent list \<Rightarrow> world \<Rightarrow> (cnresult \<times> world) option" where
  "cn_newSnapshot n snapshotName evs = cn_command n (\<lambda>cn. cl_newSnapshot (cn_url cn) snapshotName evs)"

definition cn_revertToSnapshot :: "nat \<Rightarrow> string \<Rightarrow> clevent list \<Rightarrow> world \<Rightarrow> (cnresult \<times> world) option" where
  "cn_revertToSnapshot n snapshotName evs = cn_command n (\<lambda>cn. cl_revertToSnapshot (cn_url cn) snapshotName evs)"

definition cn_removeSnapshot :: "nat \<Rightarrow> string \<Rightarrow> clevent list \<Rightarrow> world \<Rightarrow> (cnresult \<times> world) option" where
  "cn_removeSnapshot n snapshotName evs = cn_command n (\<lambda>cn. cl_removeSnapshot (cn_url cn) snapshotName evs)"

subsection \<open>Observing\<close>

text \<open>Neither looks at the client's code, so no error is kept.\<close>

definition cn_observe :: "nat \<Rightarrow> clevent list \<Rightarrow> world \<Rightarrow> world option" where
  "cn_observe n evs w =
     (case map_of (w_items w) n of
        None \<Rightarrow> None
      | Some cn \<Rightarrow>
          if \<not> (cn_valid w cn \<and> cn_observable cn) then Some w
          else case cn_dbClient cn of
            None \<Rightarrow> None
          | Some k \<Rightarrow>
              map_option (\<lambda>(i, c, w'). updItem n (\<lambda>cn. cn\<lparr>cn_observeId := i\<rparr>) w')
                (callClient k (cl_observe n (cn_url cn) (toVariantMap (cn_query cn))
                   (toVariantMap (cn_queryOptions cn)) (- 1) evs) w))"

definition cn_unobserve :: "nat \<Rightarrow> clevent list \<Rightarrow> world \<Rightarrow> world option" where
  "cn_unobserve n evs w =
     (case map_of (w_items w) n of
        None \<Rightarrow> None
      | Some cn \<Rightarrow>
          if \<not> cn_valid w cn then Some w
          else case cn_dbClient cn of
            None \<Rightarrow> None
          | Some k \<Rightarrow> map_option (\<lambda>(r, c, w'). w') (callClient k (cl_unobserve (cn_observeId cn) evs) w))"

definition setQuery :: "nat \<Rightarrow> jobject \<Rightarrow> clevent list \<Rightarrow> clevent list \<Rightarrow> world \<Rightarrow> world option" where
  "setQuery n query evs1 evs2 w =
     (case map_of (w_items w) n of
        None \<Rightarrow> None
      | Some cn \<Rightarrow>
          if cn_query cn = query then Some w
          else case cn_unobserve n evs1 w of
            None \<Rightarrow> None
          | Some w' \<Rightarrow> cn_observe n evs2 (updItem n (\<lambda>cn. cn\<lparr>cn_query := query\<rparr>) w'))"

definition setQueryOptions :: "nat \<Rightarrow> jobject \<Rightarrow> clevent list \<Rightarrow> clevent list \<Rightarrow> world \<Rightarrow> world option" where
  "setQueryOptions n queryOptions evs1 evs2 w =
     (case map_of (w_items w) n of
        None \<Rightarrow> None
      | Some cn \<Rightarrow>
          if cn_queryOptions cn = queryOptions then Some w
          else case cn_unobserve n evs1 w of
            None \<Rightarrow> None
          | Some w' \<Rightarrow> cn_observe n evs2 (updItem n (\<lambda>cn. cn\<lparr>cn_queryOptions := queryOptions\<rparr>) w'))"

definition setObservable :: "nat \<Rightarrow> bool \<Rightarrow> clevent list \<Rightarrow> world \<Rightarrow> world option" where
  "setObservable n observable evs w =
     (case map_of (w_items w) n of
        None \<Rightarrow> None
      | Some cn \<Rightarrow>
          if cn_observable cn = observable then Some w
          else let w' = updItem n (\<lambda>cn. cn\<lparr>cn_observable := observable\<rparr>) w
            in if observable then cn_observe n evs w' else cn_unobserve n evs w')"

definition componentComplete :: "nat \<Rightarrow> clevent list \<Rightarrow> world \<Rightarrow> world option" where
  "componentComplete n evs w = cn_observe n evs (updItem n (\<lambda>cn. cn\<lparr>cn_initComplete := True\<rparr>) w)"

subsection \<open>Items and the clients they share\<close>

definition changeUses :: "nat \<Rightarrow> int \<Rightarrow> world \<Rightarrow> world" where
  "changeUses k d w = w\<lparr>w_dbClientUses :=
     smap_put k ((case map_of (w_dbClientUses w) k of Some i \<Rightarrow> i | None \<Rightarrow> 0) + d) (w_dbClientUses w)\<rparr>"

definition itemClient :: "nat \<Rightarrow> world \<Rightarrow> nat option" where
  "itemClient n w = (case map_of (w_items w) n of None \<Rightarrow> None | Some cn \<Rightarrow> cn_dbClient cn)"

definition releaseClient :: "nat \<Rightarrow> world \<Rightarrow> world" where
  "releaseClient n w = (case itemClient n w of None \<Rightarrow> w | Some k \<Rightarrow> changeUses k (- 1) w)"

text \<open>Whether a new client connects (\<open>ok\<close>) is an input.\<close>

definition takeClient :: "nat \<Rightarrow> string \<Rightarrow> bool \<Rightarrow> bool \<Rightarrow> world \<Rightarrow> world" where
  "takeClient n serverName ok b0 w =
     (case map_of (w_dbClients w) serverName of
        Some k \<Rightarrow> changeUses k 1 (updItem n (\<lambda>cn. cn\<lparr>cn_dbClient := Some k\<rparr>) w)
      | None \<Rightarrow>
          let k = w_next w; c = snd (connectToServer ok (QDocdbClient b0))
          in if \<not> cl_connected c then
               updItem n (\<lambda>cn. (setLastError (''Can't connect to database server '' @ serverName) cn)\<lparr>cn_dbClient := None\<rparr>) w
             else changeUses k 1 (updItem n (\<lambda>cn. cn\<lparr>cn_dbClient := Some k\<rparr>)
               (w\<lparr>w_next := k + 1, w_clients := smap_put k c (w_clients w),
                  w_dbClients := smap_put serverName k (w_dbClients w)\<rparr>)))"

definition collectionOf :: "host \<Rightarrow> string \<Rightarrow> string" where
  "collectionOf H url = (case h_urlQuery H url of Some q \<Rightarrow> queryItemValue q ''collection'' | None \<Rightarrow> [])"

definition quoted :: "string \<Rightarrow> string" where
  "quoted s = [CHR 0x27] @ s @ [CHR 0x27]"

definition setUrl :: "urlparts \<Rightarrow> host \<Rightarrow> nat \<Rightarrow> string \<Rightarrow> bool \<Rightarrow> bool \<Rightarrow> clevent list \<Rightarrow> clevent list \<Rightarrow> world \<Rightarrow> world option" where
  "setUrl U H n url ok b0 evs1 evs2 w =
     (case map_of (w_items w) n of
        None \<Rightarrow> None
      | Some cn \<Rightarrow>
          if cn_url cn = url then Some w
          else let w1 = updItem n (\<lambda>cn. cn\<lparr>cn_url := url\<rparr>) w
            in if url_scheme U url \<noteq> ''qdocdb''
               then Some (updItem n (setLastError (''Error: scheme must be '' @ quoted ''qdocdb'')) w1)
               else case cn_unobserve n evs1 w1 of
                 None \<Rightarrow> None
               | Some w2 \<Rightarrow>
                   if url_host U url = [] \<or> drop 1 (h_urlPath H url) = [] \<or> collectionOf H url = []
                   then Some (updItem n (\<lambda>cn. cn_emit [ValidChanged]
                     ((setLastError (''Error: Invalid url: '' @ url) cn)\<lparr>cn_urlValid := False\<rparr>)) w2)
                   else let w3 = takeClient n (url_host U url) ok b0
                              (releaseClient n (updItem n (\<lambda>cn. cn\<lparr>cn_urlValid := True\<rparr>) w2))
                     in map_option (updItem n (cn_emit [ValidChanged]))
                          (case itemClient n w3 of
                             None \<Rightarrow> Some w3
                           | Some k \<Rightarrow> cn_observe n evs2 (w3\<lparr>w_links := List.insert (n, k) (w_links w3)\<rparr>)))"

definition newItem :: "bool \<Rightarrow> world \<Rightarrow> nat \<times> world" where
  "newItem b0 w = (w_next w, w\<lparr>w_next := w_next w + 1, w_items := smap_put (w_next w) (QDocdbConnector b0) (w_items w)\<rparr>)"

definition newItemWith :: "urlparts \<Rightarrow> host \<Rightarrow> bool \<Rightarrow> string \<Rightarrow> jobject \<Rightarrow> jobject \<Rightarrow> bool \<Rightarrow> bool \<Rightarrow> clevent list \<Rightarrow> clevent list
    \<Rightarrow> world \<Rightarrow> (nat \<times> world) option" where
  "newItemWith U H b url query queryOptions ok b0 evs1 evs2 w =
     (let (n, w1) = newItem b w
      in map_option (Pair n) (setUrl U H n url ok b0 evs1 evs2
           (updItem n (\<lambda>cn. cn\<lparr>cn_query := query, cn_queryOptions := queryOptions, cn_initComplete := True\<rparr>) w1)))"

text \<open>
  The destructor. The item's \<open>destroyed\<close> signal reaches those clients it was connected to that
  still exist; \<open>evs k i\<close> are the events of client \<open>k\<close>'s wait for the end of subscription \<open>i\<close>.
\<close>

definition dropClient :: "nat \<Rightarrow> world \<Rightarrow> world" where
  "dropClient k w =
     (let w1 = changeUses k (- 1) w
      in if (case map_of (w_dbClientUses w1) k of Some i \<Rightarrow> i | None \<Rightarrow> 0) \<le> 0
         then w1\<lparr>w_dbClients := filter (\<lambda>e. snd e \<noteq> k) (w_dbClients w1), w_dbClientUses := smap_del k (w_dbClientUses w1),
                 w_clients := smap_del k (w_clients w1), w_links := filter (\<lambda>e. snd e \<noteq> k) (w_links w1)\<rparr>
         else w1)"

fun sendDestroyed :: "nat \<Rightarrow> nat list \<Rightarrow> (nat \<Rightarrow> int \<Rightarrow> clevent list) \<Rightarrow> world \<Rightarrow> world option" where
  "sendDestroyed n [] evs w = Some w"
| "sendDestroyed n (k # ks) evs w =
     (case callClient k (\<lambda>c. map_option (Pair ()) (subscriberDestroyed n (evs k) c)) w of
        None \<Rightarrow> None
      | Some (r, c, w') \<Rightarrow> sendDestroyed n ks evs w')"

definition destroyItem :: "nat \<Rightarrow> (nat \<Rightarrow> int \<Rightarrow> clevent list) \<Rightarrow> world \<Rightarrow> world option" where
  "destroyItem n evs w =
     (case map_of (w_items w) n of
        None \<Rightarrow> None
      | Some cn \<Rightarrow>
          let w1 = w\<lparr>w_items := smap_del n (w_items w)\<rparr>;
              w2 = (case cn_dbClient cn of None \<Rightarrow> w1 | Some k \<Rightarrow> dropClient k w1);
              ks = map snd (filter (\<lambda>e. fst e = n) (w_links w2))
          in sendDestroyed n ks evs (w2\<lparr>w_links := filter (\<lambda>e. fst e \<noteq> n) (w_links w2)\<rparr>))"

definition noItems :: world where
  "noItems = \<lparr>w_dbClients = [], w_dbClientUses = [], w_clients = [], w_items = [], w_links = [], w_next = 0\<rparr>"

end
