(* ===== verification/QDocConnectorLaws.thy ===== *)
theory QDocConnectorLaws
  imports QDocConnector
begin

text \<open>
  The items and the clients they share: the counts of uses are exact, no item and no entry
  of the global map refers to a client that is gone, and the calls of a valid item reach a
  connected client.
\<close>

subsection \<open>The invariant\<close>

definition usersOf :: "nat \<Rightarrow> (nat \<times> connector) list \<Rightarrow> nat" where
  "usersOf k items = length (filter (\<lambda>e. cn_dbClient (snd e) = Some k) items)"

definition counted :: "(nat \<Rightarrow> nat) \<Rightarrow> world \<Rightarrow> bool" where
  "counted f w \<longleftrightarrow> (\<forall>k \<in> dom (map_of (w_clients w)). map_of (w_dbClientUses w) k = Some (int (f k)))"

definition world_shape :: "world \<Rightarrow> bool" where
  "world_shape w \<longleftrightarrow> sorted_keys (w_dbClients w) \<and> sorted_keys (w_dbClientUses w) \<and> sorted_keys (w_clients w) \<and>
     sorted_keys (w_items w) \<and> dom (map_of (w_dbClientUses w)) = dom (map_of (w_clients w)) \<and>
     snd ` set (w_dbClients w) \<subseteq> dom (map_of (w_clients w)) \<and> snd ` set (w_links w) \<subseteq> dom (map_of (w_clients w)) \<and>
     (\<forall>n \<in> dom (map_of (w_clients w)) \<union> dom (map_of (w_items w)). n < w_next w) \<and>
     (\<forall>k c. map_of (w_clients w) k = Some c \<longrightarrow> cl_inv c)"

text \<open>Items point to clients that exist.\<close>

definition pointing :: "world \<Rightarrow> bool" where
  "pointing w \<longleftrightarrow> (\<forall>n k. itemClient n w = Some k \<longrightarrow> k \<in> dom (map_of (w_clients w)))"

definition world_ok :: "world \<Rightarrow> bool" where
  "world_ok w \<longleftrightarrow> world_shape w \<and> pointing w \<and> counted (\<lambda>k. usersOf k (w_items w)) w"

lemma world_ok_empty: "world_ok noItems"
  by (simp add: world_ok_def world_shape_def pointing_def counted_def noItems_def itemClient_def)

subsection \<open>Changes of an item\<close>

lemma usersOf_put:
  "sorted_keys items \<Longrightarrow> map_of items n = Some cn \<Longrightarrow>
   usersOf k (smap_put n cn' items) + (if cn_dbClient cn = Some k then 1 else 0)
     = usersOf k items + (if cn_dbClient cn' = Some k then 1 else 0)"
  by (induction items) (auto simp: usersOf_def dest!: map_of_SomeD split: if_splits)

lemma usersOf_new:
  "sorted_keys items \<Longrightarrow> map_of items n = None \<Longrightarrow>
   usersOf k (smap_put n cn' items) = usersOf k items + (if cn_dbClient cn' = Some k then 1 else 0)"
  by (induction items) (auto simp: usersOf_def split: if_splits)

lemma usersOf_del:
  "sorted_keys items \<Longrightarrow> map_of items n = Some cn \<Longrightarrow>
   usersOf k (smap_del n items) + (if cn_dbClient cn = Some k then 1 else 0) = usersOf k items"
  by (induction items) (auto simp: usersOf_def split: if_splits)

definition keeps_client :: "(connector \<Rightarrow> connector) \<Rightarrow> bool" where
  "keeps_client f \<longleftrightarrow> (\<forall>cn. cn_dbClient (f cn) = cn_dbClient cn)"

named_theorems connector_fields

lemma cn_emit_fields [simp, connector_fields]:
  "cn_dbClient (cn_emit sgs cn) = cn_dbClient cn" "cn_dbClient (setLastError err cn) = cn_dbClient cn"
  "cn_dbClient (cn_observeQueryChanged reply cn) = cn_dbClient cn"
  by (simp_all add: cn_emit_def setLastError_def cn_observeQueryChanged_def)

lemma updItem_fields [simp, connector_fields]:
  "w_dbClients (updItem n f w) = w_dbClients w" "w_dbClientUses (updItem n f w) = w_dbClientUses w"
  "w_clients (updItem n f w) = w_clients w" "w_links (updItem n f w) = w_links w" "w_next (updItem n f w) = w_next w"
  by (simp_all add: updItem_def split: option.split)

lemma updItem_items:
  "map_of (w_items (updItem n f w)) = (map_of (w_items w))(n := map_option f (map_of (w_items w) n))"
  by (cases "map_of (w_items w) n") (auto simp: updItem_def fun_eq_iff)

lemma updItem_dom [simp]: "dom (map_of (w_items (updItem n f w))) = dom (map_of (w_items w))"
  by (auto simp: updItem_items dom_def split: if_splits)

lemma updItem_shape [simp]: "world_shape w \<Longrightarrow> world_shape (updItem n f w)"
proof -
  assume w: "world_shape w"
  have "sorted_keys (w_items (updItem n f w))"
    using w by (simp add: world_shape_def updItem_def split: option.split)
  then show ?thesis using w by (simp add: world_shape_def)
qed

lemma updItem_client:
  "itemClient m (updItem n f w) =
     (if m = n then (case map_of (w_items w) n of None \<Rightarrow> None | Some cn \<Rightarrow> cn_dbClient (f cn)) else itemClient m w)"
  by (cases "map_of (w_items w) n") (simp_all add: itemClient_def updItem_items)

lemma updItem_users:
  assumes "world_shape w" "keeps_client f"
  shows "usersOf k (w_items (updItem n f w)) = usersOf k (w_items w)"
proof (cases "map_of (w_items w) n")
  case (Some cn)
  then show ?thesis using usersOf_put [OF _ Some, of k "f cn"] assms
    by (simp add: updItem_def world_shape_def keeps_client_def split: if_splits)
qed (simp add: updItem_def)

lemma updItem_keeps: "keeps_client f \<Longrightarrow> itemClient m (updItem n f w) = itemClient m w"
  unfolding updItem_client by (simp add: keeps_client_def itemClient_def split: option.split)

lemma updItem_ok: "world_ok w \<Longrightarrow> keeps_client f \<Longrightarrow> world_ok (updItem n f w)"
  by (simp add: world_ok_def updItem_users pointing_def updItem_keeps counted_def)

lemma keeps_client_simps [simp]:
  "keeps_client (setLastError err)" "keeps_client (cn_emit sgs)" "keeps_client (cn_observeQueryChanged reply)"
  "keeps_client (\<lambda>cn. cn\<lparr>cn_url := x\<rparr>)" "keeps_client (\<lambda>cn. cn\<lparr>cn_query := q\<rparr>)"
  "keeps_client (\<lambda>cn. cn\<lparr>cn_queryOptions := q\<rparr>)" "keeps_client (\<lambda>cn. cn\<lparr>cn_observeId := i\<rparr>)"
  "keeps_client (\<lambda>cn. cn\<lparr>cn_observable := b\<rparr>)" "keeps_client (\<lambda>cn. cn\<lparr>cn_initComplete := b\<rparr>)"
  "keeps_client (\<lambda>cn. cn\<lparr>cn_urlValid := b\<rparr>)"
  by (simp_all add: keeps_client_def)

subsection \<open>Calls of a client\<close>

lemma deliverCalls_ok: "deliverCalls cs w = Some w' \<Longrightarrow> world_ok w \<Longrightarrow> world_ok w'"
  by (induction cs w rule: deliverCalls.induct) (auto simp: updItem_ok split: option.splits)

lemma deliverCalls_client: "deliverCalls cs w = Some w' \<Longrightarrow> itemClient m w' = itemClient m w"
  by (induction cs w rule: deliverCalls.induct) (auto simp: updItem_keeps split: option.splits)

lemma deliverCalls_dom: "deliverCalls cs w = Some w' \<Longrightarrow> dom (map_of (w_items w')) = dom (map_of (w_items w))"
  by (induction cs w rule: deliverCalls.induct) (auto split: option.splits)

lemma deliverCalls_total:
  "deliverCalls cs w \<noteq> None \<longleftrightarrow> (\<forall>n. Some n \<in> fst ` set cs \<longrightarrow> n \<in> dom (map_of (w_items w)))"
proof (induction cs w rule: deliverCalls.induct)
  case (2 sub i reply cs w)
  then show ?case by (cases sub) (auto split: option.split)
qed simp

lemma putClient_ok:
  assumes "world_ok w" "map_of (w_clients w) k = Some c" "cl_inv c'"
  shows "world_ok (w\<lparr>w_clients := smap_put k c' (w_clients w)\<rparr>)"
proof -
  have "dom (map_of (smap_put k c' (w_clients w))) = dom (map_of (w_clients w))" using assms(2) by auto
  then show ?thesis using assms by (simp add: world_ok_def world_shape_def pointing_def counted_def itemClient_def)
qed

lemma callClient_ok:
  assumes "world_ok w" "callClient k f w = Some (r, c', w')"
    and "\<And>c r c'. cl_inv c \<Longrightarrow> f c = Some (r, c') \<Longrightarrow> cl_inv c'"
  shows "world_ok w' \<and> (\<forall>n. itemClient n w' = itemClient n w)"
proof -
  obtain c where c: "map_of (w_clients w) k = Some c" "f c = Some (r, c')"
    and w': "deliverCalls (drop (length (cl_calls c)) (cl_calls c')) (w\<lparr>w_clients := smap_put k c' (w_clients w)\<rparr>) = Some w'"
    using assms(2) by (auto simp: callClient_def split: option.splits)
  have "cl_inv c" using assms(1) c(1) by (auto simp: world_ok_def world_shape_def)
  then show ?thesis using putClient_ok [OF assms(1) c(1) assms(3)] c(2) deliverCalls_ok [OF w'] deliverCalls_client [OF w']
    by simp (simp add: itemClient_def)
qed

text \<open>The requests keep the client's invariant.\<close>

lemma command_inv: "cl_inv c \<Longrightarrow> cl_command ty params evs c = Some (r, c') \<Longrightarrow> cl_inv c'"
  using request_inv by (auto simp: cl_command_def)

lemma query_inv: "cl_inv c \<Longrightarrow> cl_query ty params key conv x evs c = Some (r, y, c') \<Longrightarrow> cl_inv c'"
  using request_inv by (auto simp: cl_query_def)

text \<open>
  A function of the client as an item calls it, on the client and the item's data: it delivers
  to subscribers of the client only, and ends when the client's next number is fresh.
\<close>

definition client_op :: "(dbclient \<Rightarrow> ('a \<times> dbclient) option) \<Rightarrow> bool" where
  "client_op f \<longleftrightarrow> (\<forall>c r c'. cl_inv c \<longrightarrow> f c = Some (r, c') \<longrightarrow> cl_inv c') \<and>
     (\<forall>c r c'. f c = Some (r, c') \<longrightarrow> calls_to c c') \<and>
     (\<forall>c. cl_inv c \<longrightarrow> cl_fresh c \<longrightarrow> cl_connected c \<longrightarrow> f c \<noteq> None)"

lemma request_live: "cl_inv c \<Longrightarrow> cl_fresh c \<Longrightarrow> cl_connected c \<Longrightarrow> \<exists>r i c'. cl_request ty params evs c = Some (r, i, c')"
  using request_total [of c ty params evs] by (auto simp: cl_inv_def)

lemma request_keeps: "cl_request ty params evs c = Some (r, i, c') \<Longrightarrow> calls_to c c' \<and> (cl_inv c \<longrightarrow> cl_inv c')"
  using request_calls request_inv by blast

lemma client_op_command [simp]:
  "client_op (\<lambda>c. map_option (\<lambda>(r, c'). ((r, ()), c')) (cl_command ty params evs c))"
  using request_live [of _ ty params evs] by (fastforce simp: client_op_def cl_command_def dest: request_keeps)

lemma client_op_query [simp]: "client_op (\<lambda>c. pack (cl_query ty params key conv x evs c))"
  using request_live [of _ ty params evs] by (fastforce simp: client_op_def pack_def cl_query_def dest: request_keeps)

lemma client_op_newTransaction [simp]:
  "client_op (\<lambda>c. map_option (\<lambda>(i, c'). ((clSuccess, i), c')) (cl_newTransaction url evs c))"
proof -
  have "client_op (\<lambda>c. pack (cl_query typeNewTransaction [(''url'', QString url)] ''transactionId'' vInt (- 1) evs c))"
    by simp
  then show ?thesis unfolding client_op_def pack_def cl_newTransaction_def
    by (auto simp: option.map_comp comp_def case_prod_beta)
qed

lemma client_op_observe [simp]: "client_op (cl_observe n url query queryOptions i evs)"
proof -
  have "cl_observe n url query queryOptions i evs c \<noteq> None" if c: "cl_inv c" "cl_fresh c" "cl_connected c" for c
  proof -
    have "cl_ok (c\<lparr>cl_observeDataLock := True\<rparr>)" "cl_fresh (c\<lparr>cl_observeDataLock := True\<rparr>)"
      using c(1,2) by (auto simp: cl_inv_def cl_ok_def cl_fresh_def)
    then show ?thesis using c(3) request_total [of "c\<lparr>cl_observeDataLock := True\<rparr>"]
      by (auto simp: cl_observe_def Let_def split: option.split)
  qed
  then show ?thesis using observe_inv observe_calls unfolding client_op_def by blast
qed

lemma client_op_unobserve [simp]: "client_op (cl_unobserve i evs)"
proof -
  have "cl_unobserve i evs c \<noteq> None" if "cl_inv c" "cl_fresh c" "cl_connected c" for c
    using that request_total [of c typeUnobserve "[(''observeId'', QInt i)]" evs]
    by (auto simp: cl_unobserve_def cl_command_def cl_inv_def)
  then show ?thesis unfolding client_op_def using unobserve_inv unobserve_calls by blast
qed

text \<open>
  A client that can be called: fewer than \<open>2 ^ 32\<close> slots wait in its queue, and every subscriber
  of its table is an item that exists.
\<close>

definition callable :: "world \<Rightarrow> dbclient \<Rightarrow> bool" where
  "callable w c \<longleftrightarrow> length (cl_queued c) < 2 ^ 32 \<and>
     (\<forall>e \<in> set (cl_subs c). case snd e of None \<Rightarrow> True | Some m \<Rightarrow> smap_has m (w_items w))"

text \<open>An item whose client, if it has one, can be called.\<close>

definition usable :: "nat \<Rightarrow> world \<Rightarrow> bool" where
  "usable n w \<longleftrightarrow> (case itemClient n w of None \<Rightarrow> True
     | Some k \<Rightarrow> (case map_of (w_clients w) k of None \<Rightarrow> True | Some c \<Rightarrow> callable w c))"

lemma callClient_op:
  assumes "world_ok w" "client_op f" "map_of (w_clients w) k = Some c" "cl_connected c" "callable w c"
  shows "callClient k f w \<noteq> None"
proof -
  have "cl_inv c" using assms(1,3) by (auto simp: world_ok_def world_shape_def)
  moreover from this have "cl_fresh c" using assms(5) by (simp add: cl_inv_fresh callable_def)
  ultimately obtain r c' where f: "f c = Some (r, c')" using assms(2,4) unfolding client_op_def by fastforce
  then obtain xs where xs: "cl_calls c' = cl_calls c @ xs" "fst ` set xs \<subseteq> subscribers c"
    using assms(2) unfolding client_op_def calls_to_def by blast
  have "m \<in> dom (map_of (w_items w))" if "Some m \<in> fst ` set xs" for m
    using xs(2) that assms(5) by (auto simp: subscribers_def callable_def split: option.splits)
  then have "deliverCalls xs (w\<lparr>w_clients := smap_put k c' (w_clients w)\<rparr>) \<noteq> None"
    unfolding deliverCalls_total by simp
  then show ?thesis using assms(3) f xs(1) by (simp add: callClient_def)
qed

text \<open>Data for a subscriber that is gone: the slot that delivers it calls through a dangling pointer.\<close>

lemma dangling_delivery:
  assumes "map_of (w_clients w) k = Some c" "cl_queued c = ObserveDataProcess # qs" "\<not> cl_observeDataLock c"
    and "(i, reply) \<in> set (cl_observeData c)" "subOf c i = Some m" "m \<notin> dom (map_of (w_items w))"
  shows "callClient k (\<lambda>c. Some (cl_event EvQueued c)) w = None"
proof -
  have e: "cl_event EvQueued c = ([], observeDataProcess (c\<lparr>cl_queued := qs\<rparr>))" by (simp add: runQueued_def assms(2))
  have "cl_calls (observeDataProcess (c\<lparr>cl_queued := qs\<rparr>))
      = cl_calls c @ map (\<lambda>(i, reply). (subOf c i, i, reply)) (cl_observeData c)"
    using process_data [of "c\<lparr>cl_queued := qs\<rparr>"] assms(3) by (simp add: subOf_def)
  moreover have "fst (subOf c i, i, reply) \<in> fst ` set (map (\<lambda>(i, reply). (subOf c i, i, reply)) (cl_observeData c))"
    using assms(4) by (intro imageI) (auto intro: rev_image_eqI)
  then have "deliverCalls (map (\<lambda>(i, reply). (subOf c i, i, reply)) (cl_observeData c)) v = None"
    if "w_items v = w_items w" for v
    using deliverCalls_total [of "map (\<lambda>(i, reply). (subOf c i, i, reply)) (cl_observeData c)" v] assms(5,6) that
    unfolding fst_conv by (metis (no_types))
  ultimately show ?thesis using assms(1) e by (simp add: callClient_def)
qed

lemma valid_client:
  "cn_valid w cn \<Longrightarrow> \<exists>k c. cn_dbClient cn = Some k \<and> map_of (w_clients w) k = Some c \<and> cl_connected c"
  by (auto simp: cn_valid_def split: if_splits option.splits)

lemma usable_callable:
  "usable n w \<Longrightarrow> map_of (w_items w) n = Some cn \<Longrightarrow> cn_dbClient cn = Some k \<Longrightarrow> map_of (w_clients w) k = Some c \<Longrightarrow>
   callable w c"
  by (simp add: usable_def itemClient_def)

lemma cn_call_total:
  assumes "world_ok w" "usable n w" "map_of (w_items w) n = Some cn" "\<And>cn. client_op (f cn)"
  shows "cn_call n bad f w \<noteq> None"
proof (cases "cn_valid w cn")
  case True
  then obtain k c where k: "cn_dbClient cn = Some k" "map_of (w_clients w) k = Some c" "cl_connected c"
    using valid_client by blast
  have "callable w c" using usable_callable [OF assms(2,3) k(1,2)] .
  then show ?thesis using callClient_op [OF assms(1,4) k(2,3)] assms(3) k(1) True
    by (auto simp: cn_call_def split: option.split)
qed (simp add: cn_call_def assms(3))

text \<open>What an operation of an item keeps.\<close>

definition world_kept :: "world \<Rightarrow> world \<Rightarrow> bool" where
  "world_kept w w' \<longleftrightarrow> world_ok w' \<and> (\<forall>n. itemClient n w' = itemClient n w)"

lemma world_kept_trans: "world_kept a b \<Longrightarrow> world_kept b c \<Longrightarrow> world_kept a c"
  by (simp add: world_kept_def)

lemma updItem_kept: "world_ok w \<Longrightarrow> keeps_client f \<Longrightarrow> world_kept w (updItem n f w)"
  by (simp add: world_kept_def updItem_ok updItem_keeps)

lemma callClient_kept:
  assumes "world_ok w" "callClient k f w = Some (r, c', w')" "client_op f" shows "world_kept w w'"
  using callClient_ok [OF assms(1,2)] assms(3) by (simp add: world_kept_def client_op_def)

lemma cn_call_kept:
  assumes w: "world_ok w" and c: "cn_call n bad f w = Some (r, x, w')" and f: "\<And>cn. client_op (f cn)"
  shows "world_kept w w'"
proof -
  obtain cn where n: "map_of (w_items w) n = Some cn" using c by (auto simp: cn_call_def split: option.splits)
  show ?thesis
  proof (cases "cn_valid w cn")
    case True
    then obtain k c' w1 where k: "callClient k (f cn) w = Some ((r, x), c', w1)"
      and w': "w' = (if r \<noteq> clSuccess then updItem n (setLastError (QDocClient.cl_lastError c')) w1 else w1)"
      using c n by (auto simp: cn_call_def split: option.splits)
    have k1: "world_kept w w1" by (rule callClient_kept [OF w k f])
    then have "world_kept w1 w'" unfolding w' by (auto simp: world_kept_def updItem_ok updItem_keeps)
    then show ?thesis by (rule world_kept_trans [OF k1])
  next
    case False
    then show ?thesis using c n w by (auto simp: cn_call_def world_kept_def)
  qed
qed

lemma cn_read_kept:
  "world_ok w \<Longrightarrow> cn_read n bad f w = Some (x, w') \<Longrightarrow> (\<And>cn. client_op (\<lambda>c. pack (f cn c))) \<Longrightarrow> world_kept w w'"
  by (auto simp: cn_read_def dest: cn_call_kept)

lemma cn_command_kept:
  "world_ok w \<Longrightarrow> cn_command n f w = Some (x, w') \<Longrightarrow>
   (\<And>cn. client_op (\<lambda>c. map_option (\<lambda>(r, c'). ((r, ()), c')) (f cn c))) \<Longrightarrow> world_kept w w'"
  by (auto simp: cn_command_def dest: cn_call_kept)

lemma cn_observe_kept: "world_ok w \<Longrightarrow> cn_observe n evs w = Some w' \<Longrightarrow> world_kept w w'"
  unfolding cn_observe_def
  by (auto simp: world_kept_def split: option.splits if_splits
      dest!: callClient_kept [unfolded world_kept_def, rotated] simp: updItem_ok updItem_keeps)

lemma cn_unobserve_kept: "world_ok w \<Longrightarrow> cn_unobserve n evs w = Some w' \<Longrightarrow> world_kept w w'"
  unfolding cn_unobserve_def
  by (auto simp: world_kept_def split: option.splits if_splits
      dest!: callClient_kept [unfolded world_kept_def, rotated])

text \<open>Neither dereferences a missing connection.\<close>

lemma cn_observe_total: "world_ok w \<Longrightarrow> usable n w \<Longrightarrow> map_of (w_items w) n = Some cn \<Longrightarrow> cn_observe n evs w \<noteq> None"
  using valid_client [of w cn] callClient_op [OF _ client_op_observe] usable_callable [of n w cn]
  by (fastforce simp: cn_observe_def split: option.split)

lemma cn_unobserve_total: "world_ok w \<Longrightarrow> usable n w \<Longrightarrow> map_of (w_items w) n = Some cn \<Longrightarrow> cn_unobserve n evs w \<noteq> None"
  using valid_client [of w cn] callClient_op [OF _ client_op_unobserve] usable_callable [of n w cn]
  by (fastforce simp: cn_unobserve_def split: option.split)

text \<open>Nor does any other call.\<close>

lemma command_total:
  "world_ok w \<Longrightarrow> usable n w \<Longrightarrow> map_of (w_items w) n = Some cn \<Longrightarrow> cn_command n (\<lambda>cn. cl_command (ty cn) (ps cn) (evs cn)) w \<noteq> None"
  using cn_call_total [of w n cn "\<lambda>cn c. map_option (\<lambda>(r, c'). ((r, ()), c')) (cl_command (ty cn) (ps cn) (evs cn) c)"]
  by (simp add: cn_command_def)

lemma read_total:
  "world_ok w \<Longrightarrow> usable n w \<Longrightarrow> map_of (w_items w) n = Some cn \<Longrightarrow>
   cn_call n bad (\<lambda>cn c. pack (cl_query (ty cn) (ps cn) key conv x (evs cn) c)) w \<noteq> None"
  using cn_call_total [of w n cn "\<lambda>cn c. pack (cl_query (ty cn) (ps cn) key conv x (evs cn) c)"] by simp

lemma item_total_simps:
  assumes w: "world_ok w" "usable n w" "map_of (w_items w) n = Some cn"
  shows "cn_find n query snapshot evs w \<noteq> None" "cn_findOne n query snapshot evs w \<noteq> None"
    "cn_count n reply0 query snapshot evs w \<noteq> None" "cn_insert n doc transactionId evs w \<noteq> None"
    "cn_newTransaction n evs w \<noteq> None" "cn_remove n query transactionId evs w \<noteq> None"
    "cn_removeId n idString transactionId evs w \<noteq> None" "cn_writeTransaction n transactionId evs w \<noteq> None"
    "cn_discardTransaction n transactionId evs w \<noteq> None" "removeQueryResults n evs w \<noteq> None"
    "setValue n vals evs w \<noteq> None" "cn_createIndex n field indexName evs w \<noteq> None"
    "cn_newSnapshot n snapshot evs w \<noteq> None" "cn_revertToSnapshot n snapshot evs w \<noteq> None"
    "cn_removeSnapshot n snapshot evs w \<noteq> None"
  using read_total [OF w] command_total [OF w]
    cn_call_total [OF w client_op_newTransaction, where bad = "- 1"]
  by (simp_all add: cn_find_def cl_find_def cn_findOne_def cl_findOne_def cn_count_def cl_count_def cn_read_def
      cn_insert_def cl_insert_def cn_newTransaction_def setValue_def removeQueryResults_def cl_set_def
      cn_remove_def cl_remove_def cn_removeId_def cl_removeId_def cn_writeTransaction_def cl_writeTransaction_def
      cn_discardTransaction_def cl_discardTransaction_def cn_createIndex_def cl_createIndex_def
      cn_newSnapshot_def cl_newSnapshot_def cn_revertToSnapshot_def cl_revertToSnapshot_def
      cn_removeSnapshot_def cl_removeSnapshot_def del: not_None_eq)

end
