(* ===== verification/QDocConnectorStates.thy ===== *)
theory QDocConnectorStates
  imports QDocConnectorLaws
begin

text \<open>
  Items that take, share and give up clients, and the step relation of a program's items:
  the invariant of QDocConnectorLaws holds in every state it reaches.
\<close>

subsection \<open>Counting uses\<close>

lemma changeUses_fields [simp]:
  "w_dbClients (changeUses k d w) = w_dbClients w" "w_clients (changeUses k d w) = w_clients w"
  "w_items (changeUses k d w) = w_items w" "w_links (changeUses k d w) = w_links w" "w_next (changeUses k d w) = w_next w"
  "itemClient n (changeUses k d w) = itemClient n w" "pointing (changeUses k d w) = pointing w"
  by (simp_all add: changeUses_def itemClient_def pointing_def)

lemma changeUses_shape: "world_shape w \<Longrightarrow> k \<in> dom (map_of (w_clients w)) \<Longrightarrow> world_shape (changeUses k d w)"
  by (auto simp: world_shape_def changeUses_def)

lemma changeUses_counted:
  assumes "counted f w" "k \<in> dom (map_of (w_clients w))" "int (f k) + d = int (g k)" "\<And>j. j \<noteq> k \<Longrightarrow> f j = g j"
  shows "counted g (changeUses k d w)"
  unfolding counted_def
proof
  fix j assume "j \<in> dom (map_of (w_clients (changeUses k d w)))"
  then have "map_of (w_dbClientUses w) j = Some (int (f j))" using assms(1) by (simp add: counted_def)
  then show "map_of (w_dbClientUses (changeUses k d w)) j = Some (int (g j))"
    using assms(3) assms(4) [of j] by (cases "j = k") (simp_all add: changeUses_def)
qed

definition uses1 :: "nat \<Rightarrow> nat \<Rightarrow> world \<Rightarrow> nat" where
  "uses1 n k w = (if itemClient n w = Some k then 1 else 0)"

text \<open>The count without item \<open>n\<close>.\<close>

definition others :: "nat \<Rightarrow> world \<Rightarrow> nat \<Rightarrow> nat" where
  "others n w k = usersOf k (w_items w) - uses1 n k w"

lemma updItem_uses:
  assumes "world_shape w" "map_of (w_items w) n = Some cn"
  shows "usersOf k (w_items (updItem n f w)) = others n w k + (if cn_dbClient (f cn) = Some k then 1 else 0)"
    and "uses1 n k w \<le> usersOf k (w_items w)"
proof -
  have s: "sorted_keys (w_items w)" using assms(1) by (simp add: world_shape_def)
  have e: "usersOf k (smap_put n cn' (w_items w)) + uses1 n k w
      = usersOf k (w_items w) + (if cn_dbClient cn' = Some k then 1 else 0)" for cn'
    using usersOf_put [OF s assms(2), of k cn'] assms(2) by (simp add: uses1_def itemClient_def)
  show le: "uses1 n k w \<le> usersOf k (w_items w)" using usersOf_del [OF s assms(2), of k] assms(2)
    by (auto simp: uses1_def itemClient_def)
  show "usersOf k (w_items (updItem n f w)) = others n w k + (if cn_dbClient (f cn) = Some k then 1 else 0)"
    using e [of "f cn"] le assms(2) by (simp add: others_def updItem_def)
qed

lemma release_ok:
  assumes w: "world_ok w" and n: "map_of (w_items w) n = Some cn"
  shows "world_shape (releaseClient n w) \<and> pointing (releaseClient n w) \<and> counted (others n w) (releaseClient n w) \<and>
    w_items (releaseClient n w) = w_items w"
proof (cases "itemClient n w")
  case None
  then have "others n w = (\<lambda>k. usersOf k (w_items w))" by (auto simp: others_def uses1_def)
  then show ?thesis using w None by (simp add: releaseClient_def world_ok_def)
next
  case (Some k)
  have k: "k \<in> dom (map_of (w_clients w))" using w Some by (auto simp: world_ok_def pointing_def)
  have "uses1 n k w \<le> usersOf k (w_items w)" using w updItem_uses(2) [OF _ n] by (simp add: world_ok_def)
  then have "counted (others n w) (changeUses k (- 1) w)"
    using w k Some by (intro changeUses_counted [of "\<lambda>k. usersOf k (w_items w)"]) (auto simp: world_ok_def others_def uses1_def)
  then show ?thesis using w k Some changeUses_shape by (simp add: releaseClient_def world_ok_def)
qed

lemma take_ok:
  assumes w: "world_shape w" "pointing w" "counted (others n w) w" and n: "map_of (w_items w) n = Some cn"
  shows "world_ok (takeClient n serverName ok b0 w)"
proof (cases "map_of (w_dbClients w) serverName")
  case (Some k)
  have k: "k \<in> dom (map_of (w_clients w))"
    using w(1) rev_image_eqI [OF map_of_SomeD [OF Some], of k snd] unfolding world_shape_def by (simp add: subset_iff)
  let ?w = "updItem n (\<lambda>cn. cn\<lparr>cn_dbClient := Some k\<rparr>) w"
  have u: "usersOf j (w_items ?w) = others n w j + (if k = j then 1 else 0)" for j
    using updItem_uses(1) [OF w(1) n, of j "\<lambda>cn. cn\<lparr>cn_dbClient := Some k\<rparr>"] by simp
  have "counted (\<lambda>j. usersOf j (w_items ?w)) (changeUses k 1 ?w)"
    using w(3) k u by (intro changeUses_counted [of "others n w"]) (simp_all add: counted_def)
  moreover have "pointing ?w" using w(2) k by (auto simp: pointing_def updItem_client split: option.splits)
  ultimately show ?thesis using w(1) k Some by (simp add: takeClient_def world_ok_def changeUses_shape)
next
  case None
  show ?thesis
  proof (cases ok)
    case False
    let ?f = "\<lambda>cn. (setLastError (''Can't connect to database server '' @ serverName) cn)\<lparr>cn_dbClient := None\<rparr>"
    have "counted (\<lambda>j. usersOf j (w_items (updItem n ?f w))) (updItem n ?f w)"
      using w(3) updItem_uses(1) [OF w(1) n, of _ ?f] by (simp add: counted_def)
    moreover have "pointing (updItem n ?f w)"
      using w(2) by (auto simp: pointing_def updItem_client split: option.splits if_splits)
    ultimately show ?thesis using w(1) None False
      by (simp add: takeClient_def world_ok_def connectToServer_def QDocdbClient_def Let_def)
  next
    case True
    define k where "k = w_next w"
    define c where "c = snd (connectToServer True (QDocdbClient b0))"
    define v where "v = w\<lparr>w_next := k + 1, w_clients := smap_put k c (w_clients w),
      w_dbClients := smap_put serverName k (w_dbClients w)\<rparr>"
    let ?v = "updItem n (\<lambda>cn. cn\<lparr>cn_dbClient := Some k\<rparr>) v"
    have c: "cl_connected c" "cl_inv c"
      using cl_step_inv [OF cl_step.Connect cl_inv_new, of True b0]
      by (simp_all add: c_def) (simp add: connectToServer_def)
    have fresh: "map_of (w_clients w) k = None" using w(1) by (fastforce simp: world_shape_def k_def)
    have none: "others n w k = 0"
    proof -
      have "cn_dbClient cn \<noteq> Some k" if "map_of (w_items w) m = Some cn" for m cn
        using w(2) that fresh unfolding pointing_def itemClient_def by (metis domIff option.simps(5))
      moreover have "distinct (map fst (w_items w))" using w(1) by (simp add: world_shape_def sorted_keys_distinct)
      ultimately have "usersOf k (w_items w) = 0"
        by (auto simp: usersOf_def filter_empty_conv dest: map_of_is_SomeI)
      then show ?thesis by (simp add: others_def)
    qed
    have u: "usersOf j (w_items ?v) = others n w j + (if k = j then 1 else 0)" for j
      using updItem_uses(1) [OF w(1) n, of j "\<lambda>cn. cn\<lparr>cn_dbClient := Some k\<rparr>"]
      by (simp add: v_def updItem_def n)
    have i: "itemClient m v = itemClient m w" for m by (simp add: v_def itemClient_def)
    have ud: "map_of (w_dbClientUses w) k = None" using w(1) fresh unfolding world_shape_def by (metis domIff)
    have "map_of (w_dbClientUses (changeUses k 1 ?v)) = (map_of (w_dbClientUses w))(k \<mapsto> 1)"
      using ud by (simp add: changeUses_def v_def)
    then have cnt: "counted (\<lambda>j. usersOf j (w_items ?v)) (changeUses k 1 ?v)"
      using w(3) u none by (auto simp: counted_def v_def)
    have "w_clients v = smap_put k c (w_clients w)" by (simp add: v_def)
    then have pt: "pointing ?v" using w(2) by (auto simp: pointing_def updItem_client i split: option.splits)
    have sub: "snd ` set (smap_put serverName k (w_dbClients w)) \<subseteq> insert k (dom (map_of (w_clients w)))"
      using w(1) set_smap_put_snd [of serverName k "w_dbClients w"] unfolding world_shape_def
      by (meson insert_mono order_trans)
    have "world_shape (changeUses k 1 v)"
      using w(1) c(2) sub unfolding world_shape_def changeUses_def v_def
      by (elim conjE, intro conjI) (simp_all add: subset_insertI2, auto simp: k_def less_Suc_eq)
    then have "world_shape (changeUses k 1 ?v)"
      by (simp add: changeUses_def world_shape_def) (simp add: updItem_def split: option.split)
    moreover have "takeClient n serverName ok b0 w = changeUses k 1 ?v"
      using None True c(1) unfolding takeClient_def Let_def k_def c_def v_def by simp
    ultimately show ?thesis using cnt pt by (simp add: world_ok_def)
  qed
qed

subsection \<open>Items\<close>

lemma addLink_ok:
  "world_ok w \<Longrightarrow> itemClient n w = Some k \<Longrightarrow> world_ok (w\<lparr>w_links := List.insert (n, k) (w_links w)\<rparr>)"
  by (auto simp: world_ok_def world_shape_def pointing_def counted_def itemClient_def)

lemma callClient_dom: "callClient k f w = Some (r, c', w') \<Longrightarrow> dom (map_of (w_items w')) = dom (map_of (w_items w))"
  by (clarsimp simp: callClient_def deliverCalls_dom split: option.splits)

lemma unobserve_dom: "cn_unobserve n evs w = Some w' \<Longrightarrow> dom (map_of (w_items w')) = dom (map_of (w_items w))"
  by (clarsimp simp: cn_unobserve_def split: option.splits if_splits) (simp only: callClient_dom)

lemma setUrl_ok:
  assumes w: "world_ok w" and s: "setUrl U H n url ok b0 evs1 evs2 w = Some w'"
  shows "world_ok w'"
proof -
  obtain cn where n: "map_of (w_items w) n = Some cn" using s by (auto simp: setUrl_def split: option.splits)
  define w1 where "w1 = updItem n (\<lambda>cn. cn\<lparr>cn_url := url\<rparr>) w"
  have w1: "world_ok w1" unfolding w1_def by (intro updItem_ok w) simp
  consider "cn_url cn = url" | "cn_url cn \<noteq> url" "url_scheme U url \<noteq> ''qdocdb''" | "cn_url cn \<noteq> url" "url_scheme U url = ''qdocdb''"
    by blast
  then show ?thesis
  proof cases
    case 1
    then show ?thesis using s n w by (simp add: setUrl_def)
  next
    case 2
    then show ?thesis using s n by (auto simp: setUrl_def w1_def [symmetric] intro!: updItem_ok w1)
  next
    case 3
    then obtain w2 where u: "cn_unobserve n evs1 w1 = Some w2"
      using s n by (auto simp: setUrl_def w1_def Let_def split: option.splits)
    have w2: "world_ok w2" using cn_unobserve_kept [OF w1 u] by (simp add: world_kept_def)
    let ?bad = "\<lambda>cn. cn_emit [ValidChanged] ((setLastError (''Error: Invalid url: '' @ url) cn)\<lparr>cn_urlValid := False\<rparr>)"
    have bad: "world_ok (updItem n ?bad w2)" by (rule updItem_ok [OF w2]) (simp add: keeps_client_def)
    define v where "v = updItem n (\<lambda>cn. cn\<lparr>cn_urlValid := True\<rparr>) w2"
    have v: "world_ok v" unfolding v_def by (rule updItem_ok [OF w2]) simp
    have "n \<in> dom (map_of (w_items v))" using unobserve_dom [OF u] n by (simp add: v_def w1_def domIff)
    then obtain cn' where n': "map_of (w_items v) n = Some cn'" by blast
    note r = release_ok [OF v n']
    have ot: "others n (releaseClient n v) = others n v" using r by (simp add: others_def uses1_def itemClient_def fun_eq_iff)
    define w3 where "w3 = takeClient n (url_host U url) ok b0 (releaseClient n v)"
    have w3: "world_ok w3"
      unfolding w3_def using r n' by (intro take_ok) (simp_all add: ot)
    show ?thesis
    proof (cases "url_host U url = [] \<or> drop 1 (h_urlPath H url) = [] \<or> collectionOf H url = []")
      case True
      then show ?thesis using s n 3 u bad by (simp add: setUrl_def w1_def [symmetric] Let_def)
    next
      case False
      then have e: "map_option (updItem n (cn_emit [ValidChanged]))
          (case itemClient n w3 of None \<Rightarrow> Some w3
           | Some k \<Rightarrow> cn_observe n evs2 (w3\<lparr>w_links := List.insert (n, k) (w_links w3)\<rparr>)) = Some w'"
        using s n 3 u by (simp add: setUrl_def w1_def [symmetric] v_def [symmetric] w3_def [symmetric] Let_def)
      show ?thesis
      proof (cases "itemClient n w3")
        case None
        then show ?thesis using e w3 updItem_ok by auto
      next
        case (Some k)
        then obtain w4 where w4: "cn_observe n evs2 (w3\<lparr>w_links := List.insert (n, k) (w_links w3)\<rparr>) = Some w4"
          and w': "w' = updItem n (cn_emit [ValidChanged]) w4" using e by auto
        have "world_ok w4" using cn_observe_kept [OF addLink_ok [OF w3 Some] w4] by (simp add: world_kept_def)
        then show ?thesis unfolding w' by (rule updItem_ok) simp
      qed
    qed
  qed
qed

lemma newItem_ok: "world_ok w \<Longrightarrow> world_ok (snd (newItem b0 w))"
proof -
  assume w: "world_ok w"
  let ?n = "w_next w"
  have f: "map_of (w_items w) ?n = None" using w by (fastforce simp: world_ok_def world_shape_def)
  have s: "sorted_keys (w_items w)" using w by (simp add: world_ok_def world_shape_def)
  have u: "usersOf k (smap_put ?n (QDocdbConnector b0) (w_items w)) = usersOf k (w_items w)" for k
    using usersOf_new [OF s f] by (simp add: QDocdbConnector_def)
  have i: "itemClient m (snd (newItem b0 w)) = (if m = ?n then None else itemClient m w)" for m
    by (simp add: newItem_def itemClient_def QDocdbConnector_def)
  have "world_shape (snd (newItem b0 w))"
    using w unfolding world_ok_def world_shape_def by (auto simp: newItem_def less_Suc_eq)
  moreover have "w_clients (snd (newItem b0 w)) = w_clients w" by (simp add: newItem_def)
  then have "pointing (snd (newItem b0 w))" using w i by (simp add: world_ok_def pointing_def)
  ultimately show ?thesis using w u by (simp add: world_ok_def) (simp add: newItem_def counted_def)
qed

lemma no_users:
  assumes "usersOf k items = 0" "map_of items n = Some cn" shows "cn_dbClient cn \<noteq> Some k"
  using assms map_of_SomeD [OF assms(2)] by (force simp: usersOf_def filter_empty_conv)

text \<open>The deletion of a client that no item uses.\<close>

lemma deleteClient_ok:
  assumes w: "world_ok w" and u: "usersOf k (w_items w) = 0"
  shows "world_ok (w\<lparr>w_dbClients := filter (\<lambda>e. snd e \<noteq> k) (w_dbClients w), w_dbClientUses := smap_del k (w_dbClientUses w),
    w_clients := smap_del k (w_clients w), w_links := filter (\<lambda>e. snd e \<noteq> k) (w_links w)\<rparr>)" (is "world_ok ?w")
proof -
  have "itemClient m w \<noteq> Some k" for m
    using no_users [OF u] by (auto simp: itemClient_def split: option.splits)
  moreover have "itemClient m ?w = itemClient m w" for m by (simp add: itemClient_def)
  moreover have "world_shape ?w"
    using w unfolding world_ok_def world_shape_def by (auto simp: sorted_filter_keys)
  ultimately show ?thesis using w
    by (auto simp: world_ok_def pointing_def counted_def world_shape_def)
qed

lemma dropClient_ok:
  assumes w: "world_shape w" "pointing w" "k \<in> dom (map_of (w_clients w))"
    and c: "counted (\<lambda>j. usersOf j (w_items w) + (if j = k then 1 else 0)) w"
  shows "world_ok (dropClient k w)"
proof -
  have ok: "world_ok (changeUses k (- 1) w)"
    using w by (simp add: world_ok_def changeUses_shape) (rule changeUses_counted [OF c w(3)], simp_all)
  then have "map_of (w_dbClientUses (changeUses k (- 1) w)) k = Some (int (usersOf k (w_items w)))"
    using w(3) by (auto simp: world_ok_def counted_def)
  then show ?thesis using ok deleteClient_ok [OF ok, of k] by (simp add: dropClient_def Let_def)
qed

lemma pointing_item:
  assumes "world_ok w" "map_of (w_items w) n = Some cn" "cn_dbClient cn = Some k"
  shows "k \<in> dom (map_of (w_clients w))"
proof -
  have "itemClient n w = Some k" using assms(2,3) by (simp add: itemClient_def)
  then show ?thesis using assms(1) unfolding world_ok_def pointing_def by blast
qed

lemma removeItem_ok:
  assumes w: "world_ok w" and n: "map_of (w_items w) n = Some cn"
  shows "world_ok (case cn_dbClient cn of None \<Rightarrow> w\<lparr>w_items := smap_del n (w_items w)\<rparr>
    | Some k \<Rightarrow> dropClient k (w\<lparr>w_items := smap_del n (w_items w)\<rparr>))"
proof -
  let ?v = "w\<lparr>w_items := smap_del n (w_items w)\<rparr>"
  have s: "sorted_keys (w_items w)" using w by (simp add: world_ok_def world_shape_def)
  have i: "itemClient m ?v = (if m = n then None else itemClient m w)" for m by (simp add: itemClient_def s)
  have sh: "world_shape ?v" using w unfolding world_ok_def world_shape_def by auto
  have pt: "pointing ?v" using w i by (auto simp: world_ok_def pointing_def)
  have u: "usersOf k (w_items w) = usersOf k (w_items ?v) + (if cn_dbClient cn = Some k then 1 else 0)" for k
    using usersOf_del [OF s n] by simp
  show ?thesis
  proof (cases "cn_dbClient cn")
    case None
    then show ?thesis using w u sh pt by (simp add: world_ok_def counted_def)
  next
    case (Some k)
    then have "k \<in> dom (map_of (w_clients ?v))" using pointing_item [OF w n] by simp
    moreover have "counted (\<lambda>j. usersOf j (w_items ?v) + (if j = k then 1 else 0)) ?v"
      using w u Some by (auto simp: world_ok_def counted_def)
    ultimately show ?thesis using dropClient_ok [OF sh pt] Some by simp
  qed
qed

lemma sendDestroyed_ok: "world_ok w \<Longrightarrow> sendDestroyed n ks evs w = Some w' \<Longrightarrow> world_ok w'"
proof (induction ks arbitrary: w)
  case (Cons k ks)
  obtain r c w1 where c: "callClient k (\<lambda>c. map_option (Pair ()) (subscriberDestroyed n (evs k) c)) w = Some (r, c, w1)"
    and w': "sendDestroyed n ks evs w1 = Some w'" using Cons.prems(2) by (auto split: option.splits)
  have "world_ok w1" using callClient_ok [OF Cons.prems(1) c] destroyed_inv by auto
  then show ?case by (rule Cons.IH [OF _ w'])
qed simp

lemma links_ok: "world_ok w \<Longrightarrow> world_ok (w\<lparr>w_links := filter P (w_links w)\<rparr>)"
  by (auto simp: world_ok_def world_shape_def pointing_def counted_def itemClient_def)

lemma destroyItem_ok:
  assumes "world_ok w" "destroyItem n evs w = Some w'" shows "world_ok w'"
proof -
  obtain cn where n: "map_of (w_items w) n = Some cn" using assms(2) by (auto simp: destroyItem_def split: option.splits)
  show ?thesis using assms(2) n sendDestroyed_ok [OF links_ok [OF removeItem_ok [OF assms(1) n]]]
    by (auto simp: destroyItem_def Let_def)
qed

subsection \<open>The items of a program as a state machine\<close>

inductive cn_step :: "urlparts \<Rightarrow> host \<Rightarrow> world \<Rightarrow> world \<Rightarrow> bool" for U H where
  New: "cn_step U H w (snd (newItem b0 w))"
| NewWith: "newItemWith U H b url query queryOptions ok b0 evs1 evs2 w = Some (n, w') \<Longrightarrow> cn_step U H w w'"
| Complete: "componentComplete n evs w = Some w' \<Longrightarrow> cn_step U H w w'"
| SetUrl: "setUrl U H n url ok b0 evs1 evs2 w = Some w' \<Longrightarrow> cn_step U H w w'"
| SetQuery: "setQuery n query evs1 evs2 w = Some w' \<Longrightarrow> cn_step U H w w'"
| SetQueryOptions: "setQueryOptions n queryOptions evs1 evs2 w = Some w' \<Longrightarrow> cn_step U H w w'"
| SetObservable: "setObservable n b evs w = Some w' \<Longrightarrow> cn_step U H w w'"
| Find: "cn_find n query snapshot evs w = Some (x, w') \<Longrightarrow> cn_step U H w w'"
| FindOne: "cn_findOne n query snapshot evs w = Some (y, w') \<Longrightarrow> cn_step U H w w'"
| Count: "cn_count n reply0 query snapshot evs w = Some (i, w') \<Longrightarrow> cn_step U H w w'"
| Insert: "cn_insert n doc transactionId evs w = Some (s, w') \<Longrightarrow> cn_step U H w w'"
| NewTransaction: "cn_newTransaction n evs w = Some (i, w') \<Longrightarrow> cn_step U H w w'"
| Remove: "cn_remove n query transactionId evs w = Some (r, w') \<Longrightarrow> cn_step U H w w'"
| RemoveId: "cn_removeId n idString transactionId evs w = Some (r, w') \<Longrightarrow> cn_step U H w w'"
| Write: "cn_writeTransaction n transactionId evs w = Some (r, w') \<Longrightarrow> cn_step U H w w'"
| Discard: "cn_discardTransaction n transactionId evs w = Some (r, w') \<Longrightarrow> cn_step U H w w'"
| RemoveResults: "removeQueryResults n evs w = Some (r, w') \<Longrightarrow> cn_step U H w w'"
| SetValue: "setValue n value evs w = Some w' \<Longrightarrow> cn_step U H w w'"
| SetValueOne: "setValueOne n obj evs w = Some w' \<Longrightarrow> cn_step U H w w'"
| CreateIndex: "cn_createIndex n field indexName evs w = Some (r, w') \<Longrightarrow> cn_step U H w w'"
| NewSnapshot: "cn_newSnapshot n s evs w = Some (r, w') \<Longrightarrow> cn_step U H w w'"
| RevertToSnapshot: "cn_revertToSnapshot n s evs w = Some (r, w') \<Longrightarrow> cn_step U H w w'"
| RemoveSnapshot: "cn_removeSnapshot n s evs w = Some (r, w') \<Longrightarrow> cn_step U H w w'"
| Destroy: "destroyItem n evss w = Some w' \<Longrightarrow> cn_step U H w w'"
| ClientEvent: "callClient k (\<lambda>c. Some (cl_event e c)) w = Some (d, c', w') \<Longrightarrow> cn_step U H w w'"
| ClientTimer: "callClient k (\<lambda>c. map_option (Pair ()) (onConnectTimer ok evsi c)) w = Some (u, c', w') \<Longrightarrow> cn_step U H w w'"

inductive cn_reachable :: "urlparts \<Rightarrow> host \<Rightarrow> world \<Rightarrow> bool" for U H where
  Start: "cn_reachable U H noItems"
| Step: "cn_reachable U H w \<Longrightarrow> cn_step U H w w' \<Longrightarrow> cn_reachable U H w'"

lemma command_ok:
  "world_ok w \<Longrightarrow> cn_command n (\<lambda>cn. cl_command (ty cn) (ps cn) (evs cn)) w = Some (r, w') \<Longrightarrow> world_ok w'"
  using cn_command_kept [of w n "\<lambda>cn. cl_command (ty cn) (ps cn) (evs cn)"] by (simp add: world_kept_def)

lemma read_ok:
  "world_ok w \<Longrightarrow> cn_read n bad (\<lambda>cn. cl_query (ty cn) (ps cn) key conv x (evs cn)) w = Some (r, w') \<Longrightarrow> world_ok w'"
  using cn_read_kept [of w n bad "\<lambda>cn. cl_query (ty cn) (ps cn) key conv x (evs cn)"] by (simp add: world_kept_def)

lemma observe_ok: "world_ok w \<Longrightarrow> cn_observe n evs w = Some w' \<Longrightarrow> world_ok w'"
  using cn_observe_kept by (simp add: world_kept_def)

lemma unobserve_ok: "world_ok w \<Longrightarrow> cn_unobserve n evs w = Some w' \<Longrightarrow> world_ok w'"
  using cn_unobserve_kept by (simp add: world_kept_def)

lemma observe_after:
  assumes "world_ok w" "cn_unobserve n evs1 w = Some w1" "keeps_client f" "cn_observe n evs2 (updItem n f w1) = Some w'"
  shows "world_ok w'"
  using observe_ok [OF updItem_ok [OF unobserve_ok [OF assms(1,2)] assms(3)] assms(4)] .

lemma setValue_ok: "world_ok w \<Longrightarrow> setValue n value evs w = Some w' \<Longrightarrow> world_ok w'"
  by (auto simp: setValue_def cl_set_def dest: command_ok)

lemma insert_ok: "world_ok w \<Longrightarrow> cn_insert n doc transactionId evs w = Some (s, w') \<Longrightarrow> world_ok w'"
  by (auto simp: cn_insert_def cl_insert_def world_kept_def dest!: cn_call_kept)

lemma newTransaction_ok: "world_ok w \<Longrightarrow> cn_newTransaction n evs w = Some (i, w') \<Longrightarrow> world_ok w'"
  by (auto simp: cn_newTransaction_def world_kept_def dest!: cn_call_kept)

lemma cn_step_ok: "cn_step U H w w' \<Longrightarrow> world_ok w \<Longrightarrow> world_ok w'"
proof (induction rule: cn_step.induct)
  case (NewWith b url query queryOptions ok b0 evs1 evs2 w n w')
  have k: "keeps_client (\<lambda>cn. cn\<lparr>cn_query := query, cn_queryOptions := queryOptions, cn_initComplete := True\<rparr>)"
    by (simp add: keeps_client_def)
  show ?case using NewWith setUrl_ok [OF updItem_ok [OF newItem_ok [OF NewWith(2), of b] k]]
    by (auto simp: newItemWith_def case_prod_beta)
next
  case (SetQuery n query evs1 evs2 w w')
  then show ?case
    by (clarsimp simp: setQuery_def split: option.splits if_splits) (metis observe_after keeps_client_simps(5))
next
  case (SetQueryOptions n queryOptions evs1 evs2 w w')
  then show ?case
    by (clarsimp simp: setQueryOptions_def split: option.splits if_splits) (metis observe_after keeps_client_simps(6))
next
  case (SetObservable n b evs w w')
  then show ?case
    by (clarsimp simp: setObservable_def Let_def split: option.splits if_splits)
      (metis observe_ok unobserve_ok updItem_ok keeps_client_simps(8))+
next
  case (Complete n evs w w')
  then show ?case unfolding componentComplete_def by (metis observe_ok updItem_ok keeps_client_simps(9))
next
  case (SetValueOne n obj evs w w')
  then show ?case by (auto simp: setValueOne_def intro: setValue_ok split: option.splits)
next
  case (ClientEvent k e w d c' w')
  then show ?case using callClient_ok [OF ClientEvent(2,1)] event_inv by (metis option.inject prod.sel(2))
next
  case (ClientTimer k ok evsi w u c' w')
  then show ?case using callClient_ok [OF ClientTimer(2,1)] timer_inv by auto
next
  case (New w b0)
  then show ?case by (rule newItem_ok)
next
  case (SetUrl n url ok b0 evs1 evs2 w w')
  then show ?case by (blast intro: setUrl_ok)
next
  case (Destroy n evss w w')
  then show ?case by (blast intro: destroyItem_ok)
next
  case (Find n query snapshot evs w x w')
  show ?case by (rule read_ok [OF Find(2) Find(1) [unfolded cn_find_def cl_find_def]])
next
  case (FindOne n query snapshot evs w y w')
  show ?case by (rule read_ok [OF FindOne(2) FindOne(1) [unfolded cn_findOne_def cl_findOne_def]])
next
  case (Count n reply0 query snapshot evs w i w')
  show ?case by (rule read_ok [OF Count(2) Count(1) [unfolded cn_count_def cl_count_def]])
next
  case (Remove n query transactionId evs w r w')
  show ?case by (rule command_ok [OF Remove(2) Remove(1) [unfolded cn_remove_def cl_remove_def]])
next
  case (RemoveId n idString transactionId evs w r w')
  show ?case by (rule command_ok [OF RemoveId(2) RemoveId(1) [unfolded cn_removeId_def cl_removeId_def]])
next
  case (Write n transactionId evs w r w')
  show ?case by (rule command_ok [OF Write(2) Write(1) [unfolded cn_writeTransaction_def cl_writeTransaction_def]])
next
  case (Discard n transactionId evs w r w')
  show ?case by (rule command_ok [OF Discard(2) Discard(1) [unfolded cn_discardTransaction_def cl_discardTransaction_def]])
next
  case (RemoveResults n evs w r w')
  show ?case by (rule command_ok [OF RemoveResults(2) RemoveResults(1) [unfolded removeQueryResults_def cl_set_def]])
next
  case (CreateIndex n field indexName evs w r w')
  show ?case by (rule command_ok [OF CreateIndex(2) CreateIndex(1) [unfolded cn_createIndex_def cl_createIndex_def]])
next
  case (NewSnapshot n s evs w r w')
  show ?case by (rule command_ok [OF NewSnapshot(2) NewSnapshot(1) [unfolded cn_newSnapshot_def cl_newSnapshot_def]])
next
  case (RevertToSnapshot n s evs w r w')
  show ?case by (rule command_ok [OF RevertToSnapshot(2) RevertToSnapshot(1) [unfolded cn_revertToSnapshot_def cl_revertToSnapshot_def]])
next
  case (RemoveSnapshot n s evs w r w')
  show ?case by (rule command_ok [OF RemoveSnapshot(2) RemoveSnapshot(1) [unfolded cn_removeSnapshot_def cl_removeSnapshot_def]])
next
  case (Insert n doc transactionId evs w s w')
  show ?case by (rule insert_ok [OF Insert(2,1)])
next
  case (NewTransaction n evs w i w')
  show ?case by (rule newTransaction_ok [OF NewTransaction(2,1)])
next
  case (SetValue n val evs w w')
  show ?case by (rule setValue_ok [OF SetValue(2,1)])
qed

lemma cn_reachable_ok: "cn_reachable U H w \<Longrightarrow> world_ok w"
  by (induction rule: cn_reachable.induct) (simp_all add: world_ok_empty cn_step_ok)

end
