(* ===== verification/QDocDemoClient.thy ===== *)
theory QDocDemoClient
  imports QDocDemoServer QDocConnectorStates
begin

text \<open>
  A connected client, messages of the demo server to it, and one item with a client, for concrete
  instances; and a run of two items that ends in a delivery to an item that is gone.
\<close>

definition demo_client :: dbclient where
  "demo_client = (QDocdbClient False)\<lparr>cl_connected := True\<rparr>"

lemma demo_client_ok: "cl_ok demo_client" "cl_fresh demo_client" "cl_connected demo_client"
  by (simp_all add: demo_client_def QDocdbClient_def cl_ok_def cl_fresh_def)

lemma demo_client_id [simp]: "cl_nextFId demo_client = 1"
  by (simp add: demo_client_def QDocdbClient_def)

text \<open>An answer with an error text.\<close>

definition demo_reply :: linkobj where
  "demo_reply = lo_set ''error'' (QString ''Invalid transaction number 5'') (newLinkObject 1 typeUnknown)"

lemma demo_reply_error [simp]: "lo_get demo_reply ''error'' = QString ''Invalid transaction number 5''"
  by (simp add: demo_reply_def)

lemmas demo_msg_defs = newLinkObject_def QDocdbLinkObject_def assignType_def lo_get_def lo_set_def

lemma demo_reply_sendable: "sendable wire_demo demo_reply"
  by (simp add: demo_reply_def sendable_def demo_msg_defs wire_demo_def
      enc_list_def enc_str_def enc_nat_def enc_rat_def funcName_def QDOCDB_FUNCMAP_def funcType_def)

lemma demo_discard:
  "srv_receive qt_demo False 0 demo_cfg demo_env demo_host 1
     (requestMsg typeDiscardTransaction [(''transactionId'', QInt 5)] demo_client) demo_srv = Some ([(1, demo_reply)], demo_srv)"
  by (simp add: srv_receive_def urlNeeded_def requestMsg_def newLinkObject_type dispatch_def handleDiscardTransaction_def
      demo_srv_def srv_new_def fail_def finalReply_def invalidTransaction_def decInt_def decNat.simps demo_reply_def)

text \<open>A lock request that succeeds.\<close>

definition demo_open :: server where
  "demo_open = demo_srv\<lparr>srv_databases := [(''db'', QDocDatabase_new)], srv_databaseLocks := []\<rparr>"

definition demo_locked :: server where
  "demo_locked = demo_open\<lparr>srv_databaseLocks := [(''db'', 1)]\<rparr>"

definition demo_done :: linkobj where
  "demo_done = lo_set ''error'' (QString []) (newLinkObject 1 typeUnknown)"

lemma demo_done_error [simp]: "lo_get demo_done ''error'' = QString []"
  by (simp add: demo_done_def)

lemma demo_done_sendable: "sendable wire_demo demo_done"
  by (simp add: demo_done_def sendable_def demo_msg_defs wire_demo_def
      enc_list_def enc_str_def enc_nat_def enc_rat_def funcName_def QDOCDB_FUNCMAP_def funcType_def)

lemma demo_lock:
  "srv_receive qt_demo False 0 demo_cfg demo_env demo_host 1
     (requestMsg typeExclusiveLock [(''url'', QString [])] demo_client) demo_open = Some ([(1, demo_done)], demo_locked)"
  by (simp add: srv_receive_def urlNeeded_def requestMsg_def newLinkObject_type dispatch_def handleExclusiveLock_def
      getDatabase_def demo_db lockedByOther_def demo_locked_def demo_open_def demo_srv_def srv_new_def done_ok_def
      finalReply_def demo_done_def)

lemma demo_lock_call: "\<exists>s'. cl_exclusiveLock [] [EvReceive demo_done] demo_client = Some (clSuccess, s')"
proof -
  have "lo_type demo_done \<noteq> typeObserveData" "vInt (lo_get demo_done ''id'') = 1"
    by (simp_all add: demo_done_def newLinkObject_type)
  then show ?thesis
    using request_reply [OF demo_client_ok, of _ "[]" demo_done "[]" typeExclusiveLock "[(''url'', QString [])]"]
    by (auto simp: cl_exclusiveLock_def cl_command_def)
qed

text \<open>Data that arrives before the answer to an observe request.\<close>

definition demo_events :: "clevent list" where
  "demo_events =
     [EvReceive (lo_set ''observeId'' (QInt 7) (lo_set ''reply'' (QVariantList [QDouble 1]) (newLinkObject (- 1) typeObserveData))),
      EvQueued, EvReceive (lo_set ''observeId'' (QInt 7) (newLinkObject 1 typeObserveReply))]"

lemma demo_dataOf: "dataOf demo_events = [(7, [JNum 1])]"
  by (simp add: demo_events_def newLinkObject_type)

lemma demo_observe: "\<exists>s'. cl_observe 4 ''u'' [] [] (- 1) demo_events demo_client = Some (7, s')"
  by (simp add: demo_events_def cl_observe_def cl_request_def cl_newLinkObject_def sendAndWaitReply_def
      cl_receive_def newLinkObject_type runQueued_def observeDataProcess_def demo_client_def QDocdbClient_def
      replyField_def Let_def demo_msg_defs funcType_funcName)

subsection \<open>An item\<close>

definition demo_urls :: urlparts where
  "demo_urls = \<lparr>url_scheme = (\<lambda>url. ''qdocdb''), url_host = (\<lambda>url. ''h'')\<rparr>"

text \<open>One item is made with a URL; its client connects, and its observe request is not answered.\<close>

definition demo_world :: world where
  "demo_world = snd (the (newItemWith demo_urls demo_host True ''u'' [] [] True False [] [] noItems))"

lemmas demo_item_defs = newItemWith_def newItem_def setUrl_def takeClient_def releaseClient_def changeUses_def
  updItem_def itemClient_def cn_unobserve_def cn_observe_def cn_valid_def callClient_def cn_emit_def
  cl_observe_def cl_request_def cl_newLinkObject_def sendAndWaitReply_def connectToServer_def collectionOf_def
  queryItemValue_def QDocdbConnector_def QDocdbClient_def noItems_def

lemma demo_world_value:
  "\<exists>w. newItemWith demo_urls demo_host True ''u'' [] [] True False [] [] noItems = Some (0, w) \<and>
     usersOf 1 (w_items w) = 1 \<and> itemClient 0 w = Some 1 \<and> map_of (w_items w) 0 \<noteq> None \<and> usable 0 w"
  by (simp add: demo_item_defs demo_urls_def demo_host_def Let_def usersOf_def int32_inc_def usable_def callable_def)

lemma demo_world_made: "newItemWith demo_urls demo_host True ''u'' [] [] True False [] [] noItems = Some (0, demo_world)"
  and demo_world_item: "usersOf 1 (w_items demo_world) = 1" "itemClient 0 demo_world = Some 1" "map_of (w_items demo_world) 0 \<noteq> None"
    "usable 0 demo_world"
  using demo_world_value by (auto simp: demo_world_def)

subsection \<open>A subscription that outlives its item\<close>

text \<open>
  Two items share a client and the first one observes. The connection is lost, the first item is
  destroyed, the client connects again and renews the subscription, and data for it arrives.
\<close>

definition demo_observed :: "int \<Rightarrow> clevent" where
  "demo_observed i = EvReceive (lo_set ''observeId'' (QInt 7) (newLinkObject i typeObserveReply))"

definition demo_data :: linkobj where
  "demo_data = lo_set ''observeId'' (QInt 7) (lo_set ''reply'' (QVariantList [QDouble 1]) (newLinkObject (- 1) typeObserveData))"

definition demo_new :: "clevent list \<Rightarrow> world \<Rightarrow> world option" where
  "demo_new evs w = map_option snd (newItemWith demo_urls demo_host True ''u'' [] [] True False [] evs w)"

definition demo_event :: "clevent \<Rightarrow> world \<Rightarrow> world option" where
  "demo_event e w = map_option (\<lambda>(r, c, w'). w') (callClient 1 (\<lambda>c. Some (cl_event e c)) w)"

definition demo_again :: "world \<Rightarrow> world option" where
  "demo_again w = map_option (\<lambda>(r, c, w'). w')
     (callClient 1 (\<lambda>c. map_option (Pair ()) (onConnectTimer True (\<lambda>i. [demo_observed 3]) c)) w)"

definition demo_steps :: "(world \<Rightarrow> world option) list" where
  "demo_steps = [demo_new [demo_observed 1], demo_new [], demo_event (EvClientRemoved True),
     destroyItem 0 (\<lambda>k i. []), demo_again, demo_event (EvReceive demo_data), demo_event EvQueued]"

fun runSteps :: "(world \<Rightarrow> world option) list \<Rightarrow> world \<Rightarrow> world option" where
  "runSteps [] w = Some w"
| "runSteps (f # fs) w = (case f w of None \<Rightarrow> None | Some w' \<Rightarrow> runSteps fs w')"

lemma demo_step:
  "demo_new evs w = Some w' \<Longrightarrow> cn_step demo_urls demo_host w w'"
  "demo_event e w = Some w' \<Longrightarrow> cn_step demo_urls demo_host w w'"
  "destroyItem n evss w = Some w' \<Longrightarrow> cn_step demo_urls demo_host w w'"
  "demo_again w = Some w' \<Longrightarrow> cn_step demo_urls demo_host w w'"
  by (auto simp: demo_new_def demo_event_def demo_again_def intro: cn_step.intros)

lemma runSteps_reachable:
  "cn_reachable U H w \<Longrightarrow> \<forall>f \<in> set fs. \<forall>v v'. f v = Some v' \<longrightarrow> cn_step U H v v' \<Longrightarrow> runSteps fs w = Some w' \<Longrightarrow>
   cn_reachable U H w'"
proof (induction fs arbitrary: w)
  case (Cons f fs)
  obtain v where v: "f w = Some v" "runSteps fs v = Some w'" using Cons.prems(3) by (auto split: option.splits)
  have "cn_reachable U H v" using cn_reachable.Step [OF Cons.prems(1)] Cons.prems(2) v(1) by simp
  then show ?case using Cons.IH [OF _ _ v(2)] Cons.prems(2) by simp
qed simp

lemma demo_steps_reachable: "runSteps demo_steps noItems = Some w \<Longrightarrow> cn_reachable demo_urls demo_host w"
  by (rule runSteps_reachable [OF cn_reachable.Start]) (auto simp: demo_steps_def intro: demo_step simp del: runSteps.simps)

lemma demo_steps_value:
  "\<exists>w c. runSteps demo_steps noItems = Some w \<and> map_of (w_clients w) 1 = Some c \<and> map_of (w_items w) 0 = None \<and>
     hd (cl_queued c) = ObserveDataProcess \<and> cl_queued c \<noteq> [] \<and> cl_observeData c = [(7, [JNum 1])] \<and>
     subOf c 7 = Some 0 \<and> \<not> cl_observeDataLock c"
  by (simp add: demo_steps_def demo_new_def demo_event_def demo_again_def demo_observed_def demo_data_def
      demo_item_defs demo_urls_def demo_host_def Let_def int32_inc_def cl_receive_def newLinkObject_type
      replyField_def demo_msg_defs funcType_funcName destroyItem_def dropClient_def subscriberDestroyed_def
      onConnectTimer_def cl_clientRemoved_def cancelAllActiveQueries_def runQueued_def destroyReply_def
      observeDataProcess_def subOf_def)

lemma demo_dangling:
  "\<exists>w c. cn_reachable demo_urls demo_host w \<and> map_of (w_clients w) 1 = Some c \<and>
     callClient 1 (\<lambda>c. Some (cl_event EvQueued c)) w = None"
proof -
  obtain w c where w: "runSteps demo_steps noItems = Some w" "map_of (w_clients w) 1 = Some c" "map_of (w_items w) 0 = None"
    and c: "hd (cl_queued c) = ObserveDataProcess" "cl_queued c \<noteq> []" "cl_observeData c = [(7, [JNum 1])]"
      "subOf c 7 = Some 0" "\<not> cl_observeDataLock c"
    using demo_steps_value by blast
  have "cl_queued c = ObserveDataProcess # tl (cl_queued c)" using c(1,2) by (metis list.collapse)
  then have "callClient 1 (\<lambda>c. Some (cl_event EvQueued c)) w = None"
    using c(3) w(3) by (intro dangling_delivery [OF w(2) _ c(5) _ c(4)]) (simp_all add: domIff)
  then show ?thesis using demo_steps_reachable [OF w(1)] w(2) by blast
qed

end
