(* ===== verification/LdbCoding.thy ===== *)
theory LdbCoding
  imports QDocPrelude
begin

text \<open>
  leveldb/util/coding.h and coding.cc: the encodings of numbers and strings in LevelDB's
  files and keys. A pointer range is the list of its bytes; a function that gives a pointer
  behind the parsed value gives the rest of the list, and \<open>None\<close> for a null pointer. Reading
  outside the range, which the fixed-size decoders do not check, is not modelled: the
  callers' lengths are.
\<close>

unbundle bit_operations_syntax

subsection \<open>Fixed-size numbers\<close>

definition low8 :: "'a::len word \<Rightarrow> char" where
  "low8 v = byte_chr (ucast v)"

definition octet :: "bytes \<Rightarrow> nat \<Rightarrow> 'a::len word" where
  "octet p i = ucast (chr_byte (p ! i))"

definition EncodeFixed32 :: "32 word \<Rightarrow> bytes" where
  "EncodeFixed32 v = map (\<lambda>i. low8 (drop_bit i v AND 0xff)) [0, 8, 16, 24]"

definition EncodeFixed64 :: "64 word \<Rightarrow> bytes" where
  "EncodeFixed64 v = map (\<lambda>i. low8 (drop_bit i v AND 0xff)) [0, 8, 16, 24, 32, 40, 48, 56]"

definition DecodeFixed32 :: "bytes \<Rightarrow> 32 word" where
  "DecodeFixed32 p = octet p 0 OR push_bit 8 (octet p 1) OR push_bit 16 (octet p 2) OR push_bit 24 (octet p 3)"

definition DecodeFixed64 :: "bytes \<Rightarrow> 64 word" where
  "DecodeFixed64 p =
     (let lo = ucast (DecodeFixed32 p); hi = ucast (DecodeFixed32 (drop 4 p)) in push_bit 32 hi OR lo)"

definition PutFixed32 :: "bytes \<Rightarrow> 32 word \<Rightarrow> bytes" where
  "PutFixed32 dst v = dst @ EncodeFixed32 v"

definition PutFixed64 :: "bytes \<Rightarrow> 64 word \<Rightarrow> bytes" where
  "PutFixed64 dst v = dst @ EncodeFixed64 v"

subsection \<open>Numbers of variable length\<close>

definition EncodeVarint32 :: "32 word \<Rightarrow> bytes" where
  "EncodeVarint32 v =
     (if v < 2 ^ 7 then [low8 v]
      else if v < 2 ^ 14 then [low8 (v OR 128), low8 (drop_bit 7 v)]
      else if v < 2 ^ 21 then [low8 (v OR 128), low8 (drop_bit 7 v OR 128), low8 (drop_bit 14 v)]
      else if v < 2 ^ 28 then
        [low8 (v OR 128), low8 (drop_bit 7 v OR 128), low8 (drop_bit 14 v OR 128), low8 (drop_bit 21 v)]
      else [low8 (v OR 128), low8 (drop_bit 7 v OR 128), low8 (drop_bit 14 v OR 128),
            low8 (drop_bit 21 v OR 128), low8 (drop_bit 28 v)])"

lemma drop7_less: "\<not> v < 128 \<Longrightarrow> unat (drop_bit 7 (v :: 64 word)) < unat v"
proof -
  assume "\<not> v < 128"
  then have "128 \<le> unat v" by (simp add: word_less_nat_alt)
  moreover have "unat (drop_bit 7 v) = unat v div 128"
    by (simp only: unat_drop_bit_eq) (simp add: drop_bit_eq_div)
  ultimately show ?thesis by simp
qed

function EncodeVarint64 :: "64 word \<Rightarrow> bytes" where
  "EncodeVarint64 v =
     (if v < 128 then [low8 v] else low8 ((v AND 127) OR 128) # EncodeVarint64 (drop_bit 7 v))"
  by auto
termination by (relation "measure unat") (simp_all add: drop7_less)

function VarintLength :: "64 word \<Rightarrow> nat" where
  "VarintLength v = (if v < 128 then 1 else VarintLength (drop_bit 7 v) + 1)"
  by auto
termination by (relation "measure unat") (simp_all add: drop7_less)

declare EncodeVarint64.simps [simp del] VarintLength.simps [simp del]

definition PutVarint32 :: "bytes \<Rightarrow> 32 word \<Rightarrow> bytes" where
  "PutVarint32 dst v = dst @ EncodeVarint32 v"

definition PutVarint64 :: "bytes \<Rightarrow> 64 word \<Rightarrow> bytes" where
  "PutVarint64 dst v = dst @ EncodeVarint64 v"

text \<open>
  The loop of the two decoders; \<open>maxShift\<close> is the last shift it takes, 28 or 63.
\<close>

fun varintLoop :: "nat \<Rightarrow> nat \<Rightarrow> 'a::len word \<Rightarrow> bytes \<Rightarrow> ('a word \<times> bytes) option" where
  "varintLoop maxShift shift result [] = None"
| "varintLoop maxShift shift result (c # p) =
     (if shift > maxShift then None
      else let byte = ucast (chr_byte c)
        in if byte AND 128 \<noteq> 0 then varintLoop maxShift (shift + 7) (result OR push_bit shift (byte AND 127)) p
           else Some (result OR push_bit shift byte, p))"

definition GetVarint32PtrFallback :: "bytes \<Rightarrow> (32 word \<times> bytes) option" where
  "GetVarint32PtrFallback p = varintLoop 28 0 0 p"

definition GetVarint32Ptr :: "bytes \<Rightarrow> (32 word \<times> bytes) option" where
  "GetVarint32Ptr p =
     (case p of
        [] \<Rightarrow> GetVarint32PtrFallback p
      | c # q \<Rightarrow> let result = ucast (chr_byte c)
          in if result AND 128 = 0 then Some (result, q) else GetVarint32PtrFallback p)"

definition GetVarint64Ptr :: "bytes \<Rightarrow> (64 word \<times> bytes) option" where
  "GetVarint64Ptr p = varintLoop 63 0 0 p"

text \<open>On slices the rest is the slice after the call; when the result is \<open>None\<close> it is as before.\<close>

definition GetVarint32 :: "bytes \<Rightarrow> (32 word \<times> bytes) option" where
  "GetVarint32 input = GetVarint32Ptr input"

definition GetVarint64 :: "bytes \<Rightarrow> (64 word \<times> bytes) option" where
  "GetVarint64 input = GetVarint64Ptr input"

subsection \<open>Strings\<close>

definition PutLengthPrefixedSlice :: "bytes \<Rightarrow> bytes \<Rightarrow> bytes" where
  "PutLengthPrefixedSlice dst val = PutVarint32 dst (of_nat (length val)) @ val"

definition GetLengthPrefixedSlicePtr :: "bytes \<Rightarrow> (bytes \<times> bytes) option" where
  "GetLengthPrefixedSlicePtr p =
     (case GetVarint32Ptr p of
        None \<Rightarrow> None
      | Some (len, q) \<Rightarrow> if unat len > length q then None else Some (take (unat len) q, drop (unat len) q))"

definition GetLengthPrefixedSlice :: "bytes \<Rightarrow> (bytes \<times> bytes) option" where
  "GetLengthPrefixedSlice input =
     (case GetVarint32 input of
        None \<Rightarrow> None
      | Some (len, q) \<Rightarrow> if length q \<ge> unat len then Some (take (unat len) q, drop (unat len) q) else None)"

subsection \<open>Fixed-size numbers come back\<close>

named_theorems coding_simps "laws of the encodings"

lemma octet_Cons [simp]:
  "octet (low8 v # p) 0 = ucast (ucast v :: 8 word)" "octet (c # p) (Suc i) = octet p i"
  "octet (c # p) (numeral k) = octet p (pred_numeral k)"
  by (simp_all add: octet_def low8_def)

lemma length_EncodeFixed [simp, coding_simps]:
  "length (EncodeFixed32 v) = 4" "length (EncodeFixed64 w) = 8"
  by (simp_all add: EncodeFixed32_def EncodeFixed64_def)

lemma and_mask8: "x AND 0xff = take_bit 8 (x :: 'a::len word)"
  by (simp add: take_bit_eq_mask mask_eq_exp_minus_1)

lemma and_mask7: "x AND 127 = take_bit 7 (x :: 'a::len word)"
  by (simp add: take_bit_eq_mask mask_eq_exp_minus_1)

lemma byte_of_word: "8 \<le> LENGTH('a) \<Longrightarrow> ucast (ucast (take_bit 8 v) :: 8 word) = (take_bit 8 v :: 'a::len word)"
  by (rule bit_word_eqI) (auto simp: bit_simps)

lemma octet_fixed: "8 \<le> LENGTH('a) \<Longrightarrow> octet (low8 (v AND 0xff) # p) 0 = (take_bit 8 v :: 'a::len word)"
  by (simp add: and_mask8 byte_of_word)

lemma DecodeFixed32 [simp, coding_simps]: "DecodeFixed32 (EncodeFixed32 v @ rest) = v"
proof -
  have "DecodeFixed32 (EncodeFixed32 v @ rest) = take_bit 8 v OR push_bit 8 (take_bit 8 (drop_bit 8 v)) OR
      push_bit 16 (take_bit 8 (drop_bit 16 v)) OR push_bit 24 (take_bit 8 (drop_bit 24 v))"
    by (simp add: DecodeFixed32_def EncodeFixed32_def and_mask8 byte_of_word)
  also have "\<dots> = v"
  proof (rule bit_word_eqI)
    fix n assume "n < LENGTH(32)"
    then consider "n < 8" | "8 \<le> n" "n < 16" | "16 \<le> n" "n < 24" | "24 \<le> n" "n < 32" by force
    then show "bit (take_bit 8 v OR push_bit 8 (take_bit 8 (drop_bit 8 v)) OR
        push_bit 16 (take_bit 8 (drop_bit 16 v)) OR push_bit 24 (take_bit 8 (drop_bit 24 v))) n = bit v n"
      by cases (auto simp: bit_simps)
  qed
  finally show ?thesis .
qed

lemma EncodeFixed64_halves: "EncodeFixed64 v = EncodeFixed32 (ucast v) @ EncodeFixed32 (ucast (drop_bit 32 v))"
proof -
  have e: "low8 (drop_bit i (ucast w :: 32 word) AND 0xff) = low8 (drop_bit i w AND 0xff)" if "i \<le> 24" for i and w :: "64 word"
  proof -
    have "(ucast (take_bit 8 (drop_bit i (ucast w :: 32 word))) :: 8 word) = ucast (take_bit 8 (drop_bit i w))"
      using that by (intro bit_word_eqI) (auto simp: bit_simps)
    then show ?thesis by (simp add: low8_def and_mask8)
  qed
  show ?thesis using e [of 0 v] e [of 0 "drop_bit 32 v"] by (simp add: EncodeFixed64_def EncodeFixed32_def e)
qed

lemma DecodeFixed64 [simp, coding_simps]: "DecodeFixed64 (EncodeFixed64 v @ rest) = v"
proof -
  have "DecodeFixed64 (EncodeFixed64 v @ rest) =
      push_bit 32 (ucast (ucast (drop_bit 32 v) :: 32 word)) OR ucast (ucast v :: 32 word)"
    by (simp add: DecodeFixed64_def EncodeFixed64_halves)
  also have "\<dots> = v"
  proof (rule bit_word_eqI)
    fix n assume "n < LENGTH(64)"
    then consider "n < 32" | "32 \<le> n" "n < 64" by force
    then show "bit (push_bit 32 (ucast (ucast (drop_bit 32 v) :: 32 word)) OR ucast (ucast v :: 32 word) :: 64 word) n = bit v n"
      by cases (auto simp: bit_simps)
  qed
  finally show ?thesis .
qed

subsection \<open>Numbers of variable length come back\<close>

text \<open>The encoding with \<open>k\<close> continuation bytes.\<close>

fun venc :: "nat \<Rightarrow> 'a::len word \<Rightarrow> bytes" where
  "venc 0 v = [low8 v]"
| "venc (Suc k) v = low8 ((v AND 127) OR 128) # venc k (drop_bit 7 v)"

text \<open>The flag of a continuation byte is bit 7.\<close>

lemma or_128: "x OR 128 = Bit_Operations.set_bit 7 (x :: 'a::len word)"
proof -
  have "(128 :: 'a word) = push_bit 7 1" by (simp add: push_bit_eq_mult)
  then show ?thesis by (simp only: set_bit_eq_or)
qed

lemma and_128: "x AND 128 = 0 \<longleftrightarrow> \<not> bit (x :: 'a::len word) 7"
proof -
  have "(128 :: 'a word) = 2 ^ 7" by simp
  then show ?thesis by (simp only: and_exp_eq_0_iff_not_bit)
qed

lemma more_byte:
  assumes "8 \<le> LENGTH('a)"
  shows "ucast (ucast ((v AND 127) OR 128) :: 8 word) = (take_bit 7 v OR 128 :: 'a::len word)"
  using assms unfolding or_128 and_mask7 by (intro bit_word_eqI) (auto simp: bit_simps)

lemma more_byte_simps:
  assumes "8 \<le> LENGTH('a)"
  shows "(take_bit 7 v OR 128) AND 128 \<noteq> (0 :: 'a::len word)" "(take_bit 7 v OR 128) AND 127 = (take_bit 7 v :: 'a word)"
proof -
  show "(take_bit 7 v OR 128) AND 128 \<noteq> (0 :: 'a::len word)"
    using assms unfolding or_128 and_128 by (simp add: bit_simps)
  show "(take_bit 7 v OR 128) AND 127 = (take_bit 7 v :: 'a word)"
    unfolding or_128 and_mask7 by (rule bit_word_eqI) (auto simp: bit_simps)
qed

lemma take_bit_small: "unat (v :: 'a::len word) < 2 ^ n \<Longrightarrow> take_bit n v = v"
  by (rule word_unat_eq_iff [THEN iffD2]) (simp only: unsigned_take_bit_eq, simp add: take_bit_eq_mod)

lemma small_byte:
  assumes "8 \<le> LENGTH('a)" "unat (v :: 'a::len word) < 128"
  shows "ucast (ucast v :: 8 word) = v" "v AND 128 = 0"
proof -
  have "take_bit 7 v = v" using assms(2) by (intro take_bit_small) simp
  then obtain x where x: "v = take_bit 7 x" by metis
  show "ucast (ucast v :: 8 word) = v"
    unfolding x using assms(1) by (intro bit_word_eqI) (auto simp: bit_simps)
  show "v AND 128 = 0" unfolding and_128 x by (simp add: bit_simps)
qed

lemma varintLoop_venc:
  assumes "8 \<le> LENGTH('a)" "unat (v :: 'a::len word) < 2 ^ (7 * Suc k)" "s + 7 * k \<le> maxShift"
  shows "varintLoop maxShift s r (venc k v @ rest) = Some (r OR push_bit s v, rest)"
  using assms(2,3)
proof (induction k arbitrary: v s r)
  case 0
  then show ?case using small_byte [OF assms(1), of v] by (simp add: low8_def Let_def)
next
  case (Suc k)
  have d: "unat (drop_bit 7 v) < 2 ^ (7 * Suc k)"
  proof -
    have "unat (drop_bit 7 v) = unat v div 128" by (simp only: unat_drop_bit_eq) (simp add: drop_bit_eq_div)
    moreover have "unat v < 2 ^ (7 * Suc k) * 128" using Suc.prems(1) by (simp add: power_add)
    ultimately show ?thesis using less_mult_imp_div_less by metis
  qed
  have "push_bit s (take_bit 7 v) OR push_bit (s + 7) (drop_bit 7 v) = push_bit s v"
  proof (rule bit_word_eqI)
    fix n
    show "bit (push_bit s (take_bit 7 v) OR push_bit (s + 7) (drop_bit 7 v)) n = bit (push_bit s v) n"
      by (cases "n < s + 7") (auto simp: bit_simps)
  qed
  then show ?case using Suc.IH [OF d, of "s + 7"] Suc.prems(2) more_byte_simps [OF assms(1), of v]
    by (simp add: low8_def more_byte [OF assms(1)] or.assoc)
qed

text \<open>The unrolled encoder is the loop.\<close>

lemma low8_more: "low8 ((v AND 127) OR 128) = low8 (v OR 128 :: 32 word)"
proof -
  have "(ucast ((v AND 127) OR 128) :: 8 word) = ucast (v OR 128)"
    unfolding or_128 and_mask7 by (rule bit_word_eqI) (auto simp: bit_simps)
  then show ?thesis by (simp add: low8_def)
qed

lemma venc_unrolled:
  "venc (Suc 0) v = [low8 (v OR 128 :: 32 word), low8 (drop_bit 7 v)]"
  "venc (Suc (Suc 0)) v = [low8 (v OR 128), low8 (drop_bit 7 v OR 128), low8 (drop_bit 14 v)]"
  "venc (Suc (Suc (Suc 0))) v =
     [low8 (v OR 128), low8 (drop_bit 7 v OR 128), low8 (drop_bit 14 v OR 128), low8 (drop_bit 21 v)]"
  "venc (Suc (Suc (Suc (Suc 0)))) v =
     [low8 (v OR 128), low8 (drop_bit 7 v OR 128), low8 (drop_bit 14 v OR 128), low8 (drop_bit 21 v OR 128),
      low8 (drop_bit 28 v)]"
  by (simp_all add: low8_more drop_bit_drop_bit)

lemma EncodeVarint32_venc: "\<exists>k \<le> 4. EncodeVarint32 v = venc k v \<and> unat v < 2 ^ (7 * Suc k)"
proof -
  have v: "unat v < 2 ^ 35" using unsigned_less [of v, where 'a = nat] by simp
  consider "v < 2 ^ 7" | "\<not> v < 2 ^ 7" "v < 2 ^ 14" | "\<not> v < 2 ^ 7" "\<not> v < 2 ^ 14" "v < 2 ^ 21"
    | "\<not> v < 2 ^ 7" "\<not> v < 2 ^ 14" "\<not> v < 2 ^ 21" "v < 2 ^ 28"
    | "\<not> v < 2 ^ 7" "\<not> v < 2 ^ 14" "\<not> v < 2 ^ 21" "\<not> v < 2 ^ 28" by blast
  then show ?thesis
  proof cases
    case 1
    then have "EncodeVarint32 v = venc 0 v" by (simp only: EncodeVarint32_def if_True venc.simps)
    moreover have "unat v < 2 ^ 7" using 1 by (simp add: word_less_nat_alt)
    ultimately show ?thesis by (intro exI [of _ 0]) simp
  next
    case 2
    then have "EncodeVarint32 v = venc (Suc 0) v" by (simp only: EncodeVarint32_def if_True if_False venc_unrolled)
    moreover have "unat v < 2 ^ 14" using 2(2) by (simp add: word_less_nat_alt)
    ultimately show ?thesis by (intro exI [of _ "Suc 0"]) simp
  next
    case 3
    then have "EncodeVarint32 v = venc (Suc (Suc 0)) v"
      by (simp only: EncodeVarint32_def if_True if_False venc_unrolled)
    moreover have "unat v < 2 ^ 21" using 3(3) by (simp add: word_less_nat_alt)
    ultimately show ?thesis by (intro exI [of _ "Suc (Suc 0)"]) simp
  next
    case 4
    then have "EncodeVarint32 v = venc (Suc (Suc (Suc 0))) v"
      by (simp only: EncodeVarint32_def if_True if_False venc_unrolled)
    moreover have "unat v < 2 ^ 28" using 4(4) by (simp add: word_less_nat_alt)
    ultimately show ?thesis by (intro exI [of _ "Suc (Suc (Suc 0))"]) simp
  next
    case 5
    then have "EncodeVarint32 v = venc (Suc (Suc (Suc (Suc 0)))) v"
      by (simp only: EncodeVarint32_def if_True if_False venc_unrolled)
    then show ?thesis using v by (intro exI [of _ "Suc (Suc (Suc (Suc 0)))"]) simp
  qed
qed

lemma EncodeVarint64_venc:
  "unat v < 2 ^ (7 * Suc n) \<Longrightarrow> \<exists>k \<le> n. EncodeVarint64 v = venc k v \<and> VarintLength v = Suc k \<and> unat v < 2 ^ (7 * Suc k)"
proof (induction n arbitrary: v)
  case 0
  then have "v < 128" by (simp add: word_less_nat_alt)
  then show ?case using 0 by (simp add: EncodeVarint64.simps [of v] VarintLength.simps [of v])
next
  case (Suc n)
  show ?case
  proof (cases "v < 128")
    case True
    then show ?thesis
      by (intro exI [of _ 0]) (simp add: EncodeVarint64.simps [of v] VarintLength.simps [of v] word_less_nat_alt)
  next
    case False
    have d: "unat (drop_bit 7 v) = unat v div 128" by (simp only: unat_drop_bit_eq) (simp add: drop_bit_eq_div)
    have "unat v < 2 ^ (7 * Suc n) * 128" using Suc.prems by (simp add: power_add)
    then have "unat (drop_bit 7 v) < 2 ^ (7 * Suc n)" using less_mult_imp_div_less d by metis
    from Suc.IH [OF this] obtain k where k: "k \<le> n" "EncodeVarint64 (drop_bit 7 v) = venc k (drop_bit 7 v)"
      "VarintLength (drop_bit 7 v) = Suc k" "unat (drop_bit 7 v) < 2 ^ (7 * Suc k)" by blast
    have "unat v < 2 ^ (7 * Suc k) * 128"
      using k(4) d by (metis div_less_iff_less_mult zero_less_numeral)
    then have "unat v < 2 ^ (7 * Suc (Suc k))" by (simp add: power_add)
    then show ?thesis using k False
      by (intro exI [of _ "Suc k"]) (simp add: EncodeVarint64.simps [of v] VarintLength.simps [of v])
  qed
qed

lemma GetVarint32Ptr_loop: "GetVarint32Ptr p = varintLoop 28 0 0 p"
  by (cases p) (simp_all add: GetVarint32Ptr_def GetVarint32PtrFallback_def Let_def)

lemma length_venc [simp]: "length (venc k v) = Suc k"
  by (induction k arbitrary: v) simp_all

lemma GetVarint32 [simp, coding_simps]:
  "GetVarint32 (EncodeVarint32 v @ rest) = Some (v, rest)" "GetVarint32Ptr (EncodeVarint32 v @ rest) = Some (v, rest)"
proof -
  obtain k where k: "k \<le> 4" "EncodeVarint32 v = venc k v" "unat v < 2 ^ (7 * Suc k)" using EncodeVarint32_venc by blast
  then show "GetVarint32Ptr (EncodeVarint32 v @ rest) = Some (v, rest)"
    using varintLoop_venc [of v k 0 28 0 rest] by (simp add: GetVarint32Ptr_loop)
  then show "GetVarint32 (EncodeVarint32 v @ rest) = Some (v, rest)" by (simp add: GetVarint32_def)
qed

lemma GetVarint64 [simp, coding_simps]: "GetVarint64 (EncodeVarint64 v @ rest) = Some (v, rest)"
proof -
  have "unat v < 2 ^ (7 * Suc 9)" using unsigned_less [of v, where 'a = nat] by simp
  from EncodeVarint64_venc [OF this] obtain k where k: "k \<le> 9" "EncodeVarint64 v = venc k v" "unat v < 2 ^ (7 * Suc k)"
    by blast
  then show ?thesis using varintLoop_venc [of v k 0 63 0 rest] by (simp add: GetVarint64_def GetVarint64Ptr_def)
qed

lemma length_varint:
  "length (EncodeVarint64 v) = VarintLength v" "VarintLength v \<le> 10" "length (EncodeVarint32 w) \<le> 5" "EncodeVarint32 w \<noteq> []"
proof -
  have "unat v < 2 ^ (7 * Suc 9)" using unsigned_less [of v, where 'a = nat] by simp
  from EncodeVarint64_venc [OF this] show "length (EncodeVarint64 v) = VarintLength v" "VarintLength v \<le> 10" by auto
  obtain k where "k \<le> 4" "EncodeVarint32 w = venc k w" using EncodeVarint32_venc by blast
  then show "length (EncodeVarint32 w) \<le> 5" "EncodeVarint32 w \<noteq> []" by (simp_all flip: length_0_conv)
qed

text \<open>A decoder never reads beyond its bound, and gives a proper rest.\<close>

lemma varintLoop_rest: "varintLoop m s r p = Some (v, q) \<Longrightarrow> \<exists>c. p = c @ q \<and> c \<noteq> [] \<and> 7 * length c + s \<le> m + 7"
proof (induction m s r p rule: varintLoop.induct)
  case (2 m s r c p)
  show ?case
  proof (cases "ucast (chr_byte c) AND 128 \<noteq> (0 :: 'a word)")
    case True
    then obtain c' where "p = c' @ q" "7 * length c' + (s + 7) \<le> m + 7" "\<not> s > m" using 2 by (auto simp: Let_def split: if_splits)
    then show ?thesis by (intro exI [of _ "c # c'"]) simp
  next
    case False
    then show ?thesis using 2 by (intro exI [of _ "[c]"]) (simp add: Let_def split: if_splits)
  qed
qed simp

lemma GetVarint32_rest: "GetVarint32 p = Some (x, q) \<Longrightarrow> \<exists>c. p = c @ q \<and> c \<noteq> [] \<and> length c \<le> 5"
  by (fastforce simp: GetVarint32_def GetVarint32Ptr_loop dest: varintLoop_rest)

lemma GetVarint64_rest: "GetVarint64 p = Some (x, q) \<Longrightarrow> \<exists>c. p = c @ q \<and> c \<noteq> [] \<and> length c \<le> 10"
  by (fastforce simp: GetVarint64_def GetVarint64Ptr_def dest: varintLoop_rest)

subsection \<open>Strings come back\<close>

lemma GetLengthPrefixedSlice [simp, coding_simps]:
  assumes "length val < 2 ^ 32"
  shows "GetLengthPrefixedSlice (PutLengthPrefixedSlice [] val @ rest) = Some (val, rest)"
    and "GetLengthPrefixedSlicePtr (PutLengthPrefixedSlice [] val @ rest) = Some (val, rest)"
  using assms by (simp_all add: GetLengthPrefixedSlice_def GetLengthPrefixedSlicePtr_def PutLengthPrefixedSlice_def
      PutVarint32_def unat_of_nat)

lemma PutLengthPrefixedSlice_append: "PutLengthPrefixedSlice dst val = dst @ PutLengthPrefixedSlice [] val"
  by (simp add: PutLengthPrefixedSlice_def PutVarint32_def)

lemma GetLengthPrefixedSlice_shorter: "GetLengthPrefixedSlice p = Some (val, q) \<Longrightarrow> length q < length p"
  by (auto simp: GetLengthPrefixedSlice_def GetVarint32_def GetVarint32Ptr_loop split: option.splits if_splits
      dest!: varintLoop_rest simp flip: length_greater_0_conv)

end
