(* ===== verification/LdbFormat.thy ===== *)
theory LdbFormat
  imports LdbCoding
begin

text \<open>
  leveldb/util/comparator.cc, include/leveldb/slice.h and leveldb/db/dbformat: the order of
  the keys of the user, and the internal keys, which carry a sequence number and the type of
  the entry behind the key and are ordered newest first.

  A comparator is a record of its three operations; \<open>ordering\<close> and \<open>comparator_laws\<close> say
  what its clients (the skip list, the tables) rely on.
\<close>

subsection \<open>Comparators\<close>

record comparator =
  cmp_Compare :: "bytes \<Rightarrow> bytes \<Rightarrow> int"
  cmp_FindShortestSeparator :: "bytes \<Rightarrow> bytes \<Rightarrow> bytes"
  cmp_FindShortSuccessor :: "bytes \<Rightarrow> bytes"

locale ordering =
  fixes compare :: "'k \<Rightarrow> 'k \<Rightarrow> int"
  assumes anti: "compare a b < 0 \<longleftrightarrow> 0 < compare b a"
    and trans: "compare a b \<le> 0 \<Longrightarrow> compare b c \<le> 0 \<Longrightarrow> compare a c \<le> 0"
begin

lemma refl [simp]: "compare a a = 0"
  using anti [of a a] by linarith

lemma less_trans: "compare a b < 0 \<Longrightarrow> compare b c \<le> 0 \<Longrightarrow> compare a c < 0"
  using trans [of b c a] anti [of a b] anti [of a c] by linarith

lemma le_less_trans: "compare a b \<le> 0 \<Longrightarrow> compare b c < 0 \<Longrightarrow> compare a c < 0"
  using trans [of c a b] anti [of b c] anti [of a c] by linarith

lemma le_iff: "compare a b \<le> 0 \<longleftrightarrow> 0 \<le> compare b a"
  using anti [of b a] by linarith

lemma eq_iff: "compare a b = 0 \<longleftrightarrow> compare b a = 0"
  using anti [of a b] anti [of b a] by linarith

lemma eq_trans: "compare a b = 0 \<Longrightarrow> compare b c = 0 \<Longrightarrow> compare a c = 0"
proof -
  assume "compare a b = 0" "compare b c = 0"
  moreover from this have "compare b a = 0" "compare c b = 0" using eq_iff by blast+
  ultimately have "compare a c \<le> 0" "compare c a \<le> 0" using trans [of a b c] trans [of c b a] by simp_all
  then show "compare a c = 0" using anti [of a c] by linarith
qed

end

locale comparator_laws = ordering "cmp_Compare C" for C :: comparator +
  assumes separator_ge: "cmp_Compare C start limit < 0 \<Longrightarrow> cmp_Compare C start (cmp_FindShortestSeparator C start limit) \<le> 0"
    and separator_less: "cmp_Compare C start limit < 0 \<Longrightarrow> cmp_Compare C (cmp_FindShortestSeparator C start limit) limit < 0"
    and separator_same: "cmp_Compare C start limit = 0 \<Longrightarrow> cmp_FindShortestSeparator C start limit = start"
    and successor_ge: "cmp_Compare C k (cmp_FindShortSuccessor C k) \<le> 0"

subsection \<open>The order of bytes\<close>

fun memcmp :: "bytes \<Rightarrow> bytes \<Rightarrow> int" where
  "memcmp (a # as) (b # bs) = (if a = b then memcmp as bs else of_char a - of_char b)"
| "memcmp _ _ = 0"

definition slice_compare :: "bytes \<Rightarrow> bytes \<Rightarrow> int" where
  "slice_compare a b =
     (let min_len = (if length a < length b then length a else length b);
          r = memcmp (take min_len a) (take min_len b)
      in if r = 0 then if length a < length b then -1 else if length a > length b then 1 else r else r)"

fun diffIndex :: "bytes \<Rightarrow> bytes \<Rightarrow> nat" where
  "diffIndex (a # as) (b # bs) = (if a = b then Suc (diffIndex as bs) else 0)"
| "diffIndex _ _ = 0"

definition bytewise_FindShortestSeparator :: "bytes \<Rightarrow> bytes \<Rightarrow> bytes" where
  "bytewise_FindShortestSeparator start limit =
     (let min_length = min (length start) (length limit);
          diff_index = diffIndex start limit
      in if diff_index \<ge> min_length then start
         else let diff_byte = chr_byte (start ! diff_index)
           in if diff_byte < 0xff \<and> uint diff_byte + 1 < uint (chr_byte (limit ! diff_index)) then
                take (diff_index + 1) (start[diff_index := byte_chr (diff_byte + 1)])
              else start)"

fun bytewise_FindShortSuccessor :: "bytes \<Rightarrow> bytes" where
  "bytewise_FindShortSuccessor (c # k) =
     (if chr_byte c \<noteq> 0xff then [byte_chr (chr_byte c + 1)] else c # bytewise_FindShortSuccessor k)"
| "bytewise_FindShortSuccessor [] = []"

definition BytewiseComparator :: comparator where
  "BytewiseComparator =
     \<lparr>cmp_Compare = slice_compare, cmp_FindShortestSeparator = bytewise_FindShortestSeparator,
      cmp_FindShortSuccessor = bytewise_FindShortSuccessor\<rparr>"

text \<open>A \<open>memcmp\<close> and the lengths decide the lexicographic order.\<close>

lemma slice_compare_simps [simp]:
  "slice_compare [] [] = 0" "slice_compare [] (b # bs) = -1" "slice_compare (a # as) [] = 1"
  "slice_compare (a # as) (b # bs) = (if a = b then slice_compare as bs else of_char a - of_char b)"
  by (simp_all add: slice_compare_def Let_def)

lemma of_char_diff: "(of_char a :: int) < of_char b \<longleftrightarrow> a < b"
proof -
  have "(of_char a :: int) = int (of_char a)" for a :: char by (metis of_nat_of_char)
  then show ?thesis by (simp add: less_char_def)
qed

lemma slice_compare_order: "slice_compare a b < 0 \<longleftrightarrow> a < b" "slice_compare a b = 0 \<longleftrightarrow> a = b"
proof (induction a arbitrary: b)
  case Nil
  { case 1 show ?case by (cases b) simp_all }
  { case 2 show ?case by (cases b) simp_all }
next
  case (Cons a as)
  { case 1 show ?case using Cons by (cases b) (simp_all add: of_char_diff) }
  { case 2 show ?case using Cons by (cases b) simp_all }
qed

lemma slice_compare_pos: "0 < slice_compare a b \<longleftrightarrow> b < a"
  using slice_compare_order [of a b] by (metis linorder_less_linear linorder_neqE_linordered_idom order_less_asym)

lemma slice_compare_le: "slice_compare a b \<le> 0 \<longleftrightarrow> a \<le> b"
  using slice_compare_pos [of a b] by (metis linorder_not_less)

lemma chr_byte_less: "chr_byte a < chr_byte b \<longleftrightarrow> a < b"
  by (metis byte_chr_byte byte_chr_less)

lemma inc_byte: "chr_byte c \<noteq> 0xff \<Longrightarrow> c < byte_chr (chr_byte c + 1)"
proof -
  assume c: "chr_byte c \<noteq> 0xff"
  have "unat (chr_byte c) \<noteq> 255" using c by (auto simp: word_unat_eq_iff simp del: unat_chr_byte)
  then have "(of_char c :: nat) < 255" using of_char_lt_256 [of c] unfolding unat_chr_byte by linarith
  then have "chr_byte c < chr_byte c + 1" by (simp add: word_less_nat_alt unat_plus_if')
  then show ?thesis by (metis byte_chr_byte byte_chr_less)
qed

subsection \<open>The bytewise comparator keeps the laws\<close>

lemma bytewise_separator_simps [simp]:
  "bytewise_FindShortestSeparator [] limit = []" "bytewise_FindShortestSeparator start [] = start"
  "bytewise_FindShortestSeparator (a # as) (b # bs) =
     (if a = b then a # bytewise_FindShortestSeparator as bs
      else if chr_byte a < 0xff \<and> uint (chr_byte a) + 1 < uint (chr_byte b) then [byte_chr (chr_byte a + 1)]
      else a # as)"
  by (auto simp: bytewise_FindShortestSeparator_def Let_def)

lemma bytewise_separator_ge: "start \<le> bytewise_FindShortestSeparator start limit"
proof (induction start limit rule: diffIndex.induct)
  case (1 a as b bs)
  have "a < byte_chr (chr_byte a + 1)" if "chr_byte a < 0xff" using that by (intro inc_byte) auto
  with 1 show ?case by auto
qed simp_all

lemma bytewise_separator_less: "start < limit \<Longrightarrow> bytewise_FindShortestSeparator start limit < limit"
proof (induction start limit rule: diffIndex.induct)
  case (1 a as b bs)
  have "byte_chr (chr_byte a + 1) < b" if "uint (chr_byte a) + 1 < uint (chr_byte b)"
  proof -
    have "unat (chr_byte a) + 1 < unat (chr_byte b)" using that unfolding uint_nat by linarith
    moreover have "unat (chr_byte a + 1) \<le> unat (chr_byte a) + 1" by (auto simp: unat_plus_if')
    ultimately have "chr_byte a + 1 < chr_byte b" by (simp add: word_less_nat_alt)
    then show ?thesis by (metis byte_chr_byte byte_chr_less)
  qed
  then show ?case using 1 by auto
qed simp_all

lemma bytewise_separator_same: "bytewise_FindShortestSeparator a a = a"
  by (induction a) simp_all

lemma bytewise_successor_ge: "k \<le> bytewise_FindShortSuccessor k"
proof (induction k rule: bytewise_FindShortSuccessor.induct)
  case (1 c k)
  then show ?case using inc_byte [of c] by auto
qed simp

interpretation bytewise: comparator_laws BytewiseComparator
proof
  fix a b c :: bytes
  show "cmp_Compare BytewiseComparator a b < 0 \<longleftrightarrow> 0 < cmp_Compare BytewiseComparator b a"
    by (simp add: BytewiseComparator_def slice_compare_order slice_compare_pos)
  show "cmp_Compare BytewiseComparator a b \<le> 0 \<Longrightarrow> cmp_Compare BytewiseComparator b c \<le> 0 \<Longrightarrow>
      cmp_Compare BytewiseComparator a c \<le> 0"
    by (simp add: BytewiseComparator_def slice_compare_le)
  show "cmp_Compare BytewiseComparator a b = 0 \<Longrightarrow> cmp_FindShortestSeparator BytewiseComparator a b = a"
    by (simp add: BytewiseComparator_def slice_compare_order bytewise_separator_same)
  show "cmp_Compare BytewiseComparator a b < 0 \<Longrightarrow>
      cmp_Compare BytewiseComparator a (cmp_FindShortestSeparator BytewiseComparator a b) \<le> 0"
    by (simp add: BytewiseComparator_def slice_compare_le bytewise_separator_ge)
  show "cmp_Compare BytewiseComparator a b < 0 \<Longrightarrow>
      cmp_Compare BytewiseComparator (cmp_FindShortestSeparator BytewiseComparator a b) b < 0"
    by (simp add: BytewiseComparator_def slice_compare_order bytewise_separator_less)
  show "cmp_Compare BytewiseComparator a (cmp_FindShortSuccessor BytewiseComparator a) \<le> 0"
    by (simp add: BytewiseComparator_def slice_compare_le bytewise_successor_ge)
qed

subsection \<open>Internal keys\<close>

datatype ValueType = kTypeDeletion | kTypeValue

definition vtCode :: "ValueType \<Rightarrow> 64 word" where
  "vtCode t = (case t of kTypeDeletion \<Rightarrow> 0x0 | kTypeValue \<Rightarrow> 0x1)"

abbreviation (input) kValueTypeForSeek :: ValueType where "kValueTypeForSeek \<equiv> kTypeValue"

definition kMaxSequenceNumber :: "64 word" where
  "kMaxSequenceNumber = push_bit 56 0x1 - 1"

record ParsedInternalKey =
  pik_user_key :: bytes
  pik_sequence :: "64 word"
  pik_type :: ValueType

definition PackSequenceAndType :: "64 word \<Rightarrow> ValueType \<Rightarrow> 64 word" where
  "PackSequenceAndType sq t = push_bit 8 sq OR vtCode t"

definition AppendInternalKey :: "bytes \<Rightarrow> ParsedInternalKey \<Rightarrow> bytes" where
  "AppendInternalKey result k = PutFixed64 (result @ pik_user_key k) (PackSequenceAndType (pik_sequence k) (pik_type k))"

definition InternalKey :: "bytes \<Rightarrow> 64 word \<Rightarrow> ValueType \<Rightarrow> bytes" where
  "InternalKey user_key s t = AppendInternalKey [] \<lparr>pik_user_key = user_key, pik_sequence = s, pik_type = t\<rparr>"

definition ExtractUserKey :: "bytes \<Rightarrow> bytes" where
  "ExtractUserKey k = take (length k - 8) k"

text \<open>The number behind the user key, that the source decodes in place.\<close>

definition keyNumber :: "bytes \<Rightarrow> 64 word" where
  "keyNumber k = DecodeFixed64 (drop (length k - 8) k)"

definition ParseInternalKey :: "bytes \<Rightarrow> ParsedInternalKey option" where
  "ParseInternalKey internal_key =
     (let n = length internal_key
      in if n < 8 then None
         else let num = keyNumber internal_key; c = num AND 0xff
           in if c \<le> vtCode kTypeValue then
                Some \<lparr>pik_user_key = take (n - 8) internal_key, pik_sequence = drop_bit 8 num,
                      pik_type = (if c = 0 then kTypeDeletion else kTypeValue)\<rparr>
              else None)"

definition internal_Compare :: "comparator \<Rightarrow> bytes \<Rightarrow> bytes \<Rightarrow> int" where
  "internal_Compare C akey bkey =
     (let r = cmp_Compare C (ExtractUserKey akey) (ExtractUserKey bkey)
      in if r = 0 then
           (let anum = keyNumber akey; bnum = keyNumber bkey
            in if anum > bnum then -1 else if anum < bnum then 1 else r)
         else r)"

definition internal_FindShortestSeparator :: "comparator \<Rightarrow> bytes \<Rightarrow> bytes \<Rightarrow> bytes" where
  "internal_FindShortestSeparator C start limit =
     (let user_start = ExtractUserKey start; user_limit = ExtractUserKey limit;
          tmp = cmp_FindShortestSeparator C user_start user_limit
      in if length tmp < length user_start \<and> cmp_Compare C user_start tmp < 0 then
           PutFixed64 tmp (PackSequenceAndType kMaxSequenceNumber kValueTypeForSeek)
         else start)"

definition internal_FindShortSuccessor :: "comparator \<Rightarrow> bytes \<Rightarrow> bytes" where
  "internal_FindShortSuccessor C k =
     (let user_key = ExtractUserKey k; tmp = cmp_FindShortSuccessor C user_key
      in if length tmp < length user_key \<and> cmp_Compare C user_key tmp < 0 then
           PutFixed64 tmp (PackSequenceAndType kMaxSequenceNumber kValueTypeForSeek)
         else k)"

definition InternalKeyComparator :: "comparator \<Rightarrow> comparator" where
  "InternalKeyComparator C =
     \<lparr>cmp_Compare = internal_Compare C, cmp_FindShortestSeparator = internal_FindShortestSeparator C,
      cmp_FindShortSuccessor = internal_FindShortSuccessor C\<rparr>"

subsection \<open>The parts of an internal key\<close>

lemma parts [simp, coding_simps]:
  "ExtractUserKey (k @ EncodeFixed64 n) = k" "keyNumber (k @ EncodeFixed64 n) = n"
  using DecodeFixed64 [of n "[]"] by (simp_all add: ExtractUserKey_def keyNumber_def)

lemma InternalKey_bytes: "InternalKey k s t = k @ EncodeFixed64 (PackSequenceAndType s t)"
  by (simp add: InternalKey_def AppendInternalKey_def PutFixed64_def)

lemma internal_key_parts [simp, coding_simps]:
  "ExtractUserKey (InternalKey k s t) = k" "keyNumber (InternalKey k s t) = PackSequenceAndType s t"
  "length (InternalKey k s t) = length k + 8"
  by (simp_all add: InternalKey_bytes)

text \<open>Numbers that fit in 56 bits are packed without loss, and in their order.\<close>

lemma bit_vtCode: "bit (vtCode t) i \<longleftrightarrow> i = 0 \<and> t = kTypeValue"
  by (cases t) (auto simp: vtCode_def bit_1_iff)

lemma kMaxSequenceNumber_value: "unat kMaxSequenceNumber = 2 ^ 56 - 1"
  by (simp add: kMaxSequenceNumber_def push_bit_eq_mult)

lemma take_bit_sequence: "s \<le> kMaxSequenceNumber \<Longrightarrow> take_bit 56 s = s"
  by (rule take_bit_small) (simp add: word_le_nat_alt kMaxSequenceNumber_value)

lemma pack_sum: "PackSequenceAndType s t = push_bit 8 s + vtCode t"
  unfolding PackSequenceAndType_def
  by (rule disjunctive_add [symmetric]) (auto simp: bit_push_bit_iff bit_vtCode)

lemma pack_parts:
  assumes "s \<le> kMaxSequenceNumber"
  shows "drop_bit 8 (PackSequenceAndType s t) = s" "PackSequenceAndType s t AND 0xff = vtCode t"
    "unat (PackSequenceAndType s t) = 256 * unat s + unat (vtCode t)"
proof -
  show "drop_bit 8 (PackSequenceAndType s t) = s"
  proof (rule bit_word_eqI)
    fix n assume "n < LENGTH(64)"
    then show "bit (drop_bit 8 (PackSequenceAndType s t)) n = bit s n"
      using take_bit_sequence [OF assms]
      by (auto simp: PackSequenceAndType_def bit_drop_bit_eq bit_or_iff bit_push_bit_iff bit_vtCode)
        (metis bit_take_bit_iff less_diff_conv)
  qed
  show "PackSequenceAndType s t AND 0xff = vtCode t"
    unfolding and_mask8
    by (rule bit_word_eqI) (auto simp: PackSequenceAndType_def bit_take_bit_iff bit_or_iff bit_push_bit_iff bit_vtCode)
  have "unat s < 2 ^ 56" using assms by (simp add: word_le_nat_alt kMaxSequenceNumber_value)
  moreover have "unat (vtCode t) \<le> 1" by (simp add: vtCode_def split: ValueType.split)
  ultimately show "unat (PackSequenceAndType s t) = 256 * unat s + unat (vtCode t)"
    unfolding pack_sum by (simp add: push_bit_eq_mult unat_word_ariths)
qed

lemma ParseInternalKey [simp, coding_simps]:
  "s \<le> kMaxSequenceNumber \<Longrightarrow>
     ParseInternalKey (InternalKey k s t) = Some \<lparr>pik_user_key = k, pik_sequence = s, pik_type = t\<rparr>"
  using pack_parts [of s t] unfolding ParseInternalKey_def Let_def internal_key_parts
  by (cases t) (simp_all add: InternalKey_bytes vtCode_def)

subsection \<open>The order of internal keys\<close>

context comparator_laws
begin

lemma internal_ordering: "ordering (internal_Compare C)"
proof
  fix a b c :: bytes
  show "internal_Compare C a b < 0 \<longleftrightarrow> 0 < internal_Compare C b a"
    using anti [of "ExtractUserKey a" "ExtractUserKey b"] anti [of "ExtractUserKey b" "ExtractUserKey a"]
    by (auto simp: internal_Compare_def Let_def)
  assume "internal_Compare C a b \<le> 0" "internal_Compare C b c \<le> 0"
  then show "internal_Compare C a c \<le> 0"
    using less_trans [of "ExtractUserKey a" "ExtractUserKey b" "ExtractUserKey c"]
      le_less_trans [of "ExtractUserKey a" "ExtractUserKey b" "ExtractUserKey c"]
      eq_trans [of "ExtractUserKey a" "ExtractUserKey b" "ExtractUserKey c"]
    by (auto simp: internal_Compare_def Let_def split: if_splits)
qed

text \<open>A key that starts later in the order of the user is later, whatever the numbers.\<close>

lemma internal_user_less:
  "cmp_Compare C (ExtractUserKey a) (ExtractUserKey b) < 0 \<Longrightarrow> internal_Compare C a b < 0"
  by (simp add: internal_Compare_def Let_def)

lemma internal_separator:
  "internal_Compare C start limit < 0 \<Longrightarrow>
     internal_Compare C start (internal_FindShortestSeparator C start limit) \<le> 0"
  "internal_Compare C start limit < 0 \<Longrightarrow> internal_Compare C (internal_FindShortestSeparator C start limit) limit < 0"
  "internal_Compare C start limit = 0 \<Longrightarrow> internal_FindShortestSeparator C start limit = start"
proof -
  let ?us = "ExtractUserKey start" and ?ul = "ExtractUserKey limit"
  let ?tmp = "cmp_FindShortestSeparator C ?us ?ul"
  show "internal_Compare C start (internal_FindShortestSeparator C start limit) \<le> 0"
    by (simp add: internal_FindShortestSeparator_def Let_def PutFixed64_def internal_Compare_def)
  show "internal_Compare C (internal_FindShortestSeparator C start limit) limit < 0" if "internal_Compare C start limit < 0"
  proof (cases "cmp_Compare C ?us ?ul = 0")
    case True
    then show ?thesis using that separator_same [OF True] by (simp add: internal_FindShortestSeparator_def Let_def)
  next
    case False
    then have "cmp_Compare C ?us ?ul < 0" using that by (simp add: internal_Compare_def Let_def)
    then have "cmp_Compare C ?tmp ?ul < 0" by (rule separator_less)
    then show ?thesis
      using that by (simp add: internal_FindShortestSeparator_def Let_def PutFixed64_def internal_user_less)
  qed
  show "internal_FindShortestSeparator C start limit = start" if "internal_Compare C start limit = 0"
  proof -
    have "cmp_Compare C ?us ?ul = 0" using that by (simp add: internal_Compare_def Let_def split: if_splits)
    then show ?thesis using separator_same by (simp add: internal_FindShortestSeparator_def Let_def)
  qed
qed

lemma internal_successor: "internal_Compare C k (internal_FindShortSuccessor C k) \<le> 0"
  by (simp add: internal_FindShortSuccessor_def Let_def PutFixed64_def internal_Compare_def)

lemma internal_laws: "comparator_laws (InternalKeyComparator C)"
  by (intro comparator_laws.intro comparator_laws_axioms.intro)
     (simp_all add: InternalKeyComparator_def internal_ordering internal_separator internal_successor)

text \<open>
  The key that a seek starts from, the newest number of a sequence number, is before the
  entries of its user key with that number or an older one, and behind the newer ones.
\<close>

lemma seek_order:
  assumes "s \<le> kMaxSequenceNumber" "s' \<le> kMaxSequenceNumber"
  shows "internal_Compare C (InternalKey k' s' t) (InternalKey k s kValueTypeForSeek) < 0 \<longleftrightarrow>
    cmp_Compare C k' k < 0 \<or> cmp_Compare C k' k = 0 \<and> s < s'"
proof -
  have "PackSequenceAndType s kTypeValue < PackSequenceAndType s' t \<longleftrightarrow> s < s'"
    using pack_parts(3) [OF assms(1), of kTypeValue] pack_parts(3) [OF assms(2), of t]
    by (cases t) (auto simp: word_less_nat_alt vtCode_def)
  then show ?thesis by (auto simp: internal_Compare_def Let_def)
qed

text \<open>Entries with different sequence numbers are never equal, and the newer one is first.\<close>

lemma internal_sequence_order:
  assumes "s \<le> kMaxSequenceNumber" "s' \<le> kMaxSequenceNumber" "s \<noteq> s'"
  shows "internal_Compare C (InternalKey k' s' t') (InternalKey k s t) < 0 \<longleftrightarrow>
      cmp_Compare C k' k < 0 \<or> cmp_Compare C k' k = 0 \<and> s < s'"
    "internal_Compare C (InternalKey k' s' t') (InternalKey k s t) \<noteq> 0"
proof -
  have "unat s \<noteq> unat s'" using assms(3) unfolding word_unat_eq_iff .
  then have "PackSequenceAndType s t < PackSequenceAndType s' t' \<longleftrightarrow> s < s'"
    "PackSequenceAndType s t \<noteq> PackSequenceAndType s' t'"
    using pack_parts(3) [OF assms(1), of t] pack_parts(3) [OF assms(2), of t'] unfolding word_unat_eq_iff
    by (cases t; cases t'; auto simp: word_less_nat_alt vtCode_def)+
  then show "internal_Compare C (InternalKey k' s' t') (InternalKey k s t) < 0 \<longleftrightarrow>
      cmp_Compare C k' k < 0 \<or> cmp_Compare C k' k = 0 \<and> s < s'"
    "internal_Compare C (InternalKey k' s' t') (InternalKey k s t) \<noteq> 0"
    by (auto simp: internal_Compare_def Let_def)
qed

end

interpretation internal: comparator_laws "InternalKeyComparator BytewiseComparator"
  by (rule bytewise.internal_laws)

end
