(* ===== verification/LdbSkipList.thy ===== *)
theory LdbSkipList
  imports LdbFormat
begin

text \<open>
  leveldb/db/skiplist.h with leveldb/util/random.h: the ordered set of a memtable. A node is
  a cell of a store that only grows, its address the place in it; the head is node 0. Reads
  that run while another thread inserts are not modelled, an operation is a whole step.
\<close>

subsection \<open>The random numbers\<close>

definition newRandom :: "32 word \<Rightarrow> 32 word" where
  "newRandom s = (let seed = s AND 0x7fffffff in if seed = 0 \<or> seed = 2147483647 then 1 else seed)"

definition randomNext :: "32 word \<Rightarrow> 32 word" where
  "randomNext seed =
     (let M = 2147483647;
          product = ucast seed * (16807 :: 64 word);
          seed' = ucast (drop_bit 31 product + product AND ucast M)
      in if seed' > M then seed' - M else seed')"

subsection \<open>Nodes\<close>

abbreviation (input) kMaxHeight :: nat where "kMaxHeight \<equiv> 12"

record 'k sknode =
  sn_key :: 'k
  sn_next :: "nat option list"

record 'k skiplist =
  sl_nodes :: "'k sknode list"
  sl_max_height :: nat
  sl_rnd :: "32 word"

definition snNext :: "'k skiplist \<Rightarrow> nat \<Rightarrow> nat \<Rightarrow> nat option" where
  "snNext l n x = sn_next (sl_nodes l ! x) ! n"

definition snSetNext :: "nat \<Rightarrow> nat \<Rightarrow> nat option \<Rightarrow> 'k skiplist \<Rightarrow> 'k skiplist" where
  "snSetNext x n v l = l\<lparr>sl_nodes := (sl_nodes l)[x := (sl_nodes l ! x)\<lparr>sn_next := (sn_next (sl_nodes l ! x))[n := v]\<rparr>]\<rparr>"

definition NewNode :: "'k \<Rightarrow> nat \<Rightarrow> 'k skiplist \<Rightarrow> nat \<times> 'k skiplist" where
  "NewNode k h l = (length (sl_nodes l), l\<lparr>sl_nodes := sl_nodes l @ [\<lparr>sn_key = k, sn_next = replicate h None\<rparr>]\<rparr>)"

text \<open>The key of the head does not matter.\<close>

definition newSkipList :: "'k \<Rightarrow> 'k skiplist" where
  "newSkipList any =
     \<lparr>sl_nodes = [\<lparr>sn_key = any, sn_next = replicate kMaxHeight None\<rparr>], sl_max_height = 1, sl_rnd = newRandom 0xdeadbeef\<rparr>"

function heightLoop :: "nat \<Rightarrow> 32 word \<Rightarrow> nat \<times> 32 word" where
  "heightLoop h r =
     (if h < kMaxHeight then
        (let r' = randomNext r in if r' mod 4 = 0 then heightLoop (h + 1) r' else (h, r'))
      else (h, r))"
  by auto
termination by (relation "measure (\<lambda>(h, r). kMaxHeight - h)") auto

declare heightLoop.simps [simp del]

definition RandomHeight :: "'k skiplist \<Rightarrow> nat \<times> 'k skiplist" where
  "RandomHeight l = (let (h, r) = heightLoop 1 (sl_rnd l) in (h, l\<lparr>sl_rnd := r\<rparr>))"

definition KeyIsAfterNode :: "('k \<Rightarrow> 'k \<Rightarrow> int) \<Rightarrow> 'k skiplist \<Rightarrow> 'k \<Rightarrow> nat option \<Rightarrow> bool" where
  "KeyIsAfterNode compare l k n = (case n of None \<Rightarrow> False | Some y \<Rightarrow> compare (sn_key (sl_nodes l ! y)) k < 0)"

subsection \<open>Searches\<close>

text \<open>
  The three searches are one loop: keep searching in this list while the condition on the
  next node holds, else note the node and go down a list, until list 0. It gives the last
  node, the one behind it and the nodes noted.
\<close>

partial_function (option)
  searchLoop :: "'k skiplist \<Rightarrow> (nat option \<Rightarrow> bool) \<Rightarrow> nat \<Rightarrow> nat \<Rightarrow> nat list \<Rightarrow> (nat \<times> nat option \<times> nat list) option"
where
  "searchLoop l go x level prev =
     (let nxt = snNext l level x
      in if go nxt then searchLoop l go (the nxt) level prev
         else let prev' = prev[level := x]
           in if level = 0 then Some (x, nxt, prev') else searchLoop l go x (level - 1) prev')"

declare searchLoop.simps [simp del]

definition FindGreaterOrEqual ::
  "('k \<Rightarrow> 'k \<Rightarrow> int) \<Rightarrow> 'k \<Rightarrow> nat list \<Rightarrow> 'k skiplist \<Rightarrow> (nat option \<times> nat list) option" where
  "FindGreaterOrEqual compare k prev l =
     map_option (\<lambda>(x, nxt, prev'). (nxt, prev')) (searchLoop l (KeyIsAfterNode compare l k) 0 (sl_max_height l - 1) prev)"

definition FindLessThan :: "('k \<Rightarrow> 'k \<Rightarrow> int) \<Rightarrow> 'k \<Rightarrow> 'k skiplist \<Rightarrow> nat option" where
  "FindLessThan compare k l =
     map_option (\<lambda>(x, nxt, prev'). x)
       (searchLoop l (\<lambda>n. case n of None \<Rightarrow> False | Some y \<Rightarrow> \<not> compare (sn_key (sl_nodes l ! y)) k \<ge> 0)
          0 (sl_max_height l - 1) [])"

definition FindLast :: "'k skiplist \<Rightarrow> nat option" where
  "FindLast l = map_option (\<lambda>(x, nxt, prev'). x) (searchLoop l (\<lambda>n. n \<noteq> None) 0 (sl_max_height l - 1) [])"

definition sl_Contains :: "('k \<Rightarrow> 'k \<Rightarrow> int) \<Rightarrow> 'k \<Rightarrow> 'k skiplist \<Rightarrow> bool option" where
  "sl_Contains compare k l =
     map_option (\<lambda>(x, prev'). case x of None \<Rightarrow> False | Some y \<Rightarrow> compare k (sn_key (sl_nodes l ! y)) = 0)
       (FindGreaterOrEqual compare k [] l)"

subsection \<open>Insertion\<close>

definition linkLevel :: "nat \<Rightarrow> nat list \<Rightarrow> 'k skiplist \<Rightarrow> nat \<Rightarrow> 'k skiplist" where
  "linkLevel x prev l i = snSetNext (prev ! i) i (Some x) (snSetNext x i (snNext l i (prev ! i)) l)"

text \<open>The array of the previous nodes is not initialised: an address of no node.\<close>

definition sl_Insert :: "('k \<Rightarrow> 'k \<Rightarrow> int) \<Rightarrow> 'k \<Rightarrow> 'k skiplist \<Rightarrow> 'k skiplist option" where
  "sl_Insert compare k l =
     (case FindGreaterOrEqual compare k (replicate kMaxHeight (length (sl_nodes l))) l of
        None \<Rightarrow> None
      | Some (_, prev) \<Rightarrow>
          (let (h, l1) = RandomHeight l;
               prev' = (if h > sl_max_height l1 then foldl (\<lambda>p i. p[i := 0]) prev [sl_max_height l1..<h] else prev);
               l2 = (if h > sl_max_height l1 then l1\<lparr>sl_max_height := h\<rparr> else l1);
               (x, l3) = NewNode k h l2
           in Some (foldl (linkLevel x prev') l3 [0..<h])))"

subsection \<open>The iterator\<close>

text \<open>A position is a node, \<open>None\<close> where the iterator is not valid.\<close>

definition sli_Next :: "'k skiplist \<Rightarrow> nat \<Rightarrow> nat option" where
  "sli_Next l n = snNext l 0 n"

definition sli_Prev :: "('k \<Rightarrow> 'k \<Rightarrow> int) \<Rightarrow> 'k skiplist \<Rightarrow> nat \<Rightarrow> nat option option" where
  "sli_Prev compare l n =
     map_option (\<lambda>x. if x = 0 then None else Some x) (FindLessThan compare (sn_key (sl_nodes l ! n)) l)"

definition sli_Seek :: "('k \<Rightarrow> 'k \<Rightarrow> int) \<Rightarrow> 'k skiplist \<Rightarrow> 'k \<Rightarrow> nat option option" where
  "sli_Seek compare l target = map_option fst (FindGreaterOrEqual compare target [] l)"

definition sli_SeekToFirst :: "'k skiplist \<Rightarrow> nat option" where
  "sli_SeekToFirst l = snNext l 0 0"

definition sli_SeekToLast :: "'k skiplist \<Rightarrow> nat option option" where
  "sli_SeekToLast l = map_option (\<lambda>x. if x = 0 then None else Some x) (FindLast l)"

definition sli_key :: "'k skiplist \<Rightarrow> nat \<Rightarrow> 'k" where
  "sli_key l n = sn_key (sl_nodes l ! n)"

end
