(* ===== verification/LdbSkipListLaws.thy ===== *)
theory LdbSkipListLaws
  imports LdbSkipList
begin

text \<open>
  The skip list refines a sorted sequence of keys: every search ends, on the node of the
  sequence that it is meant to find, an insertion puts the key at its place, and the
  iterator walks the sequence. All of it holds for any order that keeps the laws of
  \<open>ordering\<close>.
\<close>

subsection \<open>Chains\<close>

text \<open>The nodes behind a node in a list of links.\<close>

fun chain :: "(nat \<Rightarrow> nat option) \<Rightarrow> nat \<Rightarrow> nat list \<Rightarrow> bool" where
  "chain f x [] \<longleftrightarrow> f x = None"
| "chain f x (y # ys) \<longleftrightarrow> f x = Some y \<and> chain f y ys"

definition first :: "nat list \<Rightarrow> nat option" where
  "first ys = (case ys of [] \<Rightarrow> None | y # _ \<Rightarrow> Some y)"

lemma first_simps [simp]: "first [] = None" "first (y # ys) = Some y"
  by (simp_all add: first_def)

lemma first_None [simp]: "first ys = None \<longleftrightarrow> ys = []"
  by (cases ys) simp_all

lemma chain_at: "chain f x (as @ bs) \<Longrightarrow> f (last (x # as)) = first bs"
proof (induction as arbitrary: x)
  case Nil
  then show ?case by (cases bs) simp_all
qed auto

lemma chain_cong: "\<forall>y \<in> insert x (set ys). f y = g y \<Longrightarrow> chain f x ys = chain g x ys"
  by (induction ys arbitrary: x) auto

lemma chain_link:
  assumes "chain f x (as @ bs)" "n \<notin> set (x # as @ bs)" "distinct (x # as @ bs)"
  shows "chain (f(n := f (last (x # as)), last (x # as) := Some n)) x (as @ n # bs)"
  using assms
proof (induction as arbitrary: x)
  case Nil
  define g where "g = f(n := f x, x := Some n)"
  have "chain g y ys = chain f y ys" if "x \<notin> set (y # ys)" "n \<notin> set (y # ys)" for y ys
    using that by (intro chain_cong) (auto simp: g_def)
  moreover have "g x = Some n" "g n = f x" using Nil by (auto simp: g_def)
  ultimately have "chain g x (n # bs)" using Nil by (cases bs) auto
  then show ?case by (simp add: g_def del: fun_upd_apply)
next
  case (Cons a as)
  let ?p = "last (a # as)"
  define g where "g = f(n := f ?p, ?p := Some n)"
  have "chain g a (as @ n # bs)" unfolding g_def by (rule Cons.IH) (use Cons.prems in auto)
  moreover have "x \<noteq> ?p" "x \<noteq> n" using Cons.prems by auto
  ultimately have g: "chain g x ((a # as) @ n # bs)" using Cons.prems(1) by (simp add: g_def)
  have "last (x # a # as) = ?p" by simp
  then show ?case using g by (simp only: g_def)
qed

subsection \<open>The invariant\<close>

abbreviation snKey :: "'k skiplist \<Rightarrow> nat \<Rightarrow> 'k" where
  "snKey l x \<equiv> sn_key (sl_nodes l ! x)"

definition snHeight :: "'k skiplist \<Rightarrow> nat \<Rightarrow> nat" where
  "snHeight l x = length (sn_next (sl_nodes l ! x))"

abbreviation onLevel :: "'k skiplist \<Rightarrow> nat \<Rightarrow> nat list \<Rightarrow> nat list" where
  "onLevel l i \<equiv> filter (\<lambda>y. i < snHeight l y)"

text \<open>The nodes of the list in their order, all of them but the head.\<close>

definition sl_wf :: "('k \<Rightarrow> 'k \<Rightarrow> int) \<Rightarrow> 'k skiplist \<Rightarrow> nat list \<Rightarrow> bool" where
  "sl_wf compare l ys \<longleftrightarrow>
     sl_nodes l \<noteq> [] \<and> snHeight l 0 = kMaxHeight \<and> 0 < sl_max_height l \<and> sl_max_height l \<le> kMaxHeight \<and>
     distinct ys \<and> set ys \<subseteq> {0<..<length (sl_nodes l)} \<and>
     (\<forall>y \<in> set ys. 0 < snHeight l y \<and> snHeight l y \<le> sl_max_height l) \<and>
     sorted_wrt (\<lambda>a b. compare (snKey l a) (snKey l b) < 0) ys \<and>
     (\<forall>i < kMaxHeight. chain (snNext l i) 0 (onLevel l i ys))"

definition sl_holds :: "('k \<Rightarrow> 'k \<Rightarrow> int) \<Rightarrow> 'k skiplist \<Rightarrow> 'k list \<Rightarrow> bool" where
  "sl_holds compare l ks \<longleftrightarrow> (\<exists>ys. sl_wf compare l ys \<and> ks = map (snKey l) ys)"

lemma newSkipList_holds: "sl_holds compare (newSkipList any) []"
  by (auto simp: sl_holds_def sl_wf_def newSkipList_def snHeight_def snNext_def)

lemma onLevel_0: "sl_wf compare l ys \<Longrightarrow> set zs \<subseteq> set ys \<Longrightarrow> onLevel l 0 zs = zs"
  by (auto simp: sl_wf_def filter_id_conv)

lemma sl_wf_chain0: "sl_wf compare l ys \<Longrightarrow> chain (snNext l 0) 0 ys"
  using onLevel_0 [of compare l ys ys] unfolding sl_wf_def by (metis order_refl zero_less_numeral)

lemma sl_wf_node: "sl_wf compare l ys \<Longrightarrow> y \<in> set ys \<Longrightarrow> y \<noteq> 0 \<and> y < length (sl_nodes l)"
  by (auto simp: sl_wf_def)

subsection \<open>The searches end where they should\<close>

text \<open>A condition that holds for the first nodes of the list, up to some place.\<close>

definition splits :: "(nat option \<Rightarrow> bool) \<Rightarrow> nat list \<Rightarrow> nat list \<Rightarrow> bool" where
  "splits go lt ge \<longleftrightarrow> \<not> go None \<and> (\<forall>y \<in> set lt. go (Some y)) \<and> (\<forall>y \<in> set ge. \<not> go (Some y))"

lemma splits_first: "splits go lt ge \<Longrightarrow> \<not> go (first (filter P ge))"
  by (cases "filter P ge") (simp add: splits_def, metis filter_is_subset first_simps(2) list.set_intros(1) splits_def subsetD)

lemma level_down:
  assumes "\<And>y. P y \<Longrightarrow> Q y"
  shows "\<exists>as bs. filter Q lt = as @ bs \<and> last (0 # as) = last (0 # filter P lt)"
proof (cases "filter P lt = []")
  case True
  then show ?thesis by fastforce
next
  case False
  then have "last (filter P lt) \<in> set (filter Q lt)" using assms last_in_set [OF False] by auto
  then obtain as bs where "filter Q lt = (as @ [last (filter P lt)]) @ bs" by (metis append.assoc append_Cons append_Nil split_list)
  then show ?thesis using False by (metis last.simps last_snoc snoc_eq_iff_butlast)
qed

lemma searchLoop_finds:
  assumes "sl_wf compare l (lt @ ge)" "splits go lt ge"
  shows "level < kMaxHeight \<Longrightarrow> onLevel l level lt = as @ bs \<Longrightarrow> x = last (0 # as) \<Longrightarrow>
    \<exists>prev'. searchLoop l go x level prev = Some (last (0 # lt), first ge, prev') \<and> length prev' = length prev \<and>
            (\<forall>j < length prev. prev' ! j = (if j \<le> level then last (0 # onLevel l j lt) else prev ! j))"
proof (induction level arbitrary: x as bs prev rule: less_induct)
  case (less level)
  show ?case
    using less.prems
  proof (induction bs arbitrary: x as)
    case (Cons b bs)
    have "chain (snNext l level) 0 (as @ b # bs @ onLevel l level ge)"
      using assms(1) Cons.prems(1,2) by (auto simp: sl_wf_def)
    then have n: "snNext l level x = Some b" using chain_at [of "snNext l level" 0 as] Cons.prems(3) by simp
    have "b \<in> set (onLevel l level lt)" using Cons.prems(2) by simp
    then have "go (Some b)" using assms(2) by (auto simp: splits_def)
    then have "searchLoop l go x level prev = searchLoop l go b level prev"
      using n by (simp add: searchLoop.simps [of l go x])
    then show ?case using Cons.IH [of "as @ [b]" b] Cons.prems by simp
  next
    case Nil
    have "chain (snNext l level) 0 (as @ onLevel l level ge)"
      using assms(1) Nil.prems(1,2) by (auto simp: sl_wf_def)
    then have n: "snNext l level x = first (onLevel l level ge)" using chain_at [of "snNext l level" 0 as] Nil.prems(3) by simp
    have x: "x = last (0 # onLevel l level lt)" using Nil.prems(2,3) by simp
    have go: "\<not> go (snNext l level x)" unfolding n by (rule splits_first [OF assms(2)])
    show ?case
    proof (cases "level = 0")
      case True
      then have "onLevel l level lt = lt" "onLevel l level ge = ge" using onLevel_0 [OF assms(1)] by auto
      moreover have "searchLoop l go x level prev = Some (x, snNext l level x, prev[level := x])"
        using go True by (simp add: searchLoop.simps [of l go x])
      ultimately show ?thesis
        using n x True by (intro exI [of _ "prev[level := x]"]) (auto simp: nth_list_update)
    next
      case False
      have "\<exists>as' bs'. onLevel l (level - 1) lt = as' @ bs' \<and> last (0 # as') = last (0 # onLevel l level lt)"
        by (rule level_down) simp
      then obtain as' bs' where x': "onLevel l (level - 1) lt = as' @ bs'" "x = last (0 # as')" using x by metis
      have "level - 1 < level" "level - 1 < kMaxHeight" using False Nil.prems(1) by simp_all
      note less.IH [OF this x', of "prev[level := x]"]
      then obtain prev' where "searchLoop l go x (level - 1) (prev[level := x]) = Some (last (0 # lt), first ge, prev')"
        "length prev' = length prev"
        "\<forall>j < length prev. prev' ! j = (if j \<le> level - 1 then last (0 # onLevel l j lt) else prev[level := x] ! j)"
        by auto
      moreover have "searchLoop l go x level prev = searchLoop l go x (level - 1) (prev[level := x])"
        using go False by (simp add: searchLoop.simps [of l go x level])
      ultimately show ?thesis using x False by (intro exI [of _ prev']) (auto simp: nth_list_update)
    qed
  qed
qed

lemma search_all:
  assumes "sl_wf compare l (lt @ ge)" "splits go lt ge"
  shows "\<exists>prev'. searchLoop l go 0 (sl_max_height l - 1) prev = Some (last (0 # lt), first ge, prev') \<and>
      length prev' = length prev \<and>
      (\<forall>j < length prev. prev' ! j = (if j < sl_max_height l then last (0 # onLevel l j lt) else prev ! j))"
proof -
  obtain m where m: "sl_max_height l = Suc m" "m < kMaxHeight"
    using assms(1) by (metis Suc_le_lessD Suc_pred' sl_wf_def)
  show ?thesis
    unfolding m(1) diff_Suc_1 less_Suc_eq_le
    by (rule searchLoop_finds [OF assms, of m "[]" "onLevel l m lt"]) (simp_all add: m(2))
qed

subsection \<open>Linking a node\<close>

lemma heightLoop_range: "0 < h \<Longrightarrow> h \<le> kMaxHeight \<Longrightarrow> 0 < fst (heightLoop h r) \<and> fst (heightLoop h r) \<le> kMaxHeight"
proof (induction h r rule: heightLoop.induct)
  case (1 h r)
  then show ?case by (simp add: heightLoop.simps [of h r] Let_def)
qed

lemma snSetNext_node:
  "sl_nodes (snSetNext x n v l) ! y =
     (if y = x \<and> x < length (sl_nodes l) then (sl_nodes l ! x)\<lparr>sn_next := (sn_next (sl_nodes l ! x))[n := v]\<rparr>
      else sl_nodes l ! y)"
  by (cases "x < length (sl_nodes l)") (auto simp: snSetNext_def nth_list_update list_update_beyond)

lemma snSetNext_same [simp]:
  "length (sl_nodes (snSetNext x n v l)) = length (sl_nodes l)" "sl_max_height (snSetNext x n v l) = sl_max_height l"
  "snHeight (snSetNext x n v l) y = snHeight l y" "snKey (snSetNext x n v l) y = snKey l y"
  unfolding snHeight_def snSetNext_node by (simp_all add: snSetNext_def)

lemma linkLevel_same [simp]:
  "length (sl_nodes (linkLevel x prev l i)) = length (sl_nodes l)" "sl_max_height (linkLevel x prev l i) = sl_max_height l"
  "snHeight (linkLevel x prev l i) y = snHeight l y" "snKey (linkLevel x prev l i) y = snKey l y"
  by (simp_all add: linkLevel_def)

lemma snNext_set:
  assumes "x < length (sl_nodes l)" "n < snHeight l x"
  shows "snNext (snSetNext x n v l) m y = (if y = x \<and> m = n then v else snNext l m y)"
  using assms by (auto simp: snSetNext_node snNext_def snHeight_def)

lemma link_levels:
  assumes "x < length (sl_nodes l)" "h \<le> snHeight l x"
    "\<forall>i < h. prev ! i < length (sl_nodes l) \<and> i < snHeight l (prev ! i) \<and> prev ! i \<noteq> x"
  defines "l' \<equiv> foldl (linkLevel x prev) l [0..<h]"
  shows "length (sl_nodes l') = length (sl_nodes l)" "sl_max_height l' = sl_max_height l"
    "snHeight l' y = snHeight l y" "snKey l' y = snKey l y"
    "snNext l' j = (if j < h then (snNext l j)(x := snNext l j (prev ! j), prev ! j := Some x) else snNext l j)"
proof -
  have "length (sl_nodes l') = length (sl_nodes l) \<and> sl_max_height l' = sl_max_height l \<and>
      (\<forall>y. snHeight l' y = snHeight l y) \<and> (\<forall>y. snKey l' y = snKey l y) \<and>
      (\<forall>j. snNext l' j = (if j < h then (snNext l j)(x := snNext l j (prev ! j), prev ! j := Some x) else snNext l j))"
    using assms(2,3) unfolding l'_def
  proof (induction h)
    case (Suc h)
    let ?l = "foldl (linkLevel x prev) l [0..<h]"
    have IH: "length (sl_nodes ?l) = length (sl_nodes l)" "sl_max_height ?l = sl_max_height l"
      "\<And>y. snHeight ?l y = snHeight l y" "\<And>y. snKey ?l y = snKey l y"
      "\<And>j. snNext ?l j = (if j < h then (snNext l j)(x := snNext l j (prev ! j), prev ! j := Some x) else snNext l j)"
      using Suc by auto
    have "snNext (linkLevel x prev ?l h) j y =
        (if y = prev ! h \<and> j = h then Some x else if y = x \<and> j = h then snNext ?l h (prev ! h) else snNext ?l j y)" for j y
      using Suc.prems assms(1) by (simp add: linkLevel_def snNext_set IH(1,3))
    then have n: "snNext (linkLevel x prev ?l h) j =
        (if j < Suc h then (snNext l j)(x := snNext l j (prev ! j), prev ! j := Some x) else snNext l j)" for j
      using Suc.prems IH(5) by (cases j h rule: linorder_cases) (auto simp: fun_eq_iff)
    have e: "foldl (linkLevel x prev) l [0..<Suc h] = linkLevel x prev ?l h" by simp
    show ?case unfolding e using IH(1-4) n by simp
  qed simp
  then show "length (sl_nodes l') = length (sl_nodes l)" "sl_max_height l' = sl_max_height l"
    "snHeight l' y = snHeight l y" "snKey l' y = snKey l y"
    "snNext l' j = (if j < h then (snNext l j)(x := snNext l j (prev ! j), prev ! j := Some x) else snNext l j)" by auto
qed

lemma head_prev: "(foldl (\<lambda>p i. p[i := 0]) prev [m..<h]) ! j = (if m \<le> j \<and> j < h \<and> j < length prev then 0 else prev ! j)"
proof (induction h)
  case (Suc h)
  have "length (foldl (\<lambda>p i. p[i := 0]) prev is) = length prev" for "is" :: "nat list"
    by (induction "is" rule: rev_induct) auto
  then show ?case using Suc by (cases "h < length prev") (auto simp: nth_list_update less_Suc_eq list_update_beyond not_less)
qed simp

context ordering
begin

text \<open>The place of a key among the nodes.\<close>

definition lower :: "'k skiplist \<Rightarrow> 'k \<Rightarrow> nat list \<Rightarrow> nat list" where
  "lower l k = takeWhile (\<lambda>y. compare (snKey l y) k < 0)"

definition upper :: "'k skiplist \<Rightarrow> 'k \<Rightarrow> nat list \<Rightarrow> nat list" where
  "upper l k = dropWhile (\<lambda>y. compare (snKey l y) k < 0)"

lemma lower_upper: "lower l k ys @ upper l k ys = ys"
  by (simp add: lower_def upper_def)

lemma lower_less: "y \<in> set (lower l k ys) \<Longrightarrow> compare (snKey l y) k < 0"
  by (auto simp: lower_def dest: set_takeWhileD)

lemma upper_ge:
  assumes "sl_wf compare l ys" "y \<in> set (upper l k ys)"
  shows "\<not> compare (snKey l y) k < 0"
proof -
  obtain z zs where u: "upper l k ys = z # zs" using assms(2) by (cases "upper l k ys") auto
  then have z: "\<not> compare (snKey l z) k < 0" unfolding upper_def by (metis dropWhile_eq_Cons_conv)
  have "sorted_wrt (\<lambda>a b. compare (snKey l a) (snKey l b) < 0) (lower l k ys @ z # zs)"
    using assms(1) u by (metis lower_upper sl_wf_def)
  then have "compare (snKey l z) (snKey l y) < 0 \<or> y = z" using assms(2) u by (auto simp: sorted_wrt_append)
  then show ?thesis using z less_trans [of "snKey l z" "snKey l y" k] by fastforce
qed

lemma splits_lower:
  assumes "sl_wf compare l ys"
  shows "splits (KeyIsAfterNode compare l k) (lower l k ys) (upper l k ys)"
    "splits (\<lambda>n. case n of None \<Rightarrow> False | Some y \<Rightarrow> \<not> compare (snKey l y) k \<ge> 0) (lower l k ys) (upper l k ys)"
  using upper_ge [OF assms, of _ k] by (fastforce simp: splits_def KeyIsAfterNode_def not_less dest: lower_less)+

lemma FindGreaterOrEqual_finds:
  assumes "sl_wf compare l ys"
  shows "\<exists>prev'. FindGreaterOrEqual compare k prev l = Some (first (upper l k ys), prev') \<and> length prev' = length prev \<and>
      (\<forall>j < length prev. prev' ! j = (if j < sl_max_height l then last (0 # onLevel l j (lower l k ys)) else prev ! j))"
proof -
  have "sl_wf compare l (lower l k ys @ upper l k ys)" using assms by (simp only: lower_upper)
  from search_all [OF this splits_lower(1) [OF assms], of prev] show ?thesis by (auto simp: FindGreaterOrEqual_def)
qed

lemma FindLessThan_finds:
  assumes "sl_wf compare l ys" shows "FindLessThan compare k l = Some (last (0 # lower l k ys))"
proof -
  have "sl_wf compare l (lower l k ys @ upper l k ys)" using assms by (simp only: lower_upper)
  from search_all [OF this splits_lower(2) [OF assms], of "[]"] show ?thesis by (auto simp: FindLessThan_def)
qed

lemma FindLast_finds:
  assumes "sl_wf compare l ys" shows "FindLast l = Some (last (0 # ys))"
proof -
  have "splits (\<lambda>n. n \<noteq> None) ys []" by (simp add: splits_def)
  with search_all [of compare l ys "[]" "\<lambda>n. n \<noteq> None" "[]"] assms show ?thesis by (auto simp: FindLast_def)
qed

lemma sl_Contains_iff:
  assumes "sl_wf compare l ys"
  shows "sl_Contains compare k l = Some (\<exists>y \<in> set ys. compare k (snKey l y) = 0)"
proof -
  obtain prev' where f: "FindGreaterOrEqual compare k [] l = Some (first (upper l k ys), prev')"
    using FindGreaterOrEqual_finds [OF assms, of k "[]"] by auto
  have "compare k (snKey l y) = 0 \<longrightarrow> y \<notin> set (lower l k ys)" for y
    using lower_less [of y l k ys] eq_iff [of k "snKey l y"] by auto
  moreover have "compare k (snKey l y) \<noteq> 0" if "upper l k ys = z # zs" "y \<in> set zs" "compare k (snKey l z) \<noteq> 0" for y z zs
  proof -
    have "sorted_wrt (\<lambda>a b. compare (snKey l a) (snKey l b) < 0) (lower l k ys @ z # zs)"
      using assms that(1) by (metis lower_upper sl_wf_def)
    then have "compare (snKey l z) (snKey l y) < 0" using that(2) by (auto simp: sorted_wrt_append)
    moreover have "compare k (snKey l z) \<le> 0"
      using upper_ge [OF assms, of z k] that(1) le_iff [of k "snKey l z"] by simp
    ultimately show ?thesis using le_less_trans [of k "snKey l z" "snKey l y"] by simp
  qed
  moreover have "set ys = set (lower l k ys) \<union> set (upper l k ys)" by (metis lower_upper set_append)
  ultimately show ?thesis
    by (cases "upper l k ys") (auto simp: sl_Contains_def f)
qed

subsection \<open>Insertion\<close>

lemma sl_Insert_wf:
  assumes wf: "sl_wf compare l ys" and new: "\<forall>y \<in> set ys. compare (snKey l y) k \<noteq> 0"
  shows "\<exists>l'. sl_Insert compare k l = Some l' \<and> snKey l' (length (sl_nodes l)) = k \<and>
      (\<forall>y < length (sl_nodes l). snKey l' y = snKey l y) \<and>
      sl_wf compare l' (lower l k ys @ length (sl_nodes l) # upper l k ys)"
proof -
  let ?n = "length (sl_nodes l)" and ?lt = "lower l k ys" and ?ge = "upper l k ys"
  obtain h r where hr: "heightLoop (Suc 0) (sl_rnd l) = (h, r)" by (meson surj_pair)
  then have h: "0 < h" "h \<le> kMaxHeight" using heightLoop_range [of "Suc 0" "sl_rnd l"] by simp_all
  obtain prev where prev: "FindGreaterOrEqual compare k (replicate kMaxHeight ?n) l = Some (first ?ge, prev)"
    "length prev = kMaxHeight" "\<And>j. j < kMaxHeight \<Longrightarrow> j < sl_max_height l \<Longrightarrow> prev ! j = last (0 # onLevel l j ?lt)"
    using FindGreaterOrEqual_finds [OF wf, of k "replicate kMaxHeight ?n"] by auto
  have wf': "?n \<noteq> 0" "snHeight l 0 = kMaxHeight" "sl_max_height l \<le> kMaxHeight" "distinct (?lt @ ?ge)"
    "\<And>y. y \<in> set (?lt @ ?ge) \<Longrightarrow> 0 < y \<and> y < ?n \<and> 0 < snHeight l y \<and> snHeight l y \<le> sl_max_height l"
    "\<And>i. i < kMaxHeight \<Longrightarrow> chain (snNext l i) 0 (onLevel l i (?lt @ ?ge))"
    using wf unfolding lower_upper by (auto simp: sl_wf_def)
  define max where "max = (if h > sl_max_height l then h else sl_max_height l)"
  define l3 where "l3 = \<lparr>sl_nodes = sl_nodes l @ [\<lparr>sn_key = k, sn_next = replicate h None\<rparr>],
      sl_max_height = max, sl_rnd = r\<rparr>"
  define p where "p = (if h > sl_max_height l then foldl (\<lambda>p i. p[i := 0]) prev [sl_max_height l..<h] else prev)"
  have ins: "sl_Insert compare k l = Some (foldl (linkLevel ?n p) l3 [0..<h])"
    by (cases l) (use prev(1) hr in \<open>simp add: sl_Insert_def RandomHeight_def NewNode_def l3_def p_def max_def\<close>)
  have l3: "length (sl_nodes l3) = Suc ?n" "sl_max_height l3 = max" "snHeight l3 ?n = h" "snKey l3 ?n = k"
    "\<And>y. y < ?n \<Longrightarrow> snHeight l3 y = snHeight l y" "\<And>y. y < ?n \<Longrightarrow> snKey l3 y = snKey l y"
    "\<And>i y. y < ?n \<Longrightarrow> snNext l3 i y = snNext l i y"
    by (simp_all add: l3_def snHeight_def snNext_def nth_append)
  have p: "p ! j = last (0 # onLevel l j ?lt)" if "j < h" for j
  proof (cases "j < sl_max_height l")
    case True
    then show ?thesis using prev(2,3) that h(2) by (simp add: p_def head_prev)
  next
    case False
    have "\<not> j < snHeight l y" if "y \<in> set ?lt" for y
    proof -
      have "y \<in> set (?lt @ ?ge)" using that by simp
      then show ?thesis using wf'(5) [of y] False by linarith
    qed
    then have "onLevel l j ?lt = []" by (simp add: filter_empty_conv)
    then show ?thesis using prev(2) that h(2) False by (simp add: p_def head_prev)
  qed
  have pnode: "p ! j < ?n \<and> j < snHeight l (p ! j)" if j: "j < h" for j
  proof (cases "onLevel l j ?lt = []")
    case True
    then show ?thesis using p [OF j] wf'(1,2) j h(2) by simp
  next
    case False
    then have "p ! j \<in> set (onLevel l j ?lt)" using p [OF j] last_in_set [OF False] by (metis last_ConsR)
    then show ?thesis using wf'(5) by auto
  qed
  define l' where "l' = foldl (linkLevel ?n p) l3 [0..<h]"
  have a: "?n < length (sl_nodes l3)" "h \<le> snHeight l3 ?n" by (simp_all add: l3)
  have "\<forall>i < h. p ! i < length (sl_nodes l3) \<and> i < snHeight l3 (p ! i) \<and> p ! i \<noteq> ?n"
    using pnode l3(1,5) by fastforce
  note L = link_levels [OF a this, folded l'_def]
  have keys: "snKey l' ?n = k" "\<And>y. y < ?n \<Longrightarrow> snKey l' y = snKey l y" using L(4) l3 by simp_all
  have heights: "snHeight l' ?n = h" "\<And>y. y < ?n \<Longrightarrow> snHeight l' y = snHeight l y" using L(3) l3 by simp_all
  have level: "onLevel l' i zs = onLevel l i zs" if "set zs \<subseteq> set (?lt @ ?ge)" for i zs
    using that wf'(5) heights(2) by (intro filter_cong) auto
  have fresh: "?n \<notin> set (?lt @ ?ge)" using wf'(5) by blast
  have "sorted_wrt (\<lambda>a b. compare (snKey l a) (snKey l b) < 0) (?lt @ ?ge)"
    using wf unfolding lower_upper by (simp add: sl_wf_def)
  then have "sorted_wrt (\<lambda>a b. compare (snKey l' a) (snKey l' b) < 0) (?lt @ ?ge)"
    by (rule sorted_wrt_mono_rel [rotated]) (use wf'(5) keys(2) in simp)
  moreover have "compare k (snKey l' y) < 0" if "y \<in> set ?ge" for y
    using upper_ge [OF wf that] new that anti [of k "snKey l y"] keys(2) wf'(5)
    by (metis UnCI linorder_less_linear lower_upper set_append)
  moreover have "compare (snKey l' y) k < 0" if "y \<in> set ?lt" for y
    using lower_less [OF that] that keys(2) wf'(5) by simp
  ultimately have sorted: "sorted_wrt (\<lambda>a b. compare (snKey l' a) (snKey l' b) < 0) (?lt @ ?n # ?ge)"
    by (auto simp: sorted_wrt_append keys(1))
  have chains: "chain (snNext l' i) 0 (onLevel l' i (?lt @ ?n # ?ge))" if i: "i < kMaxHeight" for i
  proof -
    let ?as = "onLevel l i ?lt" and ?bs = "onLevel l i ?ge"
    have "chain (snNext l3 i) 0 (?as @ ?bs) = chain (snNext l i) 0 (?as @ ?bs)"
      using wf'(1,5) l3(7) by (intro chain_cong) auto
    then have c: "chain (snNext l3 i) 0 (?as @ ?bs)" using wf'(6) [OF i] by simp
    have e: "onLevel l' i (?lt @ ?n # ?ge) = ?as @ (if i < h then [?n] else []) @ ?bs"
      using level [of ?lt i] level [of ?ge i] heights(1) by simp
    show ?thesis
    proof (cases "i < h")
      case True
      have "?n \<notin> set (0 # ?as @ ?bs)" "distinct (0 # ?as @ ?bs)" using fresh wf'(1,4,5) by auto
      from chain_link [OF c this] show ?thesis using True L(5) [of i] p [OF True] e by simp
    next
      case False
      then show ?thesis using c e L(5) [of i] by simp
    qed
  qed
  have "\<forall>y \<in> set (?lt @ ?n # ?ge). 0 < snHeight l' y \<and> snHeight l' y \<le> max"
    using h(1) heights wf'(5) unfolding max_def by fastforce
  moreover have "set (?lt @ ?ge) \<subseteq> {0<..<?n}" using wf'(5) by auto
  then have "distinct (?lt @ ?n # ?ge)" "set (?lt @ ?n # ?ge) \<subseteq> {0<..<length (sl_nodes l')}"
    "snHeight l' 0 = kMaxHeight" "sl_nodes l' \<noteq> []" "0 < max" "max \<le> kMaxHeight"
    using fresh wf'(1-4) L(1) l3(1) heights(2) [of 0] h by (auto simp: max_def)
  ultimately have "sl_wf compare l' (?lt @ ?n # ?ge)"
    using sorted chains L(2) l3(2) unfolding sl_wf_def by simp
  then show ?thesis using ins keys unfolding l'_def by auto
qed

text \<open>The keys of the list with one more.\<close>

definition insertAt :: "'k \<Rightarrow> 'k list \<Rightarrow> 'k list" where
  "insertAt k ks = takeWhile (\<lambda>x. compare x k < 0) ks @ k # dropWhile (\<lambda>x. compare x k < 0) ks"

lemma lower_keys: "map (snKey l) (lower l k ys) = takeWhile (\<lambda>x. compare x k < 0) (map (snKey l) ys)"
  by (simp add: lower_def takeWhile_map comp_def)

lemma upper_keys: "map (snKey l) (upper l k ys) = dropWhile (\<lambda>x. compare x k < 0) (map (snKey l) ys)"
  by (simp add: upper_def dropWhile_map comp_def)

lemma upper_drop: "upper l k ys = drop (length (takeWhile (\<lambda>x. compare x k < 0) (map (snKey l) ys))) ys"
  by (simp add: upper_def takeWhile_map comp_def dropWhile_eq_drop)

lemma sl_Insert_holds:
  assumes "sl_holds compare l ks" "\<forall>x \<in> set ks. compare x k \<noteq> 0"
  shows "\<exists>l'. sl_Insert compare k l = Some l' \<and> sl_holds compare l' (insertAt k ks)"
proof -
  obtain ys where ys: "sl_wf compare l ys" "ks = map (snKey l) ys" using assms(1) by (auto simp: sl_holds_def)
  then have "\<forall>y \<in> set ys. compare (snKey l y) k \<noteq> 0" using assms(2) by simp
  then obtain l' where l': "sl_Insert compare k l = Some l'" "snKey l' (length (sl_nodes l)) = k"
    "\<forall>y < length (sl_nodes l). snKey l' y = snKey l y"
    "sl_wf compare l' (lower l k ys @ length (sl_nodes l) # upper l k ys)"
    using sl_Insert_wf [OF ys(1)] by blast
  have "\<forall>y \<in> set (lower l k ys) \<union> set (upper l k ys). y < length (sl_nodes l)"
    using ys(1) unfolding sl_wf_def by (metis (no_types, lifting) greaterThanLessThan_iff lower_upper set_append subsetD)
  then have "map (snKey l') (lower l k ys) = map (snKey l) (lower l k ys)"
    "map (snKey l') (upper l k ys) = map (snKey l) (upper l k ys)" using l'(3) by auto
  then have "insertAt k ks = map (snKey l') (lower l k ys @ length (sl_nodes l) # upper l k ys)"
    using l'(2) by (simp add: insertAt_def ys(2) lower_keys upper_keys)
  then show ?thesis using l'(1,4) unfolding sl_holds_def by blast
qed

subsection \<open>The iterator\<close>

lemma sli_SeekToFirst_wf: "sl_wf compare l ys \<Longrightarrow> sli_SeekToFirst l = first ys"
  using chain_at [of "snNext l 0" 0 "[]" ys] by (simp add: sl_wf_chain0 sli_SeekToFirst_def)

lemma sli_Next_wf:
  assumes "sl_wf compare l ys" "i < length ys"
  shows "sli_Next l (ys ! i) = first (drop (Suc i) ys)"
proof -
  have c: "chain (snNext l 0) 0 (take (Suc i) ys @ drop (Suc i) ys)"
    using sl_wf_chain0 [OF assms(1)] by simp
  have "last (0 # take (Suc i) ys) = ys ! i" using assms(2) by (simp add: take_Suc_conv_app_nth)
  then show ?thesis using chain_at [OF c] by (simp add: sli_Next_def)
qed

lemma sli_Seek_wf: "sl_wf compare l ys \<Longrightarrow> sli_Seek compare l t = Some (first (upper l t ys))"
  using FindGreaterOrEqual_finds [of l ys t "[]"] by (auto simp: sli_Seek_def)

lemma lower_nth:
  assumes "sl_wf compare l ys" "i < length ys"
  shows "lower l (snKey l (ys ! i)) ys = take i ys"
proof -
  have s: "sorted_wrt (\<lambda>a b. compare (snKey l a) (snKey l b) < 0) ys" using assms(1) by (simp add: sl_wf_def)
  have "lower l (snKey l (ys ! i)) (take i ys @ ys ! i # drop (Suc i) ys) = take i ys"
    unfolding lower_def using s assms(2) by (subst takeWhile_append2) (auto simp: in_set_conv_nth sorted_wrt_iff_nth_less)
  then show ?thesis using assms(2) by (simp flip: id_take_nth_drop)
qed

lemma sli_Prev_wf:
  assumes "sl_wf compare l ys" "i < length ys"
  shows "sli_Prev compare l (ys ! i) = Some (if i = 0 then None else Some (ys ! (i - 1)))"
proof -
  have "ys ! (i - 1) \<noteq> 0"
    using sl_wf_node [OF assms(1), of "ys ! (i - 1)"] assms(2) by simp
  moreover have "last (0 # take i ys) = (if i = 0 then 0 else ys ! (i - 1))"
    using assms(2) by (cases i) (simp_all add: take_Suc_conv_app_nth)
  ultimately show ?thesis by (simp add: sli_Prev_def FindLessThan_finds [OF assms(1)] lower_nth [OF assms])
qed

lemma sli_SeekToLast_wf:
  assumes "sl_wf compare l ys" shows "sli_SeekToLast l = Some (if ys = [] then None else Some (last ys))"
proof -
  have "ys \<noteq> [] \<Longrightarrow> last ys \<noteq> 0" using sl_wf_node [OF assms last_in_set] by simp
  then show ?thesis by (cases "ys = []") (simp_all add: sli_SeekToLast_def FindLast_finds [OF assms])
qed

end

interpretation bytewise_keys: ordering slice_compare
  using bytewise.ordering_axioms by (simp add: BytewiseComparator_def)

interpretation internal_keys: ordering "internal_Compare BytewiseComparator"
  by (rule bytewise.internal_ordering)

end
