(* ===== verification/LdbMemTable.thy ===== *)
theory LdbMemTable
  imports LdbSkipListLaws
begin

text \<open>
  leveldb/db/memtable.cc with the lookup keys of dbformat: the entries of a memtable are
  byte strings in a skip list, ordered by the internal keys at their start. The comparator of
  the user is an argument of each operation. The laws show what a memtable holds: its entries
  in the order of their keys, newest first.
\<close>

subsection \<open>Keys of a memtable\<close>

definition memSlice :: "bytes \<Rightarrow> bytes" where
  "memSlice dat = (case GetVarint32Ptr dat of None \<Rightarrow> [] | Some (len, p) \<Rightarrow> take (unat len) p)"

text \<open>What is behind such a slice.\<close>

definition memRest :: "bytes \<Rightarrow> bytes" where
  "memRest dat = (case GetVarint32Ptr dat of None \<Rightarrow> [] | Some (len, p) \<Rightarrow> drop (unat len) p)"

definition memCompare :: "comparator \<Rightarrow> bytes \<Rightarrow> bytes \<Rightarrow> int" where
  "memCompare C aptr bptr = internal_Compare C (memSlice aptr) (memSlice bptr)"

record lookupkey =
  lk_start :: bytes
  lk_kstart :: nat

definition LookupKey :: "bytes \<Rightarrow> 64 word \<Rightarrow> lookupkey" where
  "LookupKey user_key s =
     (let len = EncodeVarint32 (of_nat (length user_key + 8))
      in \<lparr>lk_start = len @ user_key @ EncodeFixed64 (PackSequenceAndType s kValueTypeForSeek), lk_kstart = length len\<rparr>)"

definition lk_memtable_key :: "lookupkey \<Rightarrow> bytes" where
  "lk_memtable_key k = lk_start k"

definition lk_internal_key :: "lookupkey \<Rightarrow> bytes" where
  "lk_internal_key k = drop (lk_kstart k) (lk_start k)"

definition lk_user_key :: "lookupkey \<Rightarrow> bytes" where
  "lk_user_key k = take (length (lk_start k) - lk_kstart k - 8) (drop (lk_kstart k) (lk_start k))"

subsection \<open>The operations\<close>

type_synonym memtable = "bytes skiplist"

definition newMemTable :: memtable where
  "newMemTable = newSkipList []"

definition memEntry :: "64 word \<Rightarrow> ValueType \<Rightarrow> bytes \<Rightarrow> bytes \<Rightarrow> bytes" where
  "memEntry s type key val =
     EncodeVarint32 (of_nat (length key + 8)) @ key @ EncodeFixed64 (push_bit 8 s OR vtCode type) @
       EncodeVarint32 (of_nat (length val)) @ val"

definition mem_Add :: "comparator \<Rightarrow> 64 word \<Rightarrow> ValueType \<Rightarrow> bytes \<Rightarrow> bytes \<Rightarrow> memtable \<Rightarrow> memtable option" where
  "mem_Add C s type key val mem = sl_Insert (memCompare C) (memEntry s type key val) mem"

datatype memresult = memFound bytes | memDeleted | memAbsent

definition mem_Get :: "comparator \<Rightarrow> lookupkey \<Rightarrow> memtable \<Rightarrow> memresult option" where
  "mem_Get C key mem =
     map_option
       (\<lambda>pos. case pos of
          None \<Rightarrow> memAbsent
        | Some n \<Rightarrow>
            (let entry = sli_key mem n
             in case GetVarint32Ptr entry of
                  None \<Rightarrow> memAbsent
                | Some (key_length, key_ptr) \<Rightarrow>
                    if cmp_Compare C (take (unat (key_length - 8)) key_ptr) (lk_user_key key) = 0 then
                      (let tag = DecodeFixed64 (drop (unat key_length - 8) key_ptr)
                       in if tag AND 0xff = vtCode kTypeValue then memFound (memSlice (drop (unat key_length) key_ptr))
                          else if tag AND 0xff = vtCode kTypeDeletion then memDeleted else memAbsent)
                    else memAbsent))
       (sli_Seek (memCompare C) mem (lk_memtable_key key))"

subsection \<open>The iterator\<close>

definition EncodeKey :: "bytes \<Rightarrow> bytes" where
  "EncodeKey target = PutVarint32 [] (of_nat (length target)) @ target"

definition mi_Seek :: "comparator \<Rightarrow> memtable \<Rightarrow> bytes \<Rightarrow> nat option option" where
  "mi_Seek C mem k = sli_Seek (memCompare C) mem (EncodeKey k)"

definition mi_SeekToFirst :: "memtable \<Rightarrow> nat option option" where
  "mi_SeekToFirst mem = Some (sli_SeekToFirst mem)"

definition mi_SeekToLast :: "memtable \<Rightarrow> nat option option" where
  "mi_SeekToLast mem = sli_SeekToLast mem"

definition mi_Next :: "memtable \<Rightarrow> nat \<Rightarrow> nat option option" where
  "mi_Next mem n = Some (sli_Next mem n)"

definition mi_Prev :: "comparator \<Rightarrow> memtable \<Rightarrow> nat \<Rightarrow> nat option option" where
  "mi_Prev C mem n = sli_Prev (memCompare C) mem n"

definition mi_key :: "memtable \<Rightarrow> nat \<Rightarrow> bytes" where
  "mi_key mem n = memSlice (sli_key mem n)"

definition mi_value :: "memtable \<Rightarrow> nat \<Rightarrow> bytes" where
  "mi_value mem n = memSlice (memRest (sli_key mem n))"

subsection \<open>Entries\<close>

record entry =
  e_key :: bytes
  e_seq :: "64 word"
  e_type :: ValueType
  e_value :: bytes

definition small :: "entry \<Rightarrow> bool" where
  "small e \<longleftrightarrow> length (e_key e) + 8 < 2 ^ 32 \<and> length (e_value e) < 2 ^ 32 \<and> e_seq e \<le> kMaxSequenceNumber"

definition entryBytes :: "entry \<Rightarrow> bytes" where
  "entryBytes e = memEntry (e_seq e) (e_type e) (e_key e) (e_value e)"

abbreviation entryKey :: "entry \<Rightarrow> bytes" where
  "entryKey e \<equiv> InternalKey (e_key e) (e_seq e) (e_type e)"

lemma memSlice_encoded [simp]:
  assumes "length k < 2 ^ 32"
  shows "memSlice (EncodeVarint32 (of_nat (length k)) @ k @ rest) = k"
    "memRest (EncodeVarint32 (of_nat (length k)) @ k @ rest) = rest"
  using assms by (simp_all add: memSlice_def memRest_def unat_of_nat)

lemma memEntry_key:
  "memEntry s t k v = EncodeVarint32 (of_nat (length (InternalKey k s t))) @ InternalKey k s t @ EncodeVarint32 (of_nat (length v)) @ v"
  by (simp add: memEntry_def InternalKey_bytes PackSequenceAndType_def)

lemma entry_slices [simp]:
  assumes "small e"
  shows "memSlice (entryBytes e) = entryKey e" "memSlice (memRest (entryBytes e)) = e_value e"
proof -
  have "length (entryKey e) < 2 ^ 32" "length (e_value e) < 2 ^ 32" using assms by (simp_all add: small_def)
  then show "memSlice (entryBytes e) = entryKey e" "memSlice (memRest (entryBytes e)) = e_value e"
    using memSlice_encoded(1) [of "e_value e" "[]"] unfolding entryBytes_def memEntry_key by (simp_all del: internal_key_parts)
qed

lemma LookupKey_parts:
  assumes "length k + 8 < 2 ^ 32"
  shows "memSlice (lk_memtable_key (LookupKey k s)) = InternalKey k s kValueTypeForSeek"
    "lk_internal_key (LookupKey k s) = InternalKey k s kValueTypeForSeek" "lk_user_key (LookupKey k s) = k"
proof -
  have "lk_memtable_key (LookupKey k s) =
      EncodeVarint32 (of_nat (length (InternalKey k s kValueTypeForSeek))) @ InternalKey k s kValueTypeForSeek @ []"
    by (simp add: lk_memtable_key_def LookupKey_def Let_def InternalKey_bytes)
  then show "memSlice (lk_memtable_key (LookupKey k s)) = InternalKey k s kValueTypeForSeek"
    using memSlice_encoded(1) [of "InternalKey k s kValueTypeForSeek" "[]"] assms by simp
  show "lk_internal_key (LookupKey k s) = InternalKey k s kValueTypeForSeek" "lk_user_key (LookupKey k s) = k"
    by (simp_all add: lk_internal_key_def lk_user_key_def LookupKey_def Let_def InternalKey_bytes)
qed

lemma entry_pointers:
  assumes "small e"
  obtains len p where "GetVarint32Ptr (entryBytes e) = Some (len, p)" "unat len = length (e_key e) + 8"
    "unat (len - 8) = length (e_key e)" "take (length (e_key e)) p = e_key e"
    "DecodeFixed64 (drop (length (e_key e)) p) = PackSequenceAndType (e_seq e) (e_type e)"
    "memSlice (drop (length (e_key e) + 8) p) = e_value e"
proof -
  let ?len = "of_nat (length (e_key e) + 8) :: 32 word" and ?v = "EncodeVarint32 (of_nat (length (e_value e))) @ e_value e"
  let ?p = "e_key e @ EncodeFixed64 (PackSequenceAndType (e_seq e) (e_type e)) @ ?v"
  have "unat (of_nat n :: 32 word) = n" if "n < 2 ^ 32" for n using that by (simp add: unat_of_nat)
  then have l: "unat ?len = length (e_key e) + 8" "length (e_value e) < 2 ^ 32"
    using assms unfolding small_def by blast+
  have m: "unat (?len - 8) = length (e_key e)"
    using l(1) by (subst unat_sub) (simp_all add: word_le_nat_alt)
  have g: "GetVarint32Ptr (entryBytes e) = Some (?len, ?p)"
    by (simp add: entryBytes_def memEntry_def PackSequenceAndType_def)
  have "memSlice (drop (length (e_key e) + 8) ?p) = e_value e"
    using memSlice_encoded(1) [OF l(2), of "[]"] by simp
  then show ?thesis by (intro that [OF g l(1) m]) simp_all
qed

subsection \<open>What a memtable holds\<close>

definition mem_holds :: "comparator \<Rightarrow> memtable \<Rightarrow> entry list \<Rightarrow> bool" where
  "mem_holds C mem es \<longleftrightarrow> sl_holds (memCompare C) mem (map entryBytes es) \<and> (\<forall>e \<in> set es. small e)"

text \<open>The entry of a user key that a reader at a sequence number sees: the newest of them.\<close>

definition visible :: "comparator \<Rightarrow> entry list \<Rightarrow> 64 word \<Rightarrow> bytes \<Rightarrow> entry option" where
  "visible C es s k =
     (case filter (\<lambda>e. cmp_Compare C (e_key e) k = 0 \<and> e_seq e \<le> s) es of [] \<Rightarrow> None | e # _ \<Rightarrow> Some e)"

lemma newMemTable_holds: "mem_holds C newMemTable []"
  by (simp add: mem_holds_def newMemTable_def newSkipList_holds)

context comparator_laws
begin

lemma mem_ordering: "ordering (memCompare C)"
proof (rule ordering.intro)
  fix a b c
  show "memCompare C a b < 0 \<longleftrightarrow> 0 < memCompare C b a"
    unfolding memCompare_def by (rule ordering.anti [OF internal_ordering])
  show "memCompare C a b \<le> 0 \<Longrightarrow> memCompare C b c \<le> 0 \<Longrightarrow> memCompare C a c \<le> 0"
    unfolding memCompare_def by (rule ordering.trans [OF internal_ordering])
qed

lemma memCompare_entries:
  "small a \<Longrightarrow> small b \<Longrightarrow> memCompare C (entryBytes a) (entryBytes b) = internal_Compare C (entryKey a) (entryKey b)"
  by (simp add: memCompare_def)

lemma memCompare_seek:
  assumes "small e" "length k + 8 < 2 ^ 32" "s \<le> kMaxSequenceNumber"
  shows "memCompare C (entryBytes e) (lk_memtable_key (LookupKey k s)) < 0 \<longleftrightarrow>
    cmp_Compare C (e_key e) k < 0 \<or> cmp_Compare C (e_key e) k = 0 \<and> s < e_seq e"
  using assms seek_order [OF assms(3), of "e_seq e" "e_key e" "e_type e" k]
  by (simp add: memCompare_def LookupKey_parts small_def)

text \<open>The entries are in the order of their keys.\<close>

lemma mem_holds_sorted:
  assumes "mem_holds C mem es"
  shows "sorted_wrt (\<lambda>a b. internal_Compare C (entryKey a) (entryKey b) < 0) es"
proof -
  obtain ys where ys: "sl_wf (memCompare C) mem ys" "map entryBytes es = map (snKey mem) ys"
    using assms by (auto simp: mem_holds_def sl_holds_def)
  have "sorted_wrt (\<lambda>a b. memCompare C a b < 0) (map (snKey mem) ys)"
    using ys(1) by (simp add: sl_wf_def sorted_wrt_map)
  then have "sorted_wrt (\<lambda>a b. memCompare C (entryBytes a) (entryBytes b) < 0) es"
    unfolding ys(2) [symmetric] by (simp add: sorted_wrt_map)
  then show ?thesis
    by (rule sorted_wrt_mono_rel [rotated]) (use assms in \<open>simp add: mem_holds_def memCompare_entries\<close>)
qed

lemma mem_Add_holds:
  assumes "mem_holds C mem es" "small e" "\<forall>x \<in> set es. e_seq x \<noteq> e_seq e"
  shows "\<exists>mem'. mem_Add C (e_seq e) (e_type e) (e_key e) (e_value e) mem = Some mem' \<and>
    mem_holds C mem' (takeWhile (\<lambda>x. internal_Compare C (entryKey x) (entryKey e) < 0) es @ e #
                      dropWhile (\<lambda>x. internal_Compare C (entryKey x) (entryKey e) < 0) es)"
proof -
  have small: "\<forall>x \<in> set es. small x" using assms(1) by (simp add: mem_holds_def)
  have "\<forall>x \<in> set (map entryBytes es). memCompare C x (entryBytes e) \<noteq> 0"
    using small assms(2,3) internal_sequence_order(2) by (auto simp: memCompare_entries small_def)
  then obtain mem' where mem': "sl_Insert (memCompare C) (entryBytes e) mem = Some mem'"
    "sl_holds (memCompare C) mem' (ordering.insertAt (memCompare C) (entryBytes e) (map entryBytes es))"
    using ordering.sl_Insert_holds [OF mem_ordering] assms(1) by (metis mem_holds_def)
  have "ordering.insertAt (memCompare C) (entryBytes e) (map entryBytes es) =
      map entryBytes (takeWhile (\<lambda>x. internal_Compare C (entryKey x) (entryKey e) < 0) es @ e #
                      dropWhile (\<lambda>x. internal_Compare C (entryKey x) (entryKey e) < 0) es)"
  proof -
    have "memCompare C (entryBytes x) (entryBytes e) = internal_Compare C (entryKey x) (entryKey e)" if "x \<in> set es" for x
      using small that assms(2) by (simp add: memCompare_entries)
    then have "takeWhile (\<lambda>x. memCompare C (entryBytes x) (entryBytes e) < 0) es =
        takeWhile (\<lambda>x. internal_Compare C (entryKey x) (entryKey e) < 0) es"
      "dropWhile (\<lambda>x. memCompare C (entryBytes x) (entryBytes e) < 0) es =
        dropWhile (\<lambda>x. internal_Compare C (entryKey x) (entryKey e) < 0) es"
      by (auto cong: takeWhile_cong dropWhile_cong)
    then show ?thesis
      by (simp add: ordering.insertAt_def [OF mem_ordering] takeWhile_map dropWhile_map comp_def)
  qed
  then show ?thesis
    using mem' small assms(2)
    by (auto simp: mem_Add_def entryBytes_def [symmetric] mem_holds_def dest: set_takeWhileD set_dropWhileD)
qed

subsection \<open>Reading\<close>

lemma visible_split:
  assumes "sorted_wrt (\<lambda>a b. internal_Compare C (entryKey a) (entryKey b) < 0) es"
    and P: "P = (\<lambda>e. cmp_Compare C (e_key e) k < 0 \<or> cmp_Compare C (e_key e) k = 0 \<and> s < e_seq e)"
  shows "visible C es s k =
    (case dropWhile P es of [] \<Rightarrow> None | e # _ \<Rightarrow> if cmp_Compare C (e_key e) k = 0 then Some e else None)"
proof -
  let ?Q = "\<lambda>e. cmp_Compare C (e_key e) k = 0 \<and> e_seq e \<le> s"
  have "\<not> ?Q e" if "e \<in> set (takeWhile P es)" for e using set_takeWhileD [OF that] by (auto simp: P)
  then have "filter ?Q (takeWhile P es) = []" by (simp add: filter_empty_conv)
  then have "filter ?Q (takeWhile P es) @ filter ?Q (dropWhile P es) = filter ?Q (dropWhile P es)" by simp
  then have "filter ?Q es = filter ?Q (dropWhile P es)"
    unfolding filter_append [symmetric] takeWhile_dropWhile_id .
  moreover have "filter ?Q (e # rest) = (if cmp_Compare C (e_key e) k = 0 then e # filter ?Q rest else [])"
    if d: "dropWhile P es = e # rest" for e rest
  proof -
    have e: "\<not> P e" using hd_dropWhile [of P es] d by simp
    have "takeWhile P es @ e # rest = es" unfolding d [symmetric] by (rule takeWhile_dropWhile_id)
    then have "sorted_wrt (\<lambda>a b. internal_Compare C (entryKey a) (entryKey b) < 0) (takeWhile P es @ e # rest)"
      using assms(1) by simp
    then have x: "internal_Compare C (entryKey e) (entryKey x) < 0" if "x \<in> set rest" for x
      using that by (simp add: sorted_wrt_append)
    have x: "cmp_Compare C (e_key e) (e_key x) \<le> 0" if "x \<in> set rest" for x
      using x [OF that] by (auto simp: internal_Compare_def Let_def split: if_splits)
    show ?thesis
    proof (cases "cmp_Compare C (e_key e) k = 0")
      case True
      then have "e_seq e \<le> s" using e by (simp add: P not_less)
      then show ?thesis using True by simp
    next
      case False
      then have k: "cmp_Compare C k (e_key e) < 0" using e anti [of k "e_key e"] by (auto simp: P)
      have "cmp_Compare C (e_key y) k \<noteq> 0" if "y \<in> set rest" for y
        using less_trans [OF k x [OF that]] eq_iff [of "e_key y" k] by simp
      then have "filter ?Q rest = []" by (simp add: filter_empty_conv)
      then show ?thesis using False by simp
    qed
  qed
  ultimately show ?thesis unfolding visible_def by (cases "dropWhile P es") (simp_all del: dropWhile_eq_Nil_conv)
qed

lemma mem_Get_holds:
  assumes "mem_holds C mem es" "length k + 8 < 2 ^ 32" "s \<le> kMaxSequenceNumber"
  shows "mem_Get C (LookupKey k s) mem =
    Some (case visible C es s k of
            None \<Rightarrow> memAbsent
          | Some e \<Rightarrow> (case e_type e of kTypeValue \<Rightarrow> memFound (e_value e) | kTypeDeletion \<Rightarrow> memDeleted))"
proof -
  let ?P = "\<lambda>e. cmp_Compare C (e_key e) k < 0 \<or> cmp_Compare C (e_key e) k = 0 \<and> s < e_seq e"
  let ?t = "lk_memtable_key (LookupKey k s)"
  obtain ys where ys: "sl_wf (memCompare C) mem ys" "map entryBytes es = map (snKey mem) ys"
    and small: "\<forall>e \<in> set es. small e"
    using assms(1) by (auto simp: mem_holds_def sl_holds_def)
  have seek: "sli_Seek (memCompare C) mem ?t = Some (first (ordering.upper (memCompare C) mem ?t ys))"
    by (rule ordering.sli_Seek_wf [OF mem_ordering ys(1)])
  have "dropWhile (\<lambda>e. memCompare C (entryBytes e) ?t < 0) es = dropWhile ?P es"
    using small assms(2,3) by (intro dropWhile_cong) (auto simp: memCompare_seek)
  then have u: "map (snKey mem) (ordering.upper (memCompare C) mem ?t ys) = map entryBytes (dropWhile ?P es)"
    unfolding ordering.upper_keys [OF mem_ordering] ys(2) [symmetric] by (simp add: dropWhile_map comp_def)
  show ?thesis
  proof (cases "dropWhile ?P es")
    case Nil
    then have "visible C es s k = None" "ordering.upper (memCompare C) mem ?t ys = []"
      using u unfolding visible_split [OF mem_holds_sorted [OF assms(1)] HOL.refl] Nil by simp_all
    then show ?thesis using seek by (simp add: mem_Get_def)
  next
    case (Cons e rest)
    then obtain n ns where n: "ordering.upper (memCompare C) mem ?t ys = n # ns" "snKey mem n = entryBytes e"
      using u by (cases "ordering.upper (memCompare C) mem ?t ys") auto
    have "e \<in> set (dropWhile ?P es)" unfolding Cons by simp
    then have e: "small e" using small set_dropWhileD by fast
    obtain len p where p: "GetVarint32Ptr (entryBytes e) = Some (len, p)" "unat len = length (e_key e) + 8"
      "unat (len - 8) = length (e_key e)" "take (length (e_key e)) p = e_key e"
      "DecodeFixed64 (drop (length (e_key e)) p) = PackSequenceAndType (e_seq e) (e_type e)"
      "memSlice (drop (length (e_key e) + 8) p) = e_value e"
      using entry_pointers [OF e] .
    have t: "PackSequenceAndType (e_seq e) (e_type e) AND 0xff = vtCode (e_type e)"
      using e pack_parts(2) by (simp add: small_def)
    have "visible C es s k = (if cmp_Compare C (e_key e) k = 0 then Some e else None)"
      unfolding visible_split [OF mem_holds_sorted [OF assms(1)] HOL.refl] Cons by simp
    then show ?thesis
      using seek n p t LookupKey_parts(3) [OF assms(2), of s]
      by (simp add: mem_Get_def sli_key_def vtCode_def split: ValueType.splits)
  qed
qed

text \<open>A new entry with the newest number hides the older ones of its key, and nothing else.\<close>

lemma visible_insert:
  assumes "sorted_wrt (\<lambda>a b. internal_Compare C (entryKey a) (entryKey b) < 0) es"
    "\<forall>x \<in> set es. small x \<and> e_seq x < e_seq e" "small e"
    and newer_def: "newer = (\<lambda>x. internal_Compare C (entryKey x) (entryKey e) < 0)"
  shows "visible C (takeWhile newer es @ e # dropWhile newer es) s k =
    (if e_seq e \<le> s \<and> cmp_Compare C (e_key e) k = 0 then Some e else visible C es s k)"
proof -
  let ?Q = "\<lambda>e. cmp_Compare C (e_key e) k = 0 \<and> e_seq e \<le> s"
  have "cmp_Compare C (e_key x) k \<noteq> 0" if "cmp_Compare C (e_key e) k = 0" "x \<in> set (takeWhile newer es)" for x
  proof -
    have x: "x \<in> set es" "newer x" using that(2) by (auto dest: set_takeWhileD)
    then have "cmp_Compare C (e_key x) (e_key e) < 0"
      using assms(2,3) internal_sequence_order(1) [of "e_seq e" "e_seq x"] unfolding newer_def small_def
      by (metis order_less_asym order_less_irrefl)
    then show ?thesis using that(1) less_trans [of "e_key x" "e_key e" k] by simp
  qed
  then have "filter ?Q (takeWhile newer es) = []" if "cmp_Compare C (e_key e) k = 0"
    using that by (auto simp: filter_empty_conv)
  moreover have "filter ?Q (takeWhile newer es) @ filter ?Q (dropWhile newer es) = filter ?Q es"
    by (metis filter_append takeWhile_dropWhile_id)
  ultimately show ?thesis unfolding visible_def by auto
qed

end

end
