(* ===== verification/LdbBatch.thy ===== *)
theory LdbBatch
  imports LdbMemTable
begin

text \<open>
  leveldb/db/write_batch.cc: a batch of updates is a byte string, a header of its sequence
  number and its count and then the updates. The laws show that what was put into a batch
  comes out of it, and that inserting a batch into a memtable adds one entry for each
  update, with consecutive sequence numbers.
\<close>

datatype ldbstatus = sOK | sNotFound | sCorruption string | sNotSupported string | sInvalidArgument string | sIOError string

type_synonym wbatch = bytes

abbreviation (input) kHeader :: nat where "kHeader \<equiv> 12"

definition wb_Clear :: wbatch where
  "wb_Clear = replicate kHeader (CHR 0x00)"

definition wb_Count :: "wbatch \<Rightarrow> int" where
  "wb_Count b = sint (DecodeFixed32 (drop 8 b))"

definition wb_SetCount :: "int \<Rightarrow> wbatch \<Rightarrow> wbatch" where
  "wb_SetCount n b = take 8 b @ EncodeFixed32 (word_of_int n) @ drop 12 b"

definition wb_Sequence :: "wbatch \<Rightarrow> 64 word" where
  "wb_Sequence b = DecodeFixed64 b"

definition wb_SetSequence :: "64 word \<Rightarrow> wbatch \<Rightarrow> wbatch" where
  "wb_SetSequence sq b = EncodeFixed64 sq @ drop 8 b"

definition tagByte :: "ValueType \<Rightarrow> char" where
  "tagByte t = low8 (vtCode t)"

definition wb_Put :: "bytes \<Rightarrow> bytes \<Rightarrow> wbatch \<Rightarrow> wbatch" where
  "wb_Put key val b =
     PutLengthPrefixedSlice (PutLengthPrefixedSlice (wb_SetCount (wb_Count b + 1) b @ [tagByte kTypeValue]) key) val"

definition wb_Delete :: "bytes \<Rightarrow> wbatch \<Rightarrow> wbatch" where
  "wb_Delete key b = PutLengthPrefixedSlice (wb_SetCount (wb_Count b + 1) b @ [tagByte kTypeDeletion]) key"

text \<open>A handler is its two operations on a state; they may not return, which \<open>None\<close> stands for.\<close>

record 'h handler =
  h_Put :: "bytes \<Rightarrow> bytes \<Rightarrow> 'h \<Rightarrow> 'h option"
  h_Delete :: "bytes \<Rightarrow> 'h \<Rightarrow> 'h option"

function iterateLoop :: "'h handler \<Rightarrow> bytes \<Rightarrow> int \<Rightarrow> 'h \<Rightarrow> (ldbstatus \<times> int \<times> 'h) option" where
  "iterateLoop H [] found h = Some (sOK, found, h)"
| "iterateLoop H (tag # input) found h =
     (if tag = tagByte kTypeValue then
        (case GetLengthPrefixedSlice input of
           None \<Rightarrow> Some (sCorruption ''bad WriteBatch Put'', found + 1, h)
         | Some (key, input1) \<Rightarrow>
             (case GetLengthPrefixedSlice input1 of
                None \<Rightarrow> Some (sCorruption ''bad WriteBatch Put'', found + 1, h)
              | Some (val, input2) \<Rightarrow>
                  (case h_Put H key val h of None \<Rightarrow> None | Some h' \<Rightarrow> iterateLoop H input2 (found + 1) h')))
      else if tag = tagByte kTypeDeletion then
        (case GetLengthPrefixedSlice input of
           None \<Rightarrow> Some (sCorruption ''bad WriteBatch Delete'', found + 1, h)
         | Some (key, input1) \<Rightarrow>
             (case h_Delete H key h of None \<Rightarrow> None | Some h' \<Rightarrow> iterateLoop H input1 (found + 1) h'))
      else Some (sCorruption ''unknown WriteBatch tag'', found + 1, h))"
  by pat_completeness auto
termination
  by (relation "measure (\<lambda>(H, input, found, h). length input)")
     (auto dest!: GetLengthPrefixedSlice_shorter)

definition wb_Iterate :: "'h handler \<Rightarrow> wbatch \<Rightarrow> 'h \<Rightarrow> (ldbstatus \<times> 'h) option" where
  "wb_Iterate H b h =
     (if length b < kHeader then Some (sCorruption ''malformed WriteBatch (too small)'', h)
      else map_option
             (\<lambda>(st, found, h'). if st \<noteq> sOK then (st, h')
                else if found \<noteq> wb_Count b then (sCorruption ''WriteBatch has wrong count'', h') else (sOK, h'))
             (iterateLoop H (drop kHeader b) 0 h))"

text \<open>The state of the inserter is its sequence number and the memtable.\<close>

definition MemTableInserter :: "comparator \<Rightarrow> (64 word \<times> memtable) handler" where
  "MemTableInserter C =
     \<lparr>h_Put = (\<lambda>key val (sq, mem). map_option (\<lambda>mem'. (sq + 1, mem')) (mem_Add C sq kTypeValue key val mem)),
      h_Delete = (\<lambda>key (sq, mem). map_option (\<lambda>mem'. (sq + 1, mem')) (mem_Add C sq kTypeDeletion key [] mem))\<rparr>"

definition wb_InsertInto :: "comparator \<Rightarrow> wbatch \<Rightarrow> memtable \<Rightarrow> (ldbstatus \<times> memtable) option" where
  "wb_InsertInto C b mem =
     map_option (\<lambda>(st, sq, mem'). (st, mem')) (wb_Iterate (MemTableInserter C) b (wb_Sequence b, mem))"

definition wb_SetContents :: "bytes \<Rightarrow> wbatch" where
  "wb_SetContents contents = contents"

definition wb_Append :: "wbatch \<Rightarrow> wbatch \<Rightarrow> wbatch" where
  "wb_Append src dst = wb_SetCount (wb_Count dst + wb_Count src) dst @ drop kHeader src"

subsection \<open>What is put into a batch comes out of it\<close>

datatype wbop = wbPut bytes bytes | wbDelete bytes

definition opBytes :: "wbop \<Rightarrow> bytes" where
  "opBytes p = (case p of
     wbPut key val \<Rightarrow> tagByte kTypeValue # PutLengthPrefixedSlice [] key @ PutLengthPrefixedSlice [] val
   | wbDelete key \<Rightarrow> tagByte kTypeDeletion # PutLengthPrefixedSlice [] key)"

definition opSmall :: "wbop \<Rightarrow> bool" where
  "opSmall p = (case p of wbPut key val \<Rightarrow> length key + 8 < 2 ^ 32 \<and> length val < 2 ^ 32 | wbDelete key \<Rightarrow> length key + 8 < 2 ^ 32)"

definition wb_add :: "wbop \<Rightarrow> wbatch \<Rightarrow> wbatch" where
  "wb_add p b = (case p of wbPut key val \<Rightarrow> wb_Put key val b | wbDelete key \<Rightarrow> wb_Delete key b)"

definition wb_of :: "wbop list \<Rightarrow> wbatch" where
  "wb_of ops = foldl (\<lambda>b p. wb_add p b) wb_Clear ops"

definition batchBytes :: "64 word \<Rightarrow> wbop list \<Rightarrow> wbatch" where
  "batchBytes sq ops = EncodeFixed64 sq @ EncodeFixed32 (of_nat (length ops)) @ concat (map opBytes ops)"

definition runOp :: "'h handler \<Rightarrow> wbop \<Rightarrow> 'h \<Rightarrow> 'h option" where
  "runOp H p h = (case p of wbPut key val \<Rightarrow> h_Put H key val h | wbDelete key \<Rightarrow> h_Delete H key h)"

fun runOps :: "'h handler \<Rightarrow> wbop list \<Rightarrow> 'h \<Rightarrow> 'h option" where
  "runOps H [] h = Some h"
| "runOps H (p # ops) h = (case runOp H p h of None \<Rightarrow> None | Some h' \<Rightarrow> runOps H ops h')"

lemma tags_differ: "tagByte kTypeValue \<noteq> tagByte kTypeDeletion"
  by (simp add: tagByte_def low8_def vtCode_def)

lemma batch_parts [simp]:
  "wb_Sequence (batchBytes sq ops) = sq" "drop kHeader (batchBytes sq ops) = concat (map opBytes ops)"
  "kHeader \<le> length (batchBytes sq ops)"
  by (simp_all add: wb_Sequence_def batchBytes_def)

lemma batch_count: "length ops < 2 ^ 31 \<Longrightarrow> wb_Count (batchBytes sq ops) = int (length ops)"
  by (simp add: wb_Count_def batchBytes_def signed_of_nat signed_take_bit_int_eq_self)

lemma wb_SetSequence_batch: "wb_SetSequence sq' (batchBytes sq ops) = batchBytes sq' ops"
  by (simp add: wb_SetSequence_def batchBytes_def)

lemma wb_SetCount_batch:
  "wb_SetCount n (batchBytes sq ops) = EncodeFixed64 sq @ EncodeFixed32 (word_of_int n) @ concat (map opBytes ops)"
  by (simp add: wb_SetCount_def batchBytes_def)

lemma word_count: "of_int (sint (of_nat n :: 32 word)) = (of_nat n :: 32 word)"
  by simp

lemma wb_add_batch: "wb_add p (batchBytes sq ops) = batchBytes sq (ops @ [p])"
proof -
  have "word_of_int (wb_Count (batchBytes sq ops) + 1) = (of_nat (length (ops @ [p])) :: 32 word)"
    by (simp add: wb_Count_def batchBytes_def wi_hom_syms)
  then have "wb_SetCount (wb_Count (batchBytes sq ops) + 1) (batchBytes sq ops) =
      EncodeFixed64 sq @ EncodeFixed32 (of_nat (length (ops @ [p]))) @ concat (map opBytes ops)"
    by (simp only: wb_SetCount_batch)
  then have "wb_add p (batchBytes sq ops) =
      (EncodeFixed64 sq @ EncodeFixed32 (of_nat (length (ops @ [p]))) @ concat (map opBytes ops)) @ opBytes p"
    by (cases p)
       (simp_all add: wb_add_def wb_Put_def wb_Delete_def opBytes_def PutLengthPrefixedSlice_append [of "_ @ _"]
         PutLengthPrefixedSlice_append [of "_ # _"])
  then show ?thesis by (simp add: batchBytes_def)
qed

lemma wb_Clear_batch: "wb_Clear = batchBytes 0 []"
  by (simp add: wb_Clear_def batchBytes_def EncodeFixed64_def EncodeFixed32_def low8_def byte_chr_def char_of_def eval_nat_numeral)

lemma wb_of_batch: "wb_of ops = batchBytes 0 ops"
proof (induction ops rule: rev_induct)
  case Nil
  then show ?case by (simp add: wb_of_def wb_Clear_batch)
next
  case (snoc p ops)
  then show ?case by (simp add: wb_of_def wb_add_batch)
qed

lemma wb_Append_batch: "wb_Append (batchBytes sq' ops') (batchBytes sq ops) = batchBytes sq (ops @ ops')"
proof -
  have "word_of_int (wb_Count (batchBytes sq ops) + wb_Count (batchBytes sq' ops')) = (of_nat (length (ops @ ops')) :: 32 word)"
    by (simp add: wb_Count_def batchBytes_def wi_hom_syms)
  then show ?thesis by (simp add: wb_Append_def wb_SetCount_batch) (simp add: batchBytes_def)
qed

lemma iterateLoop_ops:
  "\<forall>p \<in> set ops. opSmall p \<Longrightarrow>
     iterateLoop H (concat (map opBytes ops)) found h = map_option (\<lambda>h'. (sOK, found + int (length ops), h')) (runOps H ops h)"
proof (induction ops arbitrary: found h)
  case (Cons p ops)
  then show ?case
    by (cases p) (auto simp: opBytes_def opSmall_def runOp_def tags_differ [symmetric] add.assoc split: option.split)
qed simp

lemma wb_Iterate_batch:
  assumes "\<forall>p \<in> set ops. opSmall p" "length ops < 2 ^ 31"
  shows "wb_Iterate H (batchBytes sq ops) h = map_option (\<lambda>h'. (sOK, h')) (runOps H ops h)"
  using batch_count [OF assms(2), of sq] by (cases "runOps H ops h") (simp_all add: wb_Iterate_def iterateLoop_ops [OF assms(1)] not_less)

subsection \<open>A batch in a memtable\<close>

text \<open>
  What a reader at a sequence number knows of a key from some entries: nothing, a value
  or a deletion; and what an update makes of that.
\<close>

definition known :: "comparator \<Rightarrow> entry list \<Rightarrow> 64 word \<Rightarrow> bytes \<Rightarrow> bytes option option" where
  "known C es s k =
     map_option (\<lambda>e. case e_type e of kTypeValue \<Rightarrow> Some (e_value e) | kTypeDeletion \<Rightarrow> None) (visible C es s k)"

definition opKnown :: "comparator \<Rightarrow> (bytes \<Rightarrow> bytes option option) \<Rightarrow> wbop \<Rightarrow> bytes \<Rightarrow> bytes option option" where
  "opKnown C f p k =
     (case p of wbPut key val \<Rightarrow> if cmp_Compare C key k = 0 then Some (Some val) else f k
      | wbDelete key \<Rightarrow> if cmp_Compare C key k = 0 then Some None else f k)"

definition opEntry :: "64 word \<Rightarrow> wbop \<Rightarrow> entry" where
  "opEntry sq p = (case p of
     wbPut key val \<Rightarrow> \<lparr>e_key = key, e_seq = sq, e_type = kTypeValue, e_value = val\<rparr>
   | wbDelete key \<Rightarrow> \<lparr>e_key = key, e_seq = sq, e_type = kTypeDeletion, e_value = []\<rparr>)"

definition opEntries :: "64 word \<Rightarrow> wbop list \<Rightarrow> entry list" where
  "opEntries sq ops = map (\<lambda>i. opEntry (sq + of_nat i) (ops ! i)) [0..<length ops]"

lemma opEntries_simps [simp]:
  "opEntries sq [] = []" "opEntries sq (p # ops) = opEntry sq p # opEntries (sq + 1) ops"
proof -
  show "opEntries sq [] = []" by (simp add: opEntries_def)
  have "[0..<length (p # ops)] = 0 # map Suc [0..<length ops]" by (simp add: upt_conv_Cons map_Suc_upt del: upt_Suc)
  then show "opEntries sq (p # ops) = opEntry sq p # opEntries (sq + 1) ops"
    unfolding opEntries_def by (simp add: comp_def add.assoc del: upt_Suc)
qed

lemma opEntry_seq [simp]: "e_seq (opEntry sq p) = sq"
  by (cases p) (simp_all add: opEntry_def)

lemma small_opEntry: "opSmall p \<Longrightarrow> sq \<le> kMaxSequenceNumber \<Longrightarrow> small (opEntry sq p)"
  by (cases p) (simp_all add: opEntry_def opSmall_def small_def)

lemma runOp_Add:
  "runOp (MemTableInserter C) p (sq, mem) =
     map_option (\<lambda>mem'. (sq + 1, mem'))
       (mem_Add C (e_seq (opEntry sq p)) (e_type (opEntry sq p)) (e_key (opEntry sq p)) (e_value (opEntry sq p)) mem)"
  by (cases p) (simp_all add: runOp_def MemTableInserter_def opEntry_def)

text \<open>The sequence numbers of an insertion stay below their bound.\<close>

definition room :: "64 word \<Rightarrow> nat \<Rightarrow> bool" where
  "room sq n \<longleftrightarrow> unat sq + n \<le> 2 ^ 56"

lemma room_next:
  assumes "room sq (Suc n)"
  shows "sq \<le> kMaxSequenceNumber" "unat (sq + 1) = unat sq + 1" "room (sq + 1) n"
proof -
  show "sq \<le> kMaxSequenceNumber" using assms by (simp add: room_def word_le_nat_alt kMaxSequenceNumber_value)
  show u: "unat (sq + 1) = unat sq + 1" using assms by (simp add: room_def unat_plus_if')
  show "room (sq + 1) n" using assms by (simp add: room_def u)
qed

lemma set_takeWhile_insert: "set (takeWhile P xs @ y # dropWhile P xs) = insert y (set xs)"
proof -
  have "set (takeWhile P xs) \<union> set (dropWhile P xs) = set xs" by (metis set_append takeWhile_dropWhile_id)
  then show ?thesis by auto
qed

context comparator_laws
begin

lemma known_insert:
  assumes "mem_holds C mem es" "\<forall>x \<in> set es. e_seq x < sq" "opSmall p" "sq \<le> kMaxSequenceNumber"
  shows "\<exists>mem' es'. mem_Add C (e_seq (opEntry sq p)) (e_type (opEntry sq p)) (e_key (opEntry sq p)) (e_value (opEntry sq p)) mem
      = Some mem' \<and> mem_holds C mem' es' \<and> set es' = insert (opEntry sq p) (set es) \<and>
      (\<forall>s k. known C es' s k = (if sq \<le> s then opKnown C (known C es s) p k else known C es s k))"
proof -
  let ?e = "opEntry sq p"
  let ?newer = "\<lambda>x. internal_Compare C (entryKey x) (entryKey ?e) < 0"
  let ?es = "takeWhile ?newer es @ ?e # dropWhile ?newer es"
  have e: "small ?e" using assms(3,4) by (rule small_opEntry)
  have older: "\<forall>x \<in> set es. small x \<and> e_seq x < e_seq ?e" using assms(1,2) by (simp add: mem_holds_def)
  then have "\<forall>x \<in> set es. e_seq x \<noteq> e_seq ?e" by auto
  then obtain mem' where mem': "mem_Add C (e_seq ?e) (e_type ?e) (e_key ?e) (e_value ?e) mem = Some mem'" "mem_holds C mem' ?es"
    using mem_Add_holds [OF assms(1) e] by blast
  have "set ?es = insert ?e (set es)" by (rule set_takeWhile_insert)
  moreover have "known C ?es s k = (if sq \<le> s then opKnown C (known C es s) p k else known C es s k)" for s k
    unfolding known_def visible_insert [OF mem_holds_sorted [OF assms(1)] older e HOL.refl]
    by (cases p) (auto simp: opKnown_def opEntry_def)
  ultimately show ?thesis using mem' by blast
qed

lemma runOps_insert:
  assumes "mem_holds C mem es" "\<forall>x \<in> set es. e_seq x < sq" "\<forall>p \<in> set ops. opSmall p" "room sq (length ops)"
  shows "\<exists>mem' es'. runOps (MemTableInserter C) ops (sq, mem) = Some (sq + of_nat (length ops), mem') \<and>
      mem_holds C mem' es' \<and> set es' = set es \<union> set (opEntries sq ops) \<and>
      (\<forall>s k. known C es' s k = foldl (opKnown C) (known C es s) (take (unat s + 1 - unat sq) ops) k)"
  using assms
proof (induction ops arbitrary: sq mem es)
  case (Cons p ops)
  have r: "sq \<le> kMaxSequenceNumber" "unat (sq + 1) = unat sq + 1" "room (sq + 1) (length ops)"
    using room_next Cons.prems(4) by simp_all
  obtain mem1 es1 where 1: "runOp (MemTableInserter C) p (sq, mem) = Some (sq + 1, mem1)" "mem_holds C mem1 es1"
    "set es1 = insert (opEntry sq p) (set es)"
    "\<And>s k. known C es1 s k = (if sq \<le> s then opKnown C (known C es s) p k else known C es s k)"
    using known_insert [OF Cons.prems(1,2) _ r(1), of p] Cons.prems(3) by (auto simp: runOp_Add)
  have "\<forall>x \<in> set es1. e_seq x < sq + 1"
    using 1(3) Cons.prems(2) r(2) by (auto simp: word_less_nat_alt)
  then obtain mem' es' where 2: "runOps (MemTableInserter C) ops (sq + 1, mem1) = Some (sq + 1 + of_nat (length ops), mem')"
    "mem_holds C mem' es'" "set es' = set es1 \<union> set (opEntries (sq + 1) ops)"
    "\<And>s k. known C es' s k = foldl (opKnown C) (known C es1 s) (take (unat s + 1 - unat (sq + 1)) ops) k"
    using Cons.IH [OF 1(2) _ _ r(3)] Cons.prems(3) by auto
  have "known C es' s k = foldl (opKnown C) (known C es s) (take (unat s + 1 - unat sq) (p # ops)) k" for s k
  proof (cases "sq \<le> s")
    case True
    then have n: "unat s + 1 - unat sq = Suc (unat s + 1 - unat (sq + 1))" using r(2) by (simp add: word_le_nat_alt Suc_diff_le)
    have "known C es1 s = opKnown C (known C es s) p" using 1(4) True by (simp add: fun_eq_iff)
    then show ?thesis unfolding n using 2(4) by simp
  next
    case False
    then have "unat s + 1 - unat sq = 0" "unat s + 1 - unat (sq + 1) = 0" using r(2) by (simp_all add: word_le_nat_alt)
    moreover have "known C es1 s = known C es s" using 1(4) False by (simp add: fun_eq_iff)
    ultimately show ?thesis using 2(4) by simp
  qed
  then show ?case using 1 2 by (auto simp: add.assoc)
qed auto

lemma wb_InsertInto_batch:
  assumes "mem_holds C mem es" "\<forall>x \<in> set es. e_seq x < sq" "\<forall>p \<in> set ops. opSmall p" "room sq (length ops)"
    "length ops < 2 ^ 31"
  shows "\<exists>mem' es'. wb_InsertInto C (batchBytes sq ops) mem = Some (sOK, mem') \<and> mem_holds C mem' es' \<and>
      set es' = set es \<union> set (opEntries sq ops) \<and>
      (\<forall>s k. known C es' s k = foldl (opKnown C) (known C es s) (take (unat s + 1 - unat sq) ops) k)"
proof -
  obtain mem' es' where "runOps (MemTableInserter C) ops (sq, mem) = Some (sq + of_nat (length ops), mem')"
    "mem_holds C mem' es'" "set es' = set es \<union> set (opEntries sq ops)"
    "\<forall>s k. known C es' s k = foldl (opKnown C) (known C es s) (take (unat s + 1 - unat sq) ops) k"
    using runOps_insert [OF assms(1-4)] by blast
  then show ?thesis by (auto simp: wb_InsertInto_def wb_Iterate_batch [OF assms(3,5)])
qed

end

end
