(* ===== verification/LdbLog.thy ===== *)
theory LdbLog
  imports LdbCrc
begin

text \<open>
  leveldb/db/log_format.h, log_writer and log_reader: the log that holds the batches of a
  database until they are in its tables. A file is its bytes; the outcomes of the calls of
  the operating system are inputs, a failed write may leave a part of its data.
\<close>

subsection \<open>The format\<close>

abbreviation (input) kZeroType :: nat where "kZeroType \<equiv> 0"
abbreviation (input) kFullType :: nat where "kFullType \<equiv> 1"
abbreviation (input) kFirstType :: nat where "kFirstType \<equiv> 2"
abbreviation (input) kMiddleType :: nat where "kMiddleType \<equiv> 3"
abbreviation (input) kLastType :: nat where "kLastType \<equiv> 4"
abbreviation (input) kEof :: nat where "kEof \<equiv> 5"
abbreviation (input) kBadRecord :: nat where "kBadRecord \<equiv> 6"
abbreviation (input) kBlockSize :: nat where "kBlockSize \<equiv> 32768"
abbreviation (input) kHeaderSize :: nat where "kHeaderSize \<equiv> 7"

subsection \<open>The writer\<close>

text \<open>The outcome \<open>Some k\<close> of a write is a failure after \<open>k\<close> bytes; no outcome left is success.\<close>

record wfile =
  wf_data :: bytes
  wf_outcomes :: "nat option list"

definition wf_append :: "bytes \<Rightarrow> wfile \<Rightarrow> bool \<times> wfile" where
  "wf_append dat f =
     (case wf_outcomes f of
        [] \<Rightarrow> (True, f\<lparr>wf_data := wf_data f @ dat\<rparr>)
      | None # os \<Rightarrow> (True, f\<lparr>wf_data := wf_data f @ dat, wf_outcomes := os\<rparr>)
      | Some k # os \<Rightarrow> (False, f\<lparr>wf_data := wf_data f @ take k dat, wf_outcomes := os\<rparr>))"

definition wf_flush :: "wfile \<Rightarrow> bool \<times> wfile" where
  "wf_flush f = wf_append [] f"

record logwriter =
  lw_dest :: wfile
  lw_block_offset :: nat
  lw_type_crc :: "32 word list"

definition logWriter :: "wfile \<Rightarrow> logwriter" where
  "logWriter dest =
     \<lparr>lw_dest = dest, lw_block_offset = 0, lw_type_crc = map (\<lambda>i. crcValue 0 [char_of i]) [0..<Suc kLastType]\<rparr>"

text \<open>The address of the data, which does not matter for the checksum, is 0 here.\<close>

definition EmitPhysicalRecord :: "nat \<Rightarrow> bytes \<Rightarrow> logwriter \<Rightarrow> bool \<times> logwriter" where
  "EmitPhysicalRecord t p w =
     (let n = length p;
          crc = Mask (Extend 0 (lw_type_crc w ! t) p);
          buf = EncodeFixed32 crc @ [char_of (n mod 256), char_of (n div 256), char_of t];
          (ok1, f1) = wf_append buf (lw_dest w);
          (ok, f) = (if ok1 then let (ok2, f2) = wf_append p f1 in if ok2 then wf_flush f2 else (False, f2)
                     else (False, f1))
      in (ok, w\<lparr>lw_dest := f, lw_block_offset := lw_block_offset w + (kHeaderSize + n)\<rparr>))"

text \<open>The first part of a round: the switch to a new block, whose outcome is not looked at.\<close>

definition switchBlock :: "logwriter \<Rightarrow> logwriter" where
  "switchBlock w =
     (let leftover = kBlockSize - lw_block_offset w
      in if leftover < kHeaderSize then
           (let f = (if leftover > 0 then snd (wf_append (replicate leftover (CHR 0x00)) (lw_dest w)) else lw_dest w)
            in w\<lparr>lw_dest := f, lw_block_offset := 0\<rparr>)
         else w)"

definition fragmentType :: "bool \<Rightarrow> bool \<Rightarrow> nat" where
  "fragmentType isBegin isEnd =
     (if isBegin \<and> isEnd then kFullType else if isBegin then kFirstType else if isEnd then kLastType else kMiddleType)"

lemma switchBlock_offset: "lw_block_offset (switchBlock w) + kHeaderSize \<le> kBlockSize"
  by (cases "kBlockSize - lw_block_offset w < kHeaderSize") (simp_all add: switchBlock_def Let_def)

lemma Emit_offset [simp]: "lw_block_offset (snd (EmitPhysicalRecord t p w)) = lw_block_offset w + (kHeaderSize + length p)"
  by (simp add: EmitPhysicalRecord_def Let_def case_prod_beta)

function addLoop :: "bool \<Rightarrow> bytes \<Rightarrow> logwriter \<Rightarrow> bool \<times> logwriter" where
  "addLoop isBegin rest w =
     (let w1 = switchBlock w;
          avail = kBlockSize - lw_block_offset w1 - kHeaderSize;
          fragment_length = (if length rest < avail then length rest else avail);
          (ok, w2) = EmitPhysicalRecord (fragmentType isBegin (length rest = fragment_length)) (take fragment_length rest) w1;
          rest' = drop fragment_length rest
      in if ok \<and> rest' \<noteq> [] then addLoop False rest' w2 else (ok, w2))"
  by auto
termination
proof (relation "measure (\<lambda>(b, rest, w). 2 * length rest + (if lw_block_offset w + kHeaderSize = kBlockSize then 1 else 0))")
  fix isBegin :: bool and rest :: bytes and w w1 avail fragment_length x ok w2 rest'
  assume w1: "w1 = switchBlock w" and avail: "avail = kBlockSize - lw_block_offset w1 - kHeaderSize"
    and fl: "fragment_length = (if length rest < avail then length rest else avail)"
    and x: "x = EmitPhysicalRecord (fragmentType isBegin (length rest = fragment_length)) (take fragment_length rest) w1"
      "(ok, w2) = x"
    and rest': "rest' = drop fragment_length rest" and c: "ok \<and> rest' \<noteq> []"
  have e: "lw_block_offset w2 = lw_block_offset w1 + (kHeaderSize + length (take fragment_length rest))"
    using x Emit_offset by (metis snd_conv)
  have "fragment_length = avail" "avail < length rest" using c fl rest' by (auto split: if_splits)
  moreover have "lw_block_offset w + kHeaderSize = kBlockSize" if "avail = 0"
    using that avail w1 switchBlock_offset [of w] by (auto simp: switchBlock_def Let_def split: if_splits)
  ultimately show "((False, rest', w2), isBegin, rest, w) \<in>
      measure (\<lambda>(b, rest, w). 2 * length rest + (if lw_block_offset w + kHeaderSize = kBlockSize then 1 else 0))"
    using e rest' avail switchBlock_offset [of w] w1 by (cases "avail = 0") auto
qed simp

declare addLoop.simps [simp del]

definition AddRecord :: "bytes \<Rightarrow> logwriter \<Rightarrow> bool \<times> logwriter" where
  "AddRecord slc w = addLoop True slc w"

subsection \<open>The reader\<close>

text \<open>
  A read gives the bytes asked for, fewer only at the end of the file; the outcome
  \<open>Some k\<close> is a failure that gives at most \<open>k\<close> of them.
\<close>

record rfile =
  rf_data :: bytes
  rf_outcomes :: "nat option list"

definition rf_read :: "nat \<Rightarrow> rfile \<Rightarrow> bool \<times> bytes \<times> rfile" where
  "rf_read n f =
     (case rf_outcomes f of
        Some k # os \<Rightarrow>
          (False, take (min k n) (rf_data f), f\<lparr>rf_data := drop (min k n) (rf_data f), rf_outcomes := os\<rparr>)
      | os \<Rightarrow> (True, take n (rf_data f), f\<lparr>rf_data := drop n (rf_data f), rf_outcomes := drop 1 os\<rparr>))"

definition rf_skip :: "nat \<Rightarrow> rfile \<Rightarrow> bool \<times> rfile" where
  "rf_skip n f =
     (case rf_outcomes f of
        Some k # os \<Rightarrow> (False, f\<lparr>rf_outcomes := os\<rparr>)
      | os \<Rightarrow> (True, f\<lparr>rf_data := drop n (rf_data f), rf_outcomes := drop 1 os\<rparr>))"

record logreader =
  lr_file :: rfile
  lr_reporter :: bool
  lr_checksum :: bool
  lr_buffer :: bytes
  lr_eof :: bool
  lr_last_record_offset :: "64 word"
  lr_end_of_buffer_offset :: "64 word"
  lr_initial_offset :: "64 word"
  lr_reports :: "(nat \<times> string) list"

definition logReader :: "rfile \<Rightarrow> bool \<Rightarrow> bool \<Rightarrow> 64 word \<Rightarrow> logreader" where
  "logReader f reporter checksum initial_offset =
     \<lparr>lr_file = f, lr_reporter = reporter, lr_checksum = checksum, lr_buffer = [], lr_eof = False,
      lr_last_record_offset = 0, lr_end_of_buffer_offset = 0, lr_initial_offset = initial_offset, lr_reports = []\<rparr>"

definition ReportDrop :: "nat \<Rightarrow> string \<Rightarrow> logreader \<Rightarrow> logreader" where
  "ReportDrop n reason r =
     (if lr_reporter r \<and>
         lr_end_of_buffer_offset r - of_nat (length (lr_buffer r)) - of_nat n \<ge> lr_initial_offset r
      then r\<lparr>lr_reports := lr_reports r @ [(n, reason)]\<rparr> else r)"

definition ReportCorruption :: "nat \<Rightarrow> string \<Rightarrow> logreader \<Rightarrow> logreader" where
  "ReportCorruption n reason r = ReportDrop n reason r"

definition blockStart :: "logreader \<Rightarrow> 64 word" where
  "blockStart r =
     (let offset_in_block = unat (lr_initial_offset r) mod kBlockSize;
          start = lr_initial_offset r - of_nat offset_in_block
      in if offset_in_block > kBlockSize - 6 then start + of_nat kBlockSize else start)"

definition SkipToInitialBlock :: "logreader \<Rightarrow> bool \<times> logreader" where
  "SkipToInitialBlock r =
     (let start = blockStart r;
          r1 = r\<lparr>lr_end_of_buffer_offset := start\<rparr>
      in if start > 0 then
           (let (ok, f) = rf_skip (unat start) (lr_file r1); r2 = r1\<lparr>lr_file := f\<rparr>
            in if ok then (True, r2) else (False, ReportDrop (unat start) ''IO error'' r2))
         else (True, r1))"

text \<open>The type is a \<open>char\<close> made an \<open>unsigned int\<close>.\<close>

definition headerType :: "char \<Rightarrow> nat" where
  "headerType c = (let n = of_char c in if n < 128 then n else 2 ^ 32 - 256 + n)"

definition parsePhysical :: "logreader \<Rightarrow> nat \<times> bytes \<times> logreader" where
  "parsePhysical r =
     (let header = lr_buffer r;
          type = headerType (header ! 6);
          len = of_char (header ! 4) + 256 * of_char (header ! 5);
          r0 = r\<lparr>lr_buffer := []\<rparr>
      in if kHeaderSize + len > length header then
           (if \<not> lr_eof r then (kBadRecord, [], ReportCorruption (length header) ''bad record length'' r0)
            else (kEof, [], r0))
         else if type = kZeroType \<and> len = 0 then (kBadRecord, [], r0)
         else if lr_checksum r \<and>
                 crcValue 0 (take (1 + len) (drop 6 header)) \<noteq> Unmask (DecodeFixed32 header) then
           (kBadRecord, [], ReportCorruption (length header) ''checksum mismatch'' r0)
         else let r1 = r\<lparr>lr_buffer := drop (kHeaderSize + len) header\<rparr>
           in if lr_end_of_buffer_offset r1 - of_nat (length (lr_buffer r1)) - of_nat kHeaderSize - of_nat len
                 < lr_initial_offset r1 then (kBadRecord, [], r1)
              else (type, take len (drop kHeaderSize header), r1))"

text \<open>A read of the next block, and whether it succeeded.\<close>

definition readBlock :: "logreader \<Rightarrow> bool \<times> logreader" where
  "readBlock r =
     (let (ok, dat, f) = rf_read kBlockSize (lr_file r);
          r1 = r\<lparr>lr_file := f, lr_buffer := dat,
                 lr_end_of_buffer_offset := lr_end_of_buffer_offset r + of_nat (length dat)\<rparr>
      in if \<not> ok then (False, (ReportDrop kBlockSize ''IO error'' (r1\<lparr>lr_buffer := []\<rparr>))\<lparr>lr_eof := True\<rparr>)
         else if length dat < kBlockSize then (True, r1\<lparr>lr_eof := True\<rparr>) else (True, r1))"

lemma readBlock_done: "readBlock r = (True, r') \<Longrightarrow> lr_eof r' \<or> kHeaderSize \<le> length (lr_buffer r')"
  by (auto simp: readBlock_def Let_def case_prod_beta split: if_splits)

function ReadPhysicalRecord :: "logreader \<Rightarrow> nat \<times> bytes \<times> logreader" where
  "ReadPhysicalRecord r =
     (if length (lr_buffer r) < kHeaderSize then
        if \<not> lr_eof r then
          (let (ok, r1) = readBlock r in if ok then ReadPhysicalRecord r1 else (kEof, [], r1))
        else (kEof, [], r\<lparr>lr_buffer := []\<rparr>)
      else parsePhysical r)"
  by auto
termination
  by (relation "measure (\<lambda>r. if kHeaderSize \<le> length (lr_buffer r) \<or> lr_eof r then 0 else 1)")
     (auto dest!: readBlock_done [OF sym])

declare ReadPhysicalRecord.simps [simp del]

text \<open>Every record but the last of all takes bytes of the file, which ends the loop of \<open>ReadRecord\<close>.\<close>

abbreviation lr_left :: "logreader \<Rightarrow> nat" where
  "lr_left r \<equiv> length (lr_buffer r) + length (rf_data (lr_file r))"

lemma ReportDrop_same [simp]:
  "lr_file (ReportDrop n s r) = lr_file r" "lr_buffer (ReportDrop n s r) = lr_buffer r"
  "lr_eof (ReportDrop n s r) = lr_eof r" "lr_initial_offset (ReportDrop n s r) = lr_initial_offset r"
  "lr_last_record_offset (ReportDrop n s r) = lr_last_record_offset r"
  by (simp_all add: ReportDrop_def)

lemma ReportCorruption_same [simp]:
  "lr_file (ReportCorruption n s r) = lr_file r" "lr_buffer (ReportCorruption n s r) = lr_buffer r"
  "lr_eof (ReportCorruption n s r) = lr_eof r" "lr_initial_offset (ReportCorruption n s r) = lr_initial_offset r"
  "lr_last_record_offset (ReportCorruption n s r) = lr_last_record_offset r"
  by (simp_all add: ReportCorruption_def)

lemma rf_read_length: "rf_read n f = (b, dat, f') \<Longrightarrow> length dat + length (rf_data f') = length (rf_data f)"
  by (auto simp: rf_read_def split: list.splits option.splits)

lemma readBlock_left: "lr_left (snd (readBlock r)) \<le> length (rf_data (lr_file r))"
  by (auto simp: readBlock_def Let_def dest!: rf_read_length split: prod.splits)

lemma parsePhysical_left:
  "parsePhysical r = (t, p, r') \<Longrightarrow> kHeaderSize \<le> length (lr_buffer r) \<Longrightarrow> t \<noteq> kEof \<Longrightarrow> lr_left r' < lr_left r"
  by (auto simp: parsePhysical_def Let_def split: if_splits)

lemma ReadPhysicalRecord_left:
  "ReadPhysicalRecord r = (t, p, r') \<Longrightarrow> t \<noteq> kEof \<Longrightarrow> lr_left r' < lr_left r"
proof (induction r rule: ReadPhysicalRecord.induct)
  case (1 r)
  obtain ok r1 where b: "readBlock r = (ok, r1)" by (meson surj_pair)
  show ?case
  proof (cases "length (lr_buffer r) < kHeaderSize")
    case True
    then have "\<not> lr_eof r" "ok" "ReadPhysicalRecord r1 = (t, p, r')"
      using 1(2,3) b by (auto simp: ReadPhysicalRecord.simps [of r] split: if_splits)
    then show ?thesis using 1(1) [OF True] b 1(3) readBlock_left [of r] by fastforce
  next
    case False
    then show ?thesis
      using 1(2,3) parsePhysical_left [of r] by (simp add: ReadPhysicalRecord.simps [of r])
  qed
qed

fun decimal :: "nat \<Rightarrow> string" where
  "decimal n = (if n < 10 then [char_of (48 + n)] else decimal (n div 10) @ [char_of (48 + n mod 10)])"

declare decimal.simps [simp del]

text \<open>
  The loop of \<open>ReadRecord\<close>: whether a fragmented record was begun, the data it has so far
  and the offset of its first part. The record of the caller stays empty where the source
  returns false.
\<close>

function readLoop :: "bool \<Rightarrow> bytes \<Rightarrow> 64 word \<Rightarrow> logreader \<Rightarrow> bytes option \<times> logreader" where
  "readLoop in_fragmented_record scratch prospective r =
     (let physical = lr_end_of_buffer_offset r - of_nat (length (lr_buffer r));
          (record_type, fragment, r1) = ReadPhysicalRecord r
      in if record_type = kFullType then
           (let r2 = (if in_fragmented_record \<and> scratch \<noteq> [] then
                        ReportCorruption (length scratch) ''partial record without end(1)'' r1 else r1)
            in (Some fragment, r2\<lparr>lr_last_record_offset := physical\<rparr>))
         else if record_type = kFirstType then
           readLoop True fragment physical
             (if in_fragmented_record \<and> scratch \<noteq> [] then
                ReportCorruption (length scratch) ''partial record without end(2)'' r1 else r1)
         else if record_type = kMiddleType then
           (if \<not> in_fragmented_record then
              readLoop in_fragmented_record scratch prospective
                (ReportCorruption (length fragment) ''missing start of fragmented record(1)'' r1)
            else readLoop in_fragmented_record (scratch @ fragment) prospective r1)
         else if record_type = kLastType then
           (if \<not> in_fragmented_record then
              readLoop in_fragmented_record scratch prospective
                (ReportCorruption (length fragment) ''missing start of fragmented record(2)'' r1)
            else (Some (scratch @ fragment), r1\<lparr>lr_last_record_offset := prospective\<rparr>))
         else if record_type = kEof then (None, r1)
         else if record_type = kBadRecord then
           (if in_fragmented_record then
              readLoop False [] prospective (ReportCorruption (length scratch) ''error in middle of record'' r1)
            else readLoop in_fragmented_record scratch prospective r1)
         else
           readLoop False [] prospective
             (ReportCorruption (length fragment + (if in_fragmented_record then length scratch else 0))
                (''unknown record type '' @ decimal record_type) r1))"
  by auto
termination
  by (relation "measure (\<lambda>(i, s, p, r). lr_left r)")
     (auto dest!: sym [of "(_, _, _)"] ReadPhysicalRecord_left simp del: One_nat_def)

declare readLoop.simps [simp del]

definition ReadRecord :: "logreader \<Rightarrow> bytes option \<times> logreader" where
  "ReadRecord r =
     (let (ok, r1) = (if lr_last_record_offset r < lr_initial_offset r then SkipToInitialBlock r else (True, r))
      in if ok then readLoop False [] 0 r1 else (None, r1))"

text \<open>The loop of the readers of a log: every record until \<open>ReadRecord\<close> returns false.\<close>

lemma readLoop_left: "readLoop i s p r = (Some rec, r') \<Longrightarrow> lr_left r' < lr_left r"
proof (induction "lr_left r" arbitrary: i s p r rule: less_induct)
  case less
  obtain t f r1 where e: "ReadPhysicalRecord r = (t, f, r1)" by (metis surj_pair)
  then have l: "t \<noteq> kEof \<Longrightarrow> lr_left r1 < lr_left r" by (rule ReadPhysicalRecord_left)
  have IH: "lr_left r' < lr_left r"
    if "readLoop i s p r2 = (Some rec, r')" "t \<noteq> kEof" "lr_left r2 = lr_left r1" for i s p r2
    using less(1) [OF _ that(1)] l that(2,3) by fastforce
  show ?case
    using less(2) l unfolding readLoop.simps [of i s p r]
    by (auto simp: e Let_def split: if_splits intro: IH)
qed

lemma ReadRecord_left: "ReadRecord r = (Some rec, r') \<Longrightarrow> lr_left r' < lr_left r"
  using readLoop_left [of False "[]" 0]
  by (fastforce simp: ReadRecord_def SkipToInitialBlock_def rf_skip_def Let_def split: if_splits prod.splits list.splits option.splits)

function readRecords :: "logreader \<Rightarrow> bytes list \<times> logreader" where
  "readRecords r =
     (case ReadRecord r of
        (None, r') \<Rightarrow> ([], r')
      | (Some rec, r') \<Rightarrow> let (recs, r'') = readRecords r' in (rec # recs, r''))"
  by auto
termination
  by (relation "measure lr_left") (auto dest!: ReadRecord_left [OF sym])

declare readRecords.simps [simp del]

end
