(* ===== verification/LdbLogLaws.thy ===== *)
theory LdbLogLaws
  imports LdbLog
begin

text \<open>
  The log read back: what a reader at a position of the file finds, what a writer appends,
  and that a reader gets from a file, cut anywhere, the records that are in it completely.
\<close>

subsection \<open>One physical record\<close>

definition pad :: "nat \<Rightarrow> bytes" where
  "pad pos = (if kBlockSize - pos < kHeaderSize then replicate (kBlockSize - pos) (CHR 0x00) else [])"

definition newOffset :: "nat \<Rightarrow> nat" where
  "newOffset pos = (if kBlockSize - pos < kHeaderSize then 0 else pos)"

definition header :: "nat \<Rightarrow> bytes \<Rightarrow> bytes" where
  "header t p =
     EncodeFixed32 (Mask (crc32c 0 (char_of t # p))) @
       [char_of (length p mod 256), char_of (length p div 256), char_of t]"

definition frame :: "nat \<Rightarrow> bytes \<Rightarrow> bytes" where
  "frame t p = header t p @ p"

lemma length_header [simp]: "length (header t p) = kHeaderSize"
  by (simp add: header_def)

lemma length_frame [simp]: "length (frame t p) = kHeaderSize + length p"
  by (simp add: frame_def)

lemma header_split:
  "header t p @ q =
     EncodeFixed32 (Mask (crc32c 0 (char_of t # p))) @
       char_of (length p mod 256) # char_of (length p div 256) # char_of t # q"
  by (simp add: header_def)

lemma newOffset_room: "newOffset pos + kHeaderSize \<le> kBlockSize"
  by (cases "kBlockSize - pos < kHeaderSize") (simp_all add: newOffset_def)

text \<open>A writer none of whose writes fails.\<close>

definition calm :: "logwriter \<Rightarrow> bool" where
  "calm w \<longleftrightarrow> wf_outcomes (lw_dest w) = [] \<and> lw_type_crc w = map (\<lambda>i. crcValue 0 [char_of i]) [0..<Suc kLastType]"

definition wrote :: "bytes \<Rightarrow> nat \<Rightarrow> logwriter \<Rightarrow> logwriter" where
  "wrote dat pos w = w\<lparr>lw_dest := (lw_dest w)\<lparr>wf_data := wf_data (lw_dest w) @ dat\<rparr>, lw_block_offset := pos\<rparr>"

lemma wrote_simps [simp]:
  "lw_block_offset (wrote d pos w) = pos" "calm (wrote d pos w) = calm w"
  "wf_data (lw_dest (wrote d pos w)) = wf_data (lw_dest w) @ d"
  "wrote d2 pos2 (wrote d pos w) = wrote (d @ d2) pos2 w"
  by (simp_all add: wrote_def calm_def)

lemma switchBlock_calm:
  "calm w \<Longrightarrow> switchBlock w = wrote (pad (lw_block_offset w)) (newOffset (lw_block_offset w)) w"
  by (cases w) (simp add: switchBlock_def Let_def calm_def wf_append_def wrote_def pad_def newOffset_def)

lemma type_crc:
  assumes "t \<le> kLastType"
  shows "map (\<lambda>i. crcValue 0 [char_of i]) [0..<Suc kLastType] ! t = crc32c 0 [char_of t]"
proof -
  have "t < length [0..<Suc kLastType]" using assms by simp
  then show ?thesis by (simp only: nth_map nth_upt) (simp add: crcValue_def Extend_crc32c)
qed

lemma Emit_calm:
  assumes "calm w" "t \<le> kLastType"
  shows "EmitPhysicalRecord t p w = (True, wrote (frame t p) (lw_block_offset w + (kHeaderSize + length p)) w)"
proof -
  have "crc32c (crc32c 0 [char_of t]) p = crc32c 0 (char_of t # p)" by (simp add: crc32c_append)
  then show ?thesis
    using assms type_crc [OF assms(2)]
    by (simp add: EmitPhysicalRecord_def Let_def calm_def wf_append_def wf_flush_def wrote_def frame_def header_def Extend_crc32c)
qed

text \<open>A reader of the whole log, that is before the bytes \<open>S\<close> at a position of a block.\<close>

definition reads :: "logreader \<Rightarrow> nat \<Rightarrow> bytes \<Rightarrow> bool" where
  "reads r pos S \<longleftrightarrow>
     rf_outcomes (lr_file r) = [] \<and> lr_initial_offset r = 0 \<and> pos \<le> kBlockSize \<and>
     lr_buffer r = take (kBlockSize - pos) S \<and> rf_data (lr_file r) = drop (kBlockSize - pos) S \<and>
     (if lr_eof r then length S \<le> kBlockSize - pos else kBlockSize - pos \<le> length S)"

lemma refill:
  assumes "reads r pos S" "kBlockSize - pos < kHeaderSize"
  shows "(length S \<le> kBlockSize - pos \<and> (\<exists>r'. ReadPhysicalRecord r = (kEof, [], r') \<and> lr_reports r' = lr_reports r)) \<or>
         (\<exists>r'. ReadPhysicalRecord r = ReadPhysicalRecord r' \<and> lr_reports r' = lr_reports r \<and>
               reads r' 0 (drop (kBlockSize - pos) S))"
proof (cases "lr_eof r")
  case True
  then show ?thesis using assms by (simp add: reads_def ReadPhysicalRecord.simps [of r])
next
  case False
  define r1 where "r1 = snd (readBlock r)"
  have s: "rf_outcomes (lr_file r) = []" "rf_data (lr_file r) = drop (kBlockSize - pos) S" "lr_initial_offset r = 0"
    "length (lr_buffer r) < kHeaderSize"
    using assms by (auto simp: reads_def)
  have "fst (readBlock r)" using s(1) by (simp add: readBlock_def rf_read_def Let_def)
  then have "ReadPhysicalRecord r = ReadPhysicalRecord r1"
    using False s(4) by (simp add: ReadPhysicalRecord.simps [of r] r1_def case_prod_beta)
  moreover have "reads r1 0 (drop (kBlockSize - pos) S)" "lr_reports r1 = lr_reports r"
    using s(1-3) False unfolding r1_def reads_def by (auto simp: readBlock_def rf_read_def Let_def)
  ultimately show ?thesis by blast
qed

lemma parse_frame:
  assumes "reads r pos (frame t p @ T)" "kHeaderSize + length p \<le> kBlockSize - pos" "0 < t" "t \<le> kLastType"
  shows "\<exists>r'. ReadPhysicalRecord r = (t, p, r') \<and> lr_reports r' = lr_reports r \<and> reads r' (pos + (kHeaderSize + length p)) T"
proof -
  let ?n = "kHeaderSize + length p"
  define q where "q = take (kBlockSize - pos - ?n) T"
  define e where "e = EncodeFixed32 (Mask (crc32c 0 (char_of t # p)))"
  define r' where "r' = r\<lparr>lr_buffer := q\<rparr>"
  have b: "lr_buffer r = e @ char_of (length p mod 256) # char_of (length p div 256) # char_of t # p @ q"
  proof -
    obtain k where k: "kBlockSize - pos = kHeaderSize + (length p + k)" using assms(2) by (metis le_Suc_ex add.assoc)
    then show ?thesis
      using assms(1) unfolding header_split [symmetric] e_def q_def reads_def frame_def
      by (simp del: header_split)
  qed
  have e: "length e = 4" "\<And>x. DecodeFixed32 (e @ x) = Mask (crc32c 0 (char_of t # p))" by (simp_all add: e_def)
  have n: "length p div 256 < 256" and init: "lr_initial_offset r = 0" using assms(1,2) by (auto simp: reads_def)
  have len: "length (lr_buffer r) = ?n + length q" "\<not> length (lr_buffer r) < kHeaderSize"
    "\<not> ?n + length q < ?n" by (simp_all add: b e)
  have size: "of_char (lr_buffer r ! 4) + 256 * of_char (lr_buffer r ! 5) = length p"
    using n by (simp add: b e nth_append)
  have type: "headerType (lr_buffer r ! 6) = t" using assms(4) by (simp add: b e nth_append headerType_def Let_def)
  have crc: "crcValue 0 (take (1 + length p) (drop 6 (lr_buffer r))) = Unmask (DecodeFixed32 (lr_buffer r))"
    by (simp add: b e crcValue_def Extend_crc32c Unmask_Mask)
  have d: "drop kHeaderSize (lr_buffer r) = p @ q" by (simp add: b e)
  have parts: "drop ?n (lr_buffer r) = q" "take (length p) (drop kHeaderSize (lr_buffer r)) = p"
  proof -
    have "drop (length p) (drop kHeaderSize (lr_buffer r)) = q" unfolding d by simp
    then show "drop ?n (lr_buffer r) = q" by (simp add: add.commute)
  qed (simp add: d)
  have "ReadPhysicalRecord r = parsePhysical r" by (simp only: ReadPhysicalRecord.simps [of r] len(2) if_False)
  also have "\<dots> = (t, p, r')"
    using assms(3) unfolding parsePhysical_def Let_def size type crc parts len
    by (simp add: init r'_def)
  finally show ?thesis
    using assms(1,2) by (auto simp: reads_def r'_def q_def add.commute add.left_commute)
qed

lemma parse_cut:
  assumes "reads r pos (take n (frame t p))" "n < kHeaderSize + length p" "kHeaderSize + length p \<le> kBlockSize - pos"
  shows "\<exists>r'. ReadPhysicalRecord r = (kEof, [], r') \<and> lr_reports r' = lr_reports r"
proof -
  have eof: "lr_eof r" and b: "lr_buffer r = take n (frame t p)"
    using assms by (auto simp: reads_def split: if_splits)
  show ?thesis
  proof (cases "n < kHeaderSize")
    case True
    then show ?thesis using eof b by (simp add: ReadPhysicalRecord.simps [of r])
  next
    case False
    have e: "length (EncodeFixed32 (Mask (crc32c 0 (char_of t # p)))) = 4" by simp
    obtain m where m: "n = kHeaderSize + m" using False by (metis le_Suc_ex not_less)
    have n: "length p div 256 < 256" using assms(3) by simp
    have c: "lr_buffer r = EncodeFixed32 (Mask (crc32c 0 (char_of t # p))) @
        char_of (length p mod 256) # char_of (length p div 256) # char_of t # take m p"
      using b m unfolding header_split [symmetric] by (simp add: frame_def)
    have "of_char (lr_buffer r ! 4) + 256 * of_char (lr_buffer r ! 5) = length p"
      using n by (simp add: c e nth_append)
    moreover have "length (lr_buffer r) = kHeaderSize + m" "m < length p" using assms(2) m by (simp_all add: c)
    ultimately show ?thesis using eof by (simp add: ReadPhysicalRecord.simps [of r] parsePhysical_def Let_def)
  qed
qed

text \<open>The same from the end of the fragment before it, over the trailer of its block.\<close>

definition ahead :: "logreader \<Rightarrow> nat \<Rightarrow> bytes \<Rightarrow> bool" where
  "ahead r pos S \<longleftrightarrow> reads r pos S \<or> pos = 0 \<and> reads r kBlockSize S"

lemma ahead_block:
  assumes "ahead r pos S"
  shows "(length S \<le> length (pad pos) \<and> (\<exists>r'. ReadPhysicalRecord r = (kEof, [], r') \<and> lr_reports r' = lr_reports r)) \<or>
         (\<exists>r'. ReadPhysicalRecord r = ReadPhysicalRecord r' \<and> lr_reports r' = lr_reports r \<and>
               reads r' (newOffset pos) (drop (length (pad pos)) S))"
proof (cases "kBlockSize - pos < kHeaderSize \<or> \<not> reads r pos S")
  case True
  have "kBlockSize - kBlockSize < kHeaderSize" by simp
  with True assms refill [of r pos S] refill [of r kBlockSize S] show ?thesis
    by (auto simp: ahead_def pad_def newOffset_def)
next
  case False
  then show ?thesis by (auto simp: pad_def newOffset_def)
qed

lemma ahead_frame:
  assumes "ahead r pos (pad pos @ frame t p @ T)" "kHeaderSize + length p \<le> kBlockSize - newOffset pos"
    "0 < t" "t \<le> kLastType"
  shows "\<exists>r'. ReadPhysicalRecord r = (t, p, r') \<and> lr_reports r' = lr_reports r \<and>
              reads r' (newOffset pos + (kHeaderSize + length p)) T"
proof -
  have "\<not> length (pad pos @ frame t p @ T) \<le> length (pad pos)" by simp
  then obtain r1 where "ReadPhysicalRecord r = ReadPhysicalRecord r1" "lr_reports r1 = lr_reports r"
    "reads r1 (newOffset pos) (frame t p @ T)"
    using ahead_block [OF assms(1)] by auto
  then show ?thesis using parse_frame [OF _ assms(2-4)] by metis
qed

lemma ahead_cut:
  assumes "ahead r pos (take n (pad pos @ frame t p))" "n < length (pad pos @ frame t p)"
    "kHeaderSize + length p \<le> kBlockSize - newOffset pos"
  shows "\<exists>r'. ReadPhysicalRecord r = (kEof, [], r') \<and> lr_reports r' = lr_reports r"
  using ahead_block [OF assms(1)]
proof (elim disjE conjE exE)
  fix r1
  assume r1: "ReadPhysicalRecord r = ReadPhysicalRecord r1" "lr_reports r1 = lr_reports r"
    "reads r1 (newOffset pos) (drop (length (pad pos)) (take n (pad pos @ frame t p)))"
  have "drop (length (pad pos)) (take n (pad pos @ frame t p)) = take (n - length (pad pos)) (frame t p)"
  proof (cases "n < length (pad pos)")
    case False
    then obtain m where "n = length (pad pos) + m" by (metis le_Suc_ex not_less)
    then show ?thesis by simp
  qed simp
  moreover have "n - length (pad pos) < kHeaderSize + length p" using assms(2) by auto
  ultimately show ?thesis using r1 parse_cut [OF _ _ assms(3)] by metis
qed blast

subsection \<open>A record\<close>

text \<open>
  What \<open>addLoop\<close> appended for the rest of a record: a reader of all of it gets the record, a
  reader of a part of it finds the end of the file, and nothing is reported.
\<close>

definition delivers :: "bool \<Rightarrow> bytes \<Rightarrow> nat \<Rightarrow> bytes \<Rightarrow> nat \<Rightarrow> bool" where
  "delivers begun rest pos S pos' \<longleftrightarrow>
     S \<noteq> [] \<and>
     (\<forall>r acc pro T. ahead r pos (S @ T) \<longrightarrow>
        (\<exists>r'. readLoop begun acc pro r = (Some ((if begun then acc else []) @ rest), r') \<and>
              lr_reports r' = lr_reports r \<and> reads r' pos' T)) \<and>
     (\<forall>r acc pro n. n < length S \<longrightarrow> ahead r pos (take n S) \<longrightarrow>
        (\<exists>r'. readLoop begun acc pro r = (None, r') \<and> lr_reports r' = lr_reports r))"

lemma readLoop_eof:
  "ReadPhysicalRecord r = (kEof, f, r') \<Longrightarrow> readLoop i acc pro r = (None, r')"
  by (simp add: readLoop.simps [of i acc pro r] Let_def)

lemma reads_last [simp]: "reads (r\<lparr>lr_last_record_offset := x\<rparr>) pos S = reads r pos S"
  by (simp add: reads_def)

lemma readLoop_end:
  assumes "ReadPhysicalRecord r = (fragmentType (\<not> begun) True, p, r1)"
  shows "\<exists>x. readLoop begun acc pro r = (Some ((if begun then acc else []) @ p), r1\<lparr>lr_last_record_offset := x\<rparr>)"
  using assms by (cases begun) (auto simp: readLoop.simps [of _ acc pro r] Let_def fragmentType_def)

lemma readLoop_more:
  assumes "ReadPhysicalRecord r = (fragmentType (\<not> begun) False, p, r1)"
  shows "\<exists>x. readLoop begun acc pro r = readLoop True ((if begun then acc else []) @ p) x r1"
  using assms by (cases begun) (auto simp: readLoop.simps [of _ acc pro r] Let_def fragmentType_def)

lemma fragmentType_range [simp]: "0 < fragmentType b e" "fragmentType b e \<le> kLastType"
  by (simp_all add: fragmentType_def)

lemma delivers_end:
  assumes "kHeaderSize + length p \<le> kBlockSize - newOffset pos"
  shows "delivers begun p pos (pad pos @ frame (fragmentType (\<not> begun) True) p) (newOffset pos + (kHeaderSize + length p))"
proof -
  have "\<exists>r'. readLoop begun acc pro r = (Some ((if begun then acc else []) @ p), r') \<and>
              lr_reports r' = lr_reports r \<and> reads r' (newOffset pos + (kHeaderSize + length p)) T"
    if a: "ahead r pos (pad pos @ frame (fragmentType (\<not> begun) True) p @ T)" for r acc pro T
  proof -
    obtain r1 where r1: "ReadPhysicalRecord r = (fragmentType (\<not> begun) True, p, r1)" "lr_reports r1 = lr_reports r"
      "reads r1 (newOffset pos + (kHeaderSize + length p)) T"
      using ahead_frame [OF a assms] by auto
    then show ?thesis using readLoop_end [OF r1(1), of acc pro] by fastforce
  qed
  then show ?thesis
    using ahead_cut [OF _ _ assms] readLoop_eof unfolding delivers_def by (fastforce simp: frame_def header_def)
qed

lemma delivers_more:
  assumes "kHeaderSize + length p \<le> kBlockSize - newOffset pos"
    "delivers True rest (newOffset pos + (kHeaderSize + length p)) S pos'"
  shows "delivers begun (p @ rest) pos (pad pos @ frame (fragmentType (\<not> begun) False) p @ S) pos'"
proof -
  let ?f = "fragmentType (\<not> begun) False"
  have full: "\<exists>r'. readLoop begun acc pro r = (Some ((if begun then acc else []) @ p @ rest), r') \<and>
              lr_reports r' = lr_reports r \<and> reads r' pos' T"
    if a: "ahead r pos (pad pos @ frame ?f p @ S @ T)" for r acc pro T
  proof -
    obtain r1 where r1: "ReadPhysicalRecord r = (?f, p, r1)" "lr_reports r1 = lr_reports r"
      "reads r1 (newOffset pos + (kHeaderSize + length p)) (S @ T)"
      using ahead_frame [OF a assms(1)] by auto
    obtain x where "readLoop begun acc pro r = readLoop True ((if begun then acc else []) @ p) x r1"
      using readLoop_more [OF r1(1)] by blast
    then show ?thesis using assms(2) r1(2,3) unfolding delivers_def ahead_def by (fastforce simp del: append_assoc simp: append_assoc [symmetric])
  qed
  have cut: "\<exists>r'. readLoop begun acc pro r = (None, r') \<and> lr_reports r' = lr_reports r"
    if a: "ahead r pos (take n (pad pos @ frame ?f p @ S))" "n < length (pad pos @ frame ?f p @ S)" for r acc pro n
  proof (cases "n < length (pad pos @ frame ?f p)")
    case True
    then have "take n (pad pos @ frame ?f p @ S) = take n (pad pos @ frame ?f p)"
      by (metis append_assoc take_all_iff take_append append_Nil2 diff_is_0_eq less_imp_le take0)
    then show ?thesis using a(1) ahead_cut [OF _ True assms(1)] readLoop_eof by metis
  next
    case False
    then obtain m where m: "n = length (pad pos @ frame ?f p) + m" by (metis le_Suc_ex not_less)
    then have "take n (pad pos @ frame ?f p @ S) = pad pos @ frame ?f p @ take m S" by simp
    then obtain r1 where r1: "ReadPhysicalRecord r = (?f, p, r1)" "lr_reports r1 = lr_reports r"
      "reads r1 (newOffset pos + (kHeaderSize + length p)) (take m S)"
      using ahead_frame [OF _ assms(1), of r ?f "take m S"] a(1) by auto
    obtain x where "readLoop begun acc pro r = readLoop True ((if begun then acc else []) @ p) x r1"
      using readLoop_more [OF r1(1)] by blast
    moreover have "m < length S" using a(2) m by simp
    ultimately show ?thesis using assms(2) r1(2,3) unfolding delivers_def ahead_def by fastforce
  qed
  show ?thesis using full cut unfolding delivers_def by (simp add: frame_def header_def)
qed

lemma addLoop_delivers:
  "calm w \<Longrightarrow>
     \<exists>S pos'. addLoop b rest w = (True, wrote S pos' w) \<and> delivers (\<not> b) rest (lw_block_offset w) S pos'"
proof (induction b rest w rule: addLoop.induct)
  case (1 b rest w)
  let ?pos = "lw_block_offset w"
  define w1 where "w1 = switchBlock w"
  define avail where "avail = kBlockSize - lw_block_offset w1 - kHeaderSize"
  define len where "len = (if length rest < avail then length rest else avail)"
  define t where "t = fragmentType b (length rest = len)"
  have w1: "w1 = wrote (pad ?pos) (newOffset ?pos) w" using 1(2) unfolding w1_def by (rule switchBlock_calm)
  have room: "kHeaderSize + length (take len rest) \<le> kBlockSize - newOffset ?pos" and len: "len \<le> length rest"
    using newOffset_room [of ?pos] by (auto simp: len_def avail_def w1)
  define w2 where
    "w2 = wrote (pad ?pos @ frame t (take len rest)) (newOffset ?pos + (kHeaderSize + length (take len rest))) w"
  have e: "EmitPhysicalRecord t (take len rest) w1 = (True, w2)"
    using Emit_calm [of w1 t "take len rest"] 1(2) by (simp add: w1 w2_def t_def)
  have step: "addLoop b rest w = (if drop len rest \<noteq> [] then addLoop False (drop len rest) w2 else (True, w2))"
    unfolding addLoop.simps [of b rest w] w1_def [symmetric] avail_def [symmetric] len_def [symmetric] t_def [symmetric] Let_def
    by (simp add: e)
  show ?case
  proof (cases "drop len rest = []")
    case True
    then have "len = length rest" using len by simp
    then show ?thesis
      using True step delivers_end [of rest ?pos "\<not> b"] room by (fastforce simp: w2_def t_def)
  next
    case False
    then have t: "t = fragmentType b False" by (auto simp: t_def)
    have "calm w2" using 1(2) by (simp add: w2_def)
    then obtain S pos' where S: "addLoop False (drop len rest) w2 = (True, wrote S pos' w2)"
      "delivers True (drop len rest) (lw_block_offset w2) S pos'"
      using 1(1) [OF w1_def avail_def len_def refl e [symmetric, unfolded t_def] refl] False by auto
    then show ?thesis
      using step False delivers_more [OF room, of "drop len rest" S pos' "\<not> b"] t
      by (fastforce simp: w2_def)
  qed
qed

subsection \<open>The log\<close>

definition addRecords :: "logwriter \<Rightarrow> bytes list \<Rightarrow> logwriter" where
  "addRecords = foldl (\<lambda>w rec. snd (AddRecord rec w))"

definition logged :: "logwriter \<Rightarrow> nat" where
  "logged w = length (wf_data (lw_dest w))"

lemma addRecords_simps [simp]:
  "addRecords w [] = w" "addRecords w (rec # recs) = addRecords (snd (AddRecord rec w)) recs"
  by (simp_all add: addRecords_def)

lemma AddRecord_delivers:
  "calm w \<Longrightarrow>
     \<exists>S pos'. AddRecord rec w = (True, wrote S pos' w) \<and> delivers False rec (lw_block_offset w) S pos'"
  using addLoop_delivers [of w True rec] by (simp add: AddRecord_def)

lemma AddRecord_calm: "calm w \<Longrightarrow> calm (snd (AddRecord rec w))"
  by (metis AddRecord_delivers snd_conv wrote_simps(2))

lemma logged_mono: "calm w \<Longrightarrow> logged w \<le> logged (addRecords w recs)"
proof (induction recs arbitrary: w)
  case (Cons rec recs)
  have "logged w \<le> logged (snd (AddRecord rec w))" using AddRecord_delivers [OF Cons.prems, of rec] by (auto simp: logged_def)
  then show ?case using Cons.IH [OF AddRecord_calm [OF Cons.prems]] by (metis addRecords_simps(2) le_trans)
qed simp

lemma ahead_ReadRecord: "ahead r pos S \<Longrightarrow> ReadRecord r = readLoop False [] 0 r"
  by (auto simp: ahead_def reads_def ReadRecord_def)

lemma readRecords_end:
  assumes "ahead r pos S" "readLoop False [] 0 r = (None, r')"
  shows "readRecords r = ([], r')"
  using assms(2) ahead_ReadRecord [OF assms(1)] by (simp add: readRecords.simps [of r])

lemma readRecords_cut:
  "calm w \<Longrightarrow>
     \<exists>S. wf_data (lw_dest (addRecords w recs)) = wf_data (lw_dest w) @ S \<and>
         (\<forall>n r. ahead r (lw_block_offset w) (take n S) \<longrightarrow>
            (\<exists>m r'. readRecords r = (take m recs, r') \<and> lr_reports r' = lr_reports r \<and>
                    (\<forall>k \<le> length recs. logged (addRecords w (take k recs)) \<le> logged w + n \<longrightarrow> k \<le> m)))"
proof (induction recs arbitrary: w)
  case Nil
  have "\<exists>r'. readRecords r = ([], r') \<and> lr_reports r' = lr_reports r" if a: "ahead r (lw_block_offset w) []" for r
  proof -
    have "kHeaderSize + length [] \<le> kBlockSize - newOffset (lw_block_offset w)"
      using newOffset_room [of "lw_block_offset w"] by simp
    then obtain r' where "ReadPhysicalRecord r = (kEof, [], r')" "lr_reports r' = lr_reports r"
      using ahead_cut [of r "lw_block_offset w" 0 1 "[]"] a by auto
    then show ?thesis using readRecords_end [OF a readLoop_eof] by blast
  qed
  then show ?case by simp
next
  case (Cons rec recs)
  obtain S1 pos where S1: "AddRecord rec w = (True, wrote S1 pos w)" "delivers False rec (lw_block_offset w) S1 pos"
    using AddRecord_delivers [OF Cons.prems] by blast
  let ?w = "wrote S1 pos w"
  have calm: "calm ?w" using Cons.prems by simp
  obtain S2 where S2: "wf_data (lw_dest (addRecords ?w recs)) = wf_data (lw_dest ?w) @ S2"
    and IH: "\<And>n r. ahead r pos (take n S2) \<Longrightarrow>
      \<exists>m r'. readRecords r = (take m recs, r') \<and> lr_reports r' = lr_reports r \<and>
             (\<forall>k \<le> length recs. logged (addRecords ?w (take k recs)) \<le> logged ?w + n \<longrightarrow> k \<le> m)"
    using Cons.IH [OF calm] by auto
  have size: "logged ?w = logged w + length S1" by (simp add: logged_def)
  have "\<exists>m r'. readRecords r = (take m (rec # recs), r') \<and> lr_reports r' = lr_reports r \<and>
             (\<forall>k \<le> length (rec # recs). logged (addRecords w (take k (rec # recs))) \<le> logged w + n \<longrightarrow> k \<le> m)"
    if a: "ahead r (lw_block_offset w) (take n (S1 @ S2))" for n r
  proof (cases "n < length S1")
    case True
    then have "k = 0" if "logged (addRecords w (take k (rec # recs))) \<le> logged w + n" for k
      using that logged_mono [OF calm, of "take (k - 1) recs"] size S1(1) by (cases k) auto
    moreover obtain r' where "readLoop False [] 0 r = (None, r')" "lr_reports r' = lr_reports r"
      using S1(2) True a unfolding delivers_def by fastforce
    ultimately show ?thesis using readRecords_end [OF a] by (metis le_refl take0)
  next
    case False
    then obtain j where j: "n = length S1 + j" by (metis le_Suc_ex not_less)
    then obtain r1 where r1: "readLoop False [] 0 r = (Some rec, r1)" "lr_reports r1 = lr_reports r" "reads r1 pos (take j S2)"
      using S1(2) a unfolding delivers_def by fastforce
    obtain m r' where m: "readRecords r1 = (take m recs, r')" "lr_reports r' = lr_reports r1"
      "\<forall>k \<le> length recs. logged (addRecords ?w (take k recs)) \<le> logged ?w + j \<longrightarrow> k \<le> m"
      using IH [of r1 j] r1(3) by (auto simp: ahead_def)
    have "k \<le> Suc m"
      if "k \<le> length (rec # recs)" "logged (addRecords w (take k (rec # recs))) \<le> logged w + n" for k
      using that m(3) size j S1(1) by (cases k) auto
    moreover have "readRecords r = (take (Suc m) (rec # recs), r')"
      using r1(1) ahead_ReadRecord [OF a] m(1) by (simp add: readRecords.simps [of r])
    ultimately show ?thesis using m(2) r1(2) by metis
  qed
  then show ?case using S1(1) S2 by (intro exI [of _ "S1 @ S2"]) simp
qed

text \<open>A new log, and the reader of what is left of it after a crash.\<close>

definition newLog :: logwriter where
  "newLog = logWriter \<lparr>wf_data = [], wf_outcomes = []\<rparr>"

definition recoverLog :: "bool \<Rightarrow> bytes \<Rightarrow> bytes list \<times> logreader" where
  "recoverLog checksum dat = readRecords (logReader \<lparr>rf_data = dat, rf_outcomes = []\<rparr> True checksum 0)"

lemma recoverLog_cut:
  "\<exists>m r. recoverLog checksum (take n (wf_data (lw_dest (addRecords newLog recs)))) = (take m recs, r) \<and> lr_reports r = [] \<and>
         (\<forall>k \<le> length recs. logged (addRecords newLog (take k recs)) \<le> n \<longrightarrow> k \<le> m)"
proof -
  have "calm newLog" "lw_block_offset newLog = 0" "wf_data (lw_dest newLog) = []" "logged newLog = 0"
    by (simp_all add: newLog_def logWriter_def calm_def logged_def)
  moreover have "ahead (logReader \<lparr>rf_data = dat, rf_outcomes = []\<rparr> True checksum 0) 0 dat"
    "lr_reports (logReader \<lparr>rf_data = dat, rf_outcomes = []\<rparr> True checksum 0) = []" for dat
    by (simp_all add: ahead_def reads_def logReader_def)
  ultimately show ?thesis
    using readRecords_cut [of newLog recs] unfolding recoverLog_def by fastforce
qed

lemma addRecords_calm: "calm w \<Longrightarrow> calm (addRecords w recs)"
  by (induction recs arbitrary: w) (simp_all add: AddRecord_calm)

lemma addRecords_ok: "fst (AddRecord rec (addRecords newLog recs))"
proof -
  have "calm newLog" by (simp add: newLog_def logWriter_def calm_def)
  then show ?thesis using AddRecord_delivers [OF addRecords_calm] by (metis fst_conv)
qed

end
