(* ===== verification/LdbDb.thy ===== *)
theory LdbDb
  imports LdbBatch LdbLogLaws
begin

text \<open>
  leveldb/db/db_impl.cc: the path of a write, from the queue of the writers through the log
  into the memtable, and the recovery of a log. What the background thread does while a
  writer sleeps or waits is a list of changes, the outcomes of the file operations are
  lists, and the memory that a memtable uses is a function of it; the tables that the
  recovery makes of memtables are the memtables it hands to \<open>WriteLevel0Table\<close>.
\<close>

subsection \<open>Writers\<close>

record dbwriter =
  w_batch :: "wbatch option"
  w_sync :: bool

fun groupLoop :: "bool \<Rightarrow> nat \<Rightarrow> bool \<Rightarrow> wbatch \<Rightarrow> nat \<Rightarrow> nat \<Rightarrow> dbwriter list \<Rightarrow> wbatch \<times> nat" where
  "groupLoop first_sync max_size own result sz n [] = (result, n)"
| "groupLoop first_sync max_size own result sz n (w # ws) =
     (if w_sync w \<and> \<not> first_sync then (result, n)
      else case w_batch w of
          None \<Rightarrow> groupLoop first_sync max_size own result sz (n + 1) ws
        | Some b \<Rightarrow>
            (let sz' = sz + length b
             in if sz' > max_size then (result, n)
                else let result1 = (if own then wb_Append result wb_Clear else result)
                  in groupLoop first_sync max_size False (wb_Append b result1) sz' (n + 1) ws))"

text \<open>The batch of the group, and how many writers of the queue are in it.\<close>

definition BuildBatchGroup :: "wbatch \<Rightarrow> dbwriter list \<Rightarrow> wbatch \<times> nat" where
  "BuildBatchGroup first_batch ws =
     (let sz = length first_batch;
          max_size = (if sz \<le> 128 * 1024 then sz + 128 * 1024 else 1024 * 1024)
      in groupLoop (w_sync (hd ws)) max_size True first_batch sz 1 (tl ws))"

subsection \<open>The database\<close>

record ldb =
  db_last_sequence :: "64 word"
  db_mem :: memtable
  db_imm :: "memtable option"
  db_log :: logwriter
  db_closed_logs :: "bytes list"
  db_bg_error :: ldbstatus
  db_l0 :: nat

text \<open>What another thread may have changed when a writer has the lock again.\<close>

record dbchange =
  ch_error :: "ldbstatus option"
  ch_compacted :: bool
  ch_l0 :: nat

definition applyChange :: "dbchange \<Rightarrow> ldb \<Rightarrow> ldb" where
  "applyChange ch db =
     db\<lparr>db_bg_error := (case ch_error ch of None \<Rightarrow> db_bg_error db | Some s \<Rightarrow> s),
        db_imm := (if ch_compacted ch then None else db_imm db), db_l0 := ch_l0 ch\<rparr>"

abbreviation (input) kL0_SlowdownWritesTrigger :: nat where "kL0_SlowdownWritesTrigger \<equiv> 8"
abbreviation (input) kL0_StopWritesTrigger :: nat where "kL0_StopWritesTrigger \<equiv> 12"

text \<open>
  \<open>MakeRoomForWrite\<close>; \<open>None\<close> where the writer waits for ever. A sleep may pass without a
  change, a wait does not end without one.
\<close>

function makeRoomLoop ::
  "(memtable \<Rightarrow> nat) \<Rightarrow> nat \<Rightarrow> bool \<Rightarrow> bool \<Rightarrow> dbchange list \<Rightarrow> ldbstatus list \<Rightarrow> ldb \<Rightarrow> (ldbstatus \<times> ldb) option" where
  "makeRoomLoop usage write_buffer_size force allow_delay chs files db =
     (if db_bg_error db \<noteq> sOK then Some (db_bg_error db, db)
      else if allow_delay \<and> db_l0 db \<ge> kL0_SlowdownWritesTrigger then
        (case chs of
           [] \<Rightarrow> makeRoomLoop usage write_buffer_size force False [] files db
         | ch # chs' \<Rightarrow> makeRoomLoop usage write_buffer_size force False chs' files (applyChange ch db))
      else if \<not> force \<and> usage (db_mem db) \<le> write_buffer_size then Some (sOK, db)
      else if db_imm db \<noteq> None \<or> db_l0 db \<ge> kL0_StopWritesTrigger then
        (case chs of
           [] \<Rightarrow> None
         | ch # chs' \<Rightarrow> makeRoomLoop usage write_buffer_size force allow_delay chs' files (applyChange ch db))
      else
        (let (s, files') = (case files of [] \<Rightarrow> (sOK, []) | f # fs \<Rightarrow> (f, fs))
         in if s \<noteq> sOK then Some (s, db)
            else makeRoomLoop usage write_buffer_size False allow_delay chs files'
                   (db\<lparr>db_log := logWriter \<lparr>wf_data = [], wf_outcomes = []\<rparr>,
                       db_closed_logs := db_closed_logs db @ [wf_data (lw_dest (db_log db))],
                       db_imm := Some (db_mem db), db_mem := newMemTable\<rparr>)))"
  by auto
termination
  by (relation "measures [\<lambda>(u, b, force, delay, chs, files, db). length chs,
                          \<lambda>(u, b, force, delay, chs, files, db). if db_imm db = None then 1 else 0,
                          \<lambda>(u, b, force, delay, chs, files, db). if delay then 1 else 0]") auto

declare makeRoomLoop.simps [simp del]

definition MakeRoomForWrite ::
  "(memtable \<Rightarrow> nat) \<Rightarrow> nat \<Rightarrow> bool \<Rightarrow> dbchange list \<Rightarrow> ldbstatus list \<Rightarrow> ldb \<Rightarrow> (ldbstatus \<times> ldb) option" where
  "MakeRoomForWrite usage write_buffer_size force chs files db =
     makeRoomLoop usage write_buffer_size force (\<not> force) chs files db"

definition RecordBackgroundError :: "ldbstatus \<Rightarrow> ldb \<Rightarrow> ldb" where
  "RecordBackgroundError s db = (if db_bg_error db = sOK then db\<lparr>db_bg_error := s\<rparr> else db)"

text \<open>The part of \<open>Write\<close> between the lock and the queue, for the batch of a group.\<close>

definition writeGroup :: "comparator \<Rightarrow> bool \<Rightarrow> ldbstatus \<Rightarrow> wbatch \<Rightarrow> ldb \<Rightarrow> (ldbstatus \<times> ldb) option" where
  "writeGroup C sync syncStatus updates0 db =
     (let updates = wb_SetSequence (db_last_sequence db + 1) updates0;
          last_sequence = db_last_sequence db + word_of_int (wb_Count updates);
          (ok, log') = AddRecord updates (db_log db);
          db1 = db\<lparr>db_log := log'\<rparr>;
          sync_error = (ok \<and> sync \<and> syncStatus \<noteq> sOK);
          status1 = (if \<not> ok then sIOError ''log'' else if sync then syncStatus else sOK)
      in case (if status1 = sOK then wb_InsertInto C updates (db_mem db1) else Some (status1, db_mem db1)) of
           None \<Rightarrow> None
         | Some (status, mem') \<Rightarrow>
             (let db2 = db1\<lparr>db_mem := mem'\<rparr>;
                  db3 = (if sync_error then RecordBackgroundError status db2 else db2)
              in Some (status, db3\<lparr>db_last_sequence := last_sequence\<rparr>)))"

text \<open>
  \<open>Write\<close> for the writer at the front of the queue: its status, which every writer of the
  group gets, the writers that are left in the queue and the database.
\<close>

definition dbWrite ::
  "comparator \<Rightarrow> (memtable \<Rightarrow> nat) \<Rightarrow> nat \<Rightarrow> dbchange list \<Rightarrow> ldbstatus list \<Rightarrow> ldbstatus \<Rightarrow> dbwriter list \<Rightarrow> ldb \<Rightarrow>
     (ldbstatus \<times> dbwriter list \<times> ldb) option" where
  "dbWrite C usage write_buffer_size chs files syncStatus writers db =
     (let w = hd writers
      in case MakeRoomForWrite usage write_buffer_size (w_batch w = None) chs files db of
           None \<Rightarrow> None
         | Some (status, db1) \<Rightarrow>
             (case w_batch w of
                Some my_batch \<Rightarrow>
                  if status = sOK then
                    (let (updates, n) = BuildBatchGroup my_batch writers
                     in map_option (\<lambda>(status', db2). (status', drop n writers, db2)) (writeGroup C (w_sync w) syncStatus updates db1))
                  else Some (status, tl writers, db1)
              | None \<Rightarrow> Some (status, tl writers, db1)))"

text \<open>A read that the memtables can answer; the tables of the version are a function.\<close>

definition dbGet :: "comparator \<Rightarrow> (lookupkey \<Rightarrow> ldbstatus \<times> bytes) \<Rightarrow> 64 word option \<Rightarrow> bytes \<Rightarrow> ldb \<Rightarrow> (ldbstatus \<times> bytes) option" where
  "dbGet C tables snapshot key db =
     (let lkey = LookupKey key (case snapshot of Some s \<Rightarrow> s | None \<Rightarrow> db_last_sequence db)
      in case mem_Get C lkey (db_mem db) of
           None \<Rightarrow> None
         | Some (memFound v) \<Rightarrow> Some (sOK, v)
         | Some memDeleted \<Rightarrow> Some (sNotFound, [])
         | Some memAbsent \<Rightarrow>
             (case (case db_imm db of None \<Rightarrow> Some memAbsent | Some imm \<Rightarrow> mem_Get C lkey imm) of
                None \<Rightarrow> None
              | Some (memFound v) \<Rightarrow> Some (sOK, v)
              | Some memDeleted \<Rightarrow> Some (sNotFound, [])
              | Some memAbsent \<Rightarrow> Some (tables lkey)))"

subsection \<open>The recovery of a log\<close>

record recovery =
  rc_status :: ldbstatus
  rc_mem :: "memtable option"
  rc_max_sequence :: "64 word"
  rc_tables :: "memtable list"
  rc_outcomes :: "ldbstatus list"

definition MaybeIgnoreError :: "bool \<Rightarrow> ldbstatus \<Rightarrow> ldbstatus" where
  "MaybeIgnoreError paranoid_checks s = (if s = sOK \<or> paranoid_checks then s else sOK)"

text \<open>The reporter of the log reader keeps the first corruption, with paranoid checks only.\<close>

definition noteCorruption :: "bool \<Rightarrow> string list \<Rightarrow> recovery \<Rightarrow> recovery" where
  "noteCorruption paranoid_checks reasons st =
     (if paranoid_checks \<and> rc_status st = sOK \<and> reasons \<noteq> [] then st\<lparr>rc_status := sCorruption (hd reasons)\<rparr> else st)"

definition WriteLevel0Table :: "memtable \<Rightarrow> recovery \<Rightarrow> recovery" where
  "WriteLevel0Table mem st =
     (let (s, os) = (case rc_outcomes st of [] \<Rightarrow> (sOK, []) | s # os \<Rightarrow> (s, os))
      in st\<lparr>rc_status := s, rc_outcomes := os, rc_tables := (if s = sOK then rc_tables st @ [mem] else rc_tables st)\<rparr>)"

function recoverLoop ::
  "comparator \<Rightarrow> bool \<Rightarrow> (memtable \<Rightarrow> nat) \<Rightarrow> nat \<Rightarrow> logreader \<Rightarrow> recovery \<Rightarrow> recovery option" where
  "recoverLoop C paranoid_checks usage write_buffer_size r st =
     (let (rec, r') = ReadRecord r;
          st1 = noteCorruption paranoid_checks (map snd (drop (length (lr_reports r)) (lr_reports r'))) st
      in case rec of
           None \<Rightarrow> Some st1
         | Some record \<Rightarrow>
             if rc_status st1 \<noteq> sOK then Some st1
             else if length record < 12 then
               recoverLoop C paranoid_checks usage write_buffer_size r'
                 (noteCorruption paranoid_checks [''log record too small''] st1)
             else
               let b = wb_SetContents record
               in case wb_InsertInto C b (case rc_mem st1 of None \<Rightarrow> newMemTable | Some mem \<Rightarrow> mem) of
                    None \<Rightarrow> None
                  | Some (s, mem) \<Rightarrow>
                      let st2 = st1\<lparr>rc_mem := Some mem, rc_status := MaybeIgnoreError paranoid_checks s\<rparr>
                      in if rc_status st2 \<noteq> sOK then Some st2
                         else
                           let last_seq = wb_Sequence b + word_of_int (wb_Count b) - 1;
                               st3 = (if last_seq > rc_max_sequence st2 then st2\<lparr>rc_max_sequence := last_seq\<rparr> else st2)
                           in if usage mem > write_buffer_size then
                                (let st4 = WriteLevel0Table mem st3
                                 in if rc_status st4 \<noteq> sOK then Some st4
                                    else recoverLoop C paranoid_checks usage write_buffer_size r' (st4\<lparr>rc_mem := None\<rparr>))
                              else recoverLoop C paranoid_checks usage write_buffer_size r' st3)"
  by auto
termination
  by (relation "measure (\<lambda>(C, p, u, b, r, st). lr_left r)") (auto dest!: ReadRecord_left [OF sym])

declare recoverLoop.simps [simp del]

definition RecoverLogFile ::
  "comparator \<Rightarrow> bool \<Rightarrow> (memtable \<Rightarrow> nat) \<Rightarrow> nat \<Rightarrow> (ldbstatus + rfile) \<Rightarrow> 64 word \<Rightarrow> ldbstatus list \<Rightarrow> recovery option" where
  "RecoverLogFile C paranoid_checks usage write_buffer_size opened max_sequence outcomes =
     (case opened of
        Inl s \<Rightarrow> Some \<lparr>rc_status = MaybeIgnoreError paranoid_checks s, rc_mem = None, rc_max_sequence = max_sequence,
                        rc_tables = [], rc_outcomes = outcomes\<rparr>
      | Inr f \<Rightarrow>
          map_option
            (\<lambda>st. case rc_mem st of
                Some mem \<Rightarrow> if rc_status st = sOK then WriteLevel0Table mem st else st
              | None \<Rightarrow> st)
            (recoverLoop C paranoid_checks usage write_buffer_size (logReader f True True 0)
               \<lparr>rc_status = sOK, rc_mem = None, rc_max_sequence = max_sequence, rc_tables = [], rc_outcomes = outcomes\<rparr>))"

end
