(* ===== verification/LdbDbLaws.thy ===== *)
theory LdbDbLaws
  imports LdbDb
begin

text \<open>
  A group of writers is one batch with their updates in the order of the queue; writing it
  appends one record to the log and its entries to the memtable; and the recovery of a log
  cut anywhere gives the entries of its complete groups, and of no other.
\<close>

subsection \<open>Groups\<close>

text \<open>The updates that a writer asks for, none when it only wants a compaction.\<close>

definition asks :: "dbwriter \<Rightarrow> wbop list \<Rightarrow> bool" where
  "asks w ops \<longleftrightarrow> (case w_batch w of None \<Rightarrow> ops = [] | Some b \<Rightarrow> (\<exists>sq. b = batchBytes sq ops))"

lemma groupLoop_concat:
  assumes "list_all2 asks ws opss"
  shows "\<exists>sq' m. groupLoop first_sync max_size own (batchBytes sq ops) sz n ws =
      (batchBytes sq' (ops @ concat (take m opss)), n + m) \<and> m \<le> length ws"
  using assms
proof (induction ws opss arbitrary: own sq ops sz n rule: list_all2_induct)
  case Nil
  then show ?case by fastforce
next
  case (Cons w ws o1 opss)
  have stop: ?case if "groupLoop first_sync max_size own (batchBytes sq ops) sz n (w # ws) = (batchBytes sq ops, n)"
    using that by (intro exI [of _ sq] exI [of _ 0]) simp
  show ?case
  proof (cases "w_sync w \<and> \<not> first_sync")
    case True
    then show ?thesis by (intro stop) simp
  next
    case go: False
    show ?thesis
    proof (cases "w_batch w")
      case None
      then have "o1 = []" using Cons.hyps(1) by (simp add: asks_def)
      moreover obtain sq' m where "groupLoop first_sync max_size own (batchBytes sq ops) sz (n + 1) ws =
          (batchBytes sq' (ops @ concat (take m opss)), n + 1 + m)" "m \<le> length ws"
        using Cons.IH by blast
      ultimately show ?thesis using go None by (intro exI [of _ sq'] exI [of _ "Suc m"]) simp
    next
      case (Some b)
      then obtain sq1 where b: "b = batchBytes sq1 o1" using Cons.hyps(1) by (auto simp: asks_def)
      show ?thesis
      proof (cases "sz + length b > max_size")
        case True
        then show ?thesis using go Some by (intro stop) simp
      next
        case False
        obtain sq2 where "(if own then wb_Append (batchBytes sq ops) wb_Clear else batchBytes sq ops) = batchBytes sq2 ops"
          by (cases own) (auto simp: wb_Clear_batch wb_Append_batch)
        then have "groupLoop first_sync max_size own (batchBytes sq ops) sz n (w # ws) =
            groupLoop first_sync max_size False (batchBytes sq2 (ops @ o1)) (sz + length b) (n + 1) ws"
          using Some False unfolding groupLoop.simps if_not_P [OF go] by (simp add: b wb_Append_batch Let_def)
        moreover obtain sq' m where "groupLoop first_sync max_size False (batchBytes sq2 (ops @ o1)) (sz + length b) (n + 1) ws =
            (batchBytes sq' ((ops @ o1) @ concat (take m opss)), n + 1 + m)" "m \<le> length ws"
          using Cons.IH by blast
        ultimately show ?thesis by (intro exI [of _ sq'] exI [of _ "Suc m"]) simp
      qed
    qed
  qed
qed

lemma BuildBatchGroup_concat:
  assumes "list_all2 asks ws opss" "w_batch w = Some (batchBytes sq ops)"
  shows "\<exists>sq' m. BuildBatchGroup (batchBytes sq ops) (w # ws) = (batchBytes sq' (ops @ concat (take m opss)), Suc m) \<and>
      m \<le> length ws"
  using groupLoop_concat [OF assms(1), of "w_sync w" _ True sq ops "length (batchBytes sq ops)" 1]
  by (fastforce simp: BuildBatchGroup_def Let_def)

subsection \<open>Writing a group\<close>

text \<open>Groups with consecutive numbers, from the number before them to the last of them.\<close>

fun consecutive :: "64 word \<Rightarrow> (64 word \<times> wbop list) list \<Rightarrow> 64 word \<Rightarrow> bool" where
  "consecutive n [] m \<longleftrightarrow> m = n"
| "consecutive n ((sq, ops) # recs) m \<longleftrightarrow>
     sq = n + 1 \<and> room sq (length ops) \<and> length ops < 2 ^ 31 \<and> (\<forall>p \<in> set ops. opSmall p) \<and>
     consecutive (n + of_nat (length ops)) recs m"

definition groupBytes :: "(64 word \<times> wbop list) list \<Rightarrow> bytes list" where
  "groupBytes recs = map (\<lambda>(sq, ops). batchBytes sq ops) recs"

definition groupEntries :: "(64 word \<times> wbop list) list \<Rightarrow> entry set" where
  "groupEntries recs = (\<Union>(sq, ops) \<in> set recs. set (opEntries sq ops))"

lemma groupEntries_simps [simp]:
  "groupEntries [] = {}" "groupEntries ((sq, ops) # recs) = set (opEntries sq ops) \<union> groupEntries recs"
  "groupEntries (recs @ recs') = groupEntries recs \<union> groupEntries recs'"
  by (auto simp: groupEntries_def)

lemma opEntries_range:
  "room (n + 1) (length ops) \<Longrightarrow> unat n < 2 ^ 56 \<Longrightarrow>
     unat (n + of_nat (length ops)) = unat n + length ops \<and>
     (\<forall>e \<in> set (opEntries (n + 1) ops). unat n < unat (e_seq e) \<and> unat (e_seq e) \<le> unat n + length ops)"
proof (induction ops arbitrary: n)
  case (Cons p ops)
  have u: "unat (n + 1) = unat n + 1" using Cons.prems(2) by (simp add: unat_plus_if')
  have r: "room (n + 1 + 1) (length ops)" "unat (n + 1) < 2 ^ 56"
    using room_next [of "n + 1" "length ops"] Cons.prems(1) u by (simp_all add: room_def)
  have "n + of_nat (length (p # ops)) = n + 1 + of_nat (length ops)" by simp
  then show ?case using Cons.IH [OF r] u by (auto simp: add.assoc)
qed simp

text \<open>A memtable none of whose entries is newer than a number.\<close>

definition holdsUpTo :: "comparator \<Rightarrow> memtable \<Rightarrow> 64 word \<Rightarrow> bool" where
  "holdsUpTo C mem n \<longleftrightarrow> (\<exists>es. mem_holds C mem es \<and> (\<forall>e \<in> set es. e_seq e \<le> n))"

definition ldb_ok :: "comparator \<Rightarrow> 64 word \<Rightarrow> ldb \<Rightarrow> (64 word \<times> wbop list) list \<Rightarrow> bool" where
  "ldb_ok C start db recs \<longleftrightarrow>
     unat start < 2 ^ 56 \<and> (\<forall>imm. db_imm db = Some imm \<longrightarrow> holdsUpTo C imm (db_last_sequence db)) \<and>
     consecutive start recs (db_last_sequence db) \<and> db_log db = addRecords newLog (groupBytes recs) \<and>
     unat (db_last_sequence db) < 2 ^ 56 \<and>
     (\<exists>es. mem_holds C (db_mem db) es \<and> set es = groupEntries recs \<and> (\<forall>e \<in> set es. e_seq e \<le> db_last_sequence db))"

lemma holdsUpTo_mono: "holdsUpTo C mem n \<Longrightarrow> n \<le> n' \<Longrightarrow> holdsUpTo C mem n'"
  by (auto simp: holdsUpTo_def intro: order_trans)

lemma known_stable:
  assumes "\<forall>e \<in> set es. e_seq e \<le> n" "n \<le> n'"
  shows "known C es n' = known C es n"
proof -
  have "filter (\<lambda>e. cmp_Compare C (e_key e) k = 0 \<and> e_seq e \<le> n') es = filter (\<lambda>e. cmp_Compare C (e_key e) k = 0 \<and> e_seq e \<le> n) es" for k
    using assms by (intro filter_cong) (auto intro: order_trans)
  then show ?thesis by (simp add: known_def visible_def fun_eq_iff)
qed

lemma consecutive_append:
  "consecutive n (recs @ [(sq, ops)]) m \<longleftrightarrow>
     (\<exists>k. consecutive n recs k \<and> sq = k + 1 \<and> room sq (length ops) \<and> length ops < 2 ^ 31 \<and>
          (\<forall>p \<in> set ops. opSmall p) \<and> m = k + of_nat (length ops))"
  by (induction n recs m rule: consecutive.induct) auto

lemma addRecords_append: "addRecords w (recs @ [rec]) = snd (AddRecord rec (addRecords w recs))"
  by (simp add: addRecords_def)

context comparator_laws
begin

lemma writeGroup_ok:
  assumes "ldb_ok C start db recs" "\<forall>p \<in> set ops. opSmall p" "length ops < 2 ^ 31"
    "room (db_last_sequence db + 1) (length ops)" "unat (db_last_sequence db) + length ops < 2 ^ 56"
    "mem_holds C (db_mem db) es" "set es = groupEntries recs"
  shows "\<exists>db' es'. writeGroup C sync sOK (batchBytes sq0 ops) db = Some (sOK, db') \<and>
      ldb_ok C start db' (recs @ [(db_last_sequence db + 1, ops)]) \<and>
      unat (db_last_sequence db') = unat (db_last_sequence db) + length ops \<and>
      db_bg_error db' = db_bg_error db \<and> db_imm db' = db_imm db \<and>
      mem_holds C (db_mem db') es' \<and>
      (\<forall>k. known C es' (db_last_sequence db') k = foldl (opKnown C) (known C es (db_last_sequence db)) ops k) \<and>
      (\<forall>s k. s \<le> db_last_sequence db \<longrightarrow> known C es' s k = known C es s k)"
proof -
  let ?last = "db_last_sequence db"
  let ?b = "batchBytes (?last + 1) ops"
  have last: "unat ?last < 2 ^ 56" "consecutive start recs ?last" "db_log db = addRecords newLog (groupBytes recs)"
    and old: "\<forall>e \<in> set es. e_seq e \<le> ?last" and start: "unat start < 2 ^ 56"
    using assms(1,7) by (auto simp: ldb_ok_def)
  have range: "unat (?last + of_nat (length ops)) = unat ?last + length ops"
    "\<forall>e \<in> set (opEntries (?last + 1) ops). unat (e_seq e) \<le> unat ?last + length ops"
    using opEntries_range [OF assms(4) last(1)] by auto
  have imm: "holdsUpTo C i (?last + of_nat (length ops))" if "db_imm db = Some i" for i
    using assms(1) that range(1) by (auto simp: ldb_ok_def word_le_nat_alt intro: holdsUpTo_mono)
  have "\<forall>e \<in> set es. unat (e_seq e) \<le> unat ?last + length ops"
    using old by (auto simp: word_le_nat_alt intro: trans_le_add1)
  note old' = this [unfolded assms(7)]
  have next1: "unat (?last + 1) = unat ?last + 1" using last(1) by (simp add: unat_plus_if')
  then have "\<forall>e \<in> set es. e_seq e < ?last + 1" using old by (auto simp: word_less_nat_alt word_le_nat_alt)
  then obtain mem' es' where mem': "wb_InsertInto C ?b (db_mem db) = Some (sOK, mem')" "mem_holds C mem' es'"
    "set es' = set es \<union> set (opEntries (?last + 1) ops)"
    "\<And>s k. known C es' s k = foldl (opKnown C) (known C es s) (take (unat s + 1 - unat (?last + 1)) ops) k"
    using wb_InsertInto_batch [OF assms(6) _ assms(2) assms(4) assms(3)] by blast
  have log: "AddRecord ?b (db_log db) = (True, addRecords newLog (groupBytes (recs @ [(?last + 1, ops)])))"
    using addRecords_ok [of ?b "groupBytes recs"] last(3) by (simp add: groupBytes_def addRecords_append prod_eq_iff)
  define db' where "db' = db\<lparr>db_log := addRecords newLog (groupBytes (recs @ [(?last + 1, ops)])), db_mem := mem',
      db_last_sequence := ?last + of_nat (length ops)\<rparr>"
  have w: "writeGroup C sync sOK (batchBytes sq0 ops) db = Some (sOK, db')"
    using log mem'(1) by (simp add: writeGroup_def Let_def wb_SetSequence_batch batch_count [OF assms(3)] db'_def)
  have "ldb_ok C start db' (recs @ [(?last + 1, ops)])"
    unfolding ldb_ok_def db'_def
    using start imm last(2) assms(2-5,7) mem' range old'
    by (auto simp: consecutive_append word_le_nat_alt intro!: exI [of _ es'])
  moreover have "known C es' (?last + of_nat (length ops)) k = foldl (opKnown C) (known C es ?last) ops k" for k
  proof -
    have "known C es (?last + of_nat (length ops)) = known C es ?last"
      using old range(1) by (intro known_stable) (auto simp: word_le_nat_alt)
    then show ?thesis using mem'(4) range(1) next1 by simp
  qed
  moreover have "known C es' s k = known C es s k" if "s \<le> ?last" for s k
    using mem'(4) [of s k] that next1 by (simp add: word_le_nat_alt)
  ultimately show ?thesis using w mem'(2) range(1) by (intro exI [of _ db'] exI [of _ es']) (simp add: db'_def)
qed

end

subsection \<open>A reader only adds reports\<close>

definition reportsMore :: "logreader \<Rightarrow> logreader \<Rightarrow> bool" where
  "reportsMore r r' \<longleftrightarrow> (\<exists>zs. lr_reports r' = lr_reports r @ zs)"

lemma reportsMore_refl [simp]: "reportsMore r r"
  by (simp add: reportsMore_def)

lemma reportsMore_trans: "reportsMore r r1 \<Longrightarrow> reportsMore r1 r2 \<Longrightarrow> reportsMore r r2"
  by (auto simp: reportsMore_def)

lemma ReportDrop_more: "lr_reports r1 = lr_reports r \<Longrightarrow> reportsMore r (ReportDrop n s r1)"
  "lr_reports r1 = lr_reports r \<Longrightarrow> reportsMore r (ReportCorruption n s r1)"
  by (auto simp: reportsMore_def ReportDrop_def ReportCorruption_def)

lemma ReportCorruption_after: "reportsMore r r1 \<Longrightarrow> reportsMore r (ReportCorruption n s r1)"
  by (rule reportsMore_trans [OF _ ReportDrop_more(2)]) simp_all

lemma reportsMore_update [simp]:
  "reportsMore r (r1\<lparr>lr_last_record_offset := x\<rparr>) = reportsMore r r1" "reportsMore r (r1\<lparr>lr_eof := b\<rparr>) = reportsMore r r1"
  by (simp_all add: reportsMore_def)

lemma readBlock_more: "reportsMore r (snd (readBlock r))"
  by (auto simp: readBlock_def Let_def case_prod_beta intro: ReportDrop_more) (simp_all add: reportsMore_def)

lemma parsePhysical_more: "parsePhysical r = (t, p, r') \<Longrightarrow> reportsMore r r'"
  by (auto simp: parsePhysical_def Let_def intro: ReportDrop_more split: if_splits) (simp_all add: reportsMore_def)

lemma ReadPhysicalRecord_more: "ReadPhysicalRecord r = (t, p, r') \<Longrightarrow> reportsMore r r'"
proof (induction r rule: ReadPhysicalRecord.induct)
  case (1 r)
  obtain ok r1 where b: "readBlock r = (ok, r1)" by (meson surj_pair)
  then have "reportsMore r r1" using readBlock_more [of r] by simp
  moreover have "reportsMore r (r\<lparr>lr_buffer := []\<rparr>)" by (simp add: reportsMore_def)
  ultimately show ?case
    using 1 b parsePhysical_more [of r t p r'] reportsMore_trans [of r r1 r']
    by (auto simp: ReadPhysicalRecord.simps [of r] split: if_splits)
qed

lemma readLoop_more_reports: "readLoop i s p r = (x, r') \<Longrightarrow> reportsMore r r'"
proof (induction "lr_left r" arbitrary: i s p r rule: less_induct)
  case less
  obtain t f r1 where e: "ReadPhysicalRecord r = (t, f, r1)" by (metis surj_pair)
  then have l: "t \<noteq> kEof \<Longrightarrow> lr_left r1 < lr_left r" by (rule ReadPhysicalRecord_left)
  have m: "reportsMore r r1" using e by (rule ReadPhysicalRecord_more)
  have IH: "reportsMore r r'"
    if "readLoop i s p r2 = (x, r')" "t \<noteq> kEof" "lr_left r2 = lr_left r1" "reportsMore r r2" for i s p r2
    using less(1) [OF _ that(1)] l that(2-4) reportsMore_trans by fastforce
  show ?case
    using less(2) m unfolding readLoop.simps [of i s p r]
    by (auto simp: e Let_def split: if_splits intro: IH ReportCorruption_after)
qed

lemma SkipToInitialBlock_more: "reportsMore r (snd (SkipToInitialBlock r))"
proof -
  have "reportsMore r (ReportDrop n s (r\<lparr>lr_end_of_buffer_offset := x, lr_file := f\<rparr>))" for n s x f
    by (rule ReportDrop_more) simp
  moreover have "reportsMore r (r\<lparr>lr_end_of_buffer_offset := x, lr_file := f\<rparr>)" "reportsMore r (r\<lparr>lr_end_of_buffer_offset := x\<rparr>)" for x f
    by (simp_all add: reportsMore_def)
  ultimately show ?thesis by (simp add: SkipToInitialBlock_def Let_def case_prod_beta)
qed

lemma ReadRecord_more: "ReadRecord r = (x, r') \<Longrightarrow> reportsMore r r'"
proof -
  assume a: "ReadRecord r = (x, r')"
  obtain ok r1 where b: "(if lr_last_record_offset r < lr_initial_offset r then SkipToInitialBlock r else (True, r)) = (ok, r1)"
    by (meson surj_pair)
  have m: "reportsMore r r1"
    using b SkipToInitialBlock_more [of r] by (cases "lr_last_record_offset r < lr_initial_offset r") auto
  have "r' = r1 \<or> readLoop False [] 0 r1 = (x, r')" using a by (auto simp: ReadRecord_def b split: if_splits)
  then show ?thesis using m readLoop_more_reports reportsMore_trans by blast
qed

lemma readRecords_more: "readRecords r = (recs, r') \<Longrightarrow> reportsMore r r'"
proof (induction r arbitrary: recs rule: readRecords.induct)
  case (1 r)
  obtain x r1 where e: "ReadRecord r = (x, r1)" by (meson surj_pair)
  then have m: "reportsMore r r1" by (rule ReadRecord_more)
  show ?case
  proof (cases x)
    case None
    then show ?thesis using 1(2) e m by (simp add: readRecords.simps [of r])
  next
    case (Some rec)
    then obtain recs' where "readRecords r1 = (recs', r')"
      using 1(2) e by (auto simp: readRecords.simps [of r] Let_def split: prod.splits)
    then show ?thesis using 1(1) [OF e [symmetric] Some] m reportsMore_trans by blast
  qed
qed

text \<open>The records that are left after one of them, when nothing is reported.\<close>

lemma readRecords_step:
  assumes "readRecords r = (rec # recs, r_end)" "lr_reports r_end = lr_reports r"
  shows "\<exists>r'. ReadRecord r = (Some rec, r') \<and> lr_reports r' = lr_reports r \<and> readRecords r' = (recs, r_end)"
proof -
  obtain x r' where e: "ReadRecord r = (x, r')" by (meson surj_pair)
  then have r': "x = Some rec" "readRecords r' = (recs, r_end)"
    using assms(1) by (auto simp: readRecords.simps [of r] Let_def split: option.splits prod.splits)
  then have "reportsMore r r'" "reportsMore r' r_end" using e ReadRecord_more readRecords_more by blast+
  then obtain ys zs where z: "lr_reports r' = lr_reports r @ ys" "lr_reports r_end = lr_reports r' @ zs"
    unfolding reportsMore_def by blast
  have "lr_reports r = (lr_reports r @ ys) @ zs" using assms(2) unfolding z by simp
  then have "lr_reports r' = lr_reports r" unfolding z(1) by simp
  then show ?thesis using e r' by simp
qed

lemma readRecords_done:
  assumes "readRecords r = ([], r_end)" shows "ReadRecord r = (None, r_end)"
  using assms by (auto simp: readRecords.simps [of r] Let_def split: option.splits prod.splits)

subsection \<open>Recovery\<close>

text \<open>The entries in the tables and the memtable of a recovery without errors.\<close>

definition recovered :: "comparator \<Rightarrow> recovery \<Rightarrow> entry set \<Rightarrow> bool" where
  "recovered C st E \<longleftrightarrow>
     rc_status st = sOK \<and> rc_outcomes st = [] \<and> (\<forall>e \<in> E. e_seq e \<le> rc_max_sequence st) \<and>
     (\<exists>ess es. list_all2 (mem_holds C) (rc_tables st) ess \<and>
        (case rc_mem st of None \<Rightarrow> es = [] | Some mem \<Rightarrow> mem_holds C mem es) \<and>
        (\<Union>es' \<in> set ess. set es') \<union> set es = E)"

lemma recovered_start: "recovered C \<lparr>rc_status = sOK, rc_mem = None, rc_max_sequence = m, rc_tables = [], rc_outcomes = []\<rparr> {}"
  by (simp add: recovered_def)

lemma recovered_flush:
  assumes "recovered C st E" "rc_mem st = Some mem"
  shows "recovered C ((WriteLevel0Table mem st)\<lparr>rc_mem := None\<rparr>) E" "rc_status (WriteLevel0Table mem st) = sOK"
    "rc_mem (WriteLevel0Table mem st) = Some mem"
proof -
  obtain ess es where e: "list_all2 (mem_holds C) (rc_tables st) ess" "mem_holds C mem es"
    "(\<Union>es' \<in> set ess. set es') \<union> set es = E"
    using assms by (auto simp: recovered_def)
  then have "list_all2 (mem_holds C) (rc_tables st @ [mem]) (ess @ [es])" "(\<Union>es' \<in> set (ess @ [es]). set es') \<union> set [] = E"
    by (auto intro: list_all2_appendI)
  then have "\<exists>ess es. list_all2 (mem_holds C) (rc_tables st @ [mem]) ess \<and> es = [] \<and> (\<Union>es' \<in> set ess. set es') \<union> set es = E"
    by blast
  then show "recovered C ((WriteLevel0Table mem st)\<lparr>rc_mem := None\<rparr>) E"
    using assms(1) by (simp add: recovered_def WriteLevel0Table_def)
  show "rc_status (WriteLevel0Table mem st) = sOK" "rc_mem (WriteLevel0Table mem st) = Some mem"
    using assms by (simp_all add: WriteLevel0Table_def recovered_def)
qed

lemma noteCorruption_none [simp]: "noteCorruption p [] st = st"
  by (simp add: noteCorruption_def)

lemma MaybeIgnoreError_ok [simp]: "MaybeIgnoreError p sOK = sOK"
  by (simp add: MaybeIgnoreError_def)

text \<open>A round with a record that is a good batch.\<close>

lemma recoverLoop_step:
  assumes "ReadRecord r = (Some record, r')" "lr_reports r' = lr_reports r" "rc_status st = sOK" "12 \<le> length record"
    "wb_InsertInto C record (case rc_mem st of None \<Rightarrow> newMemTable | Some mem \<Rightarrow> mem) = Some (sOK, mem)"
    "wb_Sequence record + word_of_int (wb_Count record) - 1 = last_seq"
    "st3 = st\<lparr>rc_mem := Some mem, rc_status := sOK,
              rc_max_sequence := (if last_seq > rc_max_sequence st then last_seq else rc_max_sequence st)\<rparr>"
    "rc_status (WriteLevel0Table mem st3) = sOK"
  shows "recoverLoop C p usage limit r st =
    (if usage mem > limit then recoverLoop C p usage limit r' ((WriteLevel0Table mem st3)\<lparr>rc_mem := None\<rparr>)
     else recoverLoop C p usage limit r' st3)"
proof -
  have "(if last_seq > rc_max_sequence st then st\<lparr>rc_mem := Some mem, rc_status := sOK\<rparr>\<lparr>rc_max_sequence := last_seq\<rparr>
      else st\<lparr>rc_mem := Some mem, rc_status := sOK\<rparr>) = st3"
    unfolding assms(7) by (cases st) simp
  then show ?thesis
    unfolding recoverLoop.simps [of C p usage limit r st] wb_SetContents_def
    using assms(1-6,8) by (simp add: Let_def not_less split del: if_split cong del: if_weak_cong)
qed

context comparator_laws
begin

lemma recover_batch:
  assumes "recovered C st E" "\<forall>e \<in> E. e_seq e \<le> n" "unat n < 2 ^ 56" "room (n + 1) (length ops)"
    "length ops < 2 ^ 31" "\<forall>p \<in> set ops. opSmall p"
  shows "\<exists>mem. wb_InsertInto C (batchBytes (n + 1) ops) (case rc_mem st of None \<Rightarrow> newMemTable | Some mem \<Rightarrow> mem) = Some (sOK, mem) \<and>
      (\<forall>m. n + of_nat (length ops) \<le> m \<longrightarrow> rc_max_sequence st \<le> m \<longrightarrow>
         recovered C (st\<lparr>rc_mem := Some mem, rc_status := sOK, rc_max_sequence := m\<rparr>) (E \<union> set (opEntries (n + 1) ops)))"
proof -
  obtain ess es where e: "list_all2 (mem_holds C) (rc_tables st) ess"
    "case rc_mem st of None \<Rightarrow> es = [] | Some mem \<Rightarrow> mem_holds C mem es" "(\<Union>es' \<in> set ess. set es') \<union> set es = E"
    using assms(1) by (auto simp: recovered_def)
  have "mem_holds C (case rc_mem st of None \<Rightarrow> newMemTable | Some mem \<Rightarrow> mem) es"
    using e(2) newMemTable_holds by (cases "rc_mem st") auto
  moreover have "unat (n + 1) = unat n + 1" using assms(3) by (simp add: unat_plus_if')
  then have "\<forall>x \<in> set es. e_seq x < n + 1"
    using assms(2) e(3) by (auto simp: word_less_nat_alt word_le_nat_alt less_Suc_eq_le)
  ultimately obtain mem es' where m: "wb_InsertInto C (batchBytes (n + 1) ops) (case rc_mem st of None \<Rightarrow> newMemTable | Some mem \<Rightarrow> mem) = Some (sOK, mem)"
    "mem_holds C mem es'" "set es' = set es \<union> set (opEntries (n + 1) ops)"
    using wb_InsertInto_batch [OF _ _ assms(6,4,5)] by blast
  have "unat (e_seq x) \<le> unat (n + of_nat (length ops))" if "x \<in> set (opEntries (n + 1) ops)" for x
    using opEntries_range [OF assms(4,3)] that by auto
  then have "recovered C (st\<lparr>rc_mem := Some mem, rc_status := sOK, rc_max_sequence := m\<rparr>) (E \<union> set (opEntries (n + 1) ops))"
    if "n + of_nat (length ops) \<le> m" "rc_max_sequence st \<le> m" for m
    using that assms(1) e(1,3) m(2,3) unfolding recovered_def
    by (auto simp: word_le_nat_alt intro!: exI [of _ ess] exI [of _ es'] intro: le_trans)
  then show ?thesis using m(1) by blast
qed

lemma recoverLoop_groups:
  assumes "readRecords r = (groupBytes recs, r_end)" "lr_reports r_end = lr_reports r" "consecutive n recs m"
    "recovered C st E" "\<forall>e \<in> E. e_seq e \<le> n" "unat n < 2 ^ 56"
  shows "\<exists>st'. recoverLoop C p usage limit r st = Some st' \<and> recovered C st' (E \<union> groupEntries recs)"
  using assms
proof (induction recs arbitrary: r st n E)
  case Nil
  then have "ReadRecord r = (None, r_end)" using readRecords_done by (simp add: groupBytes_def)
  then show ?case using Nil by (simp add: recoverLoop.simps [of C p usage limit r] Let_def)
next
  case (Cons rec recs)
  obtain sq ops where rec: "rec = (sq, ops)" by force
  have c: "sq = n + 1" "room (n + 1) (length ops)" "length ops < 2 ^ 31" "\<forall>p \<in> set ops. opSmall p"
    "consecutive (n + of_nat (length ops)) recs m"
    using Cons.prems(3) by (auto simp: rec)
  obtain r' where r': "ReadRecord r = (Some (batchBytes sq ops), r')" "lr_reports r' = lr_reports r"
    "readRecords r' = (groupBytes recs, r_end)"
    using readRecords_step Cons.prems(1,2) by (fastforce simp: groupBytes_def rec)
  have st: "rc_status st = sOK" using Cons.prems(4) by (simp add: recovered_def)
  obtain mem where mem: "wb_InsertInto C (batchBytes sq ops) (case rc_mem st of None \<Rightarrow> newMemTable | Some mem \<Rightarrow> mem) = Some (sOK, mem)"
    "\<And>m. n + of_nat (length ops) \<le> m \<Longrightarrow> rc_max_sequence st \<le> m \<Longrightarrow>
      recovered C (st\<lparr>rc_mem := Some mem, rc_status := sOK, rc_max_sequence := m\<rparr>) (E \<union> set (opEntries sq ops))"
    using recover_batch [OF Cons.prems(4-6) c(2-4)] unfolding c(1) by blast
  define mx where "mx = (if n + of_nat (length ops) > rc_max_sequence st then n + of_nat (length ops) else rc_max_sequence st)"
  define st3 where "st3 = st\<lparr>rc_mem := Some mem, rc_status := sOK, rc_max_sequence := mx\<rparr>"
  have ok3: "recovered C st3 (E \<union> set (opEntries sq ops))" unfolding st3_def by (rule mem(2)) (auto simp: mx_def)
  have last: "wb_Sequence (batchBytes sq ops) + word_of_int (wb_Count (batchBytes sq ops)) - 1 = n + of_nat (length ops)"
    by (simp add: batch_count [OF c(3)] c(1))
  define st4 where "st4 = (if usage mem > limit then (WriteLevel0Table mem st3)\<lparr>rc_mem := None\<rparr> else st3)"
  have "recoverLoop C p usage limit r st =
      (if usage mem > limit then recoverLoop C p usage limit r' ((WriteLevel0Table mem st3)\<lparr>rc_mem := None\<rparr>)
       else recoverLoop C p usage limit r' st3)"
    by (rule recoverLoop_step [OF r'(1,2) st batch_parts(3) mem(1) last st3_def [unfolded mx_def]])
       (use recovered_flush(2) [OF ok3, of mem] in \<open>simp add: st3_def\<close>)
  then have step: "recoverLoop C p usage limit r st = recoverLoop C p usage limit r' st4" by (simp add: st4_def)
  have ok4: "recovered C st4 (E \<union> set (opEntries sq ops))"
    using ok3 recovered_flush(1) [OF ok3, of mem] by (simp add: st3_def st4_def)
  have bound: "\<forall>e \<in> E \<union> set (opEntries sq ops). e_seq e \<le> n + of_nat (length ops)"
    using opEntries_range [OF c(2) Cons.prems(6)] Cons.prems(5) c(1) by (auto simp: word_le_nat_alt intro: trans_le_add1)
  have small: "unat (n + of_nat (length ops)) < 2 ^ 56"
    using opEntries_range [OF c(2) Cons.prems(6)] c(2) Cons.prems(6) by (simp add: room_def unat_plus_if')
  have "lr_reports r_end = lr_reports r'" using Cons.prems(2) r'(2) by simp
  from Cons.IH [OF r'(3) this c(5) ok4 bound small] show ?case unfolding step by (simp add: rec Un_assoc)
qed

end

subsection \<open>Reading what was written\<close>

text \<open>The answers to reads of the newest state, and what an update makes of them.\<close>

definition answerOf :: "bytes option \<Rightarrow> ldbstatus \<times> bytes" where
  "answerOf v = (case v of Some x \<Rightarrow> (sOK, x) | None \<Rightarrow> (sNotFound, []))"

definition opAnswer :: "comparator \<Rightarrow> (bytes \<Rightarrow> (ldbstatus \<times> bytes) option) \<Rightarrow> wbop \<Rightarrow> bytes \<Rightarrow> (ldbstatus \<times> bytes) option" where
  "opAnswer C f p k =
     (case p of wbPut key val \<Rightarrow> if cmp_Compare C key k = 0 then Some (sOK, val) else f k
      | wbDelete key \<Rightarrow> if cmp_Compare C key k = 0 then Some (sNotFound, []) else f k)"

lemma opKnown_answer:
  "foldl (opAnswer C) (\<lambda>k. case f k of Some v \<Rightarrow> Some (answerOf v) | None \<Rightarrow> g k) ops k =
     (case foldl (opKnown C) f ops k of Some v \<Rightarrow> Some (answerOf v) | None \<Rightarrow> g k)"
proof (induction ops arbitrary: f)
  case (Cons p ops)
  have "opAnswer C (\<lambda>k. case f k of Some v \<Rightarrow> Some (answerOf v) | None \<Rightarrow> g k) p =
      (\<lambda>k. case opKnown C f p k of Some v \<Rightarrow> Some (answerOf v) | None \<Rightarrow> g k)"
    by (cases p) (auto simp: opAnswer_def opKnown_def answerOf_def)
  then show ?case using Cons.IH by simp
qed simp

text \<open>What the older memtable and the tables answer; the tables by the user key only.\<close>

definition older :: "comparator \<Rightarrow> (bytes \<Rightarrow> ldbstatus \<times> bytes) \<Rightarrow> 64 word \<Rightarrow> memtable option \<Rightarrow> bytes \<Rightarrow> (ldbstatus \<times> bytes) option" where
  "older C tab s imm k =
     (case (case imm of None \<Rightarrow> Some memAbsent | Some imm \<Rightarrow> mem_Get C (LookupKey k s) imm) of
        None \<Rightarrow> None
      | Some (memFound v) \<Rightarrow> Some (sOK, v)
      | Some memDeleted \<Rightarrow> Some (sNotFound, [])
      | Some memAbsent \<Rightarrow> Some (tab k))"

text \<open>The entries of some memtables.\<close>

definition tablesHold :: "comparator \<Rightarrow> memtable list \<Rightarrow> entry set \<Rightarrow> bool" where
  "tablesHold C mems E \<longleftrightarrow> (\<exists>ess. list_all2 (mem_holds C) mems ess \<and> (\<Union>es \<in> set ess. set es) = E)"

context comparator_laws
begin

lemma mem_Get_known:
  assumes "mem_holds C mem es" "length k + 8 < 2 ^ 32" "s \<le> kMaxSequenceNumber"
  shows "mem_Get C (LookupKey k s) mem =
    Some (case known C es s k of None \<Rightarrow> memAbsent | Some (Some v) \<Rightarrow> memFound v | Some None \<Rightarrow> memDeleted)"
  unfolding mem_Get_holds [OF assms] by (auto simp: known_def split: option.split ValueType.split)

lemma older_stable:
  assumes "\<forall>m. imm = Some m \<longrightarrow> holdsUpTo C m s" "s \<le> s'" "s' \<le> kMaxSequenceNumber" "length k + 8 < 2 ^ 32"
  shows "older C tab s' imm k = older C tab s imm k"
proof (cases imm)
  case (Some m)
  then obtain es where es: "mem_holds C m es" "\<forall>e \<in> set es. e_seq e \<le> s" using assms(1) by (auto simp: holdsUpTo_def)
  have "s \<le> kMaxSequenceNumber" using assms(2,3) by (rule order_trans)
  then have "mem_Get C (LookupKey k s') m = mem_Get C (LookupKey k s) m"
    using mem_Get_known [OF es(1) assms(4)] assms(3) known_stable [OF es(2) assms(2)] by simp
  then show ?thesis by (simp add: older_def Some)
qed (simp add: older_def)

lemma dbGet_known:
  assumes "mem_holds C (db_mem db) es" "length k + 8 < 2 ^ 32" "db_last_sequence db \<le> kMaxSequenceNumber"
  shows "dbGet C (\<lambda>lk. tab (lk_user_key lk)) None k db =
    (case known C es (db_last_sequence db) k of
       Some v \<Rightarrow> Some (answerOf v) | None \<Rightarrow> older C tab (db_last_sequence db) (db_imm db) k)"
  unfolding dbGet_def Let_def older_def option.case mem_Get_known [OF assms] LookupKey_parts(3) [OF assms(2)]
  by (auto simp: answerOf_def split: option.split)

lemma makeRoom_there:
  assumes "db_bg_error db = sOK" "db_l0 db < 8" "usage (db_mem db) \<le> limit"
  shows "MakeRoomForWrite usage limit False chs files db = Some (sOK, db)"
  using assms by (simp add: MakeRoomForWrite_def makeRoomLoop.simps [of usage limit])

lemma opAnswer_cong: "f k = f' k \<Longrightarrow> foldl (opAnswer C) f ops k = foldl (opAnswer C) f' ops k"
proof (induction ops arbitrary: f f')
  case (Cons p ops)
  have "opAnswer C f p k = opAnswer C f' p k" using Cons.prems by (simp add: opAnswer_def split: wbop.split)
  from Cons.IH [of "opAnswer C f p" "opAnswer C f' p", OF this] show ?case by simp
qed simp

lemma dbWrite_group:
  assumes ok: "ldb_ok C start db recs"
    and there: "db_bg_error db = sOK" "db_l0 db < 8" "usage (db_mem db) \<le> limit"
    and queue: "w_batch w = Some (batchBytes sq ops)" "list_all2 asks ws opss"
    and small: "\<forall>p \<in> set (ops @ concat opss). opSmall p" "length (ops @ concat opss) < 2 ^ 31"
      "unat (db_last_sequence db) + length (ops @ concat opss) < 2 ^ 56"
  shows "\<exists>m db'. m \<le> length ws \<and> dbWrite C usage limit chs files sOK (w # ws) db = Some (sOK, drop m ws, db') \<and>
      ldb_ok C start db' (recs @ [(db_last_sequence db + 1, ops @ concat (take m opss))]) \<and>
      (\<forall>k. length k + 8 < 2 ^ 32 \<longrightarrow>
         dbGet C (\<lambda>lk. tab (lk_user_key lk)) None k db' =
         foldl (opAnswer C) (\<lambda>k. dbGet C (\<lambda>lk. tab (lk_user_key lk)) None k db) (ops @ concat (take m opss)) k)"
proof -
  let ?last = "db_last_sequence db" and ?tab = "\<lambda>lk. tab (lk_user_key lk)"
  obtain sq' m where b: "BuildBatchGroup (batchBytes sq ops) (w # ws) = (batchBytes sq' (ops @ concat (take m opss)), Suc m)"
    "m \<le> length ws"
    using BuildBatchGroup_concat [OF queue(2,1)] by blast
  define g where "g = ops @ concat (take m opss)"
  have "concat opss = concat (take m opss) @ concat (drop m opss)" by (metis append_take_drop_id concat_append)
  then have sub: "set g \<subseteq> set (ops @ concat opss)" "length g \<le> length (ops @ concat opss)" by (auto simp: g_def)
  obtain es where es: "mem_holds C (db_mem db) es" "set es = groupEntries recs" and last: "unat ?last < 2 ^ 56"
    using ok by (auto simp: ldb_ok_def)
  have g: "\<forall>p \<in> set g. opSmall p" "length g < 2 ^ 31" "unat ?last + length g < 2 ^ 56"
    using sub small by auto
  have r: "room (?last + 1) (length g)" using g(3) last by (simp add: room_def unat_plus_if')
  obtain db' es' where w: "writeGroup C (w_sync w) sOK (batchBytes sq' g) db = Some (sOK, db')"
    "ldb_ok C start db' (recs @ [(?last + 1, g)])" "unat (db_last_sequence db') = unat ?last + length g"
    "db_imm db' = db_imm db" "mem_holds C (db_mem db') es'"
    "\<And>k. known C es' (db_last_sequence db') k = foldl (opKnown C) (known C es ?last) g k"
    using writeGroup_ok [OF ok g(1,2) r g(3) es] by blast
  have wr: "dbWrite C usage limit chs files sOK (w # ws) db = Some (sOK, drop m ws, db')"
    using queue(1) b w(1) makeRoom_there [of db usage limit chs files] there by (simp add: dbWrite_def g_def)
  have seq: "?last \<le> db_last_sequence db'" "db_last_sequence db' \<le> kMaxSequenceNumber" "?last \<le> kMaxSequenceNumber"
    using w(3) g(3) by (auto simp: word_le_nat_alt kMaxSequenceNumber_value)
  have "dbGet C ?tab None k db' = foldl (opAnswer C) (\<lambda>k. dbGet C ?tab None k db) g k" if k: "length k + 8 < 2 ^ 32" for k
  proof -
    have "dbGet C ?tab None k db' = (case foldl (opKnown C) (known C es ?last) g k of
        Some v \<Rightarrow> Some (answerOf v) | None \<Rightarrow> older C tab ?last (db_imm db) k)"
    proof -
      have "older C tab (db_last_sequence db') (db_imm db) k = older C tab ?last (db_imm db) k"
        by (rule older_stable [OF _ seq(1,2) k]) (use ok in \<open>simp add: ldb_ok_def\<close>)
      note old = this
      show ?thesis unfolding dbGet_known [OF w(5) k seq(2), of tab] w(4,6) old by (rule HOL.refl)
    qed
    also have "\<dots> = foldl (opAnswer C)
        (\<lambda>k. case known C es ?last k of Some v \<Rightarrow> Some (answerOf v) | None \<Rightarrow> older C tab ?last (db_imm db) k) g k"
      by (simp add: opKnown_answer)
    also have "\<dots> = foldl (opAnswer C) (\<lambda>k. dbGet C ?tab None k db) g k"
      by (rule opAnswer_cong) (simp add: dbGet_known [OF es(1) k seq(3)])
    finally show ?thesis .
  qed
  then show ?thesis using b(2) wr w(2) unfolding g_def by blast
qed

text \<open>A crash: the log of the database is cut, and recovered by the next process.\<close>

lemma consecutive_take: "consecutive n recs m \<Longrightarrow> \<exists>m'. consecutive n (take j recs) m'"
proof (induction n recs m arbitrary: j rule: consecutive.induct)
  case (2 n sq ops recs m)
  then show ?case by (cases j) auto
qed auto

lemma RecoverLogFile_cut:
  assumes "ldb_ok C start db recs"
  shows "\<exists>m st. RecoverLogFile C paranoid_checks usage limit
        (Inr \<lparr>rf_data = take n (wf_data (lw_dest (db_log db))), rf_outcomes = []\<rparr>) 0 [] = Some st \<and>
      rc_status st = sOK \<and> tablesHold C (rc_tables st) (groupEntries (take m recs)) \<and>
      (\<forall>e \<in> groupEntries (take m recs). e_seq e \<le> rc_max_sequence st) \<and>
      (\<forall>j \<le> length recs. logged (addRecords newLog (groupBytes (take j recs))) \<le> n \<longrightarrow> j \<le> m)"
proof -
  have log: "db_log db = addRecords newLog (groupBytes recs)" and start: "unat start < 2 ^ 56"
    and c: "consecutive start recs (db_last_sequence db)" using assms by (auto simp: ldb_ok_def)
  obtain m r where m: "recoverLog True (take n (wf_data (lw_dest (db_log db)))) = (take m (groupBytes recs), r)" "lr_reports r = []"
    "\<forall>k \<le> length (groupBytes recs). logged (addRecords newLog (take k (groupBytes recs))) \<le> n \<longrightarrow> k \<le> m"
    using recoverLog_cut [of True n "groupBytes recs"] unfolding log by blast
  have take: "take k (groupBytes recs) = groupBytes (take k recs)" for k by (simp add: groupBytes_def take_map)
  let ?r = "logReader \<lparr>rf_data = take n (wf_data (lw_dest (db_log db))), rf_outcomes = []\<rparr> True True 0"
  let ?st = "\<lparr>rc_status = sOK, rc_mem = None, rc_max_sequence = 0, rc_tables = [], rc_outcomes = []\<rparr>"
  obtain m' where c': "consecutive start (take m recs) m'" using consecutive_take [OF c] by blast
  have "readRecords ?r = (groupBytes (take m recs), r)" "lr_reports r = lr_reports ?r"
    using m(1,2) by (simp_all add: recoverLog_def take logReader_def)
  moreover have "\<forall>e \<in> {}. e_seq e \<le> start" by simp
  ultimately have "\<exists>st. recoverLoop C paranoid_checks usage limit ?r ?st = Some st \<and> recovered C st ({} \<union> groupEntries (take m recs))"
    by (intro recoverLoop_groups [OF _ _ c' recovered_start _ start])
  then obtain st where
    st: "recoverLoop C paranoid_checks usage limit ?r ?st = Some st" "recovered C st (groupEntries (take m recs))"
    by auto
  have len: "length (groupBytes recs) = length recs" by (simp add: groupBytes_def)
  show ?thesis
  proof (cases "rc_mem st")
    case None
    have "tablesHold C (rc_tables st) (groupEntries (take m recs))" using st(2) None by (auto simp: recovered_def tablesHold_def)
    then show ?thesis using st None m(3) len by (auto simp: RecoverLogFile_def recovered_def take)
  next
    case (Some mem)
    note f = recovered_flush [OF st(2) Some]
    have "tablesHold C (rc_tables (WriteLevel0Table mem st)) (groupEntries (take m recs))"
      using f(1) by (auto simp: recovered_def tablesHold_def)
    moreover have "rc_max_sequence (WriteLevel0Table mem st) = rc_max_sequence st"
      by (simp add: WriteLevel0Table_def Let_def case_prod_beta)
    ultimately show ?thesis
      using st Some f(2) m(3) len by (auto simp: RecoverLogFile_def recovered_def take)
  qed
qed

end

text \<open>A database whose tables hold everything up to a number, with a new log.\<close>

definition freshDb :: "64 word \<Rightarrow> ldb" where
  "freshDb n =
     \<lparr>db_last_sequence = n, db_mem = newMemTable, db_imm = None, db_log = newLog, db_closed_logs = [],
      db_bg_error = sOK, db_l0 = 0\<rparr>"

lemma freshDb_ldb_ok: "unat n < 2 ^ 56 \<Longrightarrow> ldb_ok C n (freshDb n) []"
  using newMemTable_holds [of C] by (auto simp: ldb_ok_def freshDb_def groupBytes_def intro!: exI [of _ "[]"])

end
