(* ===== verification/LdbIter.thy ===== *)
theory LdbIter
  imports LdbBatch
begin

text \<open>
  include/leveldb/iterator.h: the interface of all iterators of LevelDB. An iterator is a
  record of its operations on a state; \<open>None\<close> stands for an operation that does not return,
  or that is called where it must not be. The locale \<open>iterates\<close> says what a client may rely
  on: the iterator walks a list of entries, forwards and backwards, and seeks in it. The
  iterator of a memtable is the first one that does.
\<close>

record 's iterops =
  i_Valid :: "'s \<Rightarrow> bool"
  i_SeekToFirst :: "'s \<Rightarrow> 's option"
  i_SeekToLast :: "'s \<Rightarrow> 's option"
  i_Seek :: "bytes \<Rightarrow> 's \<Rightarrow> 's option"
  i_Next :: "'s \<Rightarrow> 's option"
  i_Prev :: "'s \<Rightarrow> 's option"
  i_key :: "'s \<Rightarrow> bytes"
  i_value :: "'s \<Rightarrow> bytes"
  i_status :: "'s \<Rightarrow> ldbstatus"

text \<open>The position at a place of a list, and the one before it; \<open>None\<close> is not valid.\<close>

definition atPos :: "nat \<Rightarrow> 'e list \<Rightarrow> nat option" where
  "atPos i es = (if i < length es then Some i else None)"

definition beforePos :: "nat \<Rightarrow> nat option" where
  "beforePos i = (if i = 0 then None else Some (i - 1))"

text \<open>How many entries are before a target.\<close>

definition countBefore :: "('k \<Rightarrow> 'k \<Rightarrow> int) \<Rightarrow> 'k \<Rightarrow> ('k \<times> 'v) list \<Rightarrow> nat" where
  "countBefore cmp k es = length (takeWhile (\<lambda>e. cmp (fst e) k < 0) es)"

lemma atPos_simps [simp]:
  "atPos i es = None \<longleftrightarrow> length es \<le> i" "atPos i es = Some j \<longleftrightarrow> i = j \<and> i < length es"
  by (auto simp: atPos_def)

lemma atPos_end [simp]: "length es \<le> i \<Longrightarrow> atPos i es = None"
  by simp

lemma beforePos_simps [simp]:
  "beforePos 0 = None" "beforePos (Suc i) = Some i" "beforePos i = None \<longleftrightarrow> i = 0"
  by (simp_all add: beforePos_def)

lemma countBefore_le: "countBefore cmp k es \<le> length es"
  by (simp add: countBefore_def length_takeWhile_le)

lemma countBefore_eqI:
  assumes "n \<le> length es" "\<And>i. i < n \<Longrightarrow> cmp (fst (es ! i)) k < 0"
    "n < length es \<Longrightarrow> \<not> cmp (fst (es ! n)) k < 0"
  shows "countBefore cmp k es = n"
proof -
  let ?P = "\<lambda>e. cmp (fst e) k < 0"
  have "takeWhile ?P es = takeWhile ?P (take n es @ drop n es)" by simp
  also have "\<dots> = take n es @ takeWhile ?P (drop n es)"
    using assms(1,2) by (intro takeWhile_append2) (metis in_set_conv_nth length_take min.absorb2 nth_take)
  also have "takeWhile ?P (drop n es) = []"
    using assms(3) by (cases "n < length es") (simp_all add: Cons_nth_drop_Suc [symmetric])
  finally show ?thesis using assms(1) by (simp add: countBefore_def)
qed

lemma takeWhile_holds: "i < length (takeWhile P xs) \<Longrightarrow> P (xs ! i)"
  by (metis nth_mem set_takeWhileD takeWhile_nth)

lemma countBefore_nth: "i < countBefore cmp k es \<Longrightarrow> cmp (fst (es ! i)) k < 0"
  unfolding countBefore_def by (rule takeWhile_holds)

lemma countBefore_end: "countBefore cmp k es < length es \<Longrightarrow> \<not> cmp (fst (es ! countBefore cmp k es)) k < 0"
  unfolding countBefore_def by (rule nth_length_takeWhile)

subsection \<open>Counting the chosen places\<close>

text \<open>How many places before \<open>m\<close> are chosen: the position of \<open>m\<close> among the chosen ones.\<close>

definition rankOf :: "(nat \<Rightarrow> bool) \<Rightarrow> nat \<Rightarrow> nat" where
  "rankOf P m = length (filter P [0..<m])"

lemma rankOf_simps [simp]:
  "rankOf P 0 = 0" "P m \<Longrightarrow> rankOf P (Suc m) = Suc (rankOf P m)" "\<not> P m \<Longrightarrow> rankOf P (Suc m) = rankOf P m"
  by (simp_all add: rankOf_def)

lemma rankOf_same: "i \<le> j \<Longrightarrow> (\<And>m. i \<le> m \<Longrightarrow> m < j \<Longrightarrow> \<not> P m) \<Longrightarrow> rankOf P j = rankOf P i"
proof (induction j)
  case (Suc j)
  show ?case
  proof (cases "i = Suc j")
    case False
    then have "i \<le> j" using Suc.prems(1) by simp
    moreover have "\<not> P j" using Suc.prems(2) [of j] \<open>i \<le> j\<close> by simp
    ultimately show ?thesis using Suc.IH Suc.prems(2) by simp
  qed simp
qed simp

lemma rankOf_mono: "a \<le> b \<Longrightarrow> rankOf P a \<le> rankOf P b"
  by (induction b) (auto simp: le_Suc_eq, metis le_SucI rankOf_simps(2,3) order_refl)

lemma rankOf_nth:
  assumes "P m" "m < n"
  shows "rankOf P m < rankOf P n" "map f (filter P [0..<n]) ! rankOf P m = f m"
proof -
  have "[0..<n] = [0..<m] @ m # [Suc m..<n]"
    using assms(2) upt_add_eq_append [of 0 m "n - m"] by (simp add: upt_conv_Cons)
  then have "filter P [0..<n] = filter P [0..<m] @ m # filter P [Suc m..<n]" using assms(1) by simp
  then show "rankOf P m < rankOf P n" "map f (filter P [0..<n]) ! rankOf P m = f m"
    by (simp_all add: rankOf_def nth_append)
qed

text \<open>The next chosen place, and the last one before a place.\<close>

lemma find_upt_Some:
  "i \<le> m \<Longrightarrow> m < n \<Longrightarrow> P m \<Longrightarrow> (\<And>j. i \<le> j \<Longrightarrow> j < m \<Longrightarrow> \<not> P j) \<Longrightarrow> List.find P [i..<n] = Some m"
  by (induction "m - i" arbitrary: i) (auto simp: upt_conv_Cons)

lemma find_upt_skip: "i \<le> k \<Longrightarrow> k \<le> n \<Longrightarrow> (\<And>j. i \<le> j \<Longrightarrow> j < k \<Longrightarrow> \<not> P j) \<Longrightarrow> List.find P [i..<n] = List.find P [k..<n]"
  by (induction "k - i" arbitrary: i) (auto simp: upt_conv_Cons)

lemma find_upt_SomeD: "List.find P [i..<n] = Some m \<Longrightarrow> i \<le> m \<and> m < n \<and> P m \<and> (\<forall>j. i \<le> j \<and> j < m \<longrightarrow> \<not> P j)"
proof -
  assume "List.find P [i..<n] = Some m"
  then obtain k where k: "k + i < n" "P (i + k)" "m = i + k" "\<forall>j < k. \<not> P (i + j)"
    by (auto simp: find_Some_iff less_diff_conv)
  then have "\<not> P j" if "i \<le> j \<and> j < m" for j
  proof -
    have "j - i < k" using that k(3) by arith
    then show ?thesis using spec [OF k(4), of "j - i"] that by simp
  qed
  then show ?thesis using k by simp
qed

lemma find_rev_Some:
  "m < c \<Longrightarrow> P m \<Longrightarrow> (\<And>j. m < j \<Longrightarrow> j < c \<Longrightarrow> \<not> P j) \<Longrightarrow> List.find P (rev [0..<c]) = Some m"
  by (induction c) (auto simp: less_Suc_eq)

lemma find_rev_SomeD:
  "List.find P (rev [0..<c]) = Some m \<Longrightarrow> m < c \<and> P m \<and> (\<forall>j. m < j \<and> j < c \<longrightarrow> \<not> P j)"
  by (induction c) (auto simp: less_Suc_eq split: if_splits)

lemma find_rev_skip: "c \<le> c' \<Longrightarrow> (\<And>j. c \<le> j \<Longrightarrow> j < c' \<Longrightarrow> \<not> P j) \<Longrightarrow> List.find P (rev [0..<c']) = List.find P (rev [0..<c])"
  by (induction c') (auto simp: le_Suc_eq)

lemma find_None_rank: "List.find P [i..<n] = None \<Longrightarrow> i \<le> n \<Longrightarrow> rankOf P i = rankOf P n"
  using rankOf_same [of i n P] by (simp add: find_None_iff)

lemma find_Some_rank: "List.find P [i..<n] = Some m \<Longrightarrow> rankOf P i = rankOf P m"
  using find_upt_SomeD [of P i n m] rankOf_same [of i m P] by auto

lemma find_rev_None_rank: "List.find P (rev [0..<c]) = None \<Longrightarrow> rankOf P c = 0"
  using rankOf_same [of 0 c P] by (simp add: find_None_iff)

lemma find_rev_Some_rank: "List.find P (rev [0..<c]) = Some m \<Longrightarrow> rankOf P c = Suc (rankOf P m)"
  using find_rev_SomeD [of P c m] rankOf_same [of "Suc m" c P] by auto

text \<open>The chosen entries of a sorted list, and how many of them are before a target.\<close>

definition chosen :: "(nat \<Rightarrow> bool) \<Rightarrow> 'e list \<Rightarrow> 'e list" where
  "chosen P es = map (nth es) (filter P [0..<length es])"

lemma length_chosen [simp]: "length (chosen P es) = rankOf P (length es)"
  by (simp add: chosen_def rankOf_def)

lemma chosen_nth: "P m \<Longrightarrow> m < length es \<Longrightarrow> chosen P es ! rankOf P m = es ! m"
  using rankOf_nth(2) [of P m "length es" "nth es"] by (simp add: chosen_def)

lemma chosen_next:
  assumes "i \<le> length es"
  shows "atPos (rankOf P i) (chosen P es) = map_option (rankOf P) (List.find P [i..<length es])"
    "List.find P [i..<length es] = Some m \<Longrightarrow> chosen P es ! rankOf P m = es ! m"
proof -
  show "atPos (rankOf P i) (chosen P es) = map_option (rankOf P) (List.find P [i..<length es])"
  proof (cases "List.find P [i..<length es]")
    case None
    then show ?thesis using find_None_rank [OF None assms] by simp
  next
    case (Some m)
    then show ?thesis using find_upt_SomeD [OF Some] find_Some_rank [OF Some] rankOf_nth(1) [of P m "length es"]
      by (simp add: atPos_def)
  qed
  show "chosen P es ! rankOf P m = es ! m" if "List.find P [i..<length es] = Some m"
    using find_upt_SomeD [OF that] by (simp add: chosen_nth)
qed

lemma chosen_prev:
  assumes "c \<le> length es"
  shows "beforePos (rankOf P c) = map_option (rankOf P) (List.find P (rev [0..<c]))"
    "List.find P (rev [0..<c]) = Some m \<Longrightarrow> chosen P es ! rankOf P m = es ! m"
proof -
  show "beforePos (rankOf P c) = map_option (rankOf P) (List.find P (rev [0..<c]))"
    by (cases "List.find P (rev [0..<c])") (simp_all add: find_rev_None_rank find_rev_Some_rank)
  show "chosen P es ! rankOf P m = es ! m" if "List.find P (rev [0..<c]) = Some m"
    using find_rev_SomeD [OF that] assms by (simp add: chosen_nth)
qed

lemma countBefore_chosen:
  assumes "ordering cmp" "sorted_wrt (\<lambda>a b. cmp (fst a) (fst b) < 0) es"
  shows "countBefore cmp k (chosen P es) = rankOf P (countBefore cmp k es)"
proof -
  let ?c = "countBefore cmp k es" and ?Q = "\<lambda>e. cmp (fst e) k < 0"
  have c: "?c \<le> length es" by (rule countBefore_le)
  have upt: "[0..<length es] = [0..<?c] @ [?c..<length es]"
    using c upt_add_eq_append [of 0 ?c "length es - ?c"] by simp
  have before: "?Q (es ! i)" if "i < ?c" for i using countBefore_nth that by fast
  have behind: "\<not> ?Q (es ! i)" if "?c \<le> i" "i < length es" for i
  proof -
    have "\<not> ?Q (es ! ?c)" using countBefore_end [of cmp k es] that by simp
    moreover have "i = ?c \<or> cmp (fst (es ! ?c)) (fst (es ! i)) < 0"
      using assms(2) that by (auto simp: sorted_wrt_iff_nth_less le_less)
    ultimately show ?thesis using ordering.less_trans [OF assms(1)] by (meson less_imp_le)
  qed
  have "takeWhile ?Q (chosen P es) = map (nth es) (filter P [0..<?c]) @ takeWhile ?Q (map (nth es) (filter P [?c..<length es]))"
    unfolding chosen_def upt filter_append map_append by (rule takeWhile_append2) (use before in auto)
  moreover have "takeWhile ?Q (map (nth es) (filter P [?c..<length es])) = []"
  proof (cases "filter P [?c..<length es]")
    case (Cons a as)
    have "a \<in> set (filter P [?c..<length es])" unfolding Cons by simp
    then have "?c \<le> a" "a < length es" by simp_all
    then show ?thesis using behind [of a] Cons by simp
  qed simp
  ultimately show ?thesis by (simp add: countBefore_def rankOf_def)
qed

subsection \<open>The contract\<close>

text \<open>
  The contract: \<open>walks s es p\<close> says that the iterator walks the entries \<open>es\<close> and is at the
  position \<open>p\<close>. Targets are shorter than \<open>N\<close> bytes.
\<close>

locale iterates =
  fixes I :: "'s iterops"
    and cmp :: "bytes \<Rightarrow> bytes \<Rightarrow> int"
    and N :: nat
    and walks :: "'s \<Rightarrow> (bytes \<times> bytes) list \<Rightarrow> nat option \<Rightarrow> bool"
  assumes at_range: "walks s es (Some i) \<Longrightarrow> i < length es"
    and at_valid: "walks s es p \<Longrightarrow> i_Valid I s \<longleftrightarrow> p \<noteq> None"
    and at_key: "walks s es (Some i) \<Longrightarrow> i_key I s = fst (es ! i)"
    and at_value: "walks s es (Some i) \<Longrightarrow> i_value I s = snd (es ! i)"
    and at_status: "walks s es p \<Longrightarrow> i_status I s = sOK"
    and seek_first: "walks s es p \<Longrightarrow> \<exists>s'. i_SeekToFirst I s = Some s' \<and> walks s' es (atPos 0 es)"
    and seek_last: "walks s es p \<Longrightarrow> \<exists>s'. i_SeekToLast I s = Some s' \<and> walks s' es (beforePos (length es))"
    and seek: "walks s es p \<Longrightarrow> length k < N \<Longrightarrow>
      \<exists>s'. i_Seek I k s = Some s' \<and> walks s' es (atPos (countBefore cmp k es) es)"
    and next_at: "walks s es (Some i) \<Longrightarrow> \<exists>s'. i_Next I s = Some s' \<and> walks s' es (atPos (Suc i) es)"
    and prev_at: "walks s es (Some i) \<Longrightarrow> \<exists>s'. i_Prev I s = Some s' \<and> walks s' es (beforePos i)"
begin

text \<open>An iterator that steps forwards from its first entry yields the entries and ends.\<close>

lemma steps: "walks s es (atPos i es) \<Longrightarrow> i + n \<le> length es \<Longrightarrow>
    \<exists>s'. (((\<lambda>st. Option.bind st (i_Next I)) ^^ n) (Some s)) = Some s' \<and> walks s' es (atPos (i + n) es)"
proof (induction n)
  case (Suc n)
  then obtain s' where s': "((\<lambda>st. Option.bind st (i_Next I)) ^^ n) (Some s) = Some s'" "walks s' es (atPos (i + n) es)" by auto
  then have "walks s' es (Some (i + n))" using Suc.prems by (simp add: atPos_def)
  then show ?case using next_at s' by fastforce
qed auto

end

subsection \<open>Kinds of iterators\<close>

definition sumOps :: "'a iterops \<Rightarrow> 'b iterops \<Rightarrow> ('a + 'b) iterops" where
  "sumOps I J =
     \<lparr>i_Valid = case_sum (i_Valid I) (i_Valid J),
      i_SeekToFirst = case_sum (\<lambda>a. map_option Inl (i_SeekToFirst I a)) (\<lambda>b. map_option Inr (i_SeekToFirst J b)),
      i_SeekToLast = case_sum (\<lambda>a. map_option Inl (i_SeekToLast I a)) (\<lambda>b. map_option Inr (i_SeekToLast J b)),
      i_Seek = (\<lambda>k. case_sum (\<lambda>a. map_option Inl (i_Seek I k a)) (\<lambda>b. map_option Inr (i_Seek J k b))),
      i_Next = case_sum (\<lambda>a. map_option Inl (i_Next I a)) (\<lambda>b. map_option Inr (i_Next J b)),
      i_Prev = case_sum (\<lambda>a. map_option Inl (i_Prev I a)) (\<lambda>b. map_option Inr (i_Prev J b)),
      i_key = case_sum (i_key I) (i_key J), i_value = case_sum (i_value I) (i_value J),
      i_status = case_sum (i_status I) (i_status J)\<rparr>"

definition sumAt :: "('a \<Rightarrow> 'e \<Rightarrow> 'p \<Rightarrow> bool) \<Rightarrow> ('b \<Rightarrow> 'e \<Rightarrow> 'p \<Rightarrow> bool) \<Rightarrow> 'a + 'b \<Rightarrow> 'e \<Rightarrow> 'p \<Rightarrow> bool" where
  "sumAt w1 w2 s es p = case_sum (\<lambda>a. w1 a es p) (\<lambda>b. w2 b es p) s"

lemma sumAt_simps [simp]: "sumAt w1 w2 (Inl a) es p = w1 a es p" "sumAt w1 w2 (Inr b) es p = w2 b es p"
  by (simp_all add: sumAt_def)

lemma sum_iterates:
  assumes "iterates I cmp N w1" "iterates J cmp N w2"
  shows "iterates (sumOps I J) cmp N (sumAt w1 w2)"
proof
  fix s es p i k
  show "sumAt w1 w2 s es (Some i) \<Longrightarrow> i < length es"
    by (cases s) (use assms [THEN iterates.at_range] in auto)
  show "sumAt w1 w2 s es p \<Longrightarrow> i_Valid (sumOps I J) s \<longleftrightarrow> p \<noteq> None"
    by (cases s) (use assms [THEN iterates.at_valid] in \<open>auto simp: sumOps_def\<close>)
  show "sumAt w1 w2 s es (Some i) \<Longrightarrow> i_key (sumOps I J) s = fst (es ! i)"
    by (cases s) (use assms [THEN iterates.at_key] in \<open>auto simp: sumOps_def\<close>)
  show "sumAt w1 w2 s es (Some i) \<Longrightarrow> i_value (sumOps I J) s = snd (es ! i)"
    by (cases s) (use assms [THEN iterates.at_value] in \<open>auto simp: sumOps_def\<close>)
  show "sumAt w1 w2 s es p \<Longrightarrow> i_status (sumOps I J) s = sOK"
    by (cases s) (use assms [THEN iterates.at_status] in \<open>auto simp: sumOps_def\<close>)
  show "sumAt w1 w2 s es p \<Longrightarrow> \<exists>s'. i_SeekToFirst (sumOps I J) s = Some s' \<and> sumAt w1 w2 s' es (atPos 0 es)"
    by (cases s) (use assms [THEN iterates.seek_first] in \<open>fastforce simp: sumOps_def\<close>)+
  show "sumAt w1 w2 s es p \<Longrightarrow> \<exists>s'. i_SeekToLast (sumOps I J) s = Some s' \<and> sumAt w1 w2 s' es (beforePos (length es))"
    by (cases s) (use assms [THEN iterates.seek_last] in \<open>fastforce simp: sumOps_def\<close>)+
  show "sumAt w1 w2 s es p \<Longrightarrow> length k < N \<Longrightarrow>
      \<exists>s'. i_Seek (sumOps I J) k s = Some s' \<and> sumAt w1 w2 s' es (atPos (countBefore cmp k es) es)"
    by (cases s) (use assms [THEN iterates.seek] in \<open>fastforce simp: sumOps_def\<close>)+
  show "sumAt w1 w2 s es (Some i) \<Longrightarrow> \<exists>s'. i_Next (sumOps I J) s = Some s' \<and> sumAt w1 w2 s' es (atPos (Suc i) es)"
    by (cases s) (use assms [THEN iterates.next_at] in \<open>fastforce simp: sumOps_def\<close>)+
  show "sumAt w1 w2 s es (Some i) \<Longrightarrow> \<exists>s'. i_Prev (sumOps I J) s = Some s' \<and> sumAt w1 w2 s' es (beforePos i)"
    by (cases s) (use assms [THEN iterates.prev_at] in \<open>fastforce simp: sumOps_def\<close>)+
qed

text \<open>An iterator of nothing, with a status.\<close>

definition EmptyIterator :: "ldbstatus iterops" where
  "EmptyIterator =
     \<lparr>i_Valid = (\<lambda>_. False), i_SeekToFirst = Some, i_SeekToLast = Some, i_Seek = (\<lambda>_. Some), i_Next = (\<lambda>_. None),
      i_Prev = (\<lambda>_. None), i_key = (\<lambda>_. []), i_value = (\<lambda>_. []), i_status = (\<lambda>s. s)\<rparr>"

definition emptyAt :: "ldbstatus \<Rightarrow> (bytes \<times> bytes) list \<Rightarrow> nat option \<Rightarrow> bool" where
  "emptyAt s es p \<longleftrightarrow> s = sOK \<and> es = [] \<and> p = None"

lemma empty_iterates: "iterates EmptyIterator cmp N emptyAt"
  by unfold_locales (simp_all add: EmptyIterator_def emptyAt_def countBefore_def)

subsection \<open>The iterator of a memtable\<close>

definition MemTableIterator :: "comparator \<Rightarrow> (memtable \<times> nat option) iterops" where
  "MemTableIterator C =
     \<lparr>i_Valid = (\<lambda>(mem, n). n \<noteq> None),
      i_SeekToFirst = (\<lambda>(mem, n). map_option (Pair mem) (mi_SeekToFirst mem)),
      i_SeekToLast = (\<lambda>(mem, n). map_option (Pair mem) (mi_SeekToLast mem)),
      i_Seek = (\<lambda>k (mem, n). map_option (Pair mem) (mi_Seek C mem k)),
      i_Next = (\<lambda>(mem, n). case n of None \<Rightarrow> None | Some x \<Rightarrow> map_option (Pair mem) (mi_Next mem x)),
      i_Prev = (\<lambda>(mem, n). case n of None \<Rightarrow> None | Some x \<Rightarrow> map_option (Pair mem) (mi_Prev C mem x)),
      i_key = (\<lambda>(mem, n). case n of None \<Rightarrow> [] | Some x \<Rightarrow> mi_key mem x),
      i_value = (\<lambda>(mem, n). case n of None \<Rightarrow> [] | Some x \<Rightarrow> mi_value mem x),
      i_status = (\<lambda>_. sOK)\<rparr>"

definition entryPair :: "entry \<Rightarrow> bytes \<times> bytes" where
  "entryPair e = (entryKey e, e_value e)"

lemma entryPair_simps [simp]: "fst (entryPair e) = entryKey e" "snd (entryPair e) = e_value e"
  by (simp_all add: entryPair_def)

definition mem_at :: "comparator \<Rightarrow> memtable \<times> nat option \<Rightarrow> (bytes \<times> bytes) list \<Rightarrow> nat option \<Rightarrow> bool" where
  "mem_at C s es p \<longleftrightarrow>
     (\<exists>l ys. mem_holds C (fst s) l \<and> es = map entryPair l \<and>
        sl_wf (memCompare C) (fst s) ys \<and> map entryBytes l = map (sli_key (fst s)) ys \<and>
        snd s = map_option (nth ys) p \<and> (\<forall>i. p = Some i \<longrightarrow> i < length ys))"

text \<open>The links of the nodes make the walk.\<close>

lemma first_at: "first (drop i ys) = map_option (nth ys) (atPos i ys)"
  by (cases "i < length ys") (auto simp: atPos_def first_def Cons_nth_drop_Suc [symmetric])

context comparator_laws
begin

lemma mem_walk:
  assumes "mem_at C s es p"
  obtains l ys where "mem_holds C (fst s) l" "es = map entryPair l" "sl_wf (memCompare C) (fst s) ys"
    "length ys = length l" "snd s = map_option (nth ys) p" "\<forall>i. p = Some i \<longrightarrow> i < length l"
    "\<forall>i < length l. sli_key (fst s) (ys ! i) = entryBytes (l ! i)" "\<forall>i < length l. small (l ! i)"
    "\<forall>q. (\<forall>i. q = Some i \<longrightarrow> i < length l) \<longrightarrow> mem_at C (fst s, map_option (nth ys) q) es q"
proof -
  obtain l ys where a: "mem_holds C (fst s) l" "es = map entryPair l" "sl_wf (memCompare C) (fst s) ys"
    "map entryBytes l = map (sli_key (fst s)) ys" "snd s = map_option (nth ys) p" "\<forall>i. p = Some i \<longrightarrow> i < length ys"
    using assms by (auto simp: mem_at_def)
  have len: "length ys = length l" using a(4) map_eq_imp_length_eq by metis
  have "sli_key (fst s) (ys ! i) = entryBytes (l ! i)" if "i < length l" for i
    using a(4) that len by (metis nth_map)
  moreover have "mem_at C (fst s, map_option (nth ys) q) es q" if "\<forall>i. q = Some i \<longrightarrow> i < length l" for q
    unfolding mem_at_def using a that len by (intro exI [of _ l] exI [of _ ys]) simp
  moreover have "small (l ! i)" if "i < length l" for i using a(1) that by (simp add: mem_holds_def)
  ultimately show ?thesis using that [OF a(1-3) len a(5)] a(6) len by auto
qed

lemma mem_countBefore:
  assumes "length ys = length l" "\<forall>i < length l. sli_key mem (ys ! i) = entryBytes (l ! i)"
    "\<forall>i < length l. small (l ! i)" "length k < 2 ^ 32"
  shows "length (takeWhile (\<lambda>x. memCompare C x (EncodeKey k) < 0) (map (snKey mem) ys)) =
    countBefore (internal_Compare C) k (map entryPair l)"
proof (rule HOL.sym, rule countBefore_eqI)
  let ?P = "\<lambda>x. memCompare C x (EncodeKey k) < 0" and ?xs = "map (snKey mem) ys"
  let ?n = "length (takeWhile ?P ?xs)"
  have slice: "memSlice (EncodeKey k) = k"
    using memSlice_encoded(1) [OF assms(4), of "[]"] by (simp add: EncodeKey_def PutVarint32_def)
  have nth: "?P (?xs ! i) \<longleftrightarrow> internal_Compare C (fst (map entryPair l ! i)) k < 0" if "i < length l" for i
  proof -
    have "snKey mem (ys ! i) = entryBytes (l ! i)" "small (l ! i)" using that assms(2,3) by (auto simp: sli_key_def)
    then show ?thesis using that assms(1) by (simp add: memCompare_def slice)
  qed
  show n: "?n \<le> length (map entryPair l)" using length_takeWhile_le [of ?P ?xs] assms(1) by simp
  show "internal_Compare C (fst (map entryPair l ! i)) k < 0" if "i < ?n" for i
  proof -
    have "i < length l" using that n by simp
    then show ?thesis using nth takeWhile_holds [OF that] by blast
  qed
  show "\<not> internal_Compare C (fst (map entryPair l ! ?n)) k < 0" if "?n < length (map entryPair l)"
  proof -
    have "?n < length l" "?n < length ?xs" using that assms(1) by simp_all
    then show ?thesis using nth nth_length_takeWhile [of ?P ?xs] by blast
  qed
qed

lemma mem_ops:
  assumes "mem_at C s es p"
  shows "i_Valid (MemTableIterator C) s \<longleftrightarrow> p \<noteq> None" "i_status (MemTableIterator C) s = sOK"
    "\<exists>s'. i_SeekToFirst (MemTableIterator C) s = Some s' \<and> mem_at C s' es (atPos 0 es)"
    "\<exists>s'. i_SeekToLast (MemTableIterator C) s = Some s' \<and> mem_at C s' es (beforePos (length es))"
    "length k < 2 ^ 32 \<Longrightarrow>
       \<exists>s'. i_Seek (MemTableIterator C) k s = Some s' \<and> mem_at C s' es (atPos (countBefore (internal_Compare C) k es) es)"
    "p = Some i \<Longrightarrow> i < length es" "p = Some i \<Longrightarrow> i_key (MemTableIterator C) s = fst (es ! i)"
    "p = Some i \<Longrightarrow> i_value (MemTableIterator C) s = snd (es ! i)"
    "p = Some i \<Longrightarrow> \<exists>s'. i_Next (MemTableIterator C) s = Some s' \<and> mem_at C s' es (atPos (Suc i) es)"
    "p = Some i \<Longrightarrow> \<exists>s'. i_Prev (MemTableIterator C) s = Some s' \<and> mem_at C s' es (beforePos i)"
proof -
  note sk = ordering.sli_Seek_wf [OF mem_ordering] ordering.upper_drop [OF mem_ordering]
  obtain l ys where w0: "mem_holds C (fst s) l" and w: "es = map entryPair l" "sl_wf (memCompare C) (fst s) ys"
    "length ys = length l" "snd s = map_option (nth ys) p" "\<forall>i. p = Some i \<longrightarrow> i < length l"
    "\<forall>i < length l. sli_key (fst s) (ys ! i) = entryBytes (l ! i)" "\<forall>i < length l. small (l ! i)"
    "\<forall>q. (\<forall>i. q = Some i \<longrightarrow> i < length l) \<longrightarrow> mem_at C (fst s, map_option (nth ys) q) es q"
    using assms by (rule mem_walk)
  have at: "mem_at C (fst s, map_option (nth ys) q) es q" if "\<And>i. q = Some i \<Longrightarrow> i < length l" for q
    using w(8) that by blast
  have ap: "atPos j ys = atPos j es" for j using w(1,3) by (simp add: atPos_def)
  have to: "mem_at C (fst s, first (drop j ys)) es (atPos j es)" for j
    unfolding first_at ap by (rule at) (simp add: atPos_def w(1) split: if_splits)
  show "i_Valid (MemTableIterator C) s \<longleftrightarrow> p \<noteq> None"
    using w(4) by (simp add: MemTableIterator_def split_def)
  show "i_status (MemTableIterator C) s = sOK" by (simp add: MemTableIterator_def)
  show "\<exists>s'. i_SeekToFirst (MemTableIterator C) s = Some s' \<and> mem_at C s' es (atPos 0 es)"
    using to [of 0] ordering.sli_SeekToFirst_wf [OF mem_ordering w(2)]
    by (simp add: MemTableIterator_def split_def mi_SeekToFirst_def)
  have "sli_SeekToLast (fst s) = Some (map_option (nth ys) (beforePos (length es)))"
  proof -
    have "ys = [] \<longleftrightarrow> l = []" using w(3) by (metis length_0_conv)
    then show ?thesis
      using ordering.sli_SeekToLast_wf [OF mem_ordering w(2)] w(1,3)
      by (cases "ys = []") (simp_all add: beforePos_def last_conv_nth)
  qed
  moreover have "mem_at C (fst s, map_option (nth ys) (beforePos (length es))) es (beforePos (length es))"
    by (rule at) (auto simp: beforePos_def w(1) split: if_splits)
  ultimately show "\<exists>s'. i_SeekToLast (MemTableIterator C) s = Some s' \<and> mem_at C s' es (beforePos (length es))"
    by (simp add: MemTableIterator_def split_def mi_SeekToLast_def)
  show "\<exists>s'. i_Seek (MemTableIterator C) k s = Some s' \<and> mem_at C s' es (atPos (countBefore (internal_Compare C) k es) es)"
    if "length k < 2 ^ 32"
    using to [of "countBefore (internal_Compare C) k es"] mem_countBefore [OF w(3,6,7) that] sk(1) [OF w(2)]
    by (simp add: MemTableIterator_def split_def mi_Seek_def sk(2) w(1))
  show "i < length es" if "p = Some i" using w(1,5) that by simp
  show "i_key (MemTableIterator C) s = fst (es ! i)" "i_value (MemTableIterator C) s = snd (es ! i)" if "p = Some i"
    using that w by (simp_all add: MemTableIterator_def split_def mi_key_def mi_value_def)
  show "\<exists>s'. i_Next (MemTableIterator C) s = Some s' \<and> mem_at C s' es (atPos (Suc i) es)" if "p = Some i"
    using that w(3,4,5) to [of "Suc i"] ordering.sli_Next_wf [OF mem_ordering w(2)]
    by (simp add: MemTableIterator_def split_def mi_Next_def)
  have "sli_Prev (memCompare C) (fst s) (ys ! i) = Some (map_option (nth ys) (beforePos i))" if "p = Some i"
    using ordering.sli_Prev_wf [OF mem_ordering w(2)] w(3) w(5) that by (simp add: beforePos_def)
  moreover have "mem_at C (fst s, map_option (nth ys) (beforePos i)) es (beforePos i)" if "p = Some i"
    using w(5) that by (intro at) (simp add: beforePos_def split: if_splits)
  ultimately show "\<exists>s'. i_Prev (MemTableIterator C) s = Some s' \<and> mem_at C s' es (beforePos i)" if "p = Some i"
    using that w(4) by (simp add: MemTableIterator_def split_def mi_Prev_def)
qed

lemma mem_iterates: "iterates (MemTableIterator C) (internal_Compare C) (2 ^ 32) (mem_at C)"
  by (rule iterates.intro) (rule mem_ops, assumption, (assumption | rule HOL.refl)?)+

text \<open>A new iterator of a memtable is not valid; its entries are those the memtable holds.\<close>

lemma mem_at_new:
  assumes "mem_holds C mem l"
  shows "mem_at C (mem, None) (map entryPair l) None"
proof -
  obtain ys where "sl_wf (memCompare C) mem ys" "map entryBytes l = map (snKey mem) ys"
    using assms by (auto simp: mem_holds_def sl_holds_def)
  then show ?thesis using assms unfolding mem_at_def by (auto simp: sli_key_def intro!: exI [of _ ys])
qed

end

interpretation bytewise_mem: iterates "MemTableIterator BytewiseComparator" "internal_Compare BytewiseComparator" "2 ^ 32" "mem_at BytewiseComparator"
  by (rule bytewise.mem_iterates)

end
