(* ===== verification/LdbDBIter.thy ===== *)
theory LdbDBIter
  imports LdbIter
begin

text \<open>
  leveldb/db/db_iter.cc: the iterator that a user of the database sees, over an iterator of
  the entries. It shows for each key the newest entry not after its sequence number, and
  nothing for a deleted key. Going forwards the inner iterator is at the entry shown; going
  backwards it is before all entries of the key shown, and the entry is saved.

  The samples that \<open>ParseKey\<close> takes of the keys read, for the statistics of the compaction,
  are not modelled, nor is the capacity of the saved strings.
\<close>

subsection \<open>The iterator\<close>

datatype direction = kForward | kReverse

record 's dbiter =
  dbi_iter :: 's
  dbi_sequence :: "64 word"
  dbi_status :: ldbstatus
  dbi_saved_key :: bytes
  dbi_saved_value :: bytes
  dbi_direction :: direction
  dbi_valid :: bool

definition newDBIter :: "'s \<Rightarrow> 64 word \<Rightarrow> 's dbiter" where
  "newDBIter i s =
     \<lparr>dbi_iter = i, dbi_sequence = s, dbi_status = sOK, dbi_saved_key = [], dbi_saved_value = [],
      dbi_direction = kForward, dbi_valid = False\<rparr>"

definition dbi_key :: "'s iterops \<Rightarrow> 's dbiter \<Rightarrow> bytes" where
  "dbi_key I st = (if dbi_direction st = kForward then ExtractUserKey (i_key I (dbi_iter st)) else dbi_saved_key st)"

definition dbi_value :: "'s iterops \<Rightarrow> 's dbiter \<Rightarrow> bytes" where
  "dbi_value I st = (if dbi_direction st = kForward then i_value I (dbi_iter st) else dbi_saved_value st)"

definition dbi_statusOf :: "'s iterops \<Rightarrow> 's dbiter \<Rightarrow> ldbstatus" where
  "dbi_statusOf I st = (if dbi_status st = sOK then i_status I (dbi_iter st) else dbi_status st)"

definition ParseKey :: "'s iterops \<Rightarrow> 's dbiter \<Rightarrow> ParsedInternalKey option \<times> 's dbiter" where
  "ParseKey I st =
     (case ParseInternalKey (i_key I (dbi_iter st)) of
        None \<Rightarrow> (None, st\<lparr>dbi_status := sCorruption ''corrupted internal key in DBIter''\<rparr>)
      | Some ikey \<Rightarrow> (Some ikey, st))"

text \<open>
  The body of the loop of \<open>FindNextUserEntry\<close> on the entry that the inner iterator is at:
  \<open>Inr\<close> is the return with it, \<open>Inl\<close> goes on, with the flag \<open>skipping\<close>.
\<close>

definition nextEntry :: "'s iterops \<Rightarrow> comparator \<Rightarrow> bool \<Rightarrow> 's dbiter \<Rightarrow> bool \<times> 's dbiter + 's dbiter" where
  "nextEntry I C skipping st =
     (case ParseKey I st of
        (Some ikey, st1) \<Rightarrow>
          if pik_sequence ikey \<le> dbi_sequence st1 then
            (case pik_type ikey of
               kTypeDeletion \<Rightarrow> Inl (True, st1\<lparr>dbi_saved_key := pik_user_key ikey\<rparr>)
             | kTypeValue \<Rightarrow>
                 if skipping \<and> cmp_Compare C (pik_user_key ikey) (dbi_saved_key st1) \<le> 0 then Inl (skipping, st1)
                 else Inr (st1\<lparr>dbi_valid := True, dbi_saved_key := []\<rparr>))
          else Inl (skipping, st1)
      | (None, st1) \<Rightarrow> Inl (skipping, st1))"

partial_function (option)
  FindNextUserEntry :: "'s iterops \<Rightarrow> comparator \<Rightarrow> bool \<Rightarrow> 's dbiter \<Rightarrow> 's dbiter option" where
  "FindNextUserEntry I C skipping st =
     (case nextEntry I C skipping st of
        Inr st1 \<Rightarrow> Some st1
      | Inl go \<Rightarrow>
          Option.bind (i_Next I (dbi_iter (snd go)))
            (\<lambda>i. if i_Valid I i then FindNextUserEntry I C (fst go) ((snd go)\<lparr>dbi_iter := i\<rparr>)
                 else Some ((snd go)\<lparr>dbi_iter := i, dbi_saved_key := [], dbi_valid := False\<rparr>)))"

text \<open>The body of the loop of \<open>FindPrevUserEntry\<close>: \<open>Inr\<close> is the break.\<close>

definition prevEntry :: "'s iterops \<Rightarrow> comparator \<Rightarrow> ValueType \<Rightarrow> 's dbiter \<Rightarrow> ValueType \<times> 's dbiter + ValueType \<times> 's dbiter" where
  "prevEntry I C value_type st =
     (case ParseKey I st of
        (Some ikey, st1) \<Rightarrow>
          if pik_sequence ikey \<le> dbi_sequence st1 then
            if value_type \<noteq> kTypeDeletion \<and> cmp_Compare C (pik_user_key ikey) (dbi_saved_key st1) < 0 then
              Inr (value_type, st1)
            else if pik_type ikey = kTypeDeletion then
              Inl (pik_type ikey, st1\<lparr>dbi_saved_key := [], dbi_saved_value := []\<rparr>)
            else
              Inl (pik_type ikey,
                   st1\<lparr>dbi_saved_key := ExtractUserKey (i_key I (dbi_iter st1)),
                       dbi_saved_value := i_value I (dbi_iter st1)\<rparr>)
          else Inl (value_type, st1)
      | (None, st1) \<Rightarrow> Inl (value_type, st1))"

partial_function (option)
  prevLoop :: "'s iterops \<Rightarrow> comparator \<Rightarrow> ValueType \<Rightarrow> 's dbiter \<Rightarrow> (ValueType \<times> 's dbiter) option" where
  "prevLoop I C value_type st =
     (if i_Valid I (dbi_iter st) then
        (case prevEntry I C value_type st of
           Inr end \<Rightarrow> Some end
         | Inl go \<Rightarrow>
             Option.bind (i_Prev I (dbi_iter (snd go)))
               (\<lambda>i. prevLoop I C (fst go) ((snd go)\<lparr>dbi_iter := i\<rparr>)))
      else Some (value_type, st))"

definition FindPrevUserEntry :: "'s iterops \<Rightarrow> comparator \<Rightarrow> 's dbiter \<Rightarrow> 's dbiter option" where
  "FindPrevUserEntry I C st =
     map_option
       (\<lambda>(value_type, st1).
          if value_type = kTypeDeletion then
            st1\<lparr>dbi_valid := False, dbi_saved_key := [], dbi_saved_value := [], dbi_direction := kForward\<rparr>
          else st1\<lparr>dbi_valid := True\<rparr>)
       (prevLoop I C kTypeDeletion st)"

definition dbi_Next :: "'s iterops \<Rightarrow> comparator \<Rightarrow> 's dbiter \<Rightarrow> 's dbiter option" where
  "dbi_Next I C st =
     (if dbi_direction st = kReverse then
        Option.bind (if \<not> i_Valid I (dbi_iter st) then i_SeekToFirst I (dbi_iter st) else i_Next I (dbi_iter st))
          (\<lambda>i. let st1 = st\<lparr>dbi_direction := kForward, dbi_iter := i\<rparr>
               in if \<not> i_Valid I i then Some (st1\<lparr>dbi_valid := False, dbi_saved_key := []\<rparr>)
                  else FindNextUserEntry I C True st1)
      else FindNextUserEntry I C True (st\<lparr>dbi_saved_key := ExtractUserKey (i_key I (dbi_iter st))\<rparr>))"

text \<open>
  The loop of \<open>Prev\<close> that leaves the entries of the current key; the flag of its result
  says whether there are entries before them.
\<close>

partial_function (option)
  leaveKey :: "'s iterops \<Rightarrow> comparator \<Rightarrow> bytes \<Rightarrow> 's \<Rightarrow> (bool \<times> 's) option" where
  "leaveKey I C saved i =
     Option.bind (i_Prev I i)
       (\<lambda>i'. if \<not> i_Valid I i' then Some (False, i')
             else if cmp_Compare C (ExtractUserKey (i_key I i')) saved < 0 then Some (True, i')
             else leaveKey I C saved i')"

definition dbi_Prev :: "'s iterops \<Rightarrow> comparator \<Rightarrow> 's dbiter \<Rightarrow> 's dbiter option" where
  "dbi_Prev I C st =
     (if dbi_direction st = kForward then
        (let saved = ExtractUserKey (i_key I (dbi_iter st)); st0 = st\<lparr>dbi_saved_key := saved\<rparr>
         in Option.bind (leaveKey I C saved (dbi_iter st))
              (\<lambda>(more, i). if more then FindPrevUserEntry I C (st0\<lparr>dbi_iter := i, dbi_direction := kReverse\<rparr>)
                   else Some (st0\<lparr>dbi_iter := i, dbi_valid := False, dbi_saved_key := [], dbi_saved_value := []\<rparr>)))
      else FindPrevUserEntry I C st)"

definition dbi_Seek :: "'s iterops \<Rightarrow> comparator \<Rightarrow> bytes \<Rightarrow> 's dbiter \<Rightarrow> 's dbiter option" where
  "dbi_Seek I C target st =
     (let key = AppendInternalKey [] \<lparr>pik_user_key = target, pik_sequence = dbi_sequence st, pik_type = kValueTypeForSeek\<rparr>
      in Option.bind (i_Seek I key (dbi_iter st))
           (\<lambda>i. let st1 = st\<lparr>dbi_direction := kForward, dbi_saved_value := [], dbi_saved_key := key, dbi_iter := i\<rparr>
                in if i_Valid I i then FindNextUserEntry I C False st1 else Some (st1\<lparr>dbi_valid := False\<rparr>)))"

definition dbi_SeekToFirst :: "'s iterops \<Rightarrow> comparator \<Rightarrow> 's dbiter \<Rightarrow> 's dbiter option" where
  "dbi_SeekToFirst I C st =
     Option.bind (i_SeekToFirst I (dbi_iter st))
       (\<lambda>i. let st1 = st\<lparr>dbi_direction := kForward, dbi_saved_value := [], dbi_iter := i\<rparr>
            in if i_Valid I i then FindNextUserEntry I C False st1 else Some (st1\<lparr>dbi_valid := False\<rparr>))"

definition dbi_SeekToLast :: "'s iterops \<Rightarrow> comparator \<Rightarrow> 's dbiter \<Rightarrow> 's dbiter option" where
  "dbi_SeekToLast I C st =
     Option.bind (i_SeekToLast I (dbi_iter st))
       (\<lambda>i. FindPrevUserEntry I C (st\<lparr>dbi_direction := kReverse, dbi_saved_value := [], dbi_iter := i\<rparr>))"

definition DBIter :: "'s iterops \<Rightarrow> comparator \<Rightarrow> 's dbiter iterops" where
  "DBIter I C =
     \<lparr>i_Valid = dbi_valid, i_SeekToFirst = dbi_SeekToFirst I C, i_SeekToLast = dbi_SeekToLast I C,
      i_Seek = dbi_Seek I C, i_Next = dbi_Next I C, i_Prev = dbi_Prev I C, i_key = dbi_key I,
      i_value = dbi_value I, i_status = dbi_statusOf I\<rparr>"

end
