(* ===== verification/LdbDBIterLaws.thy ===== *)
theory LdbDBIterLaws
  imports LdbDBIter
begin

text \<open>
  The iterator of the database walks the newest visible entries: over any iterator that
  walks the internal entries it is again an iterator, of the keys and values that a reader
  at its sequence number sees, in their order.
\<close>

subsection \<open>The entries that are shown\<close>

definition entries_ok :: "comparator \<Rightarrow> entry list \<Rightarrow> bool" where
  "entries_ok C l \<longleftrightarrow>
     sorted_wrt (\<lambda>a b. internal_Compare C (entryKey a) (entryKey b) < 0) l \<and>
     (\<forall>e \<in> set l. e_seq e \<le> kMaxSequenceNumber)"

definition shown :: "comparator \<Rightarrow> 64 word \<Rightarrow> entry list \<Rightarrow> nat \<Rightarrow> bool" where
  "shown C s l m \<longleftrightarrow>
     m < length l \<and> e_seq (l ! m) \<le> s \<and> e_type (l ! m) = kTypeValue \<and>
     (\<forall>j < m. cmp_Compare C (e_key (l ! j)) (e_key (l ! m)) = 0 \<longrightarrow> s < e_seq (l ! j))"

definition shownPair :: "entry list \<Rightarrow> nat \<Rightarrow> bytes \<times> bytes" where
  "shownPair l m = (e_key (l ! m), e_value (l ! m))"

definition userEntries :: "comparator \<Rightarrow> 64 word \<Rightarrow> entry list \<Rightarrow> (bytes \<times> bytes) list" where
  "userEntries C s l = map (shownPair l) (filter (shown C s l) [0..<length l])"

abbreviation rank :: "comparator \<Rightarrow> 64 word \<Rightarrow> entry list \<Rightarrow> nat \<Rightarrow> nat" where
  "rank C s l \<equiv> rankOf (shown C s l)"

lemma shown_range: "shown C s l m \<Longrightarrow> m < length l"
  by (simp add: shown_def)

lemma rank_end [simp]: "rank C s l (length l) = length (userEntries C s l)"
  by (simp add: rankOf_def userEntries_def)

lemma rank_nth:
  assumes "shown C s l m"
  shows "rank C s l m < length (userEntries C s l)" "userEntries C s l ! rank C s l m = shownPair l m"
  using rankOf_nth [of "shown C s l", OF assms shown_range [OF assms]] by (simp_all add: userEntries_def rankOf_def)

subsection \<open>The order of the entries\<close>

context comparator_laws
begin

lemma keys_sorted:
  assumes "entries_ok C l" "i \<le> j" "j < length l"
  shows "cmp_Compare C (e_key (l ! i)) (e_key (l ! j)) \<le> 0"
proof (cases "i = j")
  case False
  then have "internal_Compare C (entryKey (l ! i)) (entryKey (l ! j)) < 0"
    using assms by (simp add: entries_ok_def sorted_wrt_iff_nth_less)
  then show ?thesis by (auto simp: internal_Compare_def Let_def split: if_splits)
qed simp

text \<open>A shown entry hides what comes behind it under its key, and nothing before it is shown.\<close>

lemma shown_hides:
  assumes "entries_ok C l" "e_seq (l ! i) \<le> s" "i < m" "shown C s l m"
  shows "cmp_Compare C (e_key (l ! i)) (e_key (l ! m)) < 0"
  using keys_sorted [OF assms(1), of i m] assms(2-) by (force simp: shown_def)

lemma countBefore_user:
  assumes ok: "entries_ok C l" and s: "s \<le> kMaxSequenceNumber"
    and i: "i = countBefore (internal_Compare C) (InternalKey k s kValueTypeForSeek) (map entryPair l)"
  shows "countBefore (cmp_Compare C) k (userEntries C s l) = rank C s l i"
    "j < i \<Longrightarrow> i \<le> m \<Longrightarrow> m < length l \<Longrightarrow> cmp_Compare C (e_key (l ! j)) (e_key (l ! m)) = 0 \<Longrightarrow> s < e_seq (l ! j)"
proof -
  let ?t = "InternalKey k s kValueTypeForSeek"
  have ord: "internal_Compare C (entryKey (l ! j)) ?t < 0 \<longleftrightarrow>
      cmp_Compare C (e_key (l ! j)) k < 0 \<or> cmp_Compare C (e_key (l ! j)) k = 0 \<and> s < e_seq (l ! j)" if "j < length l" for j
    using ok s that by (intro seek_order) (simp_all add: entries_ok_def)
  have le: "i \<le> length l" using countBefore_le [of "internal_Compare C" ?t "map entryPair l"] by (simp add: i)
  have lt: "cmp_Compare C (e_key (l ! j)) k < 0 \<or> cmp_Compare C (e_key (l ! j)) k = 0 \<and> s < e_seq (l ! j)" if "j < i" for j
    using countBefore_nth [of j "internal_Compare C" ?t "map entryPair l"] ord [of j] that le by (simp add: i)
  have at_i: "0 \<le> cmp_Compare C (e_key (l ! i)) k" if "i < length l"
    using countBefore_end [of "internal_Compare C" ?t "map entryPair l"] ord [of i] that by (simp add: i)
  have ge: "0 \<le> cmp_Compare C (e_key (l ! m)) k" if "i \<le> m" "m < length l" for m
    using at_i keys_sorted [OF ok that] that le_iff trans by (meson order_le_less_trans)
  show "s < e_seq (l ! j)" if "j < i" "i \<le> m" "m < length l" "cmp_Compare C (e_key (l ! j)) (e_key (l ! m)) = 0"
  proof -
    have "0 \<le> cmp_Compare C (e_key (l ! j)) k"
      using ge [OF that(2,3)] that(4) by (metis le_iff trans eq_iff order_refl)
    then show ?thesis using lt [OF that(1)] by linarith
  qed
  let ?us = "userEntries C s l"
  have us: "\<exists>m. shown C s l m \<and> rank C s l m = q \<and> ?us ! q = shownPair l m" if "q < length ?us" for q
  proof -
    have "\<exists>m < n. shown C s l m \<and> rank C s l m = q" if "q < rank C s l n" for n
      using that by (induction n) (metis less_Suc_eq rankOf_simps less_SucE not_less0)+
    then show ?thesis using that rank_nth(2) by (metis rank_end)
  qed
  note mono = rankOf_mono
  show "countBefore (cmp_Compare C) k ?us = rank C s l i"
  proof (rule countBefore_eqI)
    show "rank C s l i \<le> length ?us" using mono [OF le, of "shown C s l"] by simp
    show "cmp_Compare C (fst (?us ! q)) k < 0" if q: "q < rank C s l i" for q
    proof -
      obtain m where m: "shown C s l m" "rank C s l m = q" "?us ! q = shownPair l m"
        using us [of q] q mono [OF le, of "shown C s l"] by auto
      then have "m < i" using q mono [of i m "shown C s l"] by (metis linorder_not_le)
      then have "cmp_Compare C (e_key (l ! m)) k < 0" using lt [of m] m(1) by (auto simp: shown_def)
      then show ?thesis by (simp add: m(3) shownPair_def)
    qed
    show "\<not> cmp_Compare C (fst (?us ! rank C s l i)) k < 0" if q: "rank C s l i < length ?us"
    proof -
      obtain m where m: "shown C s l m" "rank C s l m = rank C s l i" "?us ! rank C s l i = shownPair l m"
        using us [OF q] by auto
      have "i \<le> m"
      proof (rule ccontr)
        assume "\<not> i \<le> m"
        then have "Suc (rank C s l m) \<le> rank C s l i" using mono [of "Suc m" i "shown C s l"] m(1) by simp
        then show False using m(2) by simp
      qed
      then show ?thesis using ge [of m] shown_range [OF m(1)] by (simp add: m(3) shownPair_def)
    qed
  qed
qed

end

subsection \<open>The loops\<close>

text \<open>A state that has not met an error, over the entries, at a position of the inner iterator.\<close>

definition over ::
  "('s \<Rightarrow> (bytes \<times> bytes) list \<Rightarrow> nat option \<Rightarrow> bool) \<Rightarrow> 64 word \<Rightarrow> entry list \<Rightarrow> 's dbiter \<Rightarrow> nat option \<Rightarrow> bool" where
  "over walks s l st p \<longleftrightarrow> dbi_status st = sOK \<and> dbi_sequence st = s \<and> walks (dbi_iter st) (map entryPair l) p"

lemma over_simps [simp]:
  "over walks s l (st\<lparr>dbi_saved_key := k\<rparr>) p = over walks s l st p"
  "over walks s l (st\<lparr>dbi_saved_value := v\<rparr>) p = over walks s l st p"
  "over walks s l (st\<lparr>dbi_direction := d\<rparr>) p = over walks s l st p"
  "over walks s l (st\<lparr>dbi_valid := b\<rparr>) p = over walks s l st p"
  "over walks s l (st\<lparr>dbi_iter := i\<rparr>) p \<longleftrightarrow>
     dbi_status st = sOK \<and> dbi_sequence st = s \<and> walks i (map entryPair l) p"
  by (simp_all add: over_def)

text \<open>The entry saved while going backwards; nothing visible is between the inner iterator and it.\<close>

definition savedAt :: "64 word \<Rightarrow> entry list \<Rightarrow> nat \<Rightarrow> nat \<Rightarrow> 's dbiter \<Rightarrow> bool" where
  "savedAt s l c m st \<longleftrightarrow>
     c \<le> m \<and> m < length l \<and> e_seq (l ! m) \<le> s \<and> e_type (l ! m) = kTypeValue \<and>
     dbi_saved_key st = e_key (l ! m) \<and> dbi_saved_value st = e_value (l ! m) \<and>
     (\<forall>j. c \<le> j \<and> j < m \<longrightarrow> s < e_seq (l ! j))"

lemma savedAt_simps [simp]:
  "savedAt s l c m (st\<lparr>dbi_valid := b\<rparr>) = savedAt s l c m st" "savedAt s l c m (st\<lparr>dbi_iter := i\<rparr>) = savedAt s l c m st"
  by (simp_all add: savedAt_def)

text \<open>What the iterator walks, the entries a user sees, and where it is.\<close>

definition dbAt ::
  "comparator \<Rightarrow> ('s \<Rightarrow> (bytes \<times> bytes) list \<Rightarrow> nat option \<Rightarrow> bool) \<Rightarrow> 's dbiter \<Rightarrow> (bytes \<times> bytes) list \<Rightarrow> nat option \<Rightarrow> bool" where
  "dbAt C walks st us p \<longleftrightarrow>
     (\<exists>l s. entries_ok C l \<and> s \<le> kMaxSequenceNumber \<and> us = userEntries C s l \<and> dbi_valid st = (p \<noteq> None) \<and>
        (case p of
           None \<Rightarrow> \<exists>q. over walks s l st q
         | Some q \<Rightarrow> \<exists>m. shown C s l m \<and> q = rank C s l m \<and>
             (dbi_direction st = kForward \<and> over walks s l st (Some m) \<or>
              dbi_direction st = kReverse \<and> (\<exists>c. savedAt s l c m st \<and> over walks s l st (beforePos c)))))"

locale dbiter = iterates I "internal_Compare C" N walks + comparator_laws C
  for I :: "'s iterops" and N and walks and C
begin

lemma ParseKey_over:
  assumes "entries_ok C l" "over walks s l st (Some i)"
  shows "ParseKey I st = (Some \<lparr>pik_user_key = e_key (l ! i), pik_sequence = e_seq (l ! i), pik_type = e_type (l ! i)\<rparr>, st)"
    "i < length l" "i_key I (dbi_iter st) = entryKey (l ! i)" "i_value I (dbi_iter st) = e_value (l ! i)"
proof -
  have w: "walks (dbi_iter st) (map entryPair l) (Some i)" using assms(2) by (simp add: over_def)
  then show i: "i < length l" using at_range by force
  show k: "i_key I (dbi_iter st) = entryKey (l ! i)" "i_value I (dbi_iter st) = e_value (l ! i)"
    using at_key [OF w] at_value [OF w] i by simp_all
  show "ParseKey I st = (Some \<lparr>pik_user_key = e_key (l ! i), pik_sequence = e_seq (l ! i), pik_type = e_type (l ! i)\<rparr>, st)"
    using assms(1) i by (simp add: ParseKey_def k entries_ok_def)
qed

text \<open>
  Forwards: the loop ends on the next shown entry whose key is not to be skipped, provided
  that the entries before have hidden what they can.
\<close>

definition wanted :: "64 word \<Rightarrow> entry list \<Rightarrow> bool \<Rightarrow> bytes \<Rightarrow> nat \<Rightarrow> bool" where
  "wanted s l skipping sk m \<longleftrightarrow> shown C s l m \<and> \<not> (skipping \<and> cmp_Compare C (e_key (l ! m)) sk \<le> 0)"

definition skips :: "64 word \<Rightarrow> entry list \<Rightarrow> bool \<Rightarrow> bytes \<Rightarrow> nat \<Rightarrow> bool" where
  "skips s l skipping sk i \<longleftrightarrow>
     (\<forall>j m. j < i \<longrightarrow> i \<le> m \<longrightarrow> m < length l \<longrightarrow> cmp_Compare C (e_key (l ! j)) (e_key (l ! m)) = 0 \<longrightarrow> e_seq (l ! j) \<le> s \<longrightarrow>
        skipping \<and> cmp_Compare C (e_key (l ! m)) sk \<le> 0) \<and>
     (skipping \<longrightarrow> (\<forall>j. i \<le> j \<longrightarrow> j < length l \<longrightarrow> e_seq (l ! j) \<le> s \<longrightarrow> cmp_Compare C sk (e_key (l ! j)) \<le> 0))"

definition forwardAt :: "64 word \<Rightarrow> entry list \<Rightarrow> nat option \<Rightarrow> 's dbiter \<Rightarrow> bool" where
  "forwardAt s l r st \<longleftrightarrow>
     dbi_direction st = kForward \<and> dbi_valid st = (r \<noteq> None) \<and> (\<exists>p. over walks s l st p \<and> (r \<noteq> None \<longrightarrow> p = r))"

lemma nextEntry_step:
  assumes ok: "entries_ok C l" and st: "over walks s l st (Some i)"
    and sk: "skips s l skipping (dbi_saved_key st) i"
  shows "(wanted s l skipping (dbi_saved_key st) i \<and>
      nextEntry I C skipping st = Inr (st\<lparr>dbi_valid := True, dbi_saved_key := []\<rparr>)) \<or>
    (\<not> wanted s l skipping (dbi_saved_key st) i \<and>
      (\<exists>b k. nextEntry I C skipping st = Inl (b, st\<lparr>dbi_saved_key := k\<rparr>) \<and> skips s l b k (Suc i) \<and>
         (\<forall>m. i < m \<and> m < length l \<longrightarrow> wanted s l b k m = wanted s l skipping (dbi_saved_key st) m)))"
proof -
  note P = ParseKey_over [OF ok st]
  have seq: "dbi_sequence st = s" using st by (simp add: over_def)
  let ?sk = "dbi_saved_key st" and ?K = "\<lambda>m. e_key (l ! m)"
  have same: "st\<lparr>dbi_saved_key := ?sk\<rparr> = st" by simp
  have keep: "skips s l skipping ?sk (Suc i)" if "e_seq (l ! i) \<le> s \<Longrightarrow> skipping \<and> cmp_Compare C (?K i) ?sk \<le> 0"
    unfolding skips_def
  proof (intro conjI allI impI)
    fix j m assume a: "j < Suc i" "Suc i \<le> m" "m < length l" "cmp_Compare C (?K j) (?K m) = 0" "e_seq (l ! j) \<le> s"
    have "skipping \<and> cmp_Compare C (?K m) ?sk \<le> 0"
    proof (cases "j = i")
      case True
      then have "cmp_Compare C (?K m) (?K i) = 0" using a(4) eq_iff by blast
      then have "cmp_Compare C (?K m) (?K i) \<le> 0" by simp
      then show ?thesis using that a(5) True trans by blast
    next
      case False
      then have "j < i" "i \<le> m" using a(1,2) by simp_all
      then show ?thesis using sk a(3-5) unfolding skips_def by blast
    qed
    then show "skipping" "cmp_Compare C (?K m) ?sk \<le> 0" by simp_all
  qed (use sk in \<open>auto simp: skips_def\<close>)
  show ?thesis
  proof (cases "e_seq (l ! i) \<le> s")
    case False
    then have "nextEntry I C skipping st = Inl (skipping, st)" "\<not> wanted s l skipping ?sk i"
      by (simp_all add: nextEntry_def P(1) seq wanted_def shown_def)
    then show ?thesis using keep False same by metis
  next
    case vis: True
    show ?thesis
    proof (cases "e_type (l ! i)")
      case kTypeDeletion
      have "nextEntry I C skipping st = Inl (True, st\<lparr>dbi_saved_key := ?K i\<rparr>)" "\<not> wanted s l skipping ?sk i"
        using vis kTypeDeletion by (simp_all add: nextEntry_def P(1) seq wanted_def shown_def)
      moreover have "skips s l True (?K i) (Suc i)"
        unfolding skips_def
      proof (intro conjI allI impI)
        fix j m assume "j < Suc i" "cmp_Compare C (?K j) (?K m) = 0"
        then have "cmp_Compare C (?K j) (?K i) \<le> 0" "cmp_Compare C (?K m) (?K j) = 0"
          using keys_sorted [OF ok _ P(2), of j] eq_iff by (simp, blast)
        then show "cmp_Compare C (?K m) (?K i) \<le> 0" using trans by (metis order_refl)
      qed (use keys_sorted [OF ok] in \<open>simp_all\<close>)
      moreover have "wanted s l True (?K i) m = wanted s l skipping ?sk m" if "i < m" "m < length l" for m
      proof -
        have "cmp_Compare C (?K i) (?K m) < 0" if "shown C s l m" using shown_hides [OF ok vis \<open>i < m\<close> that] .
        moreover have "cmp_Compare C ?sk (?K i) \<le> 0" if "skipping" using sk that vis P(2) by (auto simp: skips_def)
        ultimately show ?thesis unfolding wanted_def by (meson anti le_less_trans linorder_not_le)
      qed
      ultimately show ?thesis by blast
    next
      case kTypeValue
      show ?thesis
      proof (cases "skipping \<and> cmp_Compare C (?K i) ?sk \<le> 0")
        case True
        then have "nextEntry I C skipping st = Inl (skipping, st)" "\<not> wanted s l skipping ?sk i"
          using vis kTypeValue by (simp_all add: nextEntry_def P(1) seq wanted_def)
        then show ?thesis using keep True same by metis
      next
        case False
        then have "nextEntry I C skipping st = Inr (st\<lparr>dbi_valid := True, dbi_saved_key := []\<rparr>)"
          using vis kTypeValue by (auto simp: nextEntry_def P(1) seq)
        moreover have "shown C s l i"
          using vis kTypeValue P(2) sk False unfolding shown_def skips_def by (meson linorder_not_le order_refl)
        ultimately show ?thesis using False by (simp add: wanted_def)
      qed
    qed
  qed
qed

lemma FindNext:
  assumes "entries_ok C l" "over walks s l st (Some i)" "skips s l skipping (dbi_saved_key st) i" "dbi_direction st = kForward"
  shows "\<exists>st'. FindNextUserEntry I C skipping st = Some st' \<and>
    forwardAt s l (List.find (wanted s l skipping (dbi_saved_key st)) [i..<length l]) st'"
  using assms
proof (induction "length l - i" arbitrary: i skipping st)
  case 0
  then show ?case using ParseKey_over(2) [OF 0(2,3)] by simp
next
  case (Suc n)
  note ok = Suc.prems(1) and st = Suc.prems(2) and sk = Suc.prems(3) and fwd = Suc.prems(4)
  let ?W = "wanted s l skipping (dbi_saved_key st)"
  have i: "i < length l" using ParseKey_over(2) [OF ok st] .
  show ?case
  proof (cases "?W i")
    case True
    then have "FindNextUserEntry I C skipping st = Some (st\<lparr>dbi_valid := True, dbi_saved_key := []\<rparr>)"
      using nextEntry_step [OF ok st sk] by (subst FindNextUserEntry.simps) auto
    then show ?thesis using True i st fwd by (auto simp: forwardAt_def upt_conv_Cons)
  next
    case False
    then obtain b k where bk: "nextEntry I C skipping st = Inl (b, st\<lparr>dbi_saved_key := k\<rparr>)" "skips s l b k (Suc i)"
      "\<And>m. i < m \<Longrightarrow> m < length l \<Longrightarrow> wanted s l b k m = ?W m"
      using nextEntry_step [OF ok st sk] by auto
    have w: "dbi_status st = sOK" "dbi_sequence st = s" "walks (dbi_iter st) (map entryPair l) (Some i)"
      using st by (simp_all add: over_def)
    obtain i' where i': "i_Next I (dbi_iter st) = Some i'" "walks i' (map entryPair l) (atPos (Suc i) (map entryPair l))"
      using next_at [OF w(3)] by auto
    let ?st1 = "st\<lparr>dbi_saved_key := k, dbi_iter := i'\<rparr>"
    have step: "FindNextUserEntry I C skipping st =
        (if i_Valid I i' then FindNextUserEntry I C b ?st1
         else Some (st\<lparr>dbi_saved_key := [], dbi_iter := i', dbi_valid := False\<rparr>))"
      by (subst FindNextUserEntry.simps) (simp add: bk(1) i'(1))
    have find: "List.find ?W [i..<length l] = List.find (wanted s l b k) [Suc i..<length l]"
      using False i by (auto simp: upt_conv_Cons bk(3) intro: find_cong)
    show ?thesis
    proof (cases "Suc i < length l")
      case True
      then have "i_Valid I i'" "over walks s l ?st1 (Some (Suc i))"
        using at_valid [OF i'(2)] i'(2) w by (simp_all add: atPos_def)
      then show ?thesis using Suc.hyps(1) [of "Suc i" ?st1 b] Suc.hyps(2) ok bk(2) fwd step find by simp
    next
      case last: False
      then have "atPos (Suc i) (map entryPair l) = None" by simp
      then show ?thesis using at_valid [OF i'(2)] i'(2) w step find last fwd by (auto simp: forwardAt_def)
    qed
  qed
qed

text \<open>Backwards: the loop ends on the last shown entry, before all entries that could replace it.\<close>

definition backwardAt :: "64 word \<Rightarrow> entry list \<Rightarrow> nat \<Rightarrow> ValueType \<Rightarrow> nat \<Rightarrow> 's dbiter \<Rightarrow> bool" where
  "backwardAt s l c0 vt c st \<longleftrightarrow> over walks s l st (beforePos c) \<and> dbi_direction st = kReverse \<and> c \<le> c0 \<and> c0 \<le> length l \<and>
     (case vt of
        kTypeDeletion \<Rightarrow> (\<forall>m. c \<le> m \<and> m < c0 \<longrightarrow> \<not> shown C s l m)
      | kTypeValue \<Rightarrow> (\<exists>m. savedAt s l c m st \<and> m < c0 \<and> (\<forall>j. m < j \<and> j < c0 \<longrightarrow> \<not> shown C s l j)))"

lemma prevEntry_step:
  assumes ok: "entries_ok C l" and st: "backwardAt s l c0 vt (Suc c) st"
  shows "(\<exists>m. prevEntry I C vt st = Inr (vt, st) \<and> vt = kTypeValue \<and> savedAt s l (Suc c) m st \<and>
        List.find (shown C s l) (rev [0..<c0]) = Some m) \<or>
    (\<exists>vt' st'. prevEntry I C vt st = Inl (vt', st') \<and> dbi_iter st' = dbi_iter st \<and>
       (\<forall>i. walks i (map entryPair l) (beforePos c) \<longrightarrow> backwardAt s l c0 vt' c (st'\<lparr>dbi_iter := i\<rparr>)))"
proof -
  have o: "over walks s l st (Some c)" and c0: "Suc c \<le> c0" "c0 \<le> length l" "dbi_direction st = kReverse"
    using st by (simp_all add: backwardAt_def)
  note P = ParseKey_over [OF ok o]
  have seq: "dbi_sequence st = s" "dbi_status st = sOK" using o by (simp_all add: over_def)
  let ?K = "\<lambda>m. e_key (l ! m)"
  consider (hidden) "s < e_seq (l ! c)" | (visible) "e_seq (l ! c) \<le> s" by (meson linorder_not_le)
  then show ?thesis
  proof cases
    case hidden
    then have "prevEntry I C vt st = Inl (vt, st)" "\<not> shown C s l c"
      by (auto simp: prevEntry_def P(1) seq shown_def)
    moreover have "backwardAt s l c0 vt c (st\<lparr>dbi_iter := i\<rparr>)" if "walks i (map entryPair l) (beforePos c)" for i
    proof (cases vt)
      case kTypeDeletion
      then show ?thesis using st that seq \<open>\<not> shown C s l c\<close>
        by (auto simp: backwardAt_def) (metis le_antisym not_less_eq_eq)
    next
      case kTypeValue
      then obtain m where m: "savedAt s l (Suc c) m st" "m < c0" "\<forall>j. m < j \<and> j < c0 \<longrightarrow> \<not> shown C s l j"
        using st by (auto simp: backwardAt_def)
      have "savedAt s l c m (st\<lparr>dbi_iter := i\<rparr>)"
        using m(1) hidden by (auto simp: savedAt_def) (metis le_antisym not_less_eq_eq)
      then show ?thesis using m(2,3) kTypeValue that seq c0 by (auto simp: backwardAt_def)
    qed
    ultimately show ?thesis by blast
  next
    case visible
    show ?thesis
    proof (cases "vt = kTypeValue \<and> cmp_Compare C (?K c) (dbi_saved_key st) < 0")
      case True
      then obtain m where m: "savedAt s l (Suc c) m st" "m < c0" "\<forall>j. m < j \<and> j < c0 \<longrightarrow> \<not> shown C s l j"
        using st by (auto simp: backwardAt_def)
      have "cmp_Compare C (?K j) (?K m) = 0 \<Longrightarrow> s < e_seq (l ! j)" if "j < m" for j
      proof (cases "j \<le> c")
        case le: True
        then have "cmp_Compare C (?K j) (?K m) < 0"
          using True m(1) keys_sorted [OF ok le P(2)] le_less_trans by (simp add: savedAt_def)
        then show "cmp_Compare C (?K j) (?K m) = 0 \<Longrightarrow> s < e_seq (l ! j)" by simp
      qed (use m(1) that in \<open>simp add: savedAt_def\<close>)
      then have "shown C s l m" using m(1) by (simp add: shown_def savedAt_def)
      then have "List.find (shown C s l) (rev [0..<c0]) = Some m" using m(2,3) by (intro find_rev_Some) simp_all
      moreover have "prevEntry I C vt st = Inr (vt, st)" using True visible by (simp add: prevEntry_def P(1) seq)
      ultimately show ?thesis using m(1) True by blast
    next
      case False
      let ?st' = "if e_type (l ! c) = kTypeDeletion then st\<lparr>dbi_saved_key := [], dbi_saved_value := []\<rparr>
        else st\<lparr>dbi_saved_key := ?K c, dbi_saved_value := e_value (l ! c)\<rparr>"
      have "prevEntry I C vt st = Inl (e_type (l ! c), ?st')"
        using False visible by (cases vt) (auto simp: prevEntry_def P seq)
      moreover have none: "\<not> shown C s l j" if "c < j" "j < c0" for j
      proof (cases vt)
        case kTypeDeletion
        then show ?thesis using st that by (simp add: backwardAt_def)
      next
        case kTypeValue
        then obtain m where m: "savedAt s l (Suc c) m st" "\<forall>j. m < j \<and> j < c0 \<longrightarrow> \<not> shown C s l j"
          using st by (auto simp: backwardAt_def)
        have "\<not> shown C s l m"
          using shown_hides [OF ok visible, of m] m(1) False kTypeValue by (auto simp: savedAt_def)
        moreover have "s < e_seq (l ! j)" if "j < m" using m(1) that \<open>c < j\<close> by (simp add: savedAt_def)
        moreover have "\<not> s < e_seq (l ! j)" if "shown C s l j" using that by (simp add: shown_def linorder_not_less)
        ultimately show ?thesis using m(2) that(2) by (metis linorder_cases)
      qed
      moreover have "backwardAt s l c0 (e_type (l ! c)) c (?st'\<lparr>dbi_iter := i\<rparr>)" if "walks i (map entryPair l) (beforePos c)" for i
      proof (cases "e_type (l ! c)")
        case kTypeDeletion
        then have "\<not> shown C s l j" if "c \<le> j" "j < c0" for j
          using none [of j] that by (cases "j = c") (auto simp: shown_def)
        then show ?thesis using kTypeDeletion that seq c0 by (auto simp: backwardAt_def)
      next
        case kTypeValue
        then have "savedAt s l c c (?st'\<lparr>dbi_iter := i\<rparr>)" using visible P(2) by (auto simp: savedAt_def)
        then show ?thesis using kTypeValue that seq c0 none by (auto simp: backwardAt_def intro!: exI [of _ c])
      qed
      ultimately show ?thesis by (intro disjI2 exI [of _ "e_type (l ! c)"] exI [of _ ?st']) auto
    qed
  qed
qed

definition reverseAt :: "64 word \<Rightarrow> entry list \<Rightarrow> nat option \<Rightarrow> 's dbiter \<Rightarrow> bool" where
  "reverseAt s l r st \<longleftrightarrow> dbi_valid st = (r \<noteq> None) \<and> (\<exists>p. over walks s l st p) \<and>
     (\<forall>m. r = Some m \<longrightarrow> dbi_direction st = kReverse \<and> (\<exists>c. savedAt s l c m st \<and> over walks s l st (beforePos c)))"

lemma prevLoop_finds:
  assumes "entries_ok C l" "backwardAt s l c0 vt c st"
  shows "\<exists>vt' st'. prevLoop I C vt st = Some (vt', st') \<and> (\<exists>p. over walks s l st' p) \<and>
    (case List.find (shown C s l) (rev [0..<c0]) of
       None \<Rightarrow> vt' = kTypeDeletion
     | Some m \<Rightarrow> vt' = kTypeValue \<and> dbi_direction st' = kReverse \<and> (\<exists>c. savedAt s l c m st' \<and> over walks s l st' (beforePos c)))"
  using assms
proof (induction c arbitrary: vt st)
  case 0
  then have o: "over walks s l st None" "dbi_direction st = kReverse" by (simp_all add: backwardAt_def)
  then have "\<not> i_Valid I (dbi_iter st)" using at_valid by (auto simp: over_def)
  then have loop: "prevLoop I C vt st = Some (vt, st)" by (subst prevLoop.simps) simp
  show ?case
  proof (cases vt)
    case kTypeDeletion
    then have "List.find (shown C s l) (rev [0..<c0]) = None" using 0 by (simp add: backwardAt_def find_None_iff)
    then show ?thesis using loop kTypeDeletion o by auto
  next
    case kTypeValue
    then obtain m where m: "savedAt s l 0 m st" "m < c0" "\<forall>j. m < j \<and> j < c0 \<longrightarrow> \<not> shown C s l j"
      using 0 by (auto simp: backwardAt_def)
    then have "shown C s l m" by (simp add: savedAt_def shown_def)
    then have "List.find (shown C s l) (rev [0..<c0]) = Some m" using m by (intro find_rev_Some) simp_all
    then show ?thesis using loop kTypeValue m(1) o by auto
  qed
next
  case (Suc c)
  have o: "over walks s l st (Some c)" "dbi_direction st = kReverse" using Suc.prems by (simp_all add: backwardAt_def)
  then have w: "walks (dbi_iter st) (map entryPair l) (Some c)" by (simp add: over_def)
  then have v: "i_Valid I (dbi_iter st)" using at_valid by auto
  from prevEntry_step [OF Suc.prems] show ?case
  proof (elim disjE exE conjE)
    fix m assume e: "prevEntry I C vt st = Inr (vt, st)" "vt = kTypeValue" "savedAt s l (Suc c) m st"
      "List.find (shown C s l) (rev [0..<c0]) = Some m"
    have "prevLoop I C vt st = Some (vt, st)" by (subst prevLoop.simps) (simp add: v e(1))
    then show ?thesis using e o by (auto intro!: exI [of _ "Suc c"])
  next
    fix vt' st' assume e: "prevEntry I C vt st = Inl (vt', st')" "dbi_iter st' = dbi_iter st"
      "\<forall>i. walks i (map entryPair l) (beforePos c) \<longrightarrow> backwardAt s l c0 vt' c (st'\<lparr>dbi_iter := i\<rparr>)"
    obtain i where i: "i_Prev I (dbi_iter st) = Some i" "walks i (map entryPair l) (beforePos c)"
      using prev_at [OF w] by auto
    have "prevLoop I C vt st = prevLoop I C vt' (st'\<lparr>dbi_iter := i\<rparr>)"
      by (subst prevLoop.simps) (simp add: v e(1,2) i(1))
    then show ?thesis using Suc.IH [OF Suc.prems(1)] e(3) i(2) by simp
  qed
qed

lemma FindPrev:
  assumes "entries_ok C l" "over walks s l st (beforePos c)" "dbi_direction st = kReverse" "c \<le> length l"
  shows "\<exists>st'. FindPrevUserEntry I C st = Some st' \<and> reverseAt s l (List.find (shown C s l) (rev [0..<c])) st'"
proof -
  have "backwardAt s l c kTypeDeletion c st" using assms by (auto simp: backwardAt_def)
  from prevLoop_finds [OF assms(1) this] obtain vt st' where loop: "prevLoop I C kTypeDeletion st = Some (vt, st')"
    and o: "\<exists>p. over walks s l st' p" and r: "case List.find (shown C s l) (rev [0..<c]) of
       None \<Rightarrow> vt = kTypeDeletion
     | Some m \<Rightarrow> vt = kTypeValue \<and> dbi_direction st' = kReverse \<and> (\<exists>c. savedAt s l c m st' \<and> over walks s l st' (beforePos c))"
    by auto
  show ?thesis
  proof (cases "List.find (shown C s l) (rev [0..<c])")
    case None
    then show ?thesis using r o by (auto simp: FindPrevUserEntry_def loop reverseAt_def over_def)
  next
    case (Some m)
    then have "FindPrevUserEntry I C st = Some (st'\<lparr>dbi_valid := True\<rparr>)"
      using r by (simp add: FindPrevUserEntry_def loop)
    moreover have "reverseAt s l (Some m) (st'\<lparr>dbi_valid := True\<rparr>)" using Some r o by (simp add: reverseAt_def)
    ultimately show ?thesis using Some by auto
  qed
qed

subsection \<open>The operations\<close>

lemma forwardAt_db:
  assumes "entries_ok C l" "s \<le> kMaxSequenceNumber" "forwardAt s l (List.find (shown C s l) [i..<length l]) st" "i \<le> length l"
  shows "dbAt C walks st (userEntries C s l) (atPos (rank C s l i) (userEntries C s l))"
proof (cases "List.find (shown C s l) [i..<length l]")
  case None
  then show ?thesis using assms find_None_rank [OF None assms(4)] by (auto simp: dbAt_def forwardAt_def atPos_def)
next
  case (Some m)
  then have m: "shown C s l m" "rank C s l i = rank C s l m"
    using find_upt_SomeD find_Some_rank by blast+
  then have "atPos (rank C s l i) (userEntries C s l) = Some (rank C s l m)" using rank_nth(1) by simp
  then show ?thesis
    unfolding dbAt_def using assms m Some
    by (intro exI [of _ l] exI [of _ s]) (auto simp: forwardAt_def simp del: atPos_simps)
qed

lemma reverseAt_db:
  assumes "entries_ok C l" "s \<le> kMaxSequenceNumber" "reverseAt s l (List.find (shown C s l) (rev [0..<c])) st"
  shows "dbAt C walks st (userEntries C s l) (beforePos (rank C s l c))"
proof (cases "List.find (shown C s l) (rev [0..<c])")
  case None
  then show ?thesis using assms find_rev_None_rank [OF None] by (auto simp: dbAt_def reverseAt_def)
next
  case (Some m)
  then have m: "shown C s l m" "beforePos (rank C s l c) = Some (rank C s l m)"
    using find_rev_SomeD find_rev_Some_rank by fastforce+
  then show ?thesis using assms m Some by (auto simp: dbAt_def reverseAt_def)
qed

lemma skips_from:
  assumes ok: "entries_ok C l" and m: "c \<le> m" "shown C s l m" "\<forall>j. c \<le> j \<and> j < m \<longrightarrow> s < e_seq (l ! j)"
  shows "skips s l True (e_key (l ! m)) c"
    "List.find (wanted s l True (e_key (l ! m))) [c..<length l] = List.find (shown C s l) [Suc m..<length l]"
proof -
  have len: "m < length l" using m(2) by (rule shown_range)
  show "skips s l True (e_key (l ! m)) c"
    unfolding skips_def
  proof (intro conjI allI impI)
    fix j m' assume "j < c" "cmp_Compare C (e_key (l ! j)) (e_key (l ! m')) = 0"
    then have "cmp_Compare C (e_key (l ! j)) (e_key (l ! m)) \<le> 0" "cmp_Compare C (e_key (l ! m')) (e_key (l ! j)) = 0"
      using keys_sorted [OF ok _ len, of j] m(1) eq_iff by (simp, blast)
    then show "cmp_Compare C (e_key (l ! m')) (e_key (l ! m)) \<le> 0" using trans by (metis order_refl)
  next
    fix j assume "c \<le> j" "j < length l" "e_seq (l ! j) \<le> s"
    then have "m \<le> j" using m(3) by (metis linorder_not_le)
    then show "cmp_Compare C (e_key (l ! m)) (e_key (l ! j)) \<le> 0" using keys_sorted [OF ok _ \<open>j < length l\<close>] by simp
  qed simp
  have "List.find (wanted s l True (e_key (l ! m))) [c..<length l] =
      List.find (wanted s l True (e_key (l ! m))) [Suc m..<length l]"
  proof (rule find_upt_skip)
    fix j assume "c \<le> j" "j < Suc m"
    then show "\<not> wanted s l True (e_key (l ! m)) j" using keys_sorted [OF ok _ len, of j] by (simp add: wanted_def)
  qed (use m(1) len in simp_all)
  also have "\<dots> = List.find (shown C s l) [Suc m..<length l]"
  proof (rule find_cong)
    fix j assume "j \<in> set [Suc m..<length l]"
    then have "shown C s l j \<Longrightarrow> cmp_Compare C (e_key (l ! m)) (e_key (l ! j)) < 0"
      using shown_hides [OF ok, of m s j] m(2) by (simp add: shown_def)
    then show "wanted s l True (e_key (l ! m)) j = shown C s l j"
      using anti by (auto simp: wanted_def)
  qed simp
  finally show "List.find (wanted s l True (e_key (l ! m))) [c..<length l] = List.find (shown C s l) [Suc m..<length l]" .
qed

lemma dbAt_None:
  "entries_ok C l \<Longrightarrow> s \<le> kMaxSequenceNumber \<Longrightarrow> \<not> dbi_valid st \<Longrightarrow> over walks s l st q \<Longrightarrow>
     dbAt C walks st (userEntries C s l) None"
  unfolding dbAt_def by (intro exI [of _ l] exI [of _ s]) auto

lemma dbAt_over:
  assumes "dbAt C walks st us p"
  obtains l s q where "entries_ok C l" "s \<le> kMaxSequenceNumber" "us = userEntries C s l" "over walks s l st q"
proof -
  obtain l s where "entries_ok C l" "s \<le> kMaxSequenceNumber" "us = userEntries C s l" "\<exists>q. over walks s l st q"
    using assms unfolding dbAt_def by (cases p) auto
  then show ?thesis using that by blast
qed

lemma dbi_Next_db:
  assumes "dbAt C walks st us (Some q)"
  shows "\<exists>st'. dbi_Next I C st = Some st' \<and> dbAt C walks st' us (atPos (Suc q) us)"
proof -
  obtain l s m where ok: "entries_ok C l" "s \<le> kMaxSequenceNumber" "us = userEntries C s l" "dbi_valid st"
    and m: "shown C s l m" "q = rank C s l m"
    and d: "dbi_direction st = kForward \<and> over walks s l st (Some m) \<or>
      dbi_direction st = kReverse \<and> (\<exists>c. savedAt s l c m st \<and> over walks s l st (beforePos c))"
    using assms by (auto simp: dbAt_def)
  have next': "\<exists>st'. FindNextUserEntry I C True st1 = Some st' \<and> dbAt C walks st' us (atPos (Suc q) us)"
    if a: "over walks s l st1 (Some c)" "dbi_direction st1 = kForward" "dbi_saved_key st1 = e_key (l ! m)" "c \<le> m"
      "\<forall>j. c \<le> j \<and> j < m \<longrightarrow> s < e_seq (l ! j)" for st1 c
  proof -
    note sk = skips_from [OF ok(1) a(4) m(1) a(5)]
    obtain st' where "FindNextUserEntry I C True st1 = Some st'"
      "forwardAt s l (List.find (shown C s l) [Suc m..<length l]) st'"
      using FindNext [OF ok(1) a(1) _ a(2), of True] sk unfolding a(3) by auto
    then show ?thesis
      using forwardAt_db [OF ok(1,2), of "Suc m"] shown_range [OF m(1)] m ok(3) by auto
  qed
  from d show ?thesis
  proof
    assume f: "dbi_direction st = kForward \<and> over walks s l st (Some m)"
    then have "ExtractUserKey (i_key I (dbi_iter st)) = e_key (l ! m)" using ParseKey_over(3) [OF ok(1) conjunct2 [OF f]] by simp
    moreover have "\<forall>j. m \<le> j \<and> j < m \<longrightarrow> s < e_seq (l ! j)" by auto
    ultimately show ?thesis using f next' [of "st\<lparr>dbi_saved_key := e_key (l ! m)\<rparr>" m] by (simp add: dbi_Next_def)
  next
    assume "dbi_direction st = kReverse \<and> (\<exists>c. savedAt s l c m st \<and> over walks s l st (beforePos c))"
    then obtain c where c: "dbi_direction st = kReverse" "savedAt s l c m st" "over walks s l st (beforePos c)" by auto
    have w: "walks (dbi_iter st) (map entryPair l) (beforePos c)" "dbi_status st = sOK" "dbi_sequence st = s"
      using c(3) by (simp_all add: over_def)
    have "c \<le> m" "m < length l" "dbi_saved_key st = e_key (l ! m)" "\<forall>j. c \<le> j \<and> j < m \<longrightarrow> s < e_seq (l ! j)"
      using c(2) by (simp_all add: savedAt_def)
    note s = this
    have "\<exists>i. (if \<not> i_Valid I (dbi_iter st) then i_SeekToFirst I (dbi_iter st) else i_Next I (dbi_iter st)) = Some i \<and>
        walks i (map entryPair l) (atPos c (map entryPair l))"
      using at_valid [OF w(1)] seek_first [OF w(1)] next_at w(1) by (cases c) auto
    then obtain i where i: "(if \<not> i_Valid I (dbi_iter st) then i_SeekToFirst I (dbi_iter st) else i_Next I (dbi_iter st)) = Some i"
      "walks i (map entryPair l) (Some c)" using s(1,2) by (auto simp: atPos_def)
    let ?st1 = "st\<lparr>dbi_direction := kForward, dbi_iter := i\<rparr>"
    have "i_Valid I i" using at_valid [OF i(2)] by simp
    then have "dbi_Next I C st = FindNextUserEntry I C True ?st1"
      unfolding dbi_Next_def by (subst i(1)) (simp add: c(1))
    then show ?thesis using next' [of ?st1 c] i(2) w s by simp
  qed
qed

lemma leaveKey_finds:
  assumes ok: "entries_ok C l"
  shows "walks i (map entryPair l) (Some m) \<Longrightarrow> cmp_Compare C (e_key (l ! m)) k = 0 \<Longrightarrow>
    \<exists>more i' c. leaveKey I C k i = Some (more, i') \<and> c \<le> m \<and> walks i' (map entryPair l) (beforePos c) \<and> more = (c \<noteq> 0) \<and>
      (\<forall>j. c \<le> j \<and> j \<le> m \<longrightarrow> cmp_Compare C (e_key (l ! j)) k = 0)"
proof (induction m arbitrary: i)
  case (0 i)
  obtain i' where i': "i_Prev I i = Some i'" "walks i' (map entryPair l) None" using prev_at [OF 0(1)] by auto
  then have "leaveKey I C k i = Some (False, i')" using at_valid [OF i'(2)] by (subst leaveKey.simps) simp
  then show ?case using i'(2) 0(2) by (auto intro!: exI [of _ "0 :: nat"])
next
  case (Suc m)
  obtain i' where i': "i_Prev I i = Some i'" "walks i' (map entryPair l) (Some m)" using prev_at [OF Suc.prems(1)] by auto
  have len: "Suc m < length l" using at_range [OF Suc.prems(1)] by simp
  have key: "i_Valid I i'" "ExtractUserKey (i_key I i') = e_key (l ! m)"
    using at_valid [OF i'(2)] at_key [OF i'(2)] len by simp_all
  have step: "leaveKey I C k i =
      (if cmp_Compare C (e_key (l ! m)) k < 0 then Some (True, i') else leaveKey I C k i')"
    by (subst leaveKey.simps) (simp add: i'(1) key)
  show ?case
  proof (cases "cmp_Compare C (e_key (l ! m)) k < 0")
    case True
    then show ?thesis using step i'(2) Suc.prems(2)
      by (intro exI [of _ True] exI [of _ i'] exI [of _ "Suc m"]) (auto simp: le_Suc_eq)
  next
    case False
    have "cmp_Compare C (e_key (l ! m)) (e_key (l ! Suc m)) \<le> 0" using keys_sorted [OF ok _ len] by simp
    then have "cmp_Compare C (e_key (l ! m)) k \<le> 0" using trans Suc.prems(2) by (metis order_refl)
    then have "cmp_Compare C (e_key (l ! m)) k = 0" using False by simp
    then obtain more i'' c where "leaveKey I C k i' = Some (more, i'')" "c \<le> m" "walks i'' (map entryPair l) (beforePos c)"
      "more = (c \<noteq> 0)" "\<forall>j. c \<le> j \<and> j \<le> m \<longrightarrow> cmp_Compare C (e_key (l ! j)) k = 0"
      using Suc.IH [OF i'(2)] by auto
    then show ?thesis using step False Suc.prems(2)
      by (intro exI [of _ more] exI [of _ i''] exI [of _ c]) (auto simp: le_Suc_eq)
  qed
qed

lemma dbi_Prev_db:
  assumes "dbAt C walks st us (Some q)"
  shows "\<exists>st'. dbi_Prev I C st = Some st' \<and> dbAt C walks st' us (beforePos q)"
proof -
  obtain l s m where ok: "entries_ok C l" "s \<le> kMaxSequenceNumber" "us = userEntries C s l" "dbi_valid st"
    and m: "shown C s l m" "q = rank C s l m"
    and d: "dbi_direction st = kForward \<and> over walks s l st (Some m) \<or>
      dbi_direction st = kReverse \<and> (\<exists>c. savedAt s l c m st \<and> over walks s l st (beforePos c))"
    using assms by (auto simp: dbAt_def)
  have prev': "\<exists>st'. FindPrevUserEntry I C st1 = Some st' \<and> dbAt C walks st' us (beforePos q)"
    if "over walks s l st1 (beforePos c)" "dbi_direction st1 = kReverse" "c \<le> m" "\<And>j. c \<le> j \<Longrightarrow> j < m \<Longrightarrow> \<not> shown C s l j" for st1 c
  proof -
    have "rank C s l c = q" using rankOf_same [of c m "shown C s l"] that(3,4) m(2) by simp
    moreover have "c \<le> length l" using that(3) shown_range [OF m(1)] by simp
    ultimately show ?thesis
      using FindPrev [OF ok(1) that(1,2)] reverseAt_db [OF ok(1,2), of c] ok(3) by metis
  qed
  from d show ?thesis
  proof
    assume f: "dbi_direction st = kForward \<and> over walks s l st (Some m)"
    then have w: "walks (dbi_iter st) (map entryPair l) (Some m)" "dbi_status st = sOK" "dbi_sequence st = s" by (simp_all add: over_def)
    have k: "ExtractUserKey (i_key I (dbi_iter st)) = e_key (l ! m)" using ParseKey_over(3) [OF ok(1) conjunct2 [OF f]] by simp
    obtain more i c where lv: "leaveKey I C (e_key (l ! m)) (dbi_iter st) = Some (more, i)" "c \<le> m"
      "walks i (map entryPair l) (beforePos c)" "more = (c \<noteq> 0)"
      "\<forall>j. c \<le> j \<and> j \<le> m \<longrightarrow> cmp_Compare C (e_key (l ! j)) (e_key (l ! m)) = 0"
      using leaveKey_finds [OF ok(1) w(1) refl] by auto
    have none: "\<not> shown C s l j" if "c \<le> j" "j < m" for j
    proof
      assume "shown C s l j"
      then have "cmp_Compare C (e_key (l ! j)) (e_key (l ! m)) < 0"
        using shown_hides [OF ok(1) _ that(2) m(1)] by (simp add: shown_def)
      then show False using lv(5) that by simp
    qed
    show ?thesis
    proof (cases "c = 0")
      case True
      then have "q = 0" using rankOf_same [of 0 m "shown C s l"] none m(2) by simp
      then show ?thesis using True f lv k w ok(3) dbAt_None [OF ok(1,2), of _ None] by (auto simp: dbi_Prev_def Let_def)
    next
      case False
      then show ?thesis
        using f lv k w prev' [of "st\<lparr>dbi_saved_key := e_key (l ! m), dbi_iter := i, dbi_direction := kReverse\<rparr>" c] none
        by (simp add: dbi_Prev_def Let_def)
    qed
  next
    assume "dbi_direction st = kReverse \<and> (\<exists>c. savedAt s l c m st \<and> over walks s l st (beforePos c))"
    then obtain c where c: "dbi_direction st = kReverse" "savedAt s l c m st" "over walks s l st (beforePos c)" by auto
    then have "\<not> shown C s l j" if "c \<le> j" "j < m" for j using that by (auto simp: savedAt_def shown_def linorder_not_le)
    then show ?thesis using c prev' [of st c] by (simp add: dbi_Prev_def savedAt_def)
  qed
qed

text \<open>The seeks end as the loops do, from any state.\<close>

lemma seek_forward:
  assumes ok: "entries_ok C l" "s \<le> kMaxSequenceNumber" and "i \<le> length l"
    and "walks x (map entryPair l) (atPos i (map entryPair l))" "over walks s l st q" "dbi_direction st = kForward"
    and "\<And>j m. j < i \<Longrightarrow> i \<le> m \<Longrightarrow> m < length l \<Longrightarrow> cmp_Compare C (e_key (l ! j)) (e_key (l ! m)) = 0 \<Longrightarrow> s < e_seq (l ! j)"
  shows "\<exists>st'. (if i_Valid I x then FindNextUserEntry I C False (st\<lparr>dbi_iter := x\<rparr>)
      else Some (st\<lparr>dbi_iter := x, dbi_valid := False\<rparr>)) = Some st' \<and>
    dbAt C walks st' (userEntries C s l) (atPos (rank C s l i) (userEntries C s l))"
proof (cases "i < length l")
  case True
  then have "over walks s l (st\<lparr>dbi_iter := x\<rparr>) (Some i)" "i_Valid I x"
    using assms(4,5) at_valid [OF assms(4)] by (simp_all add: over_def atPos_def)
  moreover have "skips s l False (dbi_saved_key (st\<lparr>dbi_iter := x\<rparr>)) i"
    using assms(7) unfolding skips_def by (meson linorder_not_le)
  moreover have "wanted s l False k = shown C s l" for k by (simp add: wanted_def fun_eq_iff)
  ultimately show ?thesis
    using FindNext [OF ok(1), of s "st\<lparr>dbi_iter := x\<rparr>" i False] forwardAt_db [OF ok, of i] assms(3,6) by auto
next
  case False
  then have i: "i = length l" "\<not> i_Valid I x" using assms(3) at_valid [OF assms(4)] by simp_all
  then have "atPos (rank C s l i) (userEntries C s l) = None" by simp
  moreover have "dbAt C walks (st\<lparr>dbi_iter := x, dbi_valid := False\<rparr>) (userEntries C s l) None"
    using i assms(4,5) by (intro dbAt_None [OF ok, of _ None]) (simp_all add: over_def)
  ultimately show ?thesis using i by simp
qed

lemma dbi_Seek_db:
  assumes "dbAt C walks st us p" "length k < N - 8"
  shows "\<exists>st'. dbi_Seek I C k st = Some st' \<and> dbAt C walks st' us (atPos (countBefore (cmp_Compare C) k us) us)"
proof -
  obtain l s q where ok: "entries_ok C l" "s \<le> kMaxSequenceNumber" "us = userEntries C s l" "over walks s l st q"
    using assms(1) by (rule dbAt_over)
  let ?k = "InternalKey k s kValueTypeForSeek"
  let ?i = "countBefore (internal_Compare C) ?k (map entryPair l)"
  have st: "walks (dbi_iter st) (map entryPair l) q" "dbi_sequence st = s" using ok(4) by (simp_all add: over_def)
  have "length ?k < N" using assms(2) by (simp add: InternalKey_bytes)
  then obtain x where x: "i_Seek I ?k (dbi_iter st) = Some x" "walks x (map entryPair l) (atPos ?i (map entryPair l))"
    using seek [OF st(1), of ?k] by blast
  note cb = countBefore_user [OF ok(1,2) HOL.refl]
  have "?i \<le> length l" using countBefore_le [of "internal_Compare C" ?k "map entryPair l"] by simp
  note f = seek_forward [OF ok(1,2) this x(2), of "st\<lparr>dbi_direction := kForward, dbi_saved_value := [], dbi_saved_key := ?k\<rparr>" q]
  have key: "AppendInternalKey [] \<lparr>pik_user_key = k, pik_sequence = s, pik_type = kValueTypeForSeek\<rparr> = ?k"
    by (simp add: InternalKey_def)
  show ?thesis using f cb(2) ok(3,4) cb(1) unfolding dbi_Seek_def Let_def st(2) key x(1) by simp
qed

lemma dbi_SeekToFirst_db:
  assumes "dbAt C walks st us p"
  shows "\<exists>st'. dbi_SeekToFirst I C st = Some st' \<and> dbAt C walks st' us (atPos 0 us)"
proof -
  obtain l s q where ok: "entries_ok C l" "s \<le> kMaxSequenceNumber" "us = userEntries C s l" "over walks s l st q"
    using assms(1) by (rule dbAt_over)
  obtain x where x: "i_SeekToFirst I (dbi_iter st) = Some x" "walks x (map entryPair l) (atPos 0 (map entryPair l))"
  proof -
    have "walks (dbi_iter st) (map entryPair l) q" using ok(4) by (simp add: over_def)
    from seek_first [OF this] show ?thesis using that by blast
  qed
  show ?thesis
    using seek_forward [OF ok(1,2) _ x(2), of "st\<lparr>dbi_direction := kForward, dbi_saved_value := []\<rparr>" q] ok(3,4)
    by (simp add: dbi_SeekToFirst_def x(1) Let_def)
qed

lemma dbi_SeekToLast_db:
  assumes "dbAt C walks st us p"
  shows "\<exists>st'. dbi_SeekToLast I C st = Some st' \<and> dbAt C walks st' us (beforePos (length us))"
proof -
  obtain l s q where ok: "entries_ok C l" "s \<le> kMaxSequenceNumber" "us = userEntries C s l" "over walks s l st q"
    using assms(1) by (rule dbAt_over)
  obtain x where x: "i_SeekToLast I (dbi_iter st) = Some x" "walks x (map entryPair l) (beforePos (length l))"
    using seek_last ok(4) by (fastforce simp: over_def)
  let ?st = "st\<lparr>dbi_direction := kReverse, dbi_saved_value := [], dbi_iter := x\<rparr>"
  obtain st' where "FindPrevUserEntry I C ?st = Some st'" "reverseAt s l (List.find (shown C s l) (rev [0..<length l])) st'"
    using FindPrev [OF ok(1), of s ?st "length l"] x(2) ok(4) by (auto simp: over_def)
  then show ?thesis using reverseAt_db [OF ok(1,2), of "length l"] ok(3) by (simp add: dbi_SeekToLast_def x(1))
qed

lemma dbAt_entry:
  assumes "dbAt C walks st us (Some q)"
  shows "q < length us" "dbi_key I st = fst (us ! q)" "dbi_value I st = snd (us ! q)"
proof -
  obtain l s m where ok: "entries_ok C l" "us = userEntries C s l" and m: "shown C s l m" "q = rank C s l m"
    and d: "dbi_direction st = kForward \<and> over walks s l st (Some m) \<or>
      dbi_direction st = kReverse \<and> (\<exists>c. savedAt s l c m st \<and> over walks s l st (beforePos c))"
    using assms by (auto simp: dbAt_def)
  show "q < length us" using rank_nth(1) [OF m(1)] ok(2) m(2) by simp
  have "dbi_key I st = e_key (l ! m) \<and> dbi_value I st = e_value (l ! m)"
    using d ParseKey_over(3,4) [OF ok(1)] by (auto simp: dbi_key_def dbi_value_def savedAt_def)
  then show "dbi_key I st = fst (us ! q)" "dbi_value I st = snd (us ! q)"
    using rank_nth(2) [OF m(1)] by (simp_all add: ok(2) m(2) shownPair_def)
qed

lemma dbAt_status:
  assumes "dbAt C walks st us p"
  shows "dbi_statusOf I st = sOK" "dbi_valid st = (p \<noteq> None)"
proof -
  obtain l s q where "over walks s l st q" using assms by (rule dbAt_over)
  then show "dbi_statusOf I st = sOK" using at_status by (auto simp: over_def dbi_statusOf_def)
  show "dbi_valid st = (p \<noteq> None)" using assms unfolding dbAt_def by auto
qed

text \<open>What the inner iterator promises, the iterator of the database promises for the user's entries.\<close>

lemma user_iterates: "iterates (DBIter I C) (cmp_Compare C) (N - 8) (dbAt C walks)"
  by unfold_locales
    (simp_all add: DBIter_def dbAt_entry dbAt_status dbi_SeekToFirst_db dbi_SeekToLast_db dbi_Seek_db dbi_Next_db dbi_Prev_db)

end

sublocale dbiter \<subseteq> user: iterates "DBIter I C" "cmp_Compare C" "N - 8" "dbAt C walks"
  by (rule user_iterates)

text \<open>The user's entries are what a reader of the entries at the sequence number sees.\<close>

context comparator_laws
begin

lemma newDBIter_db:
  assumes "entries_ok C l" "s \<le> kMaxSequenceNumber" "walks i (map entryPair l) q"
  shows "dbAt C walks (newDBIter i s) (userEntries C s l) None"
  unfolding dbAt_def using assms
  by (intro exI [of _ l] exI [of _ s]) (auto simp: newDBIter_def over_def)

end

interpretation bytewise_db: dbiter "MemTableIterator BytewiseComparator" "2 ^ 32" "mem_at BytewiseComparator" BytewiseComparator
  by (intro dbiter.intro bytewise.mem_iterates bytewise.comparator_laws_axioms)

end
