(* ===== verification/LdbMerger.thy ===== *)
theory LdbMerger
  imports LdbIter
begin

text \<open>
  leveldb/table/iterator_wrapper.h and merger.cc: the iterator that merges the iterators of
  the memtables and the tables of a database. The children have one type of states; where
  they are of several kinds it is a sum. The wrapper keeps the validity and the key of its
  iterator.
\<close>

subsection \<open>The wrapper\<close>

record 's wrapper =
  wr_iter :: 's
  wr_valid :: bool
  wr_key :: bytes

definition wr_Update :: "'s iterops \<Rightarrow> 's wrapper \<Rightarrow> 's wrapper" where
  "wr_Update I w =
     (let w1 = w\<lparr>wr_valid := i_Valid I (wr_iter w)\<rparr>
      in if wr_valid w1 then w1\<lparr>wr_key := i_key I (wr_iter w)\<rparr> else w1)"

definition wr_Set :: "'s iterops \<Rightarrow> 's \<Rightarrow> 's wrapper" where
  "wr_Set I i = wr_Update I \<lparr>wr_iter = i, wr_valid = False, wr_key = []\<rparr>"

definition wr_call :: "'s iterops \<Rightarrow> ('s \<Rightarrow> 's option) \<Rightarrow> 's wrapper \<Rightarrow> 's wrapper option" where
  "wr_call I f w = map_option (\<lambda>i. wr_Update I (w\<lparr>wr_iter := i\<rparr>)) (f (wr_iter w))"

definition IteratorWrapper :: "'s iterops \<Rightarrow> 's wrapper iterops" where
  "IteratorWrapper I =
     \<lparr>i_Valid = wr_valid, i_SeekToFirst = wr_call I (i_SeekToFirst I), i_SeekToLast = wr_call I (i_SeekToLast I),
      i_Seek = (\<lambda>k. wr_call I (i_Seek I k)), i_Next = wr_call I (i_Next I), i_Prev = wr_call I (i_Prev I),
      i_key = wr_key, i_value = (\<lambda>w. i_value I (wr_iter w)), i_status = (\<lambda>w. i_status I (wr_iter w))\<rparr>"

subsection \<open>The merging iterator\<close>

text \<open>\<open>mg_forward\<close> is the direction; \<open>mg_current\<close> the index of the current child.\<close>

record 's merger =
  mg_children :: "'s list"
  mg_current :: "nat option"
  mg_forward :: bool

definition smallestStep :: "'s iterops \<Rightarrow> comparator \<Rightarrow> 's list \<Rightarrow> nat option \<Rightarrow> nat \<Rightarrow> nat option" where
  "smallestStep I C cs smallest i =
     (if i_Valid I (cs ! i) then
        (case smallest of
           None \<Rightarrow> Some i
         | Some j \<Rightarrow> if cmp_Compare C (i_key I (cs ! i)) (i_key I (cs ! j)) < 0 then Some i else smallest)
      else smallest)"

definition FindSmallest :: "'s iterops \<Rightarrow> comparator \<Rightarrow> 's merger \<Rightarrow> 's merger" where
  "FindSmallest I C st =
     st\<lparr>mg_current := foldl (smallestStep I C (mg_children st)) None [0..<length (mg_children st)]\<rparr>"

definition largestStep :: "'s iterops \<Rightarrow> comparator \<Rightarrow> 's list \<Rightarrow> nat option \<Rightarrow> nat \<Rightarrow> nat option" where
  "largestStep I C cs largest i =
     (if i_Valid I (cs ! i) then
        (case largest of
           None \<Rightarrow> Some i
         | Some j \<Rightarrow> if cmp_Compare C (i_key I (cs ! i)) (i_key I (cs ! j)) > 0 then Some i else largest)
      else largest)"

definition FindLargest :: "'s iterops \<Rightarrow> comparator \<Rightarrow> 's merger \<Rightarrow> 's merger" where
  "FindLargest I C st =
     st\<lparr>mg_current := foldl (largestStep I C (mg_children st)) None (rev [0..<length (mg_children st)])\<rparr>"

text \<open>An operation on every child, and on every child but the current one.\<close>

definition eachChild :: "(nat \<Rightarrow> 's \<Rightarrow> 's option) \<Rightarrow> 's merger \<Rightarrow> 's merger option" where
  "eachChild f st =
     map_option (\<lambda>cs. st\<lparr>mg_children := cs\<rparr>) (those (map (\<lambda>i. f i (mg_children st ! i)) [0..<length (mg_children st)]))"

definition mg_SeekToFirst :: "'s iterops \<Rightarrow> comparator \<Rightarrow> 's merger \<Rightarrow> 's merger option" where
  "mg_SeekToFirst I C st =
     map_option (\<lambda>st. (FindSmallest I C st)\<lparr>mg_forward := True\<rparr>) (eachChild (\<lambda>i. i_SeekToFirst I) st)"

definition mg_SeekToLast :: "'s iterops \<Rightarrow> comparator \<Rightarrow> 's merger \<Rightarrow> 's merger option" where
  "mg_SeekToLast I C st =
     map_option (\<lambda>st. (FindLargest I C st)\<lparr>mg_forward := False\<rparr>) (eachChild (\<lambda>i. i_SeekToLast I) st)"

definition mg_Seek :: "'s iterops \<Rightarrow> comparator \<Rightarrow> bytes \<Rightarrow> 's merger \<Rightarrow> 's merger option" where
  "mg_Seek I C target st =
     map_option (\<lambda>st. (FindSmallest I C st)\<lparr>mg_forward := True\<rparr>) (eachChild (\<lambda>i. i_Seek I target) st)"

definition mg_key :: "'s iterops \<Rightarrow> 's merger \<Rightarrow> bytes" where
  "mg_key I st = (case mg_current st of None \<Rightarrow> [] | Some j \<Rightarrow> i_key I (mg_children st ! j))"

definition mg_value :: "'s iterops \<Rightarrow> 's merger \<Rightarrow> bytes" where
  "mg_value I st = (case mg_current st of None \<Rightarrow> [] | Some j \<Rightarrow> i_value I (mg_children st ! j))"

definition afterKey :: "'s iterops \<Rightarrow> comparator \<Rightarrow> bytes \<Rightarrow> 's \<Rightarrow> 's option" where
  "afterKey I C key child =
     Option.bind (i_Seek I key child)
       (\<lambda>c. if i_Valid I c \<and> cmp_Compare C key (i_key I c) = 0 then i_Next I c else Some c)"

definition beforeKey :: "'s iterops \<Rightarrow> bytes \<Rightarrow> 's \<Rightarrow> 's option" where
  "beforeKey I key child =
     Option.bind (i_Seek I key child) (\<lambda>c. if i_Valid I c then i_Prev I c else i_SeekToLast I c)"

definition mg_Next :: "'s iterops \<Rightarrow> comparator \<Rightarrow> 's merger \<Rightarrow> 's merger option" where
  "mg_Next I C st =
     (case mg_current st of
        None \<Rightarrow> None
      | Some cur \<Rightarrow>
          Option.bind
            (if \<not> mg_forward st then
               map_option (\<lambda>st. st\<lparr>mg_forward := True\<rparr>)
                 (eachChild (\<lambda>i c. if i \<noteq> cur then afterKey I C (mg_key I st) c else Some c) st)
             else Some st)
            (\<lambda>st1. map_option (\<lambda>c. FindSmallest I C (st1\<lparr>mg_children := (mg_children st1)[cur := c]\<rparr>))
                     (i_Next I (mg_children st1 ! cur))))"

definition mg_Prev :: "'s iterops \<Rightarrow> comparator \<Rightarrow> 's merger \<Rightarrow> 's merger option" where
  "mg_Prev I C st =
     (case mg_current st of
        None \<Rightarrow> None
      | Some cur \<Rightarrow>
          Option.bind
            (if mg_forward st then
               map_option (\<lambda>st. st\<lparr>mg_forward := False\<rparr>)
                 (eachChild (\<lambda>i c. if i \<noteq> cur then beforeKey I (mg_key I st) c else Some c) st)
             else Some st)
            (\<lambda>st1. map_option (\<lambda>c. FindLargest I C (st1\<lparr>mg_children := (mg_children st1)[cur := c]\<rparr>))
                     (i_Prev I (mg_children st1 ! cur))))"

fun firstError :: "ldbstatus list \<Rightarrow> ldbstatus" where
  "firstError [] = sOK"
| "firstError (s # ss) = (if s \<noteq> sOK then s else firstError ss)"

definition mergeOps :: "'s iterops \<Rightarrow> comparator \<Rightarrow> 's merger iterops" where
  "mergeOps I C =
     \<lparr>i_Valid = (\<lambda>st. mg_current st \<noteq> None), i_SeekToFirst = mg_SeekToFirst I C, i_SeekToLast = mg_SeekToLast I C,
      i_Seek = mg_Seek I C, i_Next = mg_Next I C, i_Prev = mg_Prev I C, i_key = mg_key I, i_value = mg_value I,
      i_status = (\<lambda>st. firstError (map (i_status I) (mg_children st)))\<rparr>"

definition MergingIterator :: "'s iterops \<Rightarrow> comparator \<Rightarrow> 's wrapper merger iterops" where
  "MergingIterator I C = mergeOps (IteratorWrapper I) C"

definition newMergingIterator :: "'s iterops \<Rightarrow> 's list \<Rightarrow> 's wrapper merger" where
  "newMergingIterator I list = \<lparr>mg_children = map (wr_Set I) list, mg_current = None, mg_forward = True\<rparr>"

subsection \<open>The wrapper keeps the contract\<close>

definition wrapped :: "'s iterops \<Rightarrow> ('s \<Rightarrow> (bytes \<times> bytes) list \<Rightarrow> nat option \<Rightarrow> bool) \<Rightarrow>
    's wrapper \<Rightarrow> (bytes \<times> bytes) list \<Rightarrow> nat option \<Rightarrow> bool" where
  "wrapped I walks w es p \<longleftrightarrow> walks (wr_iter w) es p \<and> wr_valid w = i_Valid I (wr_iter w) \<and>
     (wr_valid w \<longrightarrow> wr_key w = i_key I (wr_iter w))"

context iterates
begin

lemma wrapped_Update: "walks (wr_iter w) es p \<Longrightarrow> wrapped I walks (wr_Update I w) es p"
  by (simp add: wrapped_def wr_Update_def Let_def)

lemma wrapped_call:
  "\<exists>i. f (wr_iter w) = Some i \<and> walks i es q \<Longrightarrow> \<exists>w'. wr_call I f w = Some w' \<and> wrapped I walks w' es q"
  using wrapped_Update by (auto simp: wr_call_def)

lemma wrapped_walks: "wrapped I walks w es p \<Longrightarrow> walks (wr_iter w) es p"
  by (simp add: wrapped_def)

lemmas wrapped_moves =
  wrapped_call [where f = "i_SeekToFirst I", OF seek_first [OF wrapped_walks]]
  wrapped_call [where f = "i_SeekToLast I", OF seek_last [OF wrapped_walks]]
  wrapped_call [where f = "i_Seek I k" for k, OF seek [OF wrapped_walks]]
  wrapped_call [where f = "i_Next I", OF next_at [OF wrapped_walks]]
  wrapped_call [where f = "i_Prev I", OF prev_at [OF wrapped_walks]]

lemma wrapped_reads:
  assumes "wrapped I walks w es p"
  shows "wr_valid w \<longleftrightarrow> p \<noteq> None" "i_status I (wr_iter w) = sOK" "p = Some i \<Longrightarrow> i < length es"
    "p = Some i \<Longrightarrow> wr_key w = fst (es ! i)" "p = Some i \<Longrightarrow> i_value I (wr_iter w) = snd (es ! i)"
proof -
  have w: "walks (wr_iter w) es p" using assms by (rule wrapped_walks)
  show "wr_valid w \<longleftrightarrow> p \<noteq> None" "i_status I (wr_iter w) = sOK" "p = Some i \<Longrightarrow> i < length es"
    "p = Some i \<Longrightarrow> i_value I (wr_iter w) = snd (es ! i)" "p = Some i \<Longrightarrow> wr_key w = fst (es ! i)"
    using assms w at_valid [OF w] at_status [OF w] by (auto simp: wrapped_def at_range at_value at_key)
qed

lemma wrapped_iterates: "iterates (IteratorWrapper I) cmp N (wrapped I walks)"
  by unfold_locales (simp_all add: IteratorWrapper_def wrapped_moves wrapped_reads)

end

end
