(* ===== verification/LdbMergerLaws.thy ===== *)
theory LdbMergerLaws
  imports LdbMerger
begin

text \<open>
  The merging iterator walks the merge of what its children walk: when their entries
  together are a sorted list of distinct keys, the merging iterator is an iterator of that
  list. Going forwards every child is at its first entry from the current one on, going
  backwards at its last entry up to it.
\<close>

subsection \<open>Choosing the best\<close>

lemma foldl_best:
  assumes trans: "\<And>a b c :: nat. better a b \<Longrightarrow> better b c \<Longrightarrow> better a c" and irrefl: "\<And>a. \<not> better a a"
    and step: "\<And>i sm. i \<in> set xs \<Longrightarrow> (\<And>j. sm = Some j \<Longrightarrow> j \<in> set xs \<and> val j \<noteq> None) \<Longrightarrow>
      step sm i = (case val i of None \<Rightarrow> sm | Some m \<Rightarrow>
        (case sm of None \<Rightarrow> Some i | Some j \<Rightarrow> if better m (the (val j)) then Some i else sm))"
  shows "case foldl step None xs of
      None \<Rightarrow> \<forall>i \<in> set xs. val i = None
    | Some i \<Rightarrow> i \<in> set xs \<and> (\<exists>m. val i = Some m \<and> (\<forall>j \<in> set xs. \<forall>m'. val j = Some m' \<longrightarrow> \<not> better m' m))"
  using step
proof (induction xs rule: rev_induct)
  case (snoc x xs)
  have IH: "case foldl step None xs of
      None \<Rightarrow> \<forall>i \<in> set xs. val i = None
    | Some i \<Rightarrow> i \<in> set xs \<and> (\<exists>m. val i = Some m \<and> (\<forall>j \<in> set xs. \<forall>m'. val j = Some m' \<longrightarrow> \<not> better m' m))"
  proof (rule snoc.IH)
    fix i sm assume a: "i \<in> set xs" "\<And>j. sm = Some j \<Longrightarrow> j \<in> set xs \<and> val j \<noteq> None"
    show "step sm i = (case val i of None \<Rightarrow> sm | Some m \<Rightarrow>
        (case sm of None \<Rightarrow> Some i | Some j \<Rightarrow> if better m (the (val j)) then Some i else sm))"
      by (rule snoc.prems) (use a in auto)
  qed
  have x: "step (foldl step None xs) x = (case val x of None \<Rightarrow> foldl step None xs | Some m \<Rightarrow>
        (case foldl step None xs of None \<Rightarrow> Some x | Some j \<Rightarrow> if better m (the (val j)) then Some x else foldl step None xs))"
    by (rule snoc.prems) (use IH in auto)
  show ?case
  proof (cases "val x")
    case None
    then show ?thesis using x IH by (auto split: option.splits)
  next
    case (Some m)
    show ?thesis
    proof (cases "foldl step None xs")
      case None
      then show ?thesis using x IH Some irrefl by auto
    next
      case (Some j)
      then obtain mj where mj: "val j = Some mj" "j \<in> set xs" "\<forall>k \<in> set xs. \<forall>m'. val k = Some m' \<longrightarrow> \<not> better m' mj"
        using IH by auto
      then show ?thesis using x Some \<open>val x = Some m\<close> irrefl trans by (auto split: if_splits)
    qed
  qed
qed simp

subsection \<open>Operations on the children\<close>

lemma those_all: "(\<And>x. x \<in> set xs \<Longrightarrow> f x \<noteq> None) \<Longrightarrow> those (map f xs) = Some (map (the \<circ> f) xs)"
  by (induction xs) force+

lemma eachChild_all:
  assumes "\<And>i. i < length (mg_children st) \<Longrightarrow> \<exists>c'. f i (mg_children st ! i) = Some c' \<and> Q i c'"
  shows "\<exists>cs'. eachChild f st = Some (st\<lparr>mg_children := cs'\<rparr>) \<and> length cs' = length (mg_children st) \<and>
    (\<forall>i < length (mg_children st). Q i (cs' ! i))"
proof -
  let ?g = "\<lambda>i. f i (mg_children st ! i)" and ?n = "length (mg_children st)"
  have "those (map ?g [0..<?n]) = Some (map (the \<circ> ?g) [0..<?n])"
    by (rule those_all) (use assms in fastforce)
  moreover have "Q i (map (the \<circ> ?g) [0..<?n] ! i)" if "i < ?n" for i using assms [OF that] that by auto
  ultimately show ?thesis by (auto simp: eachChild_def)
qed

subsection \<open>Where the children are\<close>

abbreviation part :: "(nat \<Rightarrow> nat) \<Rightarrow> nat \<Rightarrow> 'e list \<Rightarrow> 'e list" where
  "part own i es \<equiv> chosen (\<lambda>m. own m = i) es"

abbreviation place :: "(nat \<Rightarrow> nat) \<Rightarrow> nat \<Rightarrow> nat \<Rightarrow> nat" where
  "place own i \<equiv> rankOf (\<lambda>m. own m = i)"

text \<open>\<open>own m\<close> is the child that the entry \<open>m\<close> of the merge comes from.\<close>

definition merge_ok :: "comparator \<Rightarrow> nat \<Rightarrow> (nat \<Rightarrow> nat) \<Rightarrow> nat \<Rightarrow> (bytes \<times> bytes) list \<Rightarrow> bool" where
  "merge_ok C N own n es \<longleftrightarrow>
     sorted_wrt (\<lambda>a b. cmp_Compare C (fst a) (fst b) < 0) es \<and> (\<forall>e \<in> set es. length (fst e) < N) \<and>
     (\<forall>m < length es. own m < n)"

definition spread ::
  "('s \<Rightarrow> (bytes \<times> bytes) list \<Rightarrow> nat option \<Rightarrow> bool) \<Rightarrow> (nat \<Rightarrow> nat) \<Rightarrow> (bytes \<times> bytes) list \<Rightarrow> 's list \<Rightarrow> (nat \<Rightarrow> nat option) \<Rightarrow> bool" where
  "spread walks own es cs pos \<longleftrightarrow> (\<forall>i < length cs. walks (cs ! i) (part own i es) (pos i))"

abbreviation fromPlace :: "(nat \<Rightarrow> nat) \<Rightarrow> (bytes \<times> bytes) list \<Rightarrow> nat \<Rightarrow> nat \<Rightarrow> nat option" where
  "fromPlace own es c i \<equiv> atPos (place own i c) (part own i es)"

abbreviation upToPlace :: "(nat \<Rightarrow> nat) \<Rightarrow> nat \<Rightarrow> nat \<Rightarrow> nat option" where
  "upToPlace own c i \<equiv> beforePos (place own i c)"

definition mg_at ::
  "comparator \<Rightarrow> nat \<Rightarrow> ('s \<Rightarrow> (bytes \<times> bytes) list \<Rightarrow> nat option \<Rightarrow> bool) \<Rightarrow> 's merger \<Rightarrow> (bytes \<times> bytes) list \<Rightarrow> nat option \<Rightarrow> bool" where
  "mg_at C N walks st es p \<longleftrightarrow>
     (\<exists>own. merge_ok C N own (length (mg_children st)) es \<and> mg_current st = map_option own p \<and>
        (case p of
           None \<Rightarrow> \<exists>pos. spread walks own es (mg_children st) pos
         | Some q \<Rightarrow> q < length es \<and>
             spread walks own es (mg_children st) (if mg_forward st then fromPlace own es q else upToPlace own (Suc q))))"

locale merging = iterates I "cmp_Compare C" N walks + comparator_laws C
  for I :: "'s iterops" and C and N and walks
begin

lemma key_order:
  assumes "merge_ok C N own n es" "i < length es" "j < length es"
  shows "cmp_Compare C (fst (es ! i)) (fst (es ! j)) < 0 \<longleftrightarrow> i < j"
proof -
  have less: "cmp_Compare C (fst (es ! a)) (fst (es ! b)) < 0" if "a < b" "b < length es" for a b
    using assms(1) that by (simp add: merge_ok_def sorted_wrt_iff_nth_less)
  show ?thesis
    using less [of i j] less [of j i] assms(2,3) anti [of "fst (es ! j)" "fst (es ! i)"]
    by (cases i j rule: linorder_cases) auto
qed

lemma key_greater:
  assumes "merge_ok C N own n es" "i < length es" "j < length es"
  shows "0 < cmp_Compare C (fst (es ! i)) (fst (es ! j)) \<longleftrightarrow> j < i"
  using key_order [OF assms(1,3,2)] anti by blast

lemma child_from:
  assumes "walks c (part own i es) (fromPlace own es q i)" "q \<le> length es"
  shows "i_Valid I c \<longleftrightarrow> List.find (\<lambda>m. own m = i) [q..<length es] \<noteq> None"
    "List.find (\<lambda>m. own m = i) [q..<length es] = Some m \<Longrightarrow> i_key I c = fst (es ! m) \<and> i_value I c = snd (es ! m)"
proof -
  note n = chosen_next [OF assms(2), of "\<lambda>m. own m = i"]
  show "i_Valid I c \<longleftrightarrow> List.find (\<lambda>m. own m = i) [q..<length es] \<noteq> None"
    using at_valid [OF assms(1)] n(1) by simp
  assume m: "List.find (\<lambda>m. own m = i) [q..<length es] = Some m"
  then have "walks c (part own i es) (Some (place own i m))" using assms(1) n(1) by simp
  from at_key [OF this] at_value [OF this] show "i_key I c = fst (es ! m) \<and> i_value I c = snd (es ! m)"
    using n(2) [OF m] by simp
qed

lemma child_upTo:
  assumes "walks c (part own i es) (upToPlace own q i)" "q \<le> length es"
  shows "i_Valid I c \<longleftrightarrow> List.find (\<lambda>m. own m = i) (rev [0..<q]) \<noteq> None"
    "List.find (\<lambda>m. own m = i) (rev [0..<q]) = Some m \<Longrightarrow> i_key I c = fst (es ! m) \<and> i_value I c = snd (es ! m)"
proof -
  note n = chosen_prev [OF assms(2), of "\<lambda>m. own m = i"]
  show "i_Valid I c \<longleftrightarrow> List.find (\<lambda>m. own m = i) (rev [0..<q]) \<noteq> None"
    using at_valid [OF assms(1)] n(1) by simp
  assume m: "List.find (\<lambda>m. own m = i) (rev [0..<q]) = Some m"
  then have "walks c (part own i es) (Some (place own i m))" using assms(1) n(1) by simp
  from at_key [OF this] at_value [OF this] show "i_key I c = fst (es ! m) \<and> i_value I c = snd (es ! m)"
    using n(2) [OF m] by simp
qed

lemma FindSmallest_current:
  assumes ok: "merge_ok C N own (length (mg_children st)) es" and q: "q \<le> length es"
    and sp: "spread walks own es (mg_children st) (fromPlace own es q)"
  shows "mg_current (FindSmallest I C st) = (if q < length es then Some (own q) else None)"
proof -
  let ?cs = "mg_children st" and ?val = "\<lambda>i. List.find (\<lambda>m. own m = i) [q..<length es]"
  let ?r = "foldl (smallestStep I C ?cs) None [0..<length ?cs]"
  have range: "m < length es" "q \<le> m" "own m = i" if "?val i = Some m" for i m using find_upt_SomeD [OF that] by simp_all
  have ch: "i_Valid I (?cs ! i) \<longleftrightarrow> ?val i \<noteq> None" "?val i = Some m \<Longrightarrow> i_key I (?cs ! i) = fst (es ! m)"
    if "i < length ?cs" for i m
    using child_from [OF _ q, of "?cs ! i" own i] sp that by (auto simp: spread_def)
  have best: "case ?r of None \<Rightarrow> \<forall>i \<in> set [0..<length ?cs]. ?val i = None
    | Some i \<Rightarrow> i \<in> set [0..<length ?cs] \<and> (\<exists>m. ?val i = Some m \<and>
        (\<forall>j \<in> set [0..<length ?cs]. \<forall>m'. ?val j = Some m' \<longrightarrow> \<not> m' < m))"
  proof (rule foldl_best)
    fix i sm assume a: "i \<in> set [0..<length ?cs]" "\<And>j. sm = Some j \<Longrightarrow> j \<in> set [0..<length ?cs] \<and> ?val j \<noteq> None"
    show "smallestStep I C ?cs sm i = (case ?val i of None \<Rightarrow> sm | Some m \<Rightarrow>
        (case sm of None \<Rightarrow> Some i | Some j \<Rightarrow> if m < the (?val j) then Some i else sm))"
    proof (cases "?val i")
      case (Some m)
      then show ?thesis
        using a ch range(1) by (cases sm) (auto simp: smallestStep_def key_order [OF ok])
    qed (use a ch in \<open>simp add: smallestStep_def\<close>)
  qed auto
  have "?r = (if q < length es then Some (own q) else None)"
  proof (cases "q < length es")
    case True
    then have v: "?val (own q) = Some q" "own q < length ?cs"
      using ok by (simp_all add: find_upt_Some merge_ok_def)
    then obtain i m where "?r = Some i" "?val i = Some m" "\<not> q < m" using best by (cases ?r) auto
    then show ?thesis using range [of i m] True by auto
  next
    case False
    then have "?val i = None" for i using q by simp
    then show ?thesis using best False by (cases ?r) auto
  qed
  then show ?thesis by (simp add: FindSmallest_def)
qed

lemma FindLargest_current:
  assumes ok: "merge_ok C N own (length (mg_children st)) es" and q: "q \<le> length es"
    and sp: "spread walks own es (mg_children st) (upToPlace own q)"
  shows "mg_current (FindLargest I C st) = (if q = 0 then None else Some (own (q - 1)))"
proof -
  let ?cs = "mg_children st" and ?val = "\<lambda>i. List.find (\<lambda>m. own m = i) (rev [0..<q])"
  let ?r = "foldl (largestStep I C ?cs) None (rev [0..<length ?cs])"
  have range: "m < q" "m < length es" "own m = i" if "?val i = Some m" for i m using find_rev_SomeD [OF that] q by simp_all
  have ch: "i_Valid I (?cs ! i) \<longleftrightarrow> ?val i \<noteq> None" "?val i = Some m \<Longrightarrow> i_key I (?cs ! i) = fst (es ! m)"
    if "i < length ?cs" for i m
    using child_upTo [OF _ q, of "?cs ! i" own i] sp that by (auto simp: spread_def)
  have best: "case ?r of None \<Rightarrow> \<forall>i \<in> set (rev [0..<length ?cs]). ?val i = None
    | Some i \<Rightarrow> i \<in> set (rev [0..<length ?cs]) \<and> (\<exists>m. ?val i = Some m \<and>
        (\<forall>j \<in> set (rev [0..<length ?cs]). \<forall>m'. ?val j = Some m' \<longrightarrow> \<not> m < m'))"
  proof (rule foldl_best)
    fix i sm assume a: "i \<in> set (rev [0..<length ?cs])"
      "\<And>j. sm = Some j \<Longrightarrow> j \<in> set (rev [0..<length ?cs]) \<and> ?val j \<noteq> None"
    show "largestStep I C ?cs sm i = (case ?val i of None \<Rightarrow> sm | Some m \<Rightarrow>
        (case sm of None \<Rightarrow> Some i | Some j \<Rightarrow> if the (?val j) < m then Some i else sm))"
    proof (cases "?val i")
      case (Some m)
      then show ?thesis
        using a ch range(2) by (cases sm) (auto simp: largestStep_def key_greater [OF ok])
    qed (use a ch in \<open>simp add: largestStep_def\<close>)
  qed auto
  have "?r = (if q = 0 then None else Some (own (q - 1)))"
  proof (cases "q = 0")
    case False
    then have v: "?val (own (q - 1)) = Some (q - 1)" "own (q - 1) < length ?cs"
      using ok q by (simp_all add: find_rev_Some merge_ok_def)
    then obtain i m where "?r = Some i" "?val i = Some m" "\<not> m < q - 1" using best by (cases ?r) auto
    then show ?thesis using range [of i m] False by (auto simp: less_eq_nat.simps intro!: arg_cong [where f = own])
  next
    case True
    then show ?thesis using best by (cases ?r) auto
  qed
  then show ?thesis by (simp add: FindLargest_def)
qed

text \<open>When the children are spread around a place, finding the current child ends an operation.\<close>

lemma smallest_at:
  assumes "merge_ok C N own (length (mg_children st)) es" "q \<le> length es"
    "spread walks own es (mg_children st) (fromPlace own es q)"
  shows "mg_at C N walks ((FindSmallest I C st)\<lparr>mg_forward := True\<rparr>) es (atPos q es)"
  using assms FindSmallest_current [OF assms]
  by (auto simp: mg_at_def atPos_def FindSmallest_def split: option.splits intro!: exI [of _ own])

lemma largest_at:
  assumes "merge_ok C N own (length (mg_children st)) es" "q \<le> length es"
    "spread walks own es (mg_children st) (upToPlace own q)"
  shows "mg_at C N walks ((FindLargest I C st)\<lparr>mg_forward := False\<rparr>) es (beforePos q)"
  using assms FindLargest_current [OF assms]
  by (cases q) (auto simp: mg_at_def FindLargest_def intro!: exI [of _ own])

lemma direction_kept:
  "mg_forward st \<Longrightarrow> (FindSmallest I C st)\<lparr>mg_forward := True\<rparr> = FindSmallest I C st"
  "\<not> mg_forward st \<Longrightarrow> (FindLargest I C st)\<lparr>mg_forward := False\<rparr> = FindLargest I C st"
  by (cases st; simp add: FindSmallest_def FindLargest_def)+

lemma mg_at_spread:
  assumes "mg_at C N walks st es p"
  obtains own pos where "merge_ok C N own (length (mg_children st)) es" "spread walks own es (mg_children st) pos"
  using assms unfolding mg_at_def by (cases p) auto

lemma eachChild_spread:
  assumes "spread walks own es (mg_children st) pos"
    and "\<And>i c. i < length (mg_children st) \<Longrightarrow> walks c (part own i es) (pos i) \<Longrightarrow>
      \<exists>c'. f i c = Some c' \<and> walks c' (part own i es) (pos' i)"
  shows "\<exists>st'. eachChild f st = Some (st\<lparr>mg_children := st'\<rparr>) \<and> length st' = length (mg_children st) \<and>
    spread walks own es st' pos'"
proof -
  have "\<exists>c'. f i (mg_children st ! i) = Some c' \<and> walks c' (part own i es) (pos' i)" if "i < length (mg_children st)" for i
    using assms that by (simp add: spread_def)
  then show ?thesis
    using eachChild_all [of st f "\<lambda>i c'. walks c' (part own i es) (pos' i)"] by (auto simp: spread_def)
qed

lemma count_place:
  "merge_ok C N own n es \<Longrightarrow> countBefore (cmp_Compare C) k (part own i es) = place own i (countBefore (cmp_Compare C) k es)"
  by (rule countBefore_chosen [OF ordering_axioms]) (simp add: merge_ok_def)

lemma seek_child:
  assumes "merge_ok C N own n es" "walks c (part own i es) p" "length k < N"
  shows "\<exists>c'. i_Seek I k c = Some c' \<and> walks c' (part own i es) (fromPlace own es (countBefore (cmp_Compare C) k es) i)"
  using seek [OF assms(2,3)] unfolding count_place [OF assms(1)] .

lemma mg_seeks:
  assumes "mg_at C N walks st es p"
  shows "\<exists>st'. mg_SeekToFirst I C st = Some st' \<and> mg_at C N walks st' es (atPos 0 es)"
    "\<exists>st'. mg_SeekToLast I C st = Some st' \<and> mg_at C N walks st' es (beforePos (length es))"
    "length k < N \<Longrightarrow> \<exists>st'. mg_Seek I C k st = Some st' \<and> mg_at C N walks st' es (atPos (countBefore (cmp_Compare C) k es) es)"
proof -
  obtain own pos where ok: "merge_ok C N own (length (mg_children st)) es" and sp: "spread walks own es (mg_children st) pos"
    using assms by (rule mg_at_spread)
  note each = eachChild_spread [OF sp]
  have ok': "merge_ok C N own (length (mg_children (st\<lparr>mg_children := cs\<rparr>))) es" if "length cs = length (mg_children st)" for cs
    using ok that by simp
  obtain cs where "eachChild (\<lambda>i. i_SeekToFirst I) st = Some (st\<lparr>mg_children := cs\<rparr>)" "length cs = length (mg_children st)"
    "spread walks own es cs (fromPlace own es 0)"
    using each [of "\<lambda>i. i_SeekToFirst I" "fromPlace own es 0"] seek_first by auto
  then show "\<exists>st'. mg_SeekToFirst I C st = Some st' \<and> mg_at C N walks st' es (atPos 0 es)"
    using smallest_at [OF ok', of cs 0] by (simp add: mg_SeekToFirst_def)
  obtain cs where "eachChild (\<lambda>i. i_SeekToLast I) st = Some (st\<lparr>mg_children := cs\<rparr>)" "length cs = length (mg_children st)"
    "spread walks own es cs (upToPlace own (length es))"
    using each [of "\<lambda>i. i_SeekToLast I" "upToPlace own (length es)"] seek_last by force
  then show "\<exists>st'. mg_SeekToLast I C st = Some st' \<and> mg_at C N walks st' es (beforePos (length es))"
    using largest_at [OF ok', of cs "length es"] by (simp add: mg_SeekToLast_def)
  let ?q = "countBefore (cmp_Compare C) k es"
  assume k: "length k < N"
  obtain cs where "eachChild (\<lambda>i. i_Seek I k) st = Some (st\<lparr>mg_children := cs\<rparr>)" "length cs = length (mg_children st)"
    "spread walks own es cs (fromPlace own es ?q)"
    using each [of "\<lambda>i. i_Seek I k" "fromPlace own es ?q"] seek_child [OF ok _ k] by blast
  then show "\<exists>st'. mg_Seek I C k st = Some st' \<and> mg_at C N walks st' es (atPos ?q es)"
    using smallest_at [OF ok', of cs ?q] countBefore_le [of "cmp_Compare C" k es] by (simp add: mg_Seek_def)
qed

text \<open>The children at a change of the direction.\<close>

lemma key_count:
  assumes "merge_ok C N own n es" "q < length es"
  shows "countBefore (cmp_Compare C) (fst (es ! q)) es = q"
  using assms key_order [OF assms(1)] by (intro countBefore_eqI) simp_all

lemma afterKey_child:
  assumes ok: "merge_ok C N own n es" and q: "q < length es" and w: "walks c (part own i es) p" and i: "i \<noteq> own q"
  shows "\<exists>c'. afterKey I C (fst (es ! q)) c = Some c' \<and> walks c' (part own i es) (fromPlace own es q i)"
proof -
  have "length (fst (es ! q)) < N" using ok q by (simp add: merge_ok_def)
  then obtain c' where c': "i_Seek I (fst (es ! q)) c = Some c'" "walks c' (part own i es) (fromPlace own es q i)"
    using seek_child [OF ok w] key_count [OF ok q] by metis
  have "\<not> (i_Valid I c' \<and> cmp_Compare C (fst (es ! q)) (i_key I c') = 0)"
  proof
    assume a: "i_Valid I c' \<and> cmp_Compare C (fst (es ! q)) (i_key I c') = 0"
    then obtain m where m: "List.find (\<lambda>m. own m = i) [q..<length es] = Some m"
      using child_from(1) [OF c'(2)] q by auto
    then have "i_key I c' = fst (es ! m)" "q \<le> m" "m < length es" "own m = i"
      using child_from(2) [OF c'(2)] q find_upt_SomeD [OF m] by auto
    moreover from this have "q \<noteq> m" using i by auto
    ultimately show False using a key_order [OF ok q, of m] by auto
  qed
  then show ?thesis using c' by (auto simp: afterKey_def)
qed

lemma beforeKey_child:
  assumes ok: "merge_ok C N own n es" and q: "q < length es" and w: "walks c (part own i es) p"
  shows "\<exists>c'. beforeKey I (fst (es ! q)) c = Some c' \<and> walks c' (part own i es) (upToPlace own q i)"
proof -
  have "length (fst (es ! q)) < N" using ok q by (simp add: merge_ok_def)
  then obtain c' where c': "i_Seek I (fst (es ! q)) c = Some c'" "walks c' (part own i es) (fromPlace own es q i)"
    using seek_child [OF ok w] key_count [OF ok q] by metis
  show ?thesis
  proof (cases "place own i q < length (part own i es)")
    case True
    then have "walks c' (part own i es) (Some (place own i q))" using c'(2) by (simp add: atPos_def)
    from prev_at [OF this] at_valid [OF this] show ?thesis using c'(1) by (auto simp: beforeKey_def)
  next
    case False
    then have "place own i q = length (part own i es)"
      using rankOf_mono [of q "length es"] q by (simp add: le_antisym)
    then show ?thesis using seek_last [OF c'(2)] at_valid [OF c'(2)] c'(1) by (auto simp: beforeKey_def)
  qed
qed

lemma mg_current_child:
  assumes "mg_at C N walks st es (Some q)"
  obtains own where "merge_ok C N own (length (mg_children st)) es" "mg_current st = Some (own q)" "q < length es"
    "own q < length (mg_children st)" "walks (mg_children st ! own q) (part own (own q) es) (Some (place own (own q) q))"
    "spread walks own es (mg_children st) (if mg_forward st then fromPlace own es q else upToPlace own (Suc q))"
proof -
  obtain own where a: "merge_ok C N own (length (mg_children st)) es" "mg_current st = Some (own q)" "q < length es"
    "spread walks own es (mg_children st) (if mg_forward st then fromPlace own es q else upToPlace own (Suc q))"
    using assms by (auto simp: mg_at_def)
  have o: "own q < length (mg_children st)" using a(1,3) by (simp add: merge_ok_def)
  have "walks (mg_children st ! own q) (part own (own q) es) (Some (place own (own q) q))"
    using a(4) o rankOf_nth(1) [of "\<lambda>m. own m = own q" q "length es"] a(3)
    by (auto simp: spread_def atPos_def split: if_splits dest!: spec [of _ "own q"])
  then show ?thesis using that a o by blast
qed

lemma mg_reads:
  assumes "mg_at C N walks st es (Some q)"
  shows "q < length es" "mg_key I st = fst (es ! q)" "mg_value I st = snd (es ! q)"
proof -
  obtain own where o: "mg_current st = Some (own q)" "q < length es"
    "walks (mg_children st ! own q) (part own (own q) es) (Some (place own (own q) q))"
    using assms by (rule mg_current_child)
  show "q < length es" by (rule o(2))
  show "mg_key I st = fst (es ! q)" "mg_value I st = snd (es ! q)"
    using at_key [OF o(3)] at_value [OF o(3)] chosen_nth [of "\<lambda>m. own m = own q" q es] o(1,2)
    by (simp_all add: mg_key_def mg_value_def)
qed

lemma spread_update:
  assumes "spread walks own es cs pos" "k < length cs" "walks c (part own k es) (pos' k)"
    "\<And>i. i < length cs \<Longrightarrow> i \<noteq> k \<Longrightarrow> pos' i = pos i"
  shows "spread walks own es (cs[k := c]) pos'"
  using assms by (auto simp: spread_def nth_list_update)

lemma mg_Next_at:
  assumes "mg_at C N walks st es (Some q)"
  shows "\<exists>st'. mg_Next I C st = Some st' \<and> mg_at C N walks st' es (atPos (Suc q) es)"
proof -
  obtain own where a: "merge_ok C N own (length (mg_children st)) es" "mg_current st = Some (own q)" "q < length es"
    "own q < length (mg_children st)" "walks (mg_children st ! own q) (part own (own q) es) (Some (place own (own q) q))"
    "spread walks own es (mg_children st) (if mg_forward st then fromPlace own es q else upToPlace own (Suc q))"
    using assms by (rule mg_current_child)
  have "\<exists>cs. (if \<not> mg_forward st then
               map_option (\<lambda>st. st\<lparr>mg_forward := True\<rparr>)
                 (eachChild (\<lambda>i c. if i \<noteq> own q then afterKey I C (mg_key I st) c else Some c) st)
             else Some st) = Some (st\<lparr>mg_children := cs, mg_forward := True\<rparr>) \<and> length cs = length (mg_children st) \<and>
      spread walks own es cs (fromPlace own es q)"
  proof (cases "mg_forward st")
    case True
    then have "st = st\<lparr>mg_children := mg_children st, mg_forward := True\<rparr>" by simp
    then show ?thesis using a(6) True by (auto intro!: exI [of _ "mg_children st"])
  next
    case False
    then have sp: "spread walks own es (mg_children st) (upToPlace own (Suc q))" using a(6) by simp
    have "\<exists>cs. eachChild (\<lambda>i c. if i \<noteq> own q then afterKey I C (mg_key I st) c else Some c) st = Some (st\<lparr>mg_children := cs\<rparr>) \<and>
        length cs = length (mg_children st) \<and> spread walks own es cs (fromPlace own es q)"
    proof (rule eachChild_spread [OF sp])
      fix i c assume c: "i < length (mg_children st)" "walks c (part own i es) (upToPlace own (Suc q) i)"
      show "\<exists>c'. (if i \<noteq> own q then afterKey I C (mg_key I st) c else Some c) = Some c' \<and>
          walks c' (part own i es) (fromPlace own es q i)"
      proof (cases "i = own q")
        case True
        then show ?thesis using c(2) rankOf_nth(1) [of "\<lambda>m. own m = own q" q "length es"] a(3) by (simp add: atPos_def)
      next
        case False
        then show ?thesis using afterKey_child [OF a(1,3) c(2) False] mg_reads(2) [OF assms] by simp
      qed
    qed
    then show ?thesis using False by auto
  qed
  then obtain cs where cs: "(if \<not> mg_forward st then
               map_option (\<lambda>st. st\<lparr>mg_forward := True\<rparr>)
                 (eachChild (\<lambda>i c. if i \<noteq> own q then afterKey I C (mg_key I st) c else Some c) st)
             else Some st) = Some (st\<lparr>mg_children := cs, mg_forward := True\<rparr>)" "length cs = length (mg_children st)"
      "spread walks own es cs (fromPlace own es q)" by auto
  have "walks (cs ! own q) (part own (own q) es) (Some (place own (own q) q))"
    using cs(2,3) a(3,4) rankOf_nth(1) [of "\<lambda>m. own m = own q" q "length es"] by (auto simp: spread_def atPos_def)
  then obtain c where c: "i_Next I (cs ! own q) = Some c" "walks c (part own (own q) es) (fromPlace own es (Suc q) (own q))"
    using next_at by force
  have "spread walks own es (cs[own q := c]) (fromPlace own es (Suc q))"
    by (rule spread_update [OF cs(3)]) (use cs(2) a(4) c(2) in simp_all)
  then have "mg_at C N walks (FindSmallest I C (st\<lparr>mg_children := cs, mg_forward := True\<rparr>\<lparr>mg_children := cs[own q := c]\<rparr>)) es (atPos (Suc q) es)"
    using a(1,3) cs(2) smallest_at [of own "st\<lparr>mg_children := cs, mg_forward := True\<rparr>\<lparr>mg_children := cs[own q := c]\<rparr>" es "Suc q"]
    by (simp add: direction_kept)
  then show ?thesis by (simp add: mg_Next_def a(2) cs(1) c(1))
qed

lemma mg_Prev_at:
  assumes "mg_at C N walks st es (Some q)"
  shows "\<exists>st'. mg_Prev I C st = Some st' \<and> mg_at C N walks st' es (beforePos q)"
proof -
  obtain own where a: "merge_ok C N own (length (mg_children st)) es" "mg_current st = Some (own q)" "q < length es"
    "own q < length (mg_children st)" "walks (mg_children st ! own q) (part own (own q) es) (Some (place own (own q) q))"
    "spread walks own es (mg_children st) (if mg_forward st then fromPlace own es q else upToPlace own (Suc q))"
    using assms by (rule mg_current_child)
  define pos where "pos i = (if i = own q then Some (place own i q) else upToPlace own q i)" for i
  have "\<exists>cs. (if mg_forward st then
               map_option (\<lambda>st. st\<lparr>mg_forward := False\<rparr>)
                 (eachChild (\<lambda>i c. if i \<noteq> own q then beforeKey I (mg_key I st) c else Some c) st)
             else Some st) = Some (st\<lparr>mg_children := cs, mg_forward := False\<rparr>) \<and> length cs = length (mg_children st) \<and>
      spread walks own es cs pos"
  proof (cases "mg_forward st")
    case False
    then have "spread walks own es (mg_children st) (upToPlace own (Suc q))" using a(6) by simp
    then have "spread walks own es (mg_children st) pos" by (auto simp: spread_def pos_def)
    moreover have "st = st\<lparr>mg_children := mg_children st, mg_forward := False\<rparr>" using False by simp
    ultimately show ?thesis using False by (auto intro!: exI [of _ "mg_children st"])
  next
    case True
    then have sp: "spread walks own es (mg_children st) (fromPlace own es q)" using a(6) by simp
    have "\<exists>cs. eachChild (\<lambda>i c. if i \<noteq> own q then beforeKey I (mg_key I st) c else Some c) st = Some (st\<lparr>mg_children := cs\<rparr>) \<and>
        length cs = length (mg_children st) \<and> spread walks own es cs pos"
    proof (rule eachChild_spread [OF sp])
      fix i c assume c: "i < length (mg_children st)" "walks c (part own i es) (fromPlace own es q i)"
      show "\<exists>c'. (if i \<noteq> own q then beforeKey I (mg_key I st) c else Some c) = Some c' \<and> walks c' (part own i es) (pos i)"
      proof (cases "i = own q")
        case True
        then show ?thesis
          using c(2) rankOf_nth(1) [of "\<lambda>m. own m = own q" q "length es"] a(3) by (simp add: atPos_def pos_def)
      next
        case False
        then show ?thesis using beforeKey_child [OF a(1,3) c(2)] mg_reads(2) [OF assms] by (simp add: pos_def)
      qed
    qed
    then show ?thesis using True by auto
  qed
  then obtain cs where cs: "(if mg_forward st then
               map_option (\<lambda>st. st\<lparr>mg_forward := False\<rparr>)
                 (eachChild (\<lambda>i c. if i \<noteq> own q then beforeKey I (mg_key I st) c else Some c) st)
             else Some st) = Some (st\<lparr>mg_children := cs, mg_forward := False\<rparr>)" "length cs = length (mg_children st)"
      "spread walks own es cs pos" by auto
  have "walks (cs ! own q) (part own (own q) es) (Some (place own (own q) q))"
    using cs(2,3) a(4) by (auto simp: spread_def pos_def)
  then obtain c where c: "i_Prev I (cs ! own q) = Some c" "walks c (part own (own q) es) (upToPlace own q (own q))"
    using prev_at by blast
  have "spread walks own es (cs[own q := c]) (upToPlace own q)"
    by (rule spread_update [OF cs(3)]) (use cs(2) a(4) c(2) in \<open>simp_all add: pos_def\<close>)
  then have "mg_at C N walks (FindLargest I C (st\<lparr>mg_children := cs, mg_forward := False\<rparr>\<lparr>mg_children := cs[own q := c]\<rparr>)) es (beforePos q)"
    using a(1,3) cs(2) largest_at [of own "st\<lparr>mg_children := cs, mg_forward := False\<rparr>\<lparr>mg_children := cs[own q := c]\<rparr>" es q]
    by (simp add: direction_kept)
  then show ?thesis by (simp add: mg_Prev_def a(2) cs(1) c(1))
qed

lemma firstError_ok: "\<forall>s \<in> set ss. s = sOK \<Longrightarrow> firstError ss = sOK"
  by (induction ss) simp_all

lemma mg_status:
  assumes "mg_at C N walks st es p"
  shows "firstError (map (i_status I) (mg_children st)) = sOK" "mg_current st \<noteq> None \<longleftrightarrow> p \<noteq> None"
proof -
  obtain own pos where "spread walks own es (mg_children st) pos" using assms by (rule mg_at_spread)
  then have "i_status I (mg_children st ! i) = sOK" if "i < length (mg_children st)" for i
    using that at_status unfolding spread_def by blast
  then show "firstError (map (i_status I) (mg_children st)) = sOK"
    by (intro firstError_ok) (auto simp: in_set_conv_nth)
  show "mg_current st \<noteq> None \<longleftrightarrow> p \<noteq> None" using assms by (cases p) (auto simp: mg_at_def)
qed

lemma merge_iterates: "iterates (mergeOps I C) (cmp_Compare C) N (mg_at C N walks)"
  by unfold_locales (simp_all add: mergeOps_def mg_reads mg_seeks mg_Next_at mg_Prev_at mg_status del: not_None_eq)

end

text \<open>With the wrappers, and a new iterator over new children.\<close>

lemma merging_iterates:
  assumes "iterates I (cmp_Compare C) N walks" "comparator_laws C"
  shows "iterates (MergingIterator I C) (cmp_Compare C) N (mg_at C N (wrapped I walks))"
  unfolding MergingIterator_def
  by (rule merging.merge_iterates) (rule merging.intro [OF iterates.wrapped_iterates [OF assms(1)] assms(2)])

lemma newMergingIterator_at:
  assumes I: "iterates I (cmp_Compare C) N walks" and "merge_ok C N own (length cs) es"
    "\<And>i. i < length cs \<Longrightarrow> walks (cs ! i) (part own i es) (pos i)"
  shows "mg_at C N (wrapped I walks) (newMergingIterator I cs) es None"
proof -
  have "wrapped I walks (wr_Set I (cs ! i)) (part own i es) (pos i)" if "i < length cs" for i
    unfolding wr_Set_def by (rule iterates.wrapped_Update [OF I]) (use assms(3) [OF that] in simp)
  then have "spread (wrapped I walks) own es (map (wr_Set I) cs) pos" by (simp add: spread_def)
  then show ?thesis using assms(2) by (auto simp: mg_at_def newMergingIterator_def intro!: exI [of _ own])
qed

interpretation bytewise_merging: merging
  "IteratorWrapper (MemTableIterator BytewiseComparator)" "InternalKeyComparator BytewiseComparator" "2 ^ 32"
  "wrapped (MemTableIterator BytewiseComparator) (mem_at BytewiseComparator)"
  by (rule merging.intro)
    (use iterates.wrapped_iterates [OF bytewise.mem_iterates] bytewise.internal_laws in \<open>simp_all add: InternalKeyComparator_def\<close>)

end
