(* ===== verification/LdbReads.thy ===== *)
theory LdbReads
  imports LdbDb LdbDBIterLaws LdbMergerLaws
begin

text \<open>
  The iterators of a database together (\<open>NewInternalIterator\<close> and \<open>NewIterator\<close> of
  db_impl.cc, \<open>NewMergingIterator\<close> of table/merger.cc, table/iterator.cc): the iterator of
  the database over the merge of the memtables and of whatever iterators the tables of the
  version give. An iterator of one of two kinds is a sum, a call of it goes to its kind.
\<close>

subsection \<open>The merge of several iterators\<close>

text \<open>None, one, or several children: three kinds of results.\<close>

definition NewMergingIterator :: "'s iterops \<Rightarrow> 's list \<Rightarrow> ldbstatus + 's + 's wrapper merger" where
  "NewMergingIterator I list =
     (case list of [] \<Rightarrow> Inl sOK | [c] \<Rightarrow> Inr (Inl c) | _ \<Rightarrow> Inr (Inr (newMergingIterator I list)))"

definition mergedOps :: "'s iterops \<Rightarrow> comparator \<Rightarrow> (ldbstatus + 's + 's wrapper merger) iterops" where
  "mergedOps I C = sumOps EmptyIterator (sumOps I (MergingIterator I C))"

definition mergedAt where
  "mergedAt I C N walks = sumAt emptyAt (sumAt walks (mg_at C N (wrapped I walks)))"

lemma merged_iterates:
  assumes "iterates I (cmp_Compare C) N walks" "comparator_laws C"
  shows "iterates (mergedOps I C) (cmp_Compare C) N (mergedAt I C N walks)"
  unfolding mergedOps_def mergedAt_def
  by (intro sum_iterates empty_iterates merging_iterates assms)

lemma NewMergingIterator_at:
  assumes I: "iterates I (cmp_Compare C) N walks" and ok: "merge_ok C N own (length cs) es"
    and cs: "\<And>i. i < length cs \<Longrightarrow> walks (cs ! i) (part own i es) None"
  shows "mergedAt I C N walks (NewMergingIterator I cs) es None"
proof -
  have several: "mg_at C N (wrapped I walks) (newMergingIterator I cs) es None"
    by (rule newMergingIterator_at [OF I ok, of "\<lambda>_. None"]) (rule cs)
  consider "cs = []" | c where "cs = [c]" | c d ds where "cs = c # d # ds" by (metis list.exhaust)
  then show ?thesis
  proof cases
    case 1
    then show ?thesis using ok by (cases es) (auto simp: NewMergingIterator_def mergedAt_def emptyAt_def merge_ok_def)
  next
    case (2 c)
    then have "filter (\<lambda>m. own m = 0) [0..<length es] = [0..<length es]"
      using ok by (intro filter_True) (simp add: merge_ok_def)
    then have "part own 0 es = es" by (simp add: chosen_def map_nth)
    then show ?thesis using cs [of 0] 2 by (simp add: NewMergingIterator_def mergedAt_def)
  next
    case 3
    then show ?thesis using several by (simp add: NewMergingIterator_def mergedAt_def)
  qed
qed

subsection \<open>The iterator of a database\<close>

type_synonym 't dbchild = "memtable \<times> nat option + 't"

text \<open>\<open>tables\<close> are the iterators that the version adds, \<open>T\<close> their operations.\<close>

definition internalOps :: "comparator \<Rightarrow> 't iterops \<Rightarrow> (ldbstatus + 't dbchild + 't dbchild wrapper merger) iterops" where
  "internalOps C T = mergedOps (sumOps (MemTableIterator C) T) (InternalKeyComparator C)"

definition NewInternalIterator ::
  "comparator \<Rightarrow> 't iterops \<Rightarrow> 't list \<Rightarrow> ldb \<Rightarrow> (ldbstatus + 't dbchild + 't dbchild wrapper merger) \<times> 64 word" where
  "NewInternalIterator C T tables db =
     (let list = Inl (db_mem db, None) # (case db_imm db of None \<Rightarrow> [] | Some imm \<Rightarrow> [Inl (imm, None)]) @ map Inr tables
      in (NewMergingIterator (sumOps (MemTableIterator C) T) list, db_last_sequence db))"

definition NewIterator ::
  "comparator \<Rightarrow> 't iterops \<Rightarrow> 't list \<Rightarrow> 64 word option \<Rightarrow> ldb \<Rightarrow> (ldbstatus + 't dbchild + 't dbchild wrapper merger) dbiter" where
  "NewIterator C T tables snapshot db =
     (let (iter, latest_snapshot) = NewInternalIterator C T tables db
      in newDBIter iter (case snapshot of Some s \<Rightarrow> s | None \<Rightarrow> latest_snapshot))"

subsection \<open>What it shows\<close>

lemma chosen_map: "chosen P (map f l) = map f (chosen P l)"
  by (simp add: chosen_def cong: map_cong)

lemma find_head: "List.find P xs = (case filter P xs of [] \<Rightarrow> None | x # _ \<Rightarrow> Some x)"
  by (induction xs) auto

lemma visible_find: "visible C l s k = List.find (\<lambda>e. cmp_Compare C (e_key e) k = 0 \<and> e_seq e \<le> s) l"
  by (simp add: visible_def find_head)

context comparator_laws
begin

lemma userEntries_sorted:
  assumes "entries_ok C l"
  shows "sorted_wrt (\<lambda>a b. cmp_Compare C (fst a) (fst b) < 0) (userEntries C s l)"
proof -
  have "sorted_wrt (\<lambda>i j. cmp_Compare C (e_key (l ! i)) (e_key (l ! j)) < 0) (filter (shown C s l) [0..<n])" for n
  proof (induction n)
    case (Suc n)
    have "cmp_Compare C (e_key (l ! x)) (e_key (l ! n)) < 0" if "shown C s l x" "x < n" "shown C s l n" for x
      using shown_hides [OF assms _ that(2,3)] that(1) unfolding shown_def by blast
    then show ?case using Suc by (auto simp: sorted_wrt_append)
  qed simp
  then show ?thesis by (simp add: userEntries_def sorted_wrt_map shownPair_def)
qed

text \<open>A key and a value are shown when the newest visible entry of the key is that value.\<close>

lemma userEntries_visible:
  "(k, v) \<in> set (userEntries C s l) \<longleftrightarrow>
     (\<exists>e. visible C l s k = Some e \<and> e_type e = kTypeValue \<and> e_key e = k \<and> e_value e = v)"
proof
  assume "(k, v) \<in> set (userEntries C s l)"
  then obtain m where m: "shown C s l m" "k = e_key (l ! m)" "v = e_value (l ! m)"
    by (auto simp: userEntries_def shownPair_def)
  then have "visible C l s k = Some (l ! m)"
    by (auto simp: visible_find find_Some_iff shown_def linorder_not_le intro!: exI [of _ m])
  then show "\<exists>e. visible C l s k = Some e \<and> e_type e = kTypeValue \<and> e_key e = k \<and> e_value e = v"
    using m by (auto simp: shown_def)
next
  assume "\<exists>e. visible C l s k = Some e \<and> e_type e = kTypeValue \<and> e_key e = k \<and> e_value e = v"
  then obtain m where m: "m < length l" "e_seq (l ! m) \<le> s" "e_type (l ! m) = kTypeValue" "e_key (l ! m) = k" "e_value (l ! m) = v"
    "\<forall>j < m. \<not> (cmp_Compare C (e_key (l ! j)) k = 0 \<and> e_seq (l ! j) \<le> s)"
    by (auto simp: visible_find find_Some_iff)
  then have "shown C s l m" by (auto simp: shown_def linorder_not_le)
  then show "(k, v) \<in> set (userEntries C s l)"
    using m by (auto simp: userEntries_def shownPair_def image_iff intro!: bexI [of _ m])
qed

end

text \<open>
  The database holds the entries \<open>l\<close>: \<open>own m\<close> is the source of the entry \<open>m\<close>, the memtable,
  the one being compacted, or an iterator of the tables.
\<close>

definition db_holds ::
  "comparator \<Rightarrow> ('t \<Rightarrow> (bytes \<times> bytes) list \<Rightarrow> nat option \<Rightarrow> bool) \<Rightarrow> 't list \<Rightarrow> (nat \<Rightarrow> nat) \<Rightarrow> entry list \<Rightarrow> ldb \<Rightarrow> bool" where
  "db_holds C tw tables own l db \<longleftrightarrow>
     (let k = (if db_imm db = None then 1 else 2)
      in entries_ok C l \<and> (\<forall>e \<in> set l. small e) \<and> (\<forall>m < length l. own m < k + length tables) \<and>
         mem_holds C (db_mem db) (part own 0 l) \<and>
         (case db_imm db of None \<Rightarrow> True | Some imm \<Rightarrow> mem_holds C imm (part own 1 l)) \<and>
         (\<forall>i < length tables. tw (tables ! i) (map entryPair (part own (k + i) l)) None))"

abbreviation childAt where
  "childAt C tw \<equiv> sumAt (mem_at C) tw"

abbreviation internalAt where
  "internalAt C T tw \<equiv> mergedAt (sumOps (MemTableIterator C) T) (InternalKeyComparator C) (2 ^ 32) (childAt C tw)"

context comparator_laws
begin

lemma NewInternalIterator_at:
  assumes T: "iterates T (internal_Compare C) (2 ^ 32) tw" and db: "db_holds C tw tables own l db"
  shows "internalAt C T tw (fst (NewInternalIterator C T tables db)) (map entryPair l) None"
proof -
  let ?list = "Inl (db_mem db, None) # (case db_imm db of None \<Rightarrow> [] | Some imm \<Rightarrow> [Inl (imm, None)]) @ map Inr tables"
  let ?k = "if db_imm db = None then 1 else 2 :: nat"
  have cmp: "cmp_Compare (InternalKeyComparator C) = internal_Compare C" by (simp add: InternalKeyComparator_def)
  have d: "entries_ok C l" "\<forall>e \<in> set l. small e" "\<forall>m < length l. own m < ?k + length tables"
    "mem_holds C (db_mem db) (part own 0 l)" "\<And>imm. db_imm db = Some imm \<Longrightarrow> mem_holds C imm (part own 1 l)"
    "\<And>i. i < length tables \<Longrightarrow> tw (tables ! i) (map entryPair (part own (?k + i) l)) None"
    using db by (auto simp: db_holds_def Let_def split: if_splits)
  have ok: "merge_ok (InternalKeyComparator C) (2 ^ 32) own (length ?list) (map entryPair l)"
    using d(1-3) by (auto simp: merge_ok_def cmp sorted_wrt_map entries_ok_def small_def InternalKey_bytes split: option.splits)
  have "childAt C tw (?list ! i) (part own i (map entryPair l)) None" if "i < length ?list" for i
  proof -
    consider "i = 0" | imm where "i = 1" "db_imm db = Some imm" | j where "i = ?k + j" "j < length tables"
    proof (cases "i < ?k")
      case True
      then show ?thesis using that by (cases "db_imm db") (auto simp: less_2_cases_iff)
    next
      case False
      then obtain j where "i = ?k + j" by (metis le_add_diff_inverse linorder_not_less)
      then show ?thesis using that \<open>i < length ?list\<close> by (cases "db_imm db") auto
    qed
    then show ?thesis
    proof cases
      case 1
      then show ?thesis using mem_at_new [OF d(4)] by (simp add: chosen_map)
    next
      case 2
      then show ?thesis using mem_at_new [OF d(5) [OF 2(2)]] by (simp add: chosen_map)
    next
      case 3
      then show ?thesis using d(6) [OF 3(2)] by (cases "db_imm db") (auto simp: chosen_map numeral_2_eq_2)
    qed
  qed
  moreover have "iterates (sumOps (MemTableIterator C) T) (cmp_Compare (InternalKeyComparator C)) (2 ^ 32) (childAt C tw)"
    unfolding cmp by (rule sum_iterates [OF mem_iterates T])
  ultimately show ?thesis
    unfolding NewInternalIterator_def Let_def fst_conv by (intro NewMergingIterator_at [OF _ ok])
qed

lemma internal_iterates:
  assumes "iterates T (internal_Compare C) (2 ^ 32) tw"
  shows "iterates (internalOps C T) (internal_Compare C) (2 ^ 32) (internalAt C T tw)"
  using merged_iterates [of "sumOps (MemTableIterator C) T" "InternalKeyComparator C" "2 ^ 32" "childAt C tw"]
    sum_iterates [OF mem_iterates assms] internal_laws
  by (simp add: internalOps_def InternalKeyComparator_def)

lemma NewIterator_walks:
  assumes "iterates T (internal_Compare C) (2 ^ 32) tw" "db_holds C tw tables own l db"
    and s: "s = (case snapshot of Some s \<Rightarrow> s | None \<Rightarrow> db_last_sequence db)" "s \<le> kMaxSequenceNumber"
  shows "iterates (DBIter (internalOps C T) C) (cmp_Compare C) (2 ^ 32 - 8) (dbAt C (internalAt C T tw))"
    "dbAt C (internalAt C T tw) (NewIterator C T tables snapshot db) (userEntries C s l) None"
proof -
  have "dbiter (internalOps C T) (2 ^ 32) (internalAt C T tw) C"
    by (intro dbiter.intro internal_iterates assms(1) comparator_laws_axioms)
  from dbiter.axioms(1) [OF this] dbiter.user_iterates [OF this]
  show "iterates (DBIter (internalOps C T) C) (cmp_Compare C) (2 ^ 32 - 8) (dbAt C (internalAt C T tw))" by simp
  have "entries_ok C l" using assms(2) by (simp add: db_holds_def Let_def)
  then show "dbAt C (internalAt C T tw) (NewIterator C T tables snapshot db) (userEntries C s l) None"
    using newDBIter_db [where walks = "internalAt C T tw", OF _ s(2) NewInternalIterator_at [OF assms(1,2)]] s(1)
    by (simp add: NewIterator_def NewInternalIterator_def Let_def)
qed

end

end
