(* ===== verification/LdbTwoLevel.thy ===== *)
theory LdbTwoLevel
  imports LdbMerger
begin

text \<open>
  leveldb/table/two_level_iterator.cc: an iterator over the entries of the blocks that the
  values of an index iterator name. \<open>bf\<close> is the block function with its argument: it makes
  the iterator of a block. The data iterator is \<open>None\<close> where the source has NULL. When both
  iterators keep the contract, so does this one, for the entries of all blocks.
\<close>

subsection \<open>The operations\<close>

record ('i, 'd) twolevel =
  tl_status :: ldbstatus
  tl_index :: 'i
  tl_data :: "'d option"
  tl_handle :: bytes

definition SaveError :: "ldbstatus \<Rightarrow> ('i, 'd) twolevel \<Rightarrow> ('i, 'd) twolevel" where
  "SaveError s st = (if tl_status st = sOK \<and> s \<noteq> sOK then st\<lparr>tl_status := s\<rparr> else st)"

definition SetDataIterator :: "'d iterops \<Rightarrow> 'd option \<Rightarrow> ('i, 'd) twolevel \<Rightarrow> ('i, 'd) twolevel" where
  "SetDataIterator D data_iter st =
     (case tl_data st of None \<Rightarrow> st | Some d \<Rightarrow> SaveError (i_status D d) st)\<lparr>tl_data := data_iter\<rparr>"

definition InitDataBlock :: "'i iterops \<Rightarrow> 'd iterops \<Rightarrow> (bytes \<Rightarrow> 'd) \<Rightarrow> ('i, 'd) twolevel \<Rightarrow> ('i, 'd) twolevel" where
  "InitDataBlock I D bf st =
     (if \<not> i_Valid I (tl_index st) then SetDataIterator D None st
      else
        (let handle = i_value I (tl_index st)
         in if tl_data st \<noteq> None \<and> slice_compare handle (tl_handle st) = 0 then st
            else SetDataIterator D (Some (bf handle)) (st\<lparr>tl_handle := handle\<rparr>)))"

text \<open>A call of the data iterator, if there is one.\<close>

definition callData :: "('d \<Rightarrow> 'd option) \<Rightarrow> ('i, 'd) twolevel \<Rightarrow> ('i, 'd) twolevel option" where
  "callData f st = (case tl_data st of None \<Rightarrow> Some st | Some d \<Rightarrow> map_option (\<lambda>d. st\<lparr>tl_data := Some d\<rparr>) (f d))"

definition tl_Valid :: "'d iterops \<Rightarrow> ('i, 'd) twolevel \<Rightarrow> bool" where
  "tl_Valid D st = (case tl_data st of None \<Rightarrow> False | Some d \<Rightarrow> i_Valid D d)"

partial_function (option) SkipEmptyDataBlocksForward ::
  "'i iterops \<Rightarrow> 'd iterops \<Rightarrow> (bytes \<Rightarrow> 'd) \<Rightarrow> ('i, 'd) twolevel \<Rightarrow> ('i, 'd) twolevel option" where
  "SkipEmptyDataBlocksForward I D bf st =
     (if tl_Valid D st then Some st
      else if \<not> i_Valid I (tl_index st) then Some (SetDataIterator D None st)
      else
        Option.bind (i_Next I (tl_index st)) (\<lambda>i.
        Option.bind (callData (i_SeekToFirst D) (InitDataBlock I D bf (st\<lparr>tl_index := i\<rparr>))) (\<lambda>st'.
          SkipEmptyDataBlocksForward I D bf st')))"

partial_function (option) SkipEmptyDataBlocksBackward ::
  "'i iterops \<Rightarrow> 'd iterops \<Rightarrow> (bytes \<Rightarrow> 'd) \<Rightarrow> ('i, 'd) twolevel \<Rightarrow> ('i, 'd) twolevel option" where
  "SkipEmptyDataBlocksBackward I D bf st =
     (if tl_Valid D st then Some st
      else if \<not> i_Valid I (tl_index st) then Some (SetDataIterator D None st)
      else
        Option.bind (i_Prev I (tl_index st)) (\<lambda>i.
        Option.bind (callData (i_SeekToLast D) (InitDataBlock I D bf (st\<lparr>tl_index := i\<rparr>))) (\<lambda>st'.
          SkipEmptyDataBlocksBackward I D bf st')))"

definition tl_Seek :: "'i iterops \<Rightarrow> 'd iterops \<Rightarrow> (bytes \<Rightarrow> 'd) \<Rightarrow> bytes \<Rightarrow> ('i, 'd) twolevel \<Rightarrow> ('i, 'd) twolevel option" where
  "tl_Seek I D bf target st =
     Option.bind (i_Seek I target (tl_index st)) (\<lambda>i.
     Option.bind (callData (i_Seek D target) (InitDataBlock I D bf (st\<lparr>tl_index := i\<rparr>))) (SkipEmptyDataBlocksForward I D bf))"

definition tl_SeekToFirst :: "'i iterops \<Rightarrow> 'd iterops \<Rightarrow> (bytes \<Rightarrow> 'd) \<Rightarrow> ('i, 'd) twolevel \<Rightarrow> ('i, 'd) twolevel option" where
  "tl_SeekToFirst I D bf st =
     Option.bind (i_SeekToFirst I (tl_index st)) (\<lambda>i.
     Option.bind (callData (i_SeekToFirst D) (InitDataBlock I D bf (st\<lparr>tl_index := i\<rparr>))) (SkipEmptyDataBlocksForward I D bf))"

definition tl_SeekToLast :: "'i iterops \<Rightarrow> 'd iterops \<Rightarrow> (bytes \<Rightarrow> 'd) \<Rightarrow> ('i, 'd) twolevel \<Rightarrow> ('i, 'd) twolevel option" where
  "tl_SeekToLast I D bf st =
     Option.bind (i_SeekToLast I (tl_index st)) (\<lambda>i.
     Option.bind (callData (i_SeekToLast D) (InitDataBlock I D bf (st\<lparr>tl_index := i\<rparr>))) (SkipEmptyDataBlocksBackward I D bf))"

definition tl_Next :: "'i iterops \<Rightarrow> 'd iterops \<Rightarrow> (bytes \<Rightarrow> 'd) \<Rightarrow> ('i, 'd) twolevel \<Rightarrow> ('i, 'd) twolevel option" where
  "tl_Next I D bf st =
     (case tl_data st of
        None \<Rightarrow> None
      | Some d \<Rightarrow> Option.bind (i_Next D d) (\<lambda>d. SkipEmptyDataBlocksForward I D bf (st\<lparr>tl_data := Some d\<rparr>)))"

definition tl_Prev :: "'i iterops \<Rightarrow> 'd iterops \<Rightarrow> (bytes \<Rightarrow> 'd) \<Rightarrow> ('i, 'd) twolevel \<Rightarrow> ('i, 'd) twolevel option" where
  "tl_Prev I D bf st =
     (case tl_data st of
        None \<Rightarrow> None
      | Some d \<Rightarrow> Option.bind (i_Prev D d) (\<lambda>d. SkipEmptyDataBlocksBackward I D bf (st\<lparr>tl_data := Some d\<rparr>)))"

definition tl_statusOf :: "'i iterops \<Rightarrow> 'd iterops \<Rightarrow> ('i, 'd) twolevel \<Rightarrow> ldbstatus" where
  "tl_statusOf I D st =
     (if i_status I (tl_index st) \<noteq> sOK then i_status I (tl_index st)
      else case tl_data st of
             None \<Rightarrow> tl_status st
           | Some d \<Rightarrow> if i_status D d \<noteq> sOK then i_status D d else tl_status st)"

definition twoLevelOps :: "'i iterops \<Rightarrow> 'd iterops \<Rightarrow> (bytes \<Rightarrow> 'd) \<Rightarrow> ('i, 'd) twolevel iterops" where
  "twoLevelOps I D bf =
     \<lparr>i_Valid = tl_Valid D, i_SeekToFirst = tl_SeekToFirst I D bf, i_SeekToLast = tl_SeekToLast I D bf,
      i_Seek = tl_Seek I D bf, i_Next = tl_Next I D bf, i_Prev = tl_Prev I D bf,
      i_key = (\<lambda>st. case tl_data st of None \<Rightarrow> [] | Some d \<Rightarrow> i_key D d),
      i_value = (\<lambda>st. case tl_data st of None \<Rightarrow> [] | Some d \<Rightarrow> i_value D d),
      i_status = tl_statusOf I D\<rparr>"

text \<open>Both iterators are in wrappers.\<close>

definition TwoLevelIterator :: "'i iterops \<Rightarrow> 'd iterops \<Rightarrow> (bytes \<Rightarrow> 'd) \<Rightarrow> ('i wrapper, 'd wrapper) twolevel iterops" where
  "TwoLevelIterator I D bf = twoLevelOps (IteratorWrapper I) (IteratorWrapper D) (\<lambda>h. wr_Set D (bf h))"

definition NewTwoLevelIterator :: "'i iterops \<Rightarrow> 'i \<Rightarrow> ('i wrapper, 'd wrapper) twolevel" where
  "NewTwoLevelIterator I index_iter = \<lparr>tl_status = sOK, tl_index = wr_Set I index_iter, tl_data = None, tl_handle = []\<rparr>"

subsection \<open>The entries of the blocks\<close>

text \<open>\<open>content h\<close> are the entries of the block with the handle \<open>h\<close>.\<close>

definition blockOf :: "(bytes \<Rightarrow> 'e list) \<Rightarrow> (bytes \<times> bytes) list \<Rightarrow> nat \<Rightarrow> 'e list" where
  "blockOf content ixs j = content (snd (ixs ! j))"

definition startOf :: "(bytes \<Rightarrow> 'e list) \<Rightarrow> (bytes \<times> bytes) list \<Rightarrow> nat \<Rightarrow> nat" where
  "startOf content ixs j = length (concat (map (\<lambda>x. content (snd x)) (take j ixs)))"

definition layered :: "(bytes \<Rightarrow> bytes \<Rightarrow> int) \<Rightarrow> (bytes \<Rightarrow> (bytes \<times> bytes) list) \<Rightarrow> (bytes \<times> bytes) list \<Rightarrow>
    (bytes \<times> bytes) list \<Rightarrow> bool" where
  "layered cmp content ixs es \<longleftrightarrow>
     es = concat (map (\<lambda>x. content (snd x)) ixs) \<and>
     (\<forall>j < length ixs. \<forall>e \<in> set (blockOf content ixs j). cmp (fst e) (fst (ixs ! j)) \<le> 0) \<and>
     (\<forall>j < length ixs. \<forall>i < j. \<forall>e \<in> set (blockOf content ixs j). cmp (fst (ixs ! i)) (fst e) < 0)"

lemma concat_split:
  assumes "j < length ixs"
  shows "concat (map (\<lambda>x. content (snd x)) ixs) =
    concat (map (\<lambda>x. content (snd x)) (take j ixs)) @ blockOf content ixs j @
    concat (map (\<lambda>x. content (snd x)) (drop (Suc j) ixs))"
proof -
  have "ixs = take j ixs @ ixs ! j # drop (Suc j) ixs" using assms by (rule id_take_nth_drop)
  then show ?thesis unfolding blockOf_def by (metis concat.simps(2) concat_append list.simps(9) map_append)
qed

lemma startOf_simps [simp]:
  "startOf content ixs 0 = 0"
  "j < length ixs \<Longrightarrow> startOf content ixs (Suc j) = startOf content ixs j + length (blockOf content ixs j)"
  by (simp_all add: startOf_def blockOf_def take_Suc_conv_app_nth)

lemma startOf_end: "layered cmp content ixs es \<Longrightarrow> startOf content ixs (length ixs) = length es"
  by (simp add: layered_def startOf_def)

lemma layered_nth:
  assumes "layered cmp content ixs es" "j < length ixs" "i < length (blockOf content ixs j)"
  shows "startOf content ixs j + i < length es" "es ! (startOf content ixs j + i) = blockOf content ixs j ! i"
proof -
  have es: "es = concat (map (\<lambda>x. content (snd x)) (take j ixs)) @ blockOf content ixs j @
      concat (map (\<lambda>x. content (snd x)) (drop (Suc j) ixs))"
    using assms(1) concat_split [OF assms(2), of content] by (simp add: layered_def)
  show "startOf content ixs j + i < length es" "es ! (startOf content ixs j + i) = blockOf content ixs j ! i"
    unfolding es using assms(3) by (simp_all add: startOf_def nth_append)
qed

lemma in_blocks: "e \<in> set (concat (map (\<lambda>x. content (snd x)) ixs)) \<Longrightarrow> \<exists>j < length ixs. e \<in> set (blockOf content ixs j)"
  by (auto simp: blockOf_def in_set_conv_nth) (metis nth_mem in_set_conv_nth snd_conv)

lemma takeWhile_none: "(\<And>x. x \<in> set xs \<Longrightarrow> \<not> P x) \<Longrightarrow> takeWhile P xs = []"
  by (cases xs) auto

text \<open>How many entries are before a target: those of the blocks before, and some of its block.\<close>

lemma countBefore_layered:
  assumes ord: "ordering cmp" and l: "layered cmp content ixs es"
    and c_def: "c = countBefore cmp k ixs"
  shows "countBefore cmp k es = startOf content ixs c + (if c < length ixs then countBefore cmp k (blockOf content ixs c) else 0)"
proof -
  let ?P = "\<lambda>e. cmp (fst e) k < 0"
  let ?A = "concat (map (\<lambda>x. content (snd x)) (take c ixs))" and ?C = "concat (map (\<lambda>x. content (snd x)) (drop (Suc c) ixs))"
  have cl: "c \<le> length ixs" unfolding c_def by (rule countBefore_le)
  have A: "?P e" if e: "e \<in> set ?A" for e
  proof -
    obtain j where j: "j < length (take c ixs)" "e \<in> set (blockOf content (take c ixs) j)" using in_blocks [OF e] by blast
    then have "j < c" "e \<in> set (blockOf content ixs j)" by (simp_all add: blockOf_def)
    then have "cmp (fst e) (fst (ixs ! j)) \<le> 0" "cmp (fst (ixs ! j)) k < 0"
      using l cl countBefore_nth [of j cmp k ixs] unfolding c_def layered_def by simp_all
    then show ?thesis by (rule ordering.le_less_trans [OF ord])
  qed
  show ?thesis
  proof (cases "c < length ixs")
    case False
    then have "es = ?A" using l cl by (simp add: layered_def)
    then have "takeWhile ?P es = ?A" using A by (simp only: takeWhile_eq_all_conv) blast
    then show ?thesis using False by (simp only: countBefore_def startOf_def if_False add_0_right)
  next
    case True
    have es: "es = ?A @ blockOf content ixs c @ ?C" using l concat_split [OF True, of content] by (simp add: layered_def)
    have "\<not> ?P e" if e: "e \<in> set ?C" for e
    proof
      assume before: "?P e"
      obtain j where j: "j < length (drop (Suc c) ixs)" "e \<in> set (blockOf content (drop (Suc c) ixs) j)" using in_blocks [OF e] by blast
      then have "Suc c + j < length ixs" "e \<in> set (blockOf content ixs (Suc c + j))" by (simp_all add: blockOf_def)
      moreover have "c < Suc c + j" by simp
      ultimately have "cmp (fst (ixs ! c)) (fst e) < 0" using l unfolding layered_def by blast
      then have "cmp (fst (ixs ! c)) k < 0" using ordering.less_trans [OF ord] before by (meson less_imp_le)
      then show False using countBefore_end [of cmp k ixs] True unfolding c_def by simp
    qed
    then have "takeWhile ?P ?C = []" by (rule takeWhile_none)
    moreover have "takeWhile ?P (xs @ ?C) = takeWhile ?P xs" if "takeWhile ?P ?C = []" for xs
      using that by (induction xs) auto
    moreover have "takeWhile ?P es = ?A @ takeWhile ?P (blockOf content ixs c @ ?C)"
      unfolding es by (rule takeWhile_append2) (rule A)
    ultimately show ?thesis using True by (simp add: countBefore_def startOf_def)
  qed
qed

subsection \<open>It keeps the contract\<close>

locale two_level = idx: iterates I cmp N iw + dat: iterates D cmp N dw
  for I :: "'i iterops" and cmp :: "bytes \<Rightarrow> bytes \<Rightarrow> int" and N :: nat
    and iw :: "'i \<Rightarrow> (bytes \<times> bytes) list \<Rightarrow> nat option \<Rightarrow> bool"
    and D :: "'d iterops" and dw :: "'d \<Rightarrow> (bytes \<times> bytes) list \<Rightarrow> nat option \<Rightarrow> bool" +
  fixes bf :: "bytes \<Rightarrow> 'd" and content :: "bytes \<Rightarrow> (bytes \<times> bytes) list"
  assumes order: "ordering cmp"
begin

text \<open>What always holds of a state over an index \<open>ixs\<close>; and the state at the block \<open>j\<close>.\<close>

definition over :: "(bytes \<times> bytes) list \<Rightarrow> ('i, 'd) twolevel \<Rightarrow> bool" where
  "over ixs st \<longleftrightarrow> (\<forall>x \<in> set ixs. \<exists>q. dw (bf (snd x)) (content (snd x)) q) \<and> tl_status st = sOK \<and>
     (\<forall>d. tl_data st = Some d \<longrightarrow> (\<exists>q. dw d (content (tl_handle st)) q))"

definition placed :: "(bytes \<times> bytes) list \<Rightarrow> ('i, 'd) twolevel \<Rightarrow> nat \<Rightarrow> nat option \<Rightarrow> bool" where
  "placed ixs st j q \<longleftrightarrow> over ixs st \<and> j < length ixs \<and> iw (tl_index st) ixs (Some j) \<and> tl_handle st = snd (ixs ! j) \<and>
     (\<exists>d. tl_data st = Some d \<and> dw d (blockOf content ixs j) q)"

definition tl_at :: "('i, 'd) twolevel \<Rightarrow> (bytes \<times> bytes) list \<Rightarrow> nat option \<Rightarrow> bool" where
  "tl_at st es p \<longleftrightarrow> (\<exists>ixs. layered cmp content ixs es \<and> over ixs st \<and> (\<exists>q. iw (tl_index st) ixs q) \<and>
     (case p of
        None \<Rightarrow> tl_data st = None
      | Some g \<Rightarrow> \<exists>j i. placed ixs st j (Some i) \<and> g = startOf content ixs j + i))"

lemma SetDataIterator_over:
  assumes "over ixs st" "\<And>d. data_iter = Some d \<Longrightarrow> \<exists>q. dw d (content (tl_handle st)) q"
  shows "over ixs (SetDataIterator D data_iter st)" "SetDataIterator D data_iter st = st\<lparr>tl_data := data_iter\<rparr>"
proof -
  show e: "SetDataIterator D data_iter st = st\<lparr>tl_data := data_iter\<rparr>"
    using assms(1) dat.at_status by (fastforce simp: SetDataIterator_def SaveError_def over_def split: option.splits)
  show "over ixs (SetDataIterator D data_iter st)" unfolding e using assms by (simp add: over_def)
qed

lemma InitDataBlock_end:
  assumes "over ixs st" "iw i ixs None"
  shows "InitDataBlock I D bf (st\<lparr>tl_index := i\<rparr>) = st\<lparr>tl_index := i, tl_data := None\<rparr>"
    "over ixs (st\<lparr>tl_index := i, tl_data := None\<rparr>)"
proof -
  have "over ixs (st\<lparr>tl_index := i\<rparr>)" using assms(1) by (simp add: over_def)
  then show "InitDataBlock I D bf (st\<lparr>tl_index := i\<rparr>) = st\<lparr>tl_index := i, tl_data := None\<rparr>"
    using idx.at_valid [OF assms(2)] SetDataIterator_over(2) [of ixs "st\<lparr>tl_index := i\<rparr>" None] by (simp add: InitDataBlock_def)
  show "over ixs (st\<lparr>tl_index := i, tl_data := None\<rparr>)" using assms(1) by (simp add: over_def)
qed

lemma InitDataBlock_placed:
  assumes o: "over ixs st" and i: "iw i ixs (Some j)"
  shows "\<exists>q. placed ixs (InitDataBlock I D bf (st\<lparr>tl_index := i\<rparr>)) j q"
proof -
  let ?st = "st\<lparr>tl_index := i\<rparr>" and ?h = "snd (ixs ! j)"
  have v: "i_Valid I i" "i_value I i = ?h" "j < length ixs" using idx.at_valid [OF i] idx.at_value [OF i] idx.at_range [OF i] by simp_all
  have o': "over ixs ?st" using o by (simp add: over_def)
  show ?thesis
  proof (cases "tl_data st \<noteq> None \<and> ?h = tl_handle st")
    case True
    then obtain d q where "tl_data st = Some d" "dw d (content ?h) q" using o by (auto simp: over_def)
    then have "placed ixs ?st j q" using o' i v True by (simp add: placed_def blockOf_def)
    moreover have "InitDataBlock I D bf ?st = ?st" using True v by (simp add: InitDataBlock_def slice_compare_order)
    ultimately show ?thesis by auto
  next
    case False
    obtain q where q: "dw (bf ?h) (content ?h) q" using o nth_mem [OF v(3)] unfolding over_def by blast
    have "over ixs (?st\<lparr>tl_handle := ?h, tl_data := Some (bf ?h)\<rparr>)" using o q by (auto simp: over_def)
    moreover have "SetDataIterator D (Some (bf ?h)) (?st\<lparr>tl_handle := ?h\<rparr>) = ?st\<lparr>tl_handle := ?h, tl_data := Some (bf ?h)\<rparr>"
      using o dat.at_status by (fastforce simp: SetDataIterator_def SaveError_def over_def split: option.splits)
    moreover have "InitDataBlock I D bf ?st = SetDataIterator D (Some (bf ?h)) (?st\<lparr>tl_handle := ?h\<rparr>)"
      using False v by (auto simp: InitDataBlock_def slice_compare_order Let_def)
    ultimately have "placed ixs (InitDataBlock I D bf ?st) j q" using i v(3) q by (simp add: placed_def blockOf_def)
    then show ?thesis by blast
  qed
qed

lemma callData_placed:
  assumes "placed ixs st j q" "\<And>d. dw d (blockOf content ixs j) q \<Longrightarrow> \<exists>d'. f d = Some d' \<and> dw d' (blockOf content ixs j) q'"
  shows "\<exists>st'. callData f st = Some st' \<and> placed ixs st' j q'"
proof -
  obtain d where d: "tl_data st = Some d" "dw d (blockOf content ixs j) q" using assms(1) by (auto simp: placed_def)
  obtain d' where "f d = Some d'" "dw d' (blockOf content ixs j) q'" using assms(2) [OF d(2)] by blast
  then show ?thesis using assms(1) d(1) by (auto simp: callData_def placed_def over_def blockOf_def)
qed

lemma callData_first:
  "placed ixs st j q \<Longrightarrow> \<exists>st'. callData (i_SeekToFirst D) st = Some st' \<and> placed ixs st' j (atPos 0 (blockOf content ixs j))"
  by (rule callData_placed, assumption, rule dat.seek_first)

lemma callData_last:
  "placed ixs st j q \<Longrightarrow>
    \<exists>st'. callData (i_SeekToLast D) st = Some st' \<and> placed ixs st' j (beforePos (length (blockOf content ixs j)))"
  by (rule callData_placed, assumption, rule dat.seek_last)

lemma callData_seek:
  "placed ixs st j q \<Longrightarrow> length k < N \<Longrightarrow>
    \<exists>st'. callData (i_Seek D k) st = Some st' \<and>
      placed ixs st' j (atPos (countBefore cmp k (blockOf content ixs j)) (blockOf content ixs j))"
  by (rule callData_placed, assumption, rule dat.seek)

text \<open>The loops that skip the empty blocks.\<close>

lemma Forward_end:
  assumes "layered cmp content ixs es" "over ixs st" "iw (tl_index st) ixs None" "tl_data st = None"
  shows "\<exists>st'. SkipEmptyDataBlocksForward I D bf st = Some st' \<and> tl_at st' es None"
proof -
  have "SkipEmptyDataBlocksForward I D bf st = Some st"
    using idx.at_valid [OF assms(3)] assms(4) by (subst SkipEmptyDataBlocksForward.simps) (simp add: tl_Valid_def SetDataIterator_def)
  then show ?thesis using assms by (auto simp: tl_at_def)
qed

lemma Backward_end:
  assumes "layered cmp content ixs es" "over ixs st" "iw (tl_index st) ixs None" "tl_data st = None"
  shows "\<exists>st'. SkipEmptyDataBlocksBackward I D bf st = Some st' \<and> tl_at st' es None"
proof -
  have "SkipEmptyDataBlocksBackward I D bf st = Some st"
    using idx.at_valid [OF assms(3)] assms(4) by (subst SkipEmptyDataBlocksBackward.simps) (simp add: tl_Valid_def SetDataIterator_def)
  then show ?thesis using assms by (auto simp: tl_at_def)
qed

lemma placed_valid: "placed ixs st j q \<Longrightarrow> tl_Valid D st \<longleftrightarrow> q \<noteq> None"
  using dat.at_valid by (auto simp: placed_def tl_Valid_def)

lemma placed_at:
  "layered cmp content ixs es \<Longrightarrow> placed ixs st j (Some i) \<Longrightarrow> tl_at st es (Some (startOf content ixs j + i))"
  by (auto simp: tl_at_def placed_def)

lemma Forward_placed:
  assumes l: "layered cmp content ixs es" and "placed ixs st j (atPos i (blockOf content ixs j))" "i \<le> length (blockOf content ixs j)"
  shows "\<exists>st'. SkipEmptyDataBlocksForward I D bf st = Some st' \<and> tl_at st' es (atPos (startOf content ixs j + i) es)"
  using assms(2,3)
proof (induction "length ixs - j" arbitrary: st j i rule: less_induct)
  case less
  let ?b = "blockOf content ixs j"
  have j: "j < length ixs" and o: "over ixs st" and ix: "iw (tl_index st) ixs (Some j)" using less.prems(1) by (simp_all add: placed_def)
  show ?case
  proof (cases "i < length ?b")
    case True
    then have p: "placed ixs st j (Some i)" using less.prems(1) by (simp add: atPos_def)
    have "SkipEmptyDataBlocksForward I D bf st = Some st" using placed_valid [OF p] by (subst SkipEmptyDataBlocksForward.simps) simp
    then show ?thesis using placed_at [OF l p] layered_nth(1) [OF l j True] by (simp add: atPos_def)
  next
    case False
    then have i: "i = length ?b" and none: "atPos i ?b = None" using less.prems(2) by simp_all
    have st: "\<not> tl_Valid D st" "i_Valid I (tl_index st)" using placed_valid [OF less.prems(1)] none idx.at_valid [OF ix] by simp_all
    obtain i' where i': "i_Next I (tl_index st) = Some i'" "iw i' ixs (atPos (Suc j) ixs)" using idx.next_at [OF ix] by blast
    have start: "startOf content ixs j + i = startOf content ixs (Suc j)" using j i by simp
    let ?st = "InitDataBlock I D bf (st\<lparr>tl_index := i'\<rparr>)"
    have unfold: "SkipEmptyDataBlocksForward I D bf st = Option.bind (callData (i_SeekToFirst D) ?st) (SkipEmptyDataBlocksForward I D bf)"
      using st i'(1) by (subst SkipEmptyDataBlocksForward.simps) simp
    show ?thesis
    proof (cases "Suc j < length ixs")
      case True
      then have "iw i' ixs (Some (Suc j))" using i'(2) by (simp add: atPos_def)
      then obtain q where "placed ixs ?st (Suc j) q" using InitDataBlock_placed [OF o] by blast
      then obtain st' where st': "callData (i_SeekToFirst D) ?st = Some st'" "placed ixs st' (Suc j) (atPos 0 (blockOf content ixs (Suc j)))"
        using callData_first by blast
      have "length ixs - Suc j < length ixs - j" using j by arith
      then show ?thesis using less.hyps [OF _ st'(2)] st'(1) unfolding unfold start by simp
    next
      case False
      then have e: "Suc j = length ixs" using j by simp
      then have "iw i' ixs None" using i'(2) by simp
      note end' = InitDataBlock_end [OF o this]
      then have "callData (i_SeekToFirst D) ?st = Some ?st" by (simp add: callData_def)
      moreover obtain st' where "SkipEmptyDataBlocksForward I D bf ?st = Some st'" "tl_at st' es None"
        using Forward_end [OF l end'(2)] \<open>iw i' ixs None\<close> end'(1) by auto
      ultimately show ?thesis unfolding unfold start e startOf_end [OF l] by simp
    qed
  qed
qed

lemma Backward_placed:
  assumes l: "layered cmp content ixs es" and "placed ixs st j (beforePos c)" "c \<le> length (blockOf content ixs j)"
  shows "\<exists>st'. SkipEmptyDataBlocksBackward I D bf st = Some st' \<and> tl_at st' es (beforePos (startOf content ixs j + c))"
  using assms(2,3)
proof (induction j arbitrary: st c)
  case 0
  have o: "over ixs st" and ix: "iw (tl_index st) ixs (Some 0)" using 0(1) by (simp_all add: placed_def)
  show ?case
  proof (cases c)
    case (Suc i)
    then have p: "placed ixs st 0 (Some i)" using 0(1) by simp
    have "SkipEmptyDataBlocksBackward I D bf st = Some st" using placed_valid [OF p] by (subst SkipEmptyDataBlocksBackward.simps) simp
    then show ?thesis using placed_at [OF l p] Suc by simp
  next
    case c: 0
    have st: "\<not> tl_Valid D st" "i_Valid I (tl_index st)" using placed_valid [OF 0(1)] c idx.at_valid [OF ix] by simp_all
    obtain i' where i': "i_Prev I (tl_index st) = Some i'" "iw i' ixs None" using idx.prev_at [OF ix] by auto
    let ?st = "InitDataBlock I D bf (st\<lparr>tl_index := i'\<rparr>)"
    have unfold: "SkipEmptyDataBlocksBackward I D bf st = Option.bind (callData (i_SeekToLast D) ?st) (SkipEmptyDataBlocksBackward I D bf)"
      using st i'(1) by (subst SkipEmptyDataBlocksBackward.simps) simp
    note end' = InitDataBlock_end [OF o i'(2)]
    then have "callData (i_SeekToLast D) ?st = Some ?st" by (simp add: callData_def)
    moreover obtain st' where "SkipEmptyDataBlocksBackward I D bf ?st = Some st'" "tl_at st' es None"
      using Backward_end [OF l end'(2)] i'(2) end'(1) by auto
    ultimately show ?thesis unfolding unfold using c by simp
  qed
next
  case (Suc j)
  have o: "over ixs st" and ix: "iw (tl_index st) ixs (Some (Suc j))" and j: "Suc j < length ixs"
    using Suc.prems(1) by (simp_all add: placed_def)
  show ?case
  proof (cases c)
    case (Suc i)
    then have p: "placed ixs st (Suc j) (Some i)" using Suc.prems(1) by simp
    have "SkipEmptyDataBlocksBackward I D bf st = Some st" using placed_valid [OF p] by (subst SkipEmptyDataBlocksBackward.simps) simp
    then show ?thesis using placed_at [OF l p] Suc by simp
  next
    case c: 0
    have st: "\<not> tl_Valid D st" "i_Valid I (tl_index st)" using placed_valid [OF Suc.prems(1)] c idx.at_valid [OF ix] by simp_all
    obtain i' where i': "i_Prev I (tl_index st) = Some i'" "iw i' ixs (Some j)" using idx.prev_at [OF ix] by auto
    let ?st = "InitDataBlock I D bf (st\<lparr>tl_index := i'\<rparr>)" and ?b = "blockOf content ixs j"
    have unfold: "SkipEmptyDataBlocksBackward I D bf st = Option.bind (callData (i_SeekToLast D) ?st) (SkipEmptyDataBlocksBackward I D bf)"
      using st i'(1) by (subst SkipEmptyDataBlocksBackward.simps) simp
    obtain q where "placed ixs ?st j q" using InitDataBlock_placed [OF o i'(2)] by blast
    then obtain st' where st': "callData (i_SeekToLast D) ?st = Some st'" "placed ixs st' j (beforePos (length ?b))"
      using callData_last by blast
    have "startOf content ixs (Suc j) + c = startOf content ixs j + length ?b" using c j by simp
    then show ?thesis using Suc.IH [OF st'(2) order_refl] st'(1) unfolding unfold by simp
  qed
qed

text \<open>The operations. A state at no entry is over some index as well.\<close>

lemma tl_at_over:
  assumes "tl_at st es p"
  obtains ixs q where "layered cmp content ixs es" "over ixs st" "iw (tl_index st) ixs q"
  using assms by (auto simp: tl_at_def)

lemma tl_at_Some:
  assumes "tl_at st es (Some g)"
  obtains ixs j i d where "layered cmp content ixs es" "placed ixs st j (Some i)" "g = startOf content ixs j + i"
    "tl_data st = Some d" "dw d (blockOf content ixs j) (Some i)" "i < length (blockOf content ixs j)"
  using assms dat.at_range by (fastforce simp: tl_at_def placed_def)

lemma tl_reads:
  assumes "tl_at st es p"
  shows "tl_Valid D st \<longleftrightarrow> p \<noteq> None" "tl_statusOf I D st = sOK"
    "p = Some g \<Longrightarrow> g < length es"
    "p = Some g \<Longrightarrow> i_key (twoLevelOps I D bf) st = fst (es ! g)"
    "p = Some g \<Longrightarrow> i_value (twoLevelOps I D bf) st = snd (es ! g)"
proof -
  obtain ixs q where o: "layered cmp content ixs es" "over ixs st" "iw (tl_index st) ixs q" by (rule tl_at_over [OF assms])
  then show "tl_statusOf I D st = sOK"
    using idx.at_status [OF o(3)] dat.at_status unfolding tl_statusOf_def over_def by (auto split: option.splits)
  show "tl_Valid D st \<longleftrightarrow> p \<noteq> None"
  proof (cases p)
    case None
    then show ?thesis using assms by (auto simp: tl_at_def tl_Valid_def)
  next
    case (Some g)
    then show ?thesis using assms placed_valid by (auto simp: tl_at_def)
  qed
  assume "p = Some g"
  then have "tl_at st es (Some g)" using assms by simp
  then obtain ixs j i d where t: "layered cmp content ixs es" "placed ixs st j (Some i)" "g = startOf content ixs j + i"
    "tl_data st = Some d" "dw d (blockOf content ixs j) (Some i)" "i < length (blockOf content ixs j)" by (rule tl_at_Some)
  have j: "j < length ixs" using t(2) by (simp add: placed_def)
  note n = layered_nth [OF t(1) j t(6)]
  show "g < length es" using n(1) t(3) by simp
  show "i_key (twoLevelOps I D bf) st = fst (es ! g)" "i_value (twoLevelOps I D bf) st = snd (es ! g)"
    using dat.at_key [OF t(5)] dat.at_value [OF t(5)] n(2) t(3,4) by (simp_all add: twoLevelOps_def)
qed

lemma tl_SeekToFirst_at:
  assumes "tl_at st es p"
  shows "\<exists>st'. tl_SeekToFirst I D bf st = Some st' \<and> tl_at st' es (atPos 0 es)"
proof -
  obtain ixs q where o: "layered cmp content ixs es" "over ixs st" "iw (tl_index st) ixs q" by (rule tl_at_over [OF assms])
  obtain i where i: "i_SeekToFirst I (tl_index st) = Some i" "iw i ixs (atPos 0 ixs)" using idx.seek_first [OF o(3)] by blast
  let ?st = "InitDataBlock I D bf (st\<lparr>tl_index := i\<rparr>)"
  show ?thesis
  proof (cases "ixs = []")
    case True
    then have n: "iw i ixs None" "es = []" using i(2) o(1) by (simp_all add: layered_def)
    note e = InitDataBlock_end [OF o(2) n(1)]
    show ?thesis using Forward_end [OF o(1) e(2)] i(1) e(1) n by (simp add: tl_SeekToFirst_def callData_def)
  next
    case False
    then have "iw i ixs (Some 0)" using i(2) by (simp add: atPos_def)
    then obtain q where "placed ixs ?st 0 q" using InitDataBlock_placed [OF o(2)] by blast
    then obtain st' where st': "callData (i_SeekToFirst D) ?st = Some st'" "placed ixs st' 0 (atPos 0 (blockOf content ixs 0))"
      using callData_first by blast
    then show ?thesis using Forward_placed [OF o(1) st'(2)] i(1) by (simp add: tl_SeekToFirst_def)
  qed
qed

lemma tl_SeekToLast_at:
  assumes "tl_at st es p"
  shows "\<exists>st'. tl_SeekToLast I D bf st = Some st' \<and> tl_at st' es (beforePos (length es))"
proof -
  obtain ixs q where o: "layered cmp content ixs es" "over ixs st" "iw (tl_index st) ixs q" by (rule tl_at_over [OF assms])
  obtain i where i: "i_SeekToLast I (tl_index st) = Some i" "iw i ixs (beforePos (length ixs))" using idx.seek_last [OF o(3)] by blast
  let ?st = "InitDataBlock I D bf (st\<lparr>tl_index := i\<rparr>)"
  show ?thesis
  proof (cases "length ixs")
    case 0
    then have n: "iw i ixs None" "es = []" using i(2) o(1) by (simp_all add: layered_def)
    note e = InitDataBlock_end [OF o(2) n(1)]
    show ?thesis using Backward_end [OF o(1) e(2)] i(1) e(1) n by (simp add: tl_SeekToLast_def callData_def)
  next
    case (Suc j)
    then have "iw i ixs (Some j)" using i(2) by simp
    then obtain q where "placed ixs ?st j q" using InitDataBlock_placed [OF o(2)] by blast
    then obtain st' where st': "callData (i_SeekToLast D) ?st = Some st'" "placed ixs st' j (beforePos (length (blockOf content ixs j)))"
      using callData_last by blast
    have "startOf content ixs j + length (blockOf content ixs j) = length es"
      using startOf_end [OF o(1)] Suc by simp
    then show ?thesis using Backward_placed [OF o(1) st'(2)] i(1) st'(1) by (simp add: tl_SeekToLast_def)
  qed
qed

lemma tl_Seek_at:
  assumes "tl_at st es p" "length k < N"
  shows "\<exists>st'. tl_Seek I D bf k st = Some st' \<and> tl_at st' es (atPos (countBefore cmp k es) es)"
proof -
  obtain ixs q where o: "layered cmp content ixs es" "over ixs st" "iw (tl_index st) ixs q" by (rule tl_at_over [OF assms(1)])
  let ?c = "countBefore cmp k ixs"
  obtain i where i: "i_Seek I k (tl_index st) = Some i" "iw i ixs (atPos ?c ixs)" using idx.seek [OF o(3) assms(2)] by blast
  note cb = countBefore_layered [OF order o(1) HOL.refl, of k]
  let ?st = "InitDataBlock I D bf (st\<lparr>tl_index := i\<rparr>)"
  show ?thesis
  proof (cases "?c < length ixs")
    case False
    then have c: "?c = length ixs" using countBefore_le [of cmp k ixs] by simp
    then have n: "iw i ixs None" "countBefore cmp k es = length es" using i(2) cb startOf_end [OF o(1)] by simp_all
    note e = InitDataBlock_end [OF o(2) n(1)]
    show ?thesis using Forward_end [OF o(1) e(2)] i(1) e(1) n by (simp add: tl_Seek_def callData_def)
  next
    case True
    then have "iw i ixs (Some ?c)" using i(2) by (simp add: atPos_def)
    then obtain q where "placed ixs ?st ?c q" using InitDataBlock_placed [OF o(2)] by blast
    then obtain st' where st': "callData (i_Seek D k) ?st = Some st'"
      "placed ixs st' ?c (atPos (countBefore cmp k (blockOf content ixs ?c)) (blockOf content ixs ?c))"
      using callData_seek [OF _ assms(2)] by blast
    then show ?thesis using Forward_placed [OF o(1) st'(2) countBefore_le] i(1) cb True by (simp add: tl_Seek_def)
  qed
qed

lemma tl_Next_at:
  assumes "tl_at st es (Some g)"
  shows "\<exists>st'. tl_Next I D bf st = Some st' \<and> tl_at st' es (atPos (Suc g) es)"
proof -
  obtain ixs j i d where t: "layered cmp content ixs es" "placed ixs st j (Some i)" "g = startOf content ixs j + i"
    "tl_data st = Some d" "dw d (blockOf content ixs j) (Some i)" "i < length (blockOf content ixs j)" by (rule tl_at_Some [OF assms])
  obtain d' where d': "i_Next D d = Some d'" "dw d' (blockOf content ixs j) (atPos (Suc i) (blockOf content ixs j))"
    using dat.next_at [OF t(5)] by blast
  have "placed ixs (st\<lparr>tl_data := Some d'\<rparr>) j (atPos (Suc i) (blockOf content ixs j))"
    using t(2) d'(2) by (auto simp: placed_def over_def blockOf_def)
  then show ?thesis using Forward_placed [OF t(1), of _ j "Suc i"] t(3,4,6) d'(1) by (simp add: tl_Next_def)
qed

lemma tl_Prev_at:
  assumes "tl_at st es (Some g)"
  shows "\<exists>st'. tl_Prev I D bf st = Some st' \<and> tl_at st' es (beforePos g)"
proof -
  obtain ixs j i d where t: "layered cmp content ixs es" "placed ixs st j (Some i)" "g = startOf content ixs j + i"
    "tl_data st = Some d" "dw d (blockOf content ixs j) (Some i)" "i < length (blockOf content ixs j)" by (rule tl_at_Some [OF assms])
  obtain d' where d': "i_Prev D d = Some d'" "dw d' (blockOf content ixs j) (beforePos i)" using dat.prev_at [OF t(5)] by blast
  have "placed ixs (st\<lparr>tl_data := Some d'\<rparr>) j (beforePos i)" using t(2) d'(2) by (auto simp: placed_def over_def blockOf_def)
  then show ?thesis using Backward_placed [OF t(1)] t(3,4,6) d'(1) by (simp add: tl_Prev_def)
qed

lemma two_iterates: "iterates (twoLevelOps I D bf) cmp N tl_at"
  by unfold_locales (simp_all add: tl_reads, simp_all add: twoLevelOps_def tl_reads tl_SeekToFirst_at tl_SeekToLast_at
    tl_Seek_at tl_Next_at tl_Prev_at)

end

text \<open>With the wrappers, and a new iterator over a new index iterator.\<close>

lemma TwoLevel_iterates:
  assumes "iterates I cmp N iw" "iterates D cmp N dw" "ordering cmp"
  shows "iterates (TwoLevelIterator I D bf) cmp N
    (two_level.tl_at cmp (wrapped I iw) (wrapped D dw) (\<lambda>h. wr_Set D (bf h)) content)"
  unfolding TwoLevelIterator_def
  by (rule two_level.two_iterates)
    (intro two_level.intro two_level_axioms.intro iterates.wrapped_iterates assms)

lemma NewTwoLevelIterator_at:
  assumes "iterates I cmp N iw" "iterates D cmp N dw" "ordering cmp"
    and "layered cmp content ixs es" "iw index_iter ixs p" "\<And>x. x \<in> set ixs \<Longrightarrow> \<exists>q. dw (bf (snd x)) (content (snd x)) q"
  shows "two_level.tl_at cmp (wrapped I iw) (wrapped D dw) (\<lambda>h. wr_Set D (bf h)) content (NewTwoLevelIterator I index_iter) es None"
proof -
  have t: "two_level (IteratorWrapper I) cmp N (wrapped I iw) (IteratorWrapper D) (wrapped D dw)"
    by (intro two_level.intro two_level_axioms.intro iterates.wrapped_iterates assms(1-3))
  have "wrapped I iw (wr_Set I index_iter) ixs p"
    unfolding wr_Set_def by (rule iterates.wrapped_Update [OF assms(1)]) (simp add: assms(5))
  moreover have "wrapped D dw (wr_Set D (bf (snd x))) (content (snd x)) q" if "dw (bf (snd x)) (content (snd x)) q" for x q
    unfolding wr_Set_def by (rule iterates.wrapped_Update [OF assms(2)]) (simp add: that)
  ultimately show ?thesis
    unfolding two_level.tl_at_def [OF t] two_level.over_def [OF t]
    using assms(4,6) by (fastforce simp: NewTwoLevelIterator_def)
qed

end
