(* ===== verification/LdbFilter.thy ===== *)
theory LdbFilter
  imports LdbFormat
begin

text \<open>
  leveldb/util/hash.cc, util/bloom.cc, include/leveldb/filter_policy.h and
  table/filter_block.cc: small summaries of the keys of a table that let a read skip a block.
  What a table relies on is the locale \<open>filter_policy\<close>: a key that was put in, or the same
  up to a relation, always matches. The Bloom filter keeps it, the policy for internal keys
  keeps it when the policy it wraps does, and the filter block of a table keeps it for the
  keys of every data block.
\<close>

subsection \<open>The hash function\<close>

abbreviation (input) hashM :: "32 word" where "hashM \<equiv> 0xc6a4a793"

function hashWords :: "32 word \<Rightarrow> bytes \<Rightarrow> 32 word \<times> bytes" where
  "hashWords h dat =
     (if length dat \<ge> 4 then
        (let h1 = (h + DecodeFixed32 dat) * hashM in hashWords (h1 XOR drop_bit 16 h1) (drop 4 dat))
      else (h, dat))"
  by auto
termination by (relation "measure (\<lambda>(h, dat). length dat)") auto

declare hashWords.simps [simp del]

definition Hash :: "bytes \<Rightarrow> 32 word \<Rightarrow> 32 word" where
  "Hash dat seed =
     (let (h, p) = hashWords (seed XOR of_nat (length dat) * hashM) dat;
          n = length p;
          h2 = (if n = 3 then h + push_bit 16 (octet p 2) else h);
          h1 = (if n = 3 \<or> n = 2 then h2 + push_bit 8 (octet p 1) else h2)
      in if n = 0 then h else let h0 = (h1 + octet p 0) * hashM in h0 XOR drop_bit 24 h0)"

subsection \<open>Filter policies\<close>

text \<open>The name, and the creation of a filter, which is appended to the last argument.\<close>

record filterpolicy =
  fp_Name :: bytes
  fp_CreateFilter :: "bytes list \<Rightarrow> bytes \<Rightarrow> bytes"
  fp_KeyMayMatch :: "bytes \<Rightarrow> bytes \<Rightarrow> bool"

locale filter_policy =
  fixes P :: filterpolicy and same :: "bytes \<Rightarrow> bytes \<Rightarrow> bool"
  assumes filter_appended: "\<exists>f. fp_CreateFilter P keys dst = dst @ f"
    and filter_matches: "fp_CreateFilter P keys dst = dst @ f \<Longrightarrow> key \<in> set keys \<Longrightarrow> same k key \<Longrightarrow> fp_KeyMayMatch P k f"

subsection \<open>The Bloom filter\<close>

definition BloomHash :: "bytes \<Rightarrow> 32 word" where
  "BloomHash key = Hash key 0xbc9f1d34"

text \<open>The number of probes: 0.69 times the bits for each key, between 1 and 30.\<close>

definition bloomK :: "nat \<Rightarrow> nat" where
  "bloomK bits_per_key =
     (let k = bits_per_key * 69 div 100; k1 = (if k < 1 then 1 else k) in if k1 > 30 then 30 else k1)"

fun probes :: "nat \<Rightarrow> 32 word \<Rightarrow> 32 word \<Rightarrow> nat \<Rightarrow> nat list" where
  "probes 0 h delta bits = []"
| "probes (Suc j) h delta bits = unat h mod bits # probes j (h + delta) delta bits"

definition keyProbes :: "nat \<Rightarrow> bytes \<Rightarrow> nat \<Rightarrow> nat list" where
  "keyProbes k key bits = (let h = BloomHash key in probes k h (drop_bit 17 h OR push_bit 15 h) bits)"

definition setBit :: "bytes \<Rightarrow> nat \<Rightarrow> bytes" where
  "setBit a pos = a[pos div 8 := byte_chr (chr_byte (a ! (pos div 8)) OR push_bit (pos mod 8) 1)]"

definition testBit :: "bytes \<Rightarrow> nat \<Rightarrow> bool" where
  "testBit a pos \<longleftrightarrow> chr_byte (a ! (pos div 8)) AND push_bit (pos mod 8) 1 \<noteq> 0"

definition bloom_CreateFilter :: "nat \<Rightarrow> bytes list \<Rightarrow> bytes \<Rightarrow> bytes" where
  "bloom_CreateFilter bits_per_key keys dst =
     (let bits0 = length keys * bits_per_key;
          bits1 = (if bits0 < 64 then 64 else bits0);
          n = (bits1 + 7) div 8;
          k = bloomK bits_per_key
      in dst @ foldl (\<lambda>a key. foldl setBit a (keyProbes k key (n * 8))) (replicate n (CHR 0x00)) keys @ [char_of k])"

definition bloom_KeyMayMatch :: "bytes \<Rightarrow> bytes \<Rightarrow> bool" where
  "bloom_KeyMayMatch key bloom_filter =
     (let len = length bloom_filter
      in if len < 2 then False
         else
           let k = of_char (bloom_filter ! (len - 1))
           in if k > (30 :: nat) then True else list_all (testBit bloom_filter) (keyProbes k key ((len - 1) * 8)))"

definition BloomFilterPolicy :: "nat \<Rightarrow> filterpolicy" where
  "BloomFilterPolicy bits_per_key =
     \<lparr>fp_Name = ''leveldb.BuiltinBloomFilter2'', fp_CreateFilter = bloom_CreateFilter bits_per_key,
      fp_KeyMayMatch = bloom_KeyMayMatch\<rparr>"

lemma length_setBits [simp]: "length (foldl setBit a ps) = length a"
  by (induction ps arbitrary: a) (simp_all add: setBit_def)

lemma testBit_iff: "pos div 8 < length a \<Longrightarrow> testBit a pos \<longleftrightarrow> bit (chr_byte (a ! (pos div 8))) (pos mod 8)"
  by (simp add: testBit_def bit_iff_and_push_bit_not_eq_0)

lemma testBit_setBit:
  assumes "p div 8 < length a" "q div 8 < length a"
  shows "testBit (setBit a q) p \<longleftrightarrow> p = q \<or> testBit a p"
proof -
  have eq: "p = q \<longleftrightarrow> p div 8 = q div 8 \<and> p mod 8 = q mod 8" by (metis mult_div_mod_eq)
  have l: "length (setBit a q) = length a" by (simp add: setBit_def)
  show ?thesis
  proof (cases "p div 8 = q div 8")
    case True
    have m: "p mod 8 < 8" "q mod 8 < 8" by simp_all
    have "setBit a q ! (p div 8) = byte_chr (chr_byte (a ! (p div 8)) OR push_bit (q mod 8) 1)"
      using True assms(2) by (simp add: setBit_def)
    then have "bit (chr_byte (setBit a q ! (p div 8))) (p mod 8) \<longleftrightarrow> bit (chr_byte (a ! (p div 8))) (p mod 8) \<or> p mod 8 = q mod 8"
      using m by (auto simp: bit_or_iff bit_exp_iff)
    then show ?thesis using True testBit_iff [of p a] testBit_iff [of p "setBit a q"] assms(1) eq unfolding l by blast
  next
    case False
    then have "setBit a q ! (p div 8) = a ! (p div 8)" by (simp add: setBit_def)
    then show ?thesis using False eq by (auto simp: testBit_def)
  qed
qed

lemma testBit_setBits:
  assumes "\<forall>p \<in> set ps. p div 8 < length a" "q div 8 < length a"
  shows "testBit (foldl setBit a ps) q \<longleftrightarrow> q \<in> set ps \<or> testBit a q"
  using assms
proof (induction ps arbitrary: a)
  case (Cons p ps)
  have "length (setBit a p) = length a" by (simp add: setBit_def)
  then show ?case using Cons testBit_setBit [of q a p] by auto
qed simp

lemma probes_less: "0 < bits \<Longrightarrow> p \<in> set (probes k h d bits) \<Longrightarrow> p < bits"
  by (induction k arbitrary: h) auto

lemma keyProbes_less: "0 < bits \<Longrightarrow> p \<in> set (keyProbes k key bits) \<Longrightarrow> p < bits"
  by (simp add: keyProbes_def Let_def probes_less)

lemma testBit_keys:
  assumes "length a = n" "0 < n" "q < n * 8"
  shows "testBit (foldl (\<lambda>a key. foldl setBit a (keyProbes k key (n * 8))) a keys) q \<longleftrightarrow>
    (\<exists>key \<in> set keys. q \<in> set (keyProbes k key (n * 8))) \<or> testBit a q"
  using assms
proof (induction keys arbitrary: a)
  case (Cons key keys)
  have "\<forall>p \<in> set (keyProbes k key (n * 8)). p div 8 < length a" using keyProbes_less [of "n * 8"] Cons.prems by fastforce
  moreover have "q div 8 < length a" using Cons.prems by simp
  ultimately show ?case using Cons testBit_setBits [of "keyProbes k key (n * 8)" a q] by auto
qed simp

lemma bloomK_range: "1 \<le> bloomK b" "bloomK b \<le> 30"
  by (simp_all add: bloomK_def Let_def)

lemma bloom_matches:
  assumes "bloom_CreateFilter b keys dst = dst @ f" "key \<in> set keys"
  shows "bloom_KeyMayMatch key f"
proof -
  define n where "n = ((if length keys * b < 64 then 64 else length keys * b) + 7) div 8"
  define a where "a = foldl (\<lambda>a key. foldl setBit a (keyProbes (bloomK b) key (n * 8))) (replicate n (CHR 0x00)) keys"
  have f: "f = a @ [char_of (bloomK b)]" using assms(1) by (simp add: bloom_CreateFilter_def Let_def a_def n_def)
  have "length (foldl (\<lambda>a key. foldl setBit a (keyProbes k key m)) x keys) = length x" for k m x
    by (induction keys arbitrary: x) simp_all
  then have la: "length a = n" by (simp add: a_def)
  have "64 \<le> (if length keys * b < 64 then 64 else length keys * b) + 7" by simp
  then have n: "8 \<le> n" unfolding n_def using div_le_mono [of 64 _ 8] by fastforce
  have k: "of_char (f ! (length f - 1)) = bloomK b" using bloomK_range(2) [of b] by (simp add: f)
  have "testBit f q" if "q \<in> set (keyProbes (bloomK b) key (n * 8))" for q
  proof -
    have q: "q < n * 8" using keyProbes_less [OF _ that] n by simp
    then have "testBit a q" unfolding a_def by (subst testBit_keys) (use n assms(2) that in auto)
    moreover have "q div 8 < length a" using q la by (simp add: less_mult_imp_div_less)
    then have "f ! (q div 8) = a ! (q div 8)" by (simp add: f nth_append)
    ultimately show ?thesis by (simp add: testBit_def)
  qed
  then show ?thesis using la n k bloomK_range(2) [of b] by (simp add: bloom_KeyMayMatch_def Let_def f list_all_iff)
qed

lemma bloom_policy: "filter_policy (BloomFilterPolicy b) (=)"
  by unfold_locales (auto simp: BloomFilterPolicy_def bloom_matches bloom_CreateFilter_def Let_def)

interpretation bloom: filter_policy "BloomFilterPolicy b" "(=)" for b
  by (rule bloom_policy)

subsection \<open>The policy for internal keys\<close>

definition InternalFilterPolicy :: "filterpolicy \<Rightarrow> filterpolicy" where
  "InternalFilterPolicy user_policy =
     \<lparr>fp_Name = fp_Name user_policy,
      fp_CreateFilter = (\<lambda>keys dst. fp_CreateFilter user_policy (map ExtractUserKey keys) dst),
      fp_KeyMayMatch = (\<lambda>key f. fp_KeyMayMatch user_policy (ExtractUserKey key) f)\<rparr>"

lemma internal_policy:
  assumes "filter_policy P same"
  shows "filter_policy (InternalFilterPolicy P) (\<lambda>a b. same (ExtractUserKey a) (ExtractUserKey b))"
proof
  show "\<exists>f. fp_CreateFilter (InternalFilterPolicy P) keys dst = dst @ f" for keys dst
    using filter_policy.filter_appended [OF assms] by (simp add: InternalFilterPolicy_def)
  show "fp_KeyMayMatch (InternalFilterPolicy P) k f"
    if "fp_CreateFilter (InternalFilterPolicy P) keys dst = dst @ f" "key \<in> set keys" "same (ExtractUserKey k) (ExtractUserKey key)"
    for keys dst f key k
    using filter_policy.filter_matches [OF assms, of "map ExtractUserKey keys" dst f "ExtractUserKey key"] that
    by (simp add: InternalFilterPolicy_def)
qed

interpretation internal_bloom: filter_policy "InternalFilterPolicy (BloomFilterPolicy b)"
  "\<lambda>x y. ExtractUserKey x = ExtractUserKey y" for b
  by (rule internal_policy [OF bloom_policy])

end
