(* ===== verification/LdbBlock.thy ===== *)
theory LdbBlock
  imports LdbIter
begin

text \<open>
  leveldb/table/block_builder.cc and block.cc: a block of a table. The entries follow each
  other, a key without the bytes it shares with the key before; at the restart points a key
  is whole, and their offsets are at the end of the block. Pointers into the block are
  offsets, a pointer range is the list of its bytes. The result \<open>None\<close> of an operation of
  the iterator is a read outside the block, which a corrupted block can cause.
\<close>

subsection \<open>Building\<close>

record blockbuilder =
  bb_buffer :: bytes
  bb_restarts :: "32 word list"
  bb_counter :: int
  bb_finished :: bool
  bb_last_key :: bytes

definition bb_Reset :: blockbuilder where
  "bb_Reset = \<lparr>bb_buffer = [], bb_restarts = [0], bb_counter = 0, bb_finished = False, bb_last_key = []\<rparr>"

definition CurrentSizeEstimate :: "blockbuilder \<Rightarrow> nat" where
  "CurrentSizeEstimate b = length (bb_buffer b) + length (bb_restarts b) * 4 + 4"

definition bb_Finish :: "blockbuilder \<Rightarrow> bytes \<times> blockbuilder" where
  "bb_Finish b =
     (let buffer = PutFixed32 (foldl PutFixed32 (bb_buffer b) (bb_restarts b)) (of_nat (length (bb_restarts b)))
      in (buffer, b\<lparr>bb_buffer := buffer, bb_finished := True\<rparr>))"

fun sharedLength :: "bytes \<Rightarrow> bytes \<Rightarrow> nat" where
  "sharedLength (a # as) (b # bs) = (if a = b then Suc (sharedLength as bs) else 0)"
| "sharedLength _ _ = 0"

definition entryBlock :: "nat \<Rightarrow> bytes \<Rightarrow> bytes \<Rightarrow> bytes \<Rightarrow> bytes" where
  "entryBlock shared key val buffer =
     PutVarint32 (PutVarint32 (PutVarint32 buffer (of_nat shared)) (of_nat (length key - shared))) (of_nat (length val)) @
     drop shared key @ val"

definition bb_Add :: "int \<Rightarrow> bytes \<Rightarrow> bytes \<Rightarrow> blockbuilder \<Rightarrow> blockbuilder" where
  "bb_Add block_restart_interval key val b =
     (let (shared, b1) =
            (if bb_counter b < block_restart_interval then (sharedLength (bb_last_key b) key, b)
             else (0, b\<lparr>bb_restarts := bb_restarts b @ [of_nat (length (bb_buffer b))], bb_counter := 0\<rparr>))
      in b1\<lparr>bb_buffer := entryBlock shared key val (bb_buffer b1),
            bb_last_key := take shared (bb_last_key b1) @ drop shared key,
            bb_counter := bb_counter b1 + 1\<rparr>)"

subsection \<open>A block\<close>

record block =
  bk_data :: bytes
  bk_size :: nat
  bk_restart_offset :: nat

definition NumRestarts :: "nat \<Rightarrow> bytes \<Rightarrow> 32 word" where
  "NumRestarts n dat = DecodeFixed32 (drop (n - 4) dat)"

definition Block :: "bytes \<Rightarrow> block" where
  "Block contents =
     (let n = length contents
      in if n < 4 then \<lparr>bk_data = contents, bk_size = 0, bk_restart_offset = 0\<rparr>
         else if unat (NumRestarts n contents) > (n - 4) div 4 then
           \<lparr>bk_data = contents, bk_size = 0, bk_restart_offset = 0\<rparr>
         else \<lparr>bk_data = contents, bk_size = n,
              bk_restart_offset = unat (of_nat (n - unat (1 + NumRestarts n contents) * 4) :: 32 word)\<rparr>)"

definition DecodeEntry :: "bytes \<Rightarrow> (32 word \<times> 32 word \<times> 32 word \<times> bytes) option" where
  "DecodeEntry p =
     (if length p < 3 then None
      else
        case (if (octet p 0 OR octet p 1 OR octet p 2 :: 32 word) < 128 then Some (octet p 0, octet p 1, octet p 2, drop 3 p)
              else (case GetVarint32Ptr p of
                      None \<Rightarrow> None
                    | Some (shared, p1) \<Rightarrow>
                        (case GetVarint32Ptr p1 of
                           None \<Rightarrow> None
                         | Some (non_shared, p2) \<Rightarrow>
                             (case GetVarint32Ptr p2 of
                                None \<Rightarrow> None
                              | Some (value_length, p3) \<Rightarrow> Some (shared, non_shared, value_length, p3))))) of
          None \<Rightarrow> None
        | Some (shared, non_shared, value_length, q) \<Rightarrow>
            if of_nat (length q) < non_shared + value_length then None
            else Some (shared, non_shared, value_length, q))"

subsection \<open>The iterator of a block\<close>

record blockiter =
  bi_data :: bytes
  bi_restarts :: nat
  bi_num_restarts :: nat
  bi_current :: nat
  bi_restart_index :: nat
  bi_key :: bytes
  bi_value :: "nat \<times> nat"
  bi_status :: ldbstatus

definition NextEntryOffset :: "blockiter \<Rightarrow> nat" where
  "NextEntryOffset it = fst (bi_value it) + snd (bi_value it)"

definition GetRestartPoint :: "blockiter \<Rightarrow> nat \<Rightarrow> nat" where
  "GetRestartPoint it index = unat (DecodeFixed32 (drop (bi_restarts it + index * 4) (bi_data it)))"

definition SeekToRestartPoint :: "nat \<Rightarrow> blockiter \<Rightarrow> blockiter" where
  "SeekToRestartPoint index it =
     it\<lparr>bi_key := [], bi_restart_index := index, bi_value := (GetRestartPoint it index, 0)\<rparr>"

definition newBlockIter :: "bytes \<Rightarrow> nat \<Rightarrow> nat \<Rightarrow> blockiter" where
  "newBlockIter dat restarts num_restarts =
     \<lparr>bi_data = dat, bi_restarts = restarts, bi_num_restarts = num_restarts, bi_current = restarts,
      bi_restart_index = num_restarts, bi_key = [], bi_value = (0, 0), bi_status = sOK\<rparr>"

definition CorruptionError :: "blockiter \<Rightarrow> blockiter" where
  "CorruptionError it =
     it\<lparr>bi_current := bi_restarts it, bi_restart_index := bi_num_restarts it,
        bi_status := sCorruption ''bad entry in block'', bi_key := [], bi_value := (0, 0)\<rparr>"

function restartLoop :: "blockiter \<Rightarrow> nat \<Rightarrow> nat" where
  "restartLoop it i =
     (if i + 1 < bi_num_restarts it \<and> GetRestartPoint it (i + 1) < bi_current it then restartLoop it (i + 1) else i)"
  by auto
termination by (relation "measure (\<lambda>(it, i). bi_num_restarts it - i)") auto

declare restartLoop.simps [simp del]

text \<open>The bytes from an offset to the restart array.\<close>

definition entriesFrom :: "blockiter \<Rightarrow> nat \<Rightarrow> bytes" where
  "entriesFrom it off = drop off (take (bi_restarts it) (bi_data it))"

definition ParseNextKey :: "blockiter \<Rightarrow> (bool \<times> blockiter) option" where
  "ParseNextKey it =
     (let it1 = it\<lparr>bi_current := NextEntryOffset it\<rparr>
      in if NextEntryOffset it \<ge> bi_restarts it then
           Some (False, it1\<lparr>bi_current := bi_restarts it, bi_restart_index := bi_num_restarts it\<rparr>)
         else
           case DecodeEntry (entriesFrom it (NextEntryOffset it)) of
             None \<Rightarrow> Some (False, CorruptionError it1)
           | Some (shared, non_shared, value_length, p) \<Rightarrow>
               if length (bi_key it) < unat shared then Some (False, CorruptionError it1)
               else if unat non_shared + unat value_length > length p then None
               else
                 (let it2 = it1\<lparr>bi_key := take (unat shared) (bi_key it) @ take (unat non_shared) p,
                                bi_value := (bi_restarts it - length p + unat non_shared, unat value_length)\<rparr>
                  in Some (True, it2\<lparr>bi_restart_index := restartLoop it2 (bi_restart_index it2)\<rparr>)))"

definition bi_Next :: "blockiter \<Rightarrow> blockiter option" where
  "bi_Next it = map_option snd (ParseNextKey it)"

text \<open>The loop of \<open>Prev\<close> over the restart points, \<open>None\<close> when there is no entry before.\<close>

fun restartBack :: "blockiter \<Rightarrow> nat \<Rightarrow> nat \<Rightarrow> nat option" where
  "restartBack it original 0 = (if GetRestartPoint it 0 \<ge> original then None else Some 0)"
| "restartBack it original (Suc i) =
     (if GetRestartPoint it (Suc i) \<ge> original then restartBack it original i else Some (Suc i))"

text \<open>Parsing until the end of the entry reaches an offset.\<close>

partial_function (option) parseUntil :: "nat \<Rightarrow> blockiter \<Rightarrow> blockiter option" where
  "parseUntil bound it =
     Option.bind (ParseNextKey it)
       (\<lambda>(ok, it'). if ok \<and> NextEntryOffset it' < bound then parseUntil bound it' else Some it')"

definition bi_Prev :: "blockiter \<Rightarrow> blockiter option" where
  "bi_Prev it =
     (let original = bi_current it
      in case restartBack it original (bi_restart_index it) of
           None \<Rightarrow> Some (it\<lparr>bi_current := bi_restarts it, bi_restart_index := bi_num_restarts it\<rparr>)
         | Some i \<Rightarrow> parseUntil original (SeekToRestartPoint i it))"

text \<open>The binary search: \<open>None\<close> is undefined, \<open>Some None\<close> a bad entry.\<close>

function searchRestart :: "comparator \<Rightarrow> bytes \<Rightarrow> blockiter \<Rightarrow> nat \<Rightarrow> nat \<Rightarrow> nat option option" where
  "searchRestart C target it left right =
     (if left < right then
        (let mid = (left + right + 1) div 2
         in case DecodeEntry (entriesFrom it (GetRestartPoint it mid)) of
              None \<Rightarrow> Some None
            | Some (shared, non_shared, value_length, key_ptr) \<Rightarrow>
                if shared \<noteq> 0 then Some None
                else if unat non_shared > length key_ptr then None
                else if cmp_Compare C (take (unat non_shared) key_ptr) target < 0 then searchRestart C target it mid right
                else searchRestart C target it left (mid - 1))
      else Some (Some left))"
  by auto
termination by (relation "measure (\<lambda>(C, target, it, left, right). right - left)") auto

declare searchRestart.simps [simp del]

partial_function (option) seekLoop :: "comparator \<Rightarrow> bytes \<Rightarrow> blockiter \<Rightarrow> blockiter option" where
  "seekLoop C target it =
     Option.bind (ParseNextKey it)
       (\<lambda>(ok, it'). if \<not> ok then Some it'
                     else if cmp_Compare C (bi_key it') target \<ge> 0 then Some it' else seekLoop C target it')"

definition bi_Seek :: "comparator \<Rightarrow> bytes \<Rightarrow> blockiter \<Rightarrow> blockiter option" where
  "bi_Seek C target it =
     (case searchRestart C target it 0 (bi_num_restarts it - 1) of
        None \<Rightarrow> None
      | Some None \<Rightarrow> Some (CorruptionError it)
      | Some (Some left) \<Rightarrow> seekLoop C target (SeekToRestartPoint left it))"

definition bi_SeekToFirst :: "blockiter \<Rightarrow> blockiter option" where
  "bi_SeekToFirst it = map_option snd (ParseNextKey (SeekToRestartPoint 0 it))"

definition bi_SeekToLast :: "blockiter \<Rightarrow> blockiter option" where
  "bi_SeekToLast it = parseUntil (bi_restarts it) (SeekToRestartPoint (bi_num_restarts it - 1) it)"

definition BlockIter :: "comparator \<Rightarrow> blockiter iterops" where
  "BlockIter C =
     \<lparr>i_Valid = (\<lambda>it. bi_current it < bi_restarts it), i_SeekToFirst = bi_SeekToFirst, i_SeekToLast = bi_SeekToLast,
      i_Seek = bi_Seek C, i_Next = bi_Next, i_Prev = bi_Prev, i_key = bi_key,
      i_value = (\<lambda>it. take (snd (bi_value it)) (drop (fst (bi_value it)) (bi_data it))), i_status = bi_status\<rparr>"

definition bk_NewIterator :: "block \<Rightarrow> ldbstatus + blockiter" where
  "bk_NewIterator b =
     (if bk_size b < 4 then Inl (sCorruption ''bad block contents'')
      else if NumRestarts (bk_size b) (bk_data b) = 0 then Inl sOK
      else Inr (newBlockIter (bk_data b) (bk_restart_offset b) (unat (NumRestarts (bk_size b) (bk_data b)))))"

abbreviation blockOps :: "comparator \<Rightarrow> (ldbstatus + blockiter) iterops" where
  "blockOps C \<equiv> sumOps EmptyIterator (BlockIter C)"

end
