(* ===== verification/LdbBlockLaws.thy ===== *)
theory LdbBlockLaws
  imports LdbBlock
begin

text \<open>
  A block that was built from sorted entries is read back: its iterator walks exactly these
  entries, whatever the distance of the restart points.
\<close>

subsection \<open>One entry\<close>

lemma octet_varint:
  "octet (EncodeVarint32 v @ rest) 0 < (128 :: 32 word) \<longleftrightarrow> EncodeVarint32 v = [low8 v] \<and> v < 128"
  "w < 128 \<Longrightarrow> octet (low8 w # rest) 0 = (w :: 32 word)"
proof -
  show one: "octet (low8 w # rest) 0 = w" if "w < 128" for w :: "32 word" and rest
    using small_byte(1) [of w] that by (simp add: word_less_nat_alt)
  obtain k where k: "EncodeVarint32 v = venc k v" "unat v < 2 ^ (7 * Suc k)" using EncodeVarint32_venc by blast
  show "octet (EncodeVarint32 v @ rest) 0 < (128 :: 32 word) \<longleftrightarrow> EncodeVarint32 v = [low8 v] \<and> v < 128"
  proof (cases k)
    case 0
    then have "v < 128" using k(2) by (simp add: word_less_nat_alt)
    then show ?thesis using one [of v rest] k(1) 0 by simp
  next
    case (Suc j)
    have "octet (venc k v @ rest) 0 = (take_bit 7 v OR 128 :: 32 word)"
      using more_byte [of v] Suc by (simp add: octet_def low8_def)
    moreover have "\<not> (take_bit 7 v OR 128 :: 32 word) < 128"
    proof -
      have "bit (take_bit 7 v OR 128 :: 32 word) 7" by (simp add: or_128 bit_simps)
      moreover have "\<not> bit (x :: 32 word) 7" if "x < 128" for x
      proof -
        have "x = take_bit 7 x" using that by (simp add: take_bit_small word_less_nat_alt)
        then show ?thesis by (metis bit_take_bit_iff less_irrefl)
      qed
      ultimately show ?thesis by blast
    qed
    moreover have "length (EncodeVarint32 v) \<noteq> 1" using k(1) Suc by simp
    ultimately show ?thesis using k(1) by (metis One_nat_def length_Cons list.size(3))
  qed
qed

lemma or_less_128: "(a OR b OR c :: 32 word) < 128 \<longleftrightarrow> a < 128 \<and> b < 128 \<and> c < 128"
proof -
  have less: "x < 128 \<longleftrightarrow> (\<forall>n \<ge> 7. \<not> bit x n)" for x :: "32 word"
  proof
    assume "x < 128"
    then have "x = take_bit 7 x" by (simp add: take_bit_small word_less_nat_alt)
    then show "\<forall>n \<ge> 7. \<not> bit x n" by (metis bit_take_bit_iff not_less)
  next
    assume "\<forall>n \<ge> 7. \<not> bit x n"
    then have "x = take_bit 7 x" by (intro bit_word_eqI) (simp add: bit_simps, meson linorder_not_le)
    moreover have "unat (take_bit 7 x) < 2 ^ 7" unfolding unsigned_take_bit_eq by (rule take_bit_nat_less_exp)
    ultimately show "x < 128" by (simp add: word_less_nat_alt)
  qed
  show ?thesis unfolding less by (auto simp: bit_simps)
qed

lemma unat_of_nat32: "n < 2 ^ 32 \<Longrightarrow> unat (of_nat n :: 32 word) = n"
  by (simp add: unat_of_nat)

lemma DecodeEntry_entry:
  assumes "length p < 2 ^ 32" "p = entryBlock shared key val [] @ rest" "shared \<le> length key"
  shows "DecodeEntry p = Some (of_nat shared, of_nat (length key - shared), of_nat (length val), drop shared key @ val @ rest)"
proof -
  let ?s = "of_nat shared :: 32 word" and ?n = "of_nat (length key - shared) :: 32 word" and ?v = "of_nat (length val) :: 32 word"
  let ?q = "drop shared key @ val @ rest"
  have p: "p = EncodeVarint32 ?s @ EncodeVarint32 ?n @ EncodeVarint32 ?v @ ?q"
    using assms(2) by (simp add: entryBlock_def PutVarint32_def)
  have one: "1 \<le> length (EncodeVarint32 w)" for w using length_varint(4) [of w] by (cases "EncodeVarint32 w") auto
  have len: "length p \<ge> 3 + length ?q" using one [of ?s] one [of ?n] one [of ?v] unfolding p by simp
  have "length key - shared + length val < 2 ^ 32" using len assms(1) by simp
  then have "unat (?n + ?v) = length key - shared + length val"
    using unat_of_nat32 [of "length key - shared + length val"] by simp
  moreover have "unat (of_nat (length ?q) :: 32 word) = length ?q" by (rule unat_of_nat32) (use len assms(1) in linarith)
  ultimately have fits: "\<not> (of_nat (length ?q) :: 32 word) < ?n + ?v" by (simp add: word_less_nat_alt)
  let ?fast = "(octet p 0 OR octet p 1 OR octet p 2 :: 32 word) < 128"
  have "?fast \<Longrightarrow> octet p 0 = ?s \<and> octet p 1 = ?n \<and> octet p 2 = ?v \<and> drop 3 p = ?q"
  proof -
    assume "?fast"
    then have f: "octet p 0 < (128 :: 32 word)" "octet p 1 < (128 :: 32 word)" "octet p 2 < (128 :: 32 word)"
      unfolding or_less_128 by simp_all
    have s: "EncodeVarint32 ?s = [low8 ?s]" "?s < 128" using f(1) octet_varint(1) [of ?s] unfolding p by simp_all
    have n: "EncodeVarint32 ?n = [low8 ?n]" "?n < 128"
      using f(2) octet_varint(1) [of ?n "EncodeVarint32 ?v @ ?q"] unfolding p s(1) by (simp_all add: octet_def)
    have v: "EncodeVarint32 ?v = [low8 ?v]" "?v < 128"
      using f(3) octet_varint(1) [of ?v ?q] unfolding p s(1) n(1) by (simp_all add: octet_def numeral_2_eq_2)
    have "p = low8 ?s # low8 ?n # low8 ?v # ?q" unfolding p s(1) n(1) v(1) by simp
    then show ?thesis
      using octet_varint(2) [OF s(2)] octet_varint(2) [OF n(2)] octet_varint(2) [OF v(2)]
      by (simp add: numeral_3_eq_3)
  qed
  then have "(if ?fast then Some (octet p 0, octet p 1, octet p 2, drop 3 p)
      else (case GetVarint32Ptr p of
              None \<Rightarrow> None
            | Some (shared, p1) \<Rightarrow>
                (case GetVarint32Ptr p1 of
                   None \<Rightarrow> None
                 | Some (non_shared, p2) \<Rightarrow>
                     (case GetVarint32Ptr p2 of
                        None \<Rightarrow> None
                      | Some (value_length, p3) \<Rightarrow> Some (shared, non_shared, value_length, p3))))) = Some (?s, ?n, ?v, ?q)"
    unfolding p by simp
  then show ?thesis using len fits by (simp add: DecodeEntry_def)
qed

subsection \<open>The layout of a block\<close>

text \<open>The code of the entry \<open>i\<close>, of which the key shares \<open>sh i\<close> bytes, and its offset.\<close>

definition code :: "(nat \<Rightarrow> nat) \<Rightarrow> (bytes \<times> bytes) list \<Rightarrow> nat \<Rightarrow> bytes" where
  "code sh es i = entryBlock (sh i) (fst (es ! i)) (snd (es ! i)) []"

definition codes :: "(nat \<Rightarrow> nat) \<Rightarrow> (bytes \<times> bytes) list \<Rightarrow> nat \<Rightarrow> bytes" where
  "codes sh es n = concat (map (code sh es) [0..<n])"

definition off :: "(nat \<Rightarrow> nat) \<Rightarrow> (bytes \<times> bytes) list \<Rightarrow> nat \<Rightarrow> nat" where
  "off sh es n = length (codes sh es n)"

lemma codes_simps [simp]: "codes sh es 0 = []" "codes sh es (Suc n) = codes sh es n @ code sh es n"
  by (simp_all add: codes_def)

lemma off_simps [simp]: "off sh es 0 = 0" "off sh es (Suc n) = off sh es n + length (code sh es n)"
  by (simp_all add: off_def)

lemma code_length: "length (fst (es ! i)) - sh i + length (snd (es ! i)) + 3 \<le> length (code sh es i)"
proof -
  have one: "1 \<le> length (EncodeVarint32 w)" for w using length_varint(4) [of w] by (cases "EncodeVarint32 w") auto
  show ?thesis
    using one [of "of_nat (sh i)"] one [of "of_nat (length (fst (es ! i)) - sh i)"] one [of "of_nat (length (snd (es ! i)))"]
    by (simp add: code_def entryBlock_def PutVarint32_def)
qed

lemma off_less: "i < j \<Longrightarrow> off sh es i < off sh es j"
proof (induction j)
  case (Suc j)
  have "0 < length (code sh es j)" using code_length [of es j sh] by linarith
  then show ?case using Suc by (cases "i = j") auto
qed simp

lemma off_mono: "i \<le> j \<Longrightarrow> off sh es i \<le> off sh es j"
  using off_less [of i j sh es] by (cases "i = j") auto

lemma off_less_iff: "off sh es i < off sh es j \<longleftrightarrow> i < j"
  using off_less [of i j sh es] off_mono [of j i sh es] by (cases i j rule: linorder_cases) auto

lemma codes_split: "i \<le> n \<Longrightarrow> \<exists>rest. codes sh es n = codes sh es i @ rest"
proof (induction n)
  case (Suc n)
  then show ?case by (cases "i = Suc n") auto
qed simp

text \<open>What follows an offset.\<close>

lemma codes_drop:
  assumes "i < n" shows "\<exists>rest. drop (off sh es i) (codes sh es n) = code sh es i @ rest"
proof -
  obtain rest where rest: "codes sh es n = codes sh es (Suc i) @ rest"
    using codes_split [of "Suc i" n sh es] Suc_leI [OF assms] by blast
  show ?thesis unfolding rest by (simp add: off_def)
qed

definition laid :: "(bytes \<times> bytes) list \<Rightarrow> (nat \<Rightarrow> nat) \<Rightarrow> nat list \<Rightarrow> bytes \<Rightarrow> nat \<Rightarrow> bool" where
  "laid es sh rs dat restarts \<longleftrightarrow>
     restarts = off sh es (length es) \<and> take restarts dat = codes sh es (length es) \<and> restarts < 2 ^ 32 \<and>
     (\<forall>e \<in> set es. length (fst e) < 2 ^ 32) \<and>
     (\<forall>i < length es. sh i \<le> length (fst (es ! i)) \<and>
        (0 < i \<longrightarrow> sh i \<le> length (fst (es ! (i - 1))) \<and> take (sh i) (fst (es ! (i - 1))) = take (sh i) (fst (es ! i)))) \<and>
     rs \<noteq> [] \<and> rs ! 0 = 0 \<and> (\<forall>r \<in> set rs. sh r = 0) \<and> (\<forall>j < length rs. 0 < j \<longrightarrow> rs ! j < length es) \<and>
     (\<forall>j < length rs. unat (DecodeFixed32 (drop (restarts + j * 4) dat)) = off sh es (rs ! j))"

text \<open>The parts of an iterator that do not change.\<close>

definition inBlock :: "(bytes \<times> bytes) list \<Rightarrow> (nat \<Rightarrow> nat) \<Rightarrow> nat list \<Rightarrow> blockiter \<Rightarrow> bool" where
  "inBlock es sh rs it \<longleftrightarrow> laid es sh rs (bi_data it) (bi_restarts it) \<and> bi_num_restarts it = length rs \<and> bi_status it = sOK"

definition onEntry :: "(bytes \<times> bytes) list \<Rightarrow> (nat \<Rightarrow> nat) \<Rightarrow> nat list \<Rightarrow> blockiter \<Rightarrow> nat \<Rightarrow> bool" where
  "onEntry es sh rs it i \<longleftrightarrow> inBlock es sh rs it \<and> i < length es \<and> bi_current it = off sh es i \<and> bi_key it = fst (es ! i) \<and>
     bi_value it = (off sh es (Suc i) - length (snd (es ! i)), length (snd (es ! i))) \<and> bi_restart_index it < length rs"

definition atEnd :: "(bytes \<times> bytes) list \<Rightarrow> (nat \<Rightarrow> nat) \<Rightarrow> nat list \<Rightarrow> blockiter \<Rightarrow> bool" where
  "atEnd es sh rs it \<longleftrightarrow> inBlock es sh rs it \<and> bi_current it = bi_restarts it"

text \<open>Ready to parse the entry \<open>i\<close>.\<close>

definition ready :: "(bytes \<times> bytes) list \<Rightarrow> (nat \<Rightarrow> nat) \<Rightarrow> nat list \<Rightarrow> blockiter \<Rightarrow> nat \<Rightarrow> bool" where
  "ready es sh rs it i \<longleftrightarrow> inBlock es sh rs it \<and> i \<le> length es \<and> NextEntryOffset it = off sh es i \<and> bi_restart_index it < length rs \<and>
     (i < length es \<longrightarrow> sh i \<le> length (bi_key it) \<and> take (sh i) (bi_key it) = take (sh i) (fst (es ! i)))"

lemma laid_parts:
  assumes "laid es sh rs dat restarts" "i < length es"
  shows "sh i \<le> length (fst (es ! i))" "length (fst (es ! i)) < 2 ^ 32" "off sh es i < restarts" "off sh es (Suc i) \<le> restarts"
    "restarts < 2 ^ 32"
  using assms off_less [of i "length es" sh es] off_mono [of "Suc i" "length es" sh es] by (auto simp: laid_def)

lemma onEntry_value:
  assumes "onEntry es sh rs it i"
  shows "take (snd (bi_value it)) (drop (fst (bi_value it)) (bi_data it)) = snd (es ! i)"
proof -
  have l: "laid es sh rs (bi_data it) (bi_restarts it)" "i < length es"
    and v: "bi_value it = (off sh es (Suc i) - length (snd (es ! i)), length (snd (es ! i)))"
    using assms by (simp_all add: onEntry_def inBlock_def)
  obtain rest where rest: "codes sh es (length es) = codes sh es (Suc i) @ rest"
    using codes_split [of "Suc i" "length es" sh es] Suc_leI [OF l(2)] by blast
  obtain h where h: "code sh es i = h @ snd (es ! i)" by (simp add: code_def entryBlock_def)
  have "take (bi_restarts it) (bi_data it) = codes sh es (length es)" using l(1) unfolding laid_def by blast
  then have "take (bi_restarts it) (bi_data it) = (codes sh es i @ h) @ snd (es ! i) @ rest" using rest h by simp
  then have "bi_data it = (codes sh es i @ h) @ snd (es ! i) @ rest @ drop (bi_restarts it) (bi_data it)"
    by (metis append.assoc append_take_drop_id)
  then have "drop (length (codes sh es i @ h)) (bi_data it) = snd (es ! i) @ rest @ drop (bi_restarts it) (bi_data it)"
    by (metis append_eq_conv_conj)
  moreover have "off sh es (Suc i) - length (snd (es ! i)) = length (codes sh es i @ h)" using h by (simp add: off_def)
  ultimately show ?thesis unfolding v by simp
qed

lemma entriesFrom_code:
  assumes "inBlock es sh rs it" "i < length es"
  shows "\<exists>rest. entriesFrom it (off sh es i) = code sh es i @ rest \<and> length (entriesFrom it (off sh es i)) = bi_restarts it - off sh es i"
proof -
  have l: "laid es sh rs (bi_data it) (bi_restarts it)" using assms by (simp add: inBlock_def)
  then have t: "take (bi_restarts it) (bi_data it) = codes sh es (length es)" unfolding laid_def by blast
  have "bi_restarts it = off sh es (length es)" using l unfolding laid_def by blast
  then have "length (codes sh es (length es)) = bi_restarts it" by (simp add: off_def)
  then show ?thesis using codes_drop [OF assms(2), of sh es] by (auto simp: entriesFrom_def t)
qed

lemma DecodeEntry_at:
  assumes "inBlock es sh rs it" "i < length es"
  obtains rest where "DecodeEntry (entriesFrom it (off sh es i)) =
      Some (of_nat (sh i), of_nat (length (fst (es ! i)) - sh i), of_nat (length (snd (es ! i))), drop (sh i) (fst (es ! i)) @ snd (es ! i) @ rest)"
    "length (drop (sh i) (fst (es ! i)) @ snd (es ! i) @ rest) = bi_restarts it - (off sh es (Suc i) - (length (fst (es ! i)) - sh i + length (snd (es ! i))))"
    "length (fst (es ! i)) - sh i + length (snd (es ! i)) < 2 ^ 32"
proof -
  have l: "laid es sh rs (bi_data it) (bi_restarts it)" using assms(1) by (simp add: inBlock_def)
  note lp = laid_parts [OF l assms(2)]
  obtain rest where r: "entriesFrom it (off sh es i) = code sh es i @ rest" "length (entriesFrom it (off sh es i)) = bi_restarts it - off sh es i"
    using entriesFrom_code [OF assms] by auto
  have len: "length (code sh es i) + length rest = bi_restarts it - off sh es i" using r by simp
  show ?thesis
  proof
    show "DecodeEntry (entriesFrom it (off sh es i)) =
      Some (of_nat (sh i), of_nat (length (fst (es ! i)) - sh i), of_nat (length (snd (es ! i))), drop (sh i) (fst (es ! i)) @ snd (es ! i) @ rest)"
      by (rule DecodeEntry_entry) (use r lp in \<open>simp_all add: code_def\<close>)
    show "length (drop (sh i) (fst (es ! i)) @ snd (es ! i) @ rest) =
        bi_restarts it - (off sh es (Suc i) - (length (fst (es ! i)) - sh i + length (snd (es ! i))))"
      using len lp(3,4) code_length [of es i sh] by simp
    show "length (fst (es ! i)) - sh i + length (snd (es ! i)) < 2 ^ 32"
      using len lp(5) code_length [of es i sh] by simp
  qed
qed

lemma restartLoop_range: "i < bi_num_restarts it \<Longrightarrow> restartLoop it i < bi_num_restarts it"
  by (induction it i rule: restartLoop.induct) (subst restartLoop.simps, simp)

lemma ParseNextKey_entry:
  assumes r: "ready es sh rs it i" and i: "i < length es"
  shows "\<exists>it'. ParseNextKey it = Some (True, it') \<and> onEntry es sh rs it' i"
proof -
  have b: "inBlock es sh rs it" and n: "NextEntryOffset it = off sh es i"
    and k: "sh i \<le> length (bi_key it)" "take (sh i) (bi_key it) = take (sh i) (fst (es ! i))" "bi_restart_index it < length rs"
    using r i by (simp_all add: ready_def)
  have l: "laid es sh rs (bi_data it) (bi_restarts it)" "bi_num_restarts it = length rs" using b by (simp_all add: inBlock_def)
  note lp = laid_parts [OF l(1) i]
  let ?K = "fst (es ! i)" and ?V = "snd (es ! i)"
  obtain rest where d: "DecodeEntry (entriesFrom it (off sh es i)) =
      Some (of_nat (sh i), of_nat (length ?K - sh i), of_nat (length ?V), drop (sh i) ?K @ ?V @ rest)"
    and len: "length (drop (sh i) ?K @ ?V @ rest) = bi_restarts it - (off sh es (Suc i) - (length ?K - sh i + length ?V))"
    and small: "length ?K - sh i + length ?V < 2 ^ 32"
    using b i by (rule DecodeEntry_at)
  have u: "unat (of_nat (sh i) :: 32 word) = sh i" "unat (of_nat (length ?K - sh i) :: 32 word) = length ?K - sh i"
    "unat (of_nat (length ?V) :: 32 word) = length ?V"
    using lp(1,2) small by (simp_all add: unat_of_nat32 del: of_nat_diff)
  let ?p = "drop (sh i) ?K @ ?V @ rest"
  have val: "bi_restarts it - length ?p + (length ?K - sh i) = off sh es (Suc i) - length ?V"
    using len lp(1,4) code_length [of es i sh] by simp
  have fits: "\<not> length ?p < length ?K - sh i + length ?V" using lp(1) by simp
  let ?it2 = "it\<lparr>bi_current := off sh es i, bi_key := ?K, bi_value := (off sh es (Suc i) - length ?V, length ?V)\<rparr>"
  have "ParseNextKey it = Some (True, ?it2\<lparr>bi_restart_index := restartLoop ?it2 (bi_restart_index ?it2)\<rparr>)"
    using k(1) lp(3) val fits unfolding ParseNextKey_def Let_def n d
    by (simp add: u k(2) del: of_nat_diff length_append)
  moreover have "restartLoop ?it2 (bi_restart_index ?it2) < length rs"
    using restartLoop_range [of "bi_restart_index ?it2" ?it2] l(2) k(3) by simp
  ultimately show ?thesis using b i by (auto simp: onEntry_def inBlock_def)
qed

lemma ParseNextKey_end:
  "ready es sh rs it (length es) \<Longrightarrow> \<exists>it'. ParseNextKey it = Some (False, it') \<and> atEnd es sh rs it'"
  by (auto simp: ParseNextKey_def ready_def inBlock_def laid_def atEnd_def Let_def)

lemma onEntry_ready:
  assumes "onEntry es sh rs it i"
  shows "ready es sh rs it (Suc i)" "NextEntryOffset it = off sh es (Suc i)"
proof -
  have l: "laid es sh rs (bi_data it) (bi_restarts it)" using assms by (simp add: onEntry_def inBlock_def)
  show n: "NextEntryOffset it = off sh es (Suc i)"
    using assms code_length [of es i sh] by (simp add: onEntry_def NextEntryOffset_def)
  have "sh (Suc i) \<le> length (bi_key it) \<and> take (sh (Suc i)) (bi_key it) = take (sh (Suc i)) (fst (es ! Suc i))" if "Suc i < length es"
  proof -
    have "0 < Suc i \<longrightarrow> sh (Suc i) \<le> length (fst (es ! (Suc i - 1))) \<and>
        take (sh (Suc i)) (fst (es ! (Suc i - 1))) = take (sh (Suc i)) (fst (es ! Suc i))"
      using l that unfolding laid_def by blast
    then show ?thesis using assms by (simp add: onEntry_def)
  qed
  then show "ready es sh rs it (Suc i)" using assms n by (simp add: ready_def onEntry_def)
qed

lemma SeekToRestartPoint_ready:
  assumes "inBlock es sh rs it" "j < length rs"
  shows "GetRestartPoint it j = off sh es (rs ! j)" "ready es sh rs (SeekToRestartPoint j it) (rs ! j)"
proof -
  have l: "laid es sh rs (bi_data it) (bi_restarts it)" using assms by (simp add: inBlock_def)
  show g: "GetRestartPoint it j = off sh es (rs ! j)" using l assms(2) unfolding laid_def GetRestartPoint_def by blast
  have "sh (rs ! j) = 0" using l nth_mem [OF assms(2)] unfolding laid_def by blast
  moreover have "rs ! j \<le> length es"
  proof (cases "j = 0")
    case True
    moreover have "rs ! 0 = 0" using l unfolding laid_def by blast
    ultimately show ?thesis by simp
  next
    case False
    then have "0 < j \<longrightarrow> rs ! j < length es" using l assms(2) unfolding laid_def by blast
    then show ?thesis using False by simp
  qed
  ultimately show "ready es sh rs (SeekToRestartPoint j it) (rs ! j)"
    using assms g by (simp add: ready_def SeekToRestartPoint_def NextEntryOffset_def inBlock_def)
qed

subsection \<open>Moving\<close>

lemma ParseNextKey_ready:
  assumes "ready es sh rs it i"
  shows "\<exists>it'. ParseNextKey it = Some (i < length es, it') \<and> (if i < length es then onEntry es sh rs it' i else atEnd es sh rs it')"
proof (cases "i < length es")
  case True
  then show ?thesis using ParseNextKey_entry [OF assms] by auto
next
  case False
  then have "i = length es" using assms by (simp add: ready_def)
  then show ?thesis using ParseNextKey_end assms by auto
qed

lemma parseUntil_entries:
  assumes "ready es sh rs it i" "i \<le> m" "m < length es"
  shows "\<exists>it'. parseUntil (off sh es (Suc m)) it = Some it' \<and> onEntry es sh rs it' m"
  using assms
proof (induction "m - i" arbitrary: i it)
  case 0
  then have "i = m" by simp
  then obtain it' where it': "ParseNextKey it = Some (True, it')" "onEntry es sh rs it' m"
    using ParseNextKey_entry 0 by blast
  then show ?case using onEntry_ready(2) [OF it'(2)] by (subst parseUntil.simps) simp
next
  case (Suc d)
  then have i: "i < length es" "Suc i \<le> m" "i < m" by simp_all
  then obtain it' where it': "ParseNextKey it = Some (True, it')" "onEntry es sh rs it' i"
    using ParseNextKey_entry Suc.prems(1) by blast
  have "NextEntryOffset it' < off sh es (Suc m)" using onEntry_ready(2) [OF it'(2)] off_less [of "Suc i" "Suc m" sh es] i by simp
  then have "parseUntil (off sh es (Suc m)) it = parseUntil (off sh es (Suc m)) it'" using it'(1) by (subst parseUntil.simps) simp
  moreover have "d = m - Suc i" using Suc.hyps(2) by simp
  ultimately show ?case using Suc.hyps(1) [OF _ onEntry_ready(1) [OF it'(2)] i(2) Suc.prems(3)] by simp
qed

lemma restartBack_spec:
  assumes "inBlock es sh rs it" "j < length rs"
  shows "case restartBack it (off sh es i) j of None \<Rightarrow> i = 0 | Some j' \<Rightarrow> j' \<le> j \<and> rs ! j' < i"
  using assms(2)
proof (induction j)
  case 0
  have "rs ! 0 = 0" using assms(1) unfolding inBlock_def laid_def by blast
  then show ?case using SeekToRestartPoint_ready(1) [OF assms(1) 0] off_less_iff [of sh es 0 i]
    by (auto simp del: off_simps(2))
next
  case (Suc j)
  have g: "GetRestartPoint it (Suc j) = off sh es (rs ! Suc j)" by (rule SeekToRestartPoint_ready(1) [OF assms(1) Suc.prems])
  have "off sh es i \<le> off sh es (rs ! Suc j) \<longleftrightarrow> i \<le> rs ! Suc j" using off_less_iff [of sh es "rs ! Suc j" i] by linarith
  then show ?case using Suc g by (auto split: option.splits)
qed

lemma SeekToRestartPoint_first:
  assumes "inBlock es sh rs it" shows "ready es sh rs (SeekToRestartPoint 0 it) 0"
proof -
  have "rs ! 0 = 0" "0 < length rs" using assms unfolding inBlock_def laid_def by (blast, simp)
  then show ?thesis using SeekToRestartPoint_ready(2) [OF assms, of 0] by simp
qed

text \<open>Where the iterator is, as the contract of iterators says it.\<close>

definition blockPos :: "(bytes \<times> bytes) list \<Rightarrow> (nat \<Rightarrow> nat) \<Rightarrow> nat list \<Rightarrow> blockiter \<Rightarrow> nat option \<Rightarrow> bool" where
  "blockPos es sh rs it p = (case p of None \<Rightarrow> atEnd es sh rs it | Some i \<Rightarrow> onEntry es sh rs it i)"

lemma blockPos_inBlock: "blockPos es sh rs it p \<Longrightarrow> inBlock es sh rs it"
  by (auto simp: blockPos_def atEnd_def onEntry_def split: option.splits)

lemma ParseNextKey_pos:
  assumes "ready es sh rs it i"
  shows "\<exists>it'. ParseNextKey it = Some (i < length es, it') \<and> blockPos es sh rs it' (atPos i es)"
  using ParseNextKey_ready [OF assms] by (auto simp: blockPos_def atPos_def)

lemma bi_Next_pos: "onEntry es sh rs it i \<Longrightarrow> \<exists>it'. bi_Next it = Some it' \<and> blockPos es sh rs it' (atPos (Suc i) es)"
  using ParseNextKey_pos [OF onEntry_ready(1)] by (fastforce simp: bi_Next_def)

lemma bi_SeekToFirst_pos: "inBlock es sh rs it \<Longrightarrow> \<exists>it'. bi_SeekToFirst it = Some it' \<and> blockPos es sh rs it' (atPos 0 es)"
  using ParseNextKey_pos [OF SeekToRestartPoint_first] by (fastforce simp: bi_SeekToFirst_def)

lemma bi_Prev_pos:
  assumes "onEntry es sh rs it i"
  shows "\<exists>it'. bi_Prev it = Some it' \<and> blockPos es sh rs it' (beforePos i)"
proof -
  have b: "inBlock es sh rs it" "i < length es" "bi_current it = off sh es i" "bi_restart_index it < length rs"
    using assms by (simp_all add: onEntry_def)
  note rb = restartBack_spec [OF b(1,4), of i]
  show ?thesis
  proof (cases "restartBack it (off sh es i) (bi_restart_index it)")
    case None
    then have "i = 0" using rb by simp
    then show ?thesis using None b(1,3) by (simp add: bi_Prev_def blockPos_def atEnd_def inBlock_def)
  next
    case (Some j)
    then have j: "j < length rs" "rs ! j < i" using rb b(4) by simp_all
    then have m: "rs ! j \<le> i - 1" "i - 1 < length es" "Suc (i - 1) = i" using b(2) by simp_all
    obtain it' where "parseUntil (off sh es i) (SeekToRestartPoint j it) = Some it'" "onEntry es sh rs it' (i - 1)"
      using parseUntil_entries [OF SeekToRestartPoint_ready(2) [OF b(1) j(1)] m(1,2)] unfolding m(3) by blast
    then show ?thesis using Some b(3) j(2) by (simp add: bi_Prev_def blockPos_def beforePos_def)
  qed
qed

lemma bi_SeekToLast_pos:
  assumes "inBlock es sh rs it"
  shows "\<exists>it'. bi_SeekToLast it = Some it' \<and> blockPos es sh rs it' (beforePos (length es))"
proof -
  let ?j = "length rs - 1"
  have l: "laid es sh rs (bi_data it) (bi_restarts it)" "bi_num_restarts it = length rs" using assms by (simp_all add: inBlock_def)
  have end': "bi_restarts it = off sh es (length es)" and rs: "rs \<noteq> []" "rs ! 0 = 0" and jr: "0 < ?j \<longrightarrow> rs ! ?j < length es"
    using l(1) unfolding laid_def by (blast, blast, blast, simp)
  have r: "ready es sh rs (SeekToRestartPoint ?j it) (rs ! ?j)" using SeekToRestartPoint_ready(2) [OF assms, of ?j] rs by simp
  show ?thesis
  proof (cases "es = []")
    case True
    then have "rs ! ?j = 0" using rs jr by (cases "?j = 0") simp_all
    then obtain it' where "ParseNextKey (SeekToRestartPoint ?j it) = Some (False, it')" "atEnd es sh rs it'"
      using ParseNextKey_ready [OF r] True by auto
    then show ?thesis using l(2) True by (simp add: bi_SeekToLast_def parseUntil.simps blockPos_def)
  next
    case False
    then have m: "rs ! ?j \<le> length es - 1" "length es - 1 < length es" "Suc (length es - 1) = length es"
      using rs jr by (cases "?j = 0"; auto)+
    then show ?thesis
      using parseUntil_entries [OF r m(1,2)] l(2) unfolding m(3) end' [symmetric]
      by (auto simp: bi_SeekToLast_def blockPos_def beforePos_def)
  qed
qed

subsection \<open>Seeking\<close>

lemma searchRestart_spec:
  assumes "inBlock es sh rs it" "right < length rs" "left \<le> right"
    and "left = 0 \<or> cmp_Compare C (fst (es ! (rs ! left))) target < 0"
  shows "\<exists>left'. searchRestart C target it left right = Some (Some left') \<and> left' < length rs \<and>
    (left' = 0 \<or> cmp_Compare C (fst (es ! (rs ! left'))) target < 0)"
  using assms
proof (induction "right - left" arbitrary: left right rule: less_induct)
  case less
  show ?case
  proof (cases "left < right")
    case False
    then show ?thesis using less.prems by (subst searchRestart.simps) auto
  next
    case True
    obtain mid where mid_eq: "mid = (left + right + 1) div 2" by blast
    then have mid: "left < mid" "mid \<le> right" using True by linarith+
    have l: "laid es sh rs (bi_data it) (bi_restarts it)" using less.prems(1) by (simp add: inBlock_def)
    have jm: "mid < length rs" using mid less.prems(2) by simp
    have "0 < mid \<longrightarrow> rs ! mid < length es" and s: "sh (rs ! mid) = 0"
      using l jm nth_mem [OF jm] unfolding laid_def by (blast, blast)
    then have m: "rs ! mid < length es" using mid(1) by simp
    let ?K = "fst (es ! (rs ! mid))"
    have g: "GetRestartPoint it mid = off sh es (rs ! mid)" by (rule SeekToRestartPoint_ready(1) [OF less.prems(1) jm])
    obtain rest where d0: "DecodeEntry (entriesFrom it (off sh es (rs ! mid))) =
        Some (of_nat (sh (rs ! mid)), of_nat (length ?K - sh (rs ! mid)), of_nat (length (snd (es ! (rs ! mid)))),
              drop (sh (rs ! mid)) ?K @ snd (es ! (rs ! mid)) @ rest)"
      by (rule DecodeEntry_at [OF less.prems(1) m]) blast
    have "unat (of_nat (length ?K) :: 32 word) = length ?K" using laid_parts(2) [OF l m] by (rule unat_of_nat32)
    then obtain n v rest' where d: "DecodeEntry (entriesFrom it (off sh es (rs ! mid))) = Some (0, n, v, ?K @ rest')" "unat n = length ?K"
      using d0 unfolding s drop_0 diff_zero semiring_1_class.of_nat_simps(1) by blast
    have e: "searchRestart C target it left right =
        (if cmp_Compare C ?K target < 0 then searchRestart C target it mid right else searchRestart C target it left (mid - 1))"
      by (subst searchRestart.simps) (simp only: Let_def mid_eq [symmetric] g d True, simp add: d(2))
    show ?thesis
    proof (cases "cmp_Compare C ?K target < 0")
      case before: True
      have "right - mid < right - left" using mid True by arith
      then show ?thesis unfolding e using less.hyps [OF _ less.prems(1,2) mid(2)] before by simp
    next
      case behind: False
      have "mid - 1 - left < right - left" "mid - 1 < length rs" "left \<le> mid - 1" using mid True jm by arith+
      then show ?thesis unfolding e using less.hyps [OF _ less.prems(1), of "mid - 1" left] less.prems(4) behind by simp
    qed
  qed
qed

text \<open>Stepping until a key is not before the target, over entries that are all before it.\<close>

lemma seekLoop_spec:
  assumes "ready es sh rs it i" "i \<le> countBefore (cmp_Compare C) target es"
  shows "\<exists>it'. seekLoop C target it = Some it' \<and> blockPos es sh rs it' (atPos (countBefore (cmp_Compare C) target es) es)"
  using assms
proof (induction "countBefore (cmp_Compare C) target es - i" arbitrary: i it)
  case 0
  let ?c = "countBefore (cmp_Compare C) target es"
  have i: "i = ?c" using 0 by simp
  obtain it' where it': "ParseNextKey it = Some (?c < length es, it')" "blockPos es sh rs it' (atPos ?c es)"
    using ParseNextKey_pos [OF 0(2)] i by blast
  have "?c < length es \<Longrightarrow> bi_key it' = fst (es ! ?c) \<and> \<not> cmp_Compare C (fst (es ! ?c)) target < 0"
    using it'(2) countBefore_end [of "cmp_Compare C" target es] by (simp add: blockPos_def atPos_def onEntry_def)
  then show ?case using it' by (subst seekLoop.simps) auto
next
  case (Suc d)
  let ?c = "countBefore (cmp_Compare C) target es"
  have i: "i < ?c" "i < length es" using Suc.hyps(2) countBefore_le [of "cmp_Compare C" target es] by simp_all
  obtain it' where it': "ParseNextKey it = Some (True, it')" "onEntry es sh rs it' i"
    using ParseNextKey_entry [OF Suc.prems(1) i(2)] by blast
  have "cmp_Compare C (bi_key it') target < 0" using it'(2) countBefore_nth [OF i(1)] by (simp add: onEntry_def)
  then have "seekLoop C target it = seekLoop C target it'" using it'(1) by (subst seekLoop.simps) simp
  moreover have "d = ?c - Suc i" using Suc.hyps(2) by simp
  ultimately show ?case using Suc.hyps(1) [OF _ onEntry_ready(1) [OF it'(2)]] i by simp
qed

lemma bi_Seek_pos:
  assumes "ordering (cmp_Compare C)" "sorted_wrt (\<lambda>a b. cmp_Compare C (fst a) (fst b) < 0) es" "inBlock es sh rs it"
  shows "\<exists>it'. bi_Seek C target it = Some it' \<and> blockPos es sh rs it' (atPos (countBefore (cmp_Compare C) target es) es)"
proof -
  let ?c = "countBefore (cmp_Compare C) target es"
  have l: "laid es sh rs (bi_data it) (bi_restarts it)" "bi_num_restarts it = length rs" using assms(3) by (simp_all add: inBlock_def)
  have rs: "rs \<noteq> []" "rs ! 0 = 0" using l(1) unfolding laid_def by (blast, blast)
  obtain j where j: "searchRestart C target it 0 (length rs - 1) = Some (Some j)" "j < length rs"
    "j = 0 \<or> cmp_Compare C (fst (es ! (rs ! j))) target < 0"
    using searchRestart_spec [OF assms(3), of "length rs - 1" 0 C target] rs(1) by auto
  have "rs ! j \<le> ?c"
  proof (rule ccontr)
    assume "\<not> rs ! j \<le> ?c"
    then have lt: "?c < rs ! j" by simp
    then have "0 < j" using rs(2) by (cases j) auto
    then have m: "rs ! j < length es" and b: "cmp_Compare C (fst (es ! (rs ! j))) target < 0"
      using l(1) j unfolding laid_def by (blast, simp)
    have "cmp_Compare C (fst (es ! ?c)) (fst (es ! (rs ! j))) < 0"
      using assms(2) lt m by (simp add: sorted_wrt_iff_nth_less)
    then have "cmp_Compare C (fst (es ! ?c)) target < 0" using ordering.less_trans [OF assms(1)] b by (meson less_imp_le)
    then show False using countBefore_end [of "cmp_Compare C" target es] lt m by simp
  qed
  then show ?thesis
    using seekLoop_spec [OF SeekToRestartPoint_ready(2) [OF assms(3) j(2)]] j(1) l(2) by (simp add: bi_Seek_def)
qed

subsection \<open>The contract of iterators\<close>

definition blockAt :: "comparator \<Rightarrow> blockiter \<Rightarrow> (bytes \<times> bytes) list \<Rightarrow> nat option \<Rightarrow> bool" where
  "blockAt C it es p \<longleftrightarrow> sorted_wrt (\<lambda>a b. cmp_Compare C (fst a) (fst b) < 0) es \<and> (\<exists>sh rs. blockPos es sh rs it p)"

lemma block_ops:
  assumes "ordering (cmp_Compare C)" "blockAt C it es p"
  shows "p = Some i \<Longrightarrow> i < length es"
    "i_Valid (BlockIter C) it \<longleftrightarrow> p \<noteq> None"
    "p = Some i \<Longrightarrow> i_key (BlockIter C) it = fst (es ! i)"
    "p = Some i \<Longrightarrow> i_value (BlockIter C) it = snd (es ! i)"
    "i_status (BlockIter C) it = sOK"
    "\<exists>it'. i_SeekToFirst (BlockIter C) it = Some it' \<and> blockAt C it' es (atPos 0 es)"
    "\<exists>it'. i_SeekToLast (BlockIter C) it = Some it' \<and> blockAt C it' es (beforePos (length es))"
    "\<exists>it'. i_Seek (BlockIter C) k it = Some it' \<and> blockAt C it' es (atPos (countBefore (cmp_Compare C) k es) es)"
    "p = Some i \<Longrightarrow> \<exists>it'. i_Next (BlockIter C) it = Some it' \<and> blockAt C it' es (atPos (Suc i) es)"
    "p = Some i \<Longrightarrow> \<exists>it'. i_Prev (BlockIter C) it = Some it' \<and> blockAt C it' es (beforePos i)"
proof -
  have sorted: "sorted_wrt (\<lambda>a b. cmp_Compare C (fst a) (fst b) < 0) es" using assms(2) by (simp add: blockAt_def)
  obtain sh rs where pos: "blockPos es sh rs it p" using assms(2) by (auto simp: blockAt_def)
  note b = blockPos_inBlock [OF pos]
  have on: "onEntry es sh rs it i" if "p = Some i" for i using pos that by (simp add: blockPos_def)
  have to: "\<exists>it'. op = Some it' \<and> blockAt C it' es q" if "\<exists>it'. op = Some it' \<and> blockPos es sh rs it' q" for op q
    using that sorted by (auto simp: blockAt_def)
  show "p = Some i \<Longrightarrow> i < length es" using on by (simp add: onEntry_def)
  show "i_Valid (BlockIter C) it \<longleftrightarrow> p \<noteq> None"
  proof (cases p)
    case None
    then show ?thesis using pos by (simp add: BlockIter_def blockPos_def atEnd_def)
  next
    case (Some j)
    then have "off sh es j < bi_restarts it" "bi_current it = off sh es j"
      using laid_parts(3) [of es sh rs "bi_data it" "bi_restarts it" j] on [OF Some] by (simp_all add: onEntry_def inBlock_def)
    then show ?thesis using Some by (simp add: BlockIter_def)
  qed
  show "p = Some i \<Longrightarrow> i_key (BlockIter C) it = fst (es ! i)" using on by (simp add: BlockIter_def onEntry_def)
  show "p = Some i \<Longrightarrow> i_value (BlockIter C) it = snd (es ! i)" using onEntry_value on by (simp add: BlockIter_def)
  show "i_status (BlockIter C) it = sOK" using b by (simp add: BlockIter_def inBlock_def)
  show "\<exists>it'. i_SeekToFirst (BlockIter C) it = Some it' \<and> blockAt C it' es (atPos 0 es)"
    using to [OF bi_SeekToFirst_pos [OF b]] by (simp add: BlockIter_def)
  show "\<exists>it'. i_SeekToLast (BlockIter C) it = Some it' \<and> blockAt C it' es (beforePos (length es))"
    using to [OF bi_SeekToLast_pos [OF b]] by (simp add: BlockIter_def)
  show "\<exists>it'. i_Seek (BlockIter C) k it = Some it' \<and> blockAt C it' es (atPos (countBefore (cmp_Compare C) k es) es)"
    using to [OF bi_Seek_pos [OF assms(1) sorted b]] by (simp add: BlockIter_def)
  show "p = Some i \<Longrightarrow> \<exists>it'. i_Next (BlockIter C) it = Some it' \<and> blockAt C it' es (atPos (Suc i) es)"
    using to [OF bi_Next_pos [OF on]] by (simp add: BlockIter_def)
  show "p = Some i \<Longrightarrow> \<exists>it'. i_Prev (BlockIter C) it = Some it' \<and> blockAt C it' es (beforePos i)"
    using to [OF bi_Prev_pos [OF on]] by (simp add: BlockIter_def)
qed

lemma block_iterates: "ordering (cmp_Compare C) \<Longrightarrow> iterates (BlockIter C) (cmp_Compare C) N (blockAt C)"
  by (rule iterates.intro) (rule block_ops, assumption, assumption, (assumption | rule HOL.refl)?)+

interpretation bytewise_block: iterates "BlockIter BytewiseComparator" "cmp_Compare BytewiseComparator" "2 ^ 32" "blockAt BytewiseComparator"
  by (rule block_iterates) (rule bytewise.ordering_axioms)

end
