(* ===== verification/LdbBlockBuilt.thy ===== *)
theory LdbBlockBuilt
  imports LdbBlockLaws
begin

text \<open>
  What a block builder writes is laid out as the iterator of a block expects it, whatever the
  distance of the restart points.
\<close>

lemma sharedLength_prefix:
  "sharedLength a b \<le> length a" "sharedLength a b \<le> length b" "take (sharedLength a b) a = take (sharedLength a b) b"
  by (induction a b rule: sharedLength.induct) auto

lemma sharedLength_empty [simp]: "sharedLength [] b = 0"
  by simp

lemma code_cong: "i < length es \<Longrightarrow> s i = sh i \<Longrightarrow> code s (es @ xs) i = code sh es i"
  by (simp add: code_def nth_append)

lemma codes_cong: "n \<le> length es \<Longrightarrow> (\<And>i. i < n \<Longrightarrow> s i = sh i) \<Longrightarrow> codes s (es @ xs) n = codes sh es n"
  unfolding codes_def by (rule arg_cong [where f = concat], rule map_cong [OF HOL.refl]) (simp add: code_cong)

lemma entryBlock_append: "entryBlock shared k v buf = buf @ entryBlock shared k v []"
  by (simp add: entryBlock_def PutVarint32_def)

text \<open>The entries so far, how many bytes of its key each one shares, and the restart points.\<close>

definition building :: "(bytes \<times> bytes) list \<Rightarrow> (nat \<Rightarrow> nat) \<Rightarrow> nat list \<Rightarrow> blockbuilder \<Rightarrow> bool" where
  "building es sh rs b \<longleftrightarrow>
     bb_buffer b = codes sh es (length es) \<and> bb_restarts b = map (\<lambda>r. of_nat (off sh es r)) rs \<and>
     (\<forall>i < length es. sh i \<le> length (fst (es ! i)) \<and>
        (0 < i \<longrightarrow> sh i \<le> length (fst (es ! (i - 1))) \<and> take (sh i) (fst (es ! (i - 1))) = take (sh i) (fst (es ! i)))) \<and>
     rs \<noteq> [] \<and> rs ! 0 = 0 \<and> sh 0 = 0 \<and> (\<forall>r \<in> set rs. sh r = 0 \<and> (r = 0 \<or> r < length es)) \<and>
     (\<forall>j < length rs. 0 < j \<longrightarrow> rs ! j < length es) \<and>
     bb_last_key b = (if es = [] then [] else fst (last es))"

lemma building_Reset: "building [] (\<lambda>_. 0) [0] bb_Reset"
  by (simp add: building_def bb_Reset_def)

lemma building_Add:
  assumes b: "building es sh rs b"
  shows "\<exists>sh' rs'. building (es @ [(k, v)]) sh' rs' (bb_Add N k v b)"
proof -
  let ?n = "length es" and ?es = "es @ [(k, v)]"
  define shared where "shared = (if bb_counter b < N then sharedLength (bb_last_key b) k else 0)"
  define rs' where "rs' = (if bb_counter b < N then rs else rs @ [?n])"
  define sh' where "sh' = sh(?n := shared)"
  have B: "bb_buffer b = codes sh es ?n" "bb_restarts b = map (\<lambda>r. of_nat (off sh es r)) rs"
    "\<forall>i < ?n. sh i \<le> length (fst (es ! i)) \<and>
        (0 < i \<longrightarrow> sh i \<le> length (fst (es ! (i - 1))) \<and> take (sh i) (fst (es ! (i - 1))) = take (sh i) (fst (es ! i)))"
    "rs \<noteq> []" "rs ! 0 = 0" "sh 0 = 0" "\<forall>r \<in> set rs. sh r = 0 \<and> (r = 0 \<or> r < ?n)"
    "\<forall>j < length rs. 0 < j \<longrightarrow> rs ! j < ?n" "bb_last_key b = (if es = [] then [] else fst (last es))"
    using b unfolding building_def by blast+
  have s: "shared \<le> length k" "shared \<le> length (bb_last_key b)" "take shared (bb_last_key b) = take shared k"
    using sharedLength_prefix [of "bb_last_key b" k] by (simp_all add: shared_def)
  have s0: "es = [] \<Longrightarrow> shared = 0" using B(9) by (simp add: shared_def)
  have c: "codes sh' ?es m = codes sh es m" if "m \<le> ?n" for m by (rule codes_cong) (use that in \<open>auto simp: sh'_def\<close>)
  have o: "off sh' ?es m = off sh es m" if "m \<le> ?n" for m using c [OF that] by (simp add: off_def)
  have last: "code sh' ?es ?n = entryBlock shared k v []" by (simp add: code_def sh'_def)
  have le: "r \<le> ?n" if "r \<in> set rs" for r using B(7) that by fastforce
  have buffer: "bb_buffer (bb_Add N k v b) = codes sh' ?es (Suc ?n)"
    using entryBlock_append [of shared k v "bb_buffer b"] c [of ?n] last B(1)
    by (cases "bb_counter b < N") (simp_all add: bb_Add_def Let_def shared_def)
  have restarts: "bb_restarts (bb_Add N k v b) = map (\<lambda>r. of_nat (off sh' ?es r)) rs'"
    using B(1,2) le o by (simp add: bb_Add_def rs'_def Let_def) (simp add: off_def c)
  have key: "bb_last_key (bb_Add N k v b) = k"
    using s(3) append_take_drop_id [of shared k] by (simp add: bb_Add_def Let_def shared_def split: if_splits)
  have shares: "sh' i \<le> length (fst (?es ! i)) \<and>
      (0 < i \<longrightarrow> sh' i \<le> length (fst (?es ! (i - 1))) \<and> take (sh' i) (fst (?es ! (i - 1))) = take (sh' i) (fst (?es ! i)))"
    if "i < length ?es" for i
  proof (cases "i < ?n")
    case True
    then have "i - 1 < ?n" "i < ?n" by simp_all
    then have "?es ! i = es ! i" "?es ! (i - 1) = es ! (i - 1)" "sh' i = sh i" by (simp_all only: nth_append sh'_def if_True fun_upd_apply, simp)
    then show ?thesis using B(3) True by simp
  next
    case False
    then have i: "i = ?n" using that by simp
    have "0 < ?n \<Longrightarrow> ?es ! (?n - 1) = last es" by (simp add: nth_append last_conv_nth)
    then show ?thesis using s B(9) unfolding i by (auto simp: sh'_def)
  qed
  have "building ?es sh' rs' (bb_Add N k v b)"
    unfolding building_def
  proof (intro conjI)
    show "bb_buffer (bb_Add N k v b) = codes sh' ?es (length ?es)" using buffer by simp
    show "bb_restarts (bb_Add N k v b) = map (\<lambda>r. of_nat (off sh' ?es r)) rs'" by (rule restarts)
    show "\<forall>i < length ?es. sh' i \<le> length (fst (?es ! i)) \<and>
      (0 < i \<longrightarrow> sh' i \<le> length (fst (?es ! (i - 1))) \<and> take (sh' i) (fst (?es ! (i - 1))) = take (sh' i) (fst (?es ! i)))"
      using shares by blast
    show "rs' \<noteq> []" "rs' ! 0 = 0" using B(4,5) by (simp_all add: rs'_def nth_append)
    show "sh' 0 = 0" using B(6) s0 by (auto simp: sh'_def)
    show "\<forall>r \<in> set rs'. sh' r = 0 \<and> (r = 0 \<or> r < length ?es)"
      using B(7) s0 by (auto simp: rs'_def sh'_def shared_def)
    show "\<forall>j < length rs'. 0 < j \<longrightarrow> rs' ! j < length ?es" using B(8) by (auto simp: rs'_def nth_append less_Suc_eq)
    show "bb_last_key (bb_Add N k v b) = (if ?es = [] then [] else fst (last ?es))" using key by simp
  qed
  then show ?thesis by blast
qed

lemma building_all: "\<exists>sh rs. building es sh rs (foldl (\<lambda>b (k, v). bb_Add N k v b) bb_Reset es)"
proof (induction es rule: rev_induct)
  case Nil
  then show ?case using building_Reset by auto
next
  case (snoc e es)
  then show ?case using building_Add by (cases e) auto
qed

text \<open>A key is not longer than the entries up to it.\<close>

lemma key_length:
  assumes "\<forall>i < length es. 0 < i \<longrightarrow> sh i \<le> length (fst (es ! (i - 1)))" "sh 0 = 0" "i < length es"
  shows "length (fst (es ! i)) \<le> off sh es (Suc i)"
  using assms(3)
proof (induction i)
  case 0
  then show ?case using code_length [of es 0 sh] assms(2) by simp
next
  case (Suc i)
  have "sh (Suc i) \<le> length (fst (es ! i))" using assms(1) Suc.prems by fastforce
  moreover have "length (fst (es ! i)) \<le> off sh es (Suc i)" using Suc by simp
  moreover have "length (fst (es ! Suc i)) - sh (Suc i) \<le> length (code sh es (Suc i))" using code_length [of es "Suc i" sh] by linarith
  ultimately show ?case by simp
qed

lemma foldl_PutFixed32: "foldl PutFixed32 buf ws = buf @ concat (map EncodeFixed32 ws)"
  by (induction ws arbitrary: buf) (simp_all add: PutFixed32_def)

lemma concat_fixed:
  "length (concat (map EncodeFixed32 ws)) = 4 * length ws"
  "j < length ws \<Longrightarrow> DecodeFixed32 (drop (j * 4) (concat (map EncodeFixed32 ws) @ rest)) = ws ! j"
proof (induction ws arbitrary: j)
  case (Cons w ws)
  {
    case 1
    then show ?case using Cons by simp
  next
    case 2
    then show ?case using Cons by (cases j) simp_all
  }
qed simp_all

lemma Finish_block:
  assumes b: "building es sh rs b" and small: "length (fst (bb_Finish b)) < 2 ^ 32"
  shows "bk_NewIterator (Block (fst (bb_Finish b))) = Inr (newBlockIter (fst (bb_Finish b)) (off sh es (length es)) (length rs))"
    "laid es sh rs (fst (bb_Finish b)) (off sh es (length es))"
proof -
  let ?m = "off sh es (length es)" and ?c = "fst (bb_Finish b)"
  define ws where "ws = bb_restarts b"
  define tl where "tl = concat (map EncodeFixed32 ws)"
  have B: "bb_buffer b = codes sh es (length es)" "ws = map (\<lambda>r. of_nat (off sh es r)) rs"
    "\<forall>i < length es. sh i \<le> length (fst (es ! i)) \<and>
        (0 < i \<longrightarrow> sh i \<le> length (fst (es ! (i - 1))) \<and> take (sh i) (fst (es ! (i - 1))) = take (sh i) (fst (es ! i)))"
    "rs \<noteq> []" "rs ! 0 = 0" "sh 0 = 0" "\<forall>r \<in> set rs. sh r = 0 \<and> (r = 0 \<or> r < length es)"
    "\<forall>j < length rs. 0 < j \<longrightarrow> rs ! j < length es"
    using b unfolding building_def ws_def by blast+
  have lws: "length ws = length rs" using B(2) by simp
  have c: "?c = codes sh es (length es) @ tl @ EncodeFixed32 (of_nat (length rs))"
    using B(1) lws by (simp add: bb_Finish_def Let_def foldl_PutFixed32 tl_def ws_def) (simp add: PutFixed32_def)
  have ltl: "length tl = 4 * length rs" using concat_fixed(1) [of ws] lws by (simp add: tl_def)
  have lc: "length ?c = ?m + 4 * length rs + 4" unfolding c using ltl by (simp add: off_def)
  have "drop (length ?c - 4) ?c = EncodeFixed32 (of_nat (length rs)) @ []" unfolding lc unfolding c using ltl by (simp add: off_def)
  then have n: "NumRestarts (length ?c) ?c = of_nat (length rs)" unfolding NumRestarts_def using DecodeFixed32 [of _ "[]"] by simp
  have small_rs: "Suc (length rs) < 2 ^ 32" "?m < 2 ^ 32" using small lc by simp_all
  have un: "unat (of_nat (length rs) :: 32 word) = length rs" using small_rs(1) by (intro unat_of_nat32) simp
  have un1: "unat (1 + of_nat (length rs) :: 32 word) = Suc (length rs)" using unat_of_nat32 [OF small_rs(1)] by simp
  have um: "unat (of_nat (length ?c - Suc (length rs) * 4) :: 32 word) = ?m" using unat_of_nat32 [OF small_rs(2)] unfolding lc by simp
  have "(length ?c - 4) div 4 \<ge> length rs" unfolding lc by simp
  then have "Block ?c = \<lparr>bk_data = ?c, bk_size = length ?c, bk_restart_offset = ?m\<rparr>"
    unfolding Block_def Let_def n un un1 um using lc by simp
  moreover have "(of_nat (length rs) :: 32 word) \<noteq> 0" using un B(4) by auto
  ultimately show "bk_NewIterator (Block ?c) = Inr (newBlockIter ?c ?m (length rs))"
    using n [unfolded lc] un lc by (simp add: bk_NewIterator_def)
  have keys: "\<forall>e \<in> set es. length (fst e) < 2 ^ 32"
  proof
    fix e assume "e \<in> set es"
    then obtain i where i: "i < length es" "e = es ! i" by (auto simp: in_set_conv_nth)
    have "length (fst (es ! i)) \<le> off sh es (Suc i)" by (rule key_length) (use B(3,6) i in auto)
    also have "\<dots> \<le> ?m" using off_mono i(1) by (simp add: Suc_le_eq del: off_simps)
    finally show "length (fst e) < 2 ^ 32" using small_rs(2) i(2) by simp
  qed
  have points: "unat (DecodeFixed32 (drop (?m + j * 4) ?c)) = off sh es (rs ! j)" if j: "j < length rs" for j
  proof -
    have "drop (?m + j * 4) ?c = drop (j * 4) (tl @ EncodeFixed32 (of_nat (length rs)))" unfolding c by (simp add: off_def add.commute flip: drop_drop)
    then have "DecodeFixed32 (drop (?m + j * 4) ?c) = of_nat (off sh es (rs ! j))"
      using concat_fixed(2) [of j ws "EncodeFixed32 (of_nat (length rs))"] j lws B(2) by (simp add: tl_def)
    moreover have "off sh es (rs ! j) \<le> ?m"
    proof (rule off_mono)
      show "rs ! j \<le> length es" using B(7) nth_mem [OF j] by fastforce
    qed
    ultimately show ?thesis using small_rs(2) unat_of_nat32 [of "off sh es (rs ! j)"] by simp
  qed
  have "take ?m ?c = codes sh es (length es)" unfolding c by (simp add: off_def)
  then show "laid es sh rs ?c ?m" unfolding laid_def using keys points B small_rs(2) by blast
qed

text \<open>The estimate of the size is exact, and grows by the entry and at most 19 bytes.\<close>

lemma Finish_length: "length (fst (bb_Finish b)) = CurrentSizeEstimate b"
  by (simp add: bb_Finish_def Let_def foldl_PutFixed32 PutFixed32_def concat_fixed(1) CurrentSizeEstimate_def)

lemma Add_length: "CurrentSizeEstimate (bb_Add N k v b) \<le> CurrentSizeEstimate b + length k + length v + 19"
proof -
  have "length (entryBlock s k v buf) \<le> length buf + length k + length v + 15" for s buf
    using length_varint(3) [of "of_nat s"] length_varint(3) [of "of_nat (length k - s)"] length_varint(3) [of "of_nat (length v)"]
    by (simp add: entryBlock_def PutVarint32_def)
  from this [of "sharedLength (bb_last_key b) k" "bb_buffer b"] this [of 0 "bb_buffer b"]
  show ?thesis by (cases "bb_counter b < N") (simp_all add: bb_Add_def CurrentSizeEstimate_def)
qed

lemma newBlockIter_at:
  assumes "laid es sh rs dat restarts" "sorted_wrt (\<lambda>a b. cmp_Compare C (fst a) (fst b) < 0) es"
  shows "blockAt C (newBlockIter dat restarts (length rs)) es None"
  using assms by (auto simp: blockAt_def blockPos_def atEnd_def inBlock_def newBlockIter_def)

end
