(* ===== verification/LdbFilterBlock.thy ===== *)
theory LdbFilterBlock
  imports LdbFilter LdbBlockBuilt
begin

text \<open>
  leveldb/table/filter_block.cc: the filters of a table in one block, a filter for the data
  blocks that start in the same 2 KB of the file. A key that was added for a data block
  matches at the offset of this block.
\<close>

abbreviation (input) kFilterBaseLg :: nat where "kFilterBaseLg \<equiv> 11"
abbreviation (input) kFilterBase :: nat where "kFilterBase \<equiv> 2048"

subsection \<open>The builder\<close>

record filterbuilder =
  fb_keys :: bytes
  fb_start :: "nat list"
  fb_result :: bytes
  fb_filter_offsets :: "32 word list"

definition FilterBlockBuilder :: filterbuilder where
  "FilterBlockBuilder = \<lparr>fb_keys = [], fb_start = [], fb_result = [], fb_filter_offsets = []\<rparr>"

definition GenerateFilter :: "filterpolicy \<Rightarrow> filterbuilder \<Rightarrow> filterbuilder" where
  "GenerateFilter P fb =
     (let num_keys = length (fb_start fb);
          offsets = fb_filter_offsets fb @ [of_nat (length (fb_result fb))]
      in if num_keys = 0 then fb\<lparr>fb_filter_offsets := offsets\<rparr>
         else
           (let start = fb_start fb @ [length (fb_keys fb)];
                tmp_keys = map (\<lambda>i. take (start ! (i + 1) - start ! i) (drop (start ! i) (fb_keys fb))) [0..<num_keys]
            in fb\<lparr>fb_filter_offsets := offsets, fb_result := fp_CreateFilter P tmp_keys (fb_result fb),
                  fb_keys := [], fb_start := []\<rparr>))"

lemma GenerateFilter_offsets [simp]:
  "length (fb_filter_offsets (GenerateFilter P fb)) = Suc (length (fb_filter_offsets fb))"
  by (simp add: GenerateFilter_def Let_def)

function startLoop :: "filterpolicy \<Rightarrow> nat \<Rightarrow> filterbuilder \<Rightarrow> filterbuilder" where
  "startLoop P filter_index fb =
     (if filter_index > length (fb_filter_offsets fb) then startLoop P filter_index (GenerateFilter P fb) else fb)"
  by auto
termination by (relation "measure (\<lambda>(P, filter_index, fb). filter_index - length (fb_filter_offsets fb))") auto

declare startLoop.simps [simp del]

definition StartBlock :: "filterpolicy \<Rightarrow> 64 word \<Rightarrow> filterbuilder \<Rightarrow> filterbuilder" where
  "StartBlock P block_offset fb = startLoop P (unat block_offset div kFilterBase) fb"

definition fb_AddKey :: "bytes \<Rightarrow> filterbuilder \<Rightarrow> filterbuilder" where
  "fb_AddKey key fb = fb\<lparr>fb_start := fb_start fb @ [length (fb_keys fb)], fb_keys := fb_keys fb @ key\<rparr>"

definition fb_Finish :: "filterpolicy \<Rightarrow> filterbuilder \<Rightarrow> bytes \<times> filterbuilder" where
  "fb_Finish P fb =
     (let fb1 = (if fb_start fb \<noteq> [] then GenerateFilter P fb else fb);
          array_offset = of_nat (length (fb_result fb1));
          result = PutFixed32 (foldl PutFixed32 (fb_result fb1) (fb_filter_offsets fb1)) array_offset @ [char_of kFilterBaseLg]
      in (result, fb1\<lparr>fb_result := result\<rparr>))"

subsection \<open>The reader\<close>

text \<open>Without data \<open>fr_num\<close> is 0. The shift by 64 or more that a bad block can ask for, undefined in C++, gives 0.\<close>

record filterreader =
  fr_data :: bytes
  fr_offset :: nat
  fr_num :: nat
  fr_base_lg :: nat

definition FilterBlockReader :: "bytes \<Rightarrow> filterreader" where
  "FilterBlockReader contents =
     (let n = length contents
      in if n < 5 then \<lparr>fr_data = [], fr_offset = 0, fr_num = 0, fr_base_lg = 0\<rparr>
         else
           (let base_lg = of_char (contents ! (n - 1));
                last_word = unat (DecodeFixed32 (drop (n - 5) contents))
            in if last_word > n - 5 then \<lparr>fr_data = [], fr_offset = 0, fr_num = 0, fr_base_lg = base_lg\<rparr>
               else \<lparr>fr_data = contents, fr_offset = last_word, fr_num = (n - 5 - last_word) div 4, fr_base_lg = base_lg\<rparr>))"

definition fr_KeyMayMatch :: "filterpolicy \<Rightarrow> filterreader \<Rightarrow> 64 word \<Rightarrow> bytes \<Rightarrow> bool" where
  "fr_KeyMayMatch P r block_offset key =
     (let index = unat (drop_bit (fr_base_lg r) block_offset)
      in if index < fr_num r then
           (let start = unat (DecodeFixed32 (drop (fr_offset r + index * 4) (fr_data r)));
                limit = unat (DecodeFixed32 (drop (fr_offset r + index * 4 + 4) (fr_data r)))
            in if start \<le> limit \<and> limit \<le> fr_offset r then
                 fp_KeyMayMatch P key (take (limit - start) (drop start (fr_data r)))
               else if start = limit then False else True)
         else True)"

subsection \<open>The keys that are put in\<close>

text \<open>Where the pending keys start.\<close>

fun startsOf :: "nat \<Rightarrow> bytes list \<Rightarrow> nat list" where
  "startsOf n [] = []"
| "startsOf n (k # ks) = n # startsOf (n + length k) ks"

lemma startsOf_snoc: "startsOf n (ks @ [k]) = startsOf n ks @ [n + length (concat ks)]"
  by (induction ks arbitrary: n) simp_all

lemma length_startsOf [simp]: "length (startsOf n ks) = length ks"
  by (induction ks arbitrary: n) simp_all

lemma startsOf_nth: "i < length ks \<Longrightarrow> (startsOf n ks @ [n + length (concat ks)]) ! i = n + length (concat (take i ks))"
proof (induction ks arbitrary: n i)
  case (Cons k ks)
  show ?case
  proof (cases i)
    case (Suc j)
    then show ?thesis using Cons.IH [of j "n + length k"] Cons.prems by (simp add: add.assoc)
  qed simp
qed simp

lemma startsOf_cut:
  assumes "i < length ks"
  defines "st \<equiv> startsOf 0 ks @ [length (concat ks)]"
  shows "take (st ! (i + 1) - st ! i) (drop (st ! i) (concat ks)) = ks ! i"
proof -
  have a: "st ! i = length (concat (take i ks))" using startsOf_nth [OF assms(1), of 0] by (simp add: st_def)
  have "st ! (i + 1) = length (concat (take (Suc i) ks))"
  proof (cases "Suc i < length ks")
    case True
    then show ?thesis using startsOf_nth [OF True, of 0] by (simp add: st_def)
  next
    case False
    then have "Suc i = length ks" using assms(1) by simp
    then show ?thesis by (simp add: st_def nth_append)
  qed
  then have b: "st ! (i + 1) - st ! i = length (ks ! i)" using a assms(1) by (simp add: take_Suc_conv_app_nth)
  then have b': "take (st ! (i + 1) - st ! i) xs = take (length (ks ! i)) xs" for xs :: bytes by simp
  have "ks = take i ks @ ks ! i # drop (Suc i) ks" using assms(1) by (rule id_take_nth_drop)
  then have "concat ks = concat (take i ks) @ ks ! i @ concat (drop (Suc i) ks)" by (metis concat.simps(2) concat_append)
  then have d: "drop (st ! i) (concat ks) = ks ! i @ concat (drop (Suc i) ks)" unfolding a by simp
  show ?thesis unfolding d b' by simp
qed

context filter_policy
begin

text \<open>The filters so far: \<open>fs ! i\<close> matches the keys \<open>kss ! i\<close>; \<open>ks\<close> are the pending keys.\<close>

definition matches :: "bytes list \<Rightarrow> bytes \<Rightarrow> bool" where
  "matches ks f \<longleftrightarrow> (\<forall>key \<in> set ks. \<forall>k. same k key \<longrightarrow> fp_KeyMayMatch P k f)"

definition filtering :: "bytes list list \<Rightarrow> bytes list \<Rightarrow> bytes list \<Rightarrow> filterbuilder \<Rightarrow> bool" where
  "filtering kss fs ks fb \<longleftrightarrow>
     fb_keys fb = concat ks \<and> fb_start fb = startsOf 0 ks \<and> fb_result fb = concat fs \<and> list_all2 matches kss fs \<and>
     fb_filter_offsets fb = map (\<lambda>i. of_nat (length (concat (take i fs)))) [0..<length fs]"

lemma filtering_new: "filtering [] [] [] FilterBlockBuilder"
  by (simp add: filtering_def FilterBlockBuilder_def)

lemma filtering_AddKey: "filtering kss fs ks fb \<Longrightarrow> filtering kss fs (ks @ [key]) (fb_AddKey key fb)"
  by (simp add: filtering_def fb_AddKey_def startsOf_snoc)

lemma filtering_Generate:
  assumes "filtering kss fs ks fb"
  shows "\<exists>f. filtering (kss @ [ks]) (fs @ [f]) [] (GenerateFilter P fb)"
proof -
  have F: "fb_keys fb = concat ks" "fb_start fb = startsOf 0 ks" "fb_result fb = concat fs" "list_all2 matches kss fs"
    "fb_filter_offsets fb = map (\<lambda>i. of_nat (length (concat (take i fs)))) [0..<length fs]"
    using assms unfolding filtering_def by blast+
  have offs: "map (\<lambda>i. of_nat (length (concat (take i (fs @ [f]))))) [0..<length (fs @ [f])] =
      fb_filter_offsets fb @ [of_nat (length (concat fs)) :: 32 word]" for f
  proof -
    have "[0..<length (fs @ [f])] = [0..<length fs] @ [length fs]" by simp
    then have "map (\<lambda>i. of_nat (length (concat (take i (fs @ [f]))))) [0..<length (fs @ [f])] =
      map (\<lambda>i. of_nat (length (concat (take i (fs @ [f]))))) [0..<length fs] @ [of_nat (length (concat fs)) :: 32 word]" by simp
    also have "map (\<lambda>i. of_nat (length (concat (take i (fs @ [f]))))) [0..<length fs] = fb_filter_offsets fb"
      unfolding F(5) by (rule map_cong [OF HOL.refl]) simp
    finally show ?thesis .
  qed
  show ?thesis
  proof (cases "ks = []")
    case True
    have "matches [] []" by (simp add: matches_def)
    then have "filtering (kss @ [ks]) (fs @ [[]]) [] (GenerateFilter P fb)"
      using F True offs [of "[]"] by (simp add: filtering_def GenerateFilter_def Let_def list_all2_appendI)
    then show ?thesis by blast
  next
    case False
    obtain f where f: "fp_CreateFilter P ks (concat fs) = concat fs @ f" using filter_appended by blast
    have "map (\<lambda>i. take ((startsOf 0 ks @ [length (concat ks)]) ! (i + 1) - (startsOf 0 ks @ [length (concat ks)]) ! i)
        (drop ((startsOf 0 ks @ [length (concat ks)]) ! i) (concat ks))) [0..<length ks] = map (nth ks) [0..<length ks]"
      by (rule map_cong [OF HOL.refl]) (use startsOf_cut in simp)
    then have tmp: "map (\<lambda>i. take ((startsOf 0 ks @ [length (concat ks)]) ! (i + 1) - (startsOf 0 ks @ [length (concat ks)]) ! i)
        (drop ((startsOf 0 ks @ [length (concat ks)]) ! i) (concat ks))) [0..<length ks] = ks" by (simp add: map_nth)
    have "matches ks f" using filter_matches [OF f] by (auto simp: matches_def)
    moreover have "GenerateFilter P fb = fb\<lparr>fb_filter_offsets := fb_filter_offsets fb @ [of_nat (length (concat fs))],
        fb_result := concat fs @ f, fb_keys := [], fb_start := []\<rparr>"
      unfolding GenerateFilter_def Let_def F(1-3) length_startsOf tmp f using False by simp
    ultimately have "filtering (kss @ [ks]) (fs @ [f]) [] (GenerateFilter P fb)"
      using F(4) offs [of f] by (simp add: filtering_def list_all2_appendI)
    then show ?thesis by blast
  qed
qed

text \<open>All keys, those of the filter \<open>i\<close> at \<open>i\<close>; the last ones are pending.\<close>

definition filterKeys :: "bytes list list \<Rightarrow> filterbuilder \<Rightarrow> bool" where
  "filterKeys kss fb \<longleftrightarrow> kss \<noteq> [] \<and> (\<exists>fs. filtering (butlast kss) fs (last kss) fb)"

lemma filterKeys_offsets: "filterKeys kss fb \<Longrightarrow> Suc (length (fb_filter_offsets fb)) = length kss"
  by (cases kss rule: rev_cases) (auto simp: filterKeys_def filtering_def dest: list_all2_lengthD)

lemma filterKeys_new: "filterKeys [[]] FilterBlockBuilder"
  using filtering_new by (auto simp: filterKeys_def)

lemma filterKeys_AddKey: "filterKeys (kss @ [ks]) fb \<Longrightarrow> filterKeys (kss @ [ks @ [key]]) (fb_AddKey key fb)"
  using filtering_AddKey [of kss] by (simp add: filterKeys_def) blast

lemma filterKeys_Generate: "filterKeys kss fb \<Longrightarrow> filterKeys (kss @ [[]]) (GenerateFilter P fb)"
  using filtering_Generate by (fastforce simp: filterKeys_def)

lemma startLoop_keys:
  "filterKeys kss fb \<Longrightarrow> filterKeys (kss @ replicate (Suc idx - length kss) []) (startLoop P idx fb)"
proof (induction "Suc idx - length kss" arbitrary: kss fb)
  case 0
  then show ?case using filterKeys_offsets [of kss fb] by (subst startLoop.simps) simp
next
  case (Suc n)
  have "idx > length (fb_filter_offsets fb)" using Suc.hyps(2) filterKeys_offsets [OF Suc.prems] by simp
  then have "startLoop P idx fb = startLoop P idx (GenerateFilter P fb)" by (subst startLoop.simps) simp
  moreover have "n = Suc idx - length (kss @ [[]])" using Suc.hyps(2) by simp
  moreover have "Suc idx - length kss = Suc n" using Suc.hyps(2) by simp
  ultimately show ?case using Suc.hyps(1) [OF _ filterKeys_Generate [OF Suc.prems]] by simp
qed

lemma fb_Finish_filters:
  assumes "filterKeys kss fb"
  obtains fs kss' where "list_all2 matches kss' fs" "kss' = kss \<or> kss = kss' @ [[]]"
    "fst (fb_Finish P fb) = concat fs @ concat (map (\<lambda>i. EncodeFixed32 (of_nat (length (concat (take i fs))))) [0..<length fs]) @
       EncodeFixed32 (of_nat (length (concat fs))) @ [char_of kFilterBaseLg]"
proof -
  note goal = that
  have out: thesis if f: "filtering kss' fs ks fb'" and k: "kss' = kss \<or> kss = kss' @ [[]]"
    and g: "fb' = (if fb_start fb \<noteq> [] then GenerateFilter P fb else fb)" for kss' fs ks fb'
  proof (rule goal)
    show "list_all2 matches kss' fs" using f by (simp add: filtering_def)
    show "kss' = kss \<or> kss = kss' @ [[]]" by (rule k)
    show "fst (fb_Finish P fb) = concat fs @ concat (map (\<lambda>i. EncodeFixed32 (of_nat (length (concat (take i fs))))) [0..<length fs]) @
       EncodeFixed32 (of_nat (length (concat fs))) @ [char_of kFilterBaseLg]"
      using f unfolding fb_Finish_def Let_def g [symmetric]
      by (simp add: filtering_def foldl_PutFixed32 PutFixed32_def o_def)
  qed
  obtain k0 ks fs where k: "kss = k0 @ [ks]" "filtering k0 fs ks fb"
    using assms by (cases kss rule: rev_cases) (auto simp: filterKeys_def)
  show thesis
  proof (cases "ks = []")
    case True
    then have "fb_start fb = []" using k(2) by (simp add: filtering_def)
    then show ?thesis using out [OF k(2)] k(1) True by simp
  next
    case False
    then have "fb_start fb \<noteq> []" using k(2) by (cases ks) (auto simp: filtering_def)
    moreover obtain f where "filtering (k0 @ [ks]) (fs @ [f]) [] (GenerateFilter P fb)" using filtering_Generate [OF k(2)] by blast
    ultimately show ?thesis using out k(1) by simp
  qed
qed

lemma concat_fixed_map:
  assumes "j < length xs"
  shows "DecodeFixed32 (drop (j * 4) (concat (map (\<lambda>i. EncodeFixed32 (g i)) xs) @ rest)) = g (xs ! j)"
  using concat_fixed(2) [of j "map g xs" rest] assms by (simp add: comp_def)

lemma fb_Finish_matches:
  assumes fk: "filterKeys kss fb" and i: "unat block_offset div kFilterBase < length kss"
    and key: "key \<in> set (kss ! (unat block_offset div kFilterBase))" "same k key"
    and small: "length (fst (fb_Finish P fb)) < 2 ^ 32"
  shows "fr_KeyMayMatch P (FilterBlockReader (fst (fb_Finish P fb))) block_offset k"
proof -
  let ?c = "fst (fb_Finish P fb)" and ?i = "unat block_offset div kFilterBase"
  obtain fs kss' where m: "list_all2 matches kss' fs" "kss' = kss \<or> kss = kss' @ [[]]"
    and c0: "?c = concat fs @ concat (map (\<lambda>i. EncodeFixed32 (of_nat (length (concat (take i fs))))) [0..<length fs]) @
       EncodeFixed32 (of_nat (length (concat fs))) @ [char_of kFilterBaseLg]" by (rule fb_Finish_filters [OF fk])
  define g where "g = (\<lambda>i. of_nat (length (concat (take i fs))) :: 32 word)"
  define tl where "tl = concat (map (\<lambda>i. EncodeFixed32 (g i)) [0..<length fs])"
  define a where "a = length (concat fs)"
  have c: "?c = concat fs @ tl @ EncodeFixed32 (of_nat a) @ [char_of kFilterBaseLg]" by (simp add: c0 tl_def g_def a_def)
  have ltl: "length tl = 4 * length fs" using concat_fixed(1) [of "map g [0..<length fs]"] by (simp add: tl_def comp_def)
  have lc: "length ?c = a + 4 * length fs + 5" by (simp add: c ltl a_def)
  have "key \<in> set (kss' ! ?i) \<and> ?i < length kss'" using m(2) i key(1) by (auto simp: nth_append split: if_splits)
  then have fi: "?i < length fs" "matches (kss' ! ?i) (fs ! ?i)" "key \<in> set (kss' ! ?i)"
    using list_all2_lengthD [OF m(1)] list_all2_nthD [OF m(1)] by auto
  have sm: "a < 2 ^ 32" using small lc by simp
  have "drop (length ?c - 5) ?c = EncodeFixed32 (of_nat a) @ [char_of kFilterBaseLg]" unfolding lc unfolding c by (simp add: ltl a_def)
  then have last: "unat (DecodeFixed32 (drop (length ?c - 5) ?c)) = a" using unat_of_nat32 [OF sm] by simp
  have "?c ! (length ?c - 1) = last ?c" by (rule last_conv_nth [symmetric]) (simp add: c)
  then have lg: "of_char (?c ! (length ?c - 1)) = kFilterBaseLg" by (simp add: c)
  have r: "FilterBlockReader ?c = \<lparr>fr_data = ?c, fr_offset = a, fr_num = length fs, fr_base_lg = kFilterBaseLg\<rparr>"
    unfolding FilterBlockReader_def Let_def last lg using lc by simp
  have idx: "unat (drop_bit kFilterBaseLg block_offset) = ?i" by (simp only: unat_drop_bit_eq) (simp add: drop_bit_eq_div)
  have le: "length (concat (take j fs)) \<le> a" for j
  proof -
    have "concat fs = concat (take j fs) @ concat (drop j fs)" by (metis append_take_drop_id concat_append)
    then show ?thesis unfolding a_def by (metis length_append le_add1)
  qed
  have off: "drop (a + j * 4) ?c = drop (j * 4) (tl @ EncodeFixed32 (of_nat a) @ [char_of kFilterBaseLg])" for j
    by (simp add: c a_def add.commute flip: drop_drop)
  have at: "unat (DecodeFixed32 (drop (a + j * 4) ?c)) = length (concat (take j fs))" if "j \<le> length fs" for j
  proof (cases "j < length fs")
    case True
    then have "DecodeFixed32 (drop (a + j * 4) ?c) = g j" unfolding off tl_def by (subst concat_fixed_map) simp_all
    then show ?thesis using le [of j] sm unat_of_nat32 [of "length (concat (take j fs))"] by (simp add: g_def)
  next
    case False
    then have "j = length fs" using that by simp
    then have "DecodeFixed32 (drop (a + j * 4) ?c) = of_nat a" unfolding off using ltl by simp
    then show ?thesis using unat_of_nat32 [OF sm] \<open>j = length fs\<close> by (simp add: a_def)
  qed
  let ?s = "length (concat (take ?i fs))" and ?l = "length (concat (take (Suc ?i) fs))"
  have s: "unat (DecodeFixed32 (drop (a + ?i * 4) ?c)) = ?s" using at [of ?i] fi(1) by simp
  have "drop (a + ?i * 4 + 4) ?c = drop (a + Suc ?i * 4) ?c" by (rule arg_cong [where f = "\<lambda>n. drop n ?c"]) simp
  then have l: "unat (DecodeFixed32 (drop (a + ?i * 4 + 4) ?c)) = ?l" using at [of "Suc ?i"] fi(1) by simp
  have sl: "?l = ?s + length (fs ! ?i)" using fi(1) by (simp add: take_Suc_conv_app_nth)
  have "fs = take ?i fs @ fs ! ?i # drop (Suc ?i) fs" using fi(1) by (rule id_take_nth_drop)
  then have "concat fs = concat (take ?i fs) @ fs ! ?i @ concat (drop (Suc ?i) fs)" by (metis concat.simps(2) concat_append)
  then have "take (?l - ?s) (drop ?s ?c) = fs ! ?i" unfolding sl by (simp add: c)
  moreover have "fp_KeyMayMatch P k (fs ! ?i)" using fi(2,3) key(2) unfolding matches_def by blast
  ultimately show ?thesis
    unfolding fr_KeyMayMatch_def r filterreader.simps Let_def idx s l using fi(1) sl le [of "Suc ?i"] by simp
qed

end

end
