(* ===== verification/LdbTable.thy ===== *)
theory LdbTable
  imports LdbTwoLevel LdbFilterBlock LdbLog
begin

text \<open>
  leveldb/table/format.cc, table_builder.cc and table.cc: the files of sorted entries. A table
  is its data blocks, each behind with its type and checksum, a filter block, a block that
  names the filter block, an index block with a key not before the last one of each data
  block and the place of the block, and a footer. The compression library is the parameter
  \<open>snappy\<close>, a file that is read a function from an offset and a number of bytes to a status
  and the bytes. The result \<open>None\<close> is a read outside of a buffer.
\<close>

subsection \<open>The format\<close>

record blockhandle =
  bh_offset :: "64 word"
  bh_size :: "64 word"

definition bh_EncodeTo :: "blockhandle \<Rightarrow> bytes \<Rightarrow> bytes" where
  "bh_EncodeTo h dst = PutVarint64 (PutVarint64 dst (bh_offset h)) (bh_size h)"

definition bh_DecodeFrom :: "bytes \<Rightarrow> ldbstatus + blockhandle \<times> bytes" where
  "bh_DecodeFrom input =
     (case GetVarint64 input of
        None \<Rightarrow> Inl (sCorruption ''bad block handle'')
      | Some (offset, p) \<Rightarrow>
          (case GetVarint64 p of
             None \<Rightarrow> Inl (sCorruption ''bad block handle'')
           | Some (sz, q) \<Rightarrow> Inr (\<lparr>bh_offset = offset, bh_size = sz\<rparr>, q)))"

record footer =
  ft_metaindex_handle :: blockhandle
  ft_index_handle :: blockhandle

abbreviation (input) kMaxEncodedLength :: nat where "kMaxEncodedLength \<equiv> 20"
abbreviation (input) kEncodedLength :: nat where "kEncodedLength \<equiv> 48"
abbreviation (input) kTableMagicNumber :: "64 word" where "kTableMagicNumber \<equiv> 0xdb4775248b80fb57"
abbreviation (input) kBlockTrailerSize :: nat where "kBlockTrailerSize \<equiv> 5"

definition resizeTo :: "nat \<Rightarrow> bytes \<Rightarrow> bytes" where
  "resizeTo n s = take n s @ replicate (n - length s) (CHR 0x00)"

definition ft_EncodeTo :: "footer \<Rightarrow> bytes \<Rightarrow> bytes" where
  "ft_EncodeTo f dst =
     (let handles = resizeTo (2 * kMaxEncodedLength) (bh_EncodeTo (ft_index_handle f) (bh_EncodeTo (ft_metaindex_handle f) dst))
      in PutFixed32 (PutFixed32 handles (ucast (kTableMagicNumber AND 0xffffffff))) (ucast (drop_bit 32 kTableMagicNumber)))"

definition ft_DecodeFrom :: "bytes \<Rightarrow> (ldbstatus + footer) option" where
  "ft_DecodeFrom input =
     (if length input < kEncodedLength then None
      else
        (let magic_lo = DecodeFixed32 (drop (kEncodedLength - 8) input);
             magic_hi = DecodeFixed32 (drop (kEncodedLength - 4) input);
             magic = push_bit 32 (ucast magic_hi) OR ucast magic_lo
         in if magic \<noteq> kTableMagicNumber then Some (Inl (sCorruption ''not an sstable (bad magic number)''))
            else
              Some (case bh_DecodeFrom input of
                      Inl s \<Rightarrow> Inl s
                    | Inr (m, p) \<Rightarrow>
                        (case bh_DecodeFrom p of
                           Inl s \<Rightarrow> Inl s
                         | Inr (i, q) \<Rightarrow> Inr \<lparr>ft_metaindex_handle = m, ft_index_handle = i\<rparr>))))"

datatype compression = kNoCompression | kSnappyCompression

definition compressionByte :: "compression \<Rightarrow> char" where
  "compressionByte c = (case c of kNoCompression \<Rightarrow> CHR 0x00 | kSnappyCompression \<Rightarrow> CHR 0x01)"

record snappy =
  Snappy_Compress :: "bytes \<Rightarrow> bytes option"
  Snappy_GetUncompressedLength :: "bytes \<Rightarrow> nat option"
  Snappy_Uncompress :: "bytes \<Rightarrow> bytes option"

type_synonym rfile = "64 word \<Rightarrow> nat \<Rightarrow> ldbstatus \<times> bytes"

text \<open>The size of a handle is at most \<open>2 ^ 64 - 6\<close> here; that of a greater one wraps with the trailer.\<close>

definition ReadBlock :: "snappy \<Rightarrow> rfile \<Rightarrow> bool \<Rightarrow> blockhandle \<Rightarrow> ldbstatus + bytes" where
  "ReadBlock sn file verify_checksums handle =
     (let n = unat (bh_size handle);
          (s, contents) = file (bh_offset handle) (n + kBlockTrailerSize)
      in if s \<noteq> sOK then Inl s
         else if length contents \<noteq> n + kBlockTrailerSize then Inl (sCorruption ''truncated block read'')
         else if verify_checksums \<and> crcValue 0 (take (n + 1) contents) \<noteq> Unmask (DecodeFixed32 (drop (n + 1) contents)) then
           Inl (sCorruption ''block checksum mismatch'')
         else if contents ! n = compressionByte kNoCompression then Inr (take n contents)
         else if contents ! n = compressionByte kSnappyCompression then
           (case Snappy_GetUncompressedLength sn (take n contents) of
              None \<Rightarrow> Inl (sCorruption ''corrupted compressed block contents'')
            | Some ulength \<Rightarrow>
                (case Snappy_Uncompress sn (take n contents) of
                   None \<Rightarrow> Inl (sCorruption ''corrupted compressed block contents'')
                 | Some ubuf \<Rightarrow> Inr ubuf))
         else Inl (sCorruption ''bad block type''))"

subsection \<open>Building a table\<close>

record tableoptions =
  to_comparator :: comparator
  to_block_size :: nat
  to_block_restart_interval :: int
  to_compression :: compression
  to_filter_policy :: "filterpolicy option"
  to_paranoid_checks :: bool

text \<open>
  The options of the tables: their defaults (util/options.cc), and what a database makes of
  them (\<open>SanitizeOptions\<close> in db/db_impl.cc): keys are internal, filters are over the user keys.
\<close>

definition tableDefaults :: tableoptions where
  "tableDefaults =
     \<lparr>to_comparator = BytewiseComparator, to_block_size = 4096, to_block_restart_interval = 16,
      to_compression = kSnappyCompression, to_filter_policy = None, to_paranoid_checks = False\<rparr>"

definition ClipToRange :: "nat \<Rightarrow> nat \<Rightarrow> nat \<Rightarrow> nat" where
  "ClipToRange v minvalue maxvalue =
     (let v1 = (if int maxvalue < sint (of_nat v :: 32 word) then maxvalue else v)
      in if sint (of_nat v1 :: 32 word) < int minvalue then minvalue else v1)"

definition SanitizeOptions :: "tableoptions \<Rightarrow> tableoptions" where
  "SanitizeOptions src =
     src\<lparr>to_comparator := InternalKeyComparator (to_comparator src),
       to_filter_policy := map_option InternalFilterPolicy (to_filter_policy src),
       to_block_size := ClipToRange (to_block_size src) (2 ^ 10) (4 * 2 ^ 20)\<rparr>"

record tablebuilder =
  tb_options :: tableoptions
  tb_file :: wfile
  tb_offset :: "64 word"
  tb_status :: ldbstatus
  tb_data_block :: blockbuilder
  tb_index_block :: blockbuilder
  tb_last_key :: bytes
  tb_num_entries :: int
  tb_closed :: bool
  tb_filter_block :: "(filterpolicy \<times> filterbuilder) option"
  tb_pending_index_entry :: bool
  tb_pending_handle :: blockhandle

definition newHandle :: blockhandle where
  "newHandle = \<lparr>bh_offset = - 1, bh_size = - 1\<rparr>"

definition newRep :: "tableoptions \<Rightarrow> wfile \<Rightarrow> tablebuilder" where
  "newRep options file =
     \<lparr>tb_options = options, tb_file = file, tb_offset = 0, tb_status = sOK, tb_data_block = bb_Reset, tb_index_block = bb_Reset,
      tb_last_key = [], tb_num_entries = 0, tb_closed = False,
      tb_filter_block = map_option (\<lambda>P. (P, FilterBlockBuilder)) (to_filter_policy options),
      tb_pending_index_entry = False, tb_pending_handle = newHandle\<rparr>"

text \<open>A call of the filter block, if there is one.\<close>

definition onFilter :: "(filterpolicy \<Rightarrow> filterbuilder \<Rightarrow> filterbuilder) \<Rightarrow> tablebuilder \<Rightarrow> tablebuilder" where
  "onFilter f r = r\<lparr>tb_filter_block := map_option (\<lambda>(P, fb). (P, f P fb)) (tb_filter_block r)\<rparr>"

definition TableBuilder :: "tableoptions \<Rightarrow> wfile \<Rightarrow> tablebuilder" where
  "TableBuilder options file = onFilter (\<lambda>P. StartBlock P 0) (newRep options file)"

definition tb_ChangeOptions :: "bool \<Rightarrow> tableoptions \<Rightarrow> tablebuilder \<Rightarrow> ldbstatus \<times> tablebuilder" where
  "tb_ChangeOptions same_comparator options r =
     (if \<not> same_comparator then (sInvalidArgument ''changing comparator while building table'', r)
      else (sOK, r\<lparr>tb_options := options\<rparr>))"

definition fileStatus :: "bool \<Rightarrow> ldbstatus" where
  "fileStatus ok = (if ok then sOK else sIOError ''table'')"

definition tb_WriteRawBlock :: "bytes \<Rightarrow> compression \<Rightarrow> tablebuilder \<Rightarrow> blockhandle \<times> tablebuilder" where
  "tb_WriteRawBlock block_contents type r =
     (let handle = \<lparr>bh_offset = tb_offset r, bh_size = of_nat (length block_contents)\<rparr>;
          (ok1, f1) = wf_append block_contents (tb_file r)
      in if \<not> ok1 then (handle, r\<lparr>tb_file := f1, tb_status := fileStatus ok1\<rparr>)
         else
           (let crc = Extend 0 (crcValue 0 block_contents) [compressionByte type];
                trailer = [compressionByte type] @ EncodeFixed32 (Mask crc);
                (ok2, f2) = wf_append trailer f1
            in (handle,
                if ok2 then
                  r\<lparr>tb_file := f2, tb_status := fileStatus ok2,
                    tb_offset := tb_offset r + of_nat (length block_contents + kBlockTrailerSize)\<rparr>
                else r\<lparr>tb_file := f2, tb_status := fileStatus ok2\<rparr>)))"

text \<open>The result is the handle, the block after \<open>Reset\<close> and the state.\<close>

definition tb_WriteBlock :: "snappy \<Rightarrow> blockbuilder \<Rightarrow> tablebuilder \<Rightarrow> blockhandle \<times> blockbuilder \<times> tablebuilder" where
  "tb_WriteBlock sn block r =
     (let raw = fst (bb_Finish block);
          (block_contents, type) =
            (case to_compression (tb_options r) of
               kNoCompression \<Rightarrow> (raw, kNoCompression)
             | kSnappyCompression \<Rightarrow>
                 (case Snappy_Compress sn raw of
                    None \<Rightarrow> (raw, kNoCompression)
                  | Some compressed \<Rightarrow>
                      if length compressed < length raw - length raw div 8 then (compressed, kSnappyCompression)
                      else (raw, kNoCompression)));
          (handle, r1) = tb_WriteRawBlock block_contents type r
      in (handle, bb_Reset, r1))"

definition tb_Flush :: "snappy \<Rightarrow> tablebuilder \<Rightarrow> tablebuilder" where
  "tb_Flush sn r =
     (if tb_status r \<noteq> sOK then r
      else if bb_buffer (tb_data_block r) = [] then r
      else
        (let (handle, block, r1) = tb_WriteBlock sn (tb_data_block r) r;
             r2 = r1\<lparr>tb_data_block := block, tb_pending_handle := handle\<rparr>;
             r3 = (if tb_status r2 = sOK then
                     (let (ok, f) = wf_flush (tb_file r2)
                      in r2\<lparr>tb_pending_index_entry := True, tb_file := f, tb_status := fileStatus ok\<rparr>)
                   else r2)
         in onFilter (\<lambda>P. StartBlock P (tb_offset r3)) r3))"

text \<open>The entry of the last data block, with a key that separates it from the next one.\<close>

definition addIndexEntry :: "bytes \<Rightarrow> tablebuilder \<Rightarrow> tablebuilder" where
  "addIndexEntry key r =
     (if tb_pending_index_entry r then
        r\<lparr>tb_last_key := key, tb_index_block := bb_Add 1 key (bh_EncodeTo (tb_pending_handle r) []) (tb_index_block r),
          tb_pending_index_entry := False\<rparr>
      else r)"

definition tb_Add :: "snappy \<Rightarrow> bytes \<Rightarrow> bytes \<Rightarrow> tablebuilder \<Rightarrow> tablebuilder" where
  "tb_Add sn key val r =
     (if tb_status r \<noteq> sOK then r
      else
        (let r1 = addIndexEntry (cmp_FindShortestSeparator (to_comparator (tb_options r)) (tb_last_key r) key) r;
             r2 = onFilter (\<lambda>P. fb_AddKey key) r1;
             r3 = r2\<lparr>tb_last_key := key, tb_num_entries := tb_num_entries r2 + 1,
                    tb_data_block := bb_Add (to_block_restart_interval (tb_options r2)) key val (tb_data_block r2)\<rparr>
         in if CurrentSizeEstimate (tb_data_block r3) \<ge> to_block_size (tb_options r3) then tb_Flush sn r3 else r3))"

text \<open>The parts of \<open>Finish\<close>, each done only while the status is OK.\<close>

definition finishFilter :: "tablebuilder \<Rightarrow> blockhandle \<times> tablebuilder" where
  "finishFilter r =
     (case tb_filter_block r of
        None \<Rightarrow> (newHandle, r)
      | Some (P, fb) \<Rightarrow>
          if tb_status r = sOK then
            (let (contents, fb1) = fb_Finish P fb in tb_WriteRawBlock contents kNoCompression (r\<lparr>tb_filter_block := Some (P, fb1)\<rparr>))
          else (newHandle, r))"

text \<open>A filter block without a policy in the options, a null pointer in the source, does not occur.\<close>

definition finishMeta :: "snappy \<Rightarrow> blockhandle \<Rightarrow> tablebuilder \<Rightarrow> blockhandle \<times> tablebuilder" where
  "finishMeta sn filter_block_handle r =
     (if tb_status r = sOK then
        (let meta_index_block =
               (case (tb_filter_block r, to_filter_policy (tb_options r)) of
                  (Some fb, Some P) \<Rightarrow>
                    bb_Add (to_block_restart_interval (tb_options r)) (''filter.'' @ fp_Name P) (bh_EncodeTo filter_block_handle []) bb_Reset
                | _ \<Rightarrow> bb_Reset);
             (handle, block, r1) = tb_WriteBlock sn meta_index_block r
         in (handle, r1))
      else (newHandle, r))"

definition finishIndex :: "snappy \<Rightarrow> tablebuilder \<Rightarrow> blockhandle \<times> tablebuilder" where
  "finishIndex sn r =
     (if tb_status r = sOK then
        (let r1 = addIndexEntry (cmp_FindShortSuccessor (to_comparator (tb_options r)) (tb_last_key r)) r;
             (handle, block, r2) = tb_WriteBlock sn (tb_index_block r1) r1
         in (handle, r2\<lparr>tb_index_block := block\<rparr>))
      else (newHandle, r))"

definition finishFooter :: "blockhandle \<Rightarrow> blockhandle \<Rightarrow> tablebuilder \<Rightarrow> tablebuilder" where
  "finishFooter metaindex_block_handle index_block_handle r =
     (if tb_status r = sOK then
        (let footer_encoding = ft_EncodeTo \<lparr>ft_metaindex_handle = metaindex_block_handle, ft_index_handle = index_block_handle\<rparr> [];
             (ok, f) = wf_append footer_encoding (tb_file r);
             r1 = r\<lparr>tb_file := f, tb_status := fileStatus ok\<rparr>
         in if ok then r1\<lparr>tb_offset := tb_offset r1 + of_nat (length footer_encoding)\<rparr> else r1)
      else r)"

definition tb_Finish :: "snappy \<Rightarrow> tablebuilder \<Rightarrow> ldbstatus \<times> tablebuilder" where
  "tb_Finish sn r =
     (let r1 = (tb_Flush sn r)\<lparr>tb_closed := True\<rparr>;
          (filter_block_handle, r2) = finishFilter r1;
          (metaindex_block_handle, r3) = finishMeta sn filter_block_handle r2;
          (index_block_handle, r4) = finishIndex sn r3;
          r5 = finishFooter metaindex_block_handle index_block_handle r4
      in (tb_status r5, r5))"

definition tb_Abandon :: "tablebuilder \<Rightarrow> tablebuilder" where
  "tb_Abandon r = r\<lparr>tb_closed := True\<rparr>"

definition tb_NumEntries :: "tablebuilder \<Rightarrow> int" where
  "tb_NumEntries r = tb_num_entries r"

definition tb_FileSize :: "tablebuilder \<Rightarrow> 64 word" where
  "tb_FileSize r = tb_offset r"

subsection \<open>Reading a table\<close>

record table =
  t_options :: tableoptions
  t_file :: rfile
  t_filter :: "filterreader option"
  t_metaindex_handle :: blockhandle
  t_index_block :: block

definition t_ReadFilter :: "snappy \<Rightarrow> bytes \<Rightarrow> table \<Rightarrow> table" where
  "t_ReadFilter sn filter_handle_value t =
     (case bh_DecodeFrom filter_handle_value of
        Inl s \<Rightarrow> t
      | Inr (filter_handle, _) \<Rightarrow>
          (case ReadBlock sn (t_file t) (to_paranoid_checks (t_options t)) filter_handle of
             Inl s \<Rightarrow> t
           | Inr contents \<Rightarrow> t\<lparr>t_filter := Some (FilterBlockReader contents)\<rparr>))"

definition t_ReadMeta :: "snappy \<Rightarrow> footer \<Rightarrow> table \<Rightarrow> table option" where
  "t_ReadMeta sn f t =
     (case to_filter_policy (t_options t) of
        None \<Rightarrow> Some t
      | Some P \<Rightarrow>
          (case ReadBlock sn (t_file t) (to_paranoid_checks (t_options t)) (ft_metaindex_handle f) of
             Inl s \<Rightarrow> Some t
           | Inr contents \<Rightarrow>
               (let ops = blockOps BytewiseComparator; key = ''filter.'' @ fp_Name P
                in map_option (\<lambda>iter. if i_Valid ops iter \<and> i_key ops iter = key then t_ReadFilter sn (i_value ops iter) t else t)
                     (i_Seek ops key (bk_NewIterator (Block contents))))))"

definition t_Open :: "snappy \<Rightarrow> tableoptions \<Rightarrow> rfile \<Rightarrow> 64 word \<Rightarrow> (ldbstatus + table) option" where
  "t_Open sn options file file_size =
     (if file_size < of_nat kEncodedLength then Some (Inl (sCorruption ''file is too short to be an sstable''))
      else
        (let (s, footer_input) = file (file_size - of_nat kEncodedLength) kEncodedLength
         in if s \<noteq> sOK then Some (Inl s)
            else
              case ft_DecodeFrom footer_input of
                None \<Rightarrow> None
              | Some (Inl s) \<Rightarrow> Some (Inl s)
              | Some (Inr f) \<Rightarrow>
                  (case ReadBlock sn file (to_paranoid_checks options) (ft_index_handle f) of
                     Inl s \<Rightarrow> Some (Inl s)
                   | Inr contents \<Rightarrow>
                       map_option Inr
                         (t_ReadMeta sn f
                           \<lparr>t_options = options, t_file = file, t_filter = None, t_metaindex_handle = ft_metaindex_handle f,
                            t_index_block = Block contents\<rparr>))))"

text \<open>
  \<open>cached\<close> is the answer of the block cache for the offset of a block, \<open>None\<close> without a cache;
  putting the block into the cache has no result of its own.
\<close>

definition BlockReader :: "snappy \<Rightarrow> (64 word \<Rightarrow> block option) \<Rightarrow> bool \<Rightarrow> table \<Rightarrow> bytes \<Rightarrow> ldbstatus + blockiter" where
  "BlockReader sn cached verify_checksums t index_value =
     (case bh_DecodeFrom index_value of
        Inl s \<Rightarrow> Inl s
      | Inr (handle, _) \<Rightarrow>
          (case cached (bh_offset handle) of
             Some block \<Rightarrow> bk_NewIterator block
           | None \<Rightarrow>
               (case ReadBlock sn (t_file t) verify_checksums handle of
                  Inl s \<Rightarrow> Inl s
                | Inr contents \<Rightarrow> bk_NewIterator (Block contents))))"

definition TableIterator ::
  "snappy \<Rightarrow> (64 word \<Rightarrow> block option) \<Rightarrow> bool \<Rightarrow> table \<Rightarrow> ((ldbstatus + blockiter) wrapper, (ldbstatus + blockiter) wrapper) twolevel iterops" where
  "TableIterator sn cached verify_checksums t =
     (let ops = blockOps (to_comparator (t_options t)) in TwoLevelIterator ops ops (BlockReader sn cached verify_checksums t))"

definition t_NewIterator :: "table \<Rightarrow> ((ldbstatus + blockiter) wrapper, (ldbstatus + blockiter) wrapper) twolevel" where
  "t_NewIterator t = NewTwoLevelIterator (blockOps (to_comparator (t_options t))) (bk_NewIterator (t_index_block t))"

text \<open>The filter does not rule the key out.\<close>

definition mayMatch :: "table \<Rightarrow> bytes \<Rightarrow> bytes \<Rightarrow> bool" where
  "mayMatch t handle_value k =
     (case (t_filter t, to_filter_policy (t_options t)) of
        (Some reader, Some P) \<Rightarrow>
          (case bh_DecodeFrom handle_value of
             Inl s \<Rightarrow> True
           | Inr (handle, _) \<Rightarrow> fr_KeyMayMatch P reader (bh_offset handle) k)
      | _ \<Rightarrow> True)"

text \<open>The result is the status and the entry that the function \<open>saver\<close> is called with, if it is.\<close>

definition InternalGet ::
  "snappy \<Rightarrow> (64 word \<Rightarrow> block option) \<Rightarrow> bool \<Rightarrow> bytes \<Rightarrow> table \<Rightarrow> (ldbstatus \<times> (bytes \<times> bytes) option) option" where
  "InternalGet sn cached verify_checksums k t =
     (let ops = blockOps (to_comparator (t_options t))
      in Option.bind (i_Seek ops k (bk_NewIterator (t_index_block t))) (\<lambda>iiter.
         map_option (\<lambda>(s, saved). (if s = sOK then i_status ops iiter else s, saved))
           (if i_Valid ops iiter \<and> mayMatch t (i_value ops iiter) k then
              map_option (\<lambda>block_iter. (i_status ops block_iter,
                  if i_Valid ops block_iter then Some (i_key ops block_iter, i_value ops block_iter) else None))
                (i_Seek ops k (BlockReader sn cached verify_checksums t (i_value ops iiter)))
            else Some (sOK, None))))"

definition ApproximateOffsetOf :: "bytes \<Rightarrow> table \<Rightarrow> 64 word option" where
  "ApproximateOffsetOf key t =
     (let ops = blockOps (to_comparator (t_options t))
      in map_option (\<lambda>index_iter.
           if i_Valid ops index_iter then
             (case bh_DecodeFrom (i_value ops index_iter) of
                Inl s \<Rightarrow> bh_offset (t_metaindex_handle t)
              | Inr (handle, _) \<Rightarrow> bh_offset handle)
           else bh_offset (t_metaindex_handle t))
         (i_Seek ops key (bk_NewIterator (t_index_block t))))"

end
