(* ===== verification/LdbTableLaws.thy ===== *)
theory LdbTableLaws
  imports LdbTable
begin

text \<open>
  What the parts of a table file rely on: the encodings of handles and footers are read back,
  a block that was written is read, and the interfaces of the compression library and of the
  comparator of a table.
\<close>

subsection \<open>Interfaces\<close>

locale compressor =
  fixes sn :: snappy
  assumes uncompress: "Snappy_Compress sn raw = Some c \<Longrightarrow>
    Snappy_GetUncompressedLength sn c \<noteq> None \<and> Snappy_Uncompress sn c = Some raw"
begin

lemma uncompress_length: "Snappy_Compress sn raw = Some c \<Longrightarrow> \<exists>n. Snappy_GetUncompressedLength sn c = Some n"
  using uncompress by blast

end

text \<open>Built without the library (port/port_posix.h), nothing is compressed.\<close>

definition noSnappy :: snappy where
  "noSnappy = \<lparr>Snappy_Compress = (\<lambda>_. None), Snappy_GetUncompressedLength = (\<lambda>_. None), Snappy_Uncompress = (\<lambda>_. None)\<rparr>"

interpretation no_snappy: compressor noSnappy
  by unfold_locales (simp_all add: noSnappy_def)

text \<open>
  A comparator of a table does not lengthen keys, and between the last key of a block and the
  separator there is no key that is the same as the first one of the next block.
\<close>

locale table_comparator = comparator_laws C for C :: comparator +
  fixes same :: "bytes \<Rightarrow> bytes \<Rightarrow> bool"
  assumes separator_length: "length (cmp_FindShortestSeparator C start limit) \<le> length start"
    and successor_length: "length (cmp_FindShortSuccessor C start) \<le> length start"
    and separator_skips: "cmp_Compare C start limit < 0 \<Longrightarrow> cmp_Compare C start k < 0 \<Longrightarrow>
      cmp_Compare C k (cmp_FindShortestSeparator C start limit) \<le> 0 \<Longrightarrow> \<not> same k limit"

lemma bytewise_separator_length: "length (bytewise_FindShortestSeparator a b) \<le> length a"
  by (auto simp: bytewise_FindShortestSeparator_def Let_def)

lemma bytewise_successor_length: "length (bytewise_FindShortSuccessor a) \<le> length a"
  by (induction a) simp_all

interpretation bytewise_table: table_comparator BytewiseComparator "(=)"
proof
  fix start limit k
  show "length (cmp_FindShortestSeparator BytewiseComparator start limit) \<le> length start"
    "length (cmp_FindShortSuccessor BytewiseComparator start) \<le> length start"
    by (simp_all add: BytewiseComparator_def bytewise_separator_length bytewise_successor_length)
  assume l: "cmp_Compare BytewiseComparator start limit < 0"
    "cmp_Compare BytewiseComparator k (cmp_FindShortestSeparator BytewiseComparator start limit) \<le> 0"
  show "k \<noteq> limit"
    using bytewise.le_less_trans [OF l(2) bytewise.separator_less [OF l(1)]] by auto
qed

text \<open>The same user key: what a read of a table with internal keys looks for.\<close>

abbreviation sameUser :: "bytes \<Rightarrow> bytes \<Rightarrow> bool" where
  "sameUser a b \<equiv> ExtractUserKey a = ExtractUserKey b"

context comparator_laws
begin

lemma internal_lengths:
  "length (internal_FindShortestSeparator C start limit) \<le> length start"
  "length (internal_FindShortSuccessor C start) \<le> length start"
  by (auto simp: internal_FindShortestSeparator_def internal_FindShortSuccessor_def Let_def PutFixed64_def ExtractUserKey_def)

lemma internal_separator_skips:
  assumes "internal_Compare C start limit < 0" "internal_Compare C start k < 0"
    "internal_Compare C k (internal_FindShortestSeparator C start limit) \<le> 0"
  shows "\<not> sameUser k limit"
proof
  assume same: "sameUser k limit"
  let ?us = "ExtractUserKey start" and ?ul = "ExtractUserKey limit"
  let ?tmp = "cmp_FindShortestSeparator C ?us ?ul"
  show False
  proof (cases "length ?tmp < length ?us \<and> cmp_Compare C ?us ?tmp < 0")
    case False
    then have "internal_FindShortestSeparator C start limit = start" by (auto simp: internal_FindShortestSeparator_def Let_def)
    then show False using ordering.less_trans [OF internal_ordering assms(2), of start] assms(3) ordering.refl [OF internal_ordering, of start] by simp
  next
    case True
    then have "ExtractUserKey (internal_FindShortestSeparator C start limit) = ?tmp"
      by (simp add: internal_FindShortestSeparator_def Let_def PutFixed64_def)
    then have k: "cmp_Compare C ?ul ?tmp \<le> 0"
      using assms(3) same by (simp add: internal_Compare_def Let_def split: if_splits)
    have "cmp_Compare C ?us ?ul \<le> 0" using assms(1) by (simp add: internal_Compare_def Let_def split: if_splits)
    moreover have "cmp_Compare C ?us ?ul \<noteq> 0" using separator_same [of ?us ?ul] True by (auto simp: refl)
    ultimately have "cmp_Compare C ?tmp ?ul < 0" by (intro separator_less) simp
    then show False using less_trans [of ?tmp ?ul ?tmp] k by simp
  qed
qed

lemma internal_table: "table_comparator (InternalKeyComparator C) sameUser"
  by (intro table_comparator.intro table_comparator_axioms.intro internal_laws)
    (simp_all add: InternalKeyComparator_def internal_lengths internal_separator_skips)

end

interpretation internal_bytewise_table: table_comparator "InternalKeyComparator BytewiseComparator" sameUser
  by (rule bytewise.internal_table)

subsection \<open>Handles and footers\<close>

lemma bh_EncodeTo_append: "bh_EncodeTo h dst = dst @ bh_EncodeTo h []"
  by (simp add: bh_EncodeTo_def PutVarint64_def)

lemma bh_length: "length (bh_EncodeTo h []) \<le> 20" "bh_EncodeTo h [] \<noteq> []"
proof -
  have "length (EncodeVarint64 v) \<le> 10" for v using length_varint(1,2) by metis
  from this [of "bh_offset h"] this [of "bh_size h"] show "length (bh_EncodeTo h []) \<le> 20" by (simp add: bh_EncodeTo_def PutVarint64_def)
  have "EncodeVarint64 (bh_offset h) \<noteq> []"
    using length_varint(1) [of "bh_offset h"] VarintLength.simps [of "bh_offset h"] by (auto split: if_splits)
  then show "bh_EncodeTo h [] \<noteq> []" by (simp add: bh_EncodeTo_def PutVarint64_def)
qed

lemma bh_Decode: "bh_DecodeFrom (bh_EncodeTo h [] @ rest) = Inr (h, rest)"
  by (simp add: bh_DecodeFrom_def bh_EncodeTo_def PutVarint64_def)

lemma bh_Decode_all: "bh_DecodeFrom (bh_EncodeTo h []) = Inr (h, [])"
  using bh_Decode [of h "[]"] by simp

lemma magic_halves: "push_bit 32 (ucast (ucast (drop_bit 32 w) :: 32 word)) OR ucast (ucast (w AND 0xffffffff) :: 32 word) = (w :: 64 word)"
proof (rule bit_word_eqI)
  fix n assume "n < LENGTH(64)"
  have m: "(0xffffffff :: 64 word) = mask 32" by (simp add: mask_eq_exp_minus_1)
  show "bit (push_bit 32 (ucast (ucast (drop_bit 32 w) :: 32 word)) OR ucast (ucast (w AND 0xffffffff) :: 32 word) :: 64 word) n = bit w n"
    using \<open>n < LENGTH(64)\<close> unfolding m by (cases "n < 32") (auto simp: bit_simps)
qed

lemma ft_length: "length (ft_EncodeTo f []) = 48"
  by (simp add: ft_EncodeTo_def Let_def resizeTo_def PutFixed32_def)

lemma ft_Decode: "ft_DecodeFrom (ft_EncodeTo f []) = Some (Inr f)"
proof -
  let ?m = "kTableMagicNumber" and ?a = "bh_EncodeTo (ft_metaindex_handle f) []" and ?b = "bh_EncodeTo (ft_index_handle f) []"
  let ?lo = "EncodeFixed32 (ucast (?m AND 0xffffffff))" and ?hi = "EncodeFixed32 (ucast (drop_bit 32 ?m))"
  define pad where "pad = replicate (40 - length (?a @ ?b)) (CHR 0x00)"
  have le: "length (?a @ ?b) \<le> 40" using bh_length(1) [of "ft_metaindex_handle f"] bh_length(1) [of "ft_index_handle f"] by simp
  have e: "ft_EncodeTo f [] = (?a @ ?b @ pad) @ ?lo @ ?hi"
    using le by (simp add: ft_EncodeTo_def Let_def resizeTo_def PutFixed32_def bh_EncodeTo_append [of _ ?a] pad_def)
  have l: "length (?a @ ?b @ pad) = 40" using le by (simp add: pad_def)
  have d: "drop 40 (ft_EncodeTo f []) = ?lo @ ?hi" "drop 44 (ft_EncodeTo f []) = ?hi @ []"
  proof -
    have "drop 40 (X @ ?lo @ ?hi) = ?lo @ ?hi" "drop 44 (X @ ?lo @ ?hi) = ?hi @ []" if "length X = 40" for X using that by simp_all
    then show "drop 40 (ft_EncodeTo f []) = ?lo @ ?hi" "drop 44 (ft_EncodeTo f []) = ?hi @ []" unfolding e using l by blast+
  qed
  have magic: "push_bit 32 (ucast (DecodeFixed32 (drop 44 (ft_EncodeTo f [])))) OR ucast (DecodeFixed32 (drop 40 (ft_EncodeTo f []))) = ?m"
    unfolding d DecodeFixed32 by (rule magic_halves)
  have "bh_DecodeFrom (ft_EncodeTo f []) = Inr (ft_metaindex_handle f, ?b @ pad @ ?lo @ ?hi)" unfolding e using bh_Decode by simp
  then show ?thesis using magic ft_length [of f] bh_Decode [of "ft_index_handle f"] by (simp add: ft_DecodeFrom_def Let_def)
qed

subsection \<open>Stored blocks\<close>

text \<open>What follows a block, and what is storedAt for it.\<close>

definition trailerOf :: "bytes \<Rightarrow> compression \<Rightarrow> bytes" where
  "trailerOf c ty = [compressionByte ty] @ EncodeFixed32 (Mask (Extend 0 (crcValue 0 c) [compressionByte ty]))"

definition packed :: "snappy \<Rightarrow> compression \<Rightarrow> bytes \<Rightarrow> bytes \<times> compression" where
  "packed sn packing raw =
     (case packing of
        kNoCompression \<Rightarrow> (raw, kNoCompression)
      | kSnappyCompression \<Rightarrow>
          (case Snappy_Compress sn raw of
             None \<Rightarrow> (raw, kNoCompression)
           | Some compressed \<Rightarrow>
               if length compressed < length raw - length raw div 8 then (compressed, kSnappyCompression) else (raw, kNoCompression)))"

text \<open>The bytes \<open>raw\<close> are storedAt, packed or not, where the handle says.\<close>

definition storedAt :: "snappy \<Rightarrow> bytes \<Rightarrow> blockhandle \<Rightarrow> bytes \<Rightarrow> bool" where
  "storedAt sn dat h raw \<longleftrightarrow> (\<exists>packing c ty A B. packed sn packing raw = (c, ty) \<and> dat = A @ c @ trailerOf c ty @ B \<and>
     unat (bh_offset h) = length A \<and> unat (bh_size h) = length c)"

lemma storedAt_append: "storedAt sn dat h raw \<Longrightarrow> storedAt sn (dat @ rest) h raw"
  by (fastforce simp: storedAt_def)

text \<open>A file that gives the bytes that are asked for.\<close>

definition readable :: "rfile \<Rightarrow> bytes \<Rightarrow> bool" where
  "readable file dat \<longleftrightarrow> (\<forall>offset n. unat offset + n \<le> length dat \<longrightarrow> file offset n = (sOK, take n (drop (unat offset) dat)))"

lemma trailer_length: "length (trailerOf c ty) = 5"
  by (simp add: trailerOf_def)

context compressor
begin

lemma ReadBlock_storedAt:
  assumes "readable file dat" "storedAt sn dat h raw"
  shows "ReadBlock sn file verify h = Inr raw"
proof -
  obtain packing c ty A B where s: "packed sn packing raw = (c, ty)" "dat = A @ c @ trailerOf c ty @ B"
    "unat (bh_offset h) = length A" "unat (bh_size h) = length c" using assms(2) unfolding storedAt_def by blast
  have r: "file (bh_offset h) (length c + 5) = (sOK, c @ trailerOf c ty)"
    using assms(1) s(3) unfolding readable_def s(2) by (simp add: trailer_length)
  have crc: "crcValue 0 (c @ take (Suc 0) (trailerOf c ty)) = Unmask (DecodeFixed32 (drop (Suc 0) (trailerOf c ty)))"
    using DecodeFixed32 [of _ "[]"] by (simp add: trailerOf_def crcValue_def Extend_crc32c crc32c_append Unmask_Mask)
  have ty: "(c @ trailerOf c ty) ! length c = compressionByte ty" by (simp add: trailerOf_def)
  have "compressionByte kSnappyCompression \<noteq> compressionByte kNoCompression" by (simp add: compressionByte_def)
  moreover have "ty = kNoCompression \<and> c = raw \<or> ty = kSnappyCompression \<and> Snappy_Compress sn raw = Some c"
    using s(1) by (auto simp: packed_def split: compression.splits option.splits if_splits)
  ultimately show ?thesis
    using uncompress [of raw c] unfolding ReadBlock_def Let_def s(4) r prod.case ty
    by (auto simp: crc trailer_length)
qed

end

end
