(* ===== verification/LdbTableBuilt.thy ===== *)
theory LdbTableBuilt
  imports LdbTableLaws
begin

text \<open>
  What a table builder has written: an invariant of the builder over the entries that were
  added. The data blocks are storedAt in the file, every block but the last has a separator in
  the index, and the filters have the keys of the blocks that start in their part of the file.
\<close>

subsection \<open>Blocks and their sizes\<close>

definition builtBlock :: "int \<Rightarrow> (bytes \<times> bytes) list \<Rightarrow> blockbuilder" where
  "builtBlock N es = foldl (\<lambda>b (k, v). bb_Add N k v b) bb_Reset es"

definition rawBlock :: "int \<Rightarrow> (bytes \<times> bytes) list \<Rightarrow> bytes" where
  "rawBlock N es = fst (bb_Finish (builtBlock N es))"

lemma builtBlock_simps [simp]:
  "builtBlock N [] = bb_Reset" "builtBlock N (es @ [(k, v)]) = bb_Add N k v (builtBlock N es)"
  by (simp_all add: builtBlock_def)

lemma builtBlock_empty: "bb_buffer (builtBlock N es) = [] \<longleftrightarrow> es = []"
proof (cases es rule: rev_cases)
  case (snoc l e)
  have "bb_buffer (bb_Add N k v b) \<noteq> []" for k v b
    using length_varint(4) [of "of_nat (length v)"] by (cases "bb_counter b < N") (simp_all add: bb_Add_def entryBlock_def PutVarint32_def)
  then show ?thesis using snoc by (cases e) simp
qed (simp add: bb_Reset_def)

definition entriesWeight :: "(bytes \<times> bytes) list \<Rightarrow> nat" where
  "entriesWeight es = (\<Sum>e\<leftarrow>es. length (fst e) + length (snd e) + 60)"

lemma rawBlock_length: "length (rawBlock N es) \<le> 8 + (\<Sum>e\<leftarrow>es. length (fst e) + length (snd e) + 19)"
proof -
  have "CurrentSizeEstimate (builtBlock N es) \<le> 8 + (\<Sum>e\<leftarrow>es. length (fst e) + length (snd e) + 19)"
  proof (induction es rule: rev_induct)
    case (snoc e es)
    obtain k v where "e = (k, v)" by (cases e)
    then show ?case using snoc Add_length [of N k v "builtBlock N es"] by simp
  qed (simp add: bb_Reset_def CurrentSizeEstimate_def)
  then show ?thesis by (simp add: rawBlock_def Finish_length)
qed

lemma entriesWeight_append: "entriesWeight (a @ b) = entriesWeight a + entriesWeight b"
  by (simp add: entriesWeight_def)

lemma rawBlock_weight: "length (rawBlock N es) \<le> 8 + entriesWeight es"
proof -
  have "(\<Sum>e\<leftarrow>es. length (fst e) + length (snd e) + 19) \<le> entriesWeight es"
    unfolding entriesWeight_def by (rule sum_list_mono) simp
  then show ?thesis using rawBlock_length [of N es] by linarith
qed

subsection \<open>A builder whose file does not fail\<close>

definition tdata :: "tablebuilder \<Rightarrow> bytes" where
  "tdata r = wf_data (tb_file r)"

definition writing :: "tablebuilder \<Rightarrow> bool" where
  "writing r \<longleftrightarrow> tb_status r = sOK \<and> wf_outcomes (tb_file r) = [] \<and> tb_offset r = of_nat (length (tdata r))"

definition grown :: "bytes \<Rightarrow> tablebuilder \<Rightarrow> tablebuilder" where
  "grown G r = r\<lparr>tb_file := (tb_file r)\<lparr>wf_data := tdata r @ G\<rparr>, tb_offset := tb_offset r + of_nat (length G)\<rparr>"

definition handleHere :: "tablebuilder \<Rightarrow> bytes \<Rightarrow> blockhandle" where
  "handleHere r c = \<lparr>bh_offset = of_nat (length (tdata r)), bh_size = of_nat (length c)\<rparr>"

lemma grown_simps [simp]:
  "tdata (grown G r) = tdata r @ G" "tb_options (grown G r) = tb_options r" "tb_status (grown G r) = tb_status r"
  "tb_data_block (grown G r) = tb_data_block r" "tb_index_block (grown G r) = tb_index_block r"
  "tb_last_key (grown G r) = tb_last_key r" "tb_filter_block (grown G r) = tb_filter_block r"
  "tb_pending_index_entry (grown G r) = tb_pending_index_entry r" "tb_pending_handle (grown G r) = tb_pending_handle r"
  by (simp_all add: grown_def tdata_def)

lemma writing_grown: "writing r \<Longrightarrow> writing (grown G r)"
  by (simp add: writing_def grown_def tdata_def)

lemma writing_update [simp]:
  "writing (r\<lparr>tb_closed := b\<rparr>) = writing r" "writing (r\<lparr>tb_data_block := d\<rparr>) = writing r"
  "writing (r\<lparr>tb_index_block := d\<rparr>) = writing r" "writing (r\<lparr>tb_last_key := k\<rparr>) = writing r"
  "writing (r\<lparr>tb_num_entries := n\<rparr>) = writing r" "writing (r\<lparr>tb_filter_block := f\<rparr>) = writing r"
  "writing (r\<lparr>tb_pending_index_entry := b\<rparr>) = writing r" "writing (r\<lparr>tb_pending_handle := h\<rparr>) = writing r"
  by (simp_all add: writing_def tdata_def)

lemma tdata_update [simp]:
  "tdata (r\<lparr>tb_closed := b\<rparr>) = tdata r" "tdata (r\<lparr>tb_data_block := d\<rparr>) = tdata r"
  "tdata (r\<lparr>tb_index_block := d\<rparr>) = tdata r" "tdata (r\<lparr>tb_last_key := k\<rparr>) = tdata r"
  "tdata (r\<lparr>tb_num_entries := n\<rparr>) = tdata r" "tdata (r\<lparr>tb_filter_block := f\<rparr>) = tdata r"
  "tdata (r\<lparr>tb_pending_index_entry := b\<rparr>) = tdata r" "tdata (r\<lparr>tb_pending_handle := h\<rparr>) = tdata r"
  by (simp_all add: tdata_def)

lemma append_calm: "wf_outcomes f = [] \<Longrightarrow> wf_append c f = (True, f\<lparr>wf_data := wf_data f @ c\<rparr>)"
  by (simp add: wf_append_def)

lemma WriteRawBlock_writing:
  assumes "writing r" shows "tb_WriteRawBlock c ty r = (handleHere r c, grown (c @ trailerOf c ty) r)"
proof -
  have o: "wf_outcomes (tb_file r) = []" using assms by (simp add: writing_def)
  show ?thesis
    using assms o unfolding tb_WriteRawBlock_def append_calm [OF o] Let_def prod.case
    by (cases r) (simp add: append_calm handleHere_def grown_def fileStatus_def trailerOf_def tdata_def writing_def)
qed

lemma WriteBlock_writing:
  assumes "writing r" "packed sn (to_compression (tb_options r)) (fst (bb_Finish b)) = (c, ty)"
  shows "tb_WriteBlock sn b r = (handleHere r c, bb_Reset, grown (c @ trailerOf c ty) r)"
  using assms WriteRawBlock_writing [OF assms(1), of c ty]
  by (simp add: tb_WriteBlock_def packed_def Let_def split: compression.splits option.splits if_splits)

lemma storedAt_here:
  assumes "packed sn m raw = (c, ty)" "length (tdata r) + length c < 2 ^ 32"
  shows "storedAt sn (tdata r @ c @ trailerOf c ty) (handleHere r c) raw"
proof -
  have "unat (of_nat n :: 64 word) = n" if "n < 2 ^ 32" for n using that by (simp add: unat_of_nat)
  then have "unat (bh_offset (handleHere r c)) = length (tdata r)" "unat (bh_size (handleHere r c)) = length c"
    using assms(2) by (simp_all add: handleHere_def)
  moreover have "tdata r @ c @ trailerOf c ty = tdata r @ c @ trailerOf c ty @ []" by simp
  ultimately show ?thesis using assms(1) unfolding storedAt_def by blast
qed

subsection \<open>The invariant\<close>

text \<open>The index: a separator and the handle of each block.\<close>

definition handleIndex :: "bytes list \<Rightarrow> (blockhandle \<times> (bytes \<times> bytes) list) list \<Rightarrow> (bytes \<times> bytes) list" where
  "handleIndex seps blocks = zip seps (map (\<lambda>b. bh_EncodeTo (fst b) []) blocks)"

abbreviation entriesOf :: "(blockhandle \<times> (bytes \<times> bytes) list) list \<Rightarrow> (bytes \<times> bytes) list" where
  "entriesOf blocks \<equiv> concat (map snd blocks)"

lemma zip_take_length: "zip xs (take (length xs) ys) = zip xs ys"
  using take_zip [of "length xs" xs ys] by simp

lemma handleIndex_snoc:
  assumes "length seps < length blocks"
  shows "handleIndex (seps @ [s]) blocks = handleIndex seps blocks @ [(s, bh_EncodeTo (fst (blocks ! length seps)) [])]"
proof -
  let ?bs = "map (\<lambda>b. bh_EncodeTo (fst b) []) blocks"
  have "drop (length seps) ?bs = ?bs ! length seps # drop (Suc (length seps)) ?bs"
    using assms by (intro Cons_nth_drop_Suc [symmetric]) simp
  then have "zip [s] (drop (length seps) ?bs) = [(s, ?bs ! length seps)]" by simp
  then show ?thesis using assms by (simp add: handleIndex_def zip_append1 zip_take_length)
qed

lemma handleIndex_blocks: "length seps \<le> length blocks \<Longrightarrow> handleIndex seps (blocks @ bs) = handleIndex seps blocks"
  by (simp add: handleIndex_def zip_append2)

locale table_builder = compressor sn + table_comparator "to_comparator options" same
  for sn :: snappy and options :: tableoptions and same :: "bytes \<Rightarrow> bytes \<Rightarrow> bool" +
  assumes policy: "to_filter_policy options = Some P \<Longrightarrow> filter_policy P same"
    and policy_name: "to_filter_policy options = Some P \<Longrightarrow> length (fp_Name P) < 2 ^ 16"
begin

abbreviation cmp :: "bytes \<Rightarrow> bytes \<Rightarrow> int" where "cmp \<equiv> cmp_Compare (to_comparator options)"
abbreviation interval :: int where "interval \<equiv> to_block_restart_interval options"

abbreviation ascending :: "(bytes \<times> bytes) list \<Rightarrow> bool" where
  "ascending \<equiv> sorted_wrt (\<lambda>a b. cmp (fst a) (fst b) < 0)"

text \<open>A key between a block and the entries behind it.\<close>

definition separates :: "(bytes \<times> bytes) list \<Rightarrow> bytes \<Rightarrow> (bytes \<times> bytes) list \<Rightarrow> bool" where
  "separates ents s rest \<longleftrightarrow> cmp (fst (last ents)) s \<le> 0 \<and> length s \<le> length (fst (last ents)) \<and>
     (rest \<noteq> [] \<longrightarrow> cmp s (fst (hd rest)) < 0 \<and>
        (\<forall>k. cmp (fst (last ents)) k < 0 \<longrightarrow> cmp k s \<le> 0 \<longrightarrow> \<not> same k (fst (hd rest))))"

definition separated :: "bytes list \<Rightarrow> (blockhandle \<times> (bytes \<times> bytes) list) list \<Rightarrow> (bytes \<times> bytes) list \<Rightarrow> bool" where
  "separated seps blocks cur \<longleftrightarrow>
     (\<forall>i < length seps. separates (snd (blocks ! i)) (seps ! i) (entriesOf (drop (Suc i) blocks) @ cur))"

definition filtered :: "(blockhandle \<times> (bytes \<times> bytes) list) list \<Rightarrow> (bytes \<times> bytes) list \<Rightarrow> nat \<Rightarrow>
    (filterpolicy \<times> filterbuilder) option \<Rightarrow> bool" where
  "filtered blocks cur n fb \<longleftrightarrow>
     (case to_filter_policy options of
        None \<Rightarrow> fb = None
      | Some P \<Rightarrow> \<exists>f kss. fb = Some (P, f) \<and> filter_policy.filterKeys P same kss f \<and> length kss = Suc (n div 2048) \<and>
          (\<forall>b \<in> set blocks. unat (bh_offset (fst b)) div 2048 < length kss \<and>
             (\<forall>e \<in> set (snd b). fst e \<in> set (kss ! (unat (bh_offset (fst b)) div 2048)))) \<and>
          (\<forall>e \<in> set cur. fst e \<in> set (last kss)))"

definition tabled :: "(blockhandle \<times> (bytes \<times> bytes) list) list \<Rightarrow> bytes list \<Rightarrow> (bytes \<times> bytes) list \<Rightarrow> tablebuilder \<Rightarrow> bool" where
  "tabled blocks seps cur r \<longleftrightarrow>
     tb_options r = options \<and> writing r \<and> tb_data_block r = builtBlock interval cur \<and>
     tb_index_block r = builtBlock 1 (handleIndex seps blocks) \<and>
     (tb_pending_index_entry r \<longleftrightarrow> blocks \<noteq> [] \<and> cur = []) \<and>
     length seps = (if tb_pending_index_entry r then length blocks - 1 else length blocks) \<and>
     (tb_pending_index_entry r \<longrightarrow> tb_pending_handle r = fst (last blocks)) \<and>
     (\<forall>b \<in> set blocks. snd b \<noteq> [] \<and> storedAt sn (tdata r) (fst b) (rawBlock interval (snd b))) \<and>
     ascending (entriesOf blocks @ cur) \<and>
     (entriesOf blocks @ cur \<noteq> [] \<longrightarrow> tb_last_key r = fst (last (entriesOf blocks @ cur))) \<and>
     separated seps blocks cur \<and> filtered blocks cur (length (tdata r)) (tb_filter_block r)"

lemma last_below:
  assumes "ascending (es @ [(k, v)])" "es \<noteq> []"
  shows "cmp (fst (last es)) k < 0"
  using assms by (simp add: sorted_wrt_append)

subsection \<open>Adding an entry\<close>

lemma separates_longer:
  assumes "separates ents s rest" "rest \<noteq> []" shows "separates ents s (rest @ xs)"
  using assms by (simp add: separates_def)

lemma filtered_AddKey:
  assumes "filtered blocks cur n fb"
  shows "filtered blocks (cur @ [(k, v)]) n (map_option (\<lambda>(P, fb). (P, fb_AddKey k fb)) fb)"
proof (cases "to_filter_policy options")
  case None
  then show ?thesis using assms by (simp add: filtered_def)
next
  case (Some P)
  obtain f kss where f: "fb = Some (P, f)" "filter_policy.filterKeys P same kss f" "length kss = Suc (n div 2048)"
    "\<forall>b \<in> set blocks. unat (bh_offset (fst b)) div 2048 < length kss \<and>
             (\<forall>e \<in> set (snd b). fst e \<in> set (kss ! (unat (bh_offset (fst b)) div 2048)))" "\<forall>e \<in> set cur. fst e \<in> set (last kss)"
    using assms Some unfolding filtered_def by auto
  obtain k0 ks where kss: "kss = k0 @ [ks]" using f(3) by (cases kss rule: rev_cases) auto
  let ?kss = "k0 @ [ks @ [k]]"
  have fk: "filter_policy.filterKeys P same ?kss (fb_AddKey k f)"
    by (rule filter_policy.filterKeys_AddKey [OF policy [OF Some]]) (use f(2) kss in simp)
  have grow: "set (kss ! i) \<subseteq> set (?kss ! i)" for i
    using nth_append_length [of k0] by (cases "i < length k0") (auto simp: kss nth_append nth_Cons')
  have "\<forall>b \<in> set blocks. unat (bh_offset (fst b)) div 2048 < length ?kss \<and>
      (\<forall>e \<in> set (snd b). fst e \<in> set (?kss ! (unat (bh_offset (fst b)) div 2048)))"
  proof (intro ballI conjI)
    fix b assume b: "b \<in> set blocks"
    show "unat (bh_offset (fst b)) div 2048 < length ?kss" using f(4) b kss by simp
    fix e assume "e \<in> set (snd b)"
    then have "fst e \<in> set (kss ! (unat (bh_offset (fst b)) div 2048))" using f(4) b by blast
    then show "fst e \<in> set (?kss ! (unat (bh_offset (fst b)) div 2048))" using grow by blast
  qed
  moreover have "\<forall>e \<in> set (cur @ [(k, v)]). fst e \<in> set (last ?kss)" "length ?kss = Suc (n div 2048)"
    using f(3,5) kss by auto
  ultimately have "\<exists>f kss. map_option (\<lambda>(P, fb). (P, fb_AddKey k fb)) fb = Some (P, f) \<and> filter_policy.filterKeys P same kss f \<and>
      length kss = Suc (n div 2048) \<and>
      (\<forall>b \<in> set blocks. unat (bh_offset (fst b)) div 2048 < length kss \<and>
         (\<forall>e \<in> set (snd b). fst e \<in> set (kss ! (unat (bh_offset (fst b)) div 2048)))) \<and>
      (\<forall>e \<in> set (cur @ [(k, v)]). fst e \<in> set (last kss))"
    by (intro exI [of _ "fb_AddKey k f"] exI [of _ ?kss] conjI) (simp_all add: f(1) fk)
  then show ?thesis unfolding filtered_def Some option.case .
qed

text \<open>What \<open>Add\<close> does before it flushes.\<close>

definition addOnly :: "bytes \<Rightarrow> bytes \<Rightarrow> tablebuilder \<Rightarrow> tablebuilder" where
  "addOnly key val r =
     (let r2 = onFilter (\<lambda>P. fb_AddKey key) (addIndexEntry (cmp_FindShortestSeparator (to_comparator options) (tb_last_key r) key) r)
      in r2\<lparr>tb_last_key := key, tb_num_entries := tb_num_entries r2 + 1, tb_data_block := bb_Add interval key val (tb_data_block r2)\<rparr>)"

lemma tb_Add_addOnly:
  assumes "tb_options r = options" "tb_status r = sOK"
  shows "tb_Add sn k v r =
    (if CurrentSizeEstimate (tb_data_block (addOnly k v r)) \<ge> to_block_size options then tb_Flush sn (addOnly k v r) else addOnly k v r)"
  using assms by (simp add: tb_Add_def addOnly_def Let_def onFilter_def addIndexEntry_def)

lemma addIndexEntry_simps [simp]:
  "tb_options (addIndexEntry s r) = tb_options r" "writing (addIndexEntry s r) = writing r" "tdata (addIndexEntry s r) = tdata r"
  "tb_data_block (addIndexEntry s r) = tb_data_block r" "tb_filter_block (addIndexEntry s r) = tb_filter_block r"
  "\<not> tb_pending_index_entry (addIndexEntry s r)"
  by (simp_all add: addIndexEntry_def writing_def tdata_def)

lemma addOnly_simps:
  "tb_options (addOnly k v r) = tb_options r" "writing (addOnly k v r) = writing r" "tdata (addOnly k v r) = tdata r"
  "tb_data_block (addOnly k v r) = bb_Add interval k v (tb_data_block r)" "tb_last_key (addOnly k v r) = k"
  "tb_filter_block (addOnly k v r) = map_option (\<lambda>(P, fb). (P, fb_AddKey k fb)) (tb_filter_block r)"
  "tb_index_block (addOnly k v r) =
     tb_index_block (addIndexEntry (cmp_FindShortestSeparator (to_comparator options) (tb_last_key r) k) r)"
  "\<not> tb_pending_index_entry (addOnly k v r)"
  by (simp_all add: addOnly_def Let_def onFilter_def writing_def tdata_def addIndexEntry_def)

lemma drop_last_empty: "blocks \<noteq> [] \<Longrightarrow> drop (Suc (length blocks - 1)) blocks = []"
  by simp

lemma addIndexEntry_index:
  assumes t: "tabled blocks seps cur r" and asc: "ascending (entriesOf blocks @ cur @ [(k, v)])"
  defines "s \<equiv> cmp_FindShortestSeparator (to_comparator options) (tb_last_key r) k"
  shows "\<exists>seps'. length seps' = length blocks \<and> tb_index_block (addIndexEntry s r) = builtBlock 1 (handleIndex seps' blocks) \<and>
    separated seps' blocks (cur @ [(k, v)])"
proof (cases "tb_pending_index_entry r")
  case False
  then have n: "length seps = length blocks" "blocks = [] \<or> cur \<noteq> []" "tb_index_block r = builtBlock 1 (handleIndex seps blocks)"
    "separated seps blocks cur"
    using t by (auto simp: tabled_def)
  have "separated seps blocks (cur @ [(k, v)])"
    unfolding separated_def
  proof (intro allI impI)
    fix i assume "i < length seps"
    then have "separates (snd (blocks ! i)) (seps ! i) (entriesOf (drop (Suc i) blocks) @ cur)" "cur \<noteq> []"
      using n by (auto simp: separated_def)
    then show "separates (snd (blocks ! i)) (seps ! i) (entriesOf (drop (Suc i) blocks) @ cur @ [(k, v)])"
      using separates_longer [of _ _ "entriesOf (drop (Suc i) blocks) @ cur" "[(k, v)]"] by simp
  qed
  then show ?thesis using n False by (intro exI [of _ seps]) (simp add: addIndexEntry_def)
next
  case True
  have p: "blocks \<noteq> []" "cur = []" "length seps = length blocks - 1" "tb_pending_handle r = fst (last blocks)"
    "tb_index_block r = builtBlock 1 (handleIndex seps blocks)" "separated seps blocks []"
    "\<forall>b \<in> set blocks. snd b \<noteq> []" "entriesOf blocks \<noteq> [] \<longrightarrow> tb_last_key r = fst (last (entriesOf blocks))"
    using t True by (auto simp: tabled_def)
  obtain bs b where bs: "blocks = bs @ [b]" using p(1) by (cases blocks rule: rev_cases) auto
  have ne: "snd b \<noteq> []" using p(7) bs by simp
  then have key: "tb_last_key r = fst (last (snd b))" using p(8) bs by simp
  have less: "cmp (fst (last (snd b))) k < 0"
    using last_below [of "entriesOf blocks" k v] asc p(2) bs ne by simp
  have sep: "separates (snd b) s [(k, v)]"
    unfolding separates_def s_def key using separator_ge [OF less] separator_less [OF less] separator_skips [OF less] separator_length
    by auto
  have idx: "handleIndex (seps @ [s]) blocks = handleIndex seps blocks @ [(s, bh_EncodeTo (fst b) [])]"
    using handleIndex_snoc [of seps blocks s] p(3) bs by (simp add: nth_append)
  have "separated (seps @ [s]) blocks [(k, v)]"
    unfolding separated_def
  proof (intro allI impI)
    fix i assume i: "i < length (seps @ [s])"
    show "separates (snd (blocks ! i)) ((seps @ [s]) ! i) (entriesOf (drop (Suc i) blocks) @ [(k, v)])"
    proof (cases "i < length seps")
      case True
      then have "separates (snd (blocks ! i)) (seps ! i) (entriesOf (drop (Suc i) blocks))" using p(6) by (simp add: separated_def)
      moreover have "entriesOf (drop (Suc i) blocks) \<noteq> []" using True p(3) bs ne by simp
      ultimately show ?thesis using separates_longer True by (simp add: nth_append)
    next
      case False
      then have "i = length seps" using i by simp
      then show ?thesis using sep p(3) bs by (simp add: nth_append)
    qed
  qed
  moreover have "length (seps @ [s]) = length blocks" using p(1,3) by (cases blocks) simp_all
  ultimately show ?thesis using True p(2,4,5) idx bs by (intro exI [of _ "seps @ [s]"]) (simp add: addIndexEntry_def)
qed

lemma addOnly_tabled:
  assumes t: "tabled blocks seps cur r" and asc: "ascending (entriesOf blocks @ cur @ [(k, v)])"
  shows "\<exists>seps'. tabled blocks seps' (cur @ [(k, v)]) (addOnly k v r)"
proof -
  obtain seps' where s: "length seps' = length blocks" "tb_index_block (addOnly k v r) = builtBlock 1 (handleIndex seps' blocks)"
    "separated seps' blocks (cur @ [(k, v)])"
    using addIndexEntry_index [OF t asc] by (auto simp: addOnly_simps)
  have T: "tb_options r = options" "writing r" "tb_data_block r = builtBlock interval cur"
    "\<forall>b \<in> set blocks. snd b \<noteq> [] \<and> storedAt sn (tdata r) (fst b) (rawBlock interval (snd b))"
    "filtered blocks cur (length (tdata r)) (tb_filter_block r)" using t unfolding tabled_def by blast+
  have "filtered blocks (cur @ [(k, v)]) (length (tdata r)) (map_option (\<lambda>(P, fb). (P, fb_AddKey k fb)) (tb_filter_block r))"
    by (rule filtered_AddKey) (rule T(5))
  then have "tabled blocks seps' (cur @ [(k, v)]) (addOnly k v r)"
    unfolding tabled_def using T s asc by (simp add: addOnly_simps)
  then show ?thesis by blast
qed

subsection \<open>Writing a data block\<close>

lemma unat_of_nat_small: "n < 2 ^ 32 \<Longrightarrow> unat (of_nat n :: 64 word) = n"
  by (simp add: unat_of_nat)

lemma filtered_Start:
  assumes f: "filtered blocks cur n fb" and n: "n \<le> n'" "n' < 2 ^ 32" and h: "unat (bh_offset h) = n"
  shows "filtered (blocks @ [(h, cur)]) [] n' (map_option (\<lambda>(P, fb). (P, StartBlock P (of_nat n') fb)) fb)"
proof (cases "to_filter_policy options")
  case None
  then show ?thesis using f by (simp add: filtered_def)
next
  case (Some P)
  obtain fb0 kss where k: "fb = Some (P, fb0)" "filter_policy.filterKeys P same kss fb0" "length kss = Suc (n div 2048)"
    "\<forall>b \<in> set blocks. unat (bh_offset (fst b)) div 2048 < length kss \<and>
             (\<forall>e \<in> set (snd b). fst e \<in> set (kss ! (unat (bh_offset (fst b)) div 2048)))" "\<forall>e \<in> set cur. fst e \<in> set (last kss)"
    using f Some unfolding filtered_def by auto
  let ?kss = "kss @ replicate (Suc (n' div 2048) - length kss) []"
  have fk: "filter_policy.filterKeys P same ?kss (StartBlock P (of_nat n') fb0)"
    unfolding StartBlock_def unat_of_nat_small [OF n(2)] by (rule filter_policy.startLoop_keys [OF policy [OF Some] k(2)])
  have len: "length ?kss = Suc (n' div 2048)" using k(3) div_le_mono [OF n(1), of 2048] by simp
  have nth: "?kss ! i = kss ! i" if "i < length kss" for i using that by (simp add: nth_append)
  have last: "kss ! (n div 2048) = last kss" using k(3) by (cases kss rule: rev_cases) (auto simp: nth_append)
  have keys: "\<forall>b \<in> set (blocks @ [(h, cur)]). unat (bh_offset (fst b)) div 2048 < length ?kss \<and>
      (\<forall>e \<in> set (snd b). fst e \<in> set (?kss ! (unat (bh_offset (fst b)) div 2048)))"
  proof
    fix b assume b: "b \<in> set (blocks @ [(h, cur)])"
    have "unat (bh_offset (fst b)) div 2048 < length kss \<and> (\<forall>e \<in> set (snd b). fst e \<in> set (kss ! (unat (bh_offset (fst b)) div 2048)))"
    proof (cases "b \<in> set blocks")
      case True
      then show ?thesis using k(4) by blast
    next
      case False
      then have "b = (h, cur)" using b by simp
      then show ?thesis using h k(3,5) last by simp
    qed
    then show "unat (bh_offset (fst b)) div 2048 < length ?kss \<and>
        (\<forall>e \<in> set (snd b). fst e \<in> set (?kss ! (unat (bh_offset (fst b)) div 2048)))" using nth by simp
  qed
  have "\<exists>f kss. map_option (\<lambda>(P, fb). (P, StartBlock P (of_nat n') fb)) fb = Some (P, f) \<and> filter_policy.filterKeys P same kss f \<and>
      length kss = Suc (n' div 2048) \<and>
      (\<forall>b \<in> set (blocks @ [(h, cur)]). unat (bh_offset (fst b)) div 2048 < length kss \<and>
         (\<forall>e \<in> set (snd b). fst e \<in> set (kss ! (unat (bh_offset (fst b)) div 2048)))) \<and>
      (\<forall>e \<in> set []. fst e \<in> set (last kss))"
    using fk len keys by (intro exI [of _ "StartBlock P (of_nat n') fb0"] exI [of _ ?kss] conjI) (simp_all add: k(1))
  then show ?thesis unfolding filtered_def Some option.case .
qed

lemma flush_calm: "writing r \<Longrightarrow> wf_flush (tb_file r) = (True, tb_file r)"
  by (simp add: wf_flush_def append_calm writing_def)

lemma Flush_writing:
  assumes "writing r" "bb_buffer (tb_data_block r) \<noteq> []" "packed sn (to_compression (tb_options r)) (fst (bb_Finish (tb_data_block r))) = (c, ty)"
  shows "tb_Flush sn r =
    onFilter (\<lambda>P. StartBlock P (of_nat (length (tdata r @ c @ trailerOf c ty))))
      ((grown (c @ trailerOf c ty) r)\<lparr>tb_data_block := bb_Reset, tb_pending_handle := handleHere r c, tb_pending_index_entry := True\<rparr>)"
proof -
  obtain g where g: "g = grown (c @ trailerOf c ty) r" by blast
  have "writing g" using assms(1) unfolding g by (rule writing_grown)
  then have s: "tb_status r = sOK" "tb_status g = sOK" "tb_offset g = of_nat (length (tdata r @ c @ trailerOf c ty))"
    "wf_flush (tb_file g) = (True, tb_file g)"
    using assms(1) flush_calm by (simp_all add: writing_def g)
  have eq: "g\<lparr>tb_data_block := bb_Reset, tb_pending_handle := handleHere r c, tb_pending_index_entry := True, tb_status := sOK\<rparr> =
      g\<lparr>tb_data_block := bb_Reset, tb_pending_handle := handleHere r c, tb_pending_index_entry := True\<rparr>"
    using s(2) by (cases g) simp
  show ?thesis
    unfolding tb_Flush_def WriteBlock_writing [OF assms(1,3)] Let_def g [symmetric] prod.case
    using s assms(2) by (simp add: fileStatus_def eq)
qed

lemma Flush_tabled:
  assumes t: "tabled blocks seps cur r" and cur: "cur \<noteq> []" and small: "length (tdata (tb_Flush sn r)) < 2 ^ 32"
  shows "\<exists>h. tabled (blocks @ [(h, cur)]) seps [] (tb_Flush sn r)"
proof -
  have T: "tb_options r = options" "writing r" "tb_data_block r = builtBlock interval cur"
    "tb_index_block r = builtBlock 1 (handleIndex seps blocks)" "\<not> tb_pending_index_entry r" "length seps = length blocks"
    "\<forall>b \<in> set blocks. snd b \<noteq> [] \<and> storedAt sn (tdata r) (fst b) (rawBlock interval (snd b))"
    "ascending (entriesOf blocks @ cur)" "tb_last_key r = fst (last (entriesOf blocks @ cur))"
    "separated seps blocks cur" "filtered blocks cur (length (tdata r)) (tb_filter_block r)"
    using t cur unfolding tabled_def by auto
  obtain c ty where p: "packed sn (to_compression options) (rawBlock interval cur) = (c, ty)" by (cases "packed sn (to_compression options) (rawBlock interval cur)")
  let ?G = "c @ trailerOf c ty" and ?h = "handleHere r c"
  have buf: "bb_buffer (tb_data_block r) \<noteq> []" using cur T(3) builtBlock_empty by simp
  have fl: "tb_Flush sn r = onFilter (\<lambda>P. StartBlock P (of_nat (length (tdata r @ ?G))))
      ((grown ?G r)\<lparr>tb_data_block := bb_Reset, tb_pending_handle := ?h, tb_pending_index_entry := True\<rparr>)"
    by (rule Flush_writing [OF T(2) buf]) (use p T(1,3) in \<open>simp add: rawBlock_def\<close>)
  have d: "tdata (tb_Flush sn r) = tdata r @ ?G" unfolding fl by (simp add: onFilter_def)
  have n: "length (tdata r) \<le> length (tdata r @ ?G)" "length (tdata r @ ?G) < 2 ^ 32" using small unfolding d by simp_all
  have off: "unat (bh_offset ?h) = length (tdata r)" using n unat_of_nat_small [of "length (tdata r)"] by (simp add: handleHere_def)
  have st: "storedAt sn (tdata r @ ?G) ?h (rawBlock interval cur)" by (rule storedAt_here [OF p]) (use n in simp)
  have "\<forall>b \<in> set (blocks @ [(?h, cur)]). snd b \<noteq> [] \<and> storedAt sn (tdata r @ ?G) (fst b) (rawBlock interval (snd b))"
    using T(7) st cur storedAt_append [of sn "tdata r" _ _ ?G] by auto
  moreover have "separated seps (blocks @ [(?h, cur)]) []"
    using T(6,10) by (auto simp: separated_def nth_append Suc_le_eq)
  moreover have "filtered (blocks @ [(?h, cur)]) [] (length (tdata r @ ?G)) (tb_filter_block (tb_Flush sn r))"
    using filtered_Start [OF T(11) n off] unfolding fl by (simp add: onFilter_def)
  moreover have "writing (tb_Flush sn r)" using writing_grown [OF T(2), of ?G] unfolding fl by (simp add: onFilter_def)
  moreover have "builtBlock 1 (handleIndex seps (blocks @ [(?h, cur)])) = tb_index_block r" using T(4,6) by (simp add: handleIndex_blocks)
  ultimately have "tabled (blocks @ [(?h, cur)]) seps [] (tb_Flush sn r)"
    unfolding tabled_def d using T(1,6,8,9) by (simp add: fl onFilter_def)
  then show ?thesis by blast
qed

lemma Flush_empty: "tabled blocks seps [] r \<Longrightarrow> tb_Flush sn r = r"
  by (simp add: tb_Flush_def tabled_def bb_Reset_def writing_def)

subsection \<open>All entries\<close>

lemma Flush_longer:
  assumes "tb_options r = options" "writing r"
  shows "length (tdata r) \<le> length (tdata (tb_Flush sn r)) \<and> tb_options (tb_Flush sn r) = options \<and> writing (tb_Flush sn r)"
proof (cases "bb_buffer (tb_data_block r) = []")
  case True
  then show ?thesis using assms by (simp add: tb_Flush_def)
next
  case False
  obtain c ty where p: "packed sn (to_compression (tb_options r)) (fst (bb_Finish (tb_data_block r))) = (c, ty)"
    by (cases "packed sn (to_compression (tb_options r)) (fst (bb_Finish (tb_data_block r)))")
  show ?thesis
    unfolding Flush_writing [OF assms(2) False p] using writing_grown [OF assms(2), of "c @ trailerOf c ty"] assms(1)
    by (simp add: onFilter_def)
qed

lemma tb_Add_longer:
  assumes T: "tb_options r = options" "writing r"
  shows "length (tdata r) \<le> length (tdata (tb_Add sn k v r))" "tb_options (tb_Add sn k v r) = options" "writing (tb_Add sn k v r)"
proof -
  have w: "tb_options (addOnly k v r) = options" "writing (addOnly k v r)" using T by (simp_all add: addOnly_simps)
  show "length (tdata r) \<le> length (tdata (tb_Add sn k v r))" "tb_options (tb_Add sn k v r) = options" "writing (tb_Add sn k v r)"
    using T w Flush_longer [OF w] by (simp_all add: tb_Add_addOnly writing_def addOnly_simps)
qed

lemma tb_Add_tabled:
  assumes t: "tabled blocks seps cur r" and asc: "ascending (entriesOf blocks @ cur @ [(k, v)])"
    and small: "length (tdata (tb_Add sn k v r)) < 2 ^ 32"
  shows "\<exists>blocks' seps' cur'. tabled blocks' seps' cur' (tb_Add sn k v r) \<and> entriesOf blocks' @ cur' = entriesOf blocks @ cur @ [(k, v)]"
proof -
  obtain seps' where a: "tabled blocks seps' (cur @ [(k, v)]) (addOnly k v r)" using addOnly_tabled [OF t asc] by blast
  have add: "tb_Add sn k v r =
    (if CurrentSizeEstimate (tb_data_block (addOnly k v r)) \<ge> to_block_size options then tb_Flush sn (addOnly k v r) else addOnly k v r)"
    by (rule tb_Add_addOnly) (use t in \<open>simp_all add: tabled_def writing_def\<close>)
  show ?thesis
  proof (cases "CurrentSizeEstimate (tb_data_block (addOnly k v r)) \<ge> to_block_size options")
    case True
    then obtain h where "tabled (blocks @ [(h, cur @ [(k, v)])]) seps' [] (tb_Flush sn (addOnly k v r))"
      using Flush_tabled [OF a] small add by auto
    then show ?thesis using add True by (intro exI [of _ "blocks @ [(h, cur @ [(k, v)])]"] exI [of _ seps'] exI [of _ "[]"]) simp
  next
    case False
    then show ?thesis using a add by auto
  qed
qed

definition newTable :: "(bytes \<times> bytes) list \<Rightarrow> tablebuilder" where
  "newTable es = foldl (\<lambda>r (k, v). tb_Add sn k v r) (TableBuilder options \<lparr>wf_data = [], wf_outcomes = []\<rparr>) es"

lemma TableBuilder_tabled: "tabled [] [] [] (TableBuilder options \<lparr>wf_data = [], wf_outcomes = []\<rparr>)"
proof -
  have "filter_policy.filterKeys P same [[]] (StartBlock P 0 FilterBlockBuilder)" if P: "to_filter_policy options = Some P" for P
    using filter_policy.startLoop_keys [OF policy [OF P] filter_policy.filterKeys_new [OF policy [OF P]], of 0] by (simp add: StartBlock_def)
  then show ?thesis
    by (auto simp: tabled_def TableBuilder_def newRep_def onFilter_def writing_def tdata_def handleIndex_def separated_def filtered_def
        split: option.split)
qed

lemma newTable_writing: "tb_options (newTable es) = options \<and> writing (newTable es)"
proof (induction es rule: rev_induct)
  case Nil
  then show ?case using TableBuilder_tabled by (simp add: newTable_def tabled_def)
next
  case (snoc e es)
  then show ?case using tb_Add_longer(2,3) by (cases e) (simp add: newTable_def)
qed

lemma newTable_tabled:
  assumes "ascending es" "length (tdata (newTable es)) < 2 ^ 32"
  shows "\<exists>blocks seps cur. tabled blocks seps cur (newTable es) \<and> entriesOf blocks @ cur = es"
  using assms
proof (induction es rule: rev_induct)
  case Nil
  then show ?case using TableBuilder_tabled by (intro exI [of _ "[]"]) (simp add: newTable_def)
next
  case (snoc e es)
  obtain k v where e: "e = (k, v)" by (cases e)
  have step: "newTable (es @ [e]) = tb_Add sn k v (newTable es)" by (simp add: newTable_def e)
  have "length (tdata (newTable es)) < 2 ^ 32"
    using tb_Add_longer(1) [of "newTable es" k v] newTable_writing [of es] snoc.prems(2) unfolding step by simp
  moreover have "ascending es" using snoc.prems(1) by (simp add: sorted_wrt_append)
  ultimately obtain blocks seps cur where t: "tabled blocks seps cur (newTable es)" "entriesOf blocks @ cur = es"
    using snoc.IH by blast
  have es: "entriesOf blocks @ cur @ [(k, v)] = es @ [e]" using t(2) e by simp
  have "ascending (entriesOf blocks @ cur @ [(k, v)])" unfolding es by (rule snoc.prems(1))
  then show ?case using tb_Add_tabled [OF t(1), of k v] snoc.prems(2) unfolding step es by blast
qed

end

end
