(* ===== verification/LdbTableRead.thy ===== *)
theory LdbTableRead
  imports LdbTableBuilt
begin

text \<open>
  The end of a table file, and what is read from a file that was built: the iterator of the
  table walks its entries, and \<open>InternalGet\<close> finds the entry behind a key.
\<close>

context table_builder
begin

subsection \<open>The end of the file\<close>

text \<open>The filter block and the block that names it.\<close>

definition filterStored :: "(blockhandle \<times> (bytes \<times> bytes) list) list \<Rightarrow> blockhandle \<Rightarrow> bytes \<Rightarrow> bool" where
  "filterStored blocks mh dat \<longleftrightarrow>
     (\<forall>P. to_filter_policy options = Some P \<longrightarrow>
        (\<exists>fb kss fh. filter_policy.filterKeys P same kss fb \<and>
          (\<forall>b \<in> set blocks. unat (bh_offset (fst b)) div 2048 < length kss \<and>
             (\<forall>e \<in> set (snd b). fst e \<in> set (kss ! (unat (bh_offset (fst b)) div 2048)))) \<and>
          length (fst (fb_Finish P fb)) < 2 ^ 32 \<and> storedAt sn dat fh (fst (fb_Finish P fb)) \<and>
          storedAt sn dat mh (rawBlock interval [(''filter.'' @ fp_Name P, bh_EncodeTo fh [])])))"

definition written :: "(blockhandle \<times> (bytes \<times> bytes) list) list \<Rightarrow> bytes list \<Rightarrow> footer \<Rightarrow> bytes \<Rightarrow> bool" where
  "written blocks seps ft dat \<longleftrightarrow>
     (\<exists>X. dat = X @ ft_EncodeTo ft []) \<and> length seps = length blocks \<and> separated seps blocks [] \<and>
     (\<forall>b \<in> set blocks. snd b \<noteq> [] \<and> storedAt sn dat (fst b) (rawBlock interval (snd b))) \<and>
     storedAt sn dat (ft_index_handle ft) (rawBlock 1 (handleIndex seps blocks)) \<and> filterStored blocks (ft_metaindex_handle ft) dat"

lemma finishFilter_writing:
  assumes "writing r" "filtered blocks [] n (tb_filter_block r)"
  obtains fh F fb where "finishFilter r = (fh, grown F (r\<lparr>tb_filter_block := fb\<rparr>))"
    "fb = None \<longleftrightarrow> to_filter_policy options = None"
    "\<And>P. to_filter_policy options = Some P \<Longrightarrow> length (tdata r @ F) < 2 ^ 32 \<Longrightarrow>
       \<exists>fb kss. filter_policy.filterKeys P same kss fb \<and>
          (\<forall>b \<in> set blocks. unat (bh_offset (fst b)) div 2048 < length kss \<and>
             (\<forall>e \<in> set (snd b). fst e \<in> set (kss ! (unat (bh_offset (fst b)) div 2048)))) \<and>
          length (fst (fb_Finish P fb)) < 2 ^ 32 \<and> storedAt sn (tdata r @ F) fh (fst (fb_Finish P fb))"
proof (cases "to_filter_policy options")
  case None
  then have "tb_filter_block r = None" using assms(2) by (simp add: filtered_def)
  then have "finishFilter r = (newHandle, grown [] (r\<lparr>tb_filter_block := None\<rparr>))" by (cases r) (simp add: finishFilter_def grown_def tdata_def)
  then show ?thesis using that [of newHandle "[]" None] None by simp
next
  case (Some P)
  obtain fb kss where f: "tb_filter_block r = Some (P, fb)" "filter_policy.filterKeys P same kss fb"
    "\<forall>b \<in> set blocks. unat (bh_offset (fst b)) div 2048 < length kss \<and>
             (\<forall>e \<in> set (snd b). fst e \<in> set (kss ! (unat (bh_offset (fst b)) div 2048)))"
    using assms(2) Some unfolding filtered_def by auto
  obtain c fb1 where c: "fb_Finish P fb = (c, fb1)" by (cases "fb_Finish P fb")
  let ?r = "r\<lparr>tb_filter_block := Some (P, fb1)\<rparr>" and ?F = "c @ trailerOf c kNoCompression"
  have w: "writing ?r" using assms(1) by simp
  have e: "finishFilter r = (handleHere ?r c, grown ?F ?r)"
    using f(1) c assms(1) WriteRawBlock_writing [OF w, of c kNoCompression] by (simp add: finishFilter_def writing_def)
  have "storedAt sn (tdata r @ ?F) (handleHere ?r c) c \<and> length c < 2 ^ 32" if "length (tdata r @ ?F) < 2 ^ 32"
    using storedAt_here [of sn kNoCompression c c kNoCompression ?r] that by (simp add: packed_def)
  then show ?thesis using that [OF e] Some f(2,3) c by fastforce
qed

lemma finishMeta_writing:
  assumes "writing r" "tb_options r = options" "tb_filter_block r = None \<longleftrightarrow> to_filter_policy options = None"
  obtains mh M where "finishMeta sn fh r = (mh, grown M r)"
    "\<And>P. to_filter_policy options = Some P \<Longrightarrow> length (tdata r @ M) < 2 ^ 32 \<Longrightarrow>
       storedAt sn (tdata r @ M) mh (rawBlock interval [(''filter.'' @ fp_Name P, bh_EncodeTo fh [])])"
proof -
  define raw where "raw = (case to_filter_policy options of None \<Rightarrow> [] | Some P \<Rightarrow> [(''filter.'' @ fp_Name P, bh_EncodeTo fh [])])"
  obtain c ty where p: "packed sn (to_compression (tb_options r)) (fst (bb_Finish (builtBlock interval raw))) = (c, ty)"
    by (cases "packed sn (to_compression (tb_options r)) (fst (bb_Finish (builtBlock interval raw)))")
  have e: "finishMeta sn fh r = (handleHere r c, grown (c @ trailerOf c ty) r)"
    using assms WriteBlock_writing [OF assms(1) p]
    by (auto simp: finishMeta_def Let_def writing_def raw_def builtBlock_def split: option.splits)
  have s: "storedAt sn (tdata r @ c @ trailerOf c ty) (handleHere r c) (rawBlock interval raw)" if "length (tdata r @ c @ trailerOf c ty) < 2 ^ 32"
    by (rule storedAt_here) (use p that in \<open>simp_all add: rawBlock_def\<close>)
  show ?thesis
  proof (rule that [OF e])
    fix P assume "to_filter_policy options = Some P" "length (tdata r @ c @ trailerOf c ty) < 2 ^ 32"
    then show "storedAt sn (tdata r @ c @ trailerOf c ty) (handleHere r c) (rawBlock interval [(''filter.'' @ fp_Name P, bh_EncodeTo fh [])])"
      using s by (simp add: raw_def)
  qed
qed

lemma finishIndex_writing:
  assumes "writing r" "tb_options r = options"
  defines "s \<equiv> cmp_FindShortSuccessor (to_comparator options) (tb_last_key r)"
  obtains ih G where "finishIndex sn r = (ih, (grown G (addIndexEntry s r))\<lparr>tb_index_block := bb_Reset\<rparr>)"
    "length (tdata r @ G) < 2 ^ 32 \<Longrightarrow> storedAt sn (tdata r @ G) ih (fst (bb_Finish (tb_index_block (addIndexEntry s r))))"
proof -
  let ?r = "addIndexEntry s r"
  obtain c ty where p: "packed sn (to_compression (tb_options ?r)) (fst (bb_Finish (tb_index_block ?r))) = (c, ty)"
    by (cases "packed sn (to_compression (tb_options ?r)) (fst (bb_Finish (tb_index_block ?r)))")
  have w: "writing ?r" using assms(1) by simp
  have "finishIndex sn r = (handleHere ?r c, (grown (c @ trailerOf c ty) ?r)\<lparr>tb_index_block := bb_Reset\<rparr>)"
    using assms WriteBlock_writing [OF w p] by (simp add: finishIndex_def Let_def writing_def)
  moreover have "storedAt sn (tdata r @ c @ trailerOf c ty) (handleHere ?r c) (fst (bb_Finish (tb_index_block ?r)))"
    if "length (tdata r @ c @ trailerOf c ty) < 2 ^ 32"
    using storedAt_here [OF p, of ?r] that by simp
  ultimately show ?thesis using that by blast
qed

lemma finishFooter_writing:
  assumes "writing r"
  shows "finishFooter mh ih r = grown (ft_EncodeTo \<lparr>ft_metaindex_handle = mh, ft_index_handle = ih\<rparr> []) r"
proof -
  have "wf_outcomes (tb_file r) = []" "tb_status r = sOK" using assms by (simp_all add: writing_def)
  then show ?thesis by (cases r) (simp add: finishFooter_def Let_def append_calm grown_def tdata_def fileStatus_def)
qed

text \<open>The last entry of the index, with a key that is not before any entry.\<close>

lemma last_index:
  assumes t: "tabled blocks seps [] r"
  defines "s \<equiv> cmp_FindShortSuccessor (to_comparator options) (tb_last_key r)"
  shows "\<exists>seps'. length seps' = length blocks \<and> tb_index_block (addIndexEntry s r) = builtBlock 1 (handleIndex seps' blocks) \<and>
    separated seps' blocks []"
proof (cases "blocks = []")
  case True
  then show ?thesis using t by (intro exI [of _ "[]"]) (simp add: tabled_def addIndexEntry_def separated_def handleIndex_def)
next
  case False
  have p: "tb_pending_index_entry r" "length seps = length blocks - 1" "tb_pending_handle r = fst (last blocks)"
    "tb_index_block r = builtBlock 1 (handleIndex seps blocks)" "separated seps blocks []"
    "\<forall>b \<in> set blocks. snd b \<noteq> []" "entriesOf blocks \<noteq> [] \<longrightarrow> tb_last_key r = fst (last (entriesOf blocks))"
    using t False by (auto simp: tabled_def)
  obtain bs b where bs: "blocks = bs @ [b]" using False by (cases blocks rule: rev_cases) auto
  have ne: "snd b \<noteq> []" using p(6) bs by simp
  then have key: "tb_last_key r = fst (last (snd b))" using p(7) bs by simp
  have idx: "handleIndex (seps @ [s]) blocks = handleIndex seps blocks @ [(s, bh_EncodeTo (fst b) [])]"
    using handleIndex_snoc [of seps blocks s] p(2) bs by (simp add: nth_append)
  have last: "separates (snd b) s []" using successor_ge successor_length by (simp add: separates_def s_def key)
  have "separated (seps @ [s]) blocks []"
    unfolding separated_def
  proof (intro allI impI)
    fix i assume i: "i < length (seps @ [s])"
    show "separates (snd (blocks ! i)) ((seps @ [s]) ! i) (entriesOf (drop (Suc i) blocks) @ [])"
    proof (cases "i < length seps")
      case True
      then show ?thesis using p(5) by (simp add: separated_def nth_append)
    next
      case False
      then have "i = length seps" using i by simp
      then show ?thesis using last p(2) bs by (simp add: nth_append)
    qed
  qed
  moreover have "length (seps @ [s]) = length blocks" using p(2) bs by simp
  ultimately show ?thesis using p(1,3,4) idx bs by (intro exI [of _ "seps @ [s]"]) (simp add: addIndexEntry_def)
qed

lemma Finish_written:
  assumes t: "tabled blocks seps [] r" and small: "length (tdata (snd (tb_Finish sn r))) < 2 ^ 32"
  shows "\<exists>seps' ft. fst (tb_Finish sn r) = sOK \<and> written blocks seps' ft (tdata (snd (tb_Finish sn r))) \<and>
    tb_FileSize (snd (tb_Finish sn r)) = of_nat (length (tdata (snd (tb_Finish sn r))))"
proof -
  let ?r1 = "r\<lparr>tb_closed := True\<rparr>"
  have T: "tb_options r = options" "writing r" "filtered blocks [] (length (tdata r)) (tb_filter_block r)"
    "\<forall>b \<in> set blocks. snd b \<noteq> [] \<and> storedAt sn (tdata r) (fst b) (rawBlock interval (snd b))" using t unfolding tabled_def by auto
  have w1: "writing ?r1" "filtered blocks [] (length (tdata r)) (tb_filter_block ?r1)" using T by simp_all
  obtain fh F fb where f: "finishFilter ?r1 = (fh, grown F (?r1\<lparr>tb_filter_block := fb\<rparr>))"
    "fb = None \<longleftrightarrow> to_filter_policy options = None"
    "\<And>P. to_filter_policy options = Some P \<Longrightarrow> length (tdata ?r1 @ F) < 2 ^ 32 \<Longrightarrow>
       \<exists>fb kss. filter_policy.filterKeys P same kss fb \<and>
          (\<forall>b \<in> set blocks. unat (bh_offset (fst b)) div 2048 < length kss \<and>
             (\<forall>e \<in> set (snd b). fst e \<in> set (kss ! (unat (bh_offset (fst b)) div 2048)))) \<and>
          length (fst (fb_Finish P fb)) < 2 ^ 32 \<and> storedAt sn (tdata ?r1 @ F) fh (fst (fb_Finish P fb))"
    by (rule finishFilter_writing [OF w1]) (rule that, assumption, assumption, blast)
  let ?r2 = "grown F (?r1\<lparr>tb_filter_block := fb\<rparr>)"
  have w2: "writing ?r2" "tb_options ?r2 = options" "tb_filter_block ?r2 = None \<longleftrightarrow> to_filter_policy options = None"
    using T(1,2) f(2) writing_grown by simp_all
  obtain mh M where m: "finishMeta sn fh ?r2 = (mh, grown M ?r2)"
    "\<And>P. to_filter_policy options = Some P \<Longrightarrow> length (tdata ?r2 @ M) < 2 ^ 32 \<Longrightarrow>
       storedAt sn (tdata ?r2 @ M) mh (rawBlock interval [(''filter.'' @ fp_Name P, bh_EncodeTo fh [])])"
    by (rule finishMeta_writing [OF w2]) (rule that, assumption, blast)
  let ?r3 = "grown M ?r2" and ?s = "cmp_FindShortSuccessor (to_comparator options) (tb_last_key r)"
  have w3: "writing ?r3" "tb_options ?r3 = options" and key: "tb_last_key ?r3 = tb_last_key r" using w2 writing_grown by simp_all
  obtain ih G where i: "finishIndex sn ?r3 = (ih, (grown G (addIndexEntry ?s ?r3))\<lparr>tb_index_block := bb_Reset\<rparr>)"
    "length (tdata ?r3 @ G) < 2 ^ 32 \<Longrightarrow> storedAt sn (tdata ?r3 @ G) ih (fst (bb_Finish (tb_index_block (addIndexEntry ?s ?r3))))"
    by (rule finishIndex_writing [OF w3, unfolded key]) (rule that, assumption, blast)
  let ?r4 = "(grown G (addIndexEntry ?s ?r3))\<lparr>tb_index_block := bb_Reset\<rparr>"
  let ?ft = "\<lparr>ft_metaindex_handle = mh, ft_index_handle = ih\<rparr>"
  have w4: "writing ?r4" using w3(1) writing_grown by simp
  let ?r5 = "grown (ft_EncodeTo ?ft []) ?r4"
  have fl: "tb_Flush sn r = r" by (rule Flush_empty [OF t])
  have fin: "tb_Finish sn r = (tb_status ?r5, ?r5)"
    by (simp only: tb_Finish_def fl Let_def f(1) m(1) i(1) finishFooter_writing [OF w4] prod.case)
  have d5: "tdata ?r5 = tdata r @ F @ M @ G @ ft_EncodeTo ?ft []" by simp
  have w5: "writing ?r5" by (rule writing_grown [OF w4])
  have n: "length (tdata r @ F @ M @ G @ ft_EncodeTo ?ft []) < 2 ^ 32" using small unfolding fin snd_conv d5 .
  obtain seps' where s: "length seps' = length blocks" "tb_index_block (addIndexEntry ?s r) = builtBlock 1 (handleIndex seps' blocks)"
    "separated seps' blocks []" using last_index [OF t] by blast
  have ix: "tb_index_block (addIndexEntry ?s ?r3) = tb_index_block (addIndexEntry ?s r)" by (simp add: addIndexEntry_def)
  have index: "storedAt sn (tdata ?r5) ih (rawBlock 1 (handleIndex seps' blocks))"
  proof -
    have "storedAt sn (tdata ?r3 @ G) ih (rawBlock 1 (handleIndex seps' blocks))" using i(2) n s(2) unfolding ix by (simp add: rawBlock_def)
    then show ?thesis using storedAt_append [of sn "tdata ?r3 @ G" ih _ "ft_EncodeTo ?ft []"] by simp
  qed
  have filters: "filterStored blocks mh (tdata ?r5)"
    unfolding filterStored_def
  proof (intro allI impI)
    fix P assume P: "to_filter_policy options = Some P"
    obtain fb kss where k: "filter_policy.filterKeys P same kss fb"
      "\<forall>b \<in> set blocks. unat (bh_offset (fst b)) div 2048 < length kss \<and>
             (\<forall>e \<in> set (snd b). fst e \<in> set (kss ! (unat (bh_offset (fst b)) div 2048)))"
      "length (fst (fb_Finish P fb)) < 2 ^ 32" "storedAt sn (tdata ?r1 @ F) fh (fst (fb_Finish P fb))"
      using f(3) [OF P] n by auto
    have "storedAt sn (tdata ?r5) fh (fst (fb_Finish P fb))"
      using storedAt_append [OF k(4), of "M @ G @ ft_EncodeTo ?ft []"] by simp
    moreover have "storedAt sn (tdata ?r2 @ M) mh (rawBlock interval [(''filter.'' @ fp_Name P, bh_EncodeTo fh [])])"
      using m(2) [OF P] n by simp
    then have "storedAt sn (tdata ?r5) mh (rawBlock interval [(''filter.'' @ fp_Name P, bh_EncodeTo fh [])])"
      using storedAt_append [of sn "tdata ?r2 @ M" mh _ "G @ ft_EncodeTo ?ft []"] by simp
    ultimately show "\<exists>fb kss fh. filter_policy.filterKeys P same kss fb \<and>
          (\<forall>b \<in> set blocks. unat (bh_offset (fst b)) div 2048 < length kss \<and>
             (\<forall>e \<in> set (snd b). fst e \<in> set (kss ! (unat (bh_offset (fst b)) div 2048)))) \<and>
          length (fst (fb_Finish P fb)) < 2 ^ 32 \<and> storedAt sn (tdata ?r5) fh (fst (fb_Finish P fb)) \<and>
          storedAt sn (tdata ?r5) mh (rawBlock interval [(''filter.'' @ fp_Name P, bh_EncodeTo fh [])])"
      using k(1-3) by blast
  qed
  have "\<forall>b \<in> set blocks. snd b \<noteq> [] \<and> storedAt sn (tdata ?r5) (fst b) (rawBlock interval (snd b))"
    using T(4) storedAt_append [of sn "tdata r" _ _ "F @ M @ G @ ft_EncodeTo ?ft []"] unfolding d5 by blast
  moreover have "tdata ?r5 = (tdata r @ F @ M @ G) @ ft_EncodeTo ?ft []" by simp
  ultimately have "written blocks seps' ?ft (tdata ?r5)"
    using s(1,3) index filters unfolding written_def footer.simps by blast
  moreover have "tb_status ?r5 = sOK" "tb_FileSize ?r5 = of_nat (length (tdata ?r5))"
    using w5 by (simp_all add: writing_def tb_FileSize_def del: grown_simps)
  ultimately show ?thesis unfolding fin fst_conv snd_conv by blast
qed

subsection \<open>Blocks that are read\<close>

lemma blocks_before:
  assumes "ascending (entriesOf blocks)" "i < j" "j < length blocks" "a \<in> set (snd (blocks ! i))" "b \<in> set (snd (blocks ! j))"
  shows "cmp (fst a) (fst b) < 0"
proof -
  have "blocks = take j blocks @ drop j blocks" by simp
  then have "entriesOf blocks = entriesOf (take j blocks) @ entriesOf (drop j blocks)" by (metis concat_append map_append)
  moreover have "blocks ! i \<in> set (take j blocks)" using assms(2,3) by (auto simp: in_set_conv_nth)
  moreover have "blocks ! j \<in> set (drop j blocks)" using assms(3) by (metis Cons_nth_drop_Suc list.set_intros(1))
  ultimately show ?thesis using assms(1,4,5) by (auto simp: sorted_wrt_append)
qed

lemma block_ascending:
  assumes "ascending (entriesOf blocks)" "b \<in> set blocks" shows "ascending (snd b)"
proof -
  obtain xs ys where "blocks = xs @ b # ys" using assms(2) by (meson split_list)
  then show ?thesis using assms(1) by (simp add: sorted_wrt_append)
qed

lemma ascending_last:
  assumes "ascending ents" "e \<in> set ents" shows "cmp (fst e) (fst (last ents)) \<le> 0"
proof (cases ents rule: rev_cases)
  case (snoc xs x)
  then show ?thesis using assms refl by (auto simp: sorted_wrt_append intro: less_imp_le)
qed (use assms in simp)

lemma ascending_hd:
  assumes "ascending ents" "e \<in> set ents" shows "cmp (fst (hd ents)) (fst e) \<le> 0"
  using assms refl by (cases ents) (auto intro: less_imp_le)

text \<open>The separators are sorted, and the index block is small.\<close>

lemma separator_bounds:
  assumes asc: "ascending (entriesOf blocks)" and ne: "\<forall>b \<in> set blocks. snd b \<noteq> []" and l: "length seps = length blocks"
    and sep: "separated seps blocks []"
  shows "i < length blocks \<Longrightarrow> e \<in> set (snd (blocks ! i)) \<Longrightarrow> cmp (fst e) (seps ! i) \<le> 0"
    "i < j \<Longrightarrow> j < length blocks \<Longrightarrow> e \<in> set (snd (blocks ! j)) \<Longrightarrow> cmp (seps ! i) (fst e) < 0"
    "i < j \<Longrightarrow> j < length blocks \<Longrightarrow> cmp (seps ! i) (seps ! j) < 0"
proof -
  have s: "separates (snd (blocks ! i)) (seps ! i) (entriesOf (drop (Suc i) blocks))" if "i < length blocks" for i
    using sep that l by (simp add: separated_def)
  show up: "cmp (fst e) (seps ! i) \<le> 0" if "i < length blocks" "e \<in> set (snd (blocks ! i))" for i e
    using ascending_last [OF block_ascending [OF asc nth_mem [OF that(1)]] that(2)] s [OF that(1)]
    unfolding separates_def by (meson trans)
  show down: "cmp (seps ! i) (fst e) < 0" if "i < j" "j < length blocks" "e \<in> set (snd (blocks ! j))" for i j e
  proof -
    let ?rest = "entriesOf (drop (Suc i) blocks)"
    have "blocks ! j \<in> set (drop (Suc i) blocks)"
      using that(1,2) nth_mem [of "j - Suc i" "drop (Suc i) blocks"] by simp
    then have e: "e \<in> set ?rest" using that(3) by auto
    have "blocks = take (Suc i) blocks @ drop (Suc i) blocks" by simp
    then have "entriesOf blocks = entriesOf (take (Suc i) blocks) @ ?rest" by (metis concat_append map_append)
    then have "ascending ?rest" using asc by (simp add: sorted_wrt_append)
    then have "cmp (fst (hd ?rest)) (fst e) \<le> 0" using e by (rule ascending_hd)
    moreover have "cmp (seps ! i) (fst (hd ?rest)) < 0"
    proof -
      have "?rest \<noteq> []" using length_pos_if_in_set [OF e] by (simp only: length_greater_0_conv not_False_eq_True)
      moreover have "i < length blocks" using that(1,2) by simp
      ultimately show ?thesis using s [of i] unfolding separates_def by blast
    qed
    ultimately show ?thesis using less_trans by blast
  qed
  show "cmp (seps ! i) (seps ! j) < 0" if "i < j" "j < length blocks"
  proof -
    have "last (snd (blocks ! j)) \<in> set (snd (blocks ! j))" using ne that(2) by simp
    then show ?thesis using down [OF that] up [OF that(2)] less_trans by blast
  qed
qed

lemma rawBlock_iterator:
  assumes "sorted_wrt (\<lambda>a b. cmp_Compare D (fst a) (fst b) < 0) ents" "length (rawBlock N ents) < 2 ^ 32"
  shows "\<exists>it. bk_NewIterator (Block (rawBlock N ents)) = Inr it \<and> blockAt D it ents None"
proof -
  obtain sh rs where b: "building ents sh rs (builtBlock N ents)" using building_all [of ents N] by (auto simp: builtBlock_def)
  note f = Finish_block [OF b assms(2) [unfolded rawBlock_def]]
  show ?thesis using f(1) newBlockIter_at [OF f(2) assms(1)] by (auto simp: rawBlock_def)
qed

definition holdsTable :: "(blockhandle \<times> (bytes \<times> bytes) list) list \<Rightarrow> bytes list \<Rightarrow> footer \<Rightarrow> bytes \<Rightarrow> (bytes \<times> bytes) list \<Rightarrow> bool" where
  "holdsTable blocks seps ft dat es \<longleftrightarrow> written blocks seps ft dat \<and> es = entriesOf blocks \<and> ascending es \<and>
     entriesWeight es < 2 ^ 31 \<and> length dat < 2 ^ 32"

text \<open>The entries of the block with a handle.\<close>

definition contentOf :: "(blockhandle \<times> (bytes \<times> bytes) list) list \<Rightarrow> bytes \<Rightarrow> (bytes \<times> bytes) list" where
  "contentOf blocks h = (case List.find (\<lambda>b. bh_EncodeTo (fst b) [] = h) blocks of None \<Rightarrow> [] | Some b \<Rightarrow> snd b)"

lemma weight_block:
  assumes "b \<in> set blocks" shows "entriesWeight (snd b) \<le> entriesWeight (entriesOf blocks)"
proof -
  obtain xs ys where "blocks = xs @ b # ys" using assms by (meson split_list)
  then show ?thesis by (simp add: entriesWeight_append)
qed

lemma data_small: "holdsTable blocks seps ft dat es \<Longrightarrow> b \<in> set blocks \<Longrightarrow> length (rawBlock interval (snd b)) < 2 ^ 32"
  using rawBlock_weight [of interval "snd b"] weight_block [of b blocks] by (auto simp: holdsTable_def)

lemma index_small:
  assumes H: "holdsTable blocks seps ft dat es" shows "length (rawBlock 1 (handleIndex seps blocks)) < 2 ^ 32"
proof -
  have W: "\<forall>b \<in> set blocks. snd b \<noteq> []" "length seps = length blocks" "separated seps blocks []" "entriesWeight (entriesOf blocks) < 2 ^ 31"
    using H by (auto simp: holdsTable_def written_def)
  have one: "length (seps ! i) + 60 \<le> entriesWeight (snd (blocks ! i))" if "i < length blocks" for i
  proof -
    have "length (seps ! i) \<le> length (fst (last (snd (blocks ! i))))" using W(2,3) that by (simp add: separated_def separates_def)
    moreover have "length (fst (last (snd (blocks ! i)))) + 60 \<le> entriesWeight (snd (blocks ! i))"
      using W(1) that by (cases "snd (blocks ! i)" rule: rev_cases) (auto simp: entriesWeight_def)
    ultimately show ?thesis by simp
  qed
  have "(\<Sum>e\<leftarrow>handleIndex seps blocks. length (fst e) + length (snd e) + 19) \<le> (\<Sum>b\<leftarrow>blocks. entriesWeight (snd b))"
    using one W(2)
  proof (induction blocks arbitrary: seps)
    case (Cons b blocks)
    obtain s ss where ss: "seps = s # ss" using Cons.prems(2) by (cases seps) auto
    have "(\<Sum>e\<leftarrow>handleIndex ss blocks. length (fst e) + length (snd e) + 19) \<le> (\<Sum>b\<leftarrow>blocks. entriesWeight (snd b))"
      by (rule Cons.IH) (use Cons.prems(1) [of "Suc i" for i] Cons.prems(2) ss in auto)
    moreover have "length s + length (bh_EncodeTo (fst b) []) + 19 \<le> entriesWeight (snd b)"
      using Cons.prems(1) [of 0] bh_length(1) [of "fst b"] ss by simp
    ultimately show ?case using ss by (simp add: handleIndex_def)
  qed (simp add: handleIndex_def)
  also have "(\<Sum>b\<leftarrow>blocks. entriesWeight (snd b)) = entriesWeight (entriesOf blocks)"
    by (induction blocks) (simp_all add: entriesWeight_append, simp add: entriesWeight_def)
  finally show ?thesis using rawBlock_length [of 1 "handleIndex seps blocks"] W(4) by simp
qed

lemma handles_distinct:
  assumes H: "holdsTable blocks seps ft dat es" and R: "readable file dat" and ij: "i < j" "j < length blocks"
  shows "fst (blocks ! i) \<noteq> fst (blocks ! j)"
proof
  assume same: "fst (blocks ! i) = fst (blocks ! j)"
  have i: "i < length blocks" using ij by simp
  note mem = nth_mem [OF i] nth_mem [OF ij(2)]
  have W: "\<forall>b \<in> set blocks. snd b \<noteq> [] \<and> storedAt sn dat (fst b) (rawBlock interval (snd b))" "ascending (entriesOf blocks)"
    using H by (auto simp: holdsTable_def written_def)
  have "ReadBlock sn file True (fst (blocks ! i)) = Inr (rawBlock interval (snd (blocks ! i)))"
    "ReadBlock sn file True (fst (blocks ! j)) = Inr (rawBlock interval (snd (blocks ! j)))"
    using W(1) mem ReadBlock_storedAt [OF R] by blast+
  then have raw: "rawBlock interval (snd (blocks ! i)) = rawBlock interval (snd (blocks ! j))" using same by simp
  obtain it where it: "bk_NewIterator (Block (rawBlock interval (snd (blocks ! i)))) = Inr it" "blockAt (to_comparator options) it (snd (blocks ! i)) None"
    using rawBlock_iterator [OF block_ascending [OF W(2) mem(1)] data_small [OF H mem(1)]] by blast
  obtain it' where it': "bk_NewIterator (Block (rawBlock interval (snd (blocks ! j)))) = Inr it'" "blockAt (to_comparator options) it' (snd (blocks ! j)) None"
    using rawBlock_iterator [OF block_ascending [OF W(2) mem(2)] data_small [OF H mem(2)]] by blast
  have "it' = it" using it(1) it'(1) raw by simp
  have ne: "atPos 0 (snd (blocks ! i)) = Some 0" "atPos 0 (snd (blocks ! j)) = Some 0" using W(1) mem by (auto simp: atPos_def)
  note io = block_iterates [OF ordering_axioms, of 0]
  obtain a where a: "i_SeekToFirst (BlockIter (to_comparator options)) it = Some a" "blockAt (to_comparator options) a (snd (blocks ! i)) (Some 0)"
    using iterates.seek_first [OF io it(2)] unfolding ne by blast
  obtain b where b: "i_SeekToFirst (BlockIter (to_comparator options)) it = Some b" "blockAt (to_comparator options) b (snd (blocks ! j)) (Some 0)"
    using iterates.seek_first [OF io it'(2)] unfolding ne \<open>it' = it\<close> by blast
  have "fst (snd (blocks ! i) ! 0) = fst (snd (blocks ! j) ! 0)"
    using iterates.at_key [OF io a(2)] iterates.at_key [OF io b(2)] a(1) b(1) by simp
  moreover have "cmp (fst (snd (blocks ! i) ! 0)) (fst (snd (blocks ! j) ! 0)) < 0"
    by (rule blocks_before [OF W(2) ij]) (use W(1) mem in auto)
  ultimately show False using refl by simp
qed

lemma handle_inject: "bh_EncodeTo h [] = bh_EncodeTo h' [] \<longleftrightarrow> h = h'"
  using bh_Decode_all [of h] bh_Decode_all [of h'] by (metis Inr_inject fst_conv)

lemma contentOf_nth:
  assumes H: "holdsTable blocks seps ft dat es" and R: "readable file dat" and i: "i < length blocks"
  shows "contentOf blocks (bh_EncodeTo (fst (blocks ! i)) []) = snd (blocks ! i)"
proof -
  have "List.find (\<lambda>b. bh_EncodeTo (fst b) [] = bh_EncodeTo (fst (blocks ! i)) []) blocks = Some (blocks ! i)"
    unfolding find_Some_iff handle_inject using handles_distinct [OF H R _ i] i by auto
  then show ?thesis by (simp add: contentOf_def)
qed

lemma handleIndex_nth:
  "length seps = length blocks \<Longrightarrow> i < length blocks \<Longrightarrow> handleIndex seps blocks ! i = (seps ! i, bh_EncodeTo (fst (blocks ! i)) [])"
  "length seps = length blocks \<Longrightarrow> length (handleIndex seps blocks) = length blocks"
  by (simp_all add: handleIndex_def)

lemma table_layered:
  assumes H: "holdsTable blocks seps ft dat es" and R: "readable file dat"
  shows "layered cmp (contentOf blocks) (handleIndex seps blocks) es" "ascending (handleIndex seps blocks)"
proof -
  have W: "length seps = length blocks" "separated seps blocks []" "\<forall>b \<in> set blocks. snd b \<noteq> []" "ascending (entriesOf blocks)" "es = entriesOf blocks"
    using H by (auto simp: holdsTable_def written_def)
  note sb = separator_bounds [OF W(4,3,1,2)]
  note idx = handleIndex_nth [OF W(1)]
  have "map (\<lambda>x. contentOf blocks (snd x)) (handleIndex seps blocks) = map snd blocks"
    by (rule nth_equalityI) (use contentOf_nth [OF H R] idx in auto)
  moreover have blk: "blockOf (contentOf blocks) (handleIndex seps blocks) j = snd (blocks ! j)" if "j < length blocks" for j
    using contentOf_nth [OF H R that] idx(1) [OF that] by (simp add: blockOf_def)
  ultimately show "layered cmp (contentOf blocks) (handleIndex seps blocks) es"
    unfolding layered_def using sb(1,2) idx W(5) by simp
  show "ascending (handleIndex seps blocks)" using sb(3) idx by (simp add: sorted_wrt_iff_nth_less)
qed

subsection \<open>Opening the table\<close>

text \<open>The filter that was read matches what the policy matches at the handle of a block.\<close>

definition filterReads :: "(blockhandle \<times> (bytes \<times> bytes) list) list \<Rightarrow> table \<Rightarrow> bool" where
  "filterReads blocks t \<longleftrightarrow> (\<forall>b \<in> set blocks. \<forall>e \<in> set (snd b). \<forall>k. same k (fst e) \<longrightarrow> mayMatch t (bh_EncodeTo (fst b) []) k)"

lemma ReadMeta_filter:
  assumes H: "holdsTable blocks seps ft dat es" and R: "readable file dat"
    and t: "t_options t = options" "t_file t = file" "t_filter t = None"
  shows "\<exists>f. t_ReadMeta sn ft t = Some (t\<lparr>t_filter := f\<rparr>) \<and> filterReads blocks (t\<lparr>t_filter := f\<rparr>)"
proof (cases "to_filter_policy options")
  case None
  have "t\<lparr>t_filter := None\<rparr> = t" using t(3) by simp
  then show ?thesis using None t by (intro exI [of _ None]) (simp add: t_ReadMeta_def filterReads_def mayMatch_def)
next
  case (Some P)
  obtain fb kss fh where f: "filter_policy.filterKeys P same kss fb"
    "\<forall>b \<in> set blocks. unat (bh_offset (fst b)) div 2048 < length kss \<and>
             (\<forall>e \<in> set (snd b). fst e \<in> set (kss ! (unat (bh_offset (fst b)) div 2048)))"
    "length (fst (fb_Finish P fb)) < 2 ^ 32" "storedAt sn dat fh (fst (fb_Finish P fb))"
    "storedAt sn dat (ft_metaindex_handle ft) (rawBlock interval [(''filter.'' @ fp_Name P, bh_EncodeTo fh [])])"
    using H Some unfolding holdsTable_def written_def filterStored_def by blast
  let ?key = "''filter.'' @ fp_Name P" and ?ops = "blockOps BytewiseComparator"
  let ?ents = "[(?key, bh_EncodeTo fh [])]"
  let ?t = "t\<lparr>t_filter := Some (FilterBlockReader (fst (fb_Finish P fb)))\<rparr>"
  have small: "length (rawBlock interval ?ents) < 2 ^ 32"
    using rawBlock_length [of interval ?ents] policy_name [OF Some] bh_length(1) [of fh] by simp
  obtain it where it: "bk_NewIterator (Block (rawBlock interval ?ents)) = Inr it" "blockAt BytewiseComparator it ?ents None"
    using rawBlock_iterator [of BytewiseComparator ?ents, OF _ small] by auto
  have io: "iterates ?ops (cmp_Compare BytewiseComparator) (2 ^ 32) (sumAt emptyAt (blockAt BytewiseComparator))"
    by (rule sum_iterates [OF empty_iterates block_iterates [OF bytewise.ordering_axioms]])
  have at: "sumAt emptyAt (blockAt BytewiseComparator) (Inr it) ?ents None" using it(2) by simp
  have "countBefore (cmp_Compare BytewiseComparator) ?key ?ents = 0"
    using bytewise.refl [of ?key] by (simp add: countBefore_def del: append_Cons)
  then have pos: "atPos (countBefore (cmp_Compare BytewiseComparator) ?key ?ents) ?ents = Some 0" by (simp add: atPos_def)
  have len: "length ?key < 2 ^ 32" using policy_name [OF Some] by simp
  obtain s where s: "i_Seek ?ops ?key (Inr it) = Some s" "sumAt emptyAt (blockAt BytewiseComparator) s ?ents (Some 0)"
    using iterates.seek [OF io, OF at len] unfolding pos by blast
  have read: "i_Valid ?ops s" "i_key ?ops s = ?key" "i_value ?ops s = bh_EncodeTo fh []"
    using iterates.at_valid [OF io, OF s(2)] iterates.at_key [OF io, OF s(2)] iterates.at_value [OF io, OF s(2)] by simp_all
  have meta: "ReadBlock sn file v (ft_metaindex_handle ft) = Inr (rawBlock interval ?ents)" for v by (rule ReadBlock_storedAt [OF R f(5)])
  have filt: "ReadBlock sn file v fh = Inr (fst (fb_Finish P fb))" for v by (rule ReadBlock_storedAt [OF R f(4)])
  have "t_ReadMeta sn ft t =
      map_option (\<lambda>iter. if i_Valid ?ops iter \<and> i_key ?ops iter = ?key then t_ReadFilter sn (i_value ?ops iter) t else t) (Some s)"
    unfolding t_ReadMeta_def t(1,2) Some option.case Let_def meta sum.case it(1) s(1) by (rule HOL.refl)
  also have "\<dots> = Some (t_ReadFilter sn (bh_EncodeTo fh []) t)" unfolding option.map using read by simp
  also have "t_ReadFilter sn (bh_EncodeTo fh []) t = ?t" using filt t(2) by (simp add: t_ReadFilter_def bh_Decode_all)
  finally have "t_ReadMeta sn ft t = Some ?t" .
  moreover have "filterReads blocks ?t"
    unfolding filterReads_def
  proof (intro ballI allI impI)
    fix b e k assume b: "b \<in> set blocks" "e \<in> set (snd b)" "same k (fst e)"
    have "fr_KeyMayMatch P (FilterBlockReader (fst (fb_Finish P fb))) (bh_offset (fst b)) k"
      by (rule filter_policy.fb_Finish_matches [OF policy [OF Some] f(1), where key = "fst e"]) (use f(2,3) b in auto)
    then show "mayMatch ?t (bh_EncodeTo (fst b) []) k" using Some t(1) by (simp add: mayMatch_def bh_Decode_all)
  qed
  ultimately show ?thesis by blast
qed

lemma Open_table:
  assumes H: "holdsTable blocks seps ft dat es" and R: "readable file dat"
  shows "\<exists>t. t_Open sn options file (of_nat (length dat)) = Some (Inr t) \<and> t_options t = options \<and> t_file t = file \<and>
    t_index_block t = Block (rawBlock 1 (handleIndex seps blocks)) \<and> filterReads blocks t"
proof -
  obtain X where X: "dat = X @ ft_EncodeTo ft []" and ix: "storedAt sn dat (ft_index_handle ft) (rawBlock 1 (handleIndex seps blocks))"
    and n: "length dat < 2 ^ 32" using H by (auto simp: holdsTable_def written_def)
  have l: "length dat = length X + 48" by (simp add: X ft_length)
  have un: "unat (of_nat (length dat) :: 64 word) = length dat" using n by (rule unat_of_nat_small)
  then have ge: "\<not> (of_nat (length dat) :: 64 word) < of_nat 48" using l by (simp add: word_less_nat_alt)
  have off: "unat (of_nat (length dat) - of_nat 48 :: 64 word) = length X"
  proof -
    have "(of_nat (length dat) - of_nat 48 :: 64 word) = of_nat (length X)" using l by simp
    then show ?thesis using unat_of_nat_small [of "length X"] n l by simp
  qed
  have foot: "file (of_nat (length dat) - of_nat 48) 48 = (sOK, ft_EncodeTo ft [])"
    using R off l unfolding readable_def by (simp add: X ft_length)
  let ?t = "\<lparr>t_options = options, t_file = file, t_filter = None, t_metaindex_handle = ft_metaindex_handle ft,
      t_index_block = Block (rawBlock 1 (handleIndex seps blocks))\<rparr>"
  obtain f where f: "t_ReadMeta sn ft ?t = Some (?t\<lparr>t_filter := f\<rparr>)" "filterReads blocks (?t\<lparr>t_filter := f\<rparr>)"
    using ReadMeta_filter [OF H R, of ?t] by auto
  have "ReadBlock sn file v (ft_index_handle ft) = Inr (rawBlock 1 (handleIndex seps blocks))" for v by (rule ReadBlock_storedAt [OF R ix])
  then have "t_Open sn options file (of_nat (length dat)) = Some (Inr (?t\<lparr>t_filter := f\<rparr>))"
    using ge f(1) unfolding t_Open_def Let_def foot prod.case ft_Decode by simp
  then show ?thesis using f(2) by (intro exI [of _ "?t\<lparr>t_filter := f\<rparr>"]) simp
qed

end

end
