(* ===== verification/LdbTableGet.thy ===== *)
theory LdbTableGet
  imports LdbTableRead
begin

text \<open>
  What is read from a table file that was built: the iterator of the table walks its entries,
  and \<open>InternalGet\<close> finds the entry at or behind a key.
\<close>

text \<open>A block cache that has nothing else for an offset than what a read of the file gives.\<close>

definition cacheAgrees :: "snappy \<Rightarrow> rfile \<Rightarrow> (64 word \<Rightarrow> block option) \<Rightarrow> bool" where
  "cacheAgrees sn file cached \<longleftrightarrow>
     (\<forall>h block verify c. cached (bh_offset h) = Some block \<longrightarrow> ReadBlock sn file verify h = Inr c \<longrightarrow> block = Block c)"

text \<open>How much the filter block takes in the file.\<close>

definition filterBytes :: "tablebuilder \<Rightarrow> nat" where
  "filterBytes r = (case tb_filter_block r of None \<Rightarrow> 0 | Some (P, fb) \<Rightarrow> length (fst (fb_Finish P fb)) + 5)"

context table_builder
begin

abbreviation blkAt :: "ldbstatus + blockiter \<Rightarrow> (bytes \<times> bytes) list \<Rightarrow> nat option \<Rightarrow> bool" where
  "blkAt \<equiv> sumAt emptyAt (blockAt (to_comparator options))"

lemma blk_iterates: "iterates (blockOps (to_comparator options)) cmp (2 ^ 32) blkAt"
  by (rule sum_iterates [OF empty_iterates block_iterates [OF ordering_axioms]])

text \<open>The table that \<open>Open\<close> makes.\<close>

definition opened :: "(blockhandle \<times> (bytes \<times> bytes) list) list \<Rightarrow> bytes list \<Rightarrow> rfile \<Rightarrow> table \<Rightarrow> bool" where
  "opened blocks seps file t \<longleftrightarrow> t_options t = options \<and> t_file t = file \<and>
     t_index_block t = Block (rawBlock 1 (handleIndex seps blocks)) \<and> filterReads blocks t"

lemma BlockReader_at:
  assumes H: "holdsTable blocks seps ft dat es" and R: "readable file dat" and O: "opened blocks seps file t"
    and A: "cacheAgrees sn file cached" and b: "b \<in> set blocks"
  shows "blkAt (BlockReader sn cached verify t (bh_EncodeTo (fst b) [])) (snd b) None"
proof -
  have "storedAt sn dat (fst b) (rawBlock interval (snd b))" using H b by (simp add: holdsTable_def written_def)
  then have read: "ReadBlock sn file v (fst b) = Inr (rawBlock interval (snd b))" for v by (rule ReadBlock_storedAt [OF R])
  have "ascending (entriesOf blocks)" using H by (auto simp: holdsTable_def)
  then have asc: "ascending (snd b)" using b by (rule block_ascending)
  obtain it where it: "bk_NewIterator (Block (rawBlock interval (snd b))) = Inr it" "blockAt (to_comparator options) it (snd b) None"
    using rawBlock_iterator [OF asc data_small [OF H b]] by blast
  have "cached (bh_offset (fst b)) = None \<or> cached (bh_offset (fst b)) = Some (Block (rawBlock interval (snd b)))"
    using A read unfolding cacheAgrees_def by (metis option.exhaust)
  then have "BlockReader sn cached verify t (bh_EncodeTo (fst b) []) = Inr it"
    using O read it(1) by (auto simp: BlockReader_def bh_Decode_all opened_def)
  then show ?thesis using it(2) by simp
qed

lemma index_iterator:
  assumes H: "holdsTable blocks seps ft dat es" and R: "readable file dat" and O: "opened blocks seps file t"
  shows "blkAt (bk_NewIterator (t_index_block t)) (handleIndex seps blocks) None"
  using rawBlock_iterator [OF table_layered(2) [OF H R] index_small [OF H]] O by (auto simp: opened_def)

text \<open>The iterator of the table walks the entries.\<close>

lemma table_iterator:
  assumes H: "holdsTable blocks seps ft dat es" and R: "readable file dat" and O: "opened blocks seps file t"
    and A: "cacheAgrees sn file cached"
  shows "\<exists>w. iterates (TableIterator sn cached verify t) cmp (2 ^ 32) w \<and> w (t_NewIterator t) es None"
proof -
  let ?ops = "blockOps (to_comparator options)" and ?br = "BlockReader sn cached verify t"
  let ?w = "two_level.tl_at cmp (wrapped ?ops blkAt) (wrapped ?ops blkAt) (\<lambda>h. wr_Set ?ops (?br h)) (contentOf blocks)"
  have o: "t_options t = options" using O by (simp add: opened_def)
  have W: "length seps = length blocks" using H by (simp add: holdsTable_def written_def)
  note l = table_layered [OF H R]
  have "\<exists>q. blkAt (?br (snd x)) (contentOf blocks (snd x)) q" if "x \<in> set (handleIndex seps blocks)" for x
  proof -
    obtain i where i: "i < length blocks" "x = handleIndex seps blocks ! i"
      using \<open>x \<in> set (handleIndex seps blocks)\<close> handleIndex_nth(2) [OF W] by (auto simp: in_set_conv_nth)
    then have "snd x = bh_EncodeTo (fst (blocks ! i)) []" using handleIndex_nth(1) [OF W] by simp
    then show ?thesis
      using BlockReader_at [OF H R O A nth_mem [OF i(1)]] contentOf_nth [OF H R i(1)] by (intro exI [of _ None]) simp
  qed
  then have "?w (t_NewIterator t) es None"
    unfolding t_NewIterator_def o
    by (rule NewTwoLevelIterator_at [OF blk_iterates blk_iterates ordering_axioms l(1) index_iterator [OF H R O]])
  moreover have "iterates (TableIterator sn cached verify t) cmp (2 ^ 32) ?w"
    unfolding TableIterator_def Let_def o by (rule TwoLevel_iterates [OF blk_iterates blk_iterates ordering_axioms])
  ultimately show ?thesis by blast
qed

subsection \<open>The entry at or behind a key\<close>

text \<open>Behind the entries of the block, the next one is not for the key.\<close>

lemma no_match_behind:
  assumes H: "holdsTable blocks seps ft dat es" and c: "c < length blocks" and k: "\<not> cmp (seps ! c) k < 0"
    and all: "cmp (fst (last (snd (blocks ! c)))) k < 0"
    and g: "g = length (entriesOf (take (Suc c) blocks))" "g < length es"
  shows "\<not> same k (fst (es ! g))"
proof -
  let ?rest = "entriesOf (drop (Suc c) blocks)"
  have W: "length seps = length blocks" "separated seps blocks []" "es = entriesOf blocks"
    using H by (simp_all add: holdsTable_def written_def)
  have es: "es = entriesOf (take (Suc c) blocks) @ ?rest" unfolding W(3) by (metis append_take_drop_id concat_append map_append)
  have ne: "?rest \<noteq> []"
  proof
    assume "?rest = []"
    then have "length es = g" using arg_cong [OF es, of length] unfolding g(1) by (simp only: length_append list.size(3) add_0_right)
    then show False using g(2) by simp
  qed
  have "es ! g = ?rest ! 0" using arg_cong [OF es, of "\<lambda>xs. xs ! g"] unfolding g(1) by (simp only: nth_append less_irrefl if_False diff_self_eq_0)
  then have hd: "es ! g = hd ?rest" using hd_conv_nth [OF ne] by simp
  have "separates (snd (blocks ! c)) (seps ! c) ?rest" using W(1,2) c by (simp add: separated_def)
  moreover have "cmp k (seps ! c) \<le> 0" using k anti [of "seps ! c" k] by linarith
  ultimately show ?thesis using ne all unfolding separates_def hd by blast
qed

lemma Get_found:
  assumes H: "holdsTable blocks seps ft dat es" and R: "readable file dat" and O: "opened blocks seps file t"
    and A: "cacheAgrees sn file cached" and k: "length k < 2 ^ 32"
  shows "\<exists>saved. InternalGet sn cached verify k t = Some (sOK, saved) \<and>
    (saved = None \<or> countBefore cmp k es < length es \<and> saved = Some (es ! countBefore cmp k es)) \<and>
    (countBefore cmp k es < length es \<and> same k (fst (es ! countBefore cmp k es)) \<longrightarrow> saved \<noteq> None)"
proof -
  let ?ops = "blockOps (to_comparator options)" and ?ixs = "handleIndex seps blocks" and ?g = "countBefore cmp k es"
  let ?c = "countBefore cmp k ?ixs"
  have o: "t_options t = options" and fr: "filterReads blocks t" using O by (simp_all add: opened_def)
  have W: "length seps = length blocks" "es = entriesOf blocks" "ascending (entriesOf blocks)" "\<forall>b \<in> set blocks. snd b \<noteq> []"
    using H by (auto simp: holdsTable_def written_def)
  note l = table_layered [OF H R] and idx = handleIndex_nth [OF W(1)] and iv = iterates.at_valid [OF blk_iterates] and st = iterates.at_status [OF blk_iterates]
  obtain s where s: "i_Seek ?ops k (bk_NewIterator (t_index_block t)) = Some s" "blkAt s ?ixs (atPos ?c ?ixs)"
    using iterates.seek [OF blk_iterates, OF index_iterator [OF H R O] k] by blast
  note cb = countBefore_layered [OF ordering_axioms l(1) HOL.refl, of k]
  have get: "InternalGet sn cached verify k t =
      map_option (\<lambda>(st, saved). (if st = sOK then i_status ?ops s else st, saved))
           (if i_Valid ?ops s \<and> mayMatch t (i_value ?ops s) k then
              map_option (\<lambda>it. (i_status ?ops it, if i_Valid ?ops it then Some (i_key ?ops it, i_value ?ops it) else None))
                (i_Seek ?ops k (BlockReader sn cached verify t (i_value ?ops s)))
            else Some (sOK, None))"
    by (simp add: InternalGet_def Let_def o s(1))
  show ?thesis
  proof (cases "?c < length ?ixs")
    case False
    then have "\<not> i_Valid ?ops s" "?g = length es" using iv [OF s(2)] cb countBefore_le [of cmp k ?ixs] startOf_end [OF l(1)] by simp_all
    then show ?thesis unfolding get using st [OF s(2)] by simp
  next
    case True
    then have c: "?c < length blocks" by (simp add: idx)
    let ?b = "blocks ! ?c"
    let ?d = "countBefore cmp k (snd ?b)"
    have pos: "blkAt s ?ixs (Some ?c)" using s(2) True by (simp add: atPos_def)
    have v: "i_Valid ?ops s" "i_value ?ops s = bh_EncodeTo (fst ?b) []"
      using iv [OF pos] iterates.at_value [OF blk_iterates, OF pos] idx(1) [OF c] by simp_all
    have blk: "blockOf (contentOf blocks) ?ixs ?c = snd ?b"
      using contentOf_nth [OF H R c] idx(1) [OF c] by (simp add: blockOf_def)
    have g: "?g = startOf (contentOf blocks) ?ixs ?c + ?d" using cb True blk by simp
    have inside: "?g < length es \<and> es ! ?g = snd ?b ! ?d" if "?d < length (snd ?b)"
      using layered_nth [OF l(1) True, of ?d] that unfolding blk g by simp
    have behind: "\<not> same k (fst (es ! ?g))" if "\<not> ?d < length (snd ?b)" "?g < length es"
    proof (rule no_match_behind [OF H c _ _ _ that(2)])
      have d: "?d = length (snd ?b)" using that(1) countBefore_le [of cmp k "snd ?b"] by simp
      have ne: "snd ?b \<noteq> []" using W(4) c by simp
      show "\<not> cmp (seps ! ?c) k < 0" using countBefore_end [OF True] idx(1) [OF c] by simp
      show "cmp (fst (last (snd ?b))) k < 0"
        using countBefore_nth [of "length (snd ?b) - 1" cmp k "snd ?b"] ne unfolding d by (simp add: last_conv_nth)
      have "map (\<lambda>x. contentOf blocks (snd x)) (take (Suc ?c) ?ixs) = map snd (take (Suc ?c) blocks)"
        by (rule nth_equalityI) (use contentOf_nth [OF H R] idx in auto)
      then have "startOf (contentOf blocks) ?ixs (Suc ?c) = length (entriesOf (take (Suc ?c) blocks))"
        by (simp only: startOf_def)
      then show "?g = length (entriesOf (take (Suc ?c) blocks))"
        unfolding g using startOf_simps(2) [OF True, of "contentOf blocks"] unfolding blk d by simp
    qed
    show ?thesis
    proof (cases "mayMatch t (bh_EncodeTo (fst ?b) []) k")
      case False
      have "\<not> (?g < length es \<and> same k (fst (es ! ?g)))"
      proof (cases "?d < length (snd ?b)")
        case True
        then have "es ! ?g \<in> set (snd ?b)" using inside by simp
        then show ?thesis using fr False nth_mem [OF c] unfolding filterReads_def by blast
      qed (use behind in blast)
      then show ?thesis unfolding get v using False st [OF s(2)] by simp
    next
      case True
      obtain it where it: "i_Seek ?ops k (BlockReader sn cached verify t (bh_EncodeTo (fst ?b) [])) = Some it" "blkAt it (snd ?b) (atPos ?d (snd ?b))"
        using iterates.seek [OF blk_iterates, OF BlockReader_at [OF H R O A nth_mem [OF c]] k] by blast
      have gt: "InternalGet sn cached verify k t = Some (sOK, if i_Valid ?ops it then Some (i_key ?ops it, i_value ?ops it) else None)"
        unfolding get using v True it(1) st [OF it(2)] st [OF s(2)] by simp
      show ?thesis
      proof (cases "?d < length (snd ?b)")
        case True
        then have p: "blkAt it (snd ?b) (Some ?d)" using it(2) by (simp add: atPos_def)
        have "i_Valid ?ops it" "(i_key ?ops it, i_value ?ops it) = snd ?b ! ?d"
          using iv [OF p] iterates.at_key [OF blk_iterates, OF p] iterates.at_value [OF blk_iterates, OF p] by simp_all
        then show ?thesis unfolding gt using inside [OF True] by simp
      next
        case False
        then have "\<not> i_Valid ?ops it" using iv [OF it(2)] by simp
        then show ?thesis unfolding gt using behind [OF False] by auto
      qed
    qed
  qed
qed

subsection \<open>The whole table\<close>

text \<open>What each part of \<open>Finish\<close> appends, and how much.\<close>

lemma WriteBlock_appends:
  assumes "writing r"
  shows "\<exists>G. snd (snd (tb_WriteBlock sn b r)) = grown G r \<and> length G \<le> CurrentSizeEstimate b + 5"
proof -
  obtain c ty where p: "packed sn (to_compression (tb_options r)) (fst (bb_Finish b)) = (c, ty)"
    by (cases "packed sn (to_compression (tb_options r)) (fst (bb_Finish b))")
  have "length c \<le> length (fst (bb_Finish b))"
    using p by (auto simp: packed_def split: compression.splits option.splits if_splits)
  then show ?thesis
    unfolding WriteBlock_writing [OF assms p] Finish_length snd_conv
    by (intro exI [of _ "c @ trailerOf c ty"] conjI HOL.refl) (simp add: trailer_length)
qed

lemma finishFilter_appends:
  assumes "writing r"
  shows "\<exists>G fb. snd (finishFilter r) = grown G (r\<lparr>tb_filter_block := fb\<rparr>) \<and> length G \<le> filterBytes r"
proof (cases "tb_filter_block r")
  case None
  then show ?thesis by (intro exI [of _ "[]"] exI [of _ None]) (cases r, simp add: finishFilter_def grown_def tdata_def)
next
  case (Some Pfb)
  obtain P fb where P: "Pfb = (P, fb)" by (cases Pfb)
  obtain c fb1 where c: "fb_Finish P fb = (c, fb1)" by (cases "fb_Finish P fb")
  have w: "writing (r\<lparr>tb_filter_block := Some (P, fb1)\<rparr>)" using assms by simp
  have "snd (finishFilter r) = grown (c @ trailerOf c kNoCompression) (r\<lparr>tb_filter_block := Some (P, fb1)\<rparr>)"
    using Some P c assms WriteRawBlock_writing [OF w, of c kNoCompression] by (simp add: finishFilter_def writing_def [of r])
  then show ?thesis using Some P c by (auto simp: filterBytes_def trailer_length)
qed

lemma finishMeta_appends:
  assumes "writing r" "tb_options r = options"
  shows "\<exists>G. snd (finishMeta sn fh r) = grown G r \<and> length G \<le> 2 ^ 16 + 60"
proof -
  let ?b = "case (tb_filter_block r, to_filter_policy (tb_options r)) of
      (Some fb, Some P) \<Rightarrow> bb_Add (to_block_restart_interval (tb_options r)) (''filter.'' @ fp_Name P) (bh_EncodeTo fh []) bb_Reset
    | _ \<Rightarrow> bb_Reset"
  have "CurrentSizeEstimate ?b \<le> 2 ^ 16 + 54"
  proof (cases "tb_filter_block r = None \<or> to_filter_policy options = None")
    case True
    then show ?thesis using assms(2) by (auto simp: bb_Reset_def CurrentSizeEstimate_def split: option.split)
  next
    case False
    then obtain fb P where "tb_filter_block r = Some fb" "to_filter_policy options = Some P" by auto
    then show ?thesis
      using Add_length [of interval "''filter.'' @ fp_Name P" "bh_EncodeTo fh []" bb_Reset] bh_length(1) [of fh] policy_name [of P] assms(2)
      by (simp add: bb_Reset_def CurrentSizeEstimate_def)
  qed
  moreover obtain G where "snd (snd (tb_WriteBlock sn ?b r)) = grown G r" "length G \<le> CurrentSizeEstimate ?b + 5"
    using WriteBlock_appends [OF assms(1)] by blast
  moreover have "snd (finishMeta sn fh r) = snd (snd (tb_WriteBlock sn ?b r))"
    using assms(1) by (simp add: finishMeta_def Let_def split_beta writing_def)
  ultimately show ?thesis by (intro exI [of _ G] conjI) (simp only:, linarith)
qed

lemma finishIndex_appends:
  assumes "writing r" "tb_options r = options"
  shows "\<exists>G r'. snd (finishIndex sn r) = grown G r' \<and> writing r' \<and> tdata r' = tdata r \<and>
    length G \<le> CurrentSizeEstimate (tb_index_block r) + length (tb_last_key r) + 44"
proof -
  let ?s = "cmp_FindShortSuccessor (to_comparator options) (tb_last_key r)"
  let ?r = "addIndexEntry ?s r"
  have w: "writing ?r" using assms(1) by simp
  obtain G where G: "snd (snd (tb_WriteBlock sn (tb_index_block ?r) ?r)) = grown G ?r" "length G \<le> CurrentSizeEstimate (tb_index_block ?r) + 5"
    using WriteBlock_appends [OF w] by blast
  have "CurrentSizeEstimate (tb_index_block ?r) \<le> CurrentSizeEstimate (tb_index_block r) + length (tb_last_key r) + 39"
    using Add_length [of 1 ?s "bh_EncodeTo (tb_pending_handle r) []" "tb_index_block r"] bh_length(1) [of "tb_pending_handle r"]
      successor_length [of "tb_last_key r"] by (simp add: addIndexEntry_def)
  moreover have "snd (finishIndex sn r) = grown G (?r\<lparr>tb_index_block := fst (snd (tb_WriteBlock sn (tb_index_block ?r) ?r))\<rparr>)"
    using assms G(1) by (simp add: finishIndex_def Let_def split_beta writing_def grown_def tdata_def)
  ultimately show ?thesis using G(2) w
    by (intro exI [of _ G] exI [of _ "?r\<lparr>tb_index_block := fst (snd (tb_WriteBlock sn (tb_index_block ?r) ?r))\<rparr>"]) simp
qed

lemma Finish_appends:
  assumes w: "writing (tb_Flush sn r)" and o: "tb_options (tb_Flush sn r) = options"
  shows "\<exists>G. tdata (snd (tb_Finish sn r)) = tdata (tb_Flush sn r) @ G \<and>
    length G \<le> 2 ^ 16 + 152 + filterBytes (tb_Flush sn r) + CurrentSizeEstimate (tb_index_block (tb_Flush sn r)) + length (tb_last_key (tb_Flush sn r))"
proof -
  let ?r1 = "(tb_Flush sn r)\<lparr>tb_closed := True\<rparr>"
  let ?r2 = "snd (finishFilter ?r1)" and ?fh = "fst (finishFilter ?r1)"
  let ?r3 = "snd (finishMeta sn ?fh ?r2)"
  have w1: "writing ?r1" using w by simp
  obtain F fb where F: "?r2 = grown F (?r1\<lparr>tb_filter_block := fb\<rparr>)" "length F \<le> filterBytes ?r1"
    using finishFilter_appends [OF w1] by blast
  have w2: "writing ?r2" "tb_options ?r2 = options" unfolding F(1) using w o writing_grown by simp_all
  obtain M where M: "?r3 = grown M ?r2" "length M \<le> 2 ^ 16 + 60" using finishMeta_appends [OF w2] by blast
  have w3: "writing ?r3" "tb_options ?r3 = options" unfolding M(1) using w2 writing_grown by simp_all
  obtain I r' where I: "snd (finishIndex sn ?r3) = grown I r'" "writing r'" "tdata r' = tdata ?r3"
    "length I \<le> CurrentSizeEstimate (tb_index_block ?r3) + length (tb_last_key ?r3) + 44" using finishIndex_appends [OF w3] by blast
  let ?ft = "ft_EncodeTo \<lparr>ft_metaindex_handle = fst (finishMeta sn ?fh ?r2), ft_index_handle = fst (finishIndex sn ?r3)\<rparr> []"
  have "snd (tb_Finish sn r) = finishFooter (fst (finishMeta sn ?fh ?r2)) (fst (finishIndex sn ?r3)) (snd (finishIndex sn ?r3))"
    by (simp add: tb_Finish_def Let_def split_beta)
  also have "\<dots> = grown ?ft (grown I r')" unfolding I(1) by (rule finishFooter_writing [OF writing_grown [OF I(2)]])
  finally have d: "tdata (snd (tb_Finish sn r)) = tdata (tb_Flush sn r) @ F @ M @ I @ ?ft" using I(3) M(1) F(1) by simp
  have "tb_index_block ?r3 = tb_index_block (tb_Flush sn r)" "tb_last_key ?r3 = tb_last_key (tb_Flush sn r)"
    "filterBytes ?r1 = filterBytes (tb_Flush sn r)" using M(1) F(1) by (simp_all add: filterBytes_def)
  then show ?thesis using d F(2) M(2) I(4) ft_length by (intro exI [of _ "F @ M @ I @ ?ft"] conjI) simp_all
qed

text \<open>Entries that are added in order are in the finished file.\<close>

lemma Finish_holds:
  assumes asc: "ascending es" and weight: "entriesWeight es < 2 ^ 31"
    and dat: "dat = tdata (snd (tb_Finish sn (newTable es)))" and small: "length dat < 2 ^ 32"
  shows "\<exists>blocks seps ft. fst (tb_Finish sn (newTable es)) = sOK \<and> holdsTable blocks seps ft dat es \<and>
    tb_FileSize (snd (tb_Finish sn (newTable es))) = of_nat (length dat)"
proof -
  let ?r = "newTable es"
  have n: "tb_options ?r = options" "writing ?r" using newTable_writing by blast+
  have fl: "length (tdata ?r) \<le> length (tdata (tb_Flush sn ?r))" "writing (tb_Flush sn ?r)" "tb_options (tb_Flush sn ?r) = options"
    using Flush_longer [OF n] by blast+
  obtain G where "dat = tdata (tb_Flush sn ?r) @ G" using Finish_appends [OF fl(2,3)] unfolding dat by blast
  then have l: "length (tdata ?r) < 2 ^ 32" "length (tdata (tb_Flush sn ?r)) < 2 ^ 32" using fl(1) small by simp_all
  obtain blocks seps cur where t: "tabled blocks seps cur ?r" "entriesOf blocks @ cur = es"
    using newTable_tabled [OF asc l(1)] by blast
  obtain blocks' where b: "tabled blocks' seps [] (tb_Flush sn ?r)" "entriesOf blocks' = es"
  proof (cases "cur = []")
    case True
    then show ?thesis using that [of blocks] t Flush_empty [of blocks seps ?r] by simp
  next
    case False
    then obtain h where "tabled (blocks @ [(h, cur)]) seps [] (tb_Flush sn ?r)" using Flush_tabled [OF t(1) _ l(2)] by blast
    then show ?thesis using that [of "blocks @ [(h, cur)]"] t(2) by simp
  qed
  have "tb_Finish sn (tb_Flush sn ?r) = tb_Finish sn ?r" unfolding tb_Finish_def Flush_empty [OF b(1)] by (rule HOL.refl)
  note F = Finish_written [OF b(1), unfolded this, folded dat, OF small]
  then show ?thesis using asc weight small b(2) unfolding holdsTable_def by blast
qed

text \<open>A table that was built, opened again.\<close>

lemma built_table:
  assumes asc: "ascending es" and weight: "entriesWeight es < 2 ^ 31"
    and r: "r = tb_Finish sn (newTable es)" and small: "length (wf_data (tb_file (snd r))) < 2 ^ 32"
    and R: "readable file (wf_data (tb_file (snd r)))" and A: "cacheAgrees sn file cached"
  shows "\<exists>t w. fst r = sOK \<and> t_Open sn options file (tb_FileSize (snd r)) = Some (Inr t) \<and>
    iterates (TableIterator sn cached verify t) cmp (2 ^ 32) w \<and> w (t_NewIterator t) es None \<and>
    (\<forall>k. length k < 2 ^ 32 \<longrightarrow> (\<exists>saved. InternalGet sn cached verify k t = Some (sOK, saved) \<and>
      (saved = None \<or> countBefore cmp k es < length es \<and> saved = Some (es ! countBefore cmp k es)) \<and>
      (countBefore cmp k es < length es \<and> same k (fst (es ! countBefore cmp k es)) \<longrightarrow> saved \<noteq> None)))"
proof -
  let ?dat = "wf_data (tb_file (snd r))"
  have d: "?dat = tdata (snd (tb_Finish sn (newTable es)))" by (simp add: r tdata_def)
  obtain blocks seps ft where h: "fst r = sOK" "holdsTable blocks seps ft ?dat es" "tb_FileSize (snd r) = of_nat (length ?dat)"
    using Finish_holds [OF asc weight d small] unfolding r by blast
  obtain t where t: "t_Open sn options file (of_nat (length ?dat)) = Some (Inr t)" "opened blocks seps file t"
    using Open_table [OF h(2) R] unfolding opened_def by blast
  obtain w where w: "iterates (TableIterator sn cached verify t) cmp (2 ^ 32) w" "w (t_NewIterator t) es None"
    using table_iterator [OF h(2) R t(2) A] by blast
  show ?thesis using h(1,3) t(1) w Get_found [OF h(2) R t(2) A] by auto
qed

end

subsection \<open>The tables of a database\<close>

text \<open>The options of a database give a builder, for any comparator and filters of the user that keep their laws.\<close>

lemma database_builder:
  assumes "compressor sn" "comparator_laws (to_comparator src)"
    and "\<And>P. to_filter_policy src = Some P \<Longrightarrow> filter_policy P (=) \<and> length (fp_Name P) < 2 ^ 16"
  shows "table_builder sn (SanitizeOptions src) sameUser"
proof (intro table_builder.intro table_builder_axioms.intro assms(1))
  show "table_comparator (to_comparator (SanitizeOptions src)) sameUser"
    using comparator_laws.internal_table [OF assms(2)] by (simp add: SanitizeOptions_def)
next
  fix P assume "to_filter_policy (SanitizeOptions src) = Some P"
  then obtain Q where Q: "to_filter_policy src = Some Q" "P = InternalFilterPolicy Q" by (auto simp: SanitizeOptions_def)
  show "filter_policy P sameUser" unfolding Q(2) by (rule internal_policy) (use assms(3) Q(1) in blast)
  show "length (fp_Name P) < 2 ^ 16" using assms(3) [OF Q(1)] by (simp add: Q(2) InternalFilterPolicy_def)
qed

interpretation default_tables: table_builder noSnappy "SanitizeOptions tableDefaults" sameUser
  by (rule database_builder) (simp_all add: tableDefaults_def no_snappy.compressor_axioms bytewise.comparator_laws_axioms)

interpretation bloom_tables: table_builder noSnappy "SanitizeOptions (tableDefaults\<lparr>to_filter_policy := Some (BloomFilterPolicy b)\<rparr>)" sameUser for b
  by (rule database_builder)
    (auto simp: tableDefaults_def no_snappy.compressor_axioms bytewise.comparator_laws_axioms bloom_policy, simp add: BloomFilterPolicy_def)

text \<open>The two levels of the iterator of such a table.\<close>

interpretation table_levels: two_level
  "IteratorWrapper (blockOps (InternalKeyComparator BytewiseComparator))" "cmp_Compare (InternalKeyComparator BytewiseComparator)" "2 ^ 32"
  "wrapped (blockOps (InternalKeyComparator BytewiseComparator)) (sumAt emptyAt (blockAt (InternalKeyComparator BytewiseComparator)))"
  "IteratorWrapper (blockOps (InternalKeyComparator BytewiseComparator))"
  "wrapped (blockOps (InternalKeyComparator BytewiseComparator)) (sumAt emptyAt (blockAt (InternalKeyComparator BytewiseComparator)))"
  bf content for bf content
  by (intro two_level.intro two_level_axioms.intro iterates.wrapped_iterates sum_iterates empty_iterates block_iterates
      comparator_laws.axioms(1) [OF bytewise.internal_laws])

end
