(* ===== verification/Spec2Isabelle.thy ===== *)
theory Spec2Isabelle
  imports QDocDemoClient LdbDbLaws LdbReads LdbTableGet
begin

text \<open>
  \<^bold>\<open>qdocdb: a verification development\<close>

  qdocdb is a small document database for Qt programs. Documents are JSON objects in named
  collections, found by queries in the style of MongoDB and kept in numbered versions, so
  that snapshots of a collection can be read later. The database is embedded or served over a
  local or TCP socket, and the values lie in a map in memory or in the vendored LevelDB.

  \<^bold>\<open>The parts and how they interact\<close> (paths under src/qdocdb)

  A QML item (qdocdbconnector.cpp) shares a client object (qdocdbclient.cpp), which sends a
  message over the socket (qdocdblinkbase.cpp) and waits for the reply in a nested event loop.
  The server (qdocdbserver.cpp) dispatches the message to a database (qdocdatabase.cpp), one
  of its collections, a snapshot or an open transaction (qdoccollection.cpp), and notifies the
  observers of changed queries. A collection keeps its documents, index entries and names of
  snapshots under keys of a key-value object (qdockvinterface.h, qdockvmap.cpp,
  qdockvleveldb.cpp); the formats of the values are those of qdocutils.cpp. Below it LevelDB
  (leveldb/leveldb) writes batches to a log and a memtable; iterators merge its memtables
  with its tables, files of sorted blocks with an index and filters.

  \<^bold>\<open>Theories\<close>

  \<^item> QDocPrelude: bytes, finite maps as sorted association lists, the lemma collections.
    QtJson: the values of Qt (QJsonValue, QMap, QHash) and the record \<open>qt\<close> of the services
    of Qt that are not under src/ (binary JSON, data streams, the order of a QHash), with what
    the code relies on as \<open>qt_ok\<close>; QtDemo has a concrete instance with every law.
  \<^item> QDocUtils (qdocutils): value formats, paths, comparison. QDocConfig
    (qdocdbcommonconfig): ids.
  \<^item> QDocKV: the four key-value classes, a constructor of \<open>kv\<close> each, and their
    iterators; QDocKVContract: their interfaces as the locales \<open>kv_interface\<close> and
    \<open>kv_transaction\<close>, interpreted on all classes.
  \<^item> QDocIterator and QDocScan: the keys of the versions of a document, the iterator over
    them, and its refinement to the latest version not after a snapshot. QDocQuery:
    \<open>checkValidR\<close> and its declarative meaning; QDocOptions: \<open>applyOptions\<close>.
  \<^item> QDocCollection (state, reads, observers), QDocFind (what a scan returns),
    QDocTransaction, QDocTransactionLaws, QDocCommit (writes, and what a commit leaves),
    QDocSnapshots, QDocVersions (numbers, and what earlier snapshots still see). QDocDemo has
    concrete collections for the witnesses.
  \<^item> QDocDatabase; QDocLink: messages, framing, receiver; QDocServer, QDocServerLaws: the
    requests of \<open>receive\<close>, connections and locks as steps, their invariants;
    QDocDemoServer.
  \<^item> QDocClient, QDocClientLaws, QDocClientStates: the client as a state machine over its
    operations; QDocSession: client and server together. QDocConnector,
    QDocConnectorLaws, QDocConnectorStates: the items and their shared clients;
    QDocDemoClient.
  \<^item> LdbCoding, LdbCrc (util/coding, util/crc32c); LdbLog, LdbLogLaws (db/log_writer,
    db/log_reader): the log, and what a reader finds in a file cut anywhere. LdbFormat
    (util/comparator.cc, db/dbformat): the locales \<open>ordering\<close> and \<open>comparator_laws\<close>,
    interpreted by the byte order and by the order of internal keys. LdbSkipList,
    LdbSkipListLaws (db/skiplist.h): the refinement to a sorted sequence; LdbMemTable
    (db/memtable.cc); LdbBatch (db/write_batch.cc); LdbDb, LdbDbLaws (db/db_impl.cc): group
    commit, reads, recovery.
  \<^item> LdbIter (include/leveldb/iterator.h): iterators as records of operations, and the
    locale \<open>iterates\<close>, the contract that all of them keep for a list of entries.
    LdbMerger, LdbMergerLaws (table/merger.cc, table/iterator_wrapper.h); LdbDBIter,
    LdbDBIterLaws (db/db_iter.cc): from entries with sequence numbers to visible keys;
    LdbReads: the iterator of a database over all of them.
  \<^item> LdbBlock, LdbBlockLaws, LdbBlockBuilt (table/block_builder.cc, table/block.cc): the
    bytes of a block and its iterator. LdbTwoLevel (table/two_level_iterator.cc).
    LdbFilter (util/hash.cc, util/bloom.cc, \<open>InternalFilterPolicy\<close> of db/dbformat.cc), with
    the locale \<open>filter_policy\<close>; LdbFilterBlock (table/filter_block.cc).
  \<^item> LdbTable (table/format.cc, table/table_builder.cc, table/table.cc, the options of
    tables in util/options.cc and db/db_impl.cc). LdbTableLaws: handles, footers, stored
    blocks, and the locales \<open>compressor\<close> and \<open>table_comparator\<close>; LdbTableBuilt: an
    invariant of the builder, in the locale \<open>table_builder\<close>; LdbTableRead: the finished file,
    opened again; LdbTableGet: the iterator of the table and \<open>InternalGet\<close>.

  \<^bold>\<open>How state and operations correspond\<close>

  Each class is a record with the fields of the source, or a datatype with a constructor for
  each class behind a base pointer, and each method is a definition of the same name (with a
  prefix where two classes share one: \<open>tx_\<close> for the transaction, \<open>cl_\<close> for the
  client, \<open>cn_\<close> for the item, \<open>wb_\<close> for the write batch, and so on). An object that
  the source changes in place is an argument and a result. Errors are values: the codes of
  the source in \<open>rcode\<close>, \<open>kvcode\<close>, \<open>clcode\<close>, \<open>ldbstatus\<close>. Machine integers that
  wrap where it matters are words (the 8-bit snapshot numbers, the hashes, lengths and
  sequence numbers of LevelDB), or an \<open>int\<close> with the wrap-around written out
  (\<open>int32_inc\<close>). Clocks, generated ids, arrivals on a socket, the events of a wait,
  the outcomes of file operations and what other threads do while a writer waits are arguments.

  \<^bold>\<open>What the properties show\<close>

  Documents: a find returns exactly the matching documents of its snapshot, committed inserts
  and removals change it as they should and are invisible to earlier snapshots; rejected
  operations change nothing; queries have their declarative meaning. Storage: the classes
  are maps, a commit makes the transaction's view the content. Messages: framing loses and
  changes nothing. Server and client: invariants of the reachable states, locks, the match
  of answers to calls, observers. LevelDB: its formats are read back, the log and the
  recovery survive a crash at any byte, a group of writes is atomic and visible from its
  sequence numbers on. Every iterator walks, in both directions, the entries it stands for:
  those of a block or of a table file are the ones that were added to their builder, those
  of a database the keys and values that are visible.

  \<^bold>\<open>Bounds, fuel and the result None\<close>

  A scan over a store has the fuel \<open>scanFuel\<close>, the number of its entries and one, and
  \<open>scans_terminate\<close> shows that it is never used up. The loop of \<open>readyRead\<close> has as
  fuel the number of buffered bytes and one: each round takes at least one byte, except for a
  negative length, for which \<open>negative_length_diverges\<close> shows that no fuel is enough. The
  search of a transaction number has the number of open transactions and three. Loops that
  follow pointers (the skip list) and the waits of \<open>MakeRoomForWrite\<close> have no bound of
  their own: the result \<open>None\<close> says that they do not end, and the theorems show that the
  searches do. In the client, the server and the items \<open>None\<close> is a null dereference or a call
  through a pointer to an item that was destroyed; \<open>item_calls_end\<close> shows when neither happens.

  The numbers of requests, transactions and observers are 32-bit integers that wrap around.
  A client's next number can be in use only when \<open>2 ^ 32\<close> slots wait in its queue: what a
  call needs of it is \<open>cl_fresh\<close>, which \<open>client_invariant\<close> gives for the reachable states.

  \<^bold>\<open>Not modelled\<close>

  \<^item> Of qdocdb: printing for debugging, the settings file and the sockets themselves, the
    examples. That \<open>get\<close> of a message inserts an invalid variant for a missing key cannot
    be observed. Requests that another slot starts inside a nested event loop are not among
    the events of a wait.
  \<^item> Of LevelDB: what is listed as not modelled in the manifest: versions, compaction and
    repair, the environments, the C binding, the benchmarks. The contents of the block cache
    are an argument of the functions that look into it, the compression library is the
    parameter \<open>snappy\<close>; the sampling of reads is left out. Readers that run concurrently with
    a writer and the memory arena are left out; the memory that a memtable uses is a function
    of it. \<open>WriteLevel0Table\<close> is its outcome only.
\<close>

section \<open>Documents: find, insert, remove, snapshots\<close>

text \<open>
  C1: A \<open>find\<close> that neither \<open>_id\<close> nor an index answers returns, on any sorted store with the
  layout of documents, exactly the documents that the collection's snapshot shows and that
  match the query, in key order, after the query's options were applied.
\<close>
theorem find_refines_shown:
  assumes "sorted_keys (kv_entries (coll_kv c))" "doc_store js (map_of (kv_entries (coll_kv c)))"
    and "wf_query (JObj query)" "fullSearch (getIndexes Q c) query"
  shows "coll_find Q u c query options = Some (success, applyOptions Q options
    (filter (\<lambda>(d, i). matches Q (JObj query) d)
      (shownDocs Q (map_of (kv_entries (coll_kv c))) (coll_snapshotId c) js)))"
  by (rule find_shown [OF assms])

theorem find_refines_shown_witness:
  "coll_find qt_demo False demo_level [(''ro'', JBool True)] [] = Some (success, [(JObj demo_doc, ''a'')])"
  using find_refines_shown [of demo_level "[''a'']" "[(''ro'', JBool True)]" qt_demo False "[]"]
  by (simp add: demo_sorted demo_doc_store wf_queryKey.simps isOperator_def fullSearch_def shownDocs_def
      demo_docAt matchesKey.simps getJsonValueByPath_field demo_doc_def obj_value_def fieldValid_def isComparison_def)



text \<open>
  C3: Removing a document of a collection without indexes and committing succeeds, and
  afterwards every full-search query finds exactly what it found before under the other ids.
\<close>
theorem remove_commit_find:
  assumes "qt_ok Q" "coll_ok c" "getIndexes Q c = []" "doc_store js (content c)"
    and "no_later (coll_snapshotId c) (content c)" "i \<in> set js"
    and "docAt Q (content c) (coll_snapshotId c) i = d" "isObject d"
    and "\<not> readOnlyKeyValid cfg \<or> ir \<or> \<not> isReadOnlyDoc Q cfg d"
  shows "\<exists>c' js'. removeCommit Q u u0 cfg i ir c = Some (success, c') \<and> coll_ok c' \<and>
    doc_store js' (content c') \<and>
    (\<forall>query. wf_query (JObj query) \<longrightarrow> fullSearch (getIndexes Q c) query \<longrightarrow> fullSearch (getIndexes Q c') query \<longrightarrow>
       finds Q u query c c' (\<lambda>r. {e \<in> r. snd e \<noteq> i}))"
  using remove_finds [OF assms] by blast

theorem remove_commit_find_witness:
  "\<exists>c'. removeCommit qt_demo False 0 demo_cfg ''a'' True demo_coll = Some (success, c') \<and> coll_ok c'"
  using remove_commit_find [OF qt_demo_ok demo_coll_ok(1) demo_indexes(1) _ _ _ _ _, of "[''a'']" "''a''" "JObj demo_doc"
      demo_cfg True False 0] demo_doc_store demo_no_later demo_docAt
  by fastforce



text \<open>
  C5: \<open>newSnapshot\<close> under a new name succeeds, the collection moves to the next number, and
  both the collection and the snapshot object of the old number answer every full-search
  query with the list the collection gave before; the layout is kept.
\<close>
theorem newSnapshot_preserves_find:
  assumes "qt_ok Q" "coll_ok c" "ascii_indexes Q c" "doc_store js (content c)"
    and "no_later (coll_snapshotId c) (content c)" "coll_snapshotId c < 255"
    and "getSnapshotsValue Q c = (Inr snapshots, c)" "snapshots \<noteq> []" "name \<notin> set snapshots"
  shows "\<exists>c' signals. newSnapshot Q name c = Some (success, c', signals) \<and> coll_ok c' \<and>
    coll_snapshotId c' = coll_snapshotId c + 1 \<and> doc_store js (content c') \<and>
    no_later (coll_snapshotId c') (content c') \<and>
    getSnapshotsValue Q c' = (Inr (snapshots[length snapshots - 1 := name] @ [''__CURRENT'']), c') \<and>
    (\<forall>query. wf_query (JObj query) \<longrightarrow> fullSearch (getIndexes Q c) query \<longrightarrow> fullSearch (getIndexes Q c') query \<longrightarrow>
       coll_find Q u c' query [] = coll_find Q u c query [] \<and>
       coll_find Q u (QDocCollectionSnapshot c' (coll_snapshotId c)) query [] = coll_find Q u c query [])"
  by (rule newSnapshot_finds [OF assms])

theorem newSnapshot_preserves_find_witness:
  "\<exists>c' signals. newSnapshot qt_demo ''s1'' demo_coll = Some (success, c', signals) \<and> coll_snapshotId c' = 1"
  using newSnapshot_preserves_find [OF qt_demo_ok demo_coll_ok(1) demo_ascii(1) _ _ _ demo_snapshots, of "[''a'']" "''s1''" False]
    demo_doc_store demo_no_later by auto

text \<open>
  C6: \<open>getModified\<close> of a collection or a snapshot ends and lists, in key order, the
  documents that have a version whose number, read as a signed byte, is after the snapshot.
\<close>
theorem getModified_spec:
  assumes "sorted_keys (kv_entries (coll_kv c))" "doc_store js (map_of (kv_entries (coll_kv c)))"
  shows "getModified c = Some (filter (modifiedAfter (map_of (kv_entries (coll_kv c))) (coll_snapshotId c)) js)"
  by (rule getModified_shown [OF assms])

theorem getModified_spec_witness: "getModified demo_coll = Some []"
proof -
  have "\<not> modifiedAfter (map_of demo_db) 0 ''a''"
  proof
    assume "modifiedAfter (map_of demo_db) 0 ''a''"
    then obtain s where s: "map_of demo_db (constructDocumentLinkKey ''a'' s) \<noteq> None" "0 < sint s"
      by (auto simp: modifiedAfter_def)
    then have "s \<le> 0" using demo_no_later [of 0] unfolding no_later_def by blast
    then show False using s(2) by simp
  qed
  then show ?thesis using getModified_spec [of demo_coll "[''a'']"] by (simp add: demo_sorted demo_doc_store)
qed

text \<open>
  C7: An insert of an id that exists is answered \<open>errorAlreadyExists\<close> without overwrite, and
  \<open>errorObjectIsReadOnly\<close> with overwrite when the stored document is marked read-only and the
  mark is not to be ignored; either way the transaction and its observers are as before.
\<close>
theorem insert_rejected:
  assumes "insertId e g doc0 = Some (doc, i, g')"
    and "getJsonValue Q (coll_kv c) (coll_snapshotId c) i \<noteq> JUndefined"
    and "overwrite \<longrightarrow> \<not> ignoreReadOnlyValue \<and> readOnlyKeyValid cfg \<and> isReadOnlyDoc Q cfg (getJsonValue Q (coll_kv c) (coll_snapshotId c) i)"
  shows "tx_insert Q u cfg e doc0 i0 overwrite ignoreReadOnlyValue g c =
    (if overwrite then errorObjectIsReadOnly else errorAlreadyExists, i, g', c)"
  using assms tx_insert_exists [OF assms(1,2)] tx_insert_readOnly [OF assms(1) refl assms(2)]
  by (cases overwrite) simp_all

theorem insert_rejected_witness:
  "tx_insert qt_demo False demo_cfg demo_env demo_doc [] True False demo_gen demo_coll =
    (errorObjectIsReadOnly, ''a'', demo_gen, demo_coll)"
  using insert_rejected [OF demo_insertId(1), of qt_demo demo_coll True False demo_cfg False "[]"]
  by (simp add: demo_getJsonValue demo_readOnly)

text \<open>
  C8: Reading one document by its id through the iterator gives, for every snapshot number,
  the latest version not after that number, and an undefined value when the version is one
  a removal wrote.
\<close>
theorem getJsonValue_latest:
  assumes "sorted_keys (kv_entries k)" "doc_store js (map_of (kv_entries k))" "i \<in> set js"
  shows "getJsonValue Q k my i = docAt Q (map_of (kv_entries k)) my i"
  by (rule getJsonValue_docAt [OF assms])

theorem getJsonValue_latest_witness:
  "getJsonValue qt_demo (KVLevelDB \<lparr>ldb_data = demo_db, ldb_status = None\<rparr>) 0 ''a'' = JObj demo_doc"
  using getJsonValue_latest [of "KVLevelDB \<lparr>ldb_data = demo_db, ldb_status = None\<rparr>" "[''a'']" "''a''" qt_demo 0]
  by (simp add: demo_sorted demo_doc_store demo_docAt)

text \<open>
  C9: The scans end on every sorted store, whatever its keys and values: a full-search
  \<open>find\<close> with any query and options and \<open>getModified\<close> both give a result within the fuel of
  one step per entry.
\<close>
theorem scans_terminate:
  assumes "sorted_keys (kv_entries (coll_kv c))" "fullSearch (getIndexes Q c) query"
  shows "coll_find Q u c query options \<noteq> None \<and> getModified c \<noteq> None"
  using find_total [OF assms] getModified_total [OF assms(1)] by simp

theorem scans_terminate_witness: "coll_find qt_demo True demo_coll [(''$x'', JNull)] [] \<noteq> None"
  using scans_terminate [of demo_coll qt_demo "[(''$x'', JNull)]"] by (simp add: demo_sorted fullSearch_def)

text \<open>
  C10: A query on \<open>_id\<close> of a collection without indexed query fields reads the named
  versions of the current snapshot directly: the reply is the matching documents in the
  order of the ids, the options are not applied, and the ids returned are link keys.
\<close>
theorem find_by_id:
  assumes "wf_query (JObj query)" "smap_has ''_id'' query"
    and "\<forall>(k, v) \<in> set query. \<not> smap_has k (getIndexes Q c)"
  shows "coll_find Q u c query options = Some (success,
    filter (\<lambda>(d, lk). isObject d \<and> matches Q (JObj query) d)
      (map (\<lambda>lk. (getJsonValueByLinkKey Q c lk, lk))
        (concat (map (\<lambda>(k, v). if k = ''_id'' then idLinkKeys Q c v else []) query))))"
  using findLinks_id [OF assms(3), of True "[]"] checkLinks_matches [OF assms(1), of Q u c _ "[]"] assms(2)
  by (simp add: coll_find_def)

theorem find_by_id_witness:
  "coll_find qt_demo False demo_coll [(''_id'', JStr ''a'')] [(''$limit'', JNum 0)]
    = Some (success, [(JObj demo_doc, constructDocumentLinkKey ''a'' 0)])"
proof -
  have r: "getJsonValueByLinkKey qt_demo demo_coll (constructDocumentLinkKey ''a'' 0) = JObj demo_doc"
    using unmarshal_marshal_object [OF qt_demo_ok demo_wf]
    by (simp add: getJsonValueByLinkKey_def demo_coll_def QDocCollection_kv_def kvmap_getValue_def demo_db_def
        linkKey_startKey)
  have l: "constructDocumentLinkKeyS qt_demo ''a'' 0 = constructDocumentLinkKey ''a'' 0"
    by (simp add: constructDocumentLinkKeyS_def qt_demo_def)
  show ?thesis
    using find_by_id [of "[(''_id'', JStr ''a'')]" qt_demo demo_coll False "[(''$limit'', JNum 0)]"]
    by (simp add: wf_queryKey.simps isOperator_def isComparison_def idLinkKeys_def matchesKey.simps l r
        getJsonValueByPath_field demo_doc_def obj_value_def fieldValid_def)
qed

section \<open>The key-value layer\<close>

text \<open>
  C11: On each of the four key-value classes, with its invariant, any sequence of writes
  and deletions keeps the invariant and is read back as that sequence applied to the map
  that was read before.
\<close>
theorem kv_ops_refine_map:
  assumes "kv_ok s"
  shows "kv_ok (fold kv_op ops s) \<and> kv_read (fold kv_op ops s) = fold op_map ops (kv_read s)"
  using kv_ok_ops [OF assms] kv_read_ops [OF assms] by simp

theorem kv_ops_refine_map_witness:
  "kv_read (fold kv_op [BatchPut ''x'' ''1'', BatchDelete ''y''] (KVMap [(''y'', ''2'')])) = [''x'' \<mapsto> ''1'']"
  using kv_ops_refine_map [of "KVMap [(''y'', ''2'')]" "[BatchPut ''x'' ''1'', BatchDelete ''y'']"]
  by (simp add: kv_read_map fun_eq_iff)

text \<open>
  C12: Committing a transaction, on either kind of database, reports success and leaves the
  database reading exactly as the transaction did; a map transaction needs for this that
  what it deletes is in the database and was not also written. Before the commit the
  database reads as it did before the transaction's writes.
\<close>
theorem commit_is_view:
  assumes "qt_ok Q" "kv_ok s" "kv_committable (fold kv_op ops s)" "kv_is_transaction s"
  shows "kv_read (kv_base (fold kv_op ops s)) = kv_read (kv_base s) \<and>
    snd (kv_writeTransaction Q (fold kv_op ops s)) = None \<and>
    kv_ok (kv_base (fst (kv_writeTransaction Q (fold kv_op ops s)))) \<and>
    kv_read (kv_base (fst (kv_writeTransaction Q (fold kv_op ops s)))) = fold op_map ops (kv_read s)"
  using kv_commit [OF assms(1) kv_ok_ops [OF assms(2)] assms(3)] kv_base_ops [OF assms(1,2,4), of ops]
    kv_read_ops [OF assms(2), of ops]
  by simp

theorem commit_is_view_witness:
  "kv_read (kv_base (fst (kv_writeTransaction qt_demo
     (kv_op (BatchDelete ''x'') (KVMapTransaction [(''x'', ''1'')] kvmap_newTransaction))))) = Map.empty"
  using commit_is_view [OF qt_demo_ok, of "KVMapTransaction [(''x'', ''1'')] kvmap_newTransaction" "[BatchDelete ''x'']"]
  by (simp add: kv_op_def kvmap_newTransaction_def kvmaptx_deleteValue_def kv_read_maptx tx_view_def fun_eq_iff)

text \<open>
  C13: What a map transaction writes, whatever its operations were. If some key was deleted by
  the last operation on it and is not in the database, the commit reports \<open>errorOperation\<close>.
  Otherwise the commit succeeds, and every key then holds the value it was last given, even
  when it was deleted after that, is gone when it was only deleted, and is as before when it
  was not touched. A LevelDB transaction with the same operations is committed in both cases.
\<close>
theorem delete_absent_commit:
  assumes "qt_ok Q" "sorted_keys db"
  shows "snd (kv_writeTransaction Q (fold kv_op ops (KVMapTransaction db kvmap_newTransaction)))
      = (if absentDeletes ops db = [] then None else Some (errorOperation, ''Not found'')) \<and>
    (absentDeletes ops db = [] \<longrightarrow>
      kv_read (kv_base (fst (kv_writeTransaction Q (fold kv_op ops (KVMapTransaction db kvmap_newTransaction)))))
        = (\<lambda>k. case lastPut ops k of Some v \<Rightarrow> Some v | None \<Rightarrow> if deletedLast ops k then None else map_of db k)) \<and>
    snd (kv_writeTransaction Q (fold kv_op ops
      (KVLevelDBTransaction \<lparr>ldb_data = db, ldb_status = None\<rparr> kvldb_newTransaction))) = None"
  using maptx_write [OF assms, of ops] ldbtx_write [of Q ops db] by simp

theorem delete_absent_commit_witness:
  "snd (kv_writeTransaction qt_demo (kv_op (BatchDelete ''x'') (KVMapTransaction [] kvmap_newTransaction)))
      = Some (errorOperation, ''Not found'') \<and>
   kv_read (kv_base (fst (kv_writeTransaction qt_demo (kv_op (BatchDelete ''x'') (kv_op (BatchPut ''x'' ''2'')
      (KVMapTransaction [(''x'', ''1'')] kvmap_newTransaction)))))) ''x'' = Some ''2''"
  using delete_absent_commit [OF qt_demo_ok, of "[]" "[BatchDelete ''x'']"]
    delete_absent_commit [OF qt_demo_ok, of "[(''x'', ''1'')]" "[BatchPut ''x'' ''2'', BatchDelete ''x'']"]
  by (simp add: absentDeletes_def deletedLast_def lastPut_def)

section \<open>Queries, options and values\<close>

text \<open>
  C14: On a query in which every operator has an argument of its type, \<open>checkValidR\<close>
  succeeds on every document and decides the declarative meaning of the query: conjunction
  of the keys, dotted paths, comparisons, membership, \<open>$or\<close>, \<open>$and\<close>, \<open>$not\<close>, \<open>$exists\<close>.
\<close>
theorem query_semantics:
  assumes "wf_query q"
  shows "checkValidR Q u q d p v = (success, matches Q q d)"
  by (rule checkValidR_matches [OF assms])

theorem query_semantics_witness:
  "checkValidR qt_demo False (JObj [(''n'', JObj [(''$gt'', JNum 1)])]) (JObj [(''n'', JNum 2)]) [] True = (success, True)"
  using query_semantics [of "JObj [(''n'', JObj [(''$gt'', JNum 1)])]" qt_demo False "JObj [(''n'', JNum 2)]" "[]" True]
  by (simp add: wf_queryKey.simps isOperator_def isComparison_def matchesKey.simps getJsonValueByPath_field
      obj_value_def compare_def compare_by_def)

text \<open>
  C15: A query object with an operator that is none of the nine, an \<open>$exists\<close> without a
  boolean, or an \<open>$in\<close>, \<open>$or\<close> or \<open>$and\<close> without an array, is never accepted: the check of any
  document returns \<open>errorQuery\<close>. The name \<open>$exist\<close> is no operator, so it is rejected too. The
  other operators take every argument: the four comparisons succeed on any pair of values,
  and a \<open>$not\<close> of something that is not an object succeeds and matches no document.
\<close>
theorem bad_operator_rejected:
  assumes "(k, v) \<in> set obj" "bad_key k v"
  shows "fst (checkValidR Q u (JObj obj) d p b) = errorQuery \<and>
    bad_key ''$exist'' w \<and>
    (isComparison c \<longrightarrow> checkValidR Q u (JObj [(c, w)]) d p b = (success, compare d w c)) \<and>
    (\<not> isObject w \<longrightarrow> checkValidR Q u (JObj [(''$not'', w)]) d p b = (success, False))"
  using checkValidR_bad [OF assms, of Q u d p b] check_codes(1) [of Q u "JObj obj" d p b]
    exist_bad [of w] comparison_any [of c Q u w d p b] not_any [of w Q u d p b] by auto

theorem bad_operator_rejected_witness:
  "fst (checkValidR qt_demo False (JObj [(''$foo'', JNull)]) JNull [] True) = errorQuery \<and>
   checkValidR qt_demo False (JObj [(''$not'', JNull)]) JNull [] True = (success, False)"
  using bad_operator_rejected [of "''$foo''" JNull "[(''$foo'', JNull)]" qt_demo False JNull "[]" True JNull "[]"]
  by (simp add: bad_key_def isOperator_def isComparison_def)

text \<open>
  C16: Sorting a reply by \<open>$orderBy\<close>, for documents with distinct ids whose values at the
  path are pairwise comparable, gives a permutation of the reply, in order by that value,
  and keeps the relative order of documents with equal values.
\<close>
theorem orderBy_sorts:
  assumes "orderSpec options = (path, up)" "path \<noteq> []" "\<not> smap_has ''$limit'' options"
    and "inj_on docId (fst ` set xs)" "sameKind ((\<lambda>e. getJsonValueByPath Q (fst e) path) ` set xs)"
  shows "mset (applyOptions Q options xs) = mset xs \<and>
    sorted_wrt (\<lambda>x y. inOrder up (getJsonValueByPath Q (fst x) path) (getJsonValueByPath Q (fst y) path))
      (applyOptions Q options xs) \<and>
    filter (\<lambda>e. getJsonValueByPath Q (fst e) path = v) (applyOptions Q options xs)
      = filter (\<lambda>e. getJsonValueByPath Q (fst e) path = v) xs"
  using mset_applyOptions [OF assms(3), of Q xs] bubbleLoop_sorted [OF assms(4,5), of up]
    bubbleLoop_stable [OF assms(4), of Q path v up] assms(1-3)
  by (simp add: applyOptions_def)

theorem orderBy_sorts_witness:
  "mset (applyOptions qt_demo [(''$orderBy'', JObj [(''n'', JNum 1)])]
     [(JObj [(''_id'', JStr ''a''), (''n'', JNum 2)], ()), (JObj [(''_id'', JStr ''b''), (''n'', JNum 1)], ())])
   = mset [(JObj [(''_id'', JStr ''a''), (''n'', JNum 2)], ()), (JObj [(''_id'', JStr ''b''), (''n'', JNum 1)], ())]"
proof -
  have "orderSpec [(''$orderBy'', JObj [(''n'', JNum 1)])] = (''n'', True)"
    by (simp add: orderSpec_def obj_value_def)
  then show ?thesis
    using orderBy_sorts [of "[(''$orderBy'', JObj [(''n'', JNum 1)])]" "''n''" True
      "[(JObj [(''_id'', JStr ''a''), (''n'', JNum 2)], ()), (JObj [(''_id'', JStr ''b''), (''n'', JNum 1)], ())]" qt_demo JNull]
    by (simp add: inj_on_def docId_def obj_value_def sameKind_def comparable_def getJsonValueByPath_field)
qed

text \<open>
  \<open>$limit\<close> cuts the reply that the other options give to its first documents: a
  negative limit, and a limit that is no 32-bit integer, give the empty reply.
\<close>
theorem limit_takes_prefix:
  assumes "smap_has ''$limit'' options"
  shows "applyOptions Q options xs =
    take (nat (toInt (obj_value options ''$limit''))) (applyOptions Q (filter (\<lambda>e. fst e \<noteq> ''$limit'') options) xs)"
  by (rule applyOptions_limit [OF assms])

theorem limit_takes_prefix_witness:
  "applyOptions qt_demo [(''$limit'', JNum 1)] [(JNull, 1 :: nat), (JNull, 2)] = [(JNull, 1)]"
  using limit_takes_prefix [of "[(''$limit'', JNum 1)]" qt_demo "[(JNull, 1 :: nat), (JNull, 2)]"]
  by (simp add: obj_value_def)

text \<open>
  C17: Reading back a marshalled value gives the value, except that a number is read back as
  undefined; different values have different bytes, which is what the index keys rely on.
\<close>
theorem marshal_roundtrip:
  assumes "qt_ok Q" "wf_json v \<or> v = JUndefined"
  shows "unmarshal Q (marshal Q v) = (if isDouble v then JUndefined else v) \<and>
    (\<forall>w. wf_json w \<or> w = JUndefined \<longrightarrow> marshal Q v = marshal Q w \<longrightarrow> v = w)"
  using unmarshal_marshal [OF assms] marshal_inject [OF assms] by blast

theorem marshal_roundtrip_witness: "unmarshal qt_demo (marshal qt_demo (JNum 3)) = JUndefined"
  using marshal_roundtrip [OF qt_demo_ok, of "JNum 3"] by simp

text \<open>
  A dotted path is read step by step: the value at \<open>p.q\<close> is the value at \<open>q\<close> inside
  the value at \<open>p\<close>.
\<close>
theorem path_append:
  assumes "p \<noteq> []" "last p \<noteq> CHR ''.''" "q \<noteq> []"
  shows "getJsonValueByPath Q v (p @ CHR ''.'' # q) = getJsonValueByPath Q (getJsonValueByPath Q v p) q"
  by (rule getJsonValueByPath_append [OF assms])

theorem path_append_witness:
  "getJsonValueByPath qt_demo (JObj [(''a'', JObj [(''b'', JNull)])]) ''a.b'' = JNull"
  using path_append [of "''a''" "''b''" qt_demo "JObj [(''a'', JObj [(''b'', JNull)])]"]
  by (simp add: getJsonValueByPath_field obj_value_def)



section \<open>Messages\<close>

text \<open>
  C19: However the bytes of a sequence of messages are cut into arrivals on the socket, the
  receiver delivers exactly these messages, in their order, and ends with empty buffers.
\<close>
theorem messages_delivered:
  assumes "wire_ok W" "\<forall>lo \<in> set los. sendable W lo" "concat chunks = concat (map (lo_marshal W) los)"
  shows "rx_arrivals W chunks rx_new = Some (los, rx_new)"
  by (rule rx_arrivals_sent [OF assms])

theorem messages_delivered_witness:
  "rx_arrivals wire_demo (map (\<lambda>c. [c]) (lo_marshal wire_demo (newLinkObject 1 typeUnlock))) rx_new
    = Some ([newLinkObject 1 typeUnlock], rx_new)"
proof -
  have "sendable wire_demo (newLinkObject 1 typeUnlock)"
    by (simp add: sendable_def newLinkObject_def QDocdbLinkObject_def assignType_def lo_get_def wire_demo_def
        enc_list_def enc_str_def enc_nat_def enc_rat_def funcName_def QDOCDB_FUNCMAP_def)
  then show ?thesis using messages_delivered [OF wire_demo_ok, of "[newLinkObject 1 typeUnlock]"] by simp
qed

text \<open>
  C20: A frame whose header is a negative length is never finished: once a byte follows the
  header, the receiver's loop runs on without reading for every number of rounds.
\<close>
theorem negative_length_diverges:
  assumes "4 < length bs" "of_le32 (take 4 bs) < 0"
  shows "\<forall>fuel. readyRead W fuel (rx_new\<lparr>rx_socket := bs\<rparr>) = None"
  using readyRead_hangs [OF assms] by blast

theorem negative_length_diverges_witness:
  "readyRead wire_demo 1000 (rx_new\<lparr>rx_socket := [CHR 0x00, CHR 0x00, CHR 0x00, CHR 0x80, CHR ''x'']\<rparr>) = None"
  using negative_length_diverges [of "[CHR 0x00, CHR 0x00, CHR 0x00, CHR 0x80, CHR ''x'']" wire_demo]
  by (simp add: of_le32_def)

text \<open>
  A document put into a message as a variant comes out as the document it was, numbers
  included.
\<close>
theorem document_travels:
  assumes "wf_json (JObj doc)"
  shows "vObject (jsonToVariant (JObj doc)) = doc"
  using variantToJson_jsonToVariant [OF assms] by (simp add: vObject_def)

theorem document_travels_witness:
  "vObject (jsonToVariant (JObj [(''n'', JNum 3)])) = [(''n'', JNum 3)]"
  using document_travels [of "[(''n'', JNum 3)]"] by simp

section \<open>The server\<close>

text \<open>
  While the counter is not negative and fewer than \<open>2 ^ 31\<close> numbers are used up, the
  server finds a transaction number within one round per open transaction; the number is
  not negative and belongs to no open transaction.
\<close>
theorem next_transaction_id:
  assumes "0 \<le> srv_transactionId srv"
    and "srv_transactionId srv + int (length (srv_transactions srv)) + 1 < 2 ^ 31"
  shows "\<exists>i srv'. getNextTransactionId srv = Some (i, srv') \<and> 0 \<le> i \<and>
    \<not> smap_has i (srv_transactions srv') \<and> srv_transactions srv' = srv_transactions srv"
  using getNextTransactionId_total [OF assms] nextTransactionLoop_fresh
  by (fastforce simp: getNextTransactionId_def)

theorem next_transaction_id_witness: "getNextTransactionId demo_srv \<noteq> None"
  using next_transaction_id [of demo_srv] by (auto simp: demo_srv_def srv_new_def)

text \<open>
  C21: In every state the server reaches from its start by connections, requests, queued
  slots and disconnections, in any order, every lock is held by a connected client, every
  queue of waiting requests belongs to one, and no client is listed twice.
\<close>
theorem server_invariant:
  assumes "srv_reachable Q u u0 cfg e H (srv_new d g) srv"
  shows "ran (map_of (srv_databaseLocks srv)) \<subseteq> set (srv_clients srv) \<and>
    dom (map_of (srv_unlockWait srv)) \<subseteq> set (srv_clients srv) \<and> distinct (srv_clients srv)"
  using srv_reachable_ok [OF assms] by (simp add: srv_ok_def)

theorem server_invariant_witness:
  "distinct (srv_clients (newConnection 1 (srv_new ''/base'' demo_gen)))"
proof -
  have "srv_reachable qt_demo False 0 demo_cfg demo_env demo_host (srv_new ''/base'' demo_gen)
      (newConnection 1 (srv_new ''/base'' demo_gen))"
    by (rule srv_reachable.Step [OF srv_reachable.Start srv_step.Connect]) (simp add: srv_new_def)
  then show ?thesis using server_invariant by blast
qed

text \<open>
  C22: A lock stays with its owner through every step of the server except three: the
  owner's own unlock request, the owner's disconnection, and the slot that replays the
  owner's waiting requests.
\<close>
theorem lock_stays:
  assumes "srv_step Q u u0 cfg e H srv i s srv'" "srv_ok srv"
    and "map_of (srv_databaseLocks srv) d = Some own" "\<not> ends_lock H d own srv i"
  shows "map_of (srv_databaseLocks srv') d = Some own"
  by (rule step_lock_kept [OF assms])

theorem lock_stays_witness: "map_of (srv_databaseLocks (clientRemoved 2 demo_srv)) ''db'' = Some 1"
proof -
  have "srv_step qt_demo False 0 demo_cfg demo_env demo_host demo_srv (Disconnect 2) [] (clientRemoved 2 demo_srv)"
    by (rule srv_step.Disconnect) (simp add: demo_srv_def)
  then show ?thesis
    by (rule lock_stays [OF _ demo_srv_ok]) (simp_all add: demo_srv_def ends_lock_def)
qed



text \<open>
  A client that inserts, without a transaction and without overwrite, a document whose
  id exists is answered with an empty error text and no reply object, as for a success.
\<close>
theorem rejected_insert_reply:
  assumes "qt_ok Q" "coll_ok c" "lo_type lo = typeInsert" "lo_get lo ''transactionId'' = QInt (- 1)"
    and "\<not> vBool (lo_get lo ''overwrite'')"
    and "insertId e (srv_idGen srv) (vObject (lo_get lo ''document'')) = Some (doc, i, g')"
    and "getJsonValue Q (coll_kv c) (coll_snapshotId c) i \<noteq> JUndefined"
  shows "\<exists>srv'. handleModify Q u u0 cfg e lo ref c srv = Some ([], None, srv')"
  by (rule handleModify_exists [OF assms])

theorem rejected_insert_reply_witness:
  "\<exists>srv'. handleModify qt_demo False 0 demo_cfg demo_env demo_insert (''db'', 0) demo_coll demo_srv = Some ([], None, srv')"
proof -
  have fields: "lo_get demo_insert ''transactionId'' = QInt (- 1)" "lo_get demo_insert ''overwrite'' = QInvalid"
    "lo_get demo_insert ''document'' = QVariantMap [(''_id'', QString ''a'')]"
    by (simp_all add: demo_insert_def lo_get_def lo_set_def newLinkObject_def QDocdbLinkObject_def assignType_def)
  have ins: "insertId demo_env (srv_idGen demo_srv) (vObject (lo_get demo_insert ''document''))
      = Some ([(''_id'', JStr ''a'')], ''a'', srv_idGen demo_srv)"
    by (simp add: fields vObject_def insertId_def)
  show ?thesis
    by (rule rejected_insert_reply [OF qt_demo_ok demo_coll_ok(1) demo_insert_type fields(1) _ ins])
      (simp_all add: fields demo_getJsonValue)
qed

text \<open>
  A database keeps one object per collection: a collection that was opened is found
  again as the same object, with any in-memory flag, and objects already there stay at
  their places.
\<close>
theorem one_object_per_collection:
  assumes "db_ok db" "db_collection Q H name mem db = (Some i, db')"
  shows "db_ok db' \<and> db_collection Q H name mem' db' = (Some i, db') \<and>
    take (length (db_collList db)) (db_collList db') = db_collList db"
  using db_collection_ok(1,3) [OF assms] db_collection_again [OF assms(2)] by simp

theorem one_object_per_collection_witness:
  "db_collection qt_demo demo_host ''db'' True (QDocDatabase_new\<lparr>db_collList := [demo_coll]\<rparr>)
    = (Some 0, QDocDatabase_new\<lparr>db_collList := [demo_coll]\<rparr>)"
proof -
  let ?db = "QDocDatabase_new\<lparr>db_collList := [demo_coll]\<rparr>"
  have "db_collection qt_demo demo_host ''db'' False ?db = (Some 0, ?db)"
    by (simp add: db_collection_def QDocDatabase_new_def demo_coll_def QDocCollection_kv_def)
  moreover have "db_ok ?db" by (simp add: db_ok_def)
  ultimately show ?thesis using one_object_per_collection by blast
qed

section \<open>The client\<close>

text \<open>
  C24: A call of the client whose next request number is not in use ends with the server's answer to its request. The request goes
  to the server, the answer comes back over the wire in any pieces and among any other
  events of the wait; then the call succeeds exactly when the server's error text is empty,
  the reply it reads is the one the server sent, and otherwise the error text is kept.
\<close>
theorem call_gets_answer:
  assumes "cl_ok s" "cl_fresh s" "cl_connected s" "''id'' \<notin> fst ` set params"
    and "srv_receive Q u u0 cfg e H cl (requestMsg ty params s) srv = Some ([(cl, reply)], srv')"
    and "wire_ok W" "sendable W reply" "concat chunks = lo_marshal W reply"
    and "rx_arrivals W chunks rx_new = Some (los, rx)" "evs = pre @ map EvReceive los @ post"
    and "\<forall>ev \<in> set pre \<union> set post. no_reply (cl_nextFId s) ev"
  shows "\<exists>s'. cl_request ty params evs s =
      Some (if vString (lo_get reply ''error'') = [] then clSuccess else clError, cl_nextFId s, s') \<and>
    map_of (cl_replies s') (cl_nextFId s) = Some reply \<and> cl_ok s' \<and>
    (vString (lo_get reply ''error'') \<noteq> [] \<longrightarrow> cl_lastError s' = vString (lo_get reply ''error''))"
  by (rule call_answered [OF assms])

theorem call_gets_answer_witness:
  "\<exists>s'. cl_request typeDiscardTransaction [(''transactionId'', QInt 5)] (map EvReceive [demo_reply]) demo_client
      = Some (clError, 1, s') \<and> cl_lastError s' = ''Invalid transaction number 5''"
proof -
  have a: "srv_receive qt_demo False 0 demo_cfg demo_env demo_host 1
      (requestMsg typeDiscardTransaction [(''transactionId'', QInt 5)] demo_client) demo_srv = Some ([(1, demo_reply)], demo_srv)"
    by (rule demo_discard)
  note w = wire_demo_ok demo_reply_sendable
  have b: "rx_arrivals wire_demo [lo_marshal wire_demo demo_reply] rx_new = Some ([demo_reply], rx_new)"
    by (rule rx_arrivals_sent) (simp_all add: w)
  show ?thesis
    using call_gets_answer [OF demo_client_ok _ a w _ b, where pre = "[]" and post = "[]"]
    by auto
qed

text \<open>
  C25: A call, under a request number that is not in use, whose connection is lost before the answer arrives ends with the error
  "canceled" and a client without a connection; one that gets no answer at all ends with a
  connection error, waits for no reply any more, and keeps no reply under its number.
\<close>
theorem call_without_answer:
  assumes "cl_ok s" "cl_fresh s" "cl_connected s"
    and "\<forall>ev \<in> set pre \<union> set post. no_reply (cl_nextFId s) ev"
  shows "(\<exists>s'. cl_request ty params (pre @ EvClientRemoved True # post) s = Some (clError, cl_nextFId s, s') \<and>
      cl_lastError s' = ''canceled'' \<and> \<not> cl_connected s' \<and> cl_ok s') \<and>
    (\<exists>s'. cl_request ty params (pre @ post) s = Some (clErrorConnection, cl_nextFId s, s') \<and>
      map_of (cl_replies s') (cl_nextFId s) = None \<and> \<not> smap_has (cl_nextFId s) (cl_activeQueries s') \<and> cl_ok s')"
  using request_canceled [OF assms(1-3) refl assms(4)] request_timeout [OF assms(1-3), of "pre @ post"] assms(4)
  by simp

theorem call_without_answer_witness:
  "\<exists>s'. cl_request typeUnlock [] [EvReceive (newLinkObject 9 typeUnknown), EvClientRemoved True] demo_client
      = Some (clError, 1, s') \<and> \<not> cl_connected s'"
  using call_without_answer [OF demo_client_ok, of "[EvReceive (newLinkObject 9 typeUnknown)]" "[]" typeUnlock "[]"]
  by auto

text \<open>
  C26: When an exclusiveLock call of a client succeeds on the server's answer, the server
  holds the lock of the database of the URL for that client.
\<close>
theorem lock_call_holds:
  assumes "cl_ok s" "cl_fresh s" "cl_connected s"
    and "srv_receive Q u u0 cfg e H cl (requestMsg typeExclusiveLock [(''url'', QString url)] s) srv
      = Some ([(cl, reply)], srv')"
    and "wire_ok W" "sendable W reply" "concat chunks = lo_marshal W reply"
    and "rx_arrivals W chunks rx_new = Some (los, rx)" "evs = pre @ map EvReceive los @ post"
    and "\<forall>ev \<in> set pre \<union> set post. no_reply (cl_nextFId s) ev"
    and "cl_exclusiveLock url evs s = Some (clSuccess, s')"
  shows "map_of (srv_databaseLocks srv') (drop 1 (h_urlPath H url)) = Some cl"
proof -
  have "vString (lo_get reply ''error'') = []"
    using call_answered [OF assms(1-3) _ assms(4-10)] assms(11)
    by (auto simp: cl_exclusiveLock_def cl_command_def split: if_splits)
  then show ?thesis using receive_lock [OF assms(4)]
    by (simp add: requestMsg_fields dbNameOf_def) (simp add: requestMsg_def)
qed

theorem lock_call_holds_witness:
  "map_of (srv_databaseLocks demo_locked) ''db'' = Some 1"
proof -
  have a: "srv_receive qt_demo False 0 demo_cfg demo_env demo_host 1
      (requestMsg typeExclusiveLock [(''url'', QString [])] demo_client) demo_open = Some ([(1, demo_done)], demo_locked)"
    by (rule demo_lock)
  note w = wire_demo_ok demo_done_sendable
  have b: "rx_arrivals wire_demo [lo_marshal wire_demo demo_done] rx_new = Some ([demo_done], rx_new)"
    by (rule rx_arrivals_sent) (simp_all add: w)
  obtain s' where "cl_exclusiveLock [] [EvReceive demo_done] demo_client = Some (clSuccess, s')"
    using demo_lock_call by blast
  then show ?thesis
    using lock_call_holds [OF demo_client_ok a w _ b, where pre = "[]" and post = "[]" and s' = s']
    by (simp add: demo_host_def)
qed

text \<open>
  C27: In every state a client reaches, between its operations, no request is waiting, and
  every reply that is kept has its deletion queued. The next number is one of 32 bits, which
  wraps around; while fewer than \<open>2 ^ 32\<close> slots are queued it is the number of no kept reply
  and of no queued deletion, so the next request can be answered. The reconnection delay is
  one second plus a multiple of five, at most 61 seconds.
\<close>
theorem client_invariant:
  assumes "cl_reachable s"
  shows "cl_activeQueries s = [] \<and>
    (\<forall>i \<in> dom (map_of (cl_replies s)). DestroyReply i \<in> set (cl_queued s)) \<and>
    - (2 ^ 31) \<le> cl_nextFId s \<and> cl_nextFId s < 2 ^ 31 \<and>
    (length (cl_queued s) < 2 ^ 32 \<longrightarrow>
      cl_nextFId s \<notin> dom (map_of (cl_replies s)) \<and> DestroyReply (cl_nextFId s) \<notin> set (cl_queued s)) \<and>
    1000 \<le> cl_nextConnectWaitTimeout s \<and> cl_nextConnectWaitTimeout s \<le> 61000 \<and>
    cl_nextConnectWaitTimeout s mod 5000 = 1000"
proof -
  have i: "cl_inv s" by (rule cl_reachable_inv [OF assms])
  then have "int32 (cl_nextFId s)" by (auto simp: cl_inv_iff intro: consecutive_int32)
  moreover have "DestroyReply (cl_nextFId s) \<notin> set (cl_queued s)" if "length (cl_queued s) < 2 ^ 32"
    using cl_inv_fresh [OF i that] by (simp add: cl_fresh_def)
  ultimately show ?thesis using i by (auto simp: cl_inv_iff waitTime_def int32_def)
qed

theorem client_invariant_witness:
  "cl_nextConnectWaitTimeout (the (onConnectTimer False (\<lambda>i. []) (QDocdbClient True))) \<le> 61000"
proof -
  have "cl_step (QDocdbClient True) (the (onConnectTimer False (\<lambda>i. []) (QDocdbClient True)))"
    by (rule cl_step.Timer [of False "\<lambda>i. []"]) (simp add: onConnectTimer_def connectToServer_def)
  then have "cl_reachable (the (onConnectTimer False (\<lambda>i. []) (QDocdbClient True)))"
    by (rule cl_reachable.Step [OF cl_reachable.Start])
  then show ?thesis using client_invariant by blast
qed

text \<open>
  C28: While \<open>observe\<close> waits for its number, data that arrives is neither given to any
  subscriber nor lost; once it has returned, the queued slot gives all of it, in the order
  of arrival, to the subscribers, the new one included.
\<close>
theorem observed_data_kept:
  assumes "cl_observe sub url query queryOptions preferedId evs s = Some (i, s')" "i \<noteq> - 1"
  shows "cl_calls s' = cl_calls s \<and> ObserveDataProcess \<in> set (cl_queued s') \<and> subOf s' i = Some sub \<and>
    cl_calls (observeDataProcess s') =
      cl_calls s @ map (\<lambda>(j, reply). (subOf s' j, j, reply)) (cl_observeData s @ dataOf evs) \<and>
    cl_observeData (observeDataProcess s') = []"
  using observe_data [OF assms(1)] assms(2) process_data [of s'] by simp

theorem observed_data_kept_witness:
  "\<exists>s'. cl_observe 4 ''u'' [] [] (- 1) demo_events demo_client = Some (7, s') \<and>
    cl_calls (observeDataProcess s') = [(Some 4, 7, [JNum 1])]"
proof -
  obtain s' where s': "cl_observe 4 ''u'' [] [] (- 1) demo_events demo_client = Some (7, s')"
    using demo_observe by blast
  from observed_data_kept [OF s'] s' show ?thesis by (simp add: demo_dataOf demo_client_def QDocdbClient_def)
qed

section \<open>The items of the QML interface\<close>

text \<open>
  C29: In every state of a program's items, however they are created, given URLs, used,
  called back and destroyed, the number of uses of a client is the number of items that
  have it, and neither an item nor the map of server names refers to a client that was
  deleted.
\<close>
theorem items_share_clients:
  assumes "cn_reachable U H w"
  shows "(\<forall>k \<in> dom (map_of (w_clients w)). map_of (w_dbClientUses w) k = Some (int (usersOf k (w_items w)))) \<and>
    (\<forall>n k. itemClient n w = Some k \<longrightarrow> k \<in> dom (map_of (w_clients w))) \<and>
    snd ` set (w_dbClients w) \<subseteq> dom (map_of (w_clients w))"
  using cn_reachable_ok [OF assms] by (simp add: world_ok_def world_shape_def pointing_def counted_def)

theorem items_share_clients_witness:
  "itemClient 0 demo_world = Some 1 \<and> map_of (w_dbClientUses demo_world) 1 = Some 1"
proof -
  have "cn_reachable demo_urls demo_host demo_world"
    by (rule cn_reachable.Step [OF cn_reachable.Start cn_step.NewWith [OF demo_world_made]])
  from items_share_clients [OF this] show ?thesis using demo_world_item by auto
qed

text \<open>
  C30: Every call of an item that exists, valid or not, ends with a result, and never reaches
  a client that is gone or has no connection, as long as the item's client has only
  subscribers that exist and fewer than \<open>2 ^ 32\<close> queued slots (\<open>usable\<close>). The first condition
  is needed and the program does not keep it: data for a subscriber that was destroyed is
  delivered through a dangling pointer, and some run of a program reaches that point.
\<close>
theorem item_calls_end:
  assumes "cn_reachable U H w" "map_of (w_items w) n = Some cn"
  shows "(usable n w \<longrightarrow> cn_find n query snapshot evs w \<noteq> None \<and> cn_findOne n query snapshot evs w \<noteq> None \<and>
    cn_count n reply0 query snapshot evs w \<noteq> None \<and> cn_insert n doc transactionId evs w \<noteq> None \<and>
    cn_remove n query transactionId evs w \<noteq> None \<and> cn_removeId n idString transactionId evs w \<noteq> None \<and>
    cn_newTransaction n evs w \<noteq> None \<and> cn_writeTransaction n transactionId evs w \<noteq> None \<and>
    cn_discardTransaction n transactionId evs w \<noteq> None \<and> removeQueryResults n evs w \<noteq> None \<and>
    setValue n vals evs w \<noteq> None \<and> cn_createIndex n field indexName evs w \<noteq> None \<and>
    cn_newSnapshot n snapshot evs w \<noteq> None \<and> cn_revertToSnapshot n snapshot evs w \<noteq> None \<and>
    cn_removeSnapshot n snapshot evs w \<noteq> None \<and> cn_observe n evs w \<noteq> None \<and> cn_unobserve n evs w \<noteq> None) \<and>
    (map_of (w_clients w) k = Some c \<and> cl_queued c = ObserveDataProcess # qs \<and> \<not> cl_observeDataLock c \<and>
      (i, reply) \<in> set (cl_observeData c) \<and> subOf c i = Some m \<and> m \<notin> dom (map_of (w_items w)) \<longrightarrow>
      callClient k (\<lambda>c. Some (cl_event EvQueued c)) w = None) \<and>
    (\<exists>U' H' w' k' c'. cn_reachable U' H' w' \<and> map_of (w_clients w') k' = Some c' \<and>
      callClient k' (\<lambda>c. Some (cl_event EvQueued c)) w' = None)"
proof (intro conjI)
  show "\<exists>U' H' w' k' c'. cn_reachable U' H' w' \<and> map_of (w_clients w') k' = Some c' \<and>
      callClient k' (\<lambda>c. Some (cl_event EvQueued c)) w' = None"
    using demo_dangling by blast
qed (use cn_reachable_ok [OF assms(1)] assms(2) dangling_delivery [of w k c qs i reply m] in
    \<open>simp_all add: item_total_simps cn_observe_total cn_unobserve_total del: not_None_eq\<close>)

theorem item_calls_end_witness: "cn_newTransaction 0 [] demo_world \<noteq> None"
proof -
  have "cn_reachable demo_urls demo_host demo_world"
    by (rule cn_reachable.Step [OF cn_reachable.Start cn_step.NewWith [OF demo_world_made]])
  moreover obtain cn where "map_of (w_items demo_world) 0 = Some cn" using demo_world_item by blast
  ultimately show ?thesis using item_calls_end [of demo_urls demo_host demo_world 0] demo_world_item(4) by blast
qed

section \<open>The vendored store: formats\<close>

text \<open>
  C31: The encodings of numbers and strings that LevelDB appends to its records are read
  back, whatever was written before and follows: fixed and variable numbers of both widths,
  and strings shorter than \<open>2 ^ 32\<close>. A variable number takes at most 5 or 10 bytes, as many
  as \<open>VarintLength\<close> says, and a decoder that succeeds has consumed between one byte and that
  bound, and nothing after it.
\<close>
theorem coding_roundtrip:
  assumes "length s < 2 ^ 32"
  shows "DecodeFixed32 (drop (length dst) (PutFixed32 dst v @ rest)) = v \<and>
    DecodeFixed64 (drop (length dst) (PutFixed64 dst w @ rest)) = w \<and>
    GetVarint32 (drop (length dst) (PutVarint32 dst v @ rest)) = Some (v, rest) \<and>
    GetVarint64 (drop (length dst) (PutVarint64 dst w @ rest)) = Some (w, rest) \<and>
    GetLengthPrefixedSlice (drop (length dst) (PutLengthPrefixedSlice dst s @ rest)) = Some (s, rest) \<and>
    length (EncodeVarint32 v) \<le> 5 \<and> length (EncodeVarint64 w) = VarintLength w \<and> VarintLength w \<le> 10 \<and>
    (\<forall>p x q. GetVarint32 p = Some (x, q) \<longrightarrow> (\<exists>c. p = c @ q \<and> c \<noteq> [] \<and> length c \<le> 5)) \<and>
    (\<forall>p x q. GetVarint64 p = Some (x, q) \<longrightarrow> (\<exists>c. p = c @ q \<and> c \<noteq> [] \<and> length c \<le> 10))"
proof -
  have "GetVarint32 p = Some (x, q) \<Longrightarrow> \<exists>c. p = c @ q \<and> c \<noteq> [] \<and> length c \<le> 5" for p x q
    by (drule GetVarint32_rest)
  moreover have "GetVarint64 p = Some (x, q) \<Longrightarrow> \<exists>c. p = c @ q \<and> c \<noteq> [] \<and> length c \<le> 10" for p x q
    by (drule GetVarint64_rest)
  ultimately show ?thesis
    using assms by (simp add: PutFixed32_def PutFixed64_def PutVarint32_def PutVarint64_def
        PutLengthPrefixedSlice_append [of dst] length_varint)
qed

theorem coding_roundtrip_witness:
  "GetLengthPrefixedSlice (PutLengthPrefixedSlice [] ''abc'' @ ''x'') = Some (''abc'', ''x'') \<and>
   DecodeFixed32 (PutFixed32 [] 7 @ []) = 7"
  using coding_roundtrip [of "''abc''" "[]" 7 "''x''"] coding_roundtrip [of "''abc''" "[]" 7 "[]"] by simp

text \<open>
  C32: The checksum that the table-driven code computes, four bytes at a step from an
  aligned address and sixteen at a time, is CRC-32C defined bit by bit, for every start
  address, initial value and length; extending the checksum of a part by the rest gives the
  checksum of the whole, and a stored (masked) checksum can be unmasked.
\<close>
theorem crc_is_crc32c:
  "Extend pval crc buf = crc32c crc buf \<and> Extend pval (Extend pval' crc a) b = crc32c crc (a @ b) \<and>
   Unmask (Mask crc) = crc"
  by (simp add: Extend_crc32c crc32c_append Unmask_Mask)

text \<open>
  C33: The log survives a crash. Records are appended to a new log, all of them with
  success. Whatever prefix of the file is left, the reader gets from it the first \<open>m\<close>
  records, exactly as they were, reports no corruption, and \<open>m\<close> counts every record whose
  \<open>AddRecord\<close> had returned when the file had that size: no complete record is lost, and no
  part of a record is taken for a record.
\<close>
theorem log_survives_crash:
  assumes "j \<le> length recs" "logged (addRecords newLog (take j recs)) \<le> n"
  shows "fst (AddRecord rec (addRecords newLog recs)) \<and>
    (\<exists>m r. recoverLog checksum (take n (wf_data (lw_dest (addRecords newLog recs)))) = (take m recs, r) \<and>
           lr_reports r = [] \<and> j \<le> m)"
  using recoverLog_cut [of checksum n recs] addRecords_ok [of rec recs] assms by metis

theorem log_survives_crash_witness:
  "\<exists>m r. recoverLog True (wf_data (lw_dest (addRecords newLog [''a'', ''bc'']))) = (take m [''a'', ''bc''], r) \<and>
         lr_reports r = [] \<and> 2 \<le> m"
proof -
  let ?w = "addRecords newLog [''a'', ''bc'']"
  have "logged (addRecords newLog (take 2 [''a'', ''bc''])) \<le> logged ?w" by simp
  from log_survives_crash [OF _ this] show ?thesis unfolding logged_def by fastforce
qed

section \<open>The vendored store: memtable, batches, recovery\<close>

text \<open>
  C34: For every total preorder of the keys, a skip list that holds a sequence of keys keeps
  it sorted; every search and step ends, although the loops have no bound of their own; an
  insertion of a key that is not there gives a list that holds the sequence with the key at
  its place; \<open>Contains\<close> decides membership; and the iterator walks the nodes of the
  sequence, forwards and backwards, from either end or from a key.
\<close>
theorem skiplist_refines_sequence:
  assumes "ordering cmp" "sl_holds cmp l ks"
  shows "sorted_wrt (\<lambda>a b. cmp a b < 0) ks \<and>
    (\<forall>k. (\<forall>x \<in> set ks. cmp x k \<noteq> 0) \<longrightarrow>
       (\<exists>l'. sl_Insert cmp k l = Some l' \<and>
             sl_holds cmp l' (takeWhile (\<lambda>x. cmp x k < 0) ks @ k # dropWhile (\<lambda>x. cmp x k < 0) ks))) \<and>
    (\<forall>k. sl_Contains cmp k l = Some (\<exists>x \<in> set ks. cmp k x = 0)) \<and>
    (\<exists>ys. ks = map (sli_key l) ys \<and> sli_SeekToFirst l = first ys \<and>
       sli_SeekToLast l = Some (if ys = [] then None else Some (last ys)) \<and>
       (\<forall>k. sli_Seek cmp l k = Some (first (drop (length (takeWhile (\<lambda>x. cmp x k < 0) ks)) ys))) \<and>
       (\<forall>i < length ys. sli_Next l (ys ! i) = first (drop (Suc i) ys) \<and>
          sli_Prev cmp l (ys ! i) = Some (if i = 0 then None else Some (ys ! (i - 1)))))"
proof -
  obtain ys where ys: "sl_wf cmp l ys" "ks = map (sli_key l) ys"
    using assms(2) by (auto simp: sl_holds_def sli_key_def)
  have "sorted_wrt (\<lambda>a b. cmp a b < 0) ks" using ys by (simp add: sl_wf_def sorted_wrt_map sli_key_def)
  moreover have "sli_Seek cmp l k = Some (first (drop (length (takeWhile (\<lambda>x. cmp x k < 0) ks)) ys))" for k
    using ordering.sli_Seek_wf [OF assms(1) ys(1)] ordering.upper_drop [OF assms(1), of l k ys]
    by (simp add: ys(2) sli_key_def [abs_def])
  ultimately show ?thesis
    using ordering.sl_Insert_holds [OF assms] ordering.sl_Contains_iff [OF assms(1) ys(1)]
      ordering.sli_SeekToFirst_wf [OF assms(1) ys(1)] ordering.sli_SeekToLast_wf [OF assms(1) ys(1)]
      ordering.sli_Next_wf [OF assms(1) ys(1)] ordering.sli_Prev_wf [OF assms(1) ys(1)]
    by (intro conjI exI [of _ ys]) (simp_all add: ordering.insertAt_def [OF assms(1)] ys(2) sli_key_def)
qed

theorem skiplist_refines_sequence_witness:
  "\<exists>l'. sl_Insert slice_compare ''k'' (newSkipList []) = Some l' \<and> sl_holds slice_compare l' [''k'']"
  using skiplist_refines_sequence [OF bytewise_keys.ordering_axioms newSkipList_holds] by fastforce

text \<open>
  C35: Inserting a batch of updates into a memtable succeeds, and afterwards a read at any
  sequence number \<open>s\<close>, of a snapshot or of the newest state, gives what the memtable gave
  before, changed by exactly the updates whose numbers are at most \<open>s\<close>, in the order of the
  batch: the last update of the key wins, a deletion hides the value, and earlier snapshots
  see nothing of the batch.
\<close>
theorem batch_in_memtable:
  assumes "comparator_laws C" "mem_holds C mem es" "\<forall>x \<in> set es. e_seq x < sq" "\<forall>p \<in> set ops. opSmall p"
    "room sq (length ops)" "length ops < 2 ^ 31"
  shows "\<exists>mem'. wb_InsertInto C (wb_SetSequence sq (wb_of ops)) mem = Some (sOK, mem') \<and>
    (\<forall>k s. length k + 8 < 2 ^ 32 \<longrightarrow> s \<le> kMaxSequenceNumber \<longrightarrow>
       mem_Get C (LookupKey k s) mem' =
       Some (case foldl (opKnown C) (known C es s) (take (unat s + 1 - unat sq) ops) k of
               None \<Rightarrow> memAbsent | Some (Some v) \<Rightarrow> memFound v | Some None \<Rightarrow> memDeleted))"
  using comparator_laws.wb_InsertInto_batch [OF assms] comparator_laws.mem_Get_known [OF assms(1)]
  unfolding wb_of_batch wb_SetSequence_batch by metis

theorem batch_in_memtable_witness:
  "\<exists>mem'. wb_InsertInto BytewiseComparator (wb_SetSequence 1 (wb_of [wbPut ''a'' ''1'', wbDelete ''a''])) newMemTable
      = Some (sOK, mem') \<and>
    mem_Get BytewiseComparator (LookupKey ''a'' 1) mem' = Some (memFound ''1'') \<and>
    mem_Get BytewiseComparator (LookupKey ''a'' 2) mem' = Some memDeleted"
proof -
  let ?C = BytewiseComparator and ?ops = "[wbPut ''a'' ''1'', wbDelete ''a'']"
  have "\<forall>p \<in> set ?ops. opSmall p" "room 1 (length ?ops)" "length ?ops < 2 ^ 31"
    by (simp_all add: opSmall_def room_def)
  from batch_in_memtable [OF bytewise.comparator_laws_axioms newMemTable_holds _ this] obtain mem' where
    m: "wb_InsertInto ?C (wb_SetSequence 1 (wb_of ?ops)) newMemTable = Some (sOK, mem')"
      "\<And>k s. length k + 8 < 2 ^ 32 \<Longrightarrow> s \<le> kMaxSequenceNumber \<Longrightarrow>
         mem_Get ?C (LookupKey k s) mem' =
         Some (case foldl (opKnown ?C) (known ?C [] s) (take (unat s + 1 - unat (1 :: 64 word)) ?ops) k of
               None \<Rightarrow> memAbsent | Some (Some v) \<Rightarrow> memFound v | Some None \<Rightarrow> memDeleted)"
    by auto
  have "(1 :: 64 word) \<le> kMaxSequenceNumber" "(2 :: 64 word) \<le> kMaxSequenceNumber"
    by (simp_all add: word_le_nat_alt kMaxSequenceNumber_value)
  then show ?thesis
    using m(1) m(2) [of "''a''" 1] m(2) [of "''a''" 2] by (simp add: opKnown_def BytewiseComparator_def)
qed

text \<open>
  C36: A write of the front writer of the queue, with room in the memtable, succeeds for a
  group of writers at the front of the queue, and takes exactly them off it. Afterwards
  every read answers what it answered before, changed by the updates of the group in the
  order of the queue, whether the answer came from the memtable, the one being compacted or
  the tables; and the log has one more record, for the whole group.
\<close>
theorem group_write:
  assumes "comparator_laws C" "ldb_ok C start db recs"
    and "db_bg_error db = sOK" "db_l0 db < 8" "usage (db_mem db) \<le> limit"
    and "w_batch w = Some (batchBytes sq ops)" "list_all2 asks ws opss"
    and "\<forall>p \<in> set (ops @ concat opss). opSmall p" "length (ops @ concat opss) < 2 ^ 31"
      "unat (db_last_sequence db) + length (ops @ concat opss) < 2 ^ 56"
  shows "\<exists>m db'. m \<le> length ws \<and> dbWrite C usage limit chs files sOK (w # ws) db = Some (sOK, drop m ws, db') \<and>
      ldb_ok C start db' (recs @ [(db_last_sequence db + 1, ops @ concat (take m opss))]) \<and>
      (\<forall>k. length k + 8 < 2 ^ 32 \<longrightarrow>
         dbGet C (\<lambda>lk. tab (lk_user_key lk)) None k db' =
         foldl (opAnswer C) (\<lambda>k. dbGet C (\<lambda>lk. tab (lk_user_key lk)) None k db) (ops @ concat (take m opss)) k)"
  by (rule comparator_laws.dbWrite_group [where usage = usage and sq = sq and ops = ops]) (fact assms)+

theorem group_write_witness:
  "\<exists>ws db'. dbWrite BytewiseComparator (\<lambda>_. 0) 4096 [] [] sOK
      [\<lparr>w_batch = Some (wb_of [wbPut ''a'' ''1'']), w_sync = True\<rparr>] (freshDb 0) = Some (sOK, ws, db') \<and>
    dbGet BytewiseComparator (\<lambda>lk. (sNotFound, [])) None ''a'' db' = Some (sOK, ''1'')"
proof -
  let ?w = "\<lparr>w_batch = Some (wb_of [wbPut ''a'' ''1'']), w_sync = True\<rparr>"
  have "ldb_ok BytewiseComparator 0 (freshDb 0) []" by (rule freshDb_ldb_ok) simp
  moreover have "list_all2 asks [] []" "w_batch ?w = Some (batchBytes 0 [wbPut ''a'' ''1''])"
    by (simp_all add: wb_of_batch)
  ultimately show ?thesis
    using group_write [OF bytewise.comparator_laws_axioms, of 0 "freshDb 0" "[]" "\<lambda>_. 0" 4096 ?w 0 "[wbPut ''a'' ''1'']" "[]" "[]"
        "[]" "[]" "\<lambda>_. (sNotFound, [])"]
    by (fastforce simp: freshDb_def opSmall_def opAnswer_def BytewiseComparator_def)
qed

text \<open>
  C37: Atomicity and durability: in a database written by groups as in C36, let the process
  die and any prefix of its log be left. The recovery of that log succeeds, with or without
  paranoid checks and for every bound of the memtables, and the tables it writes hold
  exactly the entries of the first \<open>m\<close> groups, where \<open>m\<close> counts at least the groups whose
  records were completely in the prefix; the number it reports is no smaller than the
  number of any recovered entry, so no later write can reuse one.
\<close>
theorem recovery_is_prefix:
  assumes "comparator_laws C" "ldb_ok C start db recs"
    "j \<le> length recs" "logged (addRecords newLog (groupBytes (take j recs))) \<le> n"
  shows "\<exists>m st. RecoverLogFile C paranoid_checks usage limit
        (Inr \<lparr>rf_data = take n (wf_data (lw_dest (db_log db))), rf_outcomes = []\<rparr>) 0 [] = Some st \<and>
      rc_status st = sOK \<and> j \<le> m \<and> tablesHold C (rc_tables st) (groupEntries (take m recs)) \<and>
      (\<forall>e \<in> groupEntries (take m recs). e_seq e \<le> rc_max_sequence st)"
  using comparator_laws.RecoverLogFile_cut [OF assms(1,2), of paranoid_checks usage limit n] assms(3,4) by metis

theorem recovery_is_prefix_witness:
  "\<exists>db st. writeGroup BytewiseComparator True sOK (wb_of [wbPut ''a'' ''1'', wbDelete ''b'']) (freshDb 0) = Some (sOK, db) \<and>
    RecoverLogFile BytewiseComparator True (\<lambda>_. 0) 4096
      (Inr \<lparr>rf_data = take (logged (db_log db)) (wf_data (lw_dest (db_log db))), rf_outcomes = []\<rparr>) 0 [] = Some st \<and>
    rc_status st = sOK \<and> tablesHold BytewiseComparator (rc_tables st) (groupEntries [(1, [wbPut ''a'' ''1'', wbDelete ''b''])])"
proof -
  let ?C = BytewiseComparator and ?ops = "[wbPut ''a'' ''1'', wbDelete ''b'']"
  have "ldb_ok ?C 0 (freshDb 0) []" by (rule freshDb_ldb_ok) simp
  moreover have "\<forall>p \<in> set ?ops. opSmall p" "length ?ops < 2 ^ 31" "room (db_last_sequence (freshDb 0) + 1) (length ?ops)"
    "unat (db_last_sequence (freshDb 0)) + length ?ops < 2 ^ 56" "mem_holds ?C (db_mem (freshDb 0)) []" "set [] = groupEntries []"
    using newMemTable_holds [of ?C] by (simp_all add: freshDb_def opSmall_def room_def)
  ultimately obtain db where db: "writeGroup ?C True sOK (batchBytes 0 ?ops) (freshDb 0) = Some (sOK, db)"
    "ldb_ok ?C 0 db [(1, ?ops)]"
    using comparator_laws.writeGroup_ok [OF bytewise.comparator_laws_axioms, of 0 "freshDb 0" "[]" ?ops "[]" True 0]
    by (auto simp: freshDb_def)
  have log: "logged (addRecords newLog (groupBytes (take 1 [(1, ?ops)]))) \<le> logged (db_log db)"
    using db(2) by (simp add: ldb_ok_def)
  obtain m st where st: "RecoverLogFile ?C True (\<lambda>_. 0) 4096
      (Inr \<lparr>rf_data = take (logged (db_log db)) (wf_data (lw_dest (db_log db))), rf_outcomes = []\<rparr>) 0 [] = Some st"
    "rc_status st = sOK" "1 \<le> m" "tablesHold ?C (rc_tables st) (groupEntries (take m [(1, ?ops)]))"
    using recovery_is_prefix [OF bytewise.comparator_laws_axioms db(2) _ log, of True "\<lambda>_. 0" 4096] by auto
  have "take m [(1 :: 64 word, ?ops)] = [(1, ?ops)]" using st(3) by (cases m) simp_all
  then show ?thesis using db(1) st by (auto simp: wb_of_batch)
qed

text \<open>
  C38: The iterator of a database shows exactly what a reader at its sequence number sees. The
  memtable, the one being compacted and the iterators of the tables together hold the
  entries \<open>l\<close>. The iterator made over their merge keeps the contract of all iterators for the
  keys and values that are visible: it seeks and steps through them in the order of the
  comparator, in both directions with any changes between them, and every operation returns.
  A key is among them once, with the value of its newest entry not after the number, unless
  that entry is a deletion.
\<close>
theorem iterator_shows_visible:
  assumes "comparator_laws C" "iterates T (internal_Compare C) (2 ^ 32) tw" "db_holds C tw tables own l db"
    and "s = (case snapshot of Some s \<Rightarrow> s | None \<Rightarrow> db_last_sequence db)" "s \<le> kMaxSequenceNumber"
  shows "sorted_wrt (\<lambda>a b. cmp_Compare C (fst a) (fst b) < 0) (userEntries C s l) \<and>
    (\<forall>k v. (k, v) \<in> set (userEntries C s l) \<longleftrightarrow>
       (\<exists>e. visible C l s k = Some e \<and> e_type e = kTypeValue \<and> e_key e = k \<and> e_value e = v)) \<and>
    dbAt C (internalAt C T tw) (NewIterator C T tables snapshot db) (userEntries C s l) None \<and>
    iterates (DBIter (internalOps C T) C) (cmp_Compare C) (2 ^ 32 - 8) (dbAt C (internalAt C T tw))"
proof -
  have "entries_ok C l" using assms(3) by (simp add: db_holds_def Let_def)
  then show ?thesis
    using comparator_laws.userEntries_sorted [OF assms(1)] comparator_laws.userEntries_visible [OF assms(1)]
      comparator_laws.NewIterator_walks [OF assms] by blast
qed

theorem iterator_shows_visible_witness:
  "\<exists>mem st st' st''. mem_Add BytewiseComparator 1 kTypeValue ''a'' ''1'' newMemTable = Some mem \<and>
    dbi_SeekToFirst (internalOps BytewiseComparator EmptyIterator) BytewiseComparator
      (NewIterator BytewiseComparator EmptyIterator [] (Some 1) (freshDb 0\<lparr>db_mem := mem\<rparr>)) = Some st \<and>
    dbi_valid st \<and> dbi_key (internalOps BytewiseComparator EmptyIterator) st = ''a'' \<and>
    dbi_value (internalOps BytewiseComparator EmptyIterator) st = ''1'' \<and>
    dbi_Next (internalOps BytewiseComparator EmptyIterator) BytewiseComparator st = Some st' \<and> \<not> dbi_valid st' \<and>
    dbi_Seek (internalOps BytewiseComparator EmptyIterator) BytewiseComparator ''b'' st = Some st'' \<and> \<not> dbi_valid st''"
proof -
  let ?C = BytewiseComparator and ?I = "internalOps BytewiseComparator EmptyIterator"
  let ?e = "\<lparr>e_key = ''a'', e_seq = 1, e_type = kTypeValue, e_value = ''1''\<rparr>"
  have small: "small ?e" "(1 :: 64 word) \<le> kMaxSequenceNumber"
    by (simp_all add: small_def word_le_nat_alt kMaxSequenceNumber_value)
  obtain mem where mem: "mem_Add ?C 1 kTypeValue ''a'' ''1'' newMemTable = Some mem" "mem_holds ?C mem [?e]"
    using bytewise.mem_Add_holds [OF newMemTable_holds small(1)] by auto
  let ?db = "freshDb 0\<lparr>db_mem := mem\<rparr>" and ?at = "dbAt ?C (internalAt ?C EmptyIterator emptyAt)"
  have "db_holds ?C emptyAt [] (\<lambda>_. 0) [?e] ?db"
    using mem(2) small by (simp add: db_holds_def entries_ok_def freshDb_def chosen_def)
  note w = iterator_shows_visible [OF bytewise.comparator_laws_axioms empty_iterates this, of 1 "Some 1"]
  have us: "userEntries ?C 1 [?e] = [(''a'', ''1'')]" by (simp add: userEntries_def shown_def shownPair_def)
  have at: "?at (NewIterator ?C EmptyIterator [] (Some 1) ?db) [(''a'', ''1'')] None"
    and it: "iterates (DBIter ?I ?C) (cmp_Compare ?C) (2 ^ 32 - 8) ?at"
    using w small(2) by (simp_all add: us)
  have one: "atPos 0 [(''a'', ''1'')] = Some 0" by simp
  obtain st where st: "dbi_SeekToFirst ?I ?C (NewIterator ?C EmptyIterator [] (Some 1) ?db) = Some st" "?at st [(''a'', ''1'')] (Some 0)"
    using iterates.seek_first [OF it at] unfolding one by (auto simp: DBIter_def)
  obtain st' where st': "dbi_Next ?I ?C st = Some st'" "?at st' [(''a'', ''1'')] None"
    using iterates.next_at [OF it st(2)] by (auto simp: DBIter_def)
  obtain st'' where st'': "dbi_Seek ?I ?C ''b'' st = Some st''" "?at st'' [(''a'', ''1'')] None"
    using iterates.seek [OF it st(2), of "''b''"] by (auto simp: DBIter_def countBefore_def BytewiseComparator_def)
  show ?thesis
    using mem(1) st st' st'' iterates.at_valid [OF it] iterates.at_key [OF it st(2)] iterates.at_value [OF it st(2)]
    by (fastforce simp: DBIter_def)
qed
text \<open>
  C40: What a block builder writes is read back. For entries in the order of the comparator
  and any distance of the restart points, the iterator of the finished block keeps the
  contract of all iterators for exactly these entries: it seeks by a binary search over the
  restart points and steps in both directions, restoring the bytes a key shares with the key
  before, and no operation reads outside the block. The estimate of the size is exact.
\<close>
theorem block_roundtrip:
  assumes "ordering (cmp_Compare C)" "sorted_wrt (\<lambda>a b. cmp_Compare C (fst a) (fst b) < 0) es"
    and "b = foldl (\<lambda>b (k, v). bb_Add block_restart_interval k v b) bb_Reset es" "length (fst (bb_Finish b)) < 2 ^ 32"
  shows "\<exists>it. bk_NewIterator (Block (fst (bb_Finish b))) = Inr it \<and>
    sumAt emptyAt (blockAt C) (Inr it) es None \<and>
    iterates (blockOps C) (cmp_Compare C) (2 ^ 32) (sumAt emptyAt (blockAt C)) \<and>
    CurrentSizeEstimate b = length (fst (bb_Finish b))"
proof -
  obtain sh rs where "building es sh rs b" using building_all [of es block_restart_interval] unfolding assms(3) by blast
  note f = Finish_block [OF this assms(4)]
  show ?thesis
  proof (intro exI conjI)
    show "bk_NewIterator (Block (fst (bb_Finish b))) = Inr (newBlockIter (fst (bb_Finish b)) (off sh es (length es)) (length rs))"
      by (rule f(1))
    show "sumAt emptyAt (blockAt C) (Inr (newBlockIter (fst (bb_Finish b)) (off sh es (length es)) (length rs))) es None"
      unfolding sumAt_simps by (rule newBlockIter_at [OF f(2) assms(2)])
    show "iterates (blockOps C) (cmp_Compare C) (2 ^ 32) (sumAt emptyAt (blockAt C))"
      by (rule sum_iterates [OF empty_iterates block_iterates [OF assms(1)]])
    show "CurrentSizeEstimate b = length (fst (bb_Finish b))" by (rule Finish_length [symmetric])
  qed
qed

theorem block_roundtrip_witness:
  "\<exists>it s s' s''. bk_NewIterator (Block (fst (bb_Finish (bb_Add 16 ''ac'' ''2'' (bb_Add 16 ''ab'' ''1'' bb_Reset))))) = Inr it \<and>
    bi_Seek BytewiseComparator ''ac'' it = Some s \<and> bi_key s = ''ac'' \<and>
    bi_Prev s = Some s' \<and> bi_key s' = ''ab'' \<and> bi_Next s = Some s'' \<and> bi_current s'' = bi_restarts s''"
proof -
  let ?C = BytewiseComparator and ?es = "[(''ab'', ''1''), (''ac'', ''2'')]"
  let ?b = "bb_Add 16 ''ac'' ''2'' (bb_Add 16 ''ab'' ''1'' bb_Reset)" and ?at = "sumAt emptyAt (blockAt BytewiseComparator)"
  have "length (fst (bb_Finish ?b)) < 2 ^ 32"
    using Add_length [of 16 "''ac''" "''2''" "bb_Add 16 ''ab'' ''1'' bb_Reset"] Add_length [of 16 "''ab''" "''1''" bb_Reset]
    by (simp add: Finish_length) (simp add: CurrentSizeEstimate_def bb_Reset_def)
  moreover have "sorted_wrt (\<lambda>a b. cmp_Compare ?C (fst a) (fst b) < 0) ?es" by code_simp
  moreover have "?b = foldl (\<lambda>b (k, v). bb_Add 16 k v b) bb_Reset ?es" by (simp only: foldl.simps prod.case)
  ultimately obtain it where it: "bk_NewIterator (Block (fst (bb_Finish ?b))) = Inr it" "?at (Inr it) ?es None"
    and I: "iterates (blockOps ?C) (cmp_Compare ?C) (2 ^ 32) ?at"
    using block_roundtrip [OF bytewise.ordering_axioms, of ?es ?b 16] by blast
  have "countBefore (cmp_Compare ?C) ''ac'' ?es = 1"
    by (simp add: countBefore_def BytewiseComparator_def slice_compare_def)
  then have pos: "atPos (countBefore (cmp_Compare ?C) ''ac'' ?es) ?es = Some 1" "beforePos 1 = Some 0" "atPos (Suc 1) ?es = None"
    by (simp_all add: atPos_def beforePos_def)
  have "length ''ac'' < 2 ^ 32" by simp
  then obtain s where s: "i_Seek (blockOps ?C) ''ac'' (Inr it) = Some s" "?at s ?es (Some 1)"
    using iterates.seek [OF I, OF it(2), of "''ac''"] unfolding pos by blast
  obtain s' where s': "i_Prev (blockOps ?C) s = Some s'" "?at s' ?es (Some 0)"
    using iterates.prev_at [OF I, OF s(2)] unfolding pos by blast
  obtain s'' where s'': "i_Next (blockOps ?C) s = Some s''" "?at s'' ?es None"
    using iterates.next_at [OF I, OF s(2)] unfolding pos by blast
  obtain a where a: "bi_Seek ?C ''ac'' it = Some a" "s = Inr a" using s(1) by (auto simp: sumOps_def BlockIter_def)
  obtain a' where a': "bi_Prev a = Some a'" "s' = Inr a'" using s'(1) a(2) by (auto simp: sumOps_def BlockIter_def)
  obtain a'' where a'': "bi_Next a = Some a''" "s'' = Inr a''" using s''(1) a(2) by (auto simp: sumOps_def BlockIter_def)
  have "bi_key a = ''ac''" "bi_key a' = ''ab''"
    using iterates.at_key [OF I, OF s(2)] iterates.at_key [OF I, OF s'(2)] a(2) a'(2) by (simp_all add: sumOps_def BlockIter_def)
  moreover have "bi_current a'' = bi_restarts a''" using s''(2) a''(2) by (simp add: blockAt_def blockPos_def atEnd_def)
  ultimately show ?thesis using it(1) a a' a'' by blast
qed
text \<open>
  C39: What a table builder writes is read back. For entries in the order of the internal keys,
  added one by one with the options of a database (any user comparator and filters that keep
  their laws, any compression that is undone), \<open>Finish\<close> succeeds and the file that it leaves is
  opened: the iterator of the table keeps the contract of all iterators for exactly these
  entries, across its data blocks. \<open>InternalGet\<close> passes on the first entry that is not
  before the target, or nothing; if that entry has the user key of the target, it does pass
  it on, so no filter and no boundary of blocks hides it. No operation reads outside a buffer.
\<close>
theorem table_roundtrip:
  assumes "compressor sn" "comparator_laws (to_comparator src)"
    and "\<And>P. to_filter_policy src = Some P \<Longrightarrow> filter_policy P (=) \<and> length (fp_Name P) < 2 ^ 16"
    and "cmp = internal_Compare (to_comparator src)"
    and "sorted_wrt (\<lambda>a b. cmp (fst a) (fst b) < 0) es" "(\<Sum>e\<leftarrow>es. length (fst e) + length (snd e) + 60) < 2 ^ 31"
    and "r = tb_Finish sn (foldl (\<lambda>r (k, v). tb_Add sn k v r) (TableBuilder (SanitizeOptions src) \<lparr>wf_data = [], wf_outcomes = []\<rparr>) es)"
    and "length (wf_data (tb_file (snd r))) < 2 ^ 32"
    and "readable file (wf_data (tb_file (snd r)))" "cacheAgrees sn file cached"
  shows "\<exists>t w. fst r = sOK \<and> t_Open sn (SanitizeOptions src) file (tb_FileSize (snd r)) = Some (Inr t) \<and>
    iterates (TableIterator sn cached verify t) cmp (2 ^ 32) w \<and> w (t_NewIterator t) es None \<and>
    (\<forall>k. length k < 2 ^ 32 \<longrightarrow> (\<exists>saved. InternalGet sn cached verify k t = Some (sOK, saved) \<and>
      (saved = None \<or> countBefore cmp k es < length es \<and> saved = Some (es ! countBefore cmp k es)) \<and>
      (countBefore cmp k es < length es \<and> ExtractUserKey k = ExtractUserKey (fst (es ! countBefore cmp k es)) \<longrightarrow> saved \<noteq> None)))"
proof -
  have b: "table_builder sn (SanitizeOptions src) sameUser" by (rule database_builder [OF assms(1-3)])
  have c: "cmp_Compare (to_comparator (SanitizeOptions src)) = cmp" by (simp add: SanitizeOptions_def InternalKeyComparator_def assms(4))
  show ?thesis
    using table_builder.built_table [OF b, unfolded table_builder.newTable_def [OF b] c entriesWeight_def, OF assms(5-10)] .
qed

theorem table_roundtrip_witness:
  "\<exists>file t. let src = tableDefaults\<lparr>to_filter_policy := Some (BloomFilterPolicy 10)\<rparr>;
       r = tb_Finish noSnappy (tb_Add noSnappy ''b12345678'' ''2'' (tb_Add noSnappy ''a12345678'' ''1''
             (TableBuilder (SanitizeOptions src) \<lparr>wf_data = [], wf_outcomes = []\<rparr>)))
     in fst r = sOK \<and> t_Open noSnappy (SanitizeOptions src) file (tb_FileSize (snd r)) = Some (Inr t) \<and>
        InternalGet noSnappy (\<lambda>_. None) True ''b99999999'' t = Some (sOK, Some (''b12345678'', ''2''))"
proof -
  let ?src = "tableDefaults\<lparr>to_filter_policy := Some (BloomFilterPolicy 10)\<rparr>" and ?C = "internal_Compare BytewiseComparator"
  let ?es = "[(''a12345678'', ''1''), (''b12345678'', ''2'')]" and ?k = "''b99999999''"
  define r0 where "r0 = tb_Add noSnappy ''b12345678'' ''2'' (tb_Add noSnappy ''a12345678'' ''1'' 
      (TableBuilder (SanitizeOptions ?src) \<lparr>wf_data = [], wf_outcomes = []\<rparr>))"
  have r0: "r0 = foldl (\<lambda>r (k, v). tb_Add noSnappy k v r) (TableBuilder (SanitizeOptions ?src) \<lparr>wf_data = [], wf_outcomes = []\<rparr>) ?es"
    by (simp only: r0_def foldl.simps prod.case)
  have small: "length (wf_data (tb_file (snd (tb_Finish noSnappy r0)))) < 2 ^ 32"
  proof -
    let ?o = "SanitizeOptions ?src" and ?P = "InternalFilterPolicy (BloomFilterPolicy 10)"
    let ?d1 = "bb_Add 16 ''a12345678'' ''1'' bb_Reset" and ?fb = "fb_AddKey ''b12345678'' (fb_AddKey ''a12345678'' FilterBlockBuilder)"
    let ?d = "bb_Add 16 ''b12345678'' ''2'' ?d1"
    have o: "to_block_size ?o = 4096" "to_block_restart_interval ?o = 16" "to_filter_policy ?o = Some ?P" "to_compression ?o = kSnappyCompression"
      by (simp_all add: SanitizeOptions_def tableDefaults_def ClipToRange_def)
    have e: "CurrentSizeEstimate bb_Reset = 8" by (simp add: CurrentSizeEstimate_def bb_Reset_def)
    then have d: "CurrentSizeEstimate ?d1 \<le> 40" "CurrentSizeEstimate ?d \<le> 80"
      using Add_length [of 16 "''a12345678''" "''1''" bb_Reset] Add_length [of 16 "''b12345678''" "''2''" ?d1] by simp_all
    have no: "\<not> 4096 \<le> CurrentSizeEstimate ?d1" "\<not> 4096 \<le> CurrentSizeEstimate ?d" using d by simp_all
    have start: "StartBlock ?P off fb = fb" if "off < 2048" for off fb
      using \<open>off < 2048\<close> startLoop.simps [of ?P "unat off div 2048" fb] by (simp add: StartBlock_def word_less_nat_alt)
    have r: "tb_data_block r0 = ?d" "tb_index_block r0 = bb_Reset" "tb_options r0 = ?o" "tb_last_key r0 = ''b12345678''"
      "tb_filter_block r0 = Some (?P, ?fb)" "writing r0" "tdata r0 = []"
      using no o by (simp_all add: r0_def TableBuilder_def newRep_def onFilter_def tb_Add_def addIndexEntry_def Let_def start writing_def tdata_def)
    have p: "packed noSnappy (to_compression (tb_options r0)) (fst (bb_Finish (tb_data_block r0))) = (fst (bb_Finish ?d), kNoCompression)"
      by (simp add: r o packed_def noSnappy_def)
    have "?d = builtBlock 16 ?es" by (simp only: builtBlock_def foldl.simps prod.case)
    then have ne: "bb_buffer (tb_data_block r0) \<noteq> []" using builtBlock_empty [of 16 ?es] r(1) by simp
    let ?G = "fst (bb_Finish ?d) @ trailerOf (fst (bb_Finish ?d)) kNoCompression" and ?F = "tb_Flush noSnappy r0"
    have G: "length ?G \<le> 85" using d(2) by (simp add: Finish_length trailer_length)
    have off: "of_nat n < (2048 :: 64 word)" if "n \<le> 85" for n using that by (simp add: word_less_nat_alt unat_of_nat)
    note F = bloom_tables.Flush_writing [OF r(6) ne p]
    have f: "tdata ?F = ?G" "tb_filter_block ?F = Some (?P, ?fb)" "tb_index_block ?F = bb_Reset" "tb_last_key ?F = ''b12345678''"
      unfolding F using r start [OF off [OF G]] by (simp_all add: onFilter_def)
    have "length (fst (fb_Finish ?P ?fb)) \<le> 30"
      by (simp add: fb_Finish_def Let_def fb_AddKey_def FilterBlockBuilder_def GenerateFilter_def InternalFilterPolicy_def BloomFilterPolicy_def
          bloom_CreateFilter_def PutFixed32_def)
    then have "filterBytes ?F \<le> 35" by (simp add: filterBytes_def f)
    note L = bloom_tables.Flush_longer [OF r(3,6)]
    obtain H where "tdata (snd (tb_Finish noSnappy r0)) = ?G @ H" "length H \<le> 2 ^ 16 + 152 + filterBytes ?F + 8 + 9"
      using bloom_tables.Finish_appends [OF conjunct2 [OF conjunct2 [OF L]] conjunct1 [OF conjunct2 [OF L]]] unfolding f e by auto
    then show ?thesis using G \<open>filterBytes ?F \<le> 35\<close> unfolding tdata_def by simp
  qed
  have sorted: "sorted_wrt (\<lambda>a b. ?C (fst a) (fst b) < 0) ?es" by code_simp
  have count: "countBefore ?C ?k ?es = 1" by code_simp
  have user: "ExtractUserKey ?k = ExtractUserKey (fst (?es ! 1))" by code_simp
  let ?dat = "wf_data (tb_file (snd (tb_Finish noSnappy r0)))"
  define disk :: rfile where "disk = (\<lambda>offset n. (sOK, take n (drop (unat offset) ?dat)))"
  have R: "readable disk ?dat" "cacheAgrees noSnappy disk (\<lambda>_. None)" by (simp_all add: disk_def readable_def cacheAgrees_def)
  have laws: "comparator_laws (to_comparator ?src)" "?C = internal_Compare (to_comparator ?src)"
    by (simp_all add: tableDefaults_def bytewise.comparator_laws_axioms)
  have policy: "filter_policy P (=) \<and> length (fp_Name P) < 2 ^ 16" if "to_filter_policy ?src = Some P" for P
    using that bloom_policy [of 10] by (auto simp: BloomFilterPolicy_def)
  have weight: "(\<Sum>e\<leftarrow>?es. length (fst e) + length (snd e) + 60) < 2 ^ 31" by simp
  have r: "tb_Finish noSnappy r0 = tb_Finish noSnappy
      (foldl (\<lambda>r (k, v). tb_Add noSnappy k v r) (TableBuilder (SanitizeOptions ?src) \<lparr>wf_data = [], wf_outcomes = []\<rparr>) ?es)"
    by (simp only: r0)
  obtain t where t: "fst (tb_Finish noSnappy r0) = sOK"
    "t_Open noSnappy (SanitizeOptions ?src) disk (tb_FileSize (snd (tb_Finish noSnappy r0))) = Some (Inr t)"
    and G: "\<forall>k. length k < 2 ^ 32 \<longrightarrow> (\<exists>saved. InternalGet noSnappy (\<lambda>_. None) True k t = Some (sOK, saved) \<and>
      (saved = None \<or> countBefore ?C k ?es < length ?es \<and> saved = Some (?es ! countBefore ?C k ?es)) \<and>
      (countBefore ?C k ?es < length ?es \<and> ExtractUserKey k = ExtractUserKey (fst (?es ! countBefore ?C k ?es)) \<longrightarrow> saved \<noteq> None))"
    using table_roundtrip [OF no_snappy.compressor_axioms laws(1) policy laws(2) sorted weight r small R, of True] by blast
  have "length ?k < 2 ^ 32" "1 < length ?es" by simp_all
  then have "InternalGet noSnappy (\<lambda>_. None) True ?k t = Some (sOK, Some (?es ! 1))"
    using spec [OF G, of ?k] user unfolding count by blast
  moreover have "?es ! 1 = (''b12345678'', ''2'')" by simp
  ultimately have "InternalGet noSnappy (\<lambda>_. None) True ?k t = Some (sOK, Some (''b12345678'', ''2''))" by (simp only:)
  then show ?thesis using t unfolding r0_def Let_def by blast
qed

end
